(* ===== verification/Prelude.thy ===== *)
theory Prelude
  imports Main "HOL-Library.Word" "HOL-Library.Monad_Syntax"
begin

unbundle bit_operations_syntax

section \<open>Prelude: machine types, the C library, checked memory\<close>

text \<open>
  What every component shares: the widths of the code's integers, C characters and strings, the
  functions of the C library that the sources call, arrays with checked access, and the generic
  list lemmas of the proofs.  A C string is modelled by the list of its characters before the
  terminating NUL, so it never contains \<open>CHR 0x00\<close> (\<open>c_string\<close>).  A function that may
  read or write outside an array returns an option, and \<open>None\<close> is the undefined behaviour of
  such an access.
\<close>

subsection \<open>Machine types\<close>

type_synonym byte = "8 word"
type_synonym u32 = "32 word"
type_synonym u64 = "64 word"

named_theorems c_simps \<open>rewrite rules of the C library model\<close>
named_theorems mem_simps \<open>rewrite rules of checked memory accesses\<close>

text \<open>The value of an expression of type \<open>int\<close>, \<open>None\<close> on overflow.\<close>

definition c_int :: "int \<Rightarrow> int option" where
  "c_int i = (if - (2 ^ 31) \<le> i \<and> i < 2 ^ 31 then Some i else None)"

lemma c_int_Some: "c_int i = Some j \<longleftrightarrow> j = i \<and> - (2 ^ 31) \<le> i \<and> i < 2 ^ 31"
  by (auto simp: c_int_def)

lemma c_int_None: "c_int i = None \<longleftrightarrow> i < - (2 ^ 31) \<or> 2 ^ 31 \<le> i"
  by (auto simp: c_int_def)

text \<open>The casts between \<open>size_t\<close>, \<open>int\<close> and \<open>unsigned\<close>: \<open>static_cast<int> (strlen (s))\<close> and the like keep
  the low bits.\<close>

definition size_to_int :: "nat \<Rightarrow> int" where
  "size_to_int n = sint (of_nat n :: u32)"

definition int_to_size :: "int \<Rightarrow> nat" where
  "int_to_size i = unat (of_int i :: u64)"

definition int_to_unsigned :: "int \<Rightarrow> nat" where
  "int_to_unsigned i = unat (of_int i :: u32)"

lemma size_to_int_small: "n < 2 ^ 31 \<Longrightarrow> size_to_int n = int n"
  by (simp add: size_to_int_def signed_of_nat signed_take_bit_int_eq_self)

lemma int_to_size_small: "n < 2 ^ 64 \<Longrightarrow> int_to_size (int n) = n"
  by (simp add: int_to_size_def unsigned_of_nat take_bit_nat_eq_self)

lemma int_to_unsigned_size: "n < 2 ^ 32 \<Longrightarrow> int_to_unsigned (size_to_int n) = n"
  by (simp add: int_to_unsigned_def size_to_int_def unsigned_of_nat take_bit_nat_eq_self)

subsection \<open>Characters and strings of the C library\<close>

abbreviation NUL :: char where "NUL \<equiv> CHR 0x00"

definition c_string :: "string \<Rightarrow> bool" where
  "c_string s \<longleftrightarrow> NUL \<notin> set s"

text \<open>Reading character \<open>i\<close> of a C string; the terminator is at \<open>length s\<close>.\<close>

definition c_at :: "string \<Rightarrow> nat \<Rightarrow> char" where
  "c_at s i = (if i < length s then s ! i else NUL)"

definition ccode :: "char \<Rightarrow> nat" where
  "ccode c = of_char c"

definition c_isspace :: "char \<Rightarrow> bool" where
  "c_isspace c \<longleftrightarrow> ccode c = 32 \<or> (9 \<le> ccode c \<and> ccode c \<le> 13)"

definition c_isdigit :: "char \<Rightarrow> bool" where
  "c_isdigit c \<longleftrightarrow> 48 \<le> ccode c \<and> ccode c \<le> 57"

definition c_tolower :: "char \<Rightarrow> char" where
  "c_tolower c = (if 65 \<le> ccode c \<and> ccode c \<le> 90 then char_of (ccode c + 32) else c)"

text \<open>\<open>strcmp\<close>, \<open>strcasecmp\<close> and \<open>strncasecmp\<close> are used for equality only; for strings
  without NUL the bounded comparison is the comparison of the bounded prefixes.\<close>

definition EQUAL :: "string \<Rightarrow> string \<Rightarrow> bool" where
  "EQUAL a b \<longleftrightarrow> map c_tolower a = map c_tolower b"

definition EQUALN :: "string \<Rightarrow> string \<Rightarrow> nat \<Rightarrow> bool" where
  "EQUALN a b n \<longleftrightarrow> map c_tolower (take n a) = map c_tolower (take n b)"

definition STARTS_WITH_CI :: "string \<Rightarrow> string \<Rightarrow> bool" where
  "STARTS_WITH_CI a b \<longleftrightarrow> EQUALN a b (length b)"

text \<open>\<open>strchr (s, c) != NULL\<close>: the terminator counts as a character of the string.\<close>

definition c_strchr :: "string \<Rightarrow> char \<Rightarrow> bool" where
  "c_strchr s c \<longleftrightarrow> c = NUL \<or> c \<in> set s"

text \<open>\<open>strstr (h, n) != NULL\<close>.\<close>

fun c_strstr :: "string \<Rightarrow> string \<Rightarrow> bool" where
  "c_strstr [] n = (n = [])"
| "c_strstr (c # h) n = (take (length n) (c # h) = n \<or> c_strstr h n)"

text \<open>\<open>strcspn (s, r)\<close>: the length of the initial part without characters of \<open>r\<close>.\<close>

definition c_strcspn :: "string \<Rightarrow> string \<Rightarrow> nat" where
  "c_strcspn s r = length (takeWhile (\<lambda>c. c \<notin> set r) s)"

text \<open>The number at the start of a text: white space, an optional sign, then digits.  \<open>atoi\<close> is undefined
  where an \<open>int\<close> cannot hold it.\<close>

fun c_digits :: "int \<Rightarrow> string \<Rightarrow> int" where
  "c_digits acc [] = acc"
| "c_digits acc (c # s) =
     (if c_isdigit c then c_digits (10 * acc + int (ccode c - 48)) s else acc)"

definition c_scan_int :: "string \<Rightarrow> int" where
  "c_scan_int s =
     (case dropWhile c_isspace s of
        [] \<Rightarrow> 0
      | c # r \<Rightarrow>
          if c = CHR ''-'' then - c_digits 0 r
          else if c = CHR ''+'' then c_digits 0 r
          else c_digits 0 (c # r))"

definition c_atoi :: "string \<Rightarrow> int option" where
  "c_atoi s = c_int (c_scan_int s)"

text \<open>The characters of a \<open>std::string\<close> that a reader of its \<open>c_str ()\<close> sees.\<close>

definition c_str :: "string \<Rightarrow> string" where
  "c_str s = takeWhile (\<lambda>c. c \<noteq> NUL) s"

text \<open>\<open>%d\<close> of \<open>printf\<close>, for every integer type.\<close>

fun c_nat_decimal :: "nat \<Rightarrow> string" where
  "c_nat_decimal n = (if n < 10 then [char_of (48 + n)] else c_nat_decimal (n div 10) @ [char_of (48 + n mod 10)])"

declare c_nat_decimal.simps [simp del]

definition c_decimal :: "int \<Rightarrow> string" where
  "c_decimal i = (if i < 0 then CHR ''-'' # c_nat_decimal (nat (- i)) else c_nat_decimal (nat i))"

text \<open>\<open>%04X\<close> of a value below \<open>2 ^ 16\<close>.\<close>

definition c_hex4 :: "nat \<Rightarrow> string" where
  "c_hex4 n = map (\<lambda>d. ''0123456789ABCDEF'' ! (d mod 16)) [n div 4096, n div 256, n div 16, n]"

subsection \<open>Checked arrays\<close>

text \<open>Element \<open>i\<close> of an array, \<open>None\<close> outside its bounds; indices are C integers.\<close>

definition arr_get :: "'a list \<Rightarrow> int \<Rightarrow> 'a option" where
  "arr_get xs i = (if 0 \<le> i \<and> i < int (length xs) then Some (xs ! nat i) else None)"

definition arr_set :: "'a list \<Rightarrow> int \<Rightarrow> 'a \<Rightarrow> 'a list option" where
  "arr_set xs i v = (if 0 \<le> i \<and> i < int (length xs) then Some (xs[nat i := v]) else None)"

lemma arr_get_in [mem_simps]:
  "0 \<le> i \<Longrightarrow> i < int (length xs) \<Longrightarrow> arr_get xs i = Some (xs ! nat i)"
  by (simp add: arr_get_def)

lemma arr_get_out [mem_simps]: "i < 0 \<or> int (length xs) \<le> i \<Longrightarrow> arr_get xs i = None"
  by (auto simp: arr_get_def)

lemma arr_set_in [mem_simps]:
  "0 \<le> i \<Longrightarrow> i < int (length xs) \<Longrightarrow> arr_set xs i v = Some (xs[nat i := v])"
  by (simp add: arr_set_def)

lemma arr_set_out [mem_simps]: "i < 0 \<or> int (length xs) \<le> i \<Longrightarrow> arr_set xs i v = None"
  by (auto simp: arr_set_def)

lemma arr_get_mid [simp]: "arr_get (A @ x # B) (int (length A)) = Some x"
  by (simp add: arr_get_def)

lemma arr_set_mid [simp]: "arr_set (A @ x # B) (int (length A)) v = Some (A @ v # B)"
  by (simp add: arr_set_def)

lemma arr_set_length: "arr_set xs i v = Some ys \<Longrightarrow> length ys = length xs"
  by (auto simp: arr_set_def split: if_splits)

text \<open>Appending to a buffer of \<open>cap\<close> characters of which the first \<open>length b\<close> are written.\<close>

definition buf_put :: "'a list \<Rightarrow> nat \<Rightarrow> 'a \<Rightarrow> 'a list option" where
  "buf_put b cap c = (if length b < cap then Some (b @ [c]) else None)"

definition buf_puts :: "'a list \<Rightarrow> nat \<Rightarrow> 'a list \<Rightarrow> 'a list option" where
  "buf_puts b cap cs = (if length b + length cs \<le> cap then Some (b @ cs) else None)"

text \<open>Storing consecutive elements from index \<open>i\<close> on.\<close>

fun overwrite :: "'a list \<Rightarrow> nat \<Rightarrow> 'a list \<Rightarrow> 'a list" where
  "overwrite d i [] = d"
| "overwrite d i (x # xs) = overwrite (d[i := x]) (Suc i) xs"

lemma overwrite_length [simp]: "length (overwrite d i xs) = length d"
  by (induction d i xs rule: overwrite.induct) auto

lemma overwrite_append: "overwrite d i (xs @ ys) = overwrite (overwrite d i xs) (i + length xs) ys"
  by (induction d i xs rule: overwrite.induct) auto

lemma overwrite_eq:
  "i + length xs \<le> length d \<Longrightarrow> overwrite d i xs = take i d @ xs @ drop (i + length xs) d"
proof (induction d i xs rule: overwrite.induct)
  case (2 d i x xs)
  then show ?case
    by (simp add: take_Suc_conv_app_nth [of i] drop_update_cancel)
qed simp

lemma arr_set_nat [mem_simps]: "i < length xs \<Longrightarrow> arr_set xs (int i) v = Some (xs[i := v])"
  by (simp add: arr_set_def)

lemma arr_get_nat [mem_simps]: "i < length xs \<Longrightarrow> arr_get xs (int i) = Some (xs ! i)"
  by (simp add: arr_get_def)

subsection \<open>Bits of natural numbers\<close>

lemma and_mask_nat:
  "(n::nat) AND 3 = n mod 4" "n AND 7 = n mod 8" "n AND 0x0f = n mod 16" "n AND 0x1f = n mod 32"
  "n AND 0x3f = n mod 64"
  using take_bit_eq_mask [of 2 n] take_bit_eq_mask [of 3 n] take_bit_eq_mask [of 4 n]
    take_bit_eq_mask [of 5 n] take_bit_eq_mask [of 6 n]
  by (simp_all add: take_bit_eq_mod mask_eq_exp_minus_1)

lemma and_push_bit: "(n::nat) AND push_bit k m = push_bit k (drop_bit k n AND m)"
  by (rule bit_eqI) (auto simp: bit_simps)

lemma and_0xc0: "(n::nat) AND 0xc0 = 64 * (n div 64 mod 4)"
  using and_push_bit [of n 6 3] by (simp add: push_bit_eq_mult drop_bit_eq_div and_mask_nat)

lemma or_push_bit: "x < 2 ^ k \<Longrightarrow> push_bit k m OR x = push_bit k m + (x::nat)"
proof -
  assume "x < 2 ^ k"
  then have t: "take_bit k x = x" by (simp add: take_bit_nat_eq_self)
  have "push_bit k m AND x = 0"
    by (subst t [symmetric]) (rule bit_eqI, auto simp: bit_simps)
  then show ?thesis by (simp add: disjunctive_add_eq_or)
qed

lemma or_prefix_nat:
  "x < 64 \<Longrightarrow> 0x80 OR x = 0x80 + (x::nat)" "x < 32 \<Longrightarrow> 0xc0 OR x = 0xc0 + (x::nat)"
  "x < 16 \<Longrightarrow> 0xe0 OR x = 0xe0 + (x::nat)" "x < 8 \<Longrightarrow> 0xf0 OR x = 0xf0 + (x::nat)"
  using or_push_bit [of x 6 2] or_push_bit [of x 5 6] or_push_bit [of x 4 14] or_push_bit [of x 3 30]
  by (simp_all add: push_bit_eq_mult)

lemma ccode_char_of [simp]: "ccode (char_of n) = n mod 256"
  by (simp add: ccode_def)

lemma char_of_ccode [simp]: "char_of (ccode c) = c"
  by (simp add: ccode_def)

subsection \<open>Lemmas of the C library model\<close>

lemma EQUAL_refl [simp]: "EQUAL a a"
  by (simp add: EQUAL_def)

lemma EQUAL_sym: "EQUAL a b \<longleftrightarrow> EQUAL b a"
  by (auto simp: EQUAL_def)

lemma EQUAL_symD: "EQUAL a b \<Longrightarrow> EQUAL b a"
  by (simp add: EQUAL_def)

lemma EQUAL_trans: "EQUAL a b \<Longrightarrow> EQUAL b c \<Longrightarrow> EQUAL a c"
  by (simp add: EQUAL_def)

lemma EQUAL_length: "EQUAL a b \<Longrightarrow> length a = length b"
  unfolding EQUAL_def by (metis length_map)

lemma EQUALN_length_le: "EQUALN a b (length b) \<Longrightarrow> length b \<le> length a"
  unfolding EQUALN_def by (metis length_map length_take min.cobounded1 min.idem)

lemma EQUALN_self [simp]: "EQUALN (a @ r) a (length a)"
  by (simp add: EQUALN_def)

lemma EQUALN_append: "EQUALN a b (length b) \<longleftrightarrow> (\<exists>k r. a = k @ r \<and> EQUAL k b)"
proof
  assume "EQUALN a b (length b)"
  then have "EQUAL (take (length b) a) b" by (simp add: EQUALN_def EQUAL_def)
  then show "\<exists>k r. a = k @ r \<and> EQUAL k b" by (metis append_take_drop_id)
next
  assume "\<exists>k r. a = k @ r \<and> EQUAL k b"
  then obtain k r where a: "a = k @ r" and k: "EQUAL k b" by blast
  then have "length k = length b" by (simp add: EQUAL_length)
  with a k show "EQUALN a b (length b)" by (simp add: EQUALN_def EQUAL_def)
qed

lemma c_at_append_length [simp]: "c_at (a @ c # r) (length a) = c"
  by (simp add: c_at_def)

lemma ccode_inject: "ccode a = ccode b \<longleftrightarrow> a = b"
  by (simp add: ccode_def)

lemma ccode_less: "ccode c < 256"
  unfolding ccode_def using of_char_mod_256 [of c, where 'a = nat] by (metis mod_less_divisor zero_less_numeral)

lemma ccode_tolower:
  "ccode (c_tolower c) = (if 65 \<le> ccode c \<and> ccode c \<le> 90 then ccode c + 32 else ccode c)"
  by (auto simp: c_tolower_def ccode_def)

text \<open>A character that is no letter is the lower case of itself only.\<close>

lemma c_tolower_eq_iff:
  assumes "ccode x < 65 \<or> (90 < ccode x \<and> ccode x < 97) \<or> 122 < ccode x"
  shows "c_tolower c = x \<longleftrightarrow> c = x"
  using assms ccode_tolower [of c] by (auto simp flip: ccode_inject split: if_splits)

lemma c_tolower_chars [simp]:
  "c_tolower c = CHR ''='' \<longleftrightarrow> c = CHR ''=''"
  "c_tolower c = CHR '':'' \<longleftrightarrow> c = CHR '':''"
  "c_tolower c = CHR '' '' \<longleftrightarrow> c = CHR '' ''"
  "c_tolower (CHR '' '') = CHR '' ''" "c_tolower (CHR ''='') = CHR ''=''"
  "c_tolower (CHR '':'') = CHR '':''"
  by (subst c_tolower_eq_iff; simp add: ccode_def)+

lemma EQUAL_append:
  "EQUAL (a @ b) c \<longleftrightarrow> (\<exists>u v. c = u @ v \<and> EQUAL a u \<and> EQUAL b v)"
proof
  assume "EQUAL (a @ b) c"
  then have eq: "map c_tolower c = map c_tolower a @ map c_tolower b"
    by (simp add: EQUAL_def)
  have "EQUAL a (take (length a) c)" "EQUAL b (drop (length a) c)"
    by (simp_all add: EQUAL_def eq flip: take_map drop_map)
  then show "\<exists>u v. c = u @ v \<and> EQUAL a u \<and> EQUAL b v" by (metis append_take_drop_id)
qed (auto simp: EQUAL_def)

lemma EQUAL_Cons: "EQUAL (a # s) (b # t) \<longleftrightarrow> c_tolower a = c_tolower b \<and> EQUAL s t"
  by (simp add: EQUAL_def)

lemma EQUAL_Nil [simp]: "EQUAL [] t \<longleftrightarrow> t = []" "EQUAL t [] \<longleftrightarrow> t = []"
  by (auto simp: EQUAL_def)

text \<open>Trailing characters removed, the loop \<open>while (n > 0 && p (s[n - 1])) n--\<close>.\<close>

definition c_rstrip :: "(char \<Rightarrow> bool) \<Rightarrow> string \<Rightarrow> string" where
  "c_rstrip p s = rev (dropWhile p (rev s))"

lemma c_rstrip_split: "\<exists>t. s = c_rstrip p s @ t \<and> (\<forall>c\<in>set t. p c)"
proof -
  have "rev s = takeWhile p (rev s) @ dropWhile p (rev s)" by simp
  then have "s = c_rstrip p s @ rev (takeWhile p (rev s))"
    unfolding c_rstrip_def by (metis rev_append rev_rev_ident)
  then show ?thesis by (metis set_rev set_takeWhileD)
qed

lemma c_rstrip_id: "s = [] \<or> \<not> p (last s) \<Longrightarrow> c_rstrip p s = s"
  by (cases s rule: rev_cases) (auto simp: c_rstrip_def)

lemma c_rstrip_last: "c_rstrip p s = [] \<or> \<not> p (last (c_rstrip p s))"
  unfolding c_rstrip_def by (metis hd_dropWhile last_rev rev_is_Nil_conv)

lemma takeWhile_stop: "z \<notin> set xs \<Longrightarrow> takeWhile (\<lambda>c. c \<noteq> z) (xs @ z # r) = xs"
  by (induction xs) auto


subsection \<open>Sequences of operations and simulation\<close>

text \<open>A sequence of operations on a state, with the results; \<open>None\<close> as soon as one is undefined.\<close>

fun run_ops :: "('op \<Rightarrow> 's \<Rightarrow> ('s \<times> 'out) option) \<Rightarrow> 'op list \<Rightarrow> 's \<Rightarrow> ('s \<times> 'out list) option" where
  "run_ops step [] s = Some (s, [])"
| "run_ops step (x # xs) s = do {
     (s, out) \<leftarrow> step x s;
     (s, outs) \<leftarrow> run_ops step xs s;
     Some (s, out # outs)
   }"

text \<open>Every operation of a sequence meets its condition in the state it is applied to.\<close>

fun run_within :: "('op \<Rightarrow> 's \<Rightarrow> bool) \<Rightarrow> ('op \<Rightarrow> 's \<Rightarrow> ('s \<times> 'out) option) \<Rightarrow> 'op list \<Rightarrow> 's \<Rightarrow> bool" where
  "run_within p step [] s \<longleftrightarrow> True"
| "run_within p step (x # xs) s \<longleftrightarrow>
     p x s \<and> (case step x s of None \<Rightarrow> True | Some (t, out) \<Rightarrow> run_within p step xs t)"

text \<open>The runs of a specification, a relation between the states before and after and the result.\<close>

fun spec_run :: "('op \<Rightarrow> 'a \<Rightarrow> 'a \<Rightarrow> 'out \<Rightarrow> bool) \<Rightarrow> 'op list \<Rightarrow> 'a \<Rightarrow> 'a \<Rightarrow> 'out list \<Rightarrow> bool" where
  "spec_run spec [] a b outs \<longleftrightarrow> b = a \<and> outs = []"
| "spec_run spec (x # xs) a b outs \<longleftrightarrow>
     (\<exists>c out outs'. spec x a c out \<and> spec_run spec xs c b outs' \<and> outs = out # outs')"

text \<open>The contract of an implementation: on states with the invariant every allowed operation is defined, keeps
  the invariant and does what the specification says.\<close>

locale simulation =
  fixes inv :: "'s \<Rightarrow> bool" and absf :: "'s \<Rightarrow> 'a" and step :: "'op \<Rightarrow> 's \<Rightarrow> ('s \<times> 'out) option"
    and spec :: "'op \<Rightarrow> 'a \<Rightarrow> 'a \<Rightarrow> 'out \<Rightarrow> bool" and allowed :: "'op \<Rightarrow> 's \<Rightarrow> bool"
  assumes simulates: "inv s \<Longrightarrow> allowed x s \<Longrightarrow> \<exists>t out. step x s = Some (t, out) \<and> inv t \<and> spec x (absf s) (absf t) out"
begin

lemma run_simulates:
  "inv s \<Longrightarrow> run_within allowed step xs s \<Longrightarrow>
   \<exists>t outs. run_ops step xs s = Some (t, outs) \<and> inv t \<and> spec_run spec xs (absf s) (absf t) outs"
proof (induction xs arbitrary: s)
  case (Cons x xs)
  obtain t out where t: "step x s = Some (t, out)" "inv t" "spec x (absf s) (absf t) out"
    using simulates [OF Cons.prems(1), of x] Cons.prems(2) by auto
  obtain u outs where "run_ops step xs t = Some (u, outs)" "inv u" "spec_run spec xs (absf t) (absf u) outs"
    using Cons.IH [OF t(2)] Cons.prems(2) t(1) by auto
  with t show ?case by auto
qed simp

end

end
