(* ===== verification/CslCore.thy ===== *)
theory CslCore
  imports Prelude
begin

section \<open>String lists (port/cpl_string.cpp)\<close>

text \<open>
  GDAL's string list is a \<open>char **\<close>: NULL, or an array of strings closed by a NULL pointer.
  Functions that only scan a list work on \<open>csl\<close>, where \<open>None\<close> is the NULL list and \<open>Some xs\<close>
  the array of the strings \<open>xs\<close> and its terminator.  CSLInsertStrings and CSLRemoveStrings move
  pointers inside the array; they are modelled on the array of cells itself (\<open>cell list\<close>, a
  cell being NULL or a string) with checked accesses, so an access outside the array is the
  result \<open>None\<close>.  Memory allocation is taken to succeed, but for CSLAddStringMayFail, whose
  two allocations are parameters.
\<close>

type_synonym csl = "string list option"
type_synonym cell = "string option"

definition strings_of :: "csl \<Rightarrow> string list" where
  "strings_of l = (case l of None \<Rightarrow> [] | Some xs \<Rightarrow> xs)"

lemma strings_of_simps [simp]: "strings_of None = []" "strings_of (Some xs) = xs"
  by (simp_all add: strings_of_def)

subsection \<open>Adding, counting, copying\<close>

fun CSLCount_loop :: "int \<Rightarrow> string list \<Rightarrow> int" where
  "CSLCount_loop nItems [] = nItems"
| "CSLCount_loop nItems (s # xs) = CSLCount_loop (nItems + 1) xs"

definition CSLCount :: "csl \<Rightarrow> int" where
  "CSLCount papszStrList =
     (case papszStrList of None \<Rightarrow> 0 | Some xs \<Rightarrow> CSLCount_loop 0 xs)"

text \<open>The flags say whether the duplication of the string and the growth of the array get
  their memory.\<close>

definition CSLAddStringMayFail :: "bool \<Rightarrow> bool \<Rightarrow> csl \<Rightarrow> cell \<Rightarrow> csl" where
  "CSLAddStringMayFail dup_ok alloc_ok papszStrList pszNewString =
     (case pszNewString of
        None \<Rightarrow> papszStrList
      | Some s \<Rightarrow>
          if \<not> dup_ok then None
          else if \<not> alloc_ok then None
          else (case papszStrList of
                  None \<Rightarrow> Some [s]
                | Some xs \<Rightarrow> Some (xs @ [s])))"

definition CSLAddString :: "csl \<Rightarrow> cell \<Rightarrow> csl" where
  "CSLAddString papszStrList pszNewString = CSLAddStringMayFail True True papszStrList pszNewString"

definition CSLGetField :: "csl \<Rightarrow> int \<Rightarrow> string" where
  "CSLGetField papszStrList iField =
     (case papszStrList of
        None \<Rightarrow> []
      | Some xs \<Rightarrow>
          if iField < 0 then []
          else if int (length xs) \<le> iField then []
          else xs ! nat iField)"

definition CSLDuplicate :: "csl \<Rightarrow> csl" where
  "CSLDuplicate papszStrList =
     (if CSLCount papszStrList = 0 then None
      else (case papszStrList of None \<Rightarrow> None | Some xs \<Rightarrow> Some (map (\<lambda>s. s) xs)))"

lemma CSLCount_loop_length: "CSLCount_loop n xs = n + int (length xs)"
  by (induction xs arbitrary: n) auto

lemma CSLCount_length [simp]: "CSLCount l = int (length (strings_of l))"
  by (cases l) (simp_all add: CSLCount_def CSLCount_loop_length)

lemma CSLAddString_simps [simp]:
  "CSLAddString l None = l"
  "CSLAddString l (Some s) = Some (strings_of l @ [s])"
  by (cases l; simp add: CSLAddString_def CSLAddStringMayFail_def)+

lemma CSLDuplicate_eq: "CSLDuplicate l = (if strings_of l = [] then None else Some (strings_of l))"
  by (cases l) (simp_all add: CSLDuplicate_def)

subsection \<open>Searching\<close>

text \<open>The three searches are the same loop with another comparison.\<close>

fun csl_find :: "(string \<Rightarrow> bool) \<Rightarrow> int \<Rightarrow> string list \<Rightarrow> int" where
  "csl_find p i [] = - 1"
| "csl_find p i (s # xs) = (if p s then i else csl_find p (i + 1) xs)"

definition CSLFindString :: "csl \<Rightarrow> string \<Rightarrow> int" where
  "CSLFindString papszList pszTarget =
     (case papszList of None \<Rightarrow> - 1 | Some xs \<Rightarrow> csl_find (\<lambda>s. EQUAL s pszTarget) 0 xs)"

definition CSLFindStringCaseSensitive :: "csl \<Rightarrow> string \<Rightarrow> int" where
  "CSLFindStringCaseSensitive papszList pszTarget =
     (case papszList of None \<Rightarrow> - 1 | Some xs \<Rightarrow> csl_find (\<lambda>s. s = pszTarget) 0 xs)"

definition CSLPartialFindString :: "csl \<Rightarrow> cell \<Rightarrow> int" where
  "CSLPartialFindString papszHaystack pszNeedle =
     (case (papszHaystack, pszNeedle) of
        (Some xs, Some n) \<Rightarrow> csl_find (\<lambda>s. c_strstr s n) 0 xs
      | _ \<Rightarrow> - 1)"

lemma csl_find_notin: "\<forall>s\<in>set xs. \<not> p s \<Longrightarrow> csl_find p i xs = - 1"
  by (induction xs arbitrary: i) auto

lemma csl_find_in:
  assumes "k < length xs" and "p (xs ! k)" and "\<And>j. j < k \<Longrightarrow> \<not> p (xs ! j)"
  shows "csl_find p i xs = i + int k"
  using assms
proof (induction xs arbitrary: i k)
  case Nil
  then show ?case by simp
next
  case (Cons s xs)
  show ?case
  proof (cases k)
    case 0
    with Cons.prems show ?thesis by simp
  next
    case (Suc k')
    from Cons.prems(3) [of 0] Suc have "\<not> p s" by simp
    moreover have "csl_find p (i + 1) xs = i + 1 + int k'"
    proof (rule Cons.IH)
      show "k' < length xs" "p (xs ! k')" using Cons.prems Suc by auto
      show "\<And>j. j < k' \<Longrightarrow> \<not> p (xs ! j)" using Cons.prems(3) Suc by (metis Suc_less_eq nth_Cons_Suc)
    qed
    ultimately show ?thesis using Suc by simp
  qed
qed

lemma csl_find_result:
  "csl_find p i xs = (if \<exists>s\<in>set xs. p s
     then i + int (length (takeWhile (\<lambda>s. \<not> p s) xs)) else - 1)"
  by (induction xs arbitrary: i) auto

lemma csl_find_first:
  assumes "csl_find p 0 xs = i" and "i \<noteq> - 1"
  shows "0 \<le> i \<and> i < int (length xs) \<and> p (xs ! nat i) \<and> (\<forall>j<nat i. \<not> p (xs ! j))"
proof -
  let ?w = "takeWhile (\<lambda>s. \<not> p s) xs"
  from assms have ex: "\<exists>s\<in>set xs. p s" and i: "i = int (length ?w)"
    by (auto simp: csl_find_result split: if_splits)
  from ex have "length ?w < length xs"
    by (metis (full_types) length_takeWhile_le nat_less_le set_takeWhileD takeWhile_eq_take take_all_iff order_refl)
  moreover from this have "p (xs ! length ?w)"
    using nth_length_takeWhile [of "\<lambda>s. \<not> p s" xs] by simp
  moreover have "\<not> p (xs ! j)" if "j < length ?w" for j
    using that by (metis nth_mem set_takeWhileD takeWhile_nth)
  ultimately show ?thesis using i by simp
qed

subsection \<open>Inserting strings: the array moves\<close>

text \<open>The strings of an array up to its first NULL cell; \<open>None\<close> when it has no terminator.\<close>

fun csl_read :: "cell list \<Rightarrow> string list option" where
  "csl_read [] = None"
| "csl_read (None # cs) = Some []"
| "csl_read (Some s # cs) = map_option ((#) s) (csl_read cs)"

text \<open>The loop \<open>for (i = nSrcLines; i >= nInsertAtLineNo; --i)\<close>, moving cell \<open>i\<close> to
  \<open>i + nToInsert\<close>.\<close>

function CSLInsert_shift :: "cell list \<Rightarrow> int \<Rightarrow> int \<Rightarrow> int \<Rightarrow> cell list option" where
  "CSLInsert_shift arr i nInsertAtLineNo nToInsert =
     (if i \<ge> nInsertAtLineNo then do {
        c \<leftarrow> arr_get arr i;
        arr' \<leftarrow> arr_set arr (i + nToInsert) c;
        CSLInsert_shift arr' (i - 1) nInsertAtLineNo nToInsert
      } else Some arr)"
  by pat_completeness auto
termination
  by (relation "measure (\<lambda>(arr, i, n, k). nat (i - n + 1))") auto

declare CSLInsert_shift.simps [simp del]

fun CSLInsert_copy :: "cell list \<Rightarrow> int \<Rightarrow> string list \<Rightarrow> cell list option" where
  "CSLInsert_copy arr j [] = Some arr"
| "CSLInsert_copy arr j (s # ys) = do {
     arr' \<leftarrow> arr_set arr j (Some s);
     CSLInsert_copy arr' (j + 1) ys
   }"

text \<open>The array after CPLRealloc keeps the old cells; the new ones are written before they are
  read, and hold NULL here until then.  The counts, their sum and the size of the array are of type
  \<open>int\<close>: \<open>None\<close> when one of them overflows (a count does while CSLCount adds it up).\<close>

definition CSLInsertStrings :: "csl \<Rightarrow> int \<Rightarrow> csl \<Rightarrow> csl option" where
  "CSLInsertStrings papszStrList nInsertAtLineNo papszNewLines =
     (if papszNewLines = None then Some papszStrList
      else do {
        nToInsert \<leftarrow> c_int (CSLCount papszNewLines);
        if nToInsert = 0 then Some papszStrList
         else do {
           nSrcLines \<leftarrow> c_int (CSLCount papszStrList);
           nDstLines \<leftarrow> c_int (nSrcLines + nToInsert);
           nCells \<leftarrow> c_int (nDstLines + 1);
           arr \<leftarrow> arr_set (map Some (strings_of papszStrList) @
                     replicate (nat nCells - length (strings_of papszStrList)) None) nSrcLines None;
           let n = (if nInsertAtLineNo = - 1 \<or> nInsertAtLineNo > nSrcLines then nSrcLines
                    else nInsertAtLineNo);
           arr \<leftarrow> CSLInsert_shift arr nSrcLines n nToInsert;
           arr \<leftarrow> CSLInsert_copy arr n (strings_of papszNewLines);
           xs \<leftarrow> csl_read arr;
           Some (Some xs)
         }
      })"

definition CSLInsertString :: "csl \<Rightarrow> int \<Rightarrow> cell \<Rightarrow> csl option" where
  "CSLInsertString papszStrList nInsertAtLineNo pszNewLine =
     CSLInsertStrings papszStrList nInsertAtLineNo
       (Some (case pszNewLine of None \<Rightarrow> [] | Some s \<Rightarrow> [s]))"

lemma csl_read_array [simp]: "csl_read (map Some xs @ None # cs) = Some xs"
  by (induction xs) auto

lemma CSLInsert_shift_moves:
  assumes "length C = k" and "0 < k"
  shows "CSLInsert_shift (A @ B @ C @ D) (int (length A + length B) - 1) (int (length A)) (int k) =
         Some (take (length A + k) (A @ B @ C) @ B @ D)"
  using assms
proof (induction B arbitrary: C D rule: rev_induct)
  case Nil
  then show ?case by (simp add: CSLInsert_shift.simps)
next
  case (snoc b B)
  obtain C0 c where C: "C = C0 @ [c]" using snoc.prems by (cases C rule: rev_cases) auto
  have upd: "(A @ (B @ [b]) @ C @ D)[length A + length B + k := b] = A @ B @ (b # C0) @ (b # D)"
    using snoc.prems C by (auto simp: list_update_append)
  have len: "nat (int (length A) + int (length B) + int k) = length A + length B + k" by simp
  have "CSLInsert_shift (A @ (B @ [b]) @ C @ D)
          (int (length A + length (B @ [b])) - 1) (int (length A)) (int k) =
        CSLInsert_shift (A @ B @ (b # C0) @ (b # D))
          (int (length A + length B) - 1) (int (length A)) (int k)"
    using snoc.prems C upd
    by (subst CSLInsert_shift.simps)
       (simp add: arr_get_def arr_set_def nth_append nat_add_distrib len algebra_simps)
  also have "\<dots> = Some (take (length A + k) (A @ B @ (b # C0)) @ B @ b # D)"
    using snoc.prems C by (intro snoc.IH) auto
  also have "take (length A + k) (A @ B @ (b # C0)) = take (length A + k) ((A @ B @ (b # C0)) @ [c])"
    using snoc.prems C by (subst take_append) simp
  finally show ?case using C by simp
qed

lemma CSLInsert_copy_writes:
  "length ys \<le> length Y \<Longrightarrow>
   CSLInsert_copy (X @ Y) (int (length X)) ys =
   Some (X @ map Some ys @ drop (length ys) Y)"
proof (induction ys arbitrary: X Y)
  case Nil
  then show ?case by simp
next
  case (Cons s ys)
  then obtain y Y' where Y: "Y = y # Y'" by (cases Y) auto
  have "CSLInsert_copy (X @ Y) (int (length X)) (s # ys) =
        CSLInsert_copy ((X @ [Some s]) @ Y') (int (length (X @ [Some s]))) ys"
    using Y by (simp add: arr_set_def algebra_simps)
  also have "\<dots> = Some ((X @ [Some s]) @ map Some ys @ drop (length ys) Y')"
    using Cons Y by (intro Cons.IH) simp
  finally show ?case using Y by simp
qed

lemma CSLInsert_copy_gap:
  assumes "length C = length ys"
  shows "CSLInsert_copy (take (length A + length ys) (A @ B @ C) @ B @ []) (int (length A)) ys =
         Some (A @ map Some ys @ B)"
proof -
  let ?G = "take (length ys) (B @ C)"
  have G: "length ?G = length ys" using assms by simp
  have "take (length A + length ys) (A @ B @ C) @ B @ [] = A @ (?G @ B)" by simp
  then show ?thesis
    using G CSLInsert_copy_writes [of ys "?G @ B" A] by (simp del: take_append)
qed

text \<open>The position the code inserts at.\<close>

definition insert_pos :: "int \<Rightarrow> nat \<Rightarrow> nat" where
  "insert_pos n len = (if n = - 1 \<or> n > int len then len else nat n)"

lemma insert_pos_le: "- 1 \<le> n \<Longrightarrow> insert_pos n len \<le> len"
  by (auto simp: insert_pos_def)

lemma CSLInsert_shift_below:
  "n < - 1 \<Longrightarrow> i < int (length arr) \<Longrightarrow> - 1 \<le> i \<Longrightarrow> CSLInsert_shift arr i n k = None"
proof (induction "nat (i + 1)" arbitrary: arr i)
  case 0
  then show ?case by (subst CSLInsert_shift.simps) (simp add: arr_get_def)
next
  case (Suc m)
  have "CSLInsert_shift arr' (i - 1) n k = None" if "arr_set arr (i + k) c = Some arr'" for arr' c
    using Suc arr_set_length [OF that] by (intro Suc.hyps) auto
  then show ?case using Suc.prems by (subst CSLInsert_shift.simps) (auto split: bind_splits)
qed

lemma CSLInsertStrings_list:
  assumes "- 1 \<le> n" and "ys \<noteq> []" and "CSLCount l + int (length ys) + 1 < 2 ^ 31"
  shows "CSLInsertStrings l n (Some ys) =
         Some (Some (take (insert_pos n (length (strings_of l))) (strings_of l) @ ys @
                     drop (insert_pos n (length (strings_of l))) (strings_of l)))"
proof -
  let ?xs = "strings_of l"
  let ?p = "insert_pos n (length ?xs)"
  let ?A = "map Some (take ?p ?xs) :: cell list"
  let ?B = "map Some (drop ?p ?xs) @ [None] :: cell list"
  let ?C = "replicate (length ys) None :: cell list"
  have p: "?p \<le> length ?xs" using assms(1) by (rule insert_pos_le)
  have pos: "(if n = - 1 \<or> n > int (length ?xs) then int (length ?xs) else n) = int (length ?A)"
    using assms(1) p by (auto simp: insert_pos_def)
  have start: "int (length ?xs) = int (length ?A + length ?B) - 1" using p by simp
  have arr: "map Some ?xs @ None # ?C = ?A @ ?B @ ?C @ []"
    by (simp flip: append.assoc map_append)
  have "CSLInsert_shift (map Some ?xs @ None # ?C) (int (length ?xs)) (int (length ?A)) (int (length ys)) =
        Some (take (length ?A + length ys) (?A @ ?B @ ?C) @ ?B @ [])"
    unfolding arr start using assms(2) by (intro CSLInsert_shift_moves) auto
  moreover have "CSLInsert_copy (take (length ?A + length ys) (?A @ ?B @ ?C) @ ?B @ []) (int (length ?A)) ys =
        Some (?A @ map Some ys @ ?B)"
    by (rule CSLInsert_copy_gap) simp
  moreover have "csl_read (?A @ map Some ys @ ?B) = Some (take ?p ?xs @ ys @ drop ?p ?xs)"
    using csl_read_array [of "take ?p ?xs @ ys @ drop ?p ?xs" "[]"] by simp
  moreover have "arr_set (map Some ?xs @ replicate (length ys + 1) None) (int (length ?xs)) None
                 = Some (map Some ?xs @ None # ?C)"
    using list_update_length [of "map Some ?xs" None ?C None] by (simp add: arr_set_def)
  moreover have "c_int (CSLCount (Some ys)) = Some (int (length ys))" "c_int (CSLCount l) = Some (int (length ?xs))"
    "c_int (int (length ?xs) + int (length ys)) = Some (int (length ?xs) + int (length ys))"
    "c_int (int (length ?xs) + int (length ys) + 1) = Some (int (length ?xs) + int (length ys) + 1)"
    using assms(3) by (simp_all add: c_int_def)
  moreover have "nat (int (length ?xs) + int (length ys) + 1) - length ?xs = length ys + 1" by simp
  ultimately show ?thesis
    using assms(2) pos by (simp add: CSLInsertStrings_def Let_def)
qed

lemma CSLInsertStrings_undefined:
  assumes "ys \<noteq> []" "n < - 1 \<or> 2 ^ 31 \<le> CSLCount l + int (length ys) + 1"
  shows "CSLInsertStrings l n (Some ys) = None"
proof -
  have shift: "CSLInsert_shift arr (int k) n m = None" if "n < - 1" "arr_set A (int k) c = Some arr" for A arr k m c
    using that by (intro CSLInsert_shift_below) (auto simp: arr_set_def split: if_splits)
  show ?thesis
  proof (cases "2 ^ 31 \<le> CSLCount l + int (length ys) + 1")
    case True
    then show ?thesis using assms(1) by (auto simp: CSLInsertStrings_def c_int_def split: bind_splits)
  next
    case False
    then show ?thesis
      using assms shift by (auto simp: CSLInsertStrings_def Let_def c_int_def split: bind_splits if_splits)
  qed
qed

subsection \<open>Removing strings\<close>

text \<open>
  What a call leaves: the list, the cells handed to the caller through \<open>ppapszRetStrings\<close>
  (\<open>None\<close> when the code does not set it) and the pointers passed to CPLFree, in order.
\<close>

record csl_removed =
  rm_list :: csl
  rm_ret :: "cell list option"
  rm_freed :: "cell list"

text \<open>\<open>for (i = 0; i < nNumToRemove; ++i) { CPLFree(*ppszDst); *ppszDst = nullptr; }\<close>\<close>

fun CSLRemove_free :: "nat \<Rightarrow> cell list \<Rightarrow> int \<Rightarrow> cell list \<Rightarrow> (cell list \<times> cell list) option" where
  "CSLRemove_free 0 arr ppszDst freed = Some (arr, freed)"
| "CSLRemove_free (Suc m) arr ppszDst freed = do {
     c \<leftarrow> arr_get arr ppszDst;
     arr' \<leftarrow> arr_set arr ppszDst None;
     CSLRemove_free m arr' ppszDst (freed @ [c])
   }"

text \<open>The loop of the other branch stores the cells and does advance \<open>ppszDst\<close>.\<close>

fun CSLRemove_store :: "nat \<Rightarrow> cell list \<Rightarrow> int \<Rightarrow> cell list \<Rightarrow> (cell list \<times> cell list) option" where
  "CSLRemove_store 0 arr ppszDst ret = Some (arr, ret)"
| "CSLRemove_store (Suc m) arr ppszDst ret = do {
     c \<leftarrow> arr_get arr ppszDst;
     arr' \<leftarrow> arr_set arr ppszDst None;
     CSLRemove_store m arr' (ppszDst + 1) (ret @ [c])
   }"

text \<open>The shift down, up to and including the NULL cell that ends the list.\<close>

function CSLRemove_shift :: "cell list \<Rightarrow> int \<Rightarrow> int \<Rightarrow> cell list option" where
  "CSLRemove_shift arr ppszSrc ppszDst =
     (case arr_get arr ppszSrc of
        None \<Rightarrow> None
      | Some None \<Rightarrow> arr_set arr ppszDst None
      | Some (Some s) \<Rightarrow>
          (case arr_set arr ppszDst (Some s) of
             None \<Rightarrow> None
           | Some arr' \<Rightarrow> CSLRemove_shift arr' (ppszSrc + 1) (ppszDst + 1)))"
  by pat_completeness auto
termination
  by (relation "measure (\<lambda>(arr, src, dst). nat (int (length arr) - src))")
     (auto simp: arr_get_def arr_set_def split: if_splits)

declare CSLRemove_shift.simps [simp del]

definition CSLRemoveStrings :: "csl \<Rightarrow> int \<Rightarrow> int \<Rightarrow> bool \<Rightarrow> csl_removed option" where
  "CSLRemoveStrings papszStrList nFirstLineToDelete nNumToRemove wantRet =
     (let nSrcLines = CSLCount papszStrList;
          nDstLines = nSrcLines - nNumToRemove;
          arr = map Some (strings_of papszStrList) @ [None]
      in if nNumToRemove < 1 \<or> nSrcLines = 0
         then Some \<lparr>rm_list = papszStrList, rm_ret = None, rm_freed = []\<rparr>
         else if nDstLines < 1
         then Some \<lparr>rm_list = None, rm_ret = None, rm_freed = map Some (strings_of papszStrList)\<rparr>
         else do {
           (arr, ret, freed) \<leftarrow>
             (if \<not> wantRet
              then do { (a, fr) \<leftarrow> CSLRemove_free (nat nNumToRemove) arr nFirstLineToDelete [];
                        Some (a, None, fr) }
              else do { (a, rt) \<leftarrow> CSLRemove_store (nat nNumToRemove) arr nFirstLineToDelete [];
                        Some (a, Some rt, []) });
           let first = (if nFirstLineToDelete = - 1 \<or> nFirstLineToDelete > nSrcLines
                        then nDstLines else nFirstLineToDelete);
           arr \<leftarrow> CSLRemove_shift arr (first + nNumToRemove) first;
           xs \<leftarrow> csl_read arr;
           Some \<lparr>rm_list = Some xs, rm_ret = ret, rm_freed = freed\<rparr>
         })"

lemma CSLRemove_free_result:
  "CSLRemove_free m (A @ c # B) (int (length A)) fr =
   Some (if m = 0 then (A @ c # B, fr) else (A @ None # B, fr @ c # replicate (m - 1) None))"
proof (induction m arbitrary: c fr)
  case 0
  then show ?case by simp
next
  case (Suc m)
  have "CSLRemove_free (Suc m) (A @ c # B) (int (length A)) fr =
        CSLRemove_free m (A @ None # B) (int (length A)) (fr @ [c])"
    by simp
  also have "\<dots> = Some (if m = 0 then (A @ None # B, fr @ [c])
                     else (A @ None # B, (fr @ [c]) @ None # replicate (m - 1) None))"
    by (rule Suc.IH)
  finally show ?case by (cases m) simp_all
qed

lemma CSLRemove_store_result:
  "CSLRemove_store (length M) (A @ M @ B) (int (length A)) rt =
   Some (A @ replicate (length M) None @ B, rt @ M)"
proof (induction M arbitrary: A rt)
  case Nil
  then show ?case by simp
next
  case (Cons c M)
  have "CSLRemove_store (length (c # M)) (A @ (c # M) @ B) (int (length A)) rt =
        CSLRemove_store (length M) ((A @ [None]) @ M @ B) (int (length (A @ [None]))) (rt @ [c])"
    by (simp add: arr_get_def arr_set_def algebra_simps)
  also have "\<dots> = Some ((A @ [None]) @ replicate (length M) None @ B, (rt @ [c]) @ M)"
    by (rule Cons.IH)
  finally show ?case by simp
qed

lemma CSLRemove_shift_step:
  "arr_get arr src = Some (Some s) \<Longrightarrow> arr_set arr dst (Some s) = Some arr' \<Longrightarrow>
   CSLRemove_shift arr src dst = CSLRemove_shift arr' (src + 1) (dst + 1)"
  by (subst CSLRemove_shift.simps) simp

lemma CSLRemove_shift_result:
  assumes "0 < length G"
  shows "CSLRemove_shift (A @ G @ map Some ys @ [None]) (int (length (A @ G))) (int (length A)) =
         Some (A @ map Some ys @ None # drop (Suc (length ys)) (G @ map Some ys @ [None]))"
  using assms
proof (induction ys arbitrary: A G)
  case Nil
  then obtain g G' where G: "G = g # G'" by (cases G) auto
  have "arr_get (A @ G @ [None]) (int (length (A @ G))) = Some None"
    using arr_get_mid [of "A @ G" None "[]"] by simp
  with G show ?case by (subst CSLRemove_shift.simps) simp
next
  case (Cons s ys)
  then obtain g G' where G: "G = g # G'" by (cases G) auto
  have get: "arr_get (A @ G @ map Some (s # ys) @ [None]) (int (length (A @ G))) = Some (Some s)"
    using arr_get_mid [of "A @ G" "Some s" "map Some ys @ [None]"] by simp
  have set: "arr_set (A @ G @ map Some (s # ys) @ [None]) (int (length A)) (Some s) =
        Some ((A @ [Some s]) @ (G' @ [Some s]) @ map Some ys @ [None])"
    using G by simp
  have "CSLRemove_shift (A @ G @ map Some (s # ys) @ [None]) (int (length (A @ G))) (int (length A)) =
        CSLRemove_shift ((A @ [Some s]) @ (G' @ [Some s]) @ map Some ys @ [None])
          (int (length ((A @ [Some s]) @ (G' @ [Some s])))) (int (length (A @ [Some s])))"
    using G by (subst CSLRemove_shift_step [OF get set]) (simp add: algebra_simps)
  also have "\<dots> = Some ((A @ [Some s]) @ map Some ys @ None #
        drop (Suc (length ys)) ((G' @ [Some s]) @ map Some ys @ [None]))"
    by (intro Cons.IH) simp
  finally show ?case using G by simp
qed

lemma CSLRemove_shift_out: "int (length arr) \<le> src \<Longrightarrow> CSLRemove_shift arr src dst = None"
  by (subst CSLRemove_shift.simps) (simp add: arr_get_def)

lemma CSLRemove_free_out:
  "i < 0 \<or> int (length arr) \<le> i \<Longrightarrow> 0 < m \<Longrightarrow> CSLRemove_free m arr i fr = None"
  by (cases m) (auto simp: arr_get_def)

lemma CSLRemove_free_length:
  "CSLRemove_free m arr i fr = Some (arr', fr') \<Longrightarrow> length arr' = length arr"
  by (induction m arbitrary: arr fr) (auto simp: arr_get_def arr_set_def split: if_splits bind_splits)

lemma CSLRemove_store_length:
  "CSLRemove_store m arr i rt = Some (arr', rt') \<Longrightarrow> length arr' = length arr"
  by (induction m arbitrary: arr rt i) (auto simp: arr_get_def arr_set_def split: if_splits bind_splits)

lemma CSLRemove_store_neg: "i < 0 \<Longrightarrow> 0 < m \<Longrightarrow> CSLRemove_store m arr i rt = None"
  by (cases m) (auto simp: arr_get_def)

lemma CSLRemove_store_out: "int (length arr) \<le> i \<Longrightarrow> 0 < m \<Longrightarrow> CSLRemove_store m arr i rt = None"
  by (cases m) (auto simp: arr_get_def)


text \<open>The branches of CSLRemoveStrings: nothing to do, everything removed, a range inside the
  list, and a range that is not.\<close>

lemma CSLRemoveStrings_range:
  assumes "0 \<le> f" and "1 \<le> k" and "f + k \<le> int (length xs)" and "k < int (length xs)"
  shows "CSLRemoveStrings (Some xs) f k wantRet =
    Some \<lparr>rm_list = Some (take (nat f) xs @ drop (nat (f + k)) xs),
          rm_ret = (if wantRet then Some (map Some (take (nat k) (drop (nat f) xs))) else None),
          rm_freed = (if wantRet then []
                      else Some (xs ! nat f) # replicate (nat k - 1) None)\<rparr>"
proof -
  let ?A = "map Some (take (nat f) xs) :: cell list"
  let ?M = "map Some (take (nat k) (drop (nat f) xs)) :: cell list"
  let ?ys = "drop (nat (f + k)) xs"
  let ?B = "map Some ?ys @ [None] :: cell list"
  have nk: "nat (f + k) = nat f + nat k" using assms by (simp add: nat_add_distrib)
  have d: "take (nat k) (drop (nat f) xs) @ ?ys = drop (nat f) xs"
    using append_take_drop_id [of "nat k" "drop (nat f) xs"] by (simp add: nk add.commute)
  have "map Some xs = map Some (take (nat f) xs @ (take (nat k) (drop (nat f) xs) @ ?ys))"
    by (simp only: d append_take_drop_id)
  then have xs: "map Some xs @ [None] = ?A @ ?M @ ?B" by simp
  have lA: "int (length ?A) = f" and lM: "length ?M = nat k" using assms by auto
  have M: "?M = Some (xs ! nat f) # map Some (take (nat k - 1) (drop (Suc (nat f)) xs))"
    using assms by (cases "nat k") (auto simp: Cons_nth_drop_Suc [symmetric])
  have first: "f \<noteq> - 1 \<and> \<not> f > int (length xs)" using assms by auto
  have shift: "CSLRemove_shift (?A @ G @ ?B) (f + k) f =
      Some (?A @ map Some ?ys @ None # drop (Suc (length ?ys)) (G @ ?B))" if "length G = nat k" for G
    using CSLRemove_shift_result [of G ?A ?ys] that lA assms by simp
  have rd: "csl_read (?A @ map Some ?ys @ None # Z) = Some (take (nat f) xs @ ?ys)" for Z
    using csl_read_array [of "take (nat f) xs @ ?ys" Z] by simp
  have store: "CSLRemove_store (nat k) (map Some xs @ [None]) f [] =
      Some (?A @ replicate (nat k) None @ ?B, ?M)"
    using CSLRemove_store_result [of ?M ?A ?B "[]"] lA lM by (simp add: xs)
  have free: "CSLRemove_free (nat k) (map Some xs @ [None]) f [] =
      Some (?A @ (None # tl ?M) @ ?B, Some (xs ! nat f) # replicate (nat k - 1) None)"
    using CSLRemove_free_result [of "nat k" ?A "hd ?M" "tl ?M @ ?B" "[]"] lA assms(2) M
    unfolding xs by simp
  have ne: "xs \<noteq> []" using assms by auto
  have g1: "length (replicate (nat k) None :: cell list) = nat k" by simp
  have g2: "length (None # tl ?M) = nat k" using lM assms by simp
  show ?thesis
  proof (cases wantRet)
    case True
    then show ?thesis
      using assms ne first store shift [OF g1] rd by (simp add: CSLRemoveStrings_def Let_def)
  next
    case False
    then show ?thesis
      using assms ne first free shift [OF g2] rd by (simp add: CSLRemoveStrings_def Let_def)
  qed
qed

lemma CSLRemoveStrings_outside:
  assumes "1 \<le> k" and "k < int (length xs)" and "f < 0 \<or> int (length xs) < f + k"
  shows "CSLRemoveStrings (Some xs) f k wantRet = None"
proof -
  let ?arr = "map Some xs @ [None] :: cell list"
  have ne: "xs \<noteq> []" and pos: "0 < nat k" using assms by auto
  have out: "f < 0 \<or> int (length ?arr) \<le> f \<or> (0 \<le> f \<and> f \<le> int (length xs) \<and> int (length ?arr) \<le> f + k)"
    using assms by auto
  have free: "CSLRemove_free (nat k) ?arr f [] = None" if "f < 0 \<or> int (length ?arr) \<le> f"
    using CSLRemove_free_out [OF that pos] .
  have store: "CSLRemove_store (nat k) ?arr f [] = None" if "f < 0 \<or> int (length ?arr) \<le> f"
    using that CSLRemove_store_neg [OF _ pos] CSLRemove_store_out [OF _ pos] by blast
  have shift: "CSLRemove_shift arr (f + k) f = None"
    if "length arr = length ?arr" "int (length ?arr) \<le> f + k" for arr
    using that by (intro CSLRemove_shift_out) simp
  from out show ?thesis
    using assms ne free store
    by (elim disjE conjE;
        auto simp: CSLRemoveStrings_def Let_def shift split: bind_splits
             dest!: CSLRemove_free_length CSLRemove_store_length)
qed

subsection \<open>Properties\<close>

text \<open>C27: CSLInsertStrings, which moves the tail of the array up cell by cell from the end and
  writes the new strings into the gap, never leaves the array and returns the old strings with the
  new ones before position \<open>n\<close>, at the end when \<open>n\<close> is \<open>-1\<close> or past the end; without new strings it returns
  the list.  With new strings it is undefined exactly for a position below \<open>-1\<close>, where the
  move reads in front of the array, and for lists so long that the cells of the new array, its terminator
  included, are not counted by an \<open>int\<close>.\<close>

theorem CSLInsertStrings_inserts:
  "CSLInsertStrings l n (Some ys) =
    (if ys = [] then Some l
     else if n < - 1 \<or> 2 ^ 31 \<le> CSLCount l + int (length ys) + 1 then None
     else let p = (if n = - 1 \<or> n > CSLCount l then length (strings_of l) else nat n)
          in Some (Some (take p (strings_of l) @ ys @ drop p (strings_of l))))"
proof -
  have "CSLInsertStrings l n (Some []) = Some l"
    by (simp add: CSLInsertStrings_def c_int_def)
  then show ?thesis
    using CSLInsertStrings_undefined [of ys n l] CSLInsertStrings_list [of n ys l]
    by (cases "n < - 1 \<or> 2 ^ 31 \<le> CSLCount l + int (length ys) + 1")
      (auto simp: insert_pos_def Let_def not_less not_le)
qed

text \<open>A call of CSLRemoveStrings stays inside the array exactly when there is nothing to
  remove, everything is removed, or the range lies inside the list.  So the documented use
  \<open>nFirstLineToDelete = -1\<close> (remove the last strings) is an access before the array.\<close>

theorem CSLRemoveStrings_in_bounds:
  "CSLRemoveStrings l f k wantRet \<noteq> None \<longleftrightarrow>
   k < 1 \<or> CSLCount l \<le> k \<or> (0 \<le> f \<and> f + k \<le> CSLCount l)"
proof (cases l)
  case None
  then show ?thesis by (auto simp: CSLRemoveStrings_def)
next
  case (Some xs)
  consider "k < 1 \<or> int (length xs) \<le> k" | "1 \<le> k" "k < int (length xs)" "0 \<le> f" "f + k \<le> int (length xs)"
    | "1 \<le> k" "k < int (length xs)" "f < 0 \<or> int (length xs) < f + k"
    by linarith
  then show ?thesis
  proof cases
    case 1
    then show ?thesis using Some by (auto simp: CSLRemoveStrings_def Let_def)
  next
    case 2
    then show ?thesis using Some CSLRemoveStrings_range [of f k xs wantRet] by simp
  next
    case 3
    then show ?thesis using Some CSLRemoveStrings_outside [of k xs f wantRet] by auto
  qed
qed

text \<open>For a proper range inside the list, CSLRemoveStrings returns the list without it and
  hands the removed strings over when the caller asks for them; when the caller does not, CPLFree is
  called once for each removed string but with one string only, the first, and NULL afterwards: the
  other removed strings are never freed.\<close>

theorem CSLRemoveStrings_result:
  assumes "0 \<le> f" and "1 \<le> k" and "f + k \<le> int (length xs)" and "k < int (length xs)"
  shows "CSLRemoveStrings (Some xs) f k wantRet =
    Some \<lparr>rm_list = Some (take (nat f) xs @ drop (nat (f + k)) xs),
          rm_ret = (if wantRet then Some (map Some (take (nat k) (drop (nat f) xs))) else None),
          rm_freed = (if wantRet then [] else Some (xs ! nat f) # replicate (nat k - 1) None)\<rparr>"
  using assms by (rule CSLRemoveStrings_range)

theorem CSLRemoveStrings_result_witness:
  "CSLRemoveStrings (Some [''a'', ''b'', ''c'', ''d'']) 1 2 False =
    Some \<lparr>rm_list = Some [''a'', ''d''], rm_ret = None, rm_freed = [Some ''b'', None]\<rparr>"
  using CSLRemoveStrings_result [of 1 2 "[''a'', ''b'', ''c'', ''d'']" False]
  by (simp add: numeral_eq_Suc)

text \<open>Removing the strings just inserted gives back the list and the inserted strings.\<close>

theorem CSLInsert_remove_roundtrip:
  assumes "0 \<le> n" and "n \<le> int (length xs)" and "xs \<noteq> []" and "ys \<noteq> []"
    and "int (length xs) + int (length ys) + 1 < 2 ^ 31"
  shows "(case CSLInsertStrings (Some xs) n (Some ys) of
            None \<Rightarrow> None
          | Some l \<Rightarrow> CSLRemoveStrings l n (int (length ys)) True) =
         Some \<lparr>rm_list = Some xs, rm_ret = Some (map Some ys), rm_freed = []\<rparr>"
proof -
  let ?zs = "take (nat n) xs @ ys @ drop (nat n) xs"
  have "CSLInsertStrings (Some xs) n (Some ys) = Some (Some ?zs)"
    using CSLInsertStrings_list [of n ys "Some xs"] assms by (simp add: insert_pos_def)
  moreover have "nat (n + int (length ys)) = nat n + length ys"
    using assms by (simp add: nat_add_distrib)
  moreover have "1 \<le> int (length ys)" using assms(4) by (cases ys) auto
  ultimately show ?thesis
    using assms CSLRemoveStrings_range [of n "int (length ys)" ?zs True] by simp
qed

theorem CSLInsert_remove_roundtrip_witness:
  "(case CSLInsertStrings (Some [''a'']) 0 (Some [''x'', ''y'']) of
      None \<Rightarrow> None
    | Some l \<Rightarrow> CSLRemoveStrings l 0 2 True) =
   Some \<lparr>rm_list = Some [''a''], rm_ret = Some [Some ''x'', Some ''y''], rm_freed = []\<rparr>"
  using CSLInsert_remove_roundtrip [of 0 "[''a'']" "[''x'', ''y'']"] by (simp cong: option.case_cong)

end
