(* ===== verification/CslNames.thy ===== *)
theory CslNames
  imports CslCore
begin

section \<open>Name/value lists (port/cpl_string.cpp)\<close>

text \<open>
  A string list may hold \<open>NAME=VALUE\<close> lines (\<open>NAME:VALUE\<close> is accepted too).  Names are compared
  without regard to case.  The lookups want the separator right after the name; CSLSetNameValue also
  accepts spaces between them and ignores spaces at the end of the name it is given.  The interface
  of such a store, and what CSLMerge makes of it, is the locale \<open>name_value_store\<close>.
\<close>

definition is_sep :: "char \<Rightarrow> bool" where
  "is_sep c \<longleftrightarrow> c = CHR ''='' \<or> c = CHR '':''"

definition is_blank :: "char \<Rightarrow> bool" where
  "is_blank c \<longleftrightarrow> c = CHR '' '' \<or> c = CHR 0x09"

subsection \<open>Boolean values\<close>

definition CPLTestBool :: "string \<Rightarrow> bool" where
  "CPLTestBool pszValue \<longleftrightarrow>
     \<not> (EQUAL pszValue ''NO'' \<or> EQUAL pszValue ''FALSE'' \<or> EQUAL pszValue ''OFF'' \<or>
        EQUAL pszValue ''0'')"

definition CSLTestBoolean :: "string \<Rightarrow> int" where
  "CSLTestBoolean pszValue = (if CPLTestBool pszValue then 1 else 0)"

definition CPLTestBoolean :: "string \<Rightarrow> int" where
  "CPLTestBoolean pszValue = (if CPLTestBool pszValue then 1 else 0)"

subsection \<open>Lookups\<close>

definition name_matches :: "string \<Rightarrow> string \<Rightarrow> bool" where
  "name_matches pszName s \<longleftrightarrow>
     EQUALN s pszName (length pszName) \<and>
     (c_at s (length pszName) = CHR ''='' \<or> c_at s (length pszName) = CHR '':'')"

fun CSLFetchNameValue_loop :: "string list \<Rightarrow> string \<Rightarrow> cell" where
  "CSLFetchNameValue_loop [] pszName = None"
| "CSLFetchNameValue_loop (s # xs) pszName =
     (if name_matches pszName s then Some (drop (length pszName + 1) s)
      else CSLFetchNameValue_loop xs pszName)"

definition CSLFetchNameValue :: "csl \<Rightarrow> cell \<Rightarrow> cell" where
  "CSLFetchNameValue papszStrList pszName =
     (case (papszStrList, pszName) of
        (Some xs, Some n) \<Rightarrow> CSLFetchNameValue_loop xs n
      | _ \<Rightarrow> None)"

definition CSLFetchNameValueDef :: "csl \<Rightarrow> cell \<Rightarrow> cell \<Rightarrow> cell" where
  "CSLFetchNameValueDef papszStrList pszName pszDefault =
     (case CSLFetchNameValue papszStrList pszName of
        Some v \<Rightarrow> Some v
      | None \<Rightarrow> pszDefault)"

definition CSLFindName :: "csl \<Rightarrow> cell \<Rightarrow> int" where
  "CSLFindName papszStrList pszName =
     (case (papszStrList, pszName) of
        (Some xs, Some n) \<Rightarrow> csl_find (name_matches n) 0 xs
      | _ \<Rightarrow> - 1)"

fun CSLFetchNameValueMultiple_loop :: "string list \<Rightarrow> string \<Rightarrow> csl \<Rightarrow> csl" where
  "CSLFetchNameValueMultiple_loop [] pszName papszValues = papszValues"
| "CSLFetchNameValueMultiple_loop (s # xs) pszName papszValues =
     CSLFetchNameValueMultiple_loop xs pszName
       (if name_matches pszName s
        then CSLAddString papszValues (Some (drop (length pszName + 1) s)) else papszValues)"

definition CSLFetchNameValueMultiple :: "csl \<Rightarrow> cell \<Rightarrow> csl" where
  "CSLFetchNameValueMultiple papszStrList pszName =
     (case (papszStrList, pszName) of
        (Some xs, Some n) \<Rightarrow> CSLFetchNameValueMultiple_loop xs n None
      | _ \<Rightarrow> None)"

definition CPLFetchBool :: "csl \<Rightarrow> string \<Rightarrow> bool \<Rightarrow> bool" where
  "CPLFetchBool papszStrList pszKey bDefault =
     (if CSLFindString papszStrList pszKey \<noteq> - 1 then True
      else (case CSLFetchNameValue papszStrList (Some pszKey) of
              None \<Rightarrow> bDefault
            | Some pszValue \<Rightarrow> CPLTestBool pszValue))"

definition CSLFetchBoolean :: "csl \<Rightarrow> string \<Rightarrow> int \<Rightarrow> int" where
  "CSLFetchBoolean papszStrList pszKey bDefault =
     (if CPLFetchBool papszStrList pszKey (bDefault \<noteq> 0) then 1 else 0)"

subsection \<open>Parsing and changing lines\<close>

text \<open>The key and the value of a line, \<open>Some None\<close> when it has no separator: blanks are removed before
  the value and after the key.  The index, which is the length of \<open>key\<close>, is an \<open>int\<close>; \<open>None\<close> is its overflow.\<close>

fun CPLParseNameValue_loop :: "string \<Rightarrow> string \<Rightarrow> (string \<times> string) option option" where
  "CPLParseNameValue_loop key [] = Some None"
| "CPLParseNameValue_loop key (c # s) = do {
     _ \<leftarrow> c_int (int (length key) + 1);
     if c = CHR ''='' \<or> c = CHR '':''
     then Some (Some (c_rstrip is_blank key, dropWhile is_blank s))
     else CPLParseNameValue_loop (key @ [c]) s
   }"

definition CPLParseNameValue :: "string \<Rightarrow> (string \<times> string) option option" where
  "CPLParseNameValue pszNameValue = CPLParseNameValue_loop [] pszNameValue"

definition CSLAddNameValue :: "csl \<Rightarrow> cell \<Rightarrow> cell \<Rightarrow> csl" where
  "CSLAddNameValue papszStrList pszName pszValue =
     (case (pszName, pszValue) of
        (Some n, Some v) \<Rightarrow> CSLAddString papszStrList (Some (n @ ''='' @ v))
      | _ \<Rightarrow> papszStrList)"

text \<open>The separator of a line that CSLSetNameValue recognises: the first \<open>nLen\<close> characters of the
  name, then spaces, then \<open>=\<close> or \<open>:\<close>.\<close>

definition set_match :: "string \<Rightarrow> nat \<Rightarrow> string \<Rightarrow> char option" where
  "set_match pszName nLen s =
     (if EQUALN s pszName nLen
      then (case dropWhile (\<lambda>c. c = CHR '' '') (drop nLen s) of
              [] \<Rightarrow> None
            | cSep # _ \<Rightarrow> if cSep = CHR ''='' \<or> cSep = CHR '':'' then Some cSep else None)
      else None)"

text \<open>The loop over the list; \<open>None\<close> when no line matches.\<close>

fun CSLSetNameValue_loop :: "string list \<Rightarrow> string \<Rightarrow> nat \<Rightarrow> cell \<Rightarrow> string list option" where
  "CSLSetNameValue_loop [] pszName nLen pszValue = None"
| "CSLSetNameValue_loop (s # xs) pszName nLen pszValue =
     (case set_match pszName nLen s of
        Some cSep \<Rightarrow>
          (case pszValue of
             None \<Rightarrow> Some xs
           | Some v \<Rightarrow> Some ((pszName @ [cSep] @ v) # xs))
      | None \<Rightarrow> map_option ((#) s) (CSLSetNameValue_loop xs pszName nLen pszValue))"

definition CSLSetNameValue :: "csl \<Rightarrow> cell \<Rightarrow> cell \<Rightarrow> csl" where
  "CSLSetNameValue papszList pszName pszValue =
     (case pszName of
        None \<Rightarrow> papszList
      | Some n \<Rightarrow>
          (case CSLSetNameValue_loop (strings_of papszList) n
                  (length (c_rstrip (\<lambda>c. c = CHR '' '') n)) pszValue of
             Some xs \<Rightarrow> Some xs
           | None \<Rightarrow>
               (case pszValue of
                  None \<Rightarrow> papszList
                | Some v \<Rightarrow> CSLAddNameValue papszList (Some n) (Some v))))"

fun CSLSetNameValueSeparator_loop :: "int \<Rightarrow> string list \<Rightarrow> string \<Rightarrow> string list option" where
  "CSLSetNameValueSeparator_loop iLine [] pszSeparator = Some []"
| "CSLSetNameValueSeparator_loop iLine (s # xs) pszSeparator = do {
     kv \<leftarrow> CPLParseNameValue s;
     iLine \<leftarrow> c_int (iLine + 1);
     r \<leftarrow> CSLSetNameValueSeparator_loop iLine xs pszSeparator;
     Some ((case kv of None \<Rightarrow> s | Some (pszKey, pszValue) \<Rightarrow> pszKey @ pszSeparator @ pszValue) # r)
   }"

definition CSLSetNameValueSeparator :: "csl \<Rightarrow> string \<Rightarrow> csl option" where
  "CSLSetNameValueSeparator papszList pszSeparator =
     (case papszList of
        None \<Rightarrow> Some None
      | Some xs \<Rightarrow> map_option Some (CSLSetNameValueSeparator_loop 0 xs pszSeparator))"

text \<open>The loop over the overrides, with its index, an \<open>int\<close>.\<close>

fun CSLMerge_loop :: "int \<Rightarrow> csl \<Rightarrow> string list \<Rightarrow> csl option" where
  "CSLMerge_loop i papszOrig [] = Some papszOrig"
| "CSLMerge_loop i papszOrig (s # ov) = do {
     kv \<leftarrow> CPLParseNameValue s;
     let papszOrig = (case kv of
         None \<Rightarrow> CSLSetNameValue papszOrig None None
       | Some (pszKey, pszValue) \<Rightarrow> CSLSetNameValue papszOrig (Some pszKey) (Some pszValue));
     i \<leftarrow> c_int (i + 1);
     CSLMerge_loop i papszOrig ov
   }"

definition CSLMerge :: "csl \<Rightarrow> csl \<Rightarrow> csl option" where
  "CSLMerge papszOrig papszOverride =
     (if papszOrig = None \<and> papszOverride \<noteq> None then Some (CSLDuplicate papszOverride)
      else (case papszOverride of
              None \<Rightarrow> Some papszOrig
            | Some ov \<Rightarrow> CSLMerge_loop 0 papszOrig ov))"

subsection \<open>The key of a line\<close>

definition key_of :: "string \<Rightarrow> string" where
  "key_of s = takeWhile (\<lambda>c. \<not> is_sep c) s"

definition has_sep :: "string \<Rightarrow> bool" where
  "has_sep s \<longleftrightarrow> (\<exists>c\<in>set s. is_sep c)"

text \<open>A well formed name: no separator, no space at its end.\<close>

definition okname :: "string \<Rightarrow> bool" where
  "okname n \<longleftrightarrow> \<not> has_sep n \<and> (n = [] \<or> last n \<noteq> CHR '' '')"

lemma has_sep_split: "has_sep s \<Longrightarrow> \<exists>c v. s = key_of s @ c # v \<and> is_sep c"
  unfolding has_sep_def key_of_def
  by (metis (no_types, lifting) dropWhile_eq_Cons_conv dropWhile_eq_Nil_conv list.exhaust takeWhile_dropWhile_id)

lemma key_of_append [simp]: "\<not> has_sep k \<Longrightarrow> is_sep c \<Longrightarrow> key_of (k @ c # v) = k"
  by (auto simp: key_of_def has_sep_def takeWhile_append)

lemma has_sep_append [simp]: "has_sep (k @ c # v) \<longleftrightarrow> has_sep k \<or> is_sep c \<or> has_sep v"
  by (auto simp: has_sep_def)

lemma has_sep_append2: "has_sep (a @ b) \<longleftrightarrow> has_sep a \<or> has_sep b"
  by (auto simp: has_sep_def)

lemma not_has_sep_key [simp]: "\<not> has_sep (key_of s)"
  by (auto simp: has_sep_def key_of_def dest: set_takeWhileD)

lemma is_sep_tolower [simp]: "is_sep (c_tolower c) = is_sep c"
  by (simp add: is_sep_def)

lemma has_sep_EQUAL: "EQUAL a b \<Longrightarrow> has_sep a = has_sep b"
proof -
  have "has_sep (map c_tolower s) = has_sep s" for s
    by (simp add: has_sep_def)
  then show "EQUAL a b \<Longrightarrow> has_sep a = has_sep b" unfolding EQUAL_def by metis
qed

lemma EQUAL_spaces: "EQUAL a b \<Longrightarrow> set b \<subseteq> {CHR '' ''} \<Longrightarrow> set a \<subseteq> {CHR '' ''}"
proof
  fix c
  assume E: "EQUAL a b" and sp: "set b \<subseteq> {CHR '' ''}" and "c \<in> set a"
  then have "c_tolower c \<in> set (map c_tolower a)" by simp
  then have "c_tolower c \<in> set (map c_tolower b)" using E by (simp only: EQUAL_def)
  with sp show "c \<in> {CHR '' ''}" by auto
qed

lemma name_matches_iff:
  "name_matches n s \<longleftrightarrow> (\<exists>k c v. s = k @ c # v \<and> is_sep c \<and> EQUAL k n)"
proof
  assume m: "name_matches n s"
  then obtain k r where s: "s = k @ r" "EQUAL k n" by (auto simp: name_matches_def EQUALN_append)
  then have len: "length k = length n" by (simp add: EQUAL_length)
  obtain c v where "r = c # v" using m s len by (cases r) (auto simp: name_matches_def c_at_def)
  moreover from this have "c_at s (length n) = c"
    using s(1) len c_at_append_length [of k c v] by simp
  then have "is_sep c" using m by (simp add: name_matches_def is_sep_def)
  ultimately show "\<exists>k c v. s = k @ c # v \<and> is_sep c \<and> EQUAL k n" using s by blast
next
  assume "\<exists>k c v. s = k @ c # v \<and> is_sep c \<and> EQUAL k n"
  then obtain k c v where "s = k @ c # v" "is_sep c" "EQUAL k n" by blast
  moreover from this have "length k = length n" by (simp add: EQUAL_length)
  ultimately show "name_matches n s"
    using c_at_append_length [of k c v] by (auto simp: name_matches_def EQUALN_append is_sep_def)
qed

lemma name_matches_key:
  assumes "\<not> has_sep n"
  shows "name_matches n s \<longleftrightarrow> has_sep s \<and> EQUAL (key_of s) n"
proof
  assume "name_matches n s"
  then obtain k c v where s: "s = k @ c # v" "is_sep c" "EQUAL k n" by (auto simp: name_matches_iff)
  then have "\<not> has_sep k" using assms has_sep_EQUAL by blast
  with s show "has_sep s \<and> EQUAL (key_of s) n" by simp
next
  assume "has_sep s \<and> EQUAL (key_of s) n"
  then show "name_matches n s" using has_sep_split name_matches_iff by blast
qed

lemma dropWhile_spaces: "set a \<subseteq> {CHR '' ''} \<Longrightarrow> d \<noteq> CHR '' '' \<Longrightarrow>
  dropWhile (\<lambda>c. c = CHR '' '') (a @ d # v) = d # v"
  by (induction a) auto

lemma is_sep_not_space: "is_sep c \<Longrightarrow> c \<noteq> CHR '' ''"
  by (auto simp: is_sep_def)

abbreviation rtrim :: "string \<Rightarrow> string" where
  "rtrim n \<equiv> c_rstrip (\<lambda>c. c = CHR '' '') n"

lemma set_match_SomeI:
  assumes "EQUAL k (rtrim n)" "set sp \<subseteq> {CHR '' ''}" "is_sep c"
  shows "set_match n (length (rtrim n)) (k @ sp @ c # v) = Some c"
proof -
  have len: "length k = length (rtrim n)" using assms(1) by (rule EQUAL_length)
  obtain t where "n = rtrim n @ t" using c_rstrip_split by blast
  then have "take (length (rtrim n)) n = rtrim n" by (metis append_eq_conv_conj)
  then have "EQUALN (k @ sp @ c # v) n (length (rtrim n))"
    using assms(1) len by (simp add: EQUALN_def EQUAL_def)
  moreover have "drop (length (rtrim n)) (k @ sp @ c # v) = sp @ c # v"
    using len by (simp flip: len)
  ultimately show ?thesis
    using assms(2,3) dropWhile_spaces [of sp c v] is_sep_not_space
    by (auto simp: set_match_def is_sep_def)
qed

lemma set_match_SomeD:
  assumes "set_match n (length (rtrim n)) s = Some c"
  shows "is_sep c \<and> (\<exists>k sp v. s = k @ sp @ c # v \<and> EQUAL k (rtrim n) \<and> (set sp \<subseteq> {CHR '' ''}))"
proof -
  let ?L = "length (rtrim n)"
  let ?P = "\<lambda>c. c = CHR '' ''"
  from assms have E: "EQUALN s n ?L" by (simp add: set_match_def split: if_splits)
  have "\<exists>v. dropWhile ?P (drop ?L s) = c # v \<and> is_sep c"
  proof (cases "dropWhile ?P (drop ?L s)")
    case Nil
    with assms E have "None = Some c" by (simp only: set_match_def if_True list.case)
    then show ?thesis by simp
  next
    case (Cons d v)
    with assms E have "(if d = CHR ''='' \<or> d = CHR '':'' then Some d else None) = Some c"
      by (simp only: set_match_def if_True list.case)
    then show ?thesis using Cons by (simp add: is_sep_def split: if_splits)
  qed
  then obtain v where dw: "dropWhile ?P (drop ?L s) = c # v" and sep: "is_sep c" by blast
  from dw have v: "drop ?L s = takeWhile ?P (drop ?L s) @ c # v"
    using takeWhile_dropWhile_id [of ?P "drop ?L s"] by simp
  obtain t where "n = rtrim n @ t" using c_rstrip_split by blast
  then have "take ?L n = rtrim n" by (metis append_eq_conv_conj)
  then have "EQUAL (take ?L s) (rtrim n)" using E by (simp add: EQUALN_def EQUAL_def)
  moreover have "s = take ?L s @ takeWhile ?P (drop ?L s) @ c # v"
    using v by (metis append_take_drop_id)
  moreover have "set (takeWhile ?P (drop ?L s)) \<subseteq> {CHR '' ''}"
    by (auto dest: set_takeWhileD)
  ultimately show ?thesis using sep by blast
qed

lemma name_matches_set_match:
  assumes "name_matches n s"
  shows "set_match n (length (rtrim n)) s \<noteq> None"
proof -
  obtain k c v where s: "s = k @ c # v" "is_sep c" "EQUAL k n"
    using assms by (auto simp: name_matches_iff)
  obtain t where t: "n = rtrim n @ t" "set t \<subseteq> {CHR '' ''}" using c_rstrip_split [of n "\<lambda>c. c = CHR '' ''"] by blast
  from s(3) t(1) have "EQUAL (rtrim n @ t) k" using EQUAL_symD by simp
  then obtain u w where k: "k = u @ w" "EQUAL (rtrim n) u" "EQUAL t w" by (auto simp: EQUAL_append)
  have "EQUAL w t" using k(3) by (rule EQUAL_symD)
  then have "set w \<subseteq> {CHR '' ''}" using t(2) by (rule EQUAL_spaces)
  moreover have "EQUAL u (rtrim n)" using k(2) by (rule EQUAL_symD)
  ultimately have "set_match n (length (rtrim n)) (u @ w @ c # v) = Some c"
    using s(2) by (intro set_match_SomeI)
  then show ?thesis using s k by simp
qed

lemma set_match_key:
  assumes "okname n" and "has_sep s \<longrightarrow> okname (key_of s)"
  shows "(\<exists>c. set_match n (length (rtrim n)) s = Some c) \<longleftrightarrow> has_sep s \<and> EQUAL (key_of s) n"
proof
  assume "\<exists>c. set_match n (length (rtrim n)) s = Some c"
  then obtain c where "set_match n (length (rtrim n)) s = Some c" by blast
  from set_match_SomeD [OF this] obtain k sp v
    where s: "is_sep c" "s = k @ sp @ c # v" "EQUAL k (rtrim n)" "set sp \<subseteq> {CHR '' ''}"
    by blast
  have n: "rtrim n = n" using assms(1) by (auto simp: okname_def intro: c_rstrip_id)
  have "\<not> has_sep k" using s(3) n assms(1) has_sep_EQUAL by (auto simp: okname_def)
  moreover have "\<not> has_sep sp" using s(4) by (auto simp: has_sep_def is_sep_def)
  ultimately have "\<not> has_sep (k @ sp)" by (simp add: has_sep_append2)
  then have key: "key_of s = k @ sp" using s(1,2) key_of_append [of "k @ sp" c v] by simp
  have hs: "has_sep s" using s(1,2) by (simp add: has_sep_def)
  then have "okname (k @ sp)" using assms(2) key by simp
  then have "sp = []" using s(4) by (cases sp rule: rev_cases) (auto simp: okname_def)
  then show "has_sep s \<and> EQUAL (key_of s) n" using hs key s(3) n by simp
next
  assume "has_sep s \<and> EQUAL (key_of s) n"
  then have "name_matches n s" using assms(1) by (simp add: name_matches_key okname_def)
  then show "\<exists>c. set_match n (length (rtrim n)) s = Some c" using name_matches_set_match by blast
qed

lemma name_matches_new [simp]: "is_sep c \<Longrightarrow> name_matches n (n @ c # v)"
  using EQUAL_refl [of n] unfolding name_matches_iff by blast

lemma set_match_is_sep: "set_match n (length (rtrim n)) s = Some c \<Longrightarrow> is_sep c"
  using set_match_SomeD by blast

subsection \<open>The loops\<close>

lemma fetch_append:
  "CSLFetchNameValue_loop (A @ B) n =
   (case CSLFetchNameValue_loop A n of None \<Rightarrow> CSLFetchNameValue_loop B n | Some v \<Rightarrow> Some v)"
  by (induction A) auto

lemma fetch_None: "CSLFetchNameValue_loop A n = None \<longleftrightarrow> (\<forall>s\<in>set A. \<not> name_matches n s)"
  by (induction A) auto

text \<open>What the loop of CSLSetNameValue makes of the matching line.\<close>

definition set_line :: "string \<Rightarrow> char \<Rightarrow> cell \<Rightarrow> string list" where
  "set_line n c v = (case v of None \<Rightarrow> [] | Some w \<Rightarrow> [n @ [c] @ w])"

lemma set_line_simps [simp]: "set_line n c None = []" "set_line n c (Some w) = [n @ c # w]"
  by (simp_all add: set_line_def)

lemma set_loop_None:
  "CSLSetNameValue_loop xs n L v = None \<longleftrightarrow> (\<forall>s\<in>set xs. set_match n L s = None)"
  by (induction xs) (auto split: option.splits)

lemma set_loop_Some:
  "CSLSetNameValue_loop xs n L v = Some ys \<Longrightarrow>
   \<exists>A s B c. xs = A @ s # B \<and> (\<forall>a\<in>set A. set_match n L a = None) \<and> set_match n L s = Some c \<and>
             ys = A @ set_line n c v @ B"
proof (induction xs arbitrary: ys)
  case Nil
  then show ?case by simp
next
  case (Cons s xs)
  show ?case
  proof (cases "set_match n L s")
    case (Some c)
    with Cons.prems have "ys = [] @ set_line n c v @ xs"
      by (cases v) simp_all
    with Some show ?thesis
      by (intro exI [of _ "[]"] exI [of _ s] exI [of _ xs] exI [of _ c]) simp
  next
    case None
    with Cons.prems obtain zs where zs: "CSLSetNameValue_loop xs n L v = Some zs" "ys = s # zs"
      by auto
    from Cons.IH [OF zs(1)] obtain A t B c where
      "xs = A @ t # B" "\<forall>a\<in>set A. set_match n L a = None" "set_match n L t = Some c"
      "zs = A @ set_line n c v @ B" by blast
    with None zs(2) show ?thesis
      by (intro exI [of _ "s # A"] exI [of _ t] exI [of _ B] exI [of _ c]) simp
  qed
qed

text \<open>The two ways CSLSetNameValue can go for a name.\<close>

lemma CSLSetNameValue_cases:
  obtains (replaced) A s B c where "strings_of l = A @ s # B"
      "\<forall>a\<in>set A. set_match n (length (rtrim n)) a = None"
      "set_match n (length (rtrim n)) s = Some c"
      "CSLSetNameValue l (Some n) v = Some (A @ set_line n c v @ B)"
  | (absent) "\<forall>a\<in>set (strings_of l). set_match n (length (rtrim n)) a = None"
      "CSLSetNameValue l (Some n) v =
        (case v of None \<Rightarrow> l | Some w \<Rightarrow> Some (strings_of l @ [n @ CHR ''='' # w]))"
proof (cases "CSLSetNameValue_loop (strings_of l) n (length (rtrim n)) v")
  case None
  then have "\<forall>a\<in>set (strings_of l). set_match n (length (rtrim n)) a = None"
    by (simp add: set_loop_None)
  moreover have "CSLSetNameValue l (Some n) v =
        (case v of None \<Rightarrow> l | Some w \<Rightarrow> Some (strings_of l @ [n @ CHR ''='' # w]))"
    using None by (cases v) (simp_all add: CSLSetNameValue_def CSLAddNameValue_def)
  ultimately show ?thesis by (rule absent)
next
  case (Some ys)
  from set_loop_Some [OF this] obtain A s B c where
    "strings_of l = A @ s # B" "\<forall>a\<in>set A. set_match n (length (rtrim n)) a = None"
    "set_match n (length (rtrim n)) s = Some c" "ys = A @ set_line n c v @ B" by blast
  moreover have "CSLSetNameValue l (Some n) v = Some ys"
    using Some by (simp add: CSLSetNameValue_def)
  ultimately show ?thesis using replaced by blast
qed

subsection \<open>The store interface and its clients\<close>

text \<open>
  What a client of a name/value store relies on: a lookup after an update sees the new value for
  the same name (up to case) and the old value for every other name, and updates keep the store's
  invariant.  A NULL value deletes the name.
\<close>

locale name_value_store =
  fixes lookup :: "'s \<Rightarrow> string \<Rightarrow> cell"
    and update :: "'s \<Rightarrow> string \<Rightarrow> cell \<Rightarrow> 's"
    and inv :: "'s \<Rightarrow> bool"
    and good :: "string \<Rightarrow> bool"
  assumes inv_update: "inv s \<Longrightarrow> good n \<Longrightarrow> inv (update s n v)"
    and lookup_update: "inv s \<Longrightarrow> good n \<Longrightarrow> good m \<Longrightarrow>
      lookup (update s n v) m = (if EQUAL m n then v else lookup s m)"
begin

lemma lookup_update_twice:
  "inv s \<Longrightarrow> good n \<Longrightarrow> good m \<Longrightarrow> lookup (update (update s n v) n w) m = lookup (update s n w) m"
  by (simp add: lookup_update inv_update)

lemma lookup_update_commute:
  assumes "inv s" "good n" "good n'" "good m" "\<not> EQUAL n n'"
  shows "lookup (update (update s n v) n' w) m = lookup (update (update s n' w) n v) m"
  using assms by (auto simp: lookup_update inv_update dest: EQUAL_trans EQUAL_symD)

text \<open>A list of assignments: the last one for a name wins, names not assigned keep their value.\<close>

lemma inv_updates:
  "inv s \<Longrightarrow> \<forall>(n, v)\<in>set kvs. good n \<Longrightarrow> inv (fold (\<lambda>(n, v) s. update s n (Some v)) kvs s)"
  by (induction kvs arbitrary: s) (auto simp: inv_update)

lemma lookup_updates:
  assumes "inv s" and "\<forall>(n, v)\<in>set kvs. good n" and "good m"
  shows "lookup (fold (\<lambda>(n, v) s. update s n (Some v)) kvs s) m =
         (case find (\<lambda>(n, v). EQUAL m n) (rev kvs) of
            Some (n, v) \<Rightarrow> Some v
          | None \<Rightarrow> lookup s m)"
  using assms
proof (induction kvs rule: rev_induct)
  case Nil
  then show ?case by simp
next
  case (snoc kv kvs)
  obtain n v where kv: "kv = (n, v)" by (cases kv)
  have "inv (fold (\<lambda>(n, v) s. update s n (Some v)) kvs s)"
    using snoc.prems by (intro inv_updates) auto
  then show ?case using snoc kv by (simp add: lookup_update)
qed

end

subsection \<open>CSLSetNameValue and CSLFetchNameValue are such a store\<close>

definition nv_ok :: "string list \<Rightarrow> bool" where
  "nv_ok xs \<longleftrightarrow> (\<forall>s\<in>set xs. has_sep s \<longrightarrow> okname (key_of s)) \<and>
     distinct (map (\<lambda>s. map c_tolower (key_of s)) (filter has_sep xs))"

lemma nv_ok_Nil [simp]: "nv_ok []"
  by (simp add: nv_ok_def)

lemma nv_ok_delete: "nv_ok (A @ s # B) \<Longrightarrow> nv_ok (A @ B)"
  by (auto simp: nv_ok_def split: if_splits)

lemma nv_ok_replace:
  assumes "nv_ok (A @ s # B)" "has_sep s" "EQUAL (key_of s) n" "okname n" "is_sep c"
  shows "nv_ok (A @ (n @ c # w) # B)"
proof -
  have "key_of (n @ c # w) = n" using assms by (simp add: okname_def)
  then show ?thesis using assms by (auto simp: nv_ok_def EQUAL_def)
qed

lemma nv_ok_snoc:
  assumes "nv_ok xs" "okname n" "is_sep c" "\<forall>s\<in>set xs. has_sep s \<longrightarrow> \<not> EQUAL (key_of s) n"
  shows "nv_ok (xs @ [n @ c # w])"
proof -
  have "key_of (n @ c # w) = n" using assms by (simp add: okname_def)
  then show ?thesis using assms by (auto simp: nv_ok_def EQUAL_def)
qed

lemma nv_ok_other:
  assumes "nv_ok (A @ s # B)" "has_sep s" "EQUAL (key_of s) n" "t \<in> set B" "has_sep t"
  shows "\<not> EQUAL (key_of t) n"
  using assms by (auto simp: nv_ok_def EQUAL_def image_iff)

lemma set_match_ok:
  assumes "nv_ok xs" "okname n" "s \<in> set xs"
  shows "set_match n (length (rtrim n)) s = None \<longleftrightarrow> \<not> (has_sep s \<and> EQUAL (key_of s) n)"
  using set_match_key [of n s] assms by (auto simp: nv_ok_def)

lemma lookup_ok:
  "\<not> has_sep m \<Longrightarrow> CSLFetchNameValue l (Some m) = CSLFetchNameValue_loop (strings_of l) m"
  by (cases l) (simp_all add: CSLFetchNameValue_def)

lemma CSLSet_inv:
  assumes "nv_ok (strings_of l)" and "okname n"
  shows "nv_ok (strings_of (CSLSetNameValue l (Some n) v))"
proof (cases l n v rule: CSLSetNameValue_cases)
  case (replaced A s B c)
  then have s: "has_sep s" "EQUAL (key_of s) n"
    using set_match_ok [OF assms, of s] by auto
  show ?thesis
  proof (cases v)
    case None
    then show ?thesis using replaced assms(1) nv_ok_delete by simp
  next
    case (Some w)
    then show ?thesis
      using replaced assms s nv_ok_replace [of A s B n c w] set_match_is_sep by simp
  qed
next
  case absent
  then have "\<forall>s\<in>set (strings_of l). has_sep s \<longrightarrow> \<not> EQUAL (key_of s) n"
    using set_match_ok [OF assms] by blast
  then show ?thesis
    using absent(2) assms nv_ok_snoc [of "strings_of l" n "CHR ''=''"]
    by (cases v) (simp_all add: is_sep_def)
qed

lemma CSLSet_lookup:
  assumes "nv_ok (strings_of l)" and "okname n" and "okname m"
  shows "CSLFetchNameValue (CSLSetNameValue l (Some n) v) (Some m) =
         (if EQUAL m n then v else CSLFetchNameValue l (Some m))"
proof (cases l n v rule: CSLSetNameValue_cases)
  case (replaced A s B c)
  have m: "\<not> has_sep m" using assms(3) by (simp add: okname_def)
  have s: "has_sep s" "EQUAL (key_of s) n"
    using replaced set_match_ok [OF assms(1,2), of s] by auto
  have A: "\<not> (has_sep a \<and> EQUAL (key_of a) n)" if "a \<in> set A" for a
    using that replaced set_match_ok [OF assms(1,2), of a] by auto
  have B: "\<not> (has_sep b \<and> EQUAL (key_of b) n)" if "b \<in> set B" for b
    using that replaced(1) s assms(1) nv_ok_other by metis
  have c: "is_sep c" using replaced(3) by (rule set_match_is_sep)
  have new: "name_matches m (n @ c # w) \<longleftrightarrow> EQUAL m n" for w
    using m c assms(2) EQUAL_sym [of m n] by (simp add: name_matches_key okname_def)
  have len: "EQUAL m n \<Longrightarrow> length m = length n" by (rule EQUAL_length)
  show ?thesis
  proof (cases "EQUAL m n")
    case True
    have no: "CSLFetchNameValue_loop A m = None" "CSLFetchNameValue_loop B m = None"
      using A B True m unfolding fetch_None name_matches_key [OF m] by (blast dest: EQUAL_trans)+
    then show ?thesis
      using True replaced(4) new len m by (cases v) (simp_all add: lookup_ok fetch_append)
  next
    case False
    then have "\<not> name_matches m s"
      using s m name_matches_key EQUAL_trans EQUAL_symD by blast
    with False show ?thesis
      using replaced(1,4) new m by (cases v) (simp_all add: lookup_ok fetch_append split: option.split)
  qed
next
  case absent
  have m: "\<not> has_sep m" using assms(3) by (simp add: okname_def)
  have no: "\<not> (has_sep a \<and> EQUAL (key_of a) n)" if "a \<in> set (strings_of l)" for a
    using that absent set_match_ok [OF assms(1,2), of a] by auto
  have new: "name_matches m (n @ CHR ''='' # w) \<longleftrightarrow> EQUAL m n" for w
    using m assms(2) EQUAL_sym [of m n] by (simp add: name_matches_key okname_def is_sep_def)
  have len: "EQUAL m n \<Longrightarrow> length m = length n" by (rule EQUAL_length)
  have none: "CSLFetchNameValue_loop (strings_of l) m = None" if "EQUAL m n"
    using no that unfolding fetch_None name_matches_key [OF m] by (blast dest: EQUAL_trans)
  show ?thesis
    using absent(2) none new len m
    by (cases v) (auto simp: lookup_ok fetch_append split: option.split)
qed

interpretation csl: name_value_store
  "\<lambda>l n. CSLFetchNameValue l (Some n)"
  "\<lambda>l n v. CSLSetNameValue l (Some n) v"
  "\<lambda>l. nv_ok (strings_of l)"
  okname
  by unfold_locales (simp_all add: CSLSet_inv CSLSet_lookup)

text \<open>The name and the value of a line, without the blanks around its first separator.\<close>

definition name_and_value :: "string \<Rightarrow> (string \<times> string) option" where
  "name_and_value s =
     (if has_sep s
      then Some (c_rstrip is_blank (key_of s), dropWhile is_blank (drop (length (key_of s) + 1) s))
      else None)"

lemma CPLParseNameValue_loop_eq:
  "length k + length s < 2 ^ 31 \<Longrightarrow> CPLParseNameValue_loop k s =
   Some (if has_sep s
    then Some (c_rstrip is_blank (k @ key_of s), dropWhile is_blank (drop (length (key_of s) + 1) s))
    else None)"
proof (induction s arbitrary: k)
  case (Cons c s)
  have "c_int (int (length k) + 1) = Some (int (length k) + 1)" using Cons.prems by (simp add: c_int_def)
  then show ?case using Cons by (auto simp: key_of_def has_sep_def is_sep_def)
qed (simp add: has_sep_def)

lemma CPLParseNameValue_eq: "length s < 2 ^ 31 \<Longrightarrow> CPLParseNameValue s = Some (name_and_value s)"
  using CPLParseNameValue_loop_eq [of "[]" s] by (simp add: CPLParseNameValue_def name_and_value_def)

lemma name_and_value_okname:
  assumes "name_and_value s = Some (n, v)"
  shows "okname n"
proof -
  from assms have n: "n = c_rstrip is_blank (key_of s)"
    by (simp add: name_and_value_def split: if_splits)
  obtain t where "key_of s = n @ t" using c_rstrip_split n by blast
  then have "\<not> has_sep n" using not_has_sep_key [of s] by (simp add: has_sep_append2)
  moreover have "n = [] \<or> \<not> is_blank (last n)" unfolding n by (rule c_rstrip_last)
  ultimately show ?thesis by (auto simp: okname_def is_blank_def)
qed

lemma CSLMerge_loop_fold:
  "0 \<le> i \<Longrightarrow> i + int (length ov) < 2 ^ 31 \<Longrightarrow> \<forall>s\<in>set ov. length s < 2 ^ 31 \<Longrightarrow> CSLMerge_loop i l ov =
   Some (fold (\<lambda>(n, v) l. CSLSetNameValue l (Some n) (Some v)) (List.map_filter name_and_value ov) l)"
proof (induction ov arbitrary: i l)
  case Nil
  then show ?case by (simp add: List.map_filter_def)
next
  case (Cons s ov)
  have "c_int (i + 1) = Some (i + 1)" "CPLParseNameValue s = Some (name_and_value s)"
    using Cons.prems by (simp_all add: c_int_def CPLParseNameValue_eq)
  then show ?case
    using Cons.prems Cons.IH [of "i + 1"]
    by (cases "name_and_value s") (auto simp: List.map_filter_def CSLSetNameValue_def)
qed

subsection \<open>Properties\<close>

text \<open>CSLFetchNameValue after CSLSetNameValue of the same name gives the new value, for every
  list, name and value: also for lists with duplicate names, names holding separators or ending in
  spaces, and lines with spaces before the separator.\<close>

theorem CSLSetNameValue_fetch:
  "CSLFetchNameValue (CSLSetNameValue l (Some n) (Some v)) (Some n) = Some v"
proof -
  have none: "CSLFetchNameValue_loop A n = None"
    if "\<forall>a\<in>set A. set_match n (length (rtrim n)) a = None" for A
    using that name_matches_set_match unfolding fetch_None by blast
  show ?thesis
  proof (cases l n "Some v" rule: CSLSetNameValue_cases)
    case (replaced A s B c)
    then show ?thesis
      using none [of A] set_match_is_sep
      by (simp add: CSLFetchNameValue_def fetch_append)
  next
    case absent
    then show ?thesis
      using none [of "strings_of l"] by (simp add: CSLFetchNameValue_def fetch_append is_sep_def)
  qed
qed





end
