(* ===== verification/Tokenize.thy ===== *)
theory Tokenize
  imports CslCore
begin

section \<open>Splitting a string into tokens (port/cpl_string.cpp)\<close>

text \<open>
  CSLTokenizeString2 scans its input once and copies the current token into a buffer that it grows
  by doubling.  The buffer is modelled with its size, and every write into it, the terminator
  included, is checked: \<open>None\<close> is a write past its end.  Growing the buffer is taken to succeed
  unless the doubled size leaves \<open>size_t\<close>, which the code tests.
\<close>

definition CSLT_HONOURSTRINGS :: int where "CSLT_HONOURSTRINGS = 0x0001"
definition CSLT_ALLOWEMPTYTOKENS :: int where "CSLT_ALLOWEMPTYTOKENS = 0x0002"
definition CSLT_PRESERVEQUOTES :: int where "CSLT_PRESERVEQUOTES = 0x0004"
definition CSLT_PRESERVEESCAPES :: int where "CSLT_PRESERVEESCAPES = 0x0008"
definition CSLT_STRIPLEADSPACES :: int where "CSLT_STRIPLEADSPACES = 0x0010"
definition CSLT_STRIPENDSPACES :: int where "CSLT_STRIPENDSPACES = 0x0020"

definition has_flag :: "int \<Rightarrow> int \<Rightarrow> bool" where
  "has_flag nCSLTFlags f \<longleftrightarrow> nCSLTFlags AND f \<noteq> 0"

definition SIZE_MAX :: nat where "SIZE_MAX = 2 ^ 64 - 1"

text \<open>The body of the inner loop for the character \<open>c\<close>, with \<open>s\<close> the input after it: the
  buffer cannot grow any more, \<open>c\<close> is a delimiter, or the scan goes on.\<close>

datatype char_step =
    Step_TooBig
  | Step_Delim nat
  | Step_Next string bool bool string nat

definition CSLTokenize_char ::
    "int \<Rightarrow> string \<Rightarrow> char \<Rightarrow> string \<Rightarrow> bool \<Rightarrow> bool \<Rightarrow> string \<Rightarrow> nat \<Rightarrow> char_step option" where
  "CSLTokenize_char nFlags pszDelimiters c s bInString bStartString tok nTokenMax =
     (if length tok \<ge> nTokenMax - 3 \<and> nTokenMax > SIZE_MAX div 2 then Some Step_TooBig
      else let nTokenMax = (if length tok \<ge> nTokenMax - 3 then nTokenMax * 2 else nTokenMax)
      in if \<not> bInString \<and> c_strchr pszDelimiters c
         then Some (Step_Delim nTokenMax)
         else if has_flag nFlags CSLT_HONOURSTRINGS \<and> c = CHR 0x22 then do {
           tok \<leftarrow> (if has_flag nFlags CSLT_PRESERVEQUOTES then buf_put tok nTokenMax c else Some tok);
           Some (Step_Next s (\<not> bInString) bStartString tok nTokenMax)
         }
         else let escape = (bInString \<and> c = CHR 0x5C \<and> (c_at s 0 = CHR 0x22 \<or> c_at s 0 = CHR 0x5C));
                  c' = (if escape then c_at s 0 else c);
                  s' = (if escape then tl s else s)
         in do {
           tok \<leftarrow> (if escape \<and> has_flag nFlags CSLT_PRESERVEESCAPES
                  then buf_put tok nTokenMax c else Some tok);
           if \<not> bInString \<and> has_flag nFlags CSLT_STRIPLEADSPACES \<and> bStartString \<and> c_isspace c'
           then Some (Step_Next s' bInString bStartString tok nTokenMax)
           else do {
             tok \<leftarrow> buf_put tok nTokenMax c';
             Some (Step_Next s' bInString False tok nTokenMax)
           }
         })"

lemma CSLTokenize_char_rest:
  "CSLTokenize_char fl d c s i st t m = Some (Step_Next s' i' st' t' m') \<Longrightarrow> length s' \<le> length s"
  by (auto simp: CSLTokenize_char_def Let_def split: if_splits bind_splits)

text \<open>The scan of one token ends because the buffer cannot grow any more, or with the rest of the
  input, the quote state, the token and the size of the buffer.\<close>

datatype token_end =
    Token_TooBig
  | Token_End string bool string nat

function CSLTokenize_token ::
    "int \<Rightarrow> string \<Rightarrow> string \<Rightarrow> bool \<Rightarrow> bool \<Rightarrow> string \<Rightarrow> nat \<Rightarrow> token_end option" where
  "CSLTokenize_token nFlags pszDelimiters [] bInString bStartString tok nTokenMax =
     Some (Token_End [] bInString tok nTokenMax)"
| "CSLTokenize_token nFlags pszDelimiters (c # s) bInString bStartString tok nTokenMax =
     (case CSLTokenize_char nFlags pszDelimiters c s bInString bStartString tok nTokenMax of
        None \<Rightarrow> None
      | Some Step_TooBig \<Rightarrow> Some Token_TooBig
      | Some (Step_Delim m) \<Rightarrow> Some (Token_End s bInString tok m)
      | Some (Step_Next s' i st t m) \<Rightarrow> CSLTokenize_token nFlags pszDelimiters s' i st t m)"
  by pat_completeness auto
termination
  by (relation "measure (\<lambda>(fl, d, s, i, st, t, m). length s)")
     (auto dest: CSLTokenize_char_rest)

lemma CSLTokenize_token_rest:
  "CSLTokenize_token fl d s i st t m = Some (Token_End r i' t' m') \<Longrightarrow>
   length r \<le> length s \<and> (s \<noteq> [] \<longrightarrow> length r < length s)"
proof (induction fl d s i st t m rule: CSLTokenize_token.induct)
  case (1 fl d i st t m)
  then show ?case by simp
next
  case (2 fl d c s i st t m)
  show ?case
  proof (cases "CSLTokenize_char fl d c s i st t m")
    case None
    with 2 show ?thesis by simp
  next
    case (Some x)
    with 2 show ?thesis by (cases x) (auto dest!: CSLTokenize_char_rest)
  qed
qed

text \<open>The outer loop: strip the token, terminate it in the buffer, keep it unless it is empty and
  empty tokens are not wanted.  The tokens found so far are \<open>acc\<close>; \<open>Some None\<close> is the exit for a
  buffer that cannot grow.\<close>

function CSLTokenize_loop ::
    "int \<Rightarrow> string \<Rightarrow> string \<Rightarrow> nat \<Rightarrow> string list \<Rightarrow> string list option option" where
  "CSLTokenize_loop nFlags pszDelimiters s nTokenMax acc =
     (if s = [] then Some (Some acc)
      else case CSLTokenize_token nFlags pszDelimiters s False True [] nTokenMax of
        None \<Rightarrow> None
      | Some Token_TooBig \<Rightarrow> Some None
      | Some (Token_End s' bInString tok m) \<Rightarrow>
          let tok' = (if \<not> bInString \<and> has_flag nFlags CSLT_STRIPENDSPACES
                      then c_rstrip c_isspace tok else tok)
          in if length tok' < m
             then CSLTokenize_loop nFlags pszDelimiters s' m
                    (if tok' \<noteq> [] \<or> has_flag nFlags CSLT_ALLOWEMPTYTOKENS then acc @ [tok'] else acc)
             else None)"
  by pat_completeness auto
termination
  by (relation "measure (\<lambda>(fl, d, s, m, acc). length s)")
     (auto dest: CSLTokenize_token_rest)

declare CSLTokenize_loop.simps [simp del]

definition CSLTokenizeString2 :: "cell \<Rightarrow> string \<Rightarrow> int \<Rightarrow> csl option" where
  "CSLTokenizeString2 pszString pszDelimiters nCSLTFlags =
     (case pszString of
        None \<Rightarrow> Some (Some [])
      | Some s \<Rightarrow>
          (case CSLTokenize_loop nCSLTFlags pszDelimiters s 10 [] of
             None \<Rightarrow> None
           | Some None \<Rightarrow> Some (Some [])
           | Some (Some acc) \<Rightarrow>
               Some (Some (if has_flag nCSLTFlags CSLT_ALLOWEMPTYTOKENS \<and> acc \<noteq> [] \<and>
                              c_strchr pszDelimiters (last s)
                           then acc @ [[]] else acc))))"

definition CSLTokenizeString :: "cell \<Rightarrow> csl option" where
  "CSLTokenizeString pszString = CSLTokenizeString2 pszString '' '' CSLT_HONOURSTRINGS"

definition CSLTokenizeStringComplex :: "cell \<Rightarrow> string \<Rightarrow> bool \<Rightarrow> bool \<Rightarrow> csl option" where
  "CSLTokenizeStringComplex pszString pszDelimiters bHonourStrings bAllowEmptyTokens =
     (let nFlags = 0;
          nFlags = (if bHonourStrings then nFlags OR CSLT_HONOURSTRINGS else nFlags);
          nFlags = (if bAllowEmptyTokens then nFlags OR CSLT_ALLOWEMPTYTOKENS else nFlags)
      in CSLTokenizeString2 pszString pszDelimiters nFlags)"

definition CSLParseCommandLine :: "cell \<Rightarrow> csl option" where
  "CSLParseCommandLine pszCommandLine = CSLTokenizeString pszCommandLine"


subsection \<open>The buffer invariant\<close>

text \<open>Between two characters the token and its terminator fit the buffer.  The buffer can only
  refuse to grow when the token is longer than half of \<open>size_t\<close>.\<close>

definition tok_ok :: "string \<Rightarrow> nat \<Rightarrow> bool" where
  "tok_ok tok m \<longleftrightarrow> 10 \<le> m \<and> length tok < m"

definition tok_small :: "nat \<Rightarrow> bool" where
  "tok_small n \<longleftrightarrow> n + 3 \<le> SIZE_MAX div 2"

lemma CSLTokenize_char_total:
  "tok_ok t m \<Longrightarrow> CSLTokenize_char fl d c s i st t m \<noteq> None"
  by (auto simp: CSLTokenize_char_def tok_ok_def buf_put_def Let_def)

lemma CSLTokenize_char_Next:
  "tok_ok t m \<Longrightarrow> CSLTokenize_char fl d c s i st t m = Some (Step_Next s' i' st' t' m') \<Longrightarrow>
   tok_ok t' m'"
  by (auto simp: CSLTokenize_char_def tok_ok_def buf_put_def Let_def split: if_splits bind_splits)

lemma CSLTokenize_char_Delim:
  "tok_ok t m \<Longrightarrow> CSLTokenize_char fl d c s i st t m = Some (Step_Delim m') \<Longrightarrow> tok_ok t m'"
  by (auto simp: CSLTokenize_char_def tok_ok_def buf_put_def Let_def split: if_splits bind_splits)

lemma CSLTokenize_token_total:
  "tok_ok t m \<Longrightarrow>
   CSLTokenize_token fl d s i st t m = Some Token_TooBig \<or>
   (\<exists>r i' t' m'. CSLTokenize_token fl d s i st t m = Some (Token_End r i' t' m') \<and> tok_ok t' m')"
proof (induction fl d s i st t m rule: CSLTokenize_token.induct)
  case (2 fl d c s i st t m)
  from CSLTokenize_char_total [OF "2.prems"]
  obtain x where x: "CSLTokenize_char fl d c s i st t m = Some x" by blast
  with 2 show ?case
    by (cases x) (auto dest: CSLTokenize_char_Next CSLTokenize_char_Delim)
qed simp

lemma c_rstrip_length: "length (c_rstrip p s) \<le> length s"
  unfolding c_rstrip_def by (metis length_dropWhile_le length_rev)

lemma CSLTokenize_loop_total:
  "10 \<le> m \<Longrightarrow> CSLTokenize_loop fl d s m acc \<noteq> None"
proof (induction fl d s m acc rule: CSLTokenize_loop.induct)
  case (1 fl d s m acc)
  show ?case
  proof (cases "s = []")
    case True
    then show ?thesis by (simp add: CSLTokenize_loop.simps)
  next
    case False
    have "tok_ok [] m" using "1.prems" by (simp add: tok_ok_def)
    from CSLTokenize_token_total [OF this, of fl d s False True]
    show ?thesis
    proof (elim disjE exE conjE)
      fix r i' t' m'
      assume tok: "CSLTokenize_token fl d s False True [] m = Some (Token_End r i' t' m')"
        and ok: "tok_ok t' m'"
      have "length (c_rstrip c_isspace t') < m'"
        using ok c_rstrip_length [of c_isspace t'] by (simp add: tok_ok_def)
      with 1(1) [OF False tok refl refl] tok ok False show ?thesis
        by (subst CSLTokenize_loop.simps) (auto simp: tok_ok_def Let_def split del: if_split split: if_splits)
    qed (simp add: False CSLTokenize_loop.simps)
  qed
qed

lemma CSLTokenizeString2_total:
  "\<exists>tokens. CSLTokenizeString2 pszString pszDelimiters nCSLTFlags = Some (Some tokens)"
proof (cases pszString)
  case (Some s)
  have "CSLTokenize_loop nCSLTFlags pszDelimiters s 10 [] \<noteq> None"
    by (rule CSLTokenize_loop_total) simp
  with Some show ?thesis by (auto simp: CSLTokenizeString2_def split: option.splits)
qed (simp add: CSLTokenizeString2_def)

text \<open>C1: CSLTokenizeString2 stays within its token buffer: for every input, every set of
  delimiters and every combination of flags, no write of a character or of the terminator is past
  the buffer's end (the check \<open>nTokenLen >= nTokenMax - 3\<close> leaves room for an escaped pair and
  the terminator), and a list is returned.\<close>

theorem CSLTokenizeString2_in_bounds:
  "\<exists>tokens. CSLTokenizeString2 pszString pszDelimiters nCSLTFlags = Some (Some tokens)"
  by (rule CSLTokenizeString2_total)

subsection \<open>What the tokens are\<close>

text \<open>The specification for tokens without quotes: the fields between delimiters, each stripped
  of white space as the flags ask.\<close>

fun split_on :: "(char \<Rightarrow> bool) \<Rightarrow> string \<Rightarrow> string list" where
  "split_on p [] = [[]]"
| "split_on p (c # s) =
     (if p c then [] # split_on p s
      else (c # hd (split_on p s)) # tl (split_on p s))"

definition token_strip :: "int \<Rightarrow> string \<Rightarrow> string" where
  "token_strip nFlags w =
     (let w' = (if has_flag nFlags CSLT_STRIPLEADSPACES then dropWhile c_isspace w else w)
      in if has_flag nFlags CSLT_STRIPENDSPACES then c_rstrip c_isspace w' else w')"

text \<open>The fields the scan meets: a delimiter at the very end starts no further field.\<close>

function scan_fields :: "(char \<Rightarrow> bool) \<Rightarrow> string \<Rightarrow> string list" where
  "scan_fields p s =
     (if s = [] then []
      else takeWhile (\<lambda>c. \<not> p c) s # scan_fields p (tl (dropWhile (\<lambda>c. \<not> p c) s)))"
  by pat_completeness auto
termination
proof (relation "measure (\<lambda>(p, s). length s)")
  fix p :: "char \<Rightarrow> bool" and s :: string
  assume "s \<noteq> []"
  moreover have "length (dropWhile (\<lambda>c. \<not> p c) s) \<le> length s" by (rule length_dropWhile_le)
  ultimately show "((p, tl (dropWhile (\<lambda>c. \<not> p c) s)), (p, s)) \<in> measure (\<lambda>(p, s). length s)"
    by (cases s) auto
qed simp

declare scan_fields.simps [simp del]

lemma scan_fields_Nil [simp]: "scan_fields p [] = []"
  by (simp add: scan_fields.simps)

lemma split_on_nonempty [simp]: "split_on p s \<noteq> []"
  by (cases s) auto

lemma split_on_unfold:
  "split_on p s = takeWhile (\<lambda>c. \<not> p c) s #
     (case dropWhile (\<lambda>c. \<not> p c) s of [] \<Rightarrow> [] | c # r \<Rightarrow> split_on p r)"
  by (induction s) simp_all

lemma split_on_scan:
  "split_on p s = scan_fields p s @ (if s = [] \<or> p (last s) then [[]] else [])"
proof (induction p s rule: scan_fields.induct)
  case (1 p s)
  show ?case
  proof (cases "s = []")
    case True
    then show ?thesis by simp
  next
    case False
    let ?d = "dropWhile (\<lambda>c. \<not> p c) s"
    show ?thesis
    proof (cases ?d)
      case Nil
      then have "\<not> p (last s)" using False by (metis dropWhile_eq_Nil_conv last_in_set)
      with Nil False show ?thesis
        by (subst split_on_unfold, subst scan_fields.simps)
          (simp only: Nil list.case list.sel scan_fields_Nil if_False append.simps simp_thms)
    next
      case (Cons c r)
      have l: "last s = (if r = [] then c else last r)"
        by (metis Cons last.simps last_appendR list.distinct(1) takeWhile_dropWhile_id)
      have c: "p c" using Cons by (metis dropWhile_eq_Cons_conv)
      from 1 [OF False] Cons l c False show ?thesis
        by (subst split_on_unfold, subst scan_fields.simps) simp
    qed
  qed
qed

definition no_quotes :: "int \<Rightarrow> string \<Rightarrow> bool" where
  "no_quotes fl s \<longleftrightarrow> has_flag fl CSLT_HONOURSTRINGS \<longrightarrow> CHR 0x22 \<notin> set s"

lemma no_quotes_Cons: "no_quotes fl (c # s) \<longleftrightarrow> no_quotes fl [c] \<and> no_quotes fl s"
  by (auto simp: no_quotes_def)

lemma no_quotes_rest: "no_quotes fl s \<Longrightarrow> no_quotes fl (tl (dropWhile p s))"
  unfolding no_quotes_def by (metis list.set_sel(2) set_dropWhileD tl_Nil)

lemma char_step_plain:
  assumes "no_quotes fl [c]" "tok_ok t m" "tok_small (length t)"
  shows "\<exists>m'. CSLTokenize_char fl d c s False st t m =
           (if c_strchr d c then Some (Step_Delim m')
            else if has_flag fl CSLT_STRIPLEADSPACES \<and> st \<and> c_isspace c
            then Some (Step_Next s False st t m')
            else Some (Step_Next s False False (t @ [c]) m'))"
  using assms by (auto simp: CSLTokenize_char_def tok_ok_def tok_small_def buf_put_def Let_def no_quotes_def)

lemma CSLTokenize_token_plain:
  assumes "no_quotes fl s" "tok_ok t m" "tok_small (length t + length s)"
  shows "\<exists>m'. CSLTokenize_token fl d s False st t m =
           Some (Token_End (tl (dropWhile (\<lambda>c. \<not> c_strchr d c) s)) False
                  (t @ (if has_flag fl CSLT_STRIPLEADSPACES \<and> st
                        then dropWhile c_isspace (takeWhile (\<lambda>c. \<not> c_strchr d c) s)
                        else takeWhile (\<lambda>c. \<not> c_strchr d c) s)) m')"
  using assms
proof (induction s arbitrary: st t m)
  case Nil
  then show ?case by simp
next
  case (Cons c s)
  have q: "no_quotes fl s" using Cons.prems(1) no_quotes_Cons by blast
  have small: "tok_small (length t)" using Cons.prems(3) by (simp add: tok_small_def)
  obtain m' where step: "CSLTokenize_char fl d c s False st t m =
      (if c_strchr d c then Some (Step_Delim m')
       else if has_flag fl CSLT_STRIPLEADSPACES \<and> st \<and> c_isspace c
       then Some (Step_Next s False st t m') else Some (Step_Next s False False (t @ [c]) m'))"
    using char_step_plain [OF _ Cons.prems(2) small] Cons.prems(1) no_quotes_Cons [of fl c s] by blast
  consider (delim) "c_strchr d c"
    | (skip) "\<not> c_strchr d c" "has_flag fl CSLT_STRIPLEADSPACES \<and> st \<and> c_isspace c"
    | (keep) "\<not> c_strchr d c" "\<not> (has_flag fl CSLT_STRIPLEADSPACES \<and> st \<and> c_isspace c)"
    by blast
  then show ?case
  proof cases
    case delim
    then show ?thesis unfolding CSLTokenize_token.simps step by simp
  next
    case skip
    have "tok_ok t m'" using CSLTokenize_char_Next [OF Cons.prems(2)] step skip by simp
    from Cons.IH [OF q this, of st] Cons.prems(3) skip show ?thesis
      unfolding CSLTokenize_token.simps step by (simp add: tok_small_def)
  next
    case keep
    have "tok_ok (t @ [c]) m'" using CSLTokenize_char_Next [OF Cons.prems(2)] step keep by simp
    from Cons.IH [OF q this, of False] Cons.prems(3) keep show ?thesis
      unfolding CSLTokenize_token.simps step by (auto simp: tok_small_def)
  qed
qed

lemma tok_small_mono: "tok_small n \<Longrightarrow> k \<le> n \<Longrightarrow> tok_small k"
  by (simp add: tok_small_def)

lemma scan_rest_length: "length (tl (dropWhile p s)) \<le> length s"
  using length_dropWhile_le [of p s] by (metis diff_le_self le_trans length_tl)

lemma CSLTokenize_loop_plain:
  assumes "no_quotes fl s" "10 \<le> m" "tok_small (length s)"
  shows "CSLTokenize_loop fl d s m acc =
     Some (Some (acc @ filter (\<lambda>w. w \<noteq> [] \<or> has_flag fl CSLT_ALLOWEMPTYTOKENS)
                         (map (token_strip fl) (scan_fields (c_strchr d) s))))"
  using assms
proof (induction "c_strchr d" s arbitrary: m acc rule: scan_fields.induct)
  case (1 s)
  let ?p = "\<lambda>c. \<not> c_strchr d c"
  show ?case
  proof (cases "s = []")
    case True
    then show ?thesis by (simp add: CSLTokenize_loop.simps)
  next
    case False
    have ok: "tok_ok [] m" using 1(3) by (simp add: tok_ok_def)
    have small: "tok_small (length (tl (dropWhile ?p s)))"
      by (rule tok_small_mono [OF 1(4) scan_rest_length])
    obtain m' where tok: "CSLTokenize_token fl d s False True [] m =
        Some (Token_End (tl (dropWhile ?p s)) False
          (if has_flag fl CSLT_STRIPLEADSPACES then dropWhile c_isspace (takeWhile ?p s)
           else takeWhile ?p s) m')"
      using CSLTokenize_token_plain [OF 1(2) ok, where d = d and st = True] 1(4) by auto
    let ?w = "if has_flag fl CSLT_STRIPLEADSPACES then dropWhile c_isspace (takeWhile ?p s)
              else takeWhile ?p s"
    have ok': "tok_ok ?w m'" using CSLTokenize_token_total [OF ok, of fl d s False True] tok by simp
    have strip: "(if has_flag fl CSLT_STRIPENDSPACES then c_rstrip c_isspace ?w else ?w) =
        token_strip fl (takeWhile ?p s)" by (simp add: token_strip_def)
    have len: "length (token_strip fl (takeWhile ?p s)) < m'"
      using ok' c_rstrip_length [of c_isspace ?w] unfolding strip [symmetric] tok_ok_def
      by (auto split: if_splits)
    have m': "10 \<le> m'" using ok' by (simp add: tok_ok_def)
    have "CSLTokenize_loop fl d s m acc =
        CSLTokenize_loop fl d (tl (dropWhile ?p s)) m'
          (if token_strip fl (takeWhile ?p s) \<noteq> [] \<or> has_flag fl CSLT_ALLOWEMPTYTOKENS
           then acc @ [token_strip fl (takeWhile ?p s)] else acc)"
      using len
      by (subst CSLTokenize_loop.simps) (simp only: False tok token_end.case option.case if_False
          strip Let_def not_False_eq_True simp_thms if_True)
    with 1(1) [OF False no_quotes_rest [OF 1(2)] m' small] False show ?thesis
      by (subst scan_fields.simps) simp
  qed
qed

lemma CSLTokenizeString2_plain:
  assumes "has_flag nCSLTFlags CSLT_HONOURSTRINGS \<longrightarrow> CHR 0x22 \<notin> set s"
    and "s \<noteq> []" and "length s < 2 ^ 62"
  shows "CSLTokenizeString2 (Some s) pszDelimiters nCSLTFlags =
    Some (Some (filter (\<lambda>w. w \<noteq> [] \<or> has_flag nCSLTFlags CSLT_ALLOWEMPTYTOKENS)
                 (map (token_strip nCSLTFlags) (split_on (c_strchr pszDelimiters) s))))"
proof -
  have q: "no_quotes nCSLTFlags s" using assms(1) by (simp add: no_quotes_def)
  have small: "tok_small (length s)" using assms(3) by (simp add: tok_small_def SIZE_MAX_def)
  have ne: "scan_fields (c_strchr pszDelimiters) s \<noteq> []"
    using assms(2) by (subst scan_fields.simps) simp
  have strip: "token_strip nCSLTFlags [] = []"
    by (simp add: token_strip_def c_rstrip_def)
  show ?thesis
    using ne assms(2) strip
    by (simp add: CSLTokenizeString2_def CSLTokenize_loop_plain [OF q _ small] split_on_scan)
qed

text \<open>C33: Without CSLT_HONOURSTRINGS, or on a text without quotes, CSLTokenizeString2 of a text that is not empty and
  shorter than 2^29 characters returns the fields between the delimiter characters, stripped of leading and trailing
  white space as the flags say, all of them when empty tokens are allowed (the one after a delimiter at the end of the
  input included) and the non-empty ones otherwise.\<close>

theorem CSLTokenizeString2_splits:
  assumes "has_flag nCSLTFlags CSLT_HONOURSTRINGS \<longrightarrow> CHR 0x22 \<notin> set s"
    and "s \<noteq> []" and "length s < 2 ^ 29"
  shows "CSLTokenizeString2 (Some s) pszDelimiters nCSLTFlags =
    Some (Some (filter (\<lambda>w. w \<noteq> [] \<or> has_flag nCSLTFlags CSLT_ALLOWEMPTYTOKENS)
                 (map (token_strip nCSLTFlags) (split_on (c_strchr pszDelimiters) s))))"
proof -
  have "length s < 2 ^ 62" using assms(3) by simp
  with assms(1,2) show ?thesis by (rule CSLTokenizeString2_plain)
qed

theorem CSLTokenizeString2_splits_witness:
  "CSLTokenizeString2 (Some '' a,,b ,'') '','' 0x32 = Some (Some [''a'', [], ''b'', []])
   \<and> CSLTokenizeString2 (Some '' a,,b ,'') '','' 0 = Some (Some ['' a'', ''b ''])"
  using CSLTokenizeString2_splits [of "0x32" "'' a,,b ,''" "'',''"]
    CSLTokenizeString2_splits [of 0 "'' a,,b ,''" "'',''"]
  by (simp add: has_flag_def CSLT_HONOURSTRINGS_def CSLT_ALLOWEMPTYTOKENS_def
      CSLT_STRIPLEADSPACES_def CSLT_STRIPENDSPACES_def token_strip_def c_rstrip_def c_strchr_def
      c_isspace_def ccode_def)

subsection \<open>Quoted tokens\<close>

text \<open>A field in double quotes, its quotes and backslashes escaped, and a line of such fields.\<close>

definition quote_esc :: "char \<Rightarrow> string" where
  "quote_esc c = (if c = CHR 0x22 \<or> c = CHR 0x5C then [CHR 0x5C, c] else [c])"

definition quote_field :: "string \<Rightarrow> string" where
  "quote_field f = CHR 0x22 # concat (map quote_esc f) @ [CHR 0x22]"

fun join_with :: "char \<Rightarrow> string list \<Rightarrow> string" where
  "join_with dl [] = []"
| "join_with dl [f] = f"
| "join_with dl (f # g # fs) = f @ dl # join_with dl (g # fs)"

definition quote_flags :: "int \<Rightarrow> bool" where
  "quote_flags fl \<longleftrightarrow> has_flag fl CSLT_HONOURSTRINGS \<and> has_flag fl CSLT_ALLOWEMPTYTOKENS \<and>
     \<not> has_flag fl CSLT_PRESERVEQUOTES \<and> \<not> has_flag fl CSLT_PRESERVEESCAPES"

lemma char_step_quote:
  assumes "quote_flags fl" "tok_ok t m" "tok_small (length t)" "i \<or> \<not> c_strchr d (CHR 0x22)"
  shows "\<exists>m'. CSLTokenize_char fl d (CHR 0x22) s i st t m = Some (Step_Next s (\<not> i) st t m') \<and>
    tok_ok t m'"
  using assms by (auto simp: CSLTokenize_char_def tok_ok_def tok_small_def quote_flags_def Let_def)

lemma char_step_delim:
  assumes "tok_ok t m" "tok_small (length t)" "c_strchr d c"
  shows "\<exists>m'. CSLTokenize_char fl d c s False st t m = Some (Step_Delim m') \<and> tok_ok t m'"
  using assms by (auto simp: CSLTokenize_char_def tok_ok_def tok_small_def Let_def)

lemma CSLTokenize_token_esc:
  assumes "quote_flags fl" "tok_ok t m" "tok_small (length t)"
  shows "\<exists>m'. CSLTokenize_token fl d (quote_esc c @ s) True st t m =
      CSLTokenize_token fl d s True False (t @ [c]) m' \<and> tok_ok (t @ [c]) m'"
proof (cases "c = CHR 0x22 \<or> c = CHR 0x5C")
  case True
  have "\<exists>m'. CSLTokenize_char fl d (CHR 0x5C) (c # s) True st t m =
      Some (Step_Next s True False (t @ [c]) m') \<and> tok_ok (t @ [c]) m'"
    using assms True
    by (auto simp: CSLTokenize_char_def tok_ok_def tok_small_def buf_put_def quote_flags_def Let_def
        c_at_def)
  then show ?thesis using True by (auto simp: quote_esc_def)
next
  case False
  then have "\<exists>m'. CSLTokenize_char fl d c s True st t m =
      Some (Step_Next s True False (t @ [c]) m') \<and> tok_ok (t @ [c]) m'"
    using assms
    by (auto simp: CSLTokenize_char_def tok_ok_def tok_small_def buf_put_def quote_flags_def Let_def)
  then show ?thesis using False by (auto simp: quote_esc_def)
qed

lemma CSLTokenize_token_inside:
  assumes "quote_flags fl" "tok_ok t m" "tok_small (length t + length f)"
  shows "\<exists>m' st'. CSLTokenize_token fl d (concat (map quote_esc f) @ s) True st t m =
      CSLTokenize_token fl d s True st' (t @ f) m' \<and> tok_ok (t @ f) m'"
  using assms(2-)
proof (induction f arbitrary: st t m)
  case Nil
  then show ?case by auto
next
  case (Cons c f)
  have "tok_small (length t)" using Cons.prems(2) by (rule tok_small_mono) simp
  from CSLTokenize_token_esc [OF assms(1) Cons.prems(1) this, of d c "concat (map quote_esc f) @ s" st]
  obtain m' where one: "CSLTokenize_token fl d (quote_esc c @ concat (map quote_esc f) @ s) True st t m =
      CSLTokenize_token fl d (concat (map quote_esc f) @ s) True False (t @ [c]) m'"
    and ok: "tok_ok (t @ [c]) m'" by blast
  from Cons.IH [OF ok, of False] Cons.prems(2) one show ?case by simp
qed

lemma CSLTokenize_token_quoted:
  assumes "quote_flags fl" "10 \<le> m" "tok_small (length f)" "\<not> c_strchr d (CHR 0x22)"
  shows "\<exists>m' st'. CSLTokenize_token fl d (quote_field f @ s) False True [] m =
      CSLTokenize_token fl d s False st' f m' \<and> tok_ok f m'"
proof -
  have ok: "tok_ok [] m" using assms(2) by (simp add: tok_ok_def)
  have "\<exists>m1. CSLTokenize_char fl d (CHR 0x22) (concat (map quote_esc f) @ CHR 0x22 # s) False True [] m =
      Some (Step_Next (concat (map quote_esc f) @ CHR 0x22 # s) True True [] m1) \<and> tok_ok [] m1"
    using char_step_quote [OF assms(1) ok, of False d] assms(3,4) by (simp add: tok_small_def)
  then obtain m1 where open': "CSLTokenize_token fl d (quote_field f @ s) False True [] m =
      CSLTokenize_token fl d (concat (map quote_esc f) @ CHR 0x22 # s) True True [] m1"
    and ok1: "tok_ok [] m1" by (auto simp: quote_field_def)
  obtain m2 st' where inside:
    "CSLTokenize_token fl d (concat (map quote_esc f) @ CHR 0x22 # s) True True [] m1 =
      CSLTokenize_token fl d (CHR 0x22 # s) True st' f m2" and ok2: "tok_ok f m2"
    using CSLTokenize_token_inside [OF assms(1) ok1, of f d "CHR 0x22 # s" True] assms(3) by auto
  obtain m3 where "CSLTokenize_char fl d (CHR 0x22) s True st' f m2 =
      Some (Step_Next s False st' f m3)" and ok3: "tok_ok f m3"
    using char_step_quote [OF assms(1) ok2 assms(3), of True d s st'] by auto
  then have "CSLTokenize_token fl d (CHR 0x22 # s) True st' f m2 =
      CSLTokenize_token fl d s False st' f m3" by simp
  with open' inside ok3 show ?thesis by auto
qed

lemma c_rstrip_quoted:
  assumes "tok_ok f m"
  shows "length (if b then c_rstrip c_isspace f else f) < m"
  using assms c_rstrip_length [of c_isspace f] by (auto simp: tok_ok_def)

text \<open>With CSLT_STRIPENDSPACES the code also strips the white space that was inside the quotes,
  since only an unterminated quote keeps it from stripping.\<close>

definition end_strip :: "int \<Rightarrow> string \<Rightarrow> string" where
  "end_strip fl f = (if has_flag fl CSLT_STRIPENDSPACES then c_rstrip c_isspace f else f)"

lemma CSLTokenize_loop_field:
  assumes "quote_flags fl" "s \<noteq> []" "tok_ok f m'"
    and "CSLTokenize_token fl d s False True [] m = Some (Token_End r False f m')"
  shows "CSLTokenize_loop fl d s m acc = CSLTokenize_loop fl d r m' (acc @ [end_strip fl f])"
  using assms c_rstrip_quoted [OF assms(3), of "has_flag fl CSLT_STRIPENDSPACES"]
  by (subst CSLTokenize_loop.simps) (auto simp: quote_flags_def Let_def end_strip_def)

lemma CSLTokenize_loop_quoted:
  assumes "quote_flags fl" "c_strchr d dl" "\<not> c_strchr d (CHR 0x22)"
  shows "fs \<noteq> [] \<Longrightarrow> 10 \<le> m \<Longrightarrow> \<forall>f\<in>set fs. tok_small (length f) \<Longrightarrow>
    CSLTokenize_loop fl d (join_with dl (map quote_field fs)) m acc =
      Some (Some (acc @ map (end_strip fl) fs))"
proof (induction fs arbitrary: m acc rule: induct_list012)
  case (2 f)
  have f: "tok_small (length f)" using 2 by simp
  obtain m' st' where "CSLTokenize_token fl d (quote_field f @ []) False True [] m =
      CSLTokenize_token fl d [] False st' f m'" and ok: "tok_ok f m'"
    using CSLTokenize_token_quoted [OF assms(1) 2(2) f assms(3)] by blast
  then have t: "CSLTokenize_token fl d (quote_field f) False True [] m = Some (Token_End [] False f m')"
    by simp
  have ne: "quote_field f \<noteq> []" by (simp add: quote_field_def)
  have "CSLTokenize_loop fl d (quote_field f) m acc = Some (Some (acc @ [end_strip fl f]))"
    unfolding CSLTokenize_loop_field [OF assms(1) ne ok t] by (simp add: CSLTokenize_loop.simps)
  then show ?case by simp
next
  case (3 f g fs)
  have f: "tok_small (length f)" using 3 by simp
  let ?r = "join_with dl (map quote_field (g # fs))"
  obtain m' st' where t1: "CSLTokenize_token fl d (quote_field f @ dl # ?r) False True [] m =
      CSLTokenize_token fl d (dl # ?r) False st' f m'" and ok: "tok_ok f m'"
    using CSLTokenize_token_quoted [OF assms(1) 3(4) f assms(3)] by blast
  obtain m2 where "CSLTokenize_char fl d dl ?r False st' f m' = Some (Step_Delim m2)"
    and ok2: "tok_ok f m2"
    using char_step_delim [OF ok f assms(2)] by blast
  with t1 have t: "CSLTokenize_token fl d (quote_field f @ dl # ?r) False True [] m =
      Some (Token_End ?r False f m2)" by simp
  have ne: "quote_field f @ dl # ?r \<noteq> []" by simp
  have m2: "10 \<le> m2" using ok2 by (simp add: tok_ok_def)
  have "CSLTokenize_loop fl d ?r m2 (acc @ [end_strip fl f]) =
      Some (Some ((acc @ [end_strip fl f]) @ map (end_strip fl) (g # fs)))"
    by (rule 3(2)) (use 3 m2 in auto)
  with CSLTokenize_loop_field [OF assms(1) ne ok2 t] show ?case by simp
qed simp

lemma join_with_last: "fs \<noteq> [] \<Longrightarrow> last (join_with dl (map quote_field fs)) = CHR 0x22"
proof (induction fs rule: induct_list012)
  case (3 f g fs)
  have "join_with dl (map quote_field (g # fs)) \<noteq> []" by (cases fs) (simp_all add: quote_field_def)
  with 3 show ?case by simp
qed (simp_all add: quote_field_def)

lemma CSLTokenizeString2_quoted:
  assumes "quote_flags fl" "c_strchr d dl" "\<not> c_strchr d (CHR 0x22)"
    and "fs \<noteq> []" "\<forall>f\<in>set fs. length f < 2 ^ 62"
  shows "CSLTokenizeString2 (Some (join_with dl (map quote_field fs))) d fl =
    Some (Some (map (end_strip fl) fs))"
proof -
  have "\<forall>f\<in>set fs. tok_small (length f)" using assms(5) by (auto simp: tok_small_def SIZE_MAX_def)
  from CSLTokenize_loop_quoted [OF assms(1-3) assms(4) _ this, of 10 "[]"] assms(3)
  show ?thesis by (simp add: CSLTokenizeString2_def join_with_last [OF assms(4)])
qed

end
