(* ===== verification/StringList.thy ===== *)
theory StringList
  imports CslNames "HOL-Library.List_Lexorder" "HOL-Library.Multiset"
begin

section \<open>The class CPLStringList (port/cplstringlist.cpp)\<close>

text \<open>
  CPLStringList wraps a string list and remembers its count, the size of its array, whether it owns
  the array and whether the lines are sorted by name.  The array is modelled by its cells, all of
  those allocated, so a write past the allocation is the result \<open>None\<close>; cells that
  \<open>VSI_REALLOC_VERBOSE\<close> adds hold an arbitrary string, \<open>JUNK\<close>, and not NULL.  Allocation is
  taken to succeed.
\<close>

record string_list =
  papszList :: "cell list option"
  nCount :: int
  nAllocation :: int
  bOwnList :: bool
  bIsSorted :: bool

definition JUNK :: cell where "JUNK = Some ''?''"

definition INT_MAX :: int where "INT_MAX = 2 ^ 31 - 1"

text \<open>The strings of an array, up to its first NULL.\<close>

definition arr_strings :: "cell list \<Rightarrow> string list" where
  "arr_strings arr = map the (takeWhile (\<lambda>c. c \<noteq> None) arr)"

definition arr_csl :: "cell list option \<Rightarrow> csl" where
  "arr_csl a = map_option arr_strings a"

definition csl_arr :: "csl \<Rightarrow> cell list option" where
  "csl_arr l = map_option (\<lambda>xs. map Some xs @ [None]) l"

definition new_string_list :: string_list where
  "new_string_list = \<lparr>papszList = None, nCount = 0, nAllocation = 0, bOwnList = False, bIsSorted = False\<rparr>"

subsection \<open>Ownership and allocation\<close>

definition Clear :: "string_list \<Rightarrow> string_list" where
  "Clear sl =
     (if bOwnList sl
      then sl\<lparr>papszList := None, bOwnList := False, nAllocation := 0, nCount := 0\<rparr>
      else sl)"

definition Assign :: "string_list \<Rightarrow> cell list option \<Rightarrow> bool \<Rightarrow> string_list" where
  "Assign sl papszListIn bTakeOwnership =
     (Clear sl)\<lparr>papszList := papszListIn, bOwnList := bTakeOwnership,
        nCount := (if strings_of (arr_csl papszListIn) = [] then 0 else - 1),
        nAllocation := 0, bIsSorted := False\<rparr>"

definition Count :: "string_list \<Rightarrow> string_list" where
  "Count sl =
     (if nCount sl = - 1
      then (case papszList sl of
              None \<Rightarrow> sl\<lparr>nCount := 0, nAllocation := 0\<rparr>
            | Some arr \<Rightarrow>
                let n = CSLCount (Some (arr_strings arr))
                in sl\<lparr>nCount := n, nAllocation := max (n + 1) (nAllocation sl)\<rparr>)
      else sl)"

definition MakeOurOwnCopy :: "string_list \<Rightarrow> bool \<times> string_list" where
  "MakeOurOwnCopy sl =
     (if bOwnList sl then (True, sl)
      else if papszList sl = None then (True, sl)
      else let sl = Count sl
           in case CSLDuplicate (arr_csl (papszList sl)) of
                None \<Rightarrow> (False, sl)
              | Some xs \<Rightarrow>
                  (True, sl\<lparr>papszList := csl_arr (Some xs), bOwnList := True,
                           nAllocation := nCount sl + 1\<rparr>))"

definition EnsureAllocation :: "string_list \<Rightarrow> int \<Rightarrow> bool \<times> string_list" where
  "EnsureAllocation sl nMaxList =
     (let (ok, sl) = (if \<not> bOwnList sl then MakeOurOwnCopy sl else (True, sl))
      in if \<not> ok then (False, sl)
         else if papszList sl = None \<or> nAllocation sl \<le> nMaxList
         then (if nMaxList < 0 \<or> nMaxList > INT_MAX - 1 \<or> nMaxList > (2 ^ 64 - 1) div 8 - 1
               then (False, sl)
               else let nNewAllocation = nMaxList + 1;
                        nNewAllocation = (if nNewAllocation \<le> (INT_MAX - 20) div 2 div 8
                                          then max (nNewAllocation * 2 + 20) (nMaxList + 1)
                                          else nNewAllocation)
               in (case papszList sl of
                     None \<Rightarrow>
                       (True, sl\<lparr>papszList := Some (replicate (nat nNewAllocation) None),
                                bOwnList := True, nCount := 0, nAllocation := nNewAllocation\<rparr>)
                   | Some arr \<Rightarrow>
                       (True, sl\<lparr>papszList := Some (take (nat nNewAllocation) arr @
                                   replicate (nat nNewAllocation - length arr) JUNK),
                                nAllocation := nNewAllocation\<rparr>)))
         else (True, sl))"

subsection \<open>Adding and inserting\<close>

definition AddStringDirectly :: "string_list \<Rightarrow> string \<Rightarrow> string_list option" where
  "AddStringDirectly sl pszNewString =
     (let sl = (if nCount sl = - 1 then Count sl else sl);
          (ok, sl) = EnsureAllocation sl (nCount sl + 1)
      in if \<not> ok then Some sl
         else do {
           arr \<leftarrow> papszList sl;
           arr \<leftarrow> arr_set arr (nCount sl) (Some pszNewString);
           arr \<leftarrow> arr_set arr (nCount sl + 1) None;
           Some (sl\<lparr>papszList := Some arr, nCount := nCount sl + 1, bIsSorted := False\<rparr>)
         })"

definition AddString :: "string_list \<Rightarrow> string \<Rightarrow> string_list option" where
  "AddString sl pszNewString = AddStringDirectly sl pszNewString"

text \<open>\<open>for (i = nCount; i > nInsertAtLineNo; i--) papszList[i] = papszList[i - 1]\<close>\<close>

function Insert_shift :: "int \<Rightarrow> cell list \<Rightarrow> int \<Rightarrow> cell list option" where
  "Insert_shift nInsertAtLineNo arr i =
     (if i > nInsertAtLineNo then
        (case arr_get arr (i - 1) of
           None \<Rightarrow> None
         | Some c \<Rightarrow>
             (case arr_set arr i c of
                None \<Rightarrow> None
              | Some arr' \<Rightarrow> Insert_shift nInsertAtLineNo arr' (i - 1)))
      else Some arr)"
  by pat_completeness auto
termination by (relation "measure (\<lambda>(n, arr, i). nat (i - n))") auto

declare Insert_shift.simps [simp del]

definition InsertStringDirectly :: "string_list \<Rightarrow> int \<Rightarrow> string \<Rightarrow> string_list option" where
  "InsertStringDirectly sl nInsertAtLineNo pszNewLine =
     (let sl = (if nCount sl = - 1 then Count sl else sl);
          (ok, sl) = EnsureAllocation sl (nCount sl + 1)
      in if \<not> ok then Some sl
         else if nInsertAtLineNo < 0 \<or> nInsertAtLineNo > nCount sl then Some sl
         else do {
           arr \<leftarrow> papszList sl;
           arr \<leftarrow> Insert_shift nInsertAtLineNo arr (nCount sl);
           arr \<leftarrow> arr_set arr nInsertAtLineNo (Some pszNewLine);
           arr \<leftarrow> arr_set arr (nCount sl + 1) None;
           Some (sl\<lparr>papszList := Some arr, nCount := nCount sl + 1, bIsSorted := False\<rparr>)
         })"

subsection \<open>Sorted lists\<close>

text \<open>A character as \<open>char\<close> is signed, and lower case letters are compared as upper case.\<close>

definition c_schar :: "char \<Rightarrow> int" where
  "c_schar c = (if ccode c < 128 then int (ccode c) else int (ccode c) - 256)"

definition c_upper :: "char \<Rightarrow> char" where
  "c_upper c = (if 97 \<le> ccode c \<and> ccode c \<le> 122 then char_of (ccode c - 32) else c)"

definition key_end :: "string \<Rightarrow> bool" where
  "key_end s \<longleftrightarrow> c_at s 0 = CHR ''='' \<or> c_at s 0 = NUL"

function CPLCompareKeyValueString :: "string \<Rightarrow> string \<Rightarrow> int" where
  "CPLCompareKeyValueString a b =
     (if key_end a then (if key_end b then 0 else - 1)
      else if key_end b then 1
      else let cha = c_schar (c_upper (c_at a 0)); chb = c_schar (c_upper (c_at b 0))
           in if cha < chb then - 1
              else if cha > chb then 1
              else CPLCompareKeyValueString (tl a) (tl b))"
  by pat_completeness auto
termination
  by (relation "measure (\<lambda>(a, b). length a)") (auto simp: key_end_def c_at_def split: if_splits)

declare CPLCompareKeyValueString.simps [simp del]

text \<open>\<open>qsort\<close> of the C library is a parameter.\<close>

definition Sort :: "((string \<Rightarrow> string \<Rightarrow> int) \<Rightarrow> string list \<Rightarrow> string list) \<Rightarrow> string_list \<Rightarrow> string_list" where
  "Sort qsort sl =
     (let sl = Count sl; (ok, sl) = MakeOurOwnCopy sl
      in if \<not> ok then sl
         else let sl = (if nCount sl \<noteq> 0
                        then (case papszList sl of
                                None \<Rightarrow> sl
                              | Some arr \<Rightarrow>
                                  sl\<lparr>papszList := Some (map Some
                                       (qsort CPLCompareKeyValueString (map the (take (nat (nCount sl)) arr)))
                                       @ drop (nat (nCount sl)) arr)\<rparr>)
                        else sl)
              in sl\<lparr>bIsSorted := True\<rparr>)"

text \<open>The middle of a range is \<open>(iEnd + iStart) / 2\<close>, whose sum is an \<open>int\<close>.\<close>

function FindName_loop :: "cell list \<Rightarrow> string \<Rightarrow> int \<Rightarrow> int \<Rightarrow> int option" where
  "FindName_loop arr pszKey iStart iEnd =
     (if iStart \<le> iEnd then
        (case c_int (iEnd + iStart) of None \<Rightarrow> None | Some nSum \<Rightarrow>
         let iMiddle = nSum div 2
         in case arr_get arr iMiddle of
              Some (Some pszMiddle) \<Rightarrow>
                if EQUALN pszMiddle pszKey (length pszKey) \<and>
                   (c_at pszMiddle (length pszKey) = CHR ''='' \<or>
                    c_at pszMiddle (length pszKey) = CHR '':'')
                then Some iMiddle
                else if CPLCompareKeyValueString pszKey pszMiddle < 0
                then FindName_loop arr pszKey iStart (iMiddle - 1)
                else FindName_loop arr pszKey (iMiddle + 1) iEnd
            | _ \<Rightarrow> None)
      else Some (- 1))"
  by pat_completeness auto
termination
  by (relation "measure (\<lambda>(arr, k, s, e). nat (e - s + 1))") (auto simp: c_int_Some)

declare FindName_loop.simps [simp del]

definition FindName :: "string_list \<Rightarrow> string \<Rightarrow> int option" where
  "FindName sl pszKey =
     (if \<not> bIsSorted sl then Some (CSLFindName (arr_csl (papszList sl)) (Some pszKey))
      else FindName_loop (case papszList sl of None \<Rightarrow> [] | Some arr \<Rightarrow> arr) pszKey 0 (nCount sl - 1))"

definition FetchNameValue :: "string_list \<Rightarrow> string \<Rightarrow> cell option" where
  "FetchNameValue sl pszName = do {
     iKey \<leftarrow> FindName sl pszName;
     if iKey = - 1 then Some None
     else do {
       arr \<leftarrow> papszList sl;
       c \<leftarrow> arr_get arr iKey;
       s \<leftarrow> c;
       Some (Some (drop (length pszName + 1) s))
     }
   }"

definition FetchNameValueDef :: "string_list \<Rightarrow> string \<Rightarrow> cell \<Rightarrow> cell option" where
  "FetchNameValueDef sl pszName pszDefault = do {
     pszValue \<leftarrow> FetchNameValue sl pszName;
     Some (if pszValue = None then pszDefault else pszValue)
   }"

definition FetchBool :: "string_list \<Rightarrow> string \<Rightarrow> bool \<Rightarrow> bool option" where
  "FetchBool sl pszKey bDefault = do {
     pszValue \<leftarrow> FetchNameValue sl pszKey;
     Some (case pszValue of None \<Rightarrow> bDefault | Some v \<Rightarrow> CPLTestBool v)
   }"

function FindSortedInsertionPoint_loop :: "cell list \<Rightarrow> string \<Rightarrow> int \<Rightarrow> int \<Rightarrow> int option" where
  "FindSortedInsertionPoint_loop arr pszLine iStart iEnd =
     (if iStart \<le> iEnd then
        (case c_int (iEnd + iStart) of None \<Rightarrow> None | Some nSum \<Rightarrow>
         let iMiddle = nSum div 2
         in case arr_get arr iMiddle of
              Some (Some pszMiddle) \<Rightarrow>
                if CPLCompareKeyValueString pszLine pszMiddle < 0
                then FindSortedInsertionPoint_loop arr pszLine iStart (iMiddle - 1)
                else FindSortedInsertionPoint_loop arr pszLine (iMiddle + 1) iEnd
            | _ \<Rightarrow> None)
      else Some (iEnd + 1))"
  by pat_completeness auto
termination
  by (relation "measure (\<lambda>(arr, k, s, e). nat (e - s + 1))") (auto simp: c_int_Some)

declare FindSortedInsertionPoint_loop.simps [simp del]

definition FindSortedInsertionPoint :: "string_list \<Rightarrow> string \<Rightarrow> int option" where
  "FindSortedInsertionPoint sl pszLine =
     FindSortedInsertionPoint_loop (case papszList sl of None \<Rightarrow> [] | Some arr \<Rightarrow> arr) pszLine
       0 (nCount sl - 1)"

subsection \<open>Names and values\<close>

definition AddNameValue :: "string_list \<Rightarrow> cell \<Rightarrow> cell \<Rightarrow> string_list option" where
  "AddNameValue sl pszKey pszValue =
     (case (pszKey, pszValue) of
        (Some k, Some v) \<Rightarrow>
          (let (ok, sl) = MakeOurOwnCopy sl
           in if \<not> ok then Some sl
              else let pszLine = k @ CHR ''='' # v
              in if \<not> bIsSorted sl then AddStringDirectly sl pszLine
                 else do {
                   iKey \<leftarrow> FindSortedInsertionPoint sl pszLine;
                   sl \<leftarrow> InsertStringDirectly sl iKey pszLine;
                   Some (sl\<lparr>bIsSorted := True\<rparr>)
                 })
      | _ \<Rightarrow> Some sl)"

text \<open>\<open>do papszList[iKey] = papszList[iKey + 1]; while (papszList[iKey++] != nullptr)\<close>\<close>

function Delete_shift :: "cell list \<Rightarrow> int \<Rightarrow> cell list option" where
  "Delete_shift arr iKey =
     (case arr_get arr (iKey + 1) of
        None \<Rightarrow> None
      | Some c \<Rightarrow>
          (case arr_set arr iKey c of
             None \<Rightarrow> None
           | Some arr' \<Rightarrow> if c \<noteq> None then Delete_shift arr' (iKey + 1) else Some arr'))"
  by pat_completeness auto
termination
  by (relation "measure (\<lambda>(arr, i). nat (int (length arr) - i))")
     (auto simp: arr_get_def arr_set_def split: if_splits)

declare Delete_shift.simps [simp del]

definition SetNameValue :: "string_list \<Rightarrow> string \<Rightarrow> cell \<Rightarrow> string_list option" where
  "SetNameValue sl pszKey pszValue = do {
     iKey \<leftarrow> FindName sl pszKey;
     if iKey = - 1 then AddNameValue sl (Some pszKey) pszValue
     else
       let sl = Count sl; (ok, sl) = MakeOurOwnCopy sl
       in if \<not> ok then Some sl
          else do {
            arr \<leftarrow> papszList sl;
            old \<leftarrow> arr_get arr iKey;
            case pszValue of
              None \<Rightarrow> do {
                arr \<leftarrow> Delete_shift arr iKey;
                Some (sl\<lparr>papszList := Some arr, nCount := nCount sl - 1\<rparr>)
              }
            | Some v \<Rightarrow> do {
                arr \<leftarrow> arr_set arr iKey (Some (pszKey @ CHR ''='' # v));
                Some (sl\<lparr>papszList := Some arr\<rparr>)
              }
          }
   }"

subsection \<open>Access and assignment\<close>

definition list_nth :: "string_list \<Rightarrow> int \<Rightarrow> cell option" where
  "list_nth sl i =
     (let sl = (if nCount sl = - 1 then Count sl else sl)
      in if i < 0 \<or> i \<ge> nCount sl then Some None
         else do { arr \<leftarrow> papszList sl; arr_get arr i })"

definition StealList :: "string_list \<Rightarrow> cell list option \<times> string_list" where
  "StealList sl =
     (papszList sl, sl\<lparr>bOwnList := False, papszList := None, nCount := 0, nAllocation := 0\<rparr>)"

text \<open>Assignment from another list, which is not the same object, from an rvalue (giving the moved
  from list too) and from a plain string list.\<close>

definition assign_copy :: "string_list \<Rightarrow> string_list \<Rightarrow> string_list" where
  "assign_copy sl oOther =
     (case CSLDuplicate (arr_csl (papszList oOther)) of
        None \<Rightarrow> sl
      | Some xs \<Rightarrow>
          (Assign sl (csl_arr (Some xs)) True)\<lparr>
             nAllocation := (if nCount oOther > 0 then nCount oOther + 1 else 0),
             nCount := nCount oOther, bIsSorted := bIsSorted oOther\<rparr>)"

definition assign_move :: "string_list \<Rightarrow> string_list \<Rightarrow> string_list \<times> string_list" where
  "assign_move sl oOther =
     ((Clear sl)\<lparr>papszList := papszList oOther, nCount := nCount oOther,
        nAllocation := nAllocation oOther, bOwnList := bOwnList oOther, bIsSorted := bIsSorted oOther\<rparr>,
      oOther\<lparr>papszList := None, nCount := 0, nAllocation := 0, bOwnList := False, bIsSorted := True\<rparr>)"

definition assign_csl :: "string_list \<Rightarrow> csl \<Rightarrow> string_list" where
  "assign_csl sl papszListIn = (Assign sl (csl_arr (CSLDuplicate papszListIn)) True)\<lparr>bIsSorted := False\<rparr>"

subsection \<open>The invariant\<close>

text \<open>The order of the lines: by the name before the first equals sign, in upper case.\<close>

definition kv_key :: "string \<Rightarrow> int list" where
  "kv_key s = map (\<lambda>c. c_schar (c_upper c)) (takeWhile (\<lambda>c. c \<noteq> CHR ''='') s)"

definition sl_strings :: "string_list \<Rightarrow> string list" where
  "sl_strings sl = strings_of (arr_csl (papszList sl))"

definition sl_ok :: "string_list \<Rightarrow> bool" where
  "sl_ok sl \<longleftrightarrow>
     (case papszList sl of
        None \<Rightarrow> nCount sl = 0
      | Some arr \<Rightarrow> None \<in> set arr \<and> (nCount sl = - 1 \<or> nCount sl = int (length (arr_strings arr))) \<and>
          nAllocation sl \<le> int (length arr)) \<and>
     (bIsSorted sl \<longrightarrow> nCount sl \<noteq> - 1 \<and> sorted (map kv_key (sl_strings sl)))"

text \<open>A list that can grow: not a list of no strings that is in an array of another owner.\<close>

definition growable :: "string_list \<Rightarrow> bool" where
  "growable sl \<longleftrightarrow> bOwnList sl \<or> papszList sl = None \<or> sl_strings sl \<noteq> []"

lemmas kv_eval = kv_key_def c_schar_def c_upper_def ccode_def

lemma arr_strings_eq [simp]: "arr_strings (map Some xs @ None # r) = xs"
proof -
  have "takeWhile (\<lambda>c. c \<noteq> None) (map Some xs @ None # r) = map Some xs"
    by (induction xs) auto
  then show ?thesis by (simp add: arr_strings_def comp_def)
qed

lemma arr_split:
  assumes "None \<in> set arr"
  obtains r where "arr = map Some (arr_strings arr) @ None # r"
proof -
  obtain ys r where arr: "arr = ys @ None # r" "None \<notin> set ys"
    using split_list_first [OF assms] by blast
  have "Some (the x) = x" if "x \<in> set ys" for x using that arr(2) by (metis option.exhaust_sel)
  then have "ys = map Some (map the ys)" by (simp add: map_idI)
  with arr(1) have "arr = map Some (map the ys) @ None # r" by simp
  then show thesis using that arr_strings_eq by metis
qed

lemma sl_strings_arr: "papszList sl = Some arr \<Longrightarrow> sl_strings sl = arr_strings arr"
  by (simp add: sl_strings_def arr_csl_def)

lemma sl_strings_None: "papszList sl = None \<Longrightarrow> sl_strings sl = []"
  by (simp add: sl_strings_def arr_csl_def)

lemma Count_ok:
  assumes "sl_ok sl"
  shows "sl_ok (Count sl)" "nCount (Count sl) = int (length (sl_strings sl))"
    "sl_strings (Count sl) = sl_strings sl" "papszList (Count sl) = papszList sl"
    "bOwnList (Count sl) = bOwnList sl" "bIsSorted (Count sl) = bIsSorted sl"
proof -
  show p: "papszList (Count sl) = papszList sl" "bOwnList (Count sl) = bOwnList sl"
    "bIsSorted (Count sl) = bIsSorted sl"
    by (auto simp: Count_def Let_def split: option.splits)
  show s: "sl_strings (Count sl) = sl_strings sl" by (simp add: sl_strings_def p)
  show n: "nCount (Count sl) = int (length (sl_strings sl))"
    using assms by (auto simp: Count_def Let_def sl_ok_def sl_strings_def arr_csl_def split: option.splits)
  show "sl_ok (Count sl)"
  proof (cases "papszList sl")
    case None
    then show ?thesis using assms n by (simp add: sl_ok_def p s sl_strings_None)
  next
    case (Some arr)
    then have N: "None \<in> set arr" using assms by (simp add: sl_ok_def)
    then obtain r where arr: "arr = map Some (arr_strings arr) @ None # r" by (rule arr_split)
    have "int (length (arr_strings arr)) + 1 \<le> int (length arr)" by (subst arr) simp
    then have "nAllocation (Count sl) \<le> int (length arr)"
      using assms Some by (auto simp: Count_def Let_def sl_ok_def)
    then show ?thesis
      using assms n Some N by (auto simp: sl_ok_def p s sl_strings_arr)
  qed
qed

lemma MakeOurOwnCopy_ok:
  assumes "sl_ok sl" "growable sl"
  shows "\<exists>sl'. MakeOurOwnCopy sl = (True, sl') \<and> sl_ok sl' \<and> sl_strings sl' = sl_strings sl \<and>
    bIsSorted sl' = bIsSorted sl \<and> (papszList sl' = None \<or> bOwnList sl') \<and>
    (papszList sl = None \<longrightarrow> papszList sl' = None) \<and> (nCount sl \<noteq> - 1 \<longrightarrow> nCount sl' = nCount sl) \<and>
    (papszList sl \<noteq> None \<longrightarrow> papszList sl' \<noteq> None)"
proof (cases "bOwnList sl \<or> papszList sl = None")
  case True
  then show ?thesis using assms by (auto simp: MakeOurOwnCopy_def)
next
  case False
  then obtain arr where arr: "papszList sl = Some arr" and ne: "sl_strings sl \<noteq> []"
    using assms(2) by (auto simp: growable_def)
  note c = Count_ok [OF assms(1)]
  have d: "CSLDuplicate (arr_csl (papszList sl)) = Some (sl_strings sl)"
    using ne by (simp add: CSLDuplicate_eq sl_strings_def)
  let ?sl = "(Count sl)\<lparr>papszList := Some (map Some (sl_strings sl) @ [None]), bOwnList := True,
      nAllocation := nCount (Count sl) + 1\<rparr>"
  have "MakeOurOwnCopy sl = (True, ?sl)"
    using False d arr by (simp add: MakeOurOwnCopy_def csl_arr_def c)
  moreover have s: "sl_strings ?sl = sl_strings sl" by (simp add: sl_strings_def arr_csl_def)
  moreover have "sl_ok ?sl"
    using assms(1) c s by (simp add: sl_ok_def)
  moreover have "nCount sl \<noteq> - 1 \<Longrightarrow> nCount (Count sl) = nCount sl" by (simp add: Count_def)
  ultimately show ?thesis using c arr by auto
qed

lemma EnsureAllocation_ok:
  assumes "sl_ok sl" "growable sl" "nCount sl = int (length (sl_strings sl))"
    "int (length (sl_strings sl)) < INT_MAX - 2"
  shows "\<exists>sl' r. EnsureAllocation sl (nCount sl + 1) = (True, sl') \<and>
    papszList sl' = Some (map Some (sl_strings sl) @ None # r) \<and> r \<noteq> [] \<and>
    nCount sl' = nCount sl \<and> bIsSorted sl' = bIsSorted sl \<and> bOwnList sl' \<and>
    nAllocation sl' \<le> int (length (sl_strings sl)) + 1 + int (length r)"
proof -
  obtain s1 where s1: "(if \<not> bOwnList sl then MakeOurOwnCopy sl else (True, sl)) = (True, s1)"
    and ok: "sl_ok s1" and str: "sl_strings s1 = sl_strings sl" and srt: "bIsSorted s1 = bIsSorted sl"
    and own: "papszList s1 = None \<or> bOwnList s1" and cnt: "nCount s1 = nCount sl"
    using MakeOurOwnCopy_ok [OF assms(1,2)] assms(1,3) by (cases "bOwnList sl") auto
  let ?n = "nCount sl + 1"
  define new where "new = (let nNewAllocation = ?n + 1 in
     if nNewAllocation \<le> (INT_MAX - 20) div 2 div 8 then max (nNewAllocation * 2 + 20) (?n + 1)
     else nNewAllocation)"
  have new: "?n < new" by (auto simp: new_def Let_def)
  have fits: "\<not> (?n < 0 \<or> ?n > INT_MAX - 1 \<or> ?n > (2 ^ 64 - 1) div 8 - 1)"
    using assms(3,4) by (simp add: INT_MAX_def)
  show ?thesis
  proof (cases "papszList s1")
    case None
    then have xs: "sl_strings sl = []" using str by (simp add: sl_strings_None)
    let ?s = "s1\<lparr>papszList := Some (replicate (nat new) None), bOwnList := True, nCount := 0,
        nAllocation := new\<rparr>"
    have "EnsureAllocation sl ?n = (True, ?s)"
      using s1 None fits by (simp add: EnsureAllocation_def new_def Let_def)
    moreover have "replicate (nat new) (None :: cell) = None # replicate (nat new - 1) None"
      using new assms(3) by (cases "nat new") auto
    ultimately show ?thesis
      using xs srt assms(3) new
      by (intro exI [of _ ?s] exI [of _ "replicate (nat new - 1) None"]) auto
  next
    case (Some arr)
    then have "None \<in> set arr" using ok by (simp add: sl_ok_def)
    then obtain r where "arr = map Some (arr_strings arr) @ None # r" by (rule arr_split)
    then have arr: "arr = map Some (sl_strings sl) @ None # r"
      using str Some by (simp add: sl_strings_arr)
    have la: "length arr = length (sl_strings sl) + 1 + length r" by (subst arr) simp
    have al: "nAllocation s1 \<le> int (length arr)" using ok Some by (simp add: sl_ok_def)
    show ?thesis
    proof (cases "nAllocation s1 \<le> ?n")
      case False
      then have "EnsureAllocation sl ?n = (True, s1)"
        using s1 Some by (simp add: EnsureAllocation_def)
      moreover have "r \<noteq> []" using False al arr assms(3) by auto
      ultimately show ?thesis using Some arr srt cnt own al by auto
    next
      case True
      let ?r = "take (nat new - length (sl_strings sl) - 1) r @ replicate (nat new - length arr) JUNK"
      let ?s = "s1\<lparr>papszList := Some (take (nat new) arr @ replicate (nat new - length arr) JUNK),
          nAllocation := new\<rparr>"
      have E: "EnsureAllocation sl ?n = (True, ?s)"
        using s1 Some fits True by (simp add: EnsureAllocation_def new_def Let_def)
      have len: "length (sl_strings sl) + 2 \<le> nat new" using new assms(3) by linarith
      then have P: "take (nat new) arr @ replicate (nat new - length arr) JUNK =
          map Some (sl_strings sl) @ None # ?r"
        by (subst arr) (cases "nat new - length (sl_strings sl)"; simp add: take_Cons')
      have R: "length ?r = nat new - length (sl_strings sl) - 1"
        using len la by (simp add: min_def)
      have own': "bOwnList s1" using own Some by simp
      have "0 < length ?r" unfolding R using len by arith
      then have "?r \<noteq> []" by (rule length_greater_0_conv [THEN iffD1])
      moreover have "int (length ?r) = new - int (length (sl_strings sl)) - 1"
        using R len by linarith
      ultimately show ?thesis using E P srt cnt own'
        by (intro exI [of _ ?s] exI [of _ ?r]) simp
    qed
  qed
qed


lemma sl_arr:
  assumes "sl_ok sl" "papszList sl = Some arr"
  obtains r where "arr = map Some (sl_strings sl) @ None # r"
    "nAllocation sl \<le> int (length (sl_strings sl)) + 1 + int (length r)"
proof -
  have "None \<in> set arr" using assms by (simp add: sl_ok_def)
  then obtain r where r: "arr = map Some (arr_strings arr) @ None # r" by (rule arr_split)
  have "length arr = length (arr_strings arr) + 1 + length r" by (subst r) simp
  with r assms show thesis by (intro that [of r]) (auto simp: sl_strings_arr sl_ok_def)
qed

text \<open>A list with these strings, ready for use.\<close>

lemma sl_okI:
  assumes "papszList sl = Some (map Some xs @ None # r)" "nCount sl = int (length xs)"
    "nAllocation sl \<le> int (length xs) + 1 + int (length r)"
    "bIsSorted sl \<Longrightarrow> sorted (map kv_key xs)"
  shows "sl_ok sl" "sl_strings sl = xs"
  using assms by (auto simp: sl_ok_def sl_strings_arr)

lemma counted:
  assumes "sl_ok sl"
  defines "s1 \<equiv> (if nCount sl = - 1 then Count sl else sl)"
  shows "sl_ok s1" "nCount s1 = int (length (sl_strings sl))" "sl_strings s1 = sl_strings sl"
    "growable s1 = growable sl" "bIsSorted s1 = bIsSorted sl" "papszList s1 = papszList sl"
proof -
  note c = Count_ok [OF assms(1)]
  show "sl_ok s1" "sl_strings s1 = sl_strings sl" "growable s1 = growable sl"
    "bIsSorted s1 = bIsSorted sl" "papszList s1 = papszList sl"
    using assms(1) c by (auto simp: s1_def growable_def)
  show "nCount s1 = int (length (sl_strings sl))"
    using c(2) by (auto simp: s1_def Count_def split: if_splits)
qed

lemma AddStringDirectly_ok:
  assumes "sl_ok sl" "growable sl" "int (length (sl_strings sl)) < INT_MAX - 2"
  shows "\<exists>sl'. AddStringDirectly sl s = Some sl' \<and> sl_ok sl' \<and> sl_strings sl' = sl_strings sl @ [s] \<and>
    \<not> bIsSorted sl'"
proof -
  let ?s1 = "if nCount sl = - 1 then Count sl else sl" and ?xs = "sl_strings sl"
  note c = counted [OF assms(1)]
  obtain s2 r where E: "EnsureAllocation ?s1 (nCount ?s1 + 1) = (True, s2)"
    and p: "papszList s2 = Some (map Some ?xs @ None # r)" and r: "r \<noteq> []"
    and n: "nCount s2 = int (length ?xs)" and al: "nAllocation s2 \<le> int (length ?xs) + 1 + int (length r)"
    using EnsureAllocation_ok [OF c(1)] c assms(2,3) by auto
  obtain c0 r' where r': "r = c0 # r'" using r by (cases r) auto
  let ?s3 = "s2\<lparr>papszList := Some (map Some (?xs @ [s]) @ None # r'), nCount := nCount s2 + 1,
      bIsSorted := False\<rparr>"
  have "arr_set (map Some ?xs @ None # r) (int (length ?xs)) (Some s) = Some (map Some ?xs @ Some s # r)"
    using arr_set_mid [of "map Some ?xs" None r "Some s"] by simp
  moreover have "arr_set (map Some ?xs @ Some s # r) (int (length ?xs) + 1) None =
      Some (map Some (?xs @ [s]) @ None # r')"
    using arr_set_mid [of "map Some ?xs @ [Some s]" c0 r' None] r' by (simp add: add.commute)
  ultimately have "AddStringDirectly sl s = Some ?s3"
    using E p n by (simp add: AddStringDirectly_def Let_def)
  moreover have "sl_ok ?s3" "sl_strings ?s3 = ?xs @ [s]"
    using n al r' by (intro sl_okI [of _ "?xs @ [s]" r']; simp)+
  ultimately show ?thesis by auto
qed

lemma Insert_shift_result:
  "Insert_shift (int (length A)) (A @ B @ c # R) (int (length A + length B)) =
    Some (A @ hd (B @ [c]) # B @ R)"
proof (induction B arbitrary: c R rule: rev_induct)
  case Nil
  then show ?case by (simp add: Insert_shift.simps)
next
  case (snoc b B)
  have get: "arr_get (A @ (B @ [b]) @ c # R) (int (length A + length (B @ [b])) - 1) = Some b"
    using arr_get_mid [of "A @ B" b "c # R"] by simp
  have set: "arr_set (A @ (B @ [b]) @ c # R) (int (length A + length (B @ [b]))) b =
      Some (A @ B @ b # b # R)"
    using arr_set_mid [of "A @ B @ [b]" c R b] by (simp add: add.assoc)
  have "Insert_shift (int (length A)) (A @ (B @ [b]) @ c # R) (int (length A + length (B @ [b]))) =
      Insert_shift (int (length A)) (A @ B @ b # b # R) (int (length A + length B))"
    by (subst Insert_shift.simps) (simp only: get set option.case, simp)
  also have "\<dots> = Some (A @ hd (B @ [b]) # B @ b # R)" by (rule snoc.IH)
  finally show ?case by (cases B) auto
qed

lemma InsertStringDirectly_ok:
  assumes "sl_ok sl" "growable sl" "int (length (sl_strings sl)) < INT_MAX - 2"
    "sl_strings sl = A @ B"
  shows "\<exists>sl'. InsertStringDirectly sl (int (length A)) s = Some sl' \<and>
    (let sl'' = sl'\<lparr>bIsSorted := b\<rparr> in
      sl_strings sl'' = A @ s # B \<and> ((b \<longrightarrow> sorted (map kv_key (A @ s # B))) \<longrightarrow> sl_ok sl''))"
proof -
  let ?s1 = "if nCount sl = - 1 then Count sl else sl" and ?xs = "sl_strings sl"
  note c = counted [OF assms(1)]
  obtain s2 r where E: "EnsureAllocation ?s1 (nCount ?s1 + 1) = (True, s2)"
    and p: "papszList s2 = Some (map Some ?xs @ None # r)" and r: "r \<noteq> []"
    and n: "nCount s2 = int (length ?xs)" and al: "nAllocation s2 \<le> int (length ?xs) + 1 + int (length r)"
    using EnsureAllocation_ok [OF c(1)] c assms(2,3) by auto
  obtain c0 r' where r': "r = c0 # r'" using r by (cases r) auto
  let ?arr = "map Some (A @ s # B) @ None # r'"
  let ?s3 = "s2\<lparr>papszList := Some ?arr, nCount := nCount s2 + 1, bIsSorted := False\<rparr>"
  have "Insert_shift (int (length A)) (map Some ?xs @ None # r) (nCount s2) =
      Some (map Some A @ hd (map Some B @ [None]) # map Some B @ r)"
    using Insert_shift_result [of "map Some A" "map Some B" None r] n assms(4) by simp
  moreover have "arr_set (map Some A @ hd (map Some B @ [None]) # map Some B @ r) (int (length A)) (Some s) =
      Some (map Some A @ Some s # map Some B @ r)"
    using arr_set_mid [of "map Some A" _ "map Some B @ r" "Some s"] by simp
  moreover have "arr_set (map Some A @ Some s # map Some B @ r) (nCount s2 + 1) None = Some ?arr"
    using arr_set_mid [of "map Some A @ Some s # map Some B" c0 r' None] r' n assms(4)
    by (simp add: add.commute add.left_commute)
  ultimately have "InsertStringDirectly sl (int (length A)) s = Some ?s3"
    using E p n assms(4) by (simp add: InsertStringDirectly_def Let_def)
  moreover have "sl_strings (?s3\<lparr>bIsSorted := b\<rparr>) = A @ s # B"
    by (simp add: sl_strings_arr del: map_append list.map)
  moreover have "sl_ok (?s3\<lparr>bIsSorted := b\<rparr>)" if "b \<longrightarrow> sorted (map kv_key (A @ s # B))"
    using n al r' that assms(4) by (intro sl_okI(1) [of _ "A @ s # B" r']) simp_all
  ultimately show ?thesis by (auto simp: Let_def)
qed

subsection \<open>The order of the names\<close>

lemma kv_key_Nil: "kv_key s = [] \<longleftrightarrow> s = [] \<or> hd s = CHR ''=''"
  by (cases s) (auto simp: kv_key_def)

lemma key_end_iff: "c_string s \<Longrightarrow> key_end s \<longleftrightarrow> kv_key s = []"
  by (cases s) (auto simp: key_end_def kv_key_def c_at_def c_string_def)

lemma CPLCompare_order:
  assumes "c_string a" "c_string b"
  shows "CPLCompareKeyValueString a b =
    (if kv_key a < kv_key b then - 1 else if kv_key a = kv_key b then 0 else 1)"
  using assms
proof (induction a b rule: CPLCompareKeyValueString.induct)
  case (1 a b)
  show ?case
  proof (cases "key_end a \<or> key_end b")
    case True
    then show ?thesis
      using 1(2,3) by (subst CPLCompareKeyValueString.simps)
        (auto simp: key_end_iff neq_Nil_conv)
  next
    case False
    obtain x s where a: "a = x # s" using False by (cases a) (auto simp: key_end_def c_at_def)
    obtain y t where b: "b = y # t" using False by (cases b) (auto simp: key_end_def c_at_def)
    have k: "kv_key a = c_schar (c_upper x) # kv_key s" "kv_key b = c_schar (c_upper y) # kv_key t"
      using False a b by (auto simp: key_end_def c_at_def kv_key_def)
    have IH: "CPLCompareKeyValueString s t =
        (if kv_key s < kv_key t then - 1 else if kv_key s = kv_key t then 0 else 1)"
      if "c_schar (c_upper x) = c_schar (c_upper y)"
      using 1 False a b that by (simp add: c_string_def c_at_def)
    show ?thesis
      using False IH k by (subst CPLCompareKeyValueString.simps) (auto simp: a b c_at_def)
  qed
qed


lemma ccode_upper:
  "ccode (c_upper c) = (if 97 \<le> ccode c \<and> ccode c \<le> 122 then ccode c - 32 else ccode c)"
  using ccode_less [of c] by (auto simp: c_upper_def)

lemma c_schar_inject: "c_schar a = c_schar b \<longleftrightarrow> a = b"
  using ccode_less [of a] ccode_less [of b] ccode_inject [of a b]
  by (auto simp: c_schar_def split: if_splits)

lemma upper_lower: "c_upper a = c_upper b \<longleftrightarrow> c_tolower a = c_tolower b"
  unfolding ccode_inject [symmetric] ccode_upper ccode_tolower by auto

lemma map_upper_lower: "map c_upper a = map c_upper b \<longleftrightarrow> EQUAL a b"
  unfolding EQUAL_def by (auto simp: list_eq_iff_nth_eq upper_lower)

lemma kv_key_eq: "kv_key s = kv_key t \<longleftrightarrow>
    EQUAL (takeWhile (\<lambda>c. c \<noteq> CHR ''='') s) (takeWhile (\<lambda>c. c \<noteq> CHR ''='') t)"
proof -
  have inj: "inj c_schar" by (auto simp: inj_on_def c_schar_inject)
  have "kv_key s = map c_schar (map c_upper (takeWhile (\<lambda>c. c \<noteq> CHR ''='') s))" for s
    by (simp add: kv_key_def comp_def)
  then show ?thesis by (simp add: inj_map_eq_map [OF inj] map_upper_lower del: map_map)
qed

lemma takeWhile_noeq: "CHR ''='' \<notin> set s \<Longrightarrow> takeWhile (\<lambda>c. c \<noteq> CHR ''='') s = s"
  by (auto simp: takeWhile_eq_all_conv)

lemma same_key_matches:
  assumes "CHR ''='' \<in> set t" "CHR ''='' \<notin> set key" "kv_key t = kv_key key"
  shows "name_matches key t"
proof -
  let ?p = "takeWhile (\<lambda>c. c \<noteq> CHR ''='') t"
  obtain r where t: "t = ?p @ CHR ''='' # r"
    using split_list_first [OF assms(1)] takeWhile_stop by metis
  have eq: "EQUAL ?p key" using assms(2,3) by (simp add: kv_key_eq takeWhile_noeq)
  then have len: "length ?p = length key" by (rule EQUAL_length)
  have "EQUALN t key (length key)" using t eq EQUALN_append by blast
  moreover have "c_at t (length key) = CHR ''=''"
    using c_at_append_length [of ?p "CHR ''=''" r] len t by metis
  ultimately show ?thesis by (simp add: name_matches_def)
qed

lemma matches_same_key:
  assumes "name_matches key t" "CHR ''='' \<notin> set key"
    "CHR '':'' \<notin> set (takeWhile (\<lambda>c. c \<noteq> CHR ''='') t)"
  shows "kv_key t = kv_key key"
proof -
  obtain p r where t: "t = p @ r" and eq: "EQUAL p key"
    using assms(1) EQUALN_append by (auto simp: name_matches_def)
  have "map c_tolower p = map c_tolower key" using eq by (simp add: EQUAL_def)
  then have "c_tolower ` set p = c_tolower ` set key" by (metis list.set_map)
  then have noeq: "CHR ''='' \<notin> set p"
    using assms(2) c_tolower_chars(1) by (metis (no_types, lifting) image_iff)
  have len: "length p = length key" by (rule EQUAL_length [OF eq])
  have "c_at t (length p) = CHR ''='' \<or> c_at t (length p) = CHR '':''"
    using assms(1) len by (simp add: name_matches_def)
  then obtain d r' where r: "r = d # r'" "d = CHR ''='' \<or> d = CHR '':''"
    unfolding t by (cases r) (auto simp: c_at_def nth_append split: if_splits)
  have tw: "takeWhile (\<lambda>c. c \<noteq> CHR ''='') t = p @ takeWhile (\<lambda>c. c \<noteq> CHR ''='') r"
    unfolding t using noeq by (intro takeWhile_append2) auto
  then have "d = CHR ''=''" using assms(3) r by auto
  then have "takeWhile (\<lambda>c. c \<noteq> CHR ''='') t = p" using tw r by simp
  then show ?thesis using eq assms(2) by (simp add: kv_key_eq takeWhile_noeq)
qed

subsection \<open>The binary searches\<close>

lemma arr_line:
  "0 \<le> i \<Longrightarrow> i < int (length xs) \<Longrightarrow> arr_get (map Some xs @ None # r) i = Some (Some (xs ! nat i))"
  by (simp add: arr_get_def nth_append nat_less_iff)

lemma key_mono:
  "sorted (map kv_key xs) \<Longrightarrow> i \<le> j \<Longrightarrow> j < length xs \<Longrightarrow> kv_key (xs ! i) \<le> kv_key (xs ! j)"
  using sorted_nth_mono [of "map kv_key xs" i j] by simp

lemma key_mono_int:
  "sorted (map kv_key xs) \<Longrightarrow> 0 \<le> i \<Longrightarrow> i \<le> j \<Longrightarrow> j < int (length xs) \<Longrightarrow>
   kv_key (xs ! nat i) \<le> kv_key (xs ! nat j)"
  by (rule key_mono) (auto simp: nat_less_iff)

lemma FindSortedInsertionPoint_loop_result:
  assumes "sorted (map kv_key xs)" "list_all c_string xs" "c_string line" "length xs \<le> 2 ^ 30"
  shows "0 \<le> s \<Longrightarrow> e < int (length xs) \<Longrightarrow> s \<le> e + 1 \<Longrightarrow>
    (\<And>j. j < s \<Longrightarrow> 0 \<le> j \<Longrightarrow> kv_key (xs ! nat j) \<le> kv_key line) \<Longrightarrow>
    (\<And>j. e < j \<Longrightarrow> j < int (length xs) \<Longrightarrow> kv_key line < kv_key (xs ! nat j)) \<Longrightarrow>
    \<exists>p. FindSortedInsertionPoint_loop (map Some xs @ None # r) line s e = Some (int p) \<and>
      p \<le> length xs \<and> (\<forall>j<p. kv_key (xs ! j) \<le> kv_key line) \<and>
      (\<forall>j. p \<le> j \<longrightarrow> j < length xs \<longrightarrow> kv_key line < kv_key (xs ! j))"
proof (induction "nat (e - s + 1)" arbitrary: s e rule: less_induct)
  case less
  show ?case
  proof (cases "s \<le> e")
    case False
    then have "s = e + 1" using less.prems by simp
    moreover have "kv_key (xs ! j) \<le> kv_key line" if "j < nat s" for j
      using less.prems(4) [of "int j"] that by simp
    moreover have "kv_key line < kv_key (xs ! j)" if "nat s \<le> j" "j < length xs" for j
      using less.prems(5) [of "int j"] that \<open>s = e + 1\<close> by simp
    ultimately show ?thesis
      using less.prems(1,2) False
      by (intro exI [of _ "nat s"]) (simp add: FindSortedInsertionPoint_loop.simps)
  next
    case True
    define m where "m = (e + s) div 2"
    have m: "s \<le> m" "m \<le> e" "0 \<le> m" "m < int (length xs)" using True less.prems by (auto simp: m_def)
    have sum: "c_int (e + s) = Some (e + s)" using True less.prems assms(4) by (simp add: c_int_def)
    have cm: "CPLCompareKeyValueString line (xs ! nat m) < 0 \<longleftrightarrow> kv_key line < kv_key (xs ! nat m)"
      using assms(2,3) m by (subst CPLCompare_order) (auto simp: list_all_length nat_less_iff)
    show ?thesis
    proof (cases "kv_key line < kv_key (xs ! nat m)")
      case left: True
      have "kv_key line < kv_key (xs ! nat j)" if "m - 1 < j" "j < int (length xs)" for j
        using left key_mono_int [OF assms(1), of m j] that m by auto
      then have "\<exists>p. FindSortedInsertionPoint_loop (map Some xs @ None # r) line s (m - 1) = Some (int p) \<and>
          p \<le> length xs \<and> (\<forall>j<p. kv_key (xs ! j) \<le> kv_key line) \<and>
          (\<forall>j. p \<le> j \<longrightarrow> j < length xs \<longrightarrow> kv_key line < kv_key (xs ! j))"
        using less.prems m by (intro less.hyps) auto
      then show ?thesis
        using True left m cm arr_line [of m xs r]
        by (subst FindSortedInsertionPoint_loop.simps) (simp add: Let_def sum flip: m_def)
    next
      case right: False
      have "kv_key (xs ! nat j) \<le> kv_key line" if "j < m + 1" "0 \<le> j" for j
        using right key_mono_int [OF assms(1), of j m] that m by auto
      then have "\<exists>p. FindSortedInsertionPoint_loop (map Some xs @ None # r) line (m + 1) e = Some (int p) \<and>
          p \<le> length xs \<and> (\<forall>j<p. kv_key (xs ! j) \<le> kv_key line) \<and>
          (\<forall>j. p \<le> j \<longrightarrow> j < length xs \<longrightarrow> kv_key line < kv_key (xs ! j))"
        using less.prems m by (intro less.hyps) auto
      then show ?thesis
        using True right m cm arr_line [of m xs r]
        by (subst FindSortedInsertionPoint_loop.simps) (simp add: Let_def sum flip: m_def)
    qed
  qed
qed

lemma FindName_loop_result:
  assumes "sorted (map kv_key xs)" "list_all c_string xs" "c_string key"
    "\<forall>x\<in>set xs. kv_key x = kv_key key \<longrightarrow> name_matches key x" "length xs \<le> 2 ^ 30"
  shows "0 \<le> s \<Longrightarrow> e < int (length xs) \<Longrightarrow>
    (\<And>j. 0 \<le> j \<Longrightarrow> j < int (length xs) \<Longrightarrow> j < s \<or> e < j \<Longrightarrow> kv_key (xs ! nat j) \<noteq> kv_key key) \<Longrightarrow>
    \<exists>i. FindName_loop (map Some xs @ None # r) key s e = Some i \<and>
      (if i = - 1 then \<forall>x\<in>set xs. kv_key x \<noteq> kv_key key
       else 0 \<le> i \<and> i < int (length xs) \<and> name_matches key (xs ! nat i))"
proof (induction "nat (e - s + 1)" arbitrary: s e rule: less_induct)
  case less
  show ?case
  proof (cases "s \<le> e")
    case False
    have "kv_key (xs ! j) \<noteq> kv_key key" if "j < length xs" for j
      using less.prems(3) [of "int j"] that False by (cases "int j < s") auto
    then show ?thesis using False by (auto simp: FindName_loop.simps in_set_conv_nth)
  next
    case True
    define m where "m = (e + s) div 2"
    have m: "s \<le> m" "m \<le> e" "0 \<le> m" "m < int (length xs)" using True less.prems by (auto simp: m_def)
    have sum: "c_int (e + s) = Some (e + s)" using True less.prems assms(5) by (simp add: c_int_def)
    have cm: "CPLCompareKeyValueString key (xs ! nat m) < 0 \<longleftrightarrow> kv_key key < kv_key (xs ! nat m)"
      using assms(2,3) m by (subst CPLCompare_order) (auto simp: list_all_length nat_less_iff)
    have unfold: "FindName_loop (map Some xs @ None # r) key s e =
      (if name_matches key (xs ! nat m) then Some m
       else if kv_key key < kv_key (xs ! nat m) then FindName_loop (map Some xs @ None # r) key s (m - 1)
       else FindName_loop (map Some xs @ None # r) key (m + 1) e)"
      using True m cm arr_line [of m xs r]
      by (subst FindName_loop.simps) (auto simp: Let_def sum name_matches_def simp flip: m_def)
    show ?thesis
    proof (cases "name_matches key (xs ! nat m)")
      case match: True
      then show ?thesis using unfold m by auto
    next
      case nomatch: False
      have "xs ! nat m \<in> set xs" using m by (simp add: nat_less_iff)
      then have ne: "kv_key (xs ! nat m) \<noteq> kv_key key" using nomatch assms(4) by blast
      show ?thesis
      proof (cases "kv_key key < kv_key (xs ! nat m)")
        case left: True
        have "kv_key (xs ! nat j) \<noteq> kv_key key" if "m \<le> j" "j < int (length xs)" for j
          using left key_mono_int [OF assms(1), of m j] that m by auto
        then have "\<exists>i. FindName_loop (map Some xs @ None # r) key s (m - 1) = Some i \<and>
          (if i = - 1 then \<forall>x\<in>set xs. kv_key x \<noteq> kv_key key
           else 0 \<le> i \<and> i < int (length xs) \<and> name_matches key (xs ! nat i))"
          using less.prems m by (intro less.hyps) auto
        then show ?thesis using unfold nomatch left by simp
      next
        case right: False
        with ne have lt: "kv_key (xs ! nat m) < kv_key key" by simp
        have "kv_key (xs ! nat j) \<noteq> kv_key key" if "0 \<le> j" "j \<le> m" for j
          using lt key_mono_int [OF assms(1), of j m] that m by auto
        then have "\<exists>i. FindName_loop (map Some xs @ None # r) key (m + 1) e = Some i \<and>
          (if i = - 1 then \<forall>x\<in>set xs. kv_key x \<noteq> kv_key key
           else 0 \<le> i \<and> i < int (length xs) \<and> name_matches key (xs ! nat i))"
          using less.prems m by (intro less.hyps) auto
        then show ?thesis using unfold nomatch right by simp
      qed
    qed
  qed
qed


subsection \<open>Properties\<close>

lemma sl_strings_update:
  "papszList sl = Some (map Some xs @ None # r) \<Longrightarrow> sl_strings sl = xs"
  by (simp add: sl_strings_arr)

text \<open>The lines of a list used for names and values: C strings with an equals sign, and no colon
  before it.\<close>

definition kv_lines :: "string list \<Rightarrow> bool" where
  "kv_lines xs \<longleftrightarrow> (\<forall>x\<in>set xs. c_string x \<and> CHR ''='' \<in> set x \<and>
     CHR '':'' \<notin> set (takeWhile (\<lambda>c. c \<noteq> CHR ''='') x))"

definition plain_key :: "string \<Rightarrow> bool" where
  "plain_key key \<longleftrightarrow> c_string key \<and> CHR ''='' \<notin> set key \<and> CHR '':'' \<notin> set key"

text \<open>AddString on a list in a consistent state stays inside the array it grows, appends the
  string and leaves the list consistent and no longer marked sorted.  The exception is a list that
  wraps an array of another owner without any strings: the copy it needs fails, and the string is
  dropped without an error.\<close>

theorem AddString_appends:
  assumes "sl_ok sl" "int (length (sl_strings sl)) < INT_MAX - 2"
  shows "if growable sl
    then (\<exists>sl'. AddString sl s = Some sl' \<and> sl_ok sl' \<and> sl_strings sl' = sl_strings sl @ [s] \<and>
            \<not> bIsSorted sl')
    else (\<exists>sl'. AddString sl s = Some sl' \<and> sl_strings sl' = [])"
proof (cases "growable sl")
  case True
  then show ?thesis using AddStringDirectly_ok [OF assms(1) True assms(2)] by (simp add: AddString_def)
next
  case False
  then have f: "\<not> bOwnList sl" "papszList sl \<noteq> None" "sl_strings sl = []"
    by (auto simp: growable_def)
  let ?s = "if nCount sl = - 1 then Count sl else sl"
  note c = counted [OF assms(1)] Count_ok [OF counted(1) [OF assms(1)]]
  have own: "\<not> bOwnList ?s" using f Count_ok(5) [OF assms(1)] by simp
  have "CSLDuplicate (arr_csl (papszList (Count ?s))) = None"
    using f c(3) c(9) c(10) by (simp add: CSLDuplicate_eq sl_strings_def)
  then have "MakeOurOwnCopy ?s = (False, Count ?s)"
    using own f(2) c(6) by (simp add: MakeOurOwnCopy_def Let_def)
  then have "EnsureAllocation ?s (nCount ?s + 1) = (False, Count ?s)"
    using own by (simp only: EnsureAllocation_def if_True not_False_eq_True Let_def prod.case simp_thms)
  then have "AddString sl s = Some (Count ?s)"
    by (simp only: AddString_def AddStringDirectly_def Let_def prod.case not_False_eq_True if_True simp_thms)
  then show ?thesis using False f(3) c(3) c(9) by simp
qed

lemmas find_eval = FindName_def FindName_loop.simps CPLCompareKeyValueString.simps key_end_def
  arr_get_def c_int_def EQUALN_def c_tolower_def c_at_def c_schar_def c_upper_def ccode_def Let_def
  CSLFindName_def CSLFetchNameValue_def name_matches_def arr_csl_def char_of_def bit_0

definition string_list_example :: "string list \<Rightarrow> bool \<Rightarrow> string_list" where
  "string_list_example xs srt =
     \<lparr>papszList = Some (map Some xs @ [None]), nCount = int (length xs),
      nAllocation = int (length xs) + 1, bOwnList = True, bIsSorted = srt\<rparr>"

lemma string_list_example_ok:
  "srt \<longrightarrow> sorted (map kv_key xs) \<Longrightarrow> sl_ok (string_list_example xs srt)"
  "sl_strings (string_list_example xs srt) = xs" "growable (string_list_example xs srt)"
  "bIsSorted (string_list_example xs srt) = srt"
  by (auto simp: string_list_example_def growable_def sl_strings_arr
      intro!: sl_okI(1) [of _ xs "[]"])

theorem AddString_appends_witness:
  "\<exists>sl'. AddString (string_list_example [''a''] False) ''b'' = Some sl' \<and>
    sl_strings sl' = [''a'', ''b'']"
  using AddString_appends [of "string_list_example [''a''] False" "''b''"]
    string_list_example_ok [where srt = False and xs = "[''a'']"]
  by (auto simp: INT_MAX_def)

text \<open>C2: AddNameValue of a key and a value on a sorted list finds its place by binary search and keeps the
  list sorted: the new lines are the old ones and \<open>key=value\<close>, and nothing is written outside the array.
  The list is in a consistent state, of at most 2^30 C strings (beyond which the sum in the search overflows)
  and not a list without strings in an array of another owner, which cannot grow.\<close>

theorem AddNameValue_keeps_sorted:
  assumes "sl_ok sl" "growable sl" "bIsSorted sl" "list_all c_string (sl_strings sl)"
    and "c_string k" "c_string v" "length (sl_strings sl) \<le> 2 ^ 30"
  shows "\<exists>sl'. AddNameValue sl (Some k) (Some v) = Some sl' \<and> sl_ok sl' \<and> bIsSorted sl' \<and>
    mset (sl_strings sl') = add_mset (k @ CHR ''='' # v) (mset (sl_strings sl))"
proof -
  let ?line = "k @ CHR ''='' # v"
  obtain s1 where M: "MakeOurOwnCopy sl = (True, s1)" and ok: "sl_ok s1"
    and str: "sl_strings s1 = sl_strings sl" and srt: "bIsSorted s1" and own: "papszList s1 = None \<or> bOwnList s1"
    using MakeOurOwnCopy_ok [OF assms(1,2)] assms(3) by auto
  let ?xs = "sl_strings s1"
  have sorted: "sorted (map kv_key ?xs)" using ok srt by (simp add: sl_ok_def)
  have line: "c_string ?line" using assms(5,6) by (simp add: c_string_def)
  have cnt: "nCount s1 = int (length ?xs)"
    using counted(2) [OF ok] ok srt by (simp add: sl_ok_def split: if_splits)
  have "\<exists>p. FindSortedInsertionPoint s1 ?line = Some (int p) \<and> p \<le> length ?xs \<and>
      (\<forall>j<p. kv_key (?xs ! j) \<le> kv_key ?line) \<and>
      (\<forall>j. p \<le> j \<longrightarrow> j < length ?xs \<longrightarrow> kv_key ?line < kv_key (?xs ! j))"
  proof (cases "papszList s1")
    case None
    then show ?thesis
      using cnt by (simp add: FindSortedInsertionPoint_def FindSortedInsertionPoint_loop.simps sl_strings_None)
  next
    case (Some arr)
    obtain r where arr: "arr = map Some ?xs @ None # r" using sl_arr [OF ok Some] by metis
    show ?thesis
      unfolding FindSortedInsertionPoint_def Some option.case cnt arr
      by (rule FindSortedInsertionPoint_loop_result [OF sorted _ line]) (use assms(4,7) str in auto)
  qed
  then obtain p where p: "FindSortedInsertionPoint s1 ?line = Some (int p)" "p \<le> length ?xs"
    and le: "\<And>j. j < p \<Longrightarrow> kv_key (?xs ! j) \<le> kv_key ?line"
    and gt: "\<And>j. p \<le> j \<Longrightarrow> j < length ?xs \<Longrightarrow> kv_key ?line < kv_key (?xs ! j)" by blast
  define A B where "A = take p ?xs" and "B = drop p ?xs"
  have AB: "?xs = A @ B" "length A = p" using p(2) by (simp_all add: A_def B_def)
  have "\<forall>a\<in>set A. kv_key a \<le> kv_key ?line" using le p(2) by (auto simp: A_def in_set_conv_nth)
  moreover have "\<forall>b\<in>set B. kv_key ?line \<le> kv_key b"
  proof
    fix b assume "b \<in> set B"
    then obtain j where "j < length B" "b = B ! j" by (metis in_set_conv_nth)
    then show "kv_key ?line \<le> kv_key b" using gt [of "p + j"] p(2) by (simp add: B_def less_imp_le)
  qed
  ultimately have sorted': "sorted (map kv_key (A @ ?line # B))"
    using sorted AB(1) by (auto simp: sorted_append intro: order_trans)
  have g: "growable s1" using own by (auto simp: growable_def)
  have small: "int (length ?xs) < INT_MAX - 2" using assms(7) str by (simp add: INT_MAX_def)
  obtain s2 where I: "InsertStringDirectly s1 (int p) ?line = Some s2"
    and r2: "sl_strings (s2\<lparr>bIsSorted := True\<rparr>) = A @ ?line # B" "sl_ok (s2\<lparr>bIsSorted := True\<rparr>)"
    using InsertStringDirectly_ok [OF ok g small AB(1), of ?line True] sorted' AB(2)
    by (auto simp: Let_def)
  have "AddNameValue sl (Some k) (Some v) = Some (s2\<lparr>bIsSorted := True\<rparr>)"
    using M srt p(1) I by (simp add: AddNameValue_def)
  moreover have "mset (A @ ?line # B) = add_mset ?line (mset (sl_strings sl))"
    using AB(1) str by simp
  ultimately show ?thesis using r2 by auto
qed

theorem AddNameValue_keeps_sorted_witness:
  "\<exists>sl'. AddNameValue (string_list_example [''A=1'', ''C=3''] True) (Some ''b'') (Some ''2'') = Some sl' \<and>
    sl_ok sl' \<and> bIsSorted sl' \<and> mset (sl_strings sl') = {#''b=2'', ''A=1'', ''C=3''#}"
proof -
  have s: "sorted (map kv_key [''A=1'', ''C=3''])" by (simp add: kv_eval)
  show ?thesis
    using AddNameValue_keeps_sorted [of "string_list_example [''A=1'', ''C=3''] True" "''b''" "''2''"]
      string_list_example_ok [where srt = True and xs = "[''A=1'', ''C=3'']"] s
    by (auto simp: INT_MAX_def c_string_def add_mset_commute)
qed


lemma sorted_count: "sl_ok sl \<Longrightarrow> bIsSorted sl \<Longrightarrow> nCount sl = int (length (sl_strings sl))"
  using counted(2) [of sl] by (simp add: sl_ok_def split: if_splits)

lemma kv_lines_match:
  assumes "kv_lines xs" "plain_key key" "x \<in> set xs"
  shows "name_matches key x \<longleftrightarrow> kv_key x = kv_key key"
  using assms same_key_matches [of x key] matches_same_key [of key x]
  by (auto simp: kv_lines_def plain_key_def)

lemma FindName_sorted_result:
  assumes "sl_ok sl" "bIsSorted sl" "kv_lines (sl_strings sl)" "plain_key key" "length (sl_strings sl) \<le> 2 ^ 30"
  shows "\<exists>i. FindName sl key = Some i \<and>
    (if i = - 1 then \<forall>x\<in>set (sl_strings sl). \<not> name_matches key x
     else 0 \<le> i \<and> i < int (length (sl_strings sl)) \<and> name_matches key (sl_strings sl ! nat i))"
proof (cases "papszList sl")
  case None
  then show ?thesis
    using assms sorted_count [OF assms(1,2)]
    by (simp add: FindName_def FindName_loop.simps sl_strings_None)
next
  case (Some arr)
  let ?xs = "sl_strings sl"
  obtain r where arr: "arr = map Some ?xs @ None # r" using sl_arr [OF assms(1) Some] by metis
  have sorted: "sorted (map kv_key ?xs)" using assms(1,2) by (simp add: sl_ok_def)
  have "\<exists>i. FindName_loop (map Some ?xs @ None # r) key 0 (int (length ?xs) - 1) = Some i \<and>
    (if i = - 1 then \<forall>x\<in>set ?xs. kv_key x \<noteq> kv_key key
     else 0 \<le> i \<and> i < int (length ?xs) \<and> name_matches key (?xs ! nat i))"
    using assms(3,4,5) kv_lines_match [OF assms(3,4)]
    by (intro FindName_loop_result [OF sorted]) (auto simp: kv_lines_def plain_key_def list_all_iff)
  then show ?thesis
    using kv_lines_match [OF assms(3,4)] assms(2) Some arr sorted_count [OF assms(1,2)]
    by (auto simp: FindName_def)
qed


lemma csl_find_found:
  "0 \<le> i \<Longrightarrow> csl_find p i xs = - 1 \<and> (\<forall>x\<in>set xs. \<not> p x) \<or>
     i \<le> csl_find p i xs \<and> csl_find p i xs < i + int (length xs) \<and> p (xs ! nat (csl_find p i xs - i))"
proof (induction p i xs rule: csl_find.induct)
  case (2 p i s xs)
  show ?case
  proof (cases "p s")
    case False
    with 2 show ?thesis
    proof (cases "csl_find p (i + 1) xs = - 1 \<and> (\<forall>x\<in>set xs. \<not> p x)")
      case tail: False
      with 2 False have t: "i + 1 \<le> csl_find p (i + 1) xs" "csl_find p (i + 1) xs < i + 1 + int (length xs)"
        "p (xs ! nat (csl_find p (i + 1) xs - (i + 1)))" by auto
      have "nat (csl_find p (i + 1) xs - i) = Suc (nat (csl_find p (i + 1) xs - (i + 1)))" using t by simp
      with t False show ?thesis by simp
    qed simp
  qed simp
qed simp

text \<open>C28: On a consistent sorted list of at most 2^30 \<open>name=value\<close> lines whose names hold no colon, FindName by
  binary search of a name without colon or equals sign reads only lines of the list, without overflow, and agrees with the
  linear search: it finds a line of the name, whatever its case, exactly when CSLFindName does.\<close>

theorem FindName_sorted:
  assumes "sl_ok sl" "bIsSorted sl" "kv_lines (sl_strings sl)" "plain_key key" "length (sl_strings sl) \<le> 2 ^ 30"
  shows "\<exists>i. FindName sl key = Some i \<and>
    (i = - 1 \<longleftrightarrow> CSLFindName (arr_csl (papszList sl)) (Some key) = - 1) \<and>
    (i \<noteq> - 1 \<longrightarrow> 0 \<le> i \<and> i < int (length (sl_strings sl)) \<and> name_matches key (sl_strings sl ! nat i))"
proof -
  obtain i where i: "FindName sl key = Some i"
    and r: "if i = - 1 then \<forall>x\<in>set (sl_strings sl). \<not> name_matches key x
       else 0 \<le> i \<and> i < int (length (sl_strings sl)) \<and> name_matches key (sl_strings sl ! nat i)"
    using FindName_sorted_result [OF assms] by blast
  have f: "CSLFindName (arr_csl (papszList sl)) (Some key) = csl_find (name_matches key) 0 (sl_strings sl)"
    by (cases "papszList sl") (simp_all add: CSLFindName_def arr_csl_def sl_strings_def)
  have "csl_find (name_matches key) 0 (sl_strings sl) = - 1 \<longleftrightarrow>
      (\<forall>x\<in>set (sl_strings sl). \<not> name_matches key x)"
    using csl_find_found [of 0 "name_matches key" "sl_strings sl"] by (auto simp: nat_less_iff)
  moreover have "i \<noteq> - 1 \<Longrightarrow> \<not> (\<forall>x\<in>set (sl_strings sl). \<not> name_matches key x)"
    using r by (auto simp: nat_less_iff)
  ultimately show ?thesis using i r f by (intro exI [of _ i]) (auto split: if_splits)
qed

theorem FindName_sorted_witness:
  "\<exists>i. FindName (string_list_example [''A=1'', ''B=2'', ''C=3''] True) ''b'' = Some i \<and> i \<noteq> - 1"
proof -
  let ?xs = "[''A=1'', ''B=2'', ''C=3'']"
  have s: "sorted (map kv_key ?xs)" by (simp add: kv_eval)
  have f: "CSLFindName (arr_csl (papszList (string_list_example ?xs True))) (Some ''b'') = 1" by (simp add: find_eval string_list_example_def arr_strings_def)
  show ?thesis
    using FindName_sorted [of "string_list_example ?xs True" "''b''"]
      string_list_example_ok [where srt = True and xs = ?xs] s f
    by (auto simp: kv_lines_def plain_key_def c_string_def)
qed

text \<open>With a colon as separator the two searches differ: CPLCompareKeyValueString only ends a
  name at an equals sign, so in a sorted list the line \<open>A:1\<close> can stand where the binary search
  for \<open>A\<close> does not look, while the linear search, and the documentation, find it.\<close>

theorem FindName_sorted_misses_colon:
  "\<exists>sl. sl_ok sl \<and> bIsSorted sl \<and> FindName sl ''A'' = Some (- 1) \<and>
    CSLFindName (arr_csl (papszList sl)) (Some ''A'') = 1 \<and>
    CSLFetchNameValue (arr_csl (papszList sl)) (Some ''A'') = Some ''1''"
proof -
  let ?xs = "[''A-B=1'', ''A:1'']"
  have s: "sorted (map kv_key ?xs)" by (simp add: kv_eval)
  have "FindName (string_list_example ?xs True) ''A'' = Some (- 1)" by (simp add: find_eval string_list_example_def arr_strings_def)
  moreover have "CSLFindName (arr_csl (papszList (string_list_example ?xs True))) (Some ''A'') = 1"
    by (simp add: find_eval string_list_example_def arr_strings_def)
  moreover have "CSLFetchNameValue (arr_csl (papszList (string_list_example ?xs True))) (Some ''A'') =
      Some ''1''"
    by (simp add: find_eval string_list_example_def arr_strings_def)
  ultimately show ?thesis using string_list_example_ok [where srt = True and xs = ?xs] s by blast
qed

text \<open>The bound of 2^30 lines is that of the code: on a sorted list with the name in no line, whose lines all come
  first, the second middle already overflows for a list of three quarters of the largest count.\<close>

theorem FindName_midpoint_overflow:
  assumes "3 * 2 ^ 29 \<le> n"
  shows "FindName (string_list_example (replicate n ''A=1'') True) ''B'' = None"
proof -
  let ?xs = "replicate n ''A=1''"
  have arr: "arr_get (map Some ?xs @ [None]) i = Some (Some ''A=1'')" if "0 \<le> i" "i < int n" for i
    using arr_line [of i ?xs "[]"] that by (simp add: nat_less_iff)
  have cmp: "CPLCompareKeyValueString ''B'' ''A=1'' = 1"
    by (simp add: CPLCompareKeyValueString.simps key_end_def c_at_def c_schar_def c_upper_def ccode_def Let_def)
  have ne: "\<not> EQUALN ''A=1'' ''B'' 1" by (simp add: EQUALN_def c_tolower_def ccode_def)
  show ?thesis
  proof (cases "int n - 1 < 2 ^ 31")
    case True
    define m where "m = (int n - 1) div 2"
    have m: "0 \<le> m" "m < int n" "m + 1 \<le> int n - 1" "2 ^ 31 \<le> int n - 1 + (m + 1)"
      using assms by (auto simp: m_def)
    have "FindName_loop (map Some ?xs @ [None]) ''B'' 0 (int n - 1) =
        FindName_loop (map Some ?xs @ [None]) ''B'' (m + 1) (int n - 1)"
      using True assms arr [OF m(1,2)] ne cmp
      by (subst FindName_loop.simps) (simp add: c_int_def Let_def flip: m_def)
    also have "\<dots> = None" using m by (subst FindName_loop.simps) (simp add: c_int_def)
    finally show ?thesis by (simp add: FindName_def string_list_example_def)
  next
    case False
    then have "FindName_loop (map Some ?xs @ [None]) ''B'' 0 (int n - 1) = None"
      by (subst FindName_loop.simps) (simp add: c_int_def)
    then show ?thesis by (simp add: FindName_def string_list_example_def)
  qed
qed

lemma Delete_shift_result:
  "Delete_shift (map Some A @ Some x # map Some B @ None # r) (int (length A)) =
    Some (map Some (A @ B) @ None # None # r)"
proof (induction B arbitrary: A x)
  case Nil
  have "arr_get (map Some A @ Some x # None # r) (int (length A) + 1) = Some None"
    using arr_get_mid [of "map Some A @ [Some x]" None r] by (simp add: add.commute)
  moreover have "arr_set (map Some A @ Some x # None # r) (int (length A)) None =
      Some (map Some A @ None # None # r)"
    using arr_set_mid [of "map Some A" "Some x" "None # r" None] by simp
  ultimately show ?case by (subst Delete_shift.simps) simp
next
  case (Cons b B)
  let ?arr = "map Some A @ Some x # map Some (b # B) @ None # r"
  have get: "arr_get ?arr (int (length A) + 1) = Some (Some b)"
    using arr_get_mid [of "map Some A @ [Some x]" "Some b" "map Some B @ None # r"]
    by (simp add: add.commute)
  have set: "arr_set ?arr (int (length A)) (Some b) =
      Some (map Some (A @ [b]) @ Some b # map Some B @ None # r)"
    using arr_set_mid [of "map Some A" "Some x" "Some b # map Some B @ None # r" "Some b"] by simp
  have "Delete_shift ?arr (int (length A)) =
      Delete_shift (map Some (A @ [b]) @ Some b # map Some B @ None # r) (int (length (A @ [b])))"
    by (subst Delete_shift.simps) (simp only: get set option.case, simp add: add.commute)
  also have "\<dots> = Some (map Some ((A @ [b]) @ B) @ None # None # r)" by (rule Cons.IH)
  finally show ?case by simp
qed


lemma sorted_by_compare:
  "list_all c_string ys \<Longrightarrow>
   sorted_wrt (\<lambda>a b. CPLCompareKeyValueString a b \<le> 0) ys \<longleftrightarrow> sorted (map kv_key ys)"
  by (induction ys) (auto simp: CPLCompare_order list_all_iff split: if_splits)

lemma sorted_map_remove:
  "sorted (map f (A @ x # B)) \<Longrightarrow> sorted (map f (A @ B))"
  by (auto simp: sorted_append)

text \<open>C39: SetNameValue of a name that a consistent list of at most 2^30 lines has: the line found is replaced by
  \<open>key=value\<close>, or removed when the value is NULL, every other line stays where it was, no access leaves the
  array, and the state stays consistent: a sorted list stays sorted.  The name has no colon or equals sign,
  and the lines of a sorted list are \<open>name=value\<close> with no colon in the name.\<close>

theorem SetNameValue_existing:
  assumes "sl_ok sl" "bIsSorted sl \<longrightarrow> kv_lines (sl_strings sl)" "plain_key key"
    and "FindName sl key = Some i" "i \<noteq> - 1" "length (sl_strings sl) \<le> 2 ^ 30"
  shows "\<exists>sl' A x B. SetNameValue sl key v = Some sl' \<and> sl_ok sl' \<and> bIsSorted sl' = bIsSorted sl \<and>
    sl_strings sl = A @ x # B \<and> int (length A) = i \<and> name_matches key x \<and>
    sl_strings sl' = (case v of None \<Rightarrow> A @ B | Some w \<Rightarrow> A @ (key @ CHR ''='' # w) # B)"
proof -
  let ?xs = "sl_strings sl"
  have i: "0 \<le> i" "i < int (length ?xs)" "name_matches key (?xs ! nat i)"
  proof -
    have "0 \<le> i \<and> i < int (length ?xs) \<and> name_matches key (?xs ! nat i)"
    proof (cases "bIsSorted sl")
      case True
      then show ?thesis using FindName_sorted_result [OF assms(1) True _ assms(3,6)] assms(2,4,5) True by auto
    next
      case False
      then have "csl_find (name_matches key) 0 ?xs = i"
        using assms(4,5) by (cases "papszList sl")
          (auto simp: FindName_def CSLFindName_def arr_csl_def sl_strings_def)
      then show ?thesis using csl_find_found [of 0 "name_matches key" ?xs] assms(5) by auto
    qed
    then show "0 \<le> i" "i < int (length ?xs)" "name_matches key (?xs ! nat i)" by auto
  qed
  define A x B where "A = take (nat i) ?xs" and "x = ?xs ! nat i" and "B = drop (Suc (nat i)) ?xs"
  have xs: "?xs = A @ x # B" "int (length A) = i"
    using i by (simp_all add: A_def x_def B_def id_take_nth_drop nat_less_iff)
  have match: "name_matches key x" using i by (simp add: x_def)
  note c = Count_ok [OF assms(1)]
  have "growable (Count sl)" using xs c by (auto simp: growable_def)
  then obtain s1 where M: "MakeOurOwnCopy (Count sl) = (True, s1)" and ok: "sl_ok s1"
    and str: "sl_strings s1 = ?xs" and srt: "bIsSorted s1 = bIsSorted sl"
    and cnt: "nCount s1 = int (length ?xs)"
    using MakeOurOwnCopy_ok [OF c(1)] c by auto
  obtain arr where arr: "papszList s1 = Some arr"
    using str xs by (cases "papszList s1") (auto simp: sl_strings_None)
  obtain r where r: "arr = map Some ?xs @ None # r"
    and al: "nAllocation s1 \<le> int (length ?xs) + 1 + int (length r)"
    using sl_arr [OF ok arr] str by metis
  have arr': "arr = map Some A @ Some x # map Some B @ None # r" using r xs by simp
  have get: "arr_get arr i = Some (Some x)"
    using arr_get_mid [of "map Some A" "Some x"] xs(2) by (simp add: arr')
  have sorted: "bIsSorted sl \<longrightarrow> sorted (map kv_key (A @ x # B))"
    using assms(1) xs(1) by (simp add: sl_ok_def)
  show ?thesis
  proof (cases v)
    case None
    let ?s2 = "s1\<lparr>papszList := Some (map Some (A @ B) @ None # None # r), nCount := nCount s1 - 1\<rparr>"
    have "SetNameValue sl key v = Some ?s2"
      using assms(4,5) M arr get Delete_shift_result [of A x B r] xs(2) None
      by (simp add: SetNameValue_def arr')
    moreover have "sl_ok ?s2" "sl_strings ?s2 = A @ B"
      using cnt al xs sorted srt sorted_map_remove [of kv_key A x B]
      by (intro sl_okI [of _ "A @ B" "None # r"]; simp)+
    ultimately show ?thesis using xs match srt None by auto
  next
    case (Some w)
    let ?line = "key @ CHR ''='' # w"
    let ?s2 = "s1\<lparr>papszList := Some (map Some (A @ ?line # B) @ None # r)\<rparr>"
    have "arr_set arr i (Some ?line) = Some (map Some (A @ ?line # B) @ None # r)"
      using arr_set_mid [of "map Some A" "Some x" _ "Some ?line"] xs(2) by (simp add: arr')
    then have "SetNameValue sl key v = Some ?s2"
      using assms(4,5) M arr get Some by (simp add: SetNameValue_def)
    moreover have "sorted (map kv_key (A @ ?line # B))" if "bIsSorted sl"
    proof -
      have "kv_lines ?xs" using assms(2) that by simp
      moreover have "x \<in> set ?xs" using xs(1) by simp
      ultimately have "kv_key x = kv_key key" using kv_lines_match [OF _ assms(3)] match by blast
      moreover have "takeWhile (\<lambda>c. c \<noteq> CHR ''='') ?line = key"
        by (rule takeWhile_stop) (use assms(3) in \<open>simp add: plain_key_def\<close>)
      then have "kv_key ?line = kv_key key"
        using assms(3) by (simp add: kv_key_eq plain_key_def takeWhile_noeq)
      ultimately show ?thesis using sorted that by simp
    qed
    then have "sl_ok ?s2" "sl_strings ?s2 = A @ ?line # B"
      using cnt al xs srt by (intro sl_okI [of _ "A @ ?line # B" r]; simp)+
    ultimately show ?thesis using xs match srt Some by auto
  qed
qed

theorem SetNameValue_existing_witness:
  "\<exists>sl'. SetNameValue (string_list_example [''A=1'', ''B=2'', ''C=3''] True) ''b'' (Some ''9'') = Some sl' \<and>
    bIsSorted sl' \<and> sl_ok sl'"
proof -
  let ?xs = "[''A=1'', ''B=2'', ''C=3'']"
  have s: "sorted (map kv_key ?xs)" by (simp add: kv_eval)
  have f: "FindName (string_list_example ?xs True) ''b'' = Some 1" by (simp add: find_eval string_list_example_def arr_strings_def)
  show ?thesis
    using SetNameValue_existing [of "string_list_example ?xs True" "''b''" 1 "Some ''9''"]
      string_list_example_ok [where srt = True and xs = ?xs] s f
    by (auto simp: kv_lines_def plain_key_def c_string_def)
qed

text \<open>Assigning a list from another one copies its lines, their order mark included, into a
  consistent list of its own; but when the other list is empty the assignment does nothing, and the
  target keeps the lines it had.\<close>

theorem assign_copy_result:
  assumes "sl_ok oOther"
  shows "if sl_strings oOther = [] then assign_copy sl oOther = sl
    else sl_ok (assign_copy sl oOther) \<and> sl_strings (assign_copy sl oOther) = sl_strings oOther \<and>
      bOwnList (assign_copy sl oOther) \<and> bIsSorted (assign_copy sl oOther) = bIsSorted oOther"
proof (cases "sl_strings oOther = []")
  case True
  then show ?thesis by (simp add: assign_copy_def CSLDuplicate_eq sl_strings_def)
next
  case False
  let ?xs = "sl_strings oOther"
  have d: "CSLDuplicate (arr_csl (papszList oOther)) = Some ?xs"
    using False by (simp add: CSLDuplicate_eq sl_strings_def)
  obtain arr where arr: "papszList oOther = Some arr"
    using False by (cases "papszList oOther") (auto simp: sl_strings_None)
  have n: "nCount oOther = - 1 \<or> nCount oOther = int (length ?xs)" "bIsSorted oOther \<longrightarrow> nCount oOther \<noteq> - 1"
    "bIsSorted oOther \<longrightarrow> sorted (map kv_key ?xs)"
    using assms arr by (auto simp: sl_ok_def sl_strings_arr)
  have p: "papszList (assign_copy sl oOther) = Some (map Some ?xs @ None # [])"
    by (simp add: assign_copy_def d Assign_def csl_arr_def)
  then have s: "sl_strings (assign_copy sl oOther) = ?xs" by (rule sl_strings_update)
  have "sl_ok (assign_copy sl oOther)"
    using n False p s unfolding sl_ok_def p option.case
    by (auto simp: assign_copy_def d Assign_def)
  with s False show ?thesis by (simp add: assign_copy_def d Assign_def)
qed

theorem assign_copy_result_witness:
  "assign_copy (string_list_example [''old''] False) (string_list_example [] False) =
     string_list_example [''old''] False"
  using assign_copy_result [of "string_list_example [] False" "string_list_example [''old''] False"]
    string_list_example_ok [where srt = False and xs = "[]"]
  by simp

text \<open>Sort marks a list sorted rightly: given a \<open>qsort\<close> that permutes its array into the order
  of the comparison, the lines are the old ones, in the order the binary searches rely on.\<close>

theorem Sort_sorts:
  assumes "sl_ok sl" "growable sl" "list_all c_string (sl_strings sl)"
    and qsort_permutes: "\<And>cmp ys. mset (qsort cmp ys) = mset ys"
    and qsort_orders: "\<And>ys. list_all c_string ys \<Longrightarrow>
      sorted_wrt (\<lambda>a b. CPLCompareKeyValueString a b \<le> 0) (qsort CPLCompareKeyValueString ys)"
  shows "sl_ok (Sort qsort sl) \<and> bIsSorted (Sort qsort sl) \<and>
    mset (sl_strings (Sort qsort sl)) = mset (sl_strings sl)"
proof -
  let ?xs = "sl_strings sl" and ?ys = "qsort CPLCompareKeyValueString (sl_strings sl)"
  note c = Count_ok [OF assms(1)]
  have "growable (Count sl)" using assms(2) c by (auto simp: growable_def)
  then obtain s1 where M: "MakeOurOwnCopy (Count sl) = (True, s1)" and ok: "sl_ok s1"
    and str: "sl_strings s1 = ?xs" and cnt: "nCount s1 = int (length ?xs)"
    using MakeOurOwnCopy_ok [OF c(1)] c by auto
  have len: "length ?ys = length ?xs" using qsort_permutes by (metis size_mset)
  have "list_all c_string ?ys" using assms(3) mset_eq_setD [OF qsort_permutes] by (simp add: list_all_iff)
  then have sorted: "sorted (map kv_key ?ys)"
    using qsort_orders [OF assms(3)] sorted_by_compare by simp
  show ?thesis
  proof (cases "papszList s1")
    case None
    then have "Sort qsort sl = s1\<lparr>bIsSorted := True\<rparr>" "?xs = []"
      using M str cnt by (auto simp: Sort_def sl_strings_None)
    then show ?thesis using ok None str by (simp add: sl_ok_def sl_strings_None)
  next
    case (Some arr)
    obtain r where r: "arr = map Some ?xs @ None # r"
      and al: "nAllocation s1 \<le> int (length ?xs) + 1 + int (length r)"
      using sl_arr [OF ok Some] str by metis
    let ?s2 = "(s1\<lparr>papszList := Some (map Some ?ys @ None # r)\<rparr>)\<lparr>bIsSorted := True\<rparr>"
    have "Sort qsort sl = ?s2"
    proof (cases "?xs = []")
      case True
      then have "?ys = []" using len by simp
      with True show ?thesis using M Some r cnt by (simp add: Sort_def)
    next
      case False
      then show ?thesis using M Some r cnt by (simp add: Sort_def comp_def)
    qed
    moreover have "sl_ok ?s2" "sl_strings ?s2 = ?ys"
      using cnt al len sorted by (intro sl_okI [of _ ?ys r]; simp)+
    ultimately show ?thesis using qsort_permutes by simp
  qed
qed


theorem Sort_sorts_witness:
  "sl_ok (Sort (\<lambda>cmp. sort_key kv_key) (string_list_example [''B=1'', ''A=2''] False)) \<and>
   bIsSorted (Sort (\<lambda>cmp. sort_key kv_key) (string_list_example [''B=1'', ''A=2''] False))"
proof -
  let ?q = "\<lambda>cmp. sort_key kv_key :: string list \<Rightarrow> string list"
  have "sorted_wrt (\<lambda>a b. CPLCompareKeyValueString a b \<le> 0) (?q CPLCompareKeyValueString ys)"
    if "list_all c_string ys" for ys
    using that sorted_sort_key [of kv_key ys] sorted_by_compare [of "sort_key kv_key ys"]
    by (simp add: list_all_iff)
  then show ?thesis
    using Sort_sorts [of "string_list_example [''B=1'', ''A=2''] False" ?q]
      string_list_example_ok [where srt = False and xs = "[''B=1'', ''A=2'']"]
    by (simp add: c_string_def)
qed

end
