(* ===== verification/Utf8.thy ===== *)
theory Utf8
  imports Prelude
begin

section \<open>Character set conversion without iconv (port/cpl_recode_stub.cpp, port/cpl_recode.cpp)\<close>

text \<open>
  The UTF-8 decoder, the four converters of cpl_recode_stub.cpp and the functions above them, as
  compiled on a platform with 32 bit \<open>wchar_t\<close> (the \<open>_WIN32\<close> branches are left out, and
  \<open>ERRORS_TO_ISO8859_1\<close>, \<open>ERRORS_TO_CP1252\<close> are 1 and \<open>STRICT_RFC3629\<close> is 0 as in the
  source).  The pointers \<open>p\<close> and \<open>e\<close> of a converter are the list of the bytes between them;
  the destination is the array \<open>dst\<close>, every store into it checked.  Lengths are natural numbers:
  the code's \<open>unsigned\<close> counters do not wrap for sources below 1 GB.
\<close>

subsection \<open>Decoding one character\<close>

definition cp1252 :: "nat list" where
  "cp1252 =
     [0x20ac, 0x0081, 0x201a, 0x0192, 0x201e, 0x2026, 0x2020, 0x2021,
      0x02c6, 0x2030, 0x0160, 0x2039, 0x0152, 0x008d, 0x017d, 0x008f,
      0x0090, 0x2018, 0x2019, 0x201c, 0x201d, 0x2022, 0x2013, 0x2014,
      0x02dc, 0x2122, 0x0161, 0x203a, 0x0153, 0x009d, 0x017e, 0x0178]"

text \<open>\<open>s\<close> holds the bytes from \<open>p\<close> up to \<open>end\<close>; the result is the code and \<open>*len\<close>.\<close>

definition utf8_at :: "string \<Rightarrow> nat \<Rightarrow> nat" where
  "utf8_at s i = (if i < length s then ccode (s ! i) else 0)"

definition utf8decode :: "string \<Rightarrow> nat \<times> nat" where
  "utf8decode s =
     (let c = utf8_at s 0;
          fail = (c, 1);
          utf8_3 =
            (if 2 \<ge> length s \<or> utf8_at s 2 AND 0xc0 \<noteq> 0x80 then fail
             else (push_bit 12 (utf8_at s 0 AND 0x0f) + push_bit 6 (utf8_at s 1 AND 0x3f) +
                   (utf8_at s 2 AND 0x3f), 3));
          utf8_4 =
            (if 3 \<ge> length s \<or> utf8_at s 2 AND 0xc0 \<noteq> 0x80 \<or> utf8_at s 3 AND 0xc0 \<noteq> 0x80 then fail
             else (push_bit 18 (utf8_at s 0 AND 0x07) + push_bit 12 (utf8_at s 1 AND 0x3f) +
                   push_bit 6 (utf8_at s 2 AND 0x3f) + (utf8_at s 3 AND 0x3f), 4))
      in if c < 0x80 then (c, 1)
         else if c < 0xa0 then (cp1252 ! (c - 0x80), 1)
         else if c < 0xc2 then fail
         else if 1 \<ge> length s \<or> utf8_at s 1 AND 0xc0 \<noteq> 0x80 then fail
         else if c < 0xe0 then (push_bit 6 (utf8_at s 0 AND 0x1f) + (utf8_at s 1 AND 0x3f), 2)
         else if c = 0xe0 then (if utf8_at s 1 < 0xa0 then fail else utf8_3)
         else if c < 0xf0 then utf8_3
         else if c = 0xf0 then (if utf8_at s 1 < 0x90 then fail else utf8_4)
         else if c < 0xf4 then utf8_4
         else if c = 0xf4 then (if utf8_at s 1 > 0x8f then fail else utf8_4)
         else fail)"

lemma utf8decode_len: "1 \<le> snd (utf8decode s)" "snd (utf8decode s) \<le> 4"
  by (simp_all add: utf8decode_def Let_def)

lemma utf8decode_len_bound: "s \<noteq> [] \<Longrightarrow> snd (utf8decode s) \<le> length s"
  by (cases s) (auto simp: utf8decode_def Let_def Suc_le_eq)

definition is_ascii :: "char \<Rightarrow> bool" where
  "is_ascii c \<longleftrightarrow> ccode c AND 0x80 = 0"

subsection \<open>The converters\<close>

text \<open>Each converter first fills the destination and, when it is full, goes on to count the rest
  of the source; the counting loop is the function \<open>_measure\<close>.\<close>

function utf8_measure :: "string \<Rightarrow> nat \<Rightarrow> nat" where
  "utf8_measure [] count = count"
| "utf8_measure (c # s) count =
     (if is_ascii c then utf8_measure s (count + 1)
      else let (ucs, len) = utf8decode (c # s)
           in utf8_measure (drop len (c # s)) (count + 1))"
  by pat_completeness auto
termination
proof (relation "measure (\<lambda>(s, count). length s)")
  fix c s count x ucs len
  assume "x = utf8decode (c # s)" "(ucs, len) = x"
  then have "1 \<le> len" using utf8decode_len(1) [of "c # s"] by (metis snd_conv)
  then show "((drop len (c # s), count + 1), (c # s, count)) \<in> measure (\<lambda>(s, count). length s)"
    by simp
qed auto

text \<open>utf8towc: the body of the first loop decodes one wide character.\<close>

definition utf8towc_next :: "string \<Rightarrow> u32 \<times> string" where
  "utf8towc_next s =
     (if is_ascii (hd s) then (of_nat (ccode (hd s)), tl s)
      else let (ucs, len) = utf8decode s in (of_nat ucs, drop len s))"

lemma utf8towc_next_rest: "s \<noteq> [] \<Longrightarrow> length (snd (utf8towc_next s)) < length s"
  using utf8decode_len(1) [of s]
  by (cases s) (auto simp: utf8towc_next_def split: prod.splits)

function utf8towc_loop ::
    "string \<Rightarrow> u32 list \<Rightarrow> nat \<Rightarrow> nat \<Rightarrow> (nat \<times> u32 list) option" where
  "utf8towc_loop s dst dstlen count =
     (if s = [] then do {
        dst \<leftarrow> arr_set dst (int count) 0;
        Some (count, dst)
      } else let (w, s') = utf8towc_next s in do {
        dst \<leftarrow> arr_set dst (int count) w;
        if count + 1 = dstlen then do {
          dst \<leftarrow> arr_set dst (int (count + 1) - 1) 0;
          Some (utf8_measure s' (count + 1), dst)
        } else utf8towc_loop s' dst dstlen (count + 1)
      })"
  by pat_completeness auto
termination
proof (relation "measure (\<lambda>(s, dst, dstlen, count). length s)")
  fix s :: string and dst dst' :: "u32 list" and dstlen count x w s'
  assume "s \<noteq> []" "x = utf8towc_next s" "(w, s') = x"
  then show "((s', dst', dstlen, count + 1), (s, dst, dstlen, count))
      \<in> measure (\<lambda>(s, dst, dstlen, count). length s)"
    using utf8towc_next_rest [of s] by (metis (no_types, lifting) case_prod_conv in_measure snd_conv)
qed simp

declare utf8towc_loop.simps [simp del]

definition utf8towc :: "string \<Rightarrow> u32 list \<Rightarrow> nat \<Rightarrow> (nat \<times> u32 list) option" where
  "utf8towc src dst dstlen =
     (if dstlen \<noteq> 0 then utf8towc_loop src dst dstlen 0 else Some (utf8_measure src 0, dst))"

text \<open>utf8toa: the next byte, and whether the character had to be replaced.\<close>

definition utf8toa_next :: "string \<Rightarrow> char \<times> bool \<times> string" where
  "utf8toa_next s =
     (if ccode (hd s) < 0xC2 then (hd s, False, tl s)
      else let (ucs, len) = utf8decode s
           in if ucs < 0x100 then (char_of ucs, False, drop len s)
              else (CHR ''?'', True, drop len s))"

lemma utf8toa_next_rest: "s \<noteq> [] \<Longrightarrow> length (snd (snd (utf8toa_next s))) < length s"
  using utf8decode_len(1) [of s]
  by (cases s) (auto simp: utf8toa_next_def split: prod.splits)

text \<open>The flag \<open>bHaveWarned4\<close> is threaded through the loop.\<close>

function utf8toa_loop ::
    "string \<Rightarrow> string \<Rightarrow> nat \<Rightarrow> nat \<Rightarrow> bool \<Rightarrow> (nat \<times> string \<times> bool) option" where
  "utf8toa_loop s dst dstlen count bHaveWarned4 =
     (if s = [] then do {
        dst \<leftarrow> arr_set dst (int count) NUL;
        Some (count, dst, bHaveWarned4)
      } else let (c, lost, s') = utf8toa_next s in do {
        dst \<leftarrow> arr_set dst (int count) c;
        if count + 1 \<ge> dstlen then do {
          dst \<leftarrow> arr_set dst (int (count + 1) - 1) NUL;
          Some (utf8_measure s' (count + 1), dst, bHaveWarned4 \<or> lost)
        } else utf8toa_loop s' dst dstlen (count + 1) (bHaveWarned4 \<or> lost)
      })"
  by pat_completeness auto
termination
proof (relation "measure (\<lambda>(s, dst, dstlen, count, w). length s)")
  fix s dst dst' :: string and dstlen count w x c lost y s'
  assume "s \<noteq> []" "x = utf8toa_next s" "(c, y) = x" "(lost, s') = y"
  then show "((s', dst', dstlen, count + 1, w \<or> lost), (s, dst, dstlen, count, w))
      \<in> measure (\<lambda>(s, dst, dstlen, count, w). length s)"
    using utf8toa_next_rest [of s] by (metis (no_types, lifting) case_prod_conv in_measure snd_conv)
qed simp

declare utf8toa_loop.simps [simp del]

definition utf8toa :: "string \<Rightarrow> string \<Rightarrow> nat \<Rightarrow> bool \<Rightarrow> (nat \<times> string \<times> bool) option" where
  "utf8toa src dst dstlen bHaveWarned4 =
     (if dstlen \<noteq> 0 then utf8toa_loop src dst dstlen 0 bHaveWarned4
      else Some (utf8_measure src 0, dst, bHaveWarned4))"

text \<open>utf8fromwc.\<close>

fun utf8fromwc_measure :: "u32 list \<Rightarrow> nat \<Rightarrow> nat" where
  "utf8fromwc_measure [] count = count"
| "utf8fromwc_measure (w # src) count =
     (let ucs = unat w
      in if ucs < 0x80 then utf8fromwc_measure src (count + 1)
         else if ucs < 0x800 then utf8fromwc_measure src (count + 2)
         else if ucs \<ge> 0x10000 \<and> ucs \<le> 0x10ffff then utf8fromwc_measure src (count + 4)
         else utf8fromwc_measure src (count + 3))"

fun utf8fromwc_loop :: "string \<Rightarrow> nat \<Rightarrow> u32 list \<Rightarrow> nat \<Rightarrow> (nat \<times> string) option" where
  "utf8fromwc_loop dst dstlen [] count = do {
     dst \<leftarrow> arr_set dst (int count) NUL;
     Some (count, dst)
   }"
| "utf8fromwc_loop dst dstlen (w # src) count =
     (let ucs = unat w in
      if ucs < 0x80 then do {
        dst \<leftarrow> arr_set dst (int count) (char_of ucs);
        if count + 1 \<ge> dstlen then do {
          dst \<leftarrow> arr_set dst (int (count + 1) - 1) NUL;
          Some (utf8fromwc_measure src (count + 1), dst)
        } else utf8fromwc_loop dst dstlen src (count + 1)
      }
      else if ucs < 0x800 then
        (if count + 2 \<ge> dstlen then do {
           dst \<leftarrow> arr_set dst (int count) NUL;
           Some (utf8fromwc_measure src (count + 2), dst)
         } else do {
           dst \<leftarrow> arr_set dst (int count) (char_of (0xc0 OR drop_bit 6 ucs));
           dst \<leftarrow> arr_set dst (int (count + 1)) (char_of (0x80 OR (ucs AND 0x3F)));
           utf8fromwc_loop dst dstlen src (count + 2)
         })
      else if ucs \<ge> 0x10000 \<and> \<not> ucs > 0x10ffff then
        (if count + 4 \<ge> dstlen then do {
           dst \<leftarrow> arr_set dst (int count) NUL;
           Some (utf8fromwc_measure src (count + 4), dst)
         } else do {
           dst \<leftarrow> arr_set dst (int count) (char_of (0xf0 OR drop_bit 18 ucs));
           dst \<leftarrow> arr_set dst (int (count + 1)) (char_of (0x80 OR (drop_bit 12 ucs AND 0x3F)));
           dst \<leftarrow> arr_set dst (int (count + 2)) (char_of (0x80 OR (drop_bit 6 ucs AND 0x3F)));
           dst \<leftarrow> arr_set dst (int (count + 3)) (char_of (0x80 OR (ucs AND 0x3F)));
           utf8fromwc_loop dst dstlen src (count + 4)
         })
      else let ucs = (if ucs \<ge> 0x10000 then 0xfffd else ucs) in
        (if count + 3 \<ge> dstlen then do {
           dst \<leftarrow> arr_set dst (int count) NUL;
           Some (utf8fromwc_measure src (count + 3), dst)
         } else do {
           dst \<leftarrow> arr_set dst (int count) (char_of (0xe0 OR drop_bit 12 ucs));
           dst \<leftarrow> arr_set dst (int (count + 1)) (char_of (0x80 OR (drop_bit 6 ucs AND 0x3F)));
           dst \<leftarrow> arr_set dst (int (count + 2)) (char_of (0x80 OR (ucs AND 0x3F)));
           utf8fromwc_loop dst dstlen src (count + 3)
         }))"

definition utf8fromwc :: "string \<Rightarrow> nat \<Rightarrow> u32 list \<Rightarrow> (nat \<times> string) option" where
  "utf8fromwc dst dstlen src =
     (if dstlen \<noteq> 0 then utf8fromwc_loop dst dstlen src 0
      else Some (utf8fromwc_measure src 0, dst))"

text \<open>utf8froma.\<close>

fun utf8froma_measure :: "string \<Rightarrow> nat \<Rightarrow> nat" where
  "utf8froma_measure [] count = count"
| "utf8froma_measure (c # src) count =
     (if ccode c < 0x80 then utf8froma_measure src (count + 1)
      else utf8froma_measure src (count + 2))"

fun utf8froma_loop :: "string \<Rightarrow> nat \<Rightarrow> string \<Rightarrow> nat \<Rightarrow> (nat \<times> string) option" where
  "utf8froma_loop dst dstlen [] count = do {
     dst \<leftarrow> arr_set dst (int count) NUL;
     Some (count, dst)
   }"
| "utf8froma_loop dst dstlen (c # src) count =
     (let ucs = ccode c in
      if ucs < 0x80 then do {
        dst \<leftarrow> arr_set dst (int count) (char_of ucs);
        if count + 1 \<ge> dstlen then do {
          dst \<leftarrow> arr_set dst (int (count + 1) - 1) NUL;
          Some (utf8froma_measure src (count + 1), dst)
        } else utf8froma_loop dst dstlen src (count + 1)
      }
      else if count + 2 \<ge> dstlen then do {
        dst \<leftarrow> arr_set dst (int count) NUL;
        Some (utf8froma_measure src (count + 2), dst)
      } else do {
        dst \<leftarrow> arr_set dst (int count) (char_of (0xc0 OR drop_bit 6 ucs));
        dst \<leftarrow> arr_set dst (int (count + 1)) (char_of (0x80 OR (ucs AND 0x3F)));
        utf8froma_loop dst dstlen src (count + 2)
      })"

definition utf8froma :: "string \<Rightarrow> nat \<Rightarrow> string \<Rightarrow> (nat \<times> string) option" where
  "utf8froma dst dstlen src =
     (if dstlen \<noteq> 0 then utf8froma_loop dst dstlen src 0
      else Some (utf8froma_measure src 0, dst))"

subsection \<open>Testing for UTF-8\<close>

function utf8test_loop :: "string \<Rightarrow> nat \<Rightarrow> nat" where
  "utf8test_loop [] ret = ret"
| "utf8test_loop (c # s) ret =
     (if c = NUL then 0
      else if \<not> is_ascii c then
        let (ucs, len) = utf8decode (c # s)
        in if len < 2 then 0
           else utf8test_loop (drop len (c # s)) (if len > ret then len else ret)
      else utf8test_loop s ret)"
  by pat_completeness auto
termination
  by (relation "measure (\<lambda>(s, ret). length s)") auto

definition utf8test :: "string \<Rightarrow> nat" where
  "utf8test src = utf8test_loop src 1"

text \<open>The text to test is in memory: \<open>mem\<close> holds its bytes and whatever follows, and \<open>strlen\<close>
  needs a terminator in it.\<close>

fun c_strlen :: "string \<Rightarrow> nat option" where
  "c_strlen [] = None"
| "c_strlen (c # m) = (if c = NUL then Some 0 else map_option Suc (c_strlen m))"

definition CPLIsUTF8Stub :: "string \<Rightarrow> int \<Rightarrow> bool option" where
  "CPLIsUTF8Stub pabyData nLen = do {
     nLen \<leftarrow> (if nLen < 0 then map_option size_to_int (c_strlen pabyData) else Some nLen);
     let srclen = int_to_unsigned nLen in
     if srclen \<le> length pabyData then Some (utf8test (take srclen pabyData) \<noteq> 0) else None
   }"

definition CPLIsUTF8 :: "string \<Rightarrow> int \<Rightarrow> bool option" where
  "CPLIsUTF8 pabyData nLen = CPLIsUTF8Stub pabyData nLen"


subsection \<open>The contract of a bounded converter\<close>

text \<open>
  All four converters have one contract, stated for a source that is converted unit by unit: a
  step gives the elements that stand for the next character and the rest of the source.  The
  destination gets as many whole characters as fit before its last place, then a zero, and the
  returned count is that of the full conversion, whatever the size of the destination.
\<close>

primrec chunks_upto :: "('a list \<Rightarrow> 'b list \<times> 'a list) \<Rightarrow> nat \<Rightarrow> 'a list \<Rightarrow> 'b list list" where
  "chunks_upto step 0 s = []"
| "chunks_upto step (Suc n) s =
     (if s = [] then [] else fst (step s) # chunks_upto step n (snd (step s)))"

definition chunks :: "('a list \<Rightarrow> 'b list \<times> 'a list) \<Rightarrow> 'a list \<Rightarrow> 'b list list" where
  "chunks step s = chunks_upto step (length s) s"

fun fit :: "nat \<Rightarrow> 'b list list \<Rightarrow> 'b list" where
  "fit n [] = []"
| "fit n (c # cs) = (if length c \<le> n then c @ fit (n - length c) cs else [])"

lemma fit_length: "length (fit n cs) \<le> n"
  by (induction n cs rule: fit.induct) auto

lemma fit_all: "length (concat cs) \<le> n \<Longrightarrow> fit n cs = concat cs"
  by (induction n cs rule: fit.induct) auto

lemma fit_prefix: "\<exists>k. fit n cs = concat (take k cs)"
proof (induction n cs rule: fit.induct)
  case (2 n c cs)
  show ?case
  proof (cases "length c \<le> n")
    case True
    with 2 obtain k where "fit (n - length c) cs = concat (take k cs)" by blast
    with True show ?thesis by (intro exI [of _ "Suc k"]) simp
  next
    case False
    then show ?thesis by (intro exI [of _ 0]) simp
  qed
qed simp

lemma fit_singletons: "fit n (map (\<lambda>x. [x]) xs) = take n xs"
  by (induction xs arbitrary: n) (auto simp: take_Cons split: nat.split)

locale bounded_converter =
  fixes step :: "'a list \<Rightarrow> 'b list \<times> 'a list"
    and zero :: 'b
    and conv :: "'a list \<Rightarrow> 'b list \<Rightarrow> nat \<Rightarrow> nat \<Rightarrow> (nat \<times> 'b list) option"
    and count_rest :: "'a list \<Rightarrow> nat \<Rightarrow> nat"
  assumes step_progress: "s \<noteq> [] \<Longrightarrow> length (snd (step s)) < length s"
    and step_units: "s \<noteq> [] \<Longrightarrow> fst (step s) \<noteq> []"
    and rest_end: "count_rest [] k = k"
    and rest_step: "s \<noteq> [] \<Longrightarrow> count_rest s k = count_rest (snd (step s)) (k + length (fst (step s)))"
    and conv_end: "k < n \<Longrightarrow> n \<le> length d \<Longrightarrow> conv [] d n k = Some (k, d[k := zero])"
    and conv_fits: "s \<noteq> [] \<Longrightarrow> n \<le> length d \<Longrightarrow> k + length (fst (step s)) < n \<Longrightarrow>
      conv s d n k = conv (snd (step s)) (overwrite d k (fst (step s))) n (k + length (fst (step s)))"
    and conv_full: "s \<noteq> [] \<Longrightarrow> n \<le> length d \<Longrightarrow> k < n \<Longrightarrow> n \<le> k + length (fst (step s)) \<Longrightarrow>
      conv s d n k = Some (count_rest (snd (step s)) (k + length (fst (step s))), d[k := zero])"
begin

lemma chunks_upto_enough: "length s \<le> n \<Longrightarrow> chunks_upto step n s = chunks step s"
  unfolding chunks_def
proof (induction n arbitrary: s rule: less_induct)
  case (less n)
  show ?case
  proof (cases "s = []")
    case True
    then show ?thesis by (cases n) auto
  next
    case False
    then obtain m where n: "n = Suc m" using less.prems by (cases n) auto
    obtain l where l: "length s = Suc l" using False by (cases s) auto
    have "length (snd (step s)) \<le> l" using step_progress [OF False] l by simp
    then have "length (snd (step s)) \<le> m" "l \<le> m" using less.prems n l by auto
    with less.IH [of m "snd (step s)"] less.IH [of l "snd (step s)"] n l False
      \<open>length (snd (step s)) \<le> l\<close> less.prems
    show ?thesis by (cases "l = m") auto
  qed
qed

lemma chunks_Nil: "chunks step [] = []"
  by (simp add: chunks_def)

lemma chunks_step: "s \<noteq> [] \<Longrightarrow> chunks step s = fst (step s) # chunks step (snd (step s))"
proof -
  assume s: "s \<noteq> []"
  then obtain l where l: "length s = Suc l" by (cases s) auto
  have "chunks step s = fst (step s) # chunks_upto step l (snd (step s))"
    using s l by (simp add: chunks_def)
  also have "chunks_upto step l (snd (step s)) = chunks step (snd (step s))"
    using step_progress [OF s] l by (intro chunks_upto_enough) simp
  finally show ?thesis .
qed

lemma rest_counts: "count_rest s k = k + length (concat (chunks step s))"
proof (induction s arbitrary: k rule: measure_induct_rule [of length])
  case (less s)
  show ?case
  proof (cases "s = []")
    case False
    with less [OF step_progress [OF False]] show ?thesis
      by (simp add: rest_step [OF False] chunks_step [OF False])
  qed (simp add: rest_end chunks_Nil)
qed

lemma converts:
  "k < n \<Longrightarrow> n \<le> length d \<Longrightarrow>
   conv s d n k = Some (k + length (concat (chunks step s)),
                        overwrite d k (fit (n - 1 - k) (chunks step s) @ [zero]))"
proof (induction s arbitrary: d k rule: measure_induct_rule [of length])
  case (less s)
  show ?case
  proof (cases "s = []")
    case True
    with less.prems show ?thesis by (simp add: conv_end chunks_Nil)
  next
    case False
    let ?u = "fst (step s)"
    show ?thesis
    proof (cases "k + length ?u < n")
      case True
      then have le: "length ?u \<le> n - Suc k" by simp
      from True less.IH [OF step_progress [OF False], of "k + length ?u" "overwrite d k ?u"] less.prems
      show ?thesis
        by (simp add: add.assoc le conv_fits [OF False _ True] chunks_step [OF False] overwrite_append)
    next
      case full: False
      then have "n \<le> k + length ?u" by simp
      with less.prems full show ?thesis
        by (auto simp: conv_full [OF False] chunks_step [OF False] rest_counts)
    qed
  qed
qed

end


subsection \<open>The four converters keep the contract\<close>

definition utf8_seq :: "nat \<Rightarrow> string" where
  "utf8_seq ucs =
     (if ucs < 0x80 then [char_of ucs]
      else if ucs < 0x800 then
        [char_of (0xc0 OR drop_bit 6 ucs), char_of (0x80 OR (ucs AND 0x3F))]
      else if ucs < 0x10000 then
        [char_of (0xe0 OR drop_bit 12 ucs), char_of (0x80 OR (drop_bit 6 ucs AND 0x3F)),
         char_of (0x80 OR (ucs AND 0x3F))]
      else
        [char_of (0xf0 OR drop_bit 18 ucs), char_of (0x80 OR (drop_bit 12 ucs AND 0x3F)),
         char_of (0x80 OR (drop_bit 6 ucs AND 0x3F)), char_of (0x80 OR (ucs AND 0x3F))])"

text \<open>A word that is no code point is sent as the replacement character.\<close>

definition wide_code :: "u32 \<Rightarrow> nat" where
  "wide_code w = (if unat w > 0x10ffff then 0xfffd else unat w)"

definition towc_step :: "string \<Rightarrow> u32 list \<times> string" where
  "towc_step s = ([fst (utf8towc_next s)], snd (utf8towc_next s))"

definition toa_step :: "string \<Rightarrow> string \<times> string" where
  "toa_step s = ([fst (utf8toa_next s)], snd (snd (utf8toa_next s)))"

definition fromwc_step :: "u32 list \<Rightarrow> string \<times> u32 list" where
  "fromwc_step ws = (utf8_seq (wide_code (hd ws)), tl ws)"

definition froma_step :: "string \<Rightarrow> string \<times> string" where
  "froma_step s = (utf8_seq (ccode (hd s)), tl s)"

lemma utf8_measure_next:
  "utf8_measure (c # s) k =
     utf8_measure (if is_ascii c then s else drop (snd (utf8decode (c # s))) (c # s)) (k + 1)"
  by (simp add: split_beta Let_def)

interpretation towc: bounded_converter towc_step 0 utf8towc_loop utf8_measure
proof (unfold_locales, goal_cases)
  case (1 s)
  then show ?case by (simp add: towc_step_def utf8towc_next_rest)
next
  case (4 s k)
  then show ?case
    by (cases s) (simp_all add: towc_step_def utf8towc_next_def utf8_measure_next split_beta
        del: utf8_measure.simps)
next
  case (6 s n d k)
  then show ?case
    by (subst utf8towc_loop.simps) (simp add: towc_step_def split_beta Let_def mem_simps)
next
  case (7 s n d k)
  then show ?case
    by (subst utf8towc_loop.simps) (auto simp: towc_step_def split_beta Let_def mem_simps)
qed (simp_all add: towc_step_def utf8towc_loop.simps mem_simps)

text \<open>The warning flag of utf8toa has no influence on the conversion.\<close>

definition utf8toa_conv :: "string \<Rightarrow> string \<Rightarrow> nat \<Rightarrow> nat \<Rightarrow> (nat \<times> string) option" where
  "utf8toa_conv s d n k = map_option (\<lambda>(k, d, w). (k, d)) (utf8toa_loop s d n k False)"

lemma utf8toa_loop_flag:
  "map_option (\<lambda>(k, d, w). (k, d)) (utf8toa_loop s d n k w) =
   map_option (\<lambda>(k, d, w). (k, d)) (utf8toa_loop s d n k w')"
proof (induction s d n k w arbitrary: w' rule: utf8toa_loop.induct)
  case (1 s d n k w)
  obtain c l r where nx: "utf8toa_next s = (c, l, r)" by (cases "utf8toa_next s")
  show ?case
  proof (cases "s = []")
    case True
    then show ?thesis by (simp add: utf8toa_loop.simps split: bind_splits)
  next
    case False
    show ?thesis
    proof (cases "arr_set d (int k) c")
      case None
      with False nx show ?thesis by (simp add: utf8toa_loop.simps)
    next
      case (Some d')
      show ?thesis
      proof (cases "k + 1 \<ge> n")
        case True
        with Some False nx show ?thesis
          by (simp add: utf8toa_loop.simps [of s] split: bind_splits)
      next
        case more: False
        have "map_option (\<lambda>(k, d, w). (k, d)) (utf8toa_loop r d' n (k + 1) (w \<or> l)) =
          map_option (\<lambda>(k, d, w). (k, d)) (utf8toa_loop r d' n (k + 1) (w' \<or> l))"
          by (rule 1 [OF False refl]) (use nx more Some in auto)
        with Some False nx more show ?thesis by (simp add: utf8toa_loop.simps [of s])
      qed
    qed
  qed
qed

lemma utf8toa_conv_loop:
  "map_option (\<lambda>(k, d, w). (k, d)) (utf8toa_loop s d n k w) = utf8toa_conv s d n k"
  unfolding utf8toa_conv_def by (rule utf8toa_loop_flag)

lemma utf8decode_bad: "ccode c < 0xC2 \<Longrightarrow> snd (utf8decode (c # s)) = 1"
  by (simp add: utf8decode_def utf8_at_def Let_def)

lemma is_ascii_iff: "is_ascii c \<longleftrightarrow> ccode c < 0x80"
proof -
  have "ccode c div 128 < 2" using ccode_less [of c] by simp
  then show ?thesis
    using and_exp_eq_0_iff_not_bit [of "ccode c" 7] by (auto simp: is_ascii_def bit_iff_odd)
qed

interpretation toa: bounded_converter toa_step NUL utf8toa_conv utf8_measure
proof (unfold_locales, goal_cases)
  case (1 s)
  then show ?case by (simp add: toa_step_def utf8toa_next_rest)
next
  case (4 s k)
  then obtain c r where s: "s = c # r" by (cases s) auto
  show ?case
    unfolding s utf8_measure_next
    by (simp add: toa_step_def utf8toa_next_def split_beta Let_def is_ascii_iff utf8decode_bad)
next
  case (6 s n d k)
  obtain c l r where nx: "utf8toa_next s = (c, l, r)" by (cases "utf8toa_next s")
  with 6 show ?case
    by (subst utf8toa_conv_def, subst utf8toa_loop.simps)
      (simp add: toa_step_def mem_simps utf8toa_conv_loop)
next
  case (7 s n d k)
  obtain c l r where nx: "utf8toa_next s = (c, l, r)" by (cases "utf8toa_next s")
  with 7 show ?case
    by (simp add: utf8toa_conv_def utf8toa_loop.simps [of s] toa_step_def mem_simps)
qed (simp_all add: toa_step_def utf8toa_conv_def utf8toa_loop.simps mem_simps)

lemma count_shift:
  "k + 2 = Suc (Suc k)" "k + 3 = Suc (Suc (Suc k))" "k + 4 = Suc (Suc (Suc (Suc k)))"
  "nat (1 + int k) = Suc k" "nat (2 + int k) = Suc (Suc k)" "nat (3 + int k) = Suc (Suc (Suc k))"
  by auto

interpretation fromwc: bounded_converter fromwc_step NUL
  "\<lambda>ws d n k. utf8fromwc_loop d n ws k" utf8fromwc_measure
proof (unfold_locales, goal_cases)
  case (4 s k)
  then show ?case
    by (cases s) (simp_all add: fromwc_step_def wide_code_def utf8_seq_def Let_def count_shift)
next
  case (6 s n d k)
  then show ?case
    by (cases s) (simp_all add: fromwc_step_def wide_code_def utf8_seq_def Let_def mem_simps count_shift
        split: if_splits)
next
  case (7 s n d k)
  then show ?case
    by (cases s) (simp_all add: fromwc_step_def wide_code_def utf8_seq_def Let_def mem_simps count_shift
        split: if_splits)
qed (simp_all add: fromwc_step_def utf8_seq_def mem_simps)

interpretation froma: bounded_converter froma_step NUL
  "\<lambda>s d n k. utf8froma_loop d n s k" utf8froma_measure
proof (unfold_locales, goal_cases)
  case (4 s k)
  then show ?case
    using ccode_less [of "hd s"] by (cases s) (simp_all add: froma_step_def utf8_seq_def)
next
  case (6 s n d k)
  then show ?case
    using ccode_less [of "hd s"]
    by (cases s) (simp_all add: froma_step_def utf8_seq_def Let_def mem_simps count_shift split: if_splits)
next
  case (7 s n d k)
  then show ?case
    using ccode_less [of "hd s"]
    by (cases s) (simp_all add: froma_step_def utf8_seq_def Let_def mem_simps count_shift split: if_splits)
qed (simp_all add: froma_step_def utf8_seq_def mem_simps)


subsection \<open>The decoder undoes the encoder\<close>

text \<open>The bytes of a sequence in arithmetic.\<close>

lemma utf8_seq_eq:
  assumes "ucs \<le> 0x10ffff"
  shows "utf8_seq ucs =
     (if ucs < 0x80 then [char_of ucs]
      else if ucs < 0x800 then [char_of (0xc0 + ucs div 64), char_of (0x80 + ucs mod 64)]
      else if ucs < 0x10000 then
        [char_of (0xe0 + ucs div 4096), char_of (0x80 + ucs div 64 mod 64),
         char_of (0x80 + ucs mod 64)]
      else
        [char_of (0xf0 + ucs div 262144), char_of (0x80 + ucs div 4096 mod 64),
         char_of (0x80 + ucs div 64 mod 64), char_of (0x80 + ucs mod 64)])"
  using assms
  by (auto simp: utf8_seq_def and_mask_nat drop_bit_eq_div or_prefix_nat less_mult_imp_div_less
      simp del: char_of_eq_iff)

lemma cont_byte: "x < 64 \<Longrightarrow> (0x80 + x) AND 0xc0 = (0x80::nat)"
  by (simp add: and_0xc0)

lemma prefix_mod:
  "x < 64 \<Longrightarrow> (128 + x) mod 64 = (x::nat)" "x < 32 \<Longrightarrow> (192 + x) mod 32 = (x::nat)"
  "x < 16 \<Longrightarrow> (224 + x) mod 16 = (x::nat)" "x < 8 \<Longrightarrow> (240 + x) mod 8 = (x::nat)"
  using mod_mult_self2 [of x 64 2] mod_mult_self2 [of x 32 6] mod_mult_self2 [of x 16 14]
    mod_mult_self2 [of x 8 30] by (simp_all add: add.commute)

lemma base64_digits:
  "(n::nat) = 4096 * (n div 4096) + 64 * (n div 64 mod 64) + n mod 64"
  "(n::nat) = 262144 * (n div 262144) + 4096 * (n div 4096 mod 64) + 64 * (n div 64 mod 64) + n mod 64"
proof -
  have q: "n div 4096 = n div 64 div 64" "n div 262144 = n div 4096 div 64"
    by (simp_all flip: div_mult2_eq)
  show "n = 4096 * (n div 4096) + 64 * (n div 64 mod 64) + n mod 64"
    using div_mult_mod_eq [of n 64] div_mult_mod_eq [of "n div 64" 64] q by linarith
  then show "n = 262144 * (n div 262144) + 4096 * (n div 4096 mod 64) + 64 * (n div 64 mod 64) + n mod 64"
    using div_mult_mod_eq [of "n div 4096" 64] q by linarith
qed

lemmas decode_simps = utf8decode_def utf8_at_def Let_def and_mask_nat cont_byte push_bit_eq_mult
  prefix_mod

lemma utf8decode_seq:
  assumes "0x80 \<le> ucs" "ucs \<le> 0x10ffff"
  shows "utf8decode (utf8_seq ucs @ r) = (ucs, length (utf8_seq ucs))"
proof -
  consider (two) "ucs < 0x800" | (three) "0x800 \<le> ucs" "ucs < 0x10000" | (four) "0x10000 \<le> ucs"
    by linarith
  then show ?thesis
  proof cases
    case two
    define a b where ab: "a = ucs div 64" "b = ucs mod 64"
    then have u: "ucs = 64 * a + b" "b < 64" by auto
    with two assms have "2 \<le> a" "a < 32" by auto
    with u two assms show ?thesis
      unfolding utf8_seq_eq [OF assms(2)] by (simp add: decode_simps flip: ab)
  next
    case three
    define a b c where abc: "a = ucs div 4096" "b = ucs div 64 mod 64" "c = ucs mod 64"
    then have u: "ucs = 4096 * a + 64 * b + c" and bc: "b < 64" "c < 64"
      using base64_digits(1) [of ucs] by simp_all
    have a: "a < 16" "0 < a \<or> 32 \<le> b" using u three bc by linarith+
    from three bc a have "utf8decode (utf8_seq ucs @ r) = (4096 * a + 64 * b + c, 3)"
      unfolding utf8_seq_eq [OF assms(2)] by (auto simp: decode_simps simp flip: abc)
    then show ?thesis using three by (simp add: utf8_seq_def u)
  next
    case four
    define a b c d where abcd: "a = ucs div 262144" "b = ucs div 4096 mod 64"
      "c = ucs div 64 mod 64" "d = ucs mod 64"
    then have u: "ucs = 262144 * a + 4096 * b + 64 * c + d" and bc: "b < 64" "c < 64" "d < 64"
      using base64_digits(2) [of ucs] by simp_all
    have a: "a \<le> 4" "0 < a \<or> 16 \<le> b" "a < 4 \<or> b \<le> 15" using u four bc assms by linarith+
    from four bc a have "utf8decode (utf8_seq ucs @ r) = (262144 * a + 4096 * b + 64 * c + d, 4)"
      unfolding utf8_seq_eq [OF assms(2)] by (auto simp: decode_simps simp flip: abcd)
    then show ?thesis using four by (simp add: utf8_seq_def u)
  qed
qed


text \<open>And what the decoder accepts as a sequence of several bytes is one of the encoder.\<close>

lemma cont_byte_split:
  assumes "n AND 0xc0 = (0x80::nat)" "n < 256"
  shows "n = 128 + n mod 64"
proof -
  have "n div 64 mod 4 = 2" using assms(1) by (simp add: and_0xc0)
  moreover have "n div 64 < 4" using assms(2) by auto
  ultimately have "n div 64 = 2" by simp
  then show ?thesis using div_mult_mod_eq [of n 64] by simp
qed

lemma nth_ccode_less: "i < length s \<Longrightarrow> ccode (s ! i) < 256"
  by (rule ccode_less)

lemma char_of_eq_ccode: "ccode c = n \<Longrightarrow> char_of n = c"
  by auto

lemma mod_64: "x < 64 \<Longrightarrow> (x + 64 * y) mod 64 = (x::nat)"
  by simp

lemma digits3:
  fixes a b c :: nat
  assumes "b < 64" "c < 64" "n = 4096 * a + 64 * b + c"
  shows "n div 4096 = a" "n div 64 mod 64 = b" "n mod 64 = c"
proof -
  have n: "n = c + 64 * (b + 64 * a)" using assms(3) by simp
  show "n mod 64 = c" unfolding n by (rule mod_64 [OF assms(2)])
  have "n div 64 = b + 64 * a" "n div 4096 = a" using assms by auto
  then show "n div 64 mod 64 = b" "n div 4096 = a" using assms(1) by (simp_all only: mod_64)
qed

lemma digits4:
  fixes a b c d :: nat
  assumes "b < 64" "c < 64" "d < 64" "n = 262144 * a + 4096 * b + 64 * c + d"
  shows "n div 262144 = a" "n div 4096 mod 64 = b" "n div 64 mod 64 = c" "n mod 64 = d"
proof -
  have n: "n = 4096 * (64 * a + b) + 64 * c + d" using assms(4) by simp
  note d3 = digits3 [OF assms(2,3) n]
  show "n div 64 mod 64 = c" "n mod 64 = d" by (rule d3)+
  have "n div 4096 = b + 64 * a" using d3(1) by simp
  then show "n div 4096 mod 64 = b" using assms(1) by (simp only: mod_64)
  show "n div 262144 = a" using assms by auto
qed

lemma utf8decode_inverse:
  assumes "s \<noteq> []" "utf8decode s = (ucs, len)" "2 \<le> len"
  shows "0x80 \<le> ucs \<and> ucs \<le> 0x10ffff \<and> take len s = utf8_seq ucs"
proof -
  obtain c0 t where s0: "s = c0 # t" using assms(1) by (cases s) auto
  have len: "len \<le> length s" using utf8decode_len_bound [OF assms(1)] assms(2) by simp
  then obtain c1 t1 where s: "s = c0 # c1 # t1" using assms(3) s0 by (cases t) auto
  have c1: "ccode c1 AND 0xc0 = 0x80" "0xc2 \<le> ccode c0"
    using assms(2,3) unfolding s by (auto simp: utf8decode_def utf8_at_def Let_def split: if_splits)
  define b where "b = ccode c1 mod 64"
  have b: "ccode c1 = 128 + b" "b < 64"
    using cont_byte_split [OF c1(1) ccode_less] by (simp_all add: b_def)
  consider "len = 2" | "len = 3" | "len = 4"
    using assms(2,3) utf8decode_len(2) [of s] by fastforce
  then show ?thesis
  proof cases
    case 1
    define a where "a = ccode c0 - 192"
    have a: "ccode c0 = 192 + a" "2 \<le> a" "a < 32"
      using assms(2) c1 1 unfolding s a_def
      by (auto simp: utf8decode_def utf8_at_def Let_def split: if_splits)
    have "ucs = 64 * a + b"
      using assms(2) a b 1 unfolding s by (auto simp: decode_simps split: if_splits)
    with a b 1 show ?thesis
      unfolding s by (auto simp: utf8_seq_eq intro!: char_of_eq_ccode [symmetric])
  next
    case 2
    then obtain c2 t2 where t1: "t1 = c2 # t2" using len s by (cases t1) auto
    define a where "a = ccode c0 - 224"
    have a: "ccode c0 = 224 + a" "a < 16" and c2: "ccode c2 AND 0xc0 = 0x80" and
      ab: "0 < a \<or> 32 \<le> b"
      using assms(2) c1 b 2 unfolding s t1 a_def
      by (auto simp: utf8decode_def utf8_at_def Let_def split: if_splits)
    define c where "c = ccode c2 mod 64"
    have c: "ccode c2 = 128 + c" "c < 64"
      using cont_byte_split [OF c2 ccode_less] by (simp_all add: c_def)
    have u: "ucs = 4096 * a + 64 * b + c"
      using assms(2) a b c 2 ab unfolding s t1 by (auto simp: decode_simps split: if_splits)
    have r: "0x800 \<le> ucs" "ucs < 0x10000" using u a b c ab by auto
    with digits3 [OF b(2) c(2) u] r a b c 2 show ?thesis
      unfolding s t1 by (auto simp: utf8_seq_eq intro!: char_of_eq_ccode [symmetric])
  next
    case 3
    then obtain c2 c3 t3 where t1: "t1 = c2 # c3 # t3"
      using len s by (cases t1; cases "tl t1") auto
    define a where "a = ccode c0 - 240"
    have a: "ccode c0 = 240 + a" "a \<le> 4"
      and c2: "ccode c2 AND 0xc0 = 0x80" "ccode c3 AND 0xc0 = 0x80"
      and ab: "0 < a \<or> 16 \<le> b" "a < 4 \<or> b \<le> 15"
      using assms(2) c1 b 3 unfolding s t1 a_def
      by (auto simp: utf8decode_def utf8_at_def Let_def split: if_splits)
    define c d where "c = ccode c2 mod 64" and "d = ccode c3 mod 64"
    then have c: "ccode c2 = 128 + c" "c < 64" and d: "ccode c3 = 128 + d" "d < 64"
      using cont_byte_split [OF c2(1) ccode_less] cont_byte_split [OF c2(2) ccode_less] by simp_all
    have u: "ucs = 262144 * a + 4096 * b + 64 * c + d"
      using assms(2) a b c d 3 ab unfolding s t1 by (auto simp: decode_simps split: if_splits)
    have r: "0x10000 \<le> ucs" "ucs \<le> 0x10ffff" using u a b c d ab by auto
    with digits4 [OF b(2) c(2) d(2) u] r a b c d 3 show ?thesis
      unfolding s t1 by (auto simp: utf8_seq_eq intro!: char_of_eq_ccode [symmetric])
  qed
qed


subsection \<open>The functions above the converters\<close>

text \<open>Results are C strings, read from a buffer up to its terminator.  A fresh buffer is taken to
  hold zeros: the contract above shows that nothing but what was written is read.  The state is
  the static warning flags and whether an error is pending (\<open>CPLGetLastErrorType () != 0\<close>); the
  model is that of the build without iconv.\<close>

record recode_state =
  bHaveWarned1 :: bool
  bHaveWarned2 :: bool
  bHaveWarned3 :: bool
  bHaveWarned4 :: bool
  bHaveWarned5 :: bool
  bHaveWarned6 :: bool
  err_pending :: bool

text \<open>The state of a fresh process: no warning was given.\<close>

definition no_warnings :: recode_state where
  "no_warnings = \<lparr>bHaveWarned1 = False, bHaveWarned2 = False, bHaveWarned3 = False, bHaveWarned4 = False,
     bHaveWarned5 = False, bHaveWarned6 = False, err_pending = False\<rparr>"

abbreviation CPL_ENC_UTF8 :: string where "CPL_ENC_UTF8 \<equiv> ''UTF-8''"
abbreviation CPL_ENC_UTF16 :: string where "CPL_ENC_UTF16 \<equiv> ''UTF-16''"
abbreviation CPL_ENC_UCS2 :: string where "CPL_ENC_UCS2 \<equiv> ''UCS-2''"
abbreviation CPL_ENC_UCS4 :: string where "CPL_ENC_UCS4 \<equiv> ''UCS-4''"
abbreviation CPL_ENC_ASCII :: string where "CPL_ENC_ASCII \<equiv> ''ASCII''"
abbreviation CPL_ENC_ISO8859_1 :: string where "CPL_ENC_ISO8859_1 \<equiv> ''ISO-8859-1''"

definition CPLClearRecodeStubWarningFlags :: "recode_state \<Rightarrow> recode_state" where
  "CPLClearRecodeStubWarningFlags st =
     st\<lparr>bHaveWarned1 := False, bHaveWarned2 := False, bHaveWarned3 := False,
        bHaveWarned4 := False, bHaveWarned5 := False, bHaveWarned6 := False\<rparr>"

text \<open>The length of the text is cast to \<open>int\<close> and the size of the result computed from it: \<open>None\<close> when that
  overflows, or is negative, which no allocation serves.\<close>

definition recode_froma :: "string \<Rightarrow> string option" where
  "recode_froma pszSource = do {
     let nCharCount = size_to_int (length pszSource);
     nDouble \<leftarrow> c_int (nCharCount * 2);
     nSize \<leftarrow> c_int (nDouble + 1);
     if nSize < 1 then None
     else map_option (\<lambda>(n, d). c_str d)
            (utf8froma (replicate (nat nSize) NUL) (nat nSize) (take (nat nCharCount) pszSource))
   }"

definition recode_toa :: "recode_state \<Rightarrow> string \<Rightarrow> (string \<times> recode_state) option" where
  "recode_toa st pszSource = do {
     let nCharCount = size_to_int (length pszSource);
     nSize \<leftarrow> c_int (nCharCount + 1);
     if nSize < 1 then None
     else map_option (\<lambda>(n, d, w). (c_str d, st\<lparr>bHaveWarned4 := w,
             err_pending := err_pending st \<or> (w \<and> \<not> bHaveWarned4 st)\<rparr>))
           (utf8toa (take (nat nCharCount) pszSource) (replicate (nat nSize) NUL) (nat nSize) (bHaveWarned4 st))
   }"

definition CPLRecodeStub ::
    "recode_state \<Rightarrow> string \<Rightarrow> string \<Rightarrow> string \<Rightarrow> (string \<times> recode_state) option" where
  "CPLRecodeStub st pszSource pszSrcEncoding pszDstEncoding =
     (let pszSrcEncoding = (if c_at pszSrcEncoding 0 = NUL then CPL_ENC_ISO8859_1 else pszSrcEncoding);
          pszDstEncoding = (if c_at pszDstEncoding 0 = NUL then CPL_ENC_ISO8859_1 else pszDstEncoding)
      in if pszSrcEncoding = CPL_ENC_ISO8859_1 \<and> pszDstEncoding = CPL_ENC_UTF8
         then map_option (\<lambda>d. (d, st)) (recode_froma pszSource)
         else if pszSrcEncoding = CPL_ENC_UTF8 \<and> pszDstEncoding = CPL_ENC_ISO8859_1
         then recode_toa st pszSource
         else if pszDstEncoding = CPL_ENC_UTF8
         then let st = (if \<not> bHaveWarned1 st then st\<lparr>bHaveWarned1 := True, err_pending := True\<rparr> else st)
              in map_option (\<lambda>d. (d, st)) (recode_froma pszSource)
         else if pszSrcEncoding = CPL_ENC_UTF8 \<and> pszDstEncoding = CPL_ENC_ISO8859_1
         then let st = (if \<not> bHaveWarned2 st then st\<lparr>bHaveWarned2 := True, err_pending := True\<rparr> else st)
              in recode_toa st pszSource
         else let st = (if \<not> bHaveWarned3 st then st\<lparr>bHaveWarned3 := True, err_pending := True\<rparr> else st)
              in Some (pszSource, st))"

text \<open>The wide source is the list of its words before the terminating zero; the inner option is
  the NULL result, and a failed assertion is an access out of the model's reach.\<close>

definition CPLRecodeFromWCharStub ::
    "recode_state \<Rightarrow> u32 list \<Rightarrow> string \<Rightarrow> string \<Rightarrow> (string option \<times> recode_state) option" where
  "CPLRecodeFromWCharStub st pwszSource pszSrcEncoding pszDstEncoding =
     (if pszSrcEncoding \<noteq> ''WCHAR_T'' \<and> pszSrcEncoding \<noteq> CPL_ENC_UTF8 \<and>
         pszSrcEncoding \<noteq> CPL_ENC_UTF16 \<and> pszSrcEncoding \<noteq> CPL_ENC_UCS2 \<and>
         pszSrcEncoding \<noteq> CPL_ENC_UCS4
      then Some (None, st\<lparr>err_pending := True\<rparr>)
      else do {
        nSrcLen \<leftarrow> c_int (int (length pwszSource));
        nWords \<leftarrow> c_int (nSrcLen * 4);
        nDstBufSize \<leftarrow> c_int (nWords + 1);
        if nSrcLen = 0 then Some (Some [], st)
        else do {
          (nDstLen, pszResult) \<leftarrow> utf8fromwc (replicate (nat nDstBufSize) NUL) (nat nDstBufSize) pwszSource;
          if int nDstLen \<ge> nDstBufSize then Some (None, st)
          else if pszDstEncoding = CPL_ENC_UTF8 then Some (Some (c_str pszResult), st)
          else map_option (\<lambda>(d, st). (Some d, st))
                 (CPLRecodeStub st (c_str pszResult) CPL_ENC_UTF8 pszDstEncoding)
        }
      })"

definition CPLRecodeToWCharStub ::
    "recode_state \<Rightarrow> string \<Rightarrow> string \<Rightarrow> string \<Rightarrow> (u32 list option \<times> recode_state) option" where
  "CPLRecodeToWCharStub st pszSource pszSrcEncoding pszDstEncoding =
     (case (if pszSrcEncoding \<noteq> CPL_ENC_UTF8 \<and> pszSrcEncoding \<noteq> CPL_ENC_ASCII
            then CPLRecodeStub st pszSource pszSrcEncoding CPL_ENC_UTF8
            else Some (pszSource, st)) of
        None \<Rightarrow> None
      | Some (pszUTF8Source, st) \<Rightarrow>
          if pszDstEncoding \<noteq> ''WCHAR_T'' \<and> pszDstEncoding \<noteq> CPL_ENC_UCS2 \<and>
             pszDstEncoding \<noteq> CPL_ENC_UCS4 \<and> pszDstEncoding \<noteq> CPL_ENC_UTF16
          then Some (None, st\<lparr>err_pending := True\<rparr>)
          else do {
            let nSrcLen = size_to_int (length pszUTF8Source);
            nSize \<leftarrow> c_int (nSrcLen + 1);
            if nSize < 1 then None
            else map_option (\<lambda>(n, d). (Some (takeWhile (\<lambda>w. w \<noteq> 0) d), st))
                   (utf8towc (take (nat nSrcLen) pszUTF8Source) (replicate (nat nSize) 0) (nat nSize))
          })"

definition CPLRecode ::
    "recode_state \<Rightarrow> string \<Rightarrow> string \<Rightarrow> string \<Rightarrow> (string \<times> recode_state) option" where
  "CPLRecode st pszSource pszSrcEncoding pszDstEncoding =
     (if EQUAL pszSrcEncoding pszDstEncoding then Some (pszSource, st)
      else if EQUAL pszSrcEncoding CPL_ENC_ASCII \<and>
              (EQUAL pszDstEncoding CPL_ENC_UTF8 \<or> EQUAL pszDstEncoding CPL_ENC_ISO8859_1)
      then Some (pszSource, st)
      else if EQUAL pszSrcEncoding ''CP437'' \<and> EQUAL pszDstEncoding CPL_ENC_UTF8 \<and>
              list_all (\<lambda>c. 32 \<le> ccode c \<and> ccode c \<le> 126) pszSource
      then Some (pszSource, st)
      else CPLRecodeStub st pszSource pszSrcEncoding pszDstEncoding)"

definition CPLRecodeFromWChar ::
    "recode_state \<Rightarrow> u32 list \<Rightarrow> string \<Rightarrow> string \<Rightarrow> (string option \<times> recode_state) option" where
  "CPLRecodeFromWChar st pwszSource pszSrcEncoding pszDstEncoding =
     CPLRecodeFromWCharStub st pwszSource pszSrcEncoding pszDstEncoding"

definition CPLRecodeToWChar ::
    "recode_state \<Rightarrow> string \<Rightarrow> string \<Rightarrow> string \<Rightarrow> (u32 list option \<times> recode_state) option" where
  "CPLRecodeToWChar st pszSource pszSrcEncoding pszDstEncoding =
     CPLRecodeToWCharStub st pszSource pszSrcEncoding pszDstEncoding"

definition CPLCanRecode :: "recode_state \<Rightarrow> string \<Rightarrow> string \<Rightarrow> string \<Rightarrow> (bool \<times> recode_state) option" where
  "CPLCanRecode st pszTestStr pszSrcEncoding pszDstEncoding =
     (let st = (CPLClearRecodeStubWarningFlags st)\<lparr>err_pending := False\<rparr>
      in map_option (\<lambda>(d, st). (\<not> err_pending st, st))
           (CPLRecode st pszTestStr pszSrcEncoding pszDstEncoding))"

fun CPLStrlenUTF8_loop :: "nat \<Rightarrow> string \<Rightarrow> nat" where
  "CPLStrlenUTF8_loop nCharacterCount [] = nCharacterCount"
| "CPLStrlenUTF8_loop nCharacterCount (c # s) =
     CPLStrlenUTF8_loop (if ccode c AND 0xc0 \<noteq> 0x80 then nCharacterCount + 1 else nCharacterCount) s"

text \<open>The index of the loop, which the count never passes, is an \<open>int\<close>.\<close>

definition CPLStrlenUTF8 :: "string \<Rightarrow> nat option" where
  "CPLStrlenUTF8 pszUTF8Str =
     do { i \<leftarrow> c_int (int (length pszUTF8Str)); Some (CPLStrlenUTF8_loop 0 pszUTF8Str) }"

text \<open>\<open>nLen\<close> is a \<open>size_t\<close>, \<open>None\<close> being its largest value \<open>static_cast<size_t> (-1)\<close>.\<close>

definition CPLIsASCII :: "string \<Rightarrow> nat option \<Rightarrow> bool option" where
  "CPLIsASCII pabyData nLen = do {
     nLen \<leftarrow> (case nLen of None \<Rightarrow> c_strlen pabyData | Some n \<Rightarrow> Some n);
     if nLen \<le> length pabyData then Some (list_all (\<lambda>c. \<not> ccode c > 127) (take nLen pabyData)) else None
   }"

definition CPLForceToASCII :: "string \<Rightarrow> int \<Rightarrow> char \<Rightarrow> string option" where
  "CPLForceToASCII pabyData nLen chReplacementChar = do {
     nLen \<leftarrow> (if nLen < 0 then map_option size_to_int (c_strlen pabyData) else Some nLen);
     nSize \<leftarrow> c_int (nLen + 1);
     if 0 \<le> nLen \<and> nat nLen \<le> length pabyData
     then Some (map (\<lambda>c. if ccode c > 127 then chReplacementChar else c) (take (nat nLen) pabyData) @ [NUL])
     else None
   }"

definition CPLEncodingCharSize :: "string \<Rightarrow> int" where
  "CPLEncodingCharSize pszEncoding =
     (if EQUAL pszEncoding CPL_ENC_UTF8 then 1
      else if EQUAL pszEncoding CPL_ENC_UTF16 \<or> EQUAL pszEncoding ''UTF-16LE'' then 2
      else if EQUAL pszEncoding CPL_ENC_UCS2 \<or> EQUAL pszEncoding ''UCS-2LE'' then 2
      else if EQUAL pszEncoding CPL_ENC_UCS4 then 4
      else if EQUAL pszEncoding CPL_ENC_ASCII then 1
      else if STARTS_WITH_CI pszEncoding ''ISO-8859-'' then 1
      else - 1)"


subsection \<open>Text made of code points\<close>

definition utf8_text :: "nat list \<Rightarrow> string" where
  "utf8_text us = concat (map utf8_seq us)"

definition code_points :: "nat list \<Rightarrow> bool" where
  "code_points us \<longleftrightarrow> (\<forall>u\<in>set us. u \<le> 0x10ffff)"

lemma utf8_text_simps [simp]:
  "utf8_text [] = []" "utf8_text (u # us) = utf8_seq u @ utf8_text us"
  by (simp_all add: utf8_text_def)

lemma code_points_simps [simp]:
  "code_points []" "code_points (u # us) \<longleftrightarrow> u \<le> 0x10ffff \<and> code_points us"
  by (auto simp: code_points_def)

lemma utf8_seq_nonempty [simp]: "utf8_seq u \<noteq> []"
  by (simp add: utf8_seq_def)

lemma utf8_seq_ascii: "u < 0x80 \<Longrightarrow> utf8_seq u = [char_of u]"
  by (simp add: utf8_seq_def)

lemma utf8_seq_lead:
  "0x80 \<le> u \<Longrightarrow> u \<le> 0x10ffff \<Longrightarrow> \<exists>c t. utf8_seq u = c # t \<and> 0xC2 \<le> ccode c \<and> t \<noteq> []"
  by (auto simp: utf8_seq_eq div_le_mono less_mult_imp_div_less)

lemma utf8decode_text:
  assumes "0x80 \<le> u" "u \<le> 0x10ffff" "utf8_seq u @ r = c # s"
  shows "\<not> is_ascii c" "0xC2 \<le> ccode c" "c \<noteq> NUL" "utf8decode (c # s) = (u, length (utf8_seq u))"
    "drop (length (utf8_seq u)) (c # s) = r" "2 \<le> length (utf8_seq u)"
proof -
  obtain c' t where ct: "utf8_seq u = c' # t" "0xC2 \<le> ccode c'" "t \<noteq> []"
    using utf8_seq_lead [OF assms(1,2)] by blast
  with assms(3) have "c' = c" by simp
  with ct show "\<not> is_ascii c" "0xC2 \<le> ccode c" "c \<noteq> NUL" "2 \<le> length (utf8_seq u)"
    by (auto simp: is_ascii_iff ccode_def Suc_le_eq)
  show "utf8decode (c # s) = (u, length (utf8_seq u))"
    using utf8decode_seq [OF assms(1,2), of r] assms(3) by simp
  show "drop (length (utf8_seq u)) (c # s) = r" by (simp flip: assms(3))
qed

lemma utf8towc_next_text:
  assumes "u \<le> 0x10ffff"
  shows "utf8towc_next (utf8_seq u @ r) = (of_nat u, r)"
proof (cases "u < 0x80")
  case True
  then show ?thesis by (simp add: utf8_seq_ascii utf8towc_next_def is_ascii_iff)
next
  case False
  obtain c s where cs: "utf8_seq u @ r = c # s" by (cases "utf8_seq u @ r") auto
  with utf8decode_text [OF _ assms cs] False show ?thesis by (simp add: utf8towc_next_def)
qed

lemma utf8toa_next_text:
  assumes "u \<le> 0x10ffff"
  shows "utf8toa_next (utf8_seq u @ r) =
    (if u < 0x100 then char_of u else CHR ''?'', \<not> u < 0x100, r)"
proof (cases "u < 0x80")
  case True
  then show ?thesis by (simp add: utf8_seq_ascii utf8toa_next_def)
next
  case False
  obtain c s where cs: "utf8_seq u @ r = c # s" by (cases "utf8_seq u @ r") auto
  with utf8decode_text [OF _ assms cs] False show ?thesis by (simp add: utf8toa_next_def)
qed

lemma chunks_towc_text: "code_points us \<Longrightarrow> chunks towc_step (utf8_text us) = map (\<lambda>u. [of_nat u]) us"
  by (induction us) (simp_all add: towc.chunks_Nil towc.chunks_step towc_step_def utf8towc_next_text)

lemma chunks_toa_text:
  "code_points us \<Longrightarrow>
   chunks toa_step (utf8_text us) = map (\<lambda>u. [if u < 0x100 then char_of u else CHR ''?'']) us"
  by (induction us) (simp_all add: toa.chunks_Nil toa.chunks_step toa_step_def utf8toa_next_text)

lemma step_Cons:
  "fromwc_step (w # ws) = (utf8_seq (wide_code w), ws)"
  "froma_step (c # s) = (utf8_seq (ccode c), s)"
  by (simp_all add: fromwc_step_def froma_step_def)

lemma chunks_fromwc: "chunks fromwc_step ws = map (\<lambda>w. utf8_seq (wide_code w)) ws"
  by (induction ws) (simp_all add: fromwc.chunks_Nil fromwc.chunks_step step_Cons)

lemma chunks_froma: "chunks froma_step s = map (\<lambda>c. utf8_seq (ccode c)) s"
  by (induction s) (simp_all add: froma.chunks_Nil froma.chunks_step step_Cons)

lemma wide_code_le [simp]: "wide_code w \<le> 0x10ffff"
  by (simp add: wide_code_def)

lemma code_points_wide [simp]: "code_points (map wide_code ws)"
  by (simp add: code_points_def)

lemma code_points_latin1 [simp]: "code_points (map ccode s)"
proof -
  have "ccode c \<le> 0x10ffff" for c using ccode_less [of c] by simp
  then show ?thesis by (simp add: code_points_def)
qed

text \<open>The test accepts exactly the encoded texts, and its result is the longest sequence.\<close>

lemma char_of_NUL: "(u::nat) \<le> 0x7f \<Longrightarrow> char_of u = NUL \<longleftrightarrow> u = 0"
proof -
  assume u: "u \<le> 0x7f"
  have "ccode (char_of u) = u" "ccode NUL = 0" using u by (simp, simp add: ccode_def)
  then show ?thesis by (metis char_of_ccode)
qed

lemma utf8test_loop_text:
  "code_points us \<Longrightarrow> 0 \<notin> set us \<Longrightarrow> 1 \<le> ret \<Longrightarrow>
   utf8test_loop (utf8_text us) ret = fold max (map (\<lambda>u. length (utf8_seq u)) us) ret"
proof (induction us arbitrary: ret)
  case (Cons u us)
  show ?case
  proof (cases "u < 0x80")
    case True
    then have "char_of u \<noteq> NUL" using Cons.prems char_of_NUL [of u] by simp
    with True Cons show ?thesis by (simp add: utf8_seq_ascii is_ascii_iff)
  next
    case False
    obtain c s where cs: "utf8_seq u @ utf8_text us = c # s"
      by (cases "utf8_seq u @ utf8_text us") auto
    have u: "0x80 \<le> u" "u \<le> 0x10ffff" using False Cons.prems by auto
    note dec = utf8decode_text [OF u cs]
    have "utf8test_loop (c # s) ret = utf8test_loop (utf8_text us) (max (length (utf8_seq u)) ret)"
      using dec by (simp add: max_def)
    also have "\<dots> = fold max (map (\<lambda>u. length (utf8_seq u)) us) (max (length (utf8_seq u)) ret)"
      by (rule Cons.IH) (use Cons.prems in auto)
    finally show ?thesis using cs by simp
  qed
qed simp

lemma utf8test_loop_sound:
  "1 \<le> ret \<Longrightarrow> utf8test_loop s ret \<noteq> 0 \<Longrightarrow>
   \<exists>us. s = utf8_text us \<and> code_points us \<and> 0 \<notin> set us"
proof (induction s ret rule: utf8test_loop.induct)
  case (1 ret)
  have "[] = utf8_text []" "code_points []" "0 \<notin> set ([]::nat list)" by simp_all
  then show ?case by blast
next
  case (2 c s ret)
  then have c: "c \<noteq> NUL" by (auto split: if_splits)
  show ?case
  proof (cases "is_ascii c")
    case True
    with 2 c obtain us where us: "s = utf8_text us" "code_points us" "0 \<notin> set us" by auto
    have "ccode c < 0x80" using True is_ascii_iff by simp
    moreover have "ccode c \<noteq> 0" using c by (metis char_of_ccode char_of_NUL zero_le)
    ultimately have "c # s = utf8_text (ccode c # us)" "code_points (ccode c # us)"
      "0 \<notin> set (ccode c # us)" using us by (auto simp: utf8_seq_ascii)
    then show ?thesis by blast
  next
    case False
    obtain u len where dec: "utf8decode (c # s) = (u, len)" by (cases "utf8decode (c # s)")
    have len: "2 \<le> len" using 2 c False dec by (auto split: if_splits)
    have nz: "utf8test_loop (drop len (c # s)) (if len > ret then len else ret) \<noteq> 0"
      using 2(4) c False dec len by simp
    have "\<exists>us. drop len (c # s) = utf8_text us \<and> code_points us \<and> 0 \<notin> set us"
      by (rule 2(1) [OF c False refl dec [symmetric]]) (use 2 len nz in auto)
    then obtain us where us: "drop len (c # s) = utf8_text us" "code_points us" "0 \<notin> set us" by blast
    have u: "0x80 \<le> u" "u \<le> 0x10ffff" "take len (c # s) = utf8_seq u"
      using utf8decode_inverse [OF _ dec len] by auto
    have "c # s = take len (c # s) @ drop len (c # s)" by simp
    then have "c # s = utf8_text (u # us)" using us u by simp
    moreover have "code_points (u # us)" "0 \<notin> set (u # us)" using us u by auto
    ultimately show ?thesis by blast
  qed
qed

lemma c_strlen_string: "c_string s \<Longrightarrow> c_strlen (s @ NUL # r) = Some (length s)"
  by (induction s) (auto simp: c_string_def)

text \<open>C22: CPLIsUTF8 accepts exactly the C strings (of less than 2^32 bytes, more is cut off by the cast of the length) that
  are a sequence of encoded code points up to 0x10ffff: the decoder takes no overlong, truncated or out of range sequence
  for a character, and none that the encoder produces is refused.\<close>

theorem CPLIsUTF8_iff:
  assumes "c_string s" and "length s < 2 ^ 32"
  shows "CPLIsUTF8 (s @ NUL # r) (- 1) =
    Some (\<exists>us. s = utf8_text us \<and> code_points us \<and> 0 \<notin> set us)"
proof -
  have "utf8test s \<noteq> 0 \<longleftrightarrow> (\<exists>us. s = utf8_text us \<and> code_points us \<and> 0 \<notin> set us)"
  proof
    assume "utf8test s \<noteq> 0"
    then show "\<exists>us. s = utf8_text us \<and> code_points us \<and> 0 \<notin> set us"
      using utf8test_loop_sound [of 1 s] by (simp add: utf8test_def)
  next
    assume "\<exists>us. s = utf8_text us \<and> code_points us \<and> 0 \<notin> set us"
    then obtain us where us: "s = utf8_text us" "code_points us" "0 \<notin> set us" by blast
    have "1 \<le> fold max (map (\<lambda>u. length (utf8_seq u)) us) (1::nat)"
      by (induction us rule: rev_induct) auto
    then show "utf8test s \<noteq> 0" using us by (simp add: utf8test_def utf8test_loop_text)
  qed
  then show ?thesis
    using assms(2) by (simp add: CPLIsUTF8_def CPLIsUTF8Stub_def c_strlen_string [OF assms(1)] int_to_unsigned_size)
qed

theorem CPLIsUTF8_iff_witness:
  "CPLIsUTF8 ([CHR ''a'', CHR 0xE2, CHR 0x82, CHR 0xAC] @ NUL # []) (- 1) = Some True"
proof -
  let ?s = "[CHR ''a'', CHR 0xE2, CHR 0x82, CHR 0xAC]"
  have "?s = utf8_text [97, 0x20ac]"
    by (simp add: utf8_text_def utf8_seq_eq char_of_def bit_0)
  then have "\<exists>us. ?s = utf8_text us \<and> code_points us \<and> 0 \<notin> set us"
    by (intro exI [of _ "[97, 0x20ac]"]) simp
  moreover have "c_string ?s" by (simp add: c_string_def)
  moreover have "length ?s < 2 ^ 32" by simp
  ultimately show ?thesis using CPLIsUTF8_iff [of ?s "[]"] by (simp only: simp_thms)
qed


subsection \<open>Round trips\<close>

lemma takeWhile_overwrite:
  assumes "length xs < length d" "z \<notin> set xs"
  shows "takeWhile (\<lambda>c. c \<noteq> z) (overwrite d 0 (xs @ [z])) = xs"
proof -
  have "overwrite d 0 (xs @ [z]) = xs @ z # drop (Suc (length xs)) d"
    using assms(1) by (subst overwrite_eq) auto
  then show ?thesis using takeWhile_stop [OF assms(2)] by (simp only:)
qed

lemma ccode_NUL: "ccode NUL = 0"
  by (simp add: ccode_def)

lemma utf8_seq_high:
  assumes "0x80 \<le> u" "u \<le> 0x10ffff" "c \<in> set (utf8_seq u)"
  shows "128 \<le> ccode c"
proof -
  have "u < 2048 \<Longrightarrow> u div 64 < 32" "u < 65536 \<Longrightarrow> u div 4096 < 16" "u div 262144 < 5"
    using assms(2) by (auto simp: less_mult_imp_div_less)
  then show ?thesis using assms by (auto simp: utf8_seq_eq split: if_splits)
qed

lemma utf8_seq_NUL: "u \<le> 0x10ffff \<Longrightarrow> NUL \<in> set (utf8_seq u) \<longleftrightarrow> u = 0"
  using utf8_seq_high [of u NUL] char_of_NUL [of u]
  by (cases "u < 0x80") (auto simp: utf8_seq_ascii ccode_NUL)

lemma utf8_text_NUL: "code_points us \<Longrightarrow> c_string (utf8_text us) \<longleftrightarrow> 0 \<notin> set us"
  by (induction us) (auto simp: c_string_def utf8_seq_NUL)

lemma utf8_seq_length: "length (utf8_seq u) \<le> 4" "u < 0x100 \<Longrightarrow> length (utf8_seq u) \<le> 2"
  by (simp_all add: utf8_seq_def)

lemma length_utf8_text: "length (utf8_text us) \<le> 4 * length us"
  using utf8_seq_length(1) by (induction us) (auto intro: add_mono)

lemma length_latin1_text: "length (utf8_text (map ccode s)) \<le> 2 * length s"
proof (induction s)
  case (Cons c s)
  have "length (utf8_seq (ccode c)) \<le> 2" using utf8_seq_length(2) ccode_less [of c] by simp
  with Cons show ?case by simp
qed simp

lemma utf8fromwc_all:
  assumes "dstlen \<le> length dst" "length (utf8_text (map wide_code ws)) < dstlen"
  shows "utf8fromwc dst dstlen ws =
    Some (length (utf8_text (map wide_code ws)), overwrite dst 0 (utf8_text (map wide_code ws) @ [NUL]))"
proof -
  have c: "concat (chunks fromwc_step ws) = utf8_text (map wide_code ws)"
    by (simp add: chunks_fromwc utf8_text_def comp_def)
  have "fit (dstlen - 1 - 0) (chunks fromwc_step ws) = utf8_text (map wide_code ws)"
    using assms(2) by (subst fit_all) (simp_all add: c)
  then show ?thesis
    using fromwc.converts [of 0 dstlen dst ws] assms by (simp add: utf8fromwc_def c)
qed

lemma utf8froma_all:
  assumes "dstlen \<le> length dst" "length (utf8_text (map ccode s)) < dstlen"
  shows "utf8froma dst dstlen s =
    Some (length (utf8_text (map ccode s)), overwrite dst 0 (utf8_text (map ccode s) @ [NUL]))"
proof -
  have c: "concat (chunks froma_step s) = utf8_text (map ccode s)"
    by (simp add: chunks_froma utf8_text_def comp_def)
  have "fit (dstlen - 1 - 0) (chunks froma_step s) = utf8_text (map ccode s)"
    using assms(2) by (subst fit_all) (simp_all add: c)
  then show ?thesis
    using froma.converts [of 0 dstlen dst s] assms by (simp add: utf8froma_def c)
qed

lemma utf8towc_all:
  assumes "dstlen \<le> length dst" "length us < dstlen" "code_points us"
  shows "utf8towc (utf8_text us) dst dstlen =
    Some (length us, overwrite dst 0 (map of_nat us @ [0]))"
proof -
  have c: "concat (chunks towc_step (utf8_text us)) = map of_nat us"
    by (simp add: chunks_towc_text [OF assms(3)] flip: map_map [unfolded comp_def])
  have "fit (dstlen - 1 - 0) (chunks towc_step (utf8_text us)) = map of_nat us"
    using assms(2) by (subst fit_all) (simp_all add: c)
  then show ?thesis
    using towc.converts [of 0 dstlen dst "utf8_text us"] assms by (simp add: utf8towc_def c)
qed


lemma of_nat_nonzero: "u \<le> 0x10ffff \<Longrightarrow> (of_nat u :: u32) = 0 \<longleftrightarrow> u = 0"
  by (auto simp: word_of_nat_eq_0_iff dest: dvd_imp_le)

lemma wide_code_0: "wide_code w = 0 \<longleftrightarrow> w = 0"
  by (auto simp: wide_code_def unsigned_eq_0_iff)

lemma CPLIsUTF8_text:
  "code_points us \<Longrightarrow> 0 \<notin> set us \<Longrightarrow> length (utf8_text us) < 2 ^ 32 \<Longrightarrow>
   CPLIsUTF8 (utf8_text us @ NUL # r) (- 1) = Some True"
proof -
  assume us: "code_points us" "0 \<notin> set us" "length (utf8_text us) < 2 ^ 32"
  have "1 \<le> fold max (map (\<lambda>u. length (utf8_seq u)) us) (1::nat)"
    by (induction us rule: rev_induct) auto
  then show ?thesis
    using us by (simp add: CPLIsUTF8_def CPLIsUTF8Stub_def c_strlen_string utf8_text_NUL
        utf8test_def utf8test_loop_text int_to_unsigned_size)
qed

lemma CPLRecodeFromWChar_text:
  assumes "0 \<notin> set ws" "4 * length ws + 1 < 2 ^ 31"
  shows "CPLRecodeFromWChar st ws ''WCHAR_T'' CPL_ENC_UTF8 =
    Some (Some (utf8_text (map wide_code ws)), st)"
proof (cases "ws = []")
  case True
  then show ?thesis by (simp add: CPLRecodeFromWChar_def CPLRecodeFromWCharStub_def c_int_def)
next
  case False
  let ?u = "utf8_text (map wide_code ws)" and ?n = "Suc (4 * length ws)"
  have len: "length ?u < ?n" using length_utf8_text [of "map wide_code ws"] by simp
  have "NUL \<notin> set ?u"
    using utf8_text_NUL [of "map wide_code ws"] assms(1)
    by (auto simp: c_string_def wide_code_0)
  then have c: "c_str (overwrite (replicate ?n NUL) 0 (?u @ [NUL])) = ?u"
    unfolding c_str_def using len by (intro takeWhile_overwrite) auto
  have u: "utf8fromwc (replicate ?n NUL) ?n ws =
      Some (length ?u, overwrite (replicate ?n NUL) 0 (?u @ [NUL]))"
    by (rule utf8fromwc_all) (use len in auto)
  have n: "c_int (int (length ws)) = Some (int (length ws))" "c_int (int (length ws) * 4) = Some (int (length ws) * 4)"
    "c_int (int (length ws) * 4 + 1) = Some (int ?n)"
    using assms(2) by (simp_all add: c_int_def)
  show ?thesis
    using False len unfolding CPLRecodeFromWChar_def CPLRecodeFromWCharStub_def
    by (simp add: n u c del: replicate.simps overwrite.simps replicate_Suc of_nat_add of_nat_Suc of_nat_mult)
qed

lemma CPLRecodeToWChar_text:
  assumes "code_points us" "0 \<notin> set us" "length (utf8_text us) < 2 ^ 31 - 1"
  shows "CPLRecodeToWChar st (utf8_text us) CPL_ENC_UTF8 ''WCHAR_T'' =
    Some (Some (map of_nat us), st)"
proof -
  let ?l = "length (utf8_text us)"
  let ?n = "Suc ?l"
  have len: "length us < ?n"
    by (induction us) (auto simp: utf8_seq_def)
  have nz: "0 \<notin> set (map of_nat us :: u32 list)"
    using assms of_nat_nonzero by (force simp: code_points_def)
  have t: "takeWhile (\<lambda>w. w \<noteq> 0) (overwrite (replicate ?n 0) 0 (map of_nat us @ [0])) =
      (map of_nat us :: u32 list)"
    by (rule takeWhile_overwrite [OF _ nz]) (use len in simp)
  have u: "utf8towc (utf8_text us) (replicate ?n 0) ?n =
      Some (length us, overwrite (replicate ?n 0) 0 (map of_nat us @ [0]))"
    by (rule utf8towc_all) (use len assms in auto)
  have n: "size_to_int ?l = int ?l" "c_int (int ?l + 1) = Some (int ?n)"
    using assms(3) by (simp_all add: size_to_int_small c_int_def)
  show ?thesis
    unfolding CPLRecodeToWChar_def CPLRecodeToWCharStub_def
    by (simp add: n u t Let_def del: replicate.simps overwrite.simps replicate_Suc of_nat_Suc)
qed

text \<open>C29: A wide string without zero words, of less than 2^29 - 1 words (the size of the text is computed as an
  \<open>int\<close>, four bytes for a word), converts to UTF-8 and back to itself, but for the words
  above 0x10ffff, which come back as the replacement character; the text in between is accepted by
  CPLIsUTF8, and no warning is given.\<close>

theorem CPLRecode_wide_roundtrip:
  assumes "0 \<notin> set ws" and "length ws < 2 ^ 29 - 1"
  shows "\<exists>u. CPLRecodeFromWChar st ws ''WCHAR_T'' CPL_ENC_UTF8 = Some (Some u, st) \<and>
    CPLIsUTF8 (u @ [NUL]) (- 1) = Some True \<and>
    CPLRecodeToWChar st u CPL_ENC_UTF8 ''WCHAR_T'' = Some (Some (map (of_nat \<circ> wide_code) ws), st)"
proof -
  have "0 \<notin> set (map wide_code ws)" using assms(1) by (auto simp: wide_code_0)
  moreover have "length (utf8_text (map wide_code ws)) \<le> 4 * length ws"
    using length_utf8_text [of "map wide_code ws"] by simp
  ultimately show ?thesis
    using CPLRecodeFromWChar_text [OF assms(1), of st] CPLIsUTF8_text [of "map wide_code ws" "[]"]
      CPLRecodeToWChar_text [of "map wide_code ws" st] assms(2)
    by simp
qed

theorem CPLRecode_wide_roundtrip_witness:
  "\<exists>u. CPLRecodeFromWChar no_warnings [0x41, 0x20AC, 0x110000] ''WCHAR_T'' CPL_ENC_UTF8 = Some (Some u, no_warnings) \<and>
    CPLRecodeToWChar no_warnings u CPL_ENC_UTF8 ''WCHAR_T'' = Some (Some [0x41, 0x20AC, 0xFFFD], no_warnings)"
  using CPLRecode_wide_roundtrip [of "[0x41, 0x20AC, 0x110000]" no_warnings]
  by (auto simp: wide_code_def)


subsection \<open>ISO-8859-1\<close>

lemma CPLStrlenUTF8_loop_append:
  "CPLStrlenUTF8_loop n (s @ t) = CPLStrlenUTF8_loop (CPLStrlenUTF8_loop n s) t"
  by (induction n s rule: CPLStrlenUTF8_loop.induct) auto

lemma lead_byte: "192 \<le> n \<Longrightarrow> n < 256 \<Longrightarrow> n AND 0xc0 \<noteq> (0x80::nat)"
proof -
  assume "192 \<le> n" "n < 256"
  then have "n div 64 = 3" by auto
  then show ?thesis by (simp add: and_0xc0)
qed

lemma CPLStrlenUTF8_seq:
  assumes "u \<le> 0x10ffff"
  shows "CPLStrlenUTF8_loop n (utf8_seq u) = n + 1"
proof (cases "u < 0x80")
  case True
  then have "u div 64 < 2" by auto
  then have "u div 64 mod 4 \<noteq> 2" by simp
  with True show ?thesis by (simp add: utf8_seq_ascii and_0xc0)
next
  case False
  have "u < 2048 \<Longrightarrow> u div 64 < 32" "u < 65536 \<Longrightarrow> u div 4096 < 16" "u div 262144 < 5"
    using assms by (auto simp: less_mult_imp_div_less)
  with False assms show ?thesis
    by (auto simp: utf8_seq_eq cont_byte lead_byte)
qed

lemma CPLStrlenUTF8_text:
  assumes "code_points us" "length (utf8_text us) < 2 ^ 31"
  shows "CPLStrlenUTF8 (utf8_text us) = Some (length us)"
proof -
  have "code_points us \<Longrightarrow> CPLStrlenUTF8_loop n (utf8_text us) = n + length us" for n
    by (induction us arbitrary: n) (simp_all add: CPLStrlenUTF8_loop_append CPLStrlenUTF8_seq)
  then show ?thesis
    using assms by (simp add: CPLStrlenUTF8_def c_int_def)
qed

text \<open>The flag of utf8toa after a conversion that is not truncated.\<close>

lemma utf8toa_flag:
  "code_points us \<Longrightarrow> k + length us < n \<Longrightarrow> n \<le> length d \<Longrightarrow>
   map_option (\<lambda>(k, d, w). w) (utf8toa_loop (utf8_text us) d n k w) =
     Some (w \<or> (\<exists>u\<in>set us. 0x100 \<le> u))"
proof (induction us arbitrary: d k w)
  case Nil
  then show ?case by (simp add: utf8toa_loop.simps mem_simps)
next
  case (Cons u us)
  have nx: "utf8toa_next (utf8_seq u @ utf8_text us) =
      (if u < 0x100 then char_of u else CHR ''?'', \<not> u < 0x100, utf8_text us)"
    using Cons.prems by (intro utf8toa_next_text) simp
  have "map_option (\<lambda>(k, d, w). w) (utf8toa_loop (utf8_seq u @ utf8_text us) d n k w) =
    map_option (\<lambda>(k, d, w). w) (utf8toa_loop (utf8_text us)
      (d[k := if u < 0x100 then char_of u else CHR ''?'']) n (k + 1) (w \<or> \<not> u < 0x100))"
    using Cons.prems nx by (subst utf8toa_loop.simps) (simp add: mem_simps)
  also have "\<dots> = Some ((w \<or> \<not> u < 0x100) \<or> (\<exists>u\<in>set us. 0x100 \<le> u))"
    by (rule Cons.IH) (use Cons.prems in auto)
  finally show ?case by (simp add: not_less)
qed


definition latin1_char :: "nat \<Rightarrow> char" where
  "latin1_char u = (if u < 0x100 then char_of u else CHR ''?'')"

lemma utf8toa_all:
  assumes "code_points us" "length us < dstlen" "dstlen \<le> length dst"
  shows "utf8toa (utf8_text us) dst dstlen w =
    Some (length us, overwrite dst 0 (map latin1_char us @ [NUL]), w \<or> (\<exists>u\<in>set us. 0x100 \<le> u))"
proof -
  have c: "concat (chunks toa_step (utf8_text us)) = map latin1_char us"
    by (simp add: chunks_toa_text [OF assms(1)] latin1_char_def flip: map_map [unfolded comp_def])
  have "fit (dstlen - 1 - 0) (chunks toa_step (utf8_text us)) = map latin1_char us"
    using assms(2) by (subst fit_all) (simp_all add: c)
  then have "utf8toa_conv (utf8_text us) dst dstlen 0 =
      Some (length us, overwrite dst 0 (map latin1_char us @ [NUL]))"
    using toa.converts [of 0 dstlen dst "utf8_text us"] assms by (simp add: c)
  then have "map_option (\<lambda>(k, d, w). (k, d)) (utf8toa_loop (utf8_text us) dst dstlen 0 w) =
      Some (length us, overwrite dst 0 (map latin1_char us @ [NUL]))"
    by (simp only: utf8toa_conv_loop)
  moreover have "map_option (\<lambda>(k, d, w). w) (utf8toa_loop (utf8_text us) dst dstlen 0 w) =
      Some (w \<or> (\<exists>u\<in>set us. 0x100 \<le> u))"
    by (rule utf8toa_flag) (use assms in auto)
  ultimately show ?thesis
    using assms(2) by (cases "utf8toa_loop (utf8_text us) dst dstlen 0 w") (auto simp: utf8toa_def)
qed

lemma ccode_eq_0: "ccode c = 0 \<longleftrightarrow> c = NUL" "0 = ccode c \<longleftrightarrow> c = NUL"
  using ccode_inject [of c NUL] by (auto simp: ccode_NUL)

lemma latin1_codes_nonzero: "c_string s \<Longrightarrow> 0 \<notin> set (map ccode s)"
  by (auto simp: c_string_def ccode_eq_0)

lemma latin1_char_NUL: "u \<noteq> 0 \<Longrightarrow> latin1_char u \<noteq> NUL"
  using ccode_eq_0 [of "char_of u"] by (auto simp: latin1_char_def)

lemma recode_toa_text:
  assumes "code_points us" "0 \<notin> set us" "length (utf8_text us) < 2 ^ 31 - 1"
  shows "recode_toa st (utf8_text us) =
    Some (map latin1_char us,
      st\<lparr>bHaveWarned4 := bHaveWarned4 st \<or> (\<exists>u\<in>set us. 0x100 \<le> u),
         err_pending := err_pending st \<or>
           ((bHaveWarned4 st \<or> (\<exists>u\<in>set us. 0x100 \<le> u)) \<and> \<not> bHaveWarned4 st)\<rparr>)"
proof -
  let ?l = "length (utf8_text us)"
  let ?n = "Suc ?l"
  have len: "length us < ?n" by (induction us) (auto simp: utf8_seq_def)
  have "NUL \<notin> set (map latin1_char us)"
    using assms(2) latin1_char_NUL by (metis imageE list.set_map)
  then have c: "c_str (overwrite (replicate ?n NUL) 0 (map latin1_char us @ [NUL])) = map latin1_char us"
    unfolding c_str_def using len by (intro takeWhile_overwrite) auto
  have u: "utf8toa (utf8_text us) (replicate ?n NUL) ?n (bHaveWarned4 st) =
      Some (length us, overwrite (replicate ?n NUL) 0 (map latin1_char us @ [NUL]),
        bHaveWarned4 st \<or> (\<exists>u\<in>set us. 0x100 \<le> u))"
    by (rule utf8toa_all) (use assms len in auto)
  have n: "size_to_int ?l = int ?l" "c_int (int ?l + 1) = Some (int ?n)"
    using assms(3) by (simp_all add: size_to_int_small c_int_def)
  show ?thesis
    unfolding recode_toa_def
    by (simp add: n u c Let_def del: replicate.simps overwrite.simps replicate_Suc of_nat_Suc)
qed

lemma recode_froma_text:
  assumes "c_string s" "2 * length s + 1 < 2 ^ 31"
  shows "recode_froma s = Some (utf8_text (map ccode s))"
proof -
  let ?u = "utf8_text (map ccode s)" and ?n = "Suc (length s * 2)"
  have len: "length ?u < ?n" using length_latin1_text [of s] by simp
  have "0 \<notin> set (map ccode s)" by (rule latin1_codes_nonzero [OF assms(1)])
  then have "NUL \<notin> set ?u" using utf8_text_NUL [of "map ccode s"] by (simp add: c_string_def)
  then have c: "c_str (overwrite (replicate ?n NUL) 0 (?u @ [NUL])) = ?u"
    unfolding c_str_def using len by (intro takeWhile_overwrite) auto
  have u: "utf8froma (replicate ?n NUL) ?n s =
      Some (length ?u, overwrite (replicate ?n NUL) 0 (?u @ [NUL]))"
    by (rule utf8froma_all) (use len in auto)
  have n: "size_to_int (length s) = int (length s)" "c_int (int (length s) * 2) = Some (int (length s) * 2)"
    "c_int (int (length s) * 2 + 1) = Some (int ?n)"
    using assms(2) by (simp_all add: size_to_int_small c_int_def)
  show ?thesis
    unfolding recode_froma_def
    by (simp add: n u c Let_def del: replicate.simps overwrite.simps replicate_Suc of_nat_Suc of_nat_add of_nat_mult)
qed

lemma encodings_differ:
  "\<not> EQUAL CPL_ENC_ISO8859_1 CPL_ENC_UTF8" "\<not> EQUAL CPL_ENC_UTF8 CPL_ENC_ISO8859_1"
  "\<not> EQUAL CPL_ENC_ISO8859_1 CPL_ENC_ASCII" "\<not> EQUAL CPL_ENC_UTF8 CPL_ENC_ASCII"
  "\<not> EQUAL CPL_ENC_ISO8859_1 ''CP437''" "\<not> EQUAL CPL_ENC_UTF8 ''CP437''"
  by (simp_all add: EQUAL_def c_tolower_def ccode_def)

lemma latin1_char_ccode [simp]: "latin1_char (ccode c) = c"
  using ccode_less [of c] by (simp add: latin1_char_def)

text \<open>Every ISO-8859-1 string converts to UTF-8 without a warning, is then accepted by
  CPLIsUTF8, has as many characters for CPLStrlenUTF8 as it had bytes, and converts back to
  itself without a warning.\<close>

theorem CPLRecode_latin1_roundtrip:
  assumes "c_string s" and "length s < 2 ^ 30 - 1"
  shows "\<exists>u. CPLRecode st s CPL_ENC_ISO8859_1 CPL_ENC_UTF8 = Some (u, st) \<and>
    CPLIsUTF8 (u @ [NUL]) (- 1) = Some True \<and> CPLStrlenUTF8 u = Some (length s) \<and>
    CPLRecode st u CPL_ENC_UTF8 CPL_ENC_ISO8859_1 = Some (s, st)"
proof -
  let ?u = "utf8_text (map ccode s)"
  have nz: "0 \<notin> set (map ccode s)" by (rule latin1_codes_nonzero [OF assms(1)])
  have len: "length ?u \<le> 2 * length s" by (rule length_latin1_text)
  have small: "\<not> (\<exists>u\<in>set (map ccode s). 0x100 \<le> u)" using ccode_less by (auto simp: not_le)
  have "recode_toa st ?u = Some (map latin1_char (map ccode s), st)"
    using recode_toa_text [of "map ccode s" st] nz small len assms(2) by simp
  then have "CPLRecode st ?u CPL_ENC_UTF8 CPL_ENC_ISO8859_1 = Some (s, st)"
    by (simp add: CPLRecode_def CPLRecodeStub_def encodings_differ c_at_def comp_def)
  moreover have "CPLRecode st s CPL_ENC_ISO8859_1 CPL_ENC_UTF8 = Some (?u, st)"
    using assms(2) by (simp add: CPLRecode_def CPLRecodeStub_def encodings_differ c_at_def recode_froma_text [OF assms(1)])
  ultimately show ?thesis
    using CPLIsUTF8_text [of "map ccode s" "[]"] nz CPLStrlenUTF8_text [of "map ccode s"] len assms(2) by auto
qed

theorem CPLRecode_latin1_roundtrip_witness:
  "\<exists>u. CPLRecode no_warnings [CHR ''a'', CHR 0xE9] CPL_ENC_ISO8859_1 CPL_ENC_UTF8 = Some (u, no_warnings) \<and>
    CPLStrlenUTF8 u = Some 2 \<and>
    CPLRecode no_warnings u CPL_ENC_UTF8 CPL_ENC_ISO8859_1 = Some ([CHR ''a'', CHR 0xE9], no_warnings)"
  using CPLRecode_latin1_roundtrip [of "[CHR ''a'', CHR 0xE9]" no_warnings]
  by (auto simp: c_string_def)

text \<open>CPLCanRecode tells whether UTF-8 text has an ISO-8859-1 form: it answers yes exactly when
  every character is below 0x100, whatever warnings were given before.\<close>

theorem CPLCanRecode_iff:
  assumes "code_points us" "0 \<notin> set us" "length (utf8_text us) < 2 ^ 31 - 1"
  shows "map_option fst (CPLCanRecode st (utf8_text us) CPL_ENC_UTF8 CPL_ENC_ISO8859_1) =
    Some (\<forall>u\<in>set us. u < 0x100)"
  using assms
  by (simp add: CPLCanRecode_def CPLRecode_def CPLRecodeStub_def encodings_differ c_at_def
      recode_toa_text CPLClearRecodeStubWarningFlags_def not_le)

theorem CPLCanRecode_iff_witness:
  "map_option fst (CPLCanRecode no_warnings (utf8_text [0x41, 0x20AC]) CPL_ENC_UTF8 CPL_ENC_ISO8859_1) =
    Some False"
  using CPLCanRecode_iff [of "[0x41, 0x20AC]" no_warnings] length_utf8_text [of "[0x41, 0x20AC]"] by simp

text \<open>The branch of CPLRecodeStub that is to treat UTF-8 to any other encoding as UTF-8 to
  ISO-8859-1 tests for ISO-8859-1 again and is never taken: for every other destination but UTF-8
  the text comes back unconverted, with the warning of the last branch, and the warning of that
  branch is never given.\<close>

theorem CPLRecodeStub_other_unconverted:
  assumes "c_at enc 0 \<noteq> NUL" "enc \<noteq> CPL_ENC_ISO8859_1" "enc \<noteq> CPL_ENC_UTF8"
  shows "\<exists>st'. CPLRecodeStub st s CPL_ENC_UTF8 enc = Some (s, st') \<and> bHaveWarned3 st' \<and>
    bHaveWarned2 st' = bHaveWarned2 st"
  using assms by (simp add: CPLRecodeStub_def Let_def c_at_def)

theorem CPLRecodeStub_other_unconverted_witness:
  "\<exists>st'. CPLRecodeStub no_warnings [CHR 0xC3, CHR 0xA9] CPL_ENC_UTF8 ''CP1252'' =
     Some ([CHR 0xC3, CHR 0xA9], st') \<and> bHaveWarned3 st' \<and> bHaveWarned2 st' = bHaveWarned2 no_warnings"
  by (rule CPLRecodeStub_other_unconverted) (simp_all add: c_at_def)

text \<open>utf8fromwc never stores outside its destination, whatever its size: it fills it with
  the longest run of whole characters that leaves room for the terminator, and returns the length
  of the complete conversion, so that a result of at least \<open>dstlen\<close> tells a truncation.\<close>

theorem utf8fromwc_bounded:
  assumes "dstlen \<le> length dst"
  shows "\<exists>dst'. utf8fromwc dst dstlen ws = Some (length (utf8_text (map wide_code ws)), dst') \<and>
    length dst' = length dst \<and>
    (0 < dstlen \<longrightarrow> (\<exists>k. let part = utf8_text (map wide_code (take k ws)) in
       length part < dstlen \<and> dst' = overwrite dst 0 (part @ [NUL]) \<and>
       (length (utf8_text (map wide_code ws)) < dstlen \<longrightarrow> part = utf8_text (map wide_code ws))))"
proof (cases "dstlen = 0")
  case True
  then show ?thesis
    using fromwc.rest_counts [of ws 0] by (simp add: utf8fromwc_def chunks_fromwc utf8_text_def comp_def)
next
  case False
  let ?cs = "chunks fromwc_step ws"
  obtain k where k: "fit (dstlen - 1) ?cs = concat (take k ?cs)" using fit_prefix by blast
  have part: "concat (take k ?cs) = utf8_text (map wide_code (take k ws))"
    by (simp add: chunks_fromwc utf8_text_def comp_def take_map)
  have all: "concat ?cs = utf8_text (map wide_code ws)"
    by (simp add: chunks_fromwc utf8_text_def comp_def)
  have len: "length (utf8_text (map wide_code (take k ws))) < dstlen"
    using fit_length [of "dstlen - 1" ?cs] False unfolding k part by simp
  have "utf8fromwc dst dstlen ws = Some (length (utf8_text (map wide_code ws)),
      overwrite dst 0 (utf8_text (map wide_code (take k ws)) @ [NUL]))"
    using fromwc.converts [of 0 dstlen dst ws] False assms k part all by (simp add: utf8fromwc_def)
  moreover have "length (utf8_text (map wide_code ws)) < dstlen \<Longrightarrow>
      utf8_text (map wide_code (take k ws)) = utf8_text (map wide_code ws)"
    using fit_all [of ?cs "dstlen - 1"] k part all by simp
  ultimately show ?thesis using len by (auto simp: Let_def simp del: overwrite.simps)
qed

theorem utf8fromwc_bounded_witness:
  "\<exists>dst'. utf8fromwc (replicate 3 NUL) 3 [0x20AC, 0x41] = Some (4, dst') \<and> length dst' = 3"
  using utf8fromwc_bounded [of 3 "replicate 3 NUL" "[0x20AC, 0x41]"]
  by (auto simp: wide_code_def utf8_seq_def)

end
