(* ===== verification/Escape.thy ===== *)
theory Escape
  imports Utf8
begin

section \<open>Escaping and unescaping (port/cpl_string.cpp)\<close>

text \<open>
  CPLEscapeString makes two passes over its input: the first adds up the size of the result, the
  second writes it into a block of that size.  Both are modelled, each translated on its own, as
  loops over a step for the input position: the bytes to count, or to write, and how far the
  position moves in addition to the loop's \<open>++iIn\<close>.  The input is the memory that starts at
  \<open>pszInput\<close>, read with checks; writing past the block is \<open>None\<close>.  CPLUnescapeString reads a C
  string, given by its characters, and writes into a block of four times its length plus one.
\<close>

definition CPLES_BackslashQuotable :: int where "CPLES_BackslashQuotable = 0"
definition CPLES_XML :: int where "CPLES_XML = 1"
definition CPLES_URL :: int where "CPLES_URL = 2"
definition CPLES_SQL :: int where "CPLES_SQL = 3"
definition CPLES_CSV :: int where "CPLES_CSV = 4"
definition CPLES_XML_BUT_QUOTES :: int where "CPLES_XML_BUT_QUOTES = 5"
definition CPLES_CSV_FORCE_QUOTING :: int where "CPLES_CSV_FORCE_QUOTING = 6"
definition CPLES_SQLI :: int where "CPLES_SQLI = 7"

lemmas scheme_defs = CPLES_BackslashQuotable_def CPLES_XML_def CPLES_URL_def CPLES_SQL_def
  CPLES_CSV_def CPLES_XML_BUT_QUOTES_def CPLES_CSV_FORCE_QUOTING_def CPLES_SQLI_def

definition mem_at :: "string \<Rightarrow> nat \<Rightarrow> char option" where
  "mem_at mem i = arr_get mem (int i)"

subsection \<open>The size of the result\<close>

text \<open>The three bytes of the byte order mark, read one after the other.\<close>

definition is_bom_at :: "string \<Rightarrow> nat \<Rightarrow> bool option" where
  "is_bom_at mem i = do {
     a \<leftarrow> mem_at mem i;
     if a \<noteq> CHR 0xEF then Some False
     else do {
       b \<leftarrow> mem_at mem (i + 1);
       if b \<noteq> CHR 0xBB then Some False
       else do { c \<leftarrow> mem_at mem (i + 2); Some (c = CHR 0xBF) }
     }
   }"

definition is_url_safe :: "char \<Rightarrow> bool" where
  "is_url_safe c \<longleftrightarrow>
     (97 \<le> ccode c \<and> ccode c \<le> 122) \<or> (65 \<le> ccode c \<and> ccode c \<le> 90) \<or> c_isdigit c \<or>
     c = CHR ''$'' \<or> c = CHR ''-'' \<or> c = CHR ''_'' \<or> c = CHR ''.'' \<or> c = CHR ''+'' \<or>
     c = CHR ''!'' \<or> c = CHR ''*'' \<or> c = CHR 0x27 \<or> c = CHR ''('' \<or> c = CHR '')'' \<or> c = CHR '',''"

definition esc_size_backslash :: "string \<Rightarrow> nat \<Rightarrow> (nat \<times> nat) option" where
  "esc_size_backslash mem iIn = do {
     c \<leftarrow> mem_at mem iIn;
     if c = NUL \<or> c = CHR 0x0A \<or> c = CHR 0x22 \<or> c = CHR 0x5C then Some (2, 0) else Some (1, 0)
   }"

definition esc_size_xml :: "int \<Rightarrow> string \<Rightarrow> nat \<Rightarrow> (nat \<times> nat) option" where
  "esc_size_xml nScheme mem iIn = do {
     c \<leftarrow> mem_at mem iIn;
     if c = CHR ''<'' then Some (4, 0)
     else if c = CHR ''>'' then Some (4, 0)
     else if c = CHR ''&'' then Some (5, 0)
     else if c = CHR 0x22 \<and> nScheme \<noteq> CPLES_XML_BUT_QUOTES then Some (6, 0)
     else do {
       bom \<leftarrow> is_bom_at mem iIn;
       if bom then Some (8, 2)
       else if ccode c < 0x20 \<and> c \<noteq> CHR 0x09 \<and> c \<noteq> CHR 0x0A \<and> c \<noteq> CHR 0x0D then Some (0, 0)
       else Some (1, 0)
     }
   }"

definition esc_size_url :: "string \<Rightarrow> nat \<Rightarrow> (nat \<times> nat) option" where
  "esc_size_url mem iIn = do {
     c \<leftarrow> mem_at mem iIn;
     if is_url_safe c then Some (1, 0) else Some (3, 0)
   }"

definition esc_size_quote :: "char \<Rightarrow> string \<Rightarrow> nat \<Rightarrow> (nat \<times> nat) option" where
  "esc_size_quote chQuote mem iIn = do {
     c \<leftarrow> mem_at mem iIn;
     if c = chQuote then Some (2, 0) else Some (1, 0)
   }"

function esc_size_loop ::
    "(string \<Rightarrow> nat \<Rightarrow> (nat \<times> nat) option) \<Rightarrow> string \<Rightarrow> nat \<Rightarrow> nat \<Rightarrow> nat \<Rightarrow> nat option" where
  "esc_size_loop step mem szLength iIn nSizeAlloc =
     (if iIn < szLength then
        (case step mem iIn of
           None \<Rightarrow> None
         | Some (inc, extra) \<Rightarrow> esc_size_loop step mem szLength (iIn + extra + 1) (nSizeAlloc + inc))
      else Some nSizeAlloc)"
  by pat_completeness auto
termination by (relation "measure (\<lambda>(step, mem, n, i, a). n - i)") auto

declare esc_size_loop.simps [simp del]

subsection \<open>Writing the result\<close>

definition esc_text_backslash :: "string \<Rightarrow> nat \<Rightarrow> (string \<times> nat) option" where
  "esc_text_backslash mem iIn = do {
     c \<leftarrow> mem_at mem iIn;
     if c = NUL then Some ([CHR 0x5C, CHR ''0''], 0)
     else if c = CHR 0x0A then Some ([CHR 0x5C, CHR ''n''], 0)
     else if c = CHR 0x22 then Some ([CHR 0x5C, CHR 0x22], 0)
     else if c = CHR 0x5C then Some ([CHR 0x5C, CHR 0x5C], 0)
     else Some ([c], 0)
   }"

definition esc_text_xml :: "int \<Rightarrow> string \<Rightarrow> nat \<Rightarrow> (string \<times> nat) option" where
  "esc_text_xml nScheme mem iIn = do {
     c \<leftarrow> mem_at mem iIn;
     if c = CHR ''<'' then Some (''&lt;'', 0)
     else if c = CHR ''>'' then Some (''&gt;'', 0)
     else if c = CHR ''&'' then Some (''&amp;'', 0)
     else if c = CHR 0x22 \<and> nScheme \<noteq> CPLES_XML_BUT_QUOTES then Some (''&quot;'', 0)
     else do {
       bom \<leftarrow> is_bom_at mem iIn;
       if bom then Some (''&#xFEFF;'', 2)
       else if ccode c < 0x20 \<and> c \<noteq> CHR 0x09 \<and> c \<noteq> CHR 0x0A \<and> c \<noteq> CHR 0x0D then Some ([], 0)
       else Some ([c], 0)
     }
   }"

text \<open>The format \<open>%%%02X\<close>: the snprintf is bounded by what is left of the block, and a result that
  it would cut short is \<open>None\<close> like a write past the block.\<close>

definition hex_digit :: "nat \<Rightarrow> char" where
  "hex_digit n = ''0123456789ABCDEF'' ! n"

definition esc_text_url :: "string \<Rightarrow> nat \<Rightarrow> (string \<times> nat) option" where
  "esc_text_url mem iIn = do {
     c \<leftarrow> mem_at mem iIn;
     if is_url_safe c then Some ([c], 0)
     else Some ([CHR ''%'', hex_digit (ccode c div 16), hex_digit (ccode c mod 16)], 0)
   }"

definition esc_text_quote :: "char \<Rightarrow> string \<Rightarrow> nat \<Rightarrow> (string \<times> nat) option" where
  "esc_text_quote chQuote mem iIn = do {
     c \<leftarrow> mem_at mem iIn;
     if c = chQuote then Some ([chQuote, chQuote], 0) else Some ([c], 0)
   }"

function esc_text_loop ::
    "(string \<Rightarrow> nat \<Rightarrow> (string \<times> nat) option) \<Rightarrow> string \<Rightarrow> nat \<Rightarrow> nat \<Rightarrow> nat \<Rightarrow> string \<Rightarrow> string option" where
  "esc_text_loop step mem szLength nSizeAlloc iIn pszOutput =
     (if iIn < szLength then
        (case step mem iIn of
           None \<Rightarrow> None
         | Some (cs, extra) \<Rightarrow>
             (case buf_puts pszOutput nSizeAlloc cs of
                None \<Rightarrow> None
              | Some out \<Rightarrow> esc_text_loop step mem szLength nSizeAlloc (iIn + extra + 1) out))
      else Some pszOutput)"
  by pat_completeness auto
termination by (relation "measure (\<lambda>(step, mem, n, a, i, t). n - i)") auto

declare esc_text_loop.simps [simp del]

text \<open>\<open>strcspn\<close> on memory.\<close>

fun mem_strcspn :: "string \<Rightarrow> string \<Rightarrow> nat option" where
  "mem_strcspn [] r = None"
| "mem_strcspn (c # m) r = (if c = NUL \<or> c \<in> set r then Some 0 else map_option Suc (mem_strcspn m r))"

text \<open>A scheme is what the two passes do for one position and what they add before and after
  (the quotes of CSV); the terminator is counted by the initial value 1 of \<open>nSizeAlloc\<close>.\<close>

definition esc_passes ::
    "(string \<Rightarrow> nat \<Rightarrow> (nat \<times> nat) option) \<Rightarrow> (string \<Rightarrow> nat \<Rightarrow> (string \<times> nat) option) \<Rightarrow> string \<Rightarrow>
     string \<Rightarrow> nat \<Rightarrow> string option" where
  "esc_passes size_step text_step around mem szLength = do {
     nSizeAlloc \<leftarrow> esc_size_loop size_step mem szLength 0 (1 + length around);
     let nSizeAlloc = nSizeAlloc + length around;
     out \<leftarrow> buf_puts [] nSizeAlloc around;
     out \<leftarrow> esc_text_loop text_step mem szLength nSizeAlloc 0 out;
     out \<leftarrow> buf_puts out nSizeAlloc around;
     buf_put out nSizeAlloc NUL
   }"

definition CPLEscapeString :: "string \<Rightarrow> int \<Rightarrow> int \<Rightarrow> string option" where
  "CPLEscapeString pszInput nLength nScheme = do {
     szLength \<leftarrow> (if nLength < 0 then c_strlen pszInput else Some (nat nLength));
     if nScheme = CPLES_BackslashQuotable
     then esc_passes esc_size_backslash esc_text_backslash [] pszInput szLength
     else if nScheme = CPLES_XML \<or> nScheme = CPLES_XML_BUT_QUOTES
     then esc_passes (esc_size_xml nScheme) (esc_text_xml nScheme) [] pszInput szLength
     else if nScheme = CPLES_URL
     then esc_passes esc_size_url esc_text_url [] pszInput szLength
     else if nScheme = CPLES_SQL \<or> nScheme = CPLES_SQLI
     then let chQuote = (if nScheme = CPLES_SQL then CHR 0x27 else CHR 0x22)
          in esc_passes (esc_size_quote chQuote) (esc_text_quote chQuote) [] pszInput szLength
     else if nScheme = CPLES_CSV \<or> nScheme = CPLES_CSV_FORCE_QUOTING
     then do {
       plain \<leftarrow> (if nScheme = CPLES_CSV
                then map_option (\<lambda>n. n = szLength)
                       (mem_strcspn pszInput [CHR 0x22, CHR '','', CHR '';'', CHR 0x09, CHR 0x0A, CHR 0x0D])
                else Some False);
       if plain
       then (if szLength + 1 \<le> length pszInput then Some (take (szLength + 1) pszInput) else None)
       else esc_passes (esc_size_quote (CHR 0x22)) (esc_text_quote (CHR 0x22)) [CHR 0x22]
              pszInput szLength
     }
     else Some [NUL]
   }"

subsection \<open>Unescaping\<close>

fun unesc_backslash :: "nat \<Rightarrow> string \<Rightarrow> string \<Rightarrow> string option" where
  "unesc_backslash cap [] out = Some out"
| "unesc_backslash cap (c # s) out =
     (if c = CHR 0x5C then
        (case s of
           [] \<Rightarrow> Some out
         | d # s' \<Rightarrow>
             (case buf_put out cap (if d = CHR ''n'' then CHR 0x0A
                                    else if d = CHR ''0'' then NUL else d) of
                None \<Rightarrow> None
              | Some out \<Rightarrow> unesc_backslash cap s' out))
      else case buf_put out cap c of
             None \<Rightarrow> None
           | Some out \<Rightarrow> unesc_backslash cap s out)"

text \<open>The digits of a character reference: the value, the character after them (NUL at the end)
  and the string after that character.\<close>

fun unesc_hex :: "u32 \<Rightarrow> string \<Rightarrow> u32 \<times> char \<times> string" where
  "unesc_hex nVal [] = (nVal, NUL, [])"
| "unesc_hex nVal (ch # s) =
     (if 97 \<le> ccode ch \<and> ccode ch \<le> 102 then unesc_hex (nVal * 16 + of_nat (ccode ch - 97 + 10)) s
      else if 65 \<le> ccode ch \<and> ccode ch \<le> 70 then unesc_hex (nVal * 16 + of_nat (ccode ch - 65 + 10)) s
      else if c_isdigit ch then unesc_hex (nVal * 16 + of_nat (ccode ch - 48)) s
      else (nVal, ch, s))"

fun unesc_dec :: "u32 \<Rightarrow> string \<Rightarrow> u32 \<times> char \<times> string" where
  "unesc_dec nVal [] = (nVal, NUL, [])"
| "unesc_dec nVal (ch # s) =
     (if c_isdigit ch then unesc_dec (nVal * 10 + of_nat (ccode ch - 48)) s
      else (nVal, ch, s))"

text \<open>What one position of XML text stands for: the text to write and the string after it, or the
  end of the loop.\<close>

definition unesc_xml_ref :: "recode_state \<Rightarrow> u32 \<times> char \<times> string \<Rightarrow> (string \<times> string) option option" where
  "unesc_xml_ref st r =
     (case r of (nVal, ch, s) \<Rightarrow>
        if ch \<noteq> CHR '';'' then Some None
        else case CPLRecodeFromWChar st (takeWhile (\<lambda>w. w \<noteq> 0) [nVal]) ''WCHAR_T'' CPL_ENC_UTF8 of
               Some (Some pszUTF8, st') \<Rightarrow> Some (Some (pszUTF8, s))
             | _ \<Rightarrow> None)"

definition unesc_xml_step :: "recode_state \<Rightarrow> char \<Rightarrow> string \<Rightarrow> (string \<times> string) option option" where
  "unesc_xml_step st ch s =
     (if ch \<noteq> CHR ''&'' then Some (Some ([ch], s))
      else if STARTS_WITH_CI (ch # s) ''&lt;'' then Some (Some (''<'', drop 3 s))
      else if STARTS_WITH_CI (ch # s) ''&gt;'' then Some (Some (''>'', drop 3 s))
      else if STARTS_WITH_CI (ch # s) ''&amp;'' then Some (Some (''&'', drop 4 s))
      else if STARTS_WITH_CI (ch # s) ''&apos;'' then Some (Some ([CHR 0x27], drop 5 s))
      else if STARTS_WITH_CI (ch # s) ''&quot;'' then Some (Some ([CHR 0x22], drop 5 s))
      else if STARTS_WITH_CI (ch # s) ''&#x'' then unesc_xml_ref st (unesc_hex 0 (drop 2 s))
      else if STARTS_WITH_CI (ch # s) ''&#'' then unesc_xml_ref st (unesc_dec 0 (drop 1 s))
      else Some None)"

lemma unesc_hex_rest: "unesc_hex v s = (v', ch, r) \<Longrightarrow> ch \<noteq> NUL \<Longrightarrow> length r < length s"
  by (induction v s rule: unesc_hex.induct) (auto split: if_splits)

lemma unesc_dec_rest: "unesc_dec v s = (v', ch, r) \<Longrightarrow> ch \<noteq> NUL \<Longrightarrow> length r < length s"
  by (induction v s rule: unesc_dec.induct) (auto split: if_splits)

lemma unesc_xml_ref_rest:
  "unesc_xml_ref st (v, ch, s) = Some (Some (t, r)) \<Longrightarrow> r = s \<and> ch = CHR '';''"
  by (auto simp: unesc_xml_ref_def split: if_splits option.splits prod.splits)

lemma unesc_xml_step_rest:
  assumes "unesc_xml_step st ch s = Some (Some (t, r))"
  shows "length r \<le> length s"
proof -
  have "length r \<le> length s" if "unesc_xml_ref st (unesc_hex 0 (drop k s)) = Some (Some (t, r))" for k
  proof -
    obtain v c u where h: "unesc_hex 0 (drop k s) = (v, c, u)" by (cases "unesc_hex 0 (drop k s)")
    with that have "r = u" "c \<noteq> NUL" using unesc_xml_ref_rest by fastforce+
    with unesc_hex_rest [OF h] show ?thesis by simp
  qed
  moreover have "length r \<le> length s" if "unesc_xml_ref st (unesc_dec 0 (drop k s)) = Some (Some (t, r))" for k
  proof -
    obtain v c u where h: "unesc_dec 0 (drop k s) = (v, c, u)" by (cases "unesc_dec 0 (drop k s)")
    with that have "r = u" "c \<noteq> NUL" using unesc_xml_ref_rest by fastforce+
    with unesc_dec_rest [OF h] show ?thesis by simp
  qed
  ultimately show ?thesis using assms by (auto simp: unesc_xml_step_def split: if_splits)
qed

function unesc_xml :: "recode_state \<Rightarrow> nat \<Rightarrow> string \<Rightarrow> string \<Rightarrow> string option" where
  "unesc_xml st cap [] out = Some out"
| "unesc_xml st cap (ch # s) out =
     (case unesc_xml_step st ch s of
        None \<Rightarrow> None
      | Some None \<Rightarrow> Some out
      | Some (Some (t, s')) \<Rightarrow>
          (case buf_puts out cap t of
             None \<Rightarrow> None
           | Some out \<Rightarrow> unesc_xml st cap s' out))"
  by pat_completeness auto
termination
  by (relation "measure (\<lambda>(st, cap, s, out). length s)") (auto dest: unesc_xml_step_rest)

definition hex_value :: "char \<Rightarrow> nat" where
  "hex_value c =
     (if 65 \<le> ccode c \<and> ccode c \<le> 70 then ccode c - 65 + 10
      else if 97 \<le> ccode c \<and> ccode c \<le> 102 then ccode c - 97 + 10
      else if c_isdigit c then ccode c - 48
      else 0)"

fun unesc_url :: "nat \<Rightarrow> string \<Rightarrow> string \<Rightarrow> string option" where
  "unesc_url cap [] out = Some out"
| "unesc_url cap (c # s) out =
     (if c = CHR ''%'' \<and> c_at s 0 \<noteq> NUL \<and> c_at s 1 \<noteq> NUL then
        (case buf_put out cap (char_of (16 * hex_value (c_at s 0) + hex_value (c_at s 1))) of
           None \<Rightarrow> None
         | Some out \<Rightarrow> unesc_url cap (drop 2 s) out)
      else case buf_put out cap (if c = CHR ''+'' then CHR '' '' else c) of
             None \<Rightarrow> None
           | Some out \<Rightarrow> unesc_url cap s out)"

fun unesc_quote :: "char \<Rightarrow> nat \<Rightarrow> string \<Rightarrow> string \<Rightarrow> string option" where
  "unesc_quote szQuote cap [] out = Some out"
| "unesc_quote szQuote cap (c # s) out =
     (case buf_put out cap c of
        None \<Rightarrow> None
      | Some out \<Rightarrow> unesc_quote szQuote cap (if c = szQuote \<and> c_at s 0 = szQuote then tl s else s) out)"

text \<open>The indices \<open>iIn\<close> and \<open>iOut\<close> are of type \<open>int\<close>.  \<open>iIn\<close> passes every character and, behind an
  unfinished character reference, the terminator too, and \<open>iOut\<close> never gets ahead of it: a text of
  \<open>2 ^ 31 - 1\<close> characters or more lets \<open>iIn\<close> overflow, which is the outer \<open>None\<close>.
  The result is the \<open>*pnLength\<close> bytes before the terminator; the schemes that raise a fatal
  error abort, which is the inner \<open>None\<close>.\<close>

definition CPLUnescapeString :: "recode_state \<Rightarrow> string \<Rightarrow> int \<Rightarrow> string option option" where
  "CPLUnescapeString st pszInput nScheme =
     (let cap = 4 * length pszInput + 1;
          terminate = (\<lambda>r. case r of
                             None \<Rightarrow> None
                           | Some out \<Rightarrow> map_option (\<lambda>t. Some out) (buf_put out cap NUL))
      in if c_int (int (length pszInput) + 1) = None then None
         else if nScheme = CPLES_BackslashQuotable then terminate (unesc_backslash cap pszInput [])
         else if nScheme = CPLES_XML \<or> nScheme = CPLES_XML_BUT_QUOTES
         then terminate (unesc_xml st cap pszInput [])
         else if nScheme = CPLES_URL then terminate (unesc_url cap pszInput [])
         else if nScheme = CPLES_SQL \<or> nScheme = CPLES_SQLI
         then let szQuote = (if nScheme = CPLES_SQL then CHR 0x27 else CHR 0x22)
              in terminate (unesc_quote szQuote cap pszInput [])
         else Some None)"


subsection \<open>The two passes agree\<close>

definition pass_pair ::
    "(string \<Rightarrow> nat \<Rightarrow> (nat \<times> nat) option) \<Rightarrow> (string \<Rightarrow> nat \<Rightarrow> (string \<times> nat) option) \<Rightarrow> bool" where
  "pass_pair size_step text_step \<longleftrightarrow>
     (\<forall>mem i. size_step mem i = map_option (\<lambda>(cs, extra). (length cs, extra)) (text_step mem i))"

lemma pass_pairs:
  "pass_pair esc_size_backslash esc_text_backslash"
  "pass_pair (esc_size_xml sch) (esc_text_xml sch)"
  "pass_pair esc_size_url esc_text_url"
  "pass_pair (esc_size_quote q) (esc_text_quote q)"
  by (auto simp: pass_pair_def esc_size_backslash_def esc_text_backslash_def esc_size_xml_def
      esc_text_xml_def esc_size_url_def esc_text_url_def esc_size_quote_def esc_text_quote_def
      split: bind_splits)

lemma esc_loops_agree:
  assumes "pass_pair size_step text_step"
  shows "esc_size_loop size_step mem n i a = Some k \<Longrightarrow>
    a \<le> k \<and> (length out + (k - a) \<le> cap \<longrightarrow>
      (\<exists>out'. esc_text_loop text_step mem n cap i out = Some out' \<and> length out' = length out + (k - a)))"
proof (induction "n - i" arbitrary: i a out rule: less_induct)
  case less
  show ?case
  proof (cases "i < n")
    case False
    with less(2) have "k = a" by (simp add: esc_size_loop.simps)
    then show ?thesis using False by (simp add: esc_text_loop.simps)
  next
    case True
    obtain inc e where st: "size_step mem i = Some (inc, e)"
      and rec: "esc_size_loop size_step mem n (i + e + 1) (a + inc) = Some k"
      using less(2) True by (subst (asm) esc_size_loop.simps) (auto split: option.splits)
    obtain cs where cs: "text_step mem i = Some (cs, e)" "inc = length cs"
      using assms st by (auto simp: pass_pair_def)
    have lt: "n - (i + e + 1) < n - i" using True by simp
    note IH = less(1) [OF lt rec, of "out @ cs"]
    have loop: "esc_text_loop text_step mem n cap i out =
        esc_text_loop text_step mem n cap (i + e + 1) (out @ cs)" if "length out + length cs \<le> cap"
      using True cs that by (subst esc_text_loop.simps) (simp add: buf_puts_def)
    show ?thesis
    proof (intro conjI impI)
      show "a \<le> k" using IH cs by simp
      assume cap: "length out + (k - a) \<le> cap"
      have le: "a + length cs \<le> k" using IH cs by simp
      with cap have fits: "length out + length cs \<le> cap" by arith
      have "length (out @ cs) + (k - (a + inc)) \<le> cap" using cap IH cs by simp
      with IH loop [OF fits] cs show "\<exists>out'. esc_text_loop text_step mem n cap i out = Some out' \<and>
          length out' = length out + (k - a)" by auto
    qed
  qed
qed

definition escape_steps ::
    "((string \<Rightarrow> nat \<Rightarrow> (nat \<times> nat) option) \<times> (string \<Rightarrow> nat \<Rightarrow> (string \<times> nat) option)) set" where
  "escape_steps =
     {(esc_size_backslash, esc_text_backslash), (esc_size_url, esc_text_url),
      (esc_size_xml CPLES_XML, esc_text_xml CPLES_XML),
      (esc_size_xml CPLES_XML_BUT_QUOTES, esc_text_xml CPLES_XML_BUT_QUOTES),
      (esc_size_quote (CHR 0x22), esc_text_quote (CHR 0x22)),
      (esc_size_quote (CHR 0x27), esc_text_quote (CHR 0x27))}"

lemma escape_steps_pair: "(size_step, text_step) \<in> escape_steps \<Longrightarrow> pass_pair size_step text_step"
  using pass_pairs by (auto simp: escape_steps_def)

text \<open>The block of CPLEscapeString has exactly the size of its text: for each of the schemes
  (CSV is double quotes with a quote around), when the counting pass returns a size then the writing pass stays within a block of
  that size and fills it to the last byte, the terminator included.\<close>

theorem CPLEscapeString_exact_size:
  assumes "(size_step, text_step) \<in> escape_steps"
    and "esc_size_loop size_step mem szLength 0 (1 + length around) = Some k"
  shows "\<exists>out. esc_passes size_step text_step around mem szLength = Some (out @ [NUL]) \<and>
    length (out @ [NUL]) = k + length around"
proof -
  let ?cap = "k + length around"
  note agree = esc_loops_agree [OF escape_steps_pair [OF assms(1)] assms(2), of around ?cap]
  have "1 + length around \<le> k" using agree by simp
  then obtain out where out: "esc_text_loop text_step mem szLength ?cap 0 around = Some out"
      "length out = length around + (k - (1 + length around))"
    using agree by auto
  then have len: "length out + length around + 1 = ?cap" using \<open>1 + length around \<le> k\<close> by simp
  have "esc_passes size_step text_step around mem szLength = Some ((out @ around) @ [NUL])"
    using assms(2) out(1) len by (simp add: esc_passes_def buf_puts_def buf_put_def)
  then show ?thesis using len by (intro exI [of _ "out @ around"]) auto
qed

theorem CPLEscapeString_exact_size_witness:
  "\<exists>out. esc_passes (esc_size_xml CPLES_XML) (esc_text_xml CPLES_XML) [] (''a<b'' @ [NUL]) 3 =
     Some (out @ [NUL]) \<and> length (out @ [NUL]) = 7"
  using CPLEscapeString_exact_size [of "esc_size_xml CPLES_XML" "esc_text_xml CPLES_XML"
      "''a<b'' @ [NUL]" 3 "[]" 7]
  by (simp add: escape_steps_def esc_size_loop.simps esc_size_xml_def mem_at_def is_bom_at_def arr_get_def
      ccode_def)


subsection \<open>What is written\<close>

text \<open>The escaped text of a string, character by character; for XML the byte order mark counts as
  one character.\<close>

definition backslash_char :: "char \<Rightarrow> string" where
  "backslash_char c =
     (if c = NUL then [CHR 0x5C, CHR ''0''] else if c = CHR 0x0A then [CHR 0x5C, CHR ''n'']
      else if c = CHR 0x22 \<or> c = CHR 0x5C then [CHR 0x5C, c] else [c])"

definition url_char :: "char \<Rightarrow> string" where
  "url_char c =
     (if is_url_safe c then [c]
      else [CHR ''%'', hex_digit (ccode c div 16), hex_digit (ccode c mod 16)])"

definition quote_char :: "char \<Rightarrow> char \<Rightarrow> string" where
  "quote_char q c = (if c = q then [q, q] else [c])"

definition xml_dropped :: "char \<Rightarrow> bool" where
  "xml_dropped c \<longleftrightarrow> ccode c < 0x20 \<and> c \<noteq> CHR 0x09 \<and> c \<noteq> CHR 0x0A \<and> c \<noteq> CHR 0x0D"

definition xml_char :: "int \<Rightarrow> char \<Rightarrow> string" where
  "xml_char nScheme c =
     (if c = CHR ''<'' then ''&lt;'' else if c = CHR ''>'' then ''&gt;''
      else if c = CHR ''&'' then ''&amp;''
      else if c = CHR 0x22 \<and> nScheme \<noteq> CPLES_XML_BUT_QUOTES then ''&quot;''
      else if xml_dropped c then [] else [c])"

fun xml_text :: "int \<Rightarrow> string \<Rightarrow> string" where
  "xml_text nScheme [] = []"
| "xml_text nScheme (c # s) =
     (if c = CHR 0xEF \<and> take 2 s = [CHR 0xBB, CHR 0xBF] then ''&#xFEFF;'' @ xml_text nScheme (drop 2 s)
      else xml_char nScheme c @ xml_text nScheme s)"

lemma mem_at_mid: "mem_at (p @ c # r) (length p) = Some c"
  by (simp add: mem_at_def)

lemma esc_text_chars:
  "esc_text_backslash (p @ c # r) (length p) = Some (backslash_char c, 0)"
  "esc_text_url (p @ c # r) (length p) = Some (url_char c, 0)"
  "esc_text_quote q (p @ c # r) (length p) = Some (quote_char q c, 0)"
  by (simp_all add: esc_text_backslash_def backslash_char_def esc_text_url_def url_char_def
      esc_text_quote_def quote_char_def mem_at_mid)

lemma esc_text_loop_chars:
  assumes "\<And>p c r. text_step (p @ c # r) (length p) = Some (f c, 0)"
  shows "length out + length (concat (map f s)) \<le> cap \<Longrightarrow>
    esc_text_loop text_step (p @ s @ r) (length p + length s) cap (length p) out =
      Some (out @ concat (map f s))"
proof (induction s arbitrary: p out)
  case Nil
  then show ?case by (simp add: esc_text_loop.simps)
next
  case (Cons c s)
  have "esc_text_loop text_step (p @ (c # s) @ r) (length p + length (c # s)) cap (length p) out =
      esc_text_loop text_step ((p @ [c]) @ s @ r) (length (p @ [c]) + length s) cap
        (length (p @ [c])) (out @ f c)"
    using Cons.prems by (subst esc_text_loop.simps) (simp add: assms buf_puts_def)
  also have "\<dots> = Some ((out @ f c) @ concat (map f s))"
    by (rule Cons.IH) (use Cons.prems in simp)
  finally show ?case by simp
qed

lemma esc_size_loop_chars:
  assumes "\<And>p c r. text_step (p @ c # r) (length p) = Some (f c, 0)"
    and "pass_pair size_step text_step"
  shows "esc_size_loop size_step (p @ s @ r) (length p + length s) (length p) a =
      Some (a + length (concat (map f s)))"
proof (induction s arbitrary: p a)
  case Nil
  then show ?case by (simp add: esc_size_loop.simps)
next
  case (Cons c s)
  have "size_step (p @ (c # s) @ r) (length p) = Some (length (f c), 0)"
    using assms by (simp add: pass_pair_def)
  then have "esc_size_loop size_step (p @ (c # s) @ r) (length p + length (c # s)) (length p) a =
      esc_size_loop size_step ((p @ [c]) @ s @ r) (length (p @ [c]) + length s)
        (length (p @ [c])) (a + length (f c))"
    by (subst esc_size_loop.simps) simp
  also have "\<dots> = Some ((a + length (f c)) + length (concat (map f s)))" by (rule Cons.IH)
  finally show ?case by simp
qed

lemma esc_passes_chars:
  assumes "\<And>p c r. text_step (p @ c # r) (length p) = Some (f c, 0)"
    and "pass_pair size_step text_step"
  shows "esc_passes size_step text_step around (s @ r) (length s) =
    Some (around @ concat (map f s) @ around @ [NUL])"
proof -
  let ?p = "[] :: string"
  let ?cap = "1 + length around + length (concat (map f s)) + length around"
  have size: "esc_size_loop size_step (?p @ s @ r) (length ?p + length s) (length ?p) (1 + length around) =
      Some (1 + length around + length (concat (map f s)))"
    by (rule esc_size_loop_chars [where f = f and text_step = text_step, OF assms])
  have written: "esc_text_loop text_step (?p @ s @ r) (length ?p + length s) ?cap (length ?p) around =
      Some (around @ concat (map f s))"
    by (rule esc_text_loop_chars [where f = f and text_step = text_step, OF assms(1)]) simp
  show ?thesis using size written by (simp add: esc_passes_def buf_puts_def buf_put_def)
qed

text \<open>XML reads up to two bytes ahead, which the terminator stops.\<close>

lemma xml_step_at:
  "esc_text_xml sch (p @ c # s @ NUL # r) (length p) =
     (if c = CHR 0xEF \<and> take 2 s = [CHR 0xBB, CHR 0xBF] then Some (''&#xFEFF;'', 2)
      else Some (xml_char sch c, 0))"
proof -
  have 1: "mem_at (p @ c # s @ NUL # r) (length p + 1) = Some (hd (s @ [NUL]))"
    by (cases s) (simp_all add: mem_at_def arr_get_def nth_append count_shift)
  have 2: "s \<noteq> [] \<Longrightarrow> mem_at (p @ c # s @ NUL # r) (length p + 2) = Some (hd (tl s @ [NUL]))"
    by (cases s; cases "tl s") (simp_all add: mem_at_def arr_get_def nth_append count_shift)
  have "is_bom_at (p @ c # s @ NUL # r) (length p) =
      Some (c = CHR 0xEF \<and> take 2 s = [CHR 0xBB, CHR 0xBF])"
  proof (cases s)
    case Nil
    with 1 show ?thesis by (cases "c = CHR 0xEF") (simp_all add: is_bom_at_def mem_at_mid)
  next
    case (Cons d t)
    with 1 2 show ?thesis
      by (cases t; cases "c = CHR 0xEF") (auto simp: is_bom_at_def mem_at_mid)
  qed
  then show ?thesis
    by (cases "c = CHR 0xEF"; cases "take 2 s = [CHR 0xBB, CHR 0xBF]")
      (simp_all add: esc_text_xml_def mem_at_mid xml_char_def xml_dropped_def)
qed


lemma xml_text_bom:
  assumes "take 2 s = [CHR 0xBB, CHR 0xBF]"
  obtains t where "s = CHR 0xBB # CHR 0xBF # t"
  using assms by (cases s; cases "tl s") auto

lemma esc_text_loop_xml:
  "length out + length (xml_text sch s) \<le> cap \<Longrightarrow>
   esc_text_loop (esc_text_xml sch) (p @ s @ NUL # r) (length p + length s) cap (length p) out =
     Some (out @ xml_text sch s)"
proof (induction sch s arbitrary: p out rule: xml_text.induct)
  case (1 sch)
  then show ?case by (simp add: esc_text_loop.simps)
next
  case (2 sch c s)
  show ?case
  proof (cases "c = CHR 0xEF \<and> take 2 s = [CHR 0xBB, CHR 0xBF]")
    case True
    then obtain t where t: "s = CHR 0xBB # CHR 0xBF # t" using xml_text_bom by blast
    have st: "esc_text_xml sch (p @ CHR 0xEF # CHR 0xBB # CHR 0xBF # t @ NUL # r) (length p) =
        Some (''&#xFEFF;'', 2)"
      using xml_step_at [of sch p c s r] True t by simp
    have "esc_text_loop (esc_text_xml sch) (p @ (c # s) @ NUL # r) (length p + length (c # s)) cap
        (length p) out =
      esc_text_loop (esc_text_xml sch) ((p @ [c, CHR 0xBB, CHR 0xBF]) @ t @ NUL # r)
        (length (p @ [c, CHR 0xBB, CHR 0xBF]) + length t) cap
        (length (p @ [c, CHR 0xBB, CHR 0xBF])) (out @ ''&#xFEFF;'')"
      using 2(3) True
      by (subst esc_text_loop.simps) (simp add: st buf_puts_def t)
    also have "\<dots> = Some ((out @ ''&#xFEFF;'') @ xml_text sch t)"
      using 2(1) [OF True, of "out @ ''&#xFEFF;''" "p @ [c, CHR 0xBB, CHR 0xBF]"] 2(3) True t by simp
    finally show ?thesis using True t by simp
  next
    case False
    then have x: "xml_text sch (c # s) = xml_char sch c @ xml_text sch s" by auto
    have st: "esc_text_xml sch (p @ c # s @ NUL # r) (length p) = Some (xml_char sch c, 0)"
      using xml_step_at [of sch p c s r] False by (simp only: if_False)
    have "esc_text_loop (esc_text_xml sch) (p @ (c # s) @ NUL # r) (length p + length (c # s)) cap
        (length p) out =
      esc_text_loop (esc_text_xml sch) ((p @ [c]) @ s @ NUL # r) (length (p @ [c]) + length s) cap
        (length (p @ [c])) (out @ xml_char sch c)"
      using 2(3) unfolding x by (subst esc_text_loop.simps) (simp add: st buf_puts_def)
    also have "\<dots> = Some ((out @ xml_char sch c) @ xml_text sch s)"
      by (rule 2(2) [OF False]) (use 2(3) x in simp)
    finally show ?thesis using x by simp
  qed
qed

lemma esc_size_loop_xml:
  "esc_size_loop (esc_size_xml sch) (p @ s @ NUL # r) (length p + length s) (length p) a =
     Some (a + length (xml_text sch s))"
proof (induction sch s arbitrary: p a rule: xml_text.induct)
  case (1 sch)
  then show ?case by (simp add: esc_size_loop.simps)
next
  case (2 sch c s)
  note step = pass_pairs(2) [of sch, unfolded pass_pair_def, rule_format, of "p @ c # s @ NUL # r" "length p"]
  show ?case
  proof (cases "c = CHR 0xEF \<and> take 2 s = [CHR 0xBB, CHR 0xBF]")
    case True
    then obtain t where t: "s = CHR 0xBB # CHR 0xBF # t" using xml_text_bom by blast
    have st: "esc_text_xml sch (p @ CHR 0xEF # CHR 0xBB # CHR 0xBF # t @ NUL # r) (length p) =
        Some (''&#xFEFF;'', 2)"
      using xml_step_at [of sch p c s r] True t by simp
    have "esc_size_loop (esc_size_xml sch) (p @ (c # s) @ NUL # r) (length p + length (c # s)) (length p) a =
      esc_size_loop (esc_size_xml sch) ((p @ [c, CHR 0xBB, CHR 0xBF]) @ t @ NUL # r)
        (length (p @ [c, CHR 0xBB, CHR 0xBF]) + length t) (length (p @ [c, CHR 0xBB, CHR 0xBF])) (a + length ''&#xFEFF;'')"
      using True step by (subst esc_size_loop.simps) (simp add: st t)
    also have "\<dots> = Some ((a + length ''&#xFEFF;'') + length (xml_text sch t))"
      using 2(1) [OF True, of "p @ [c, CHR 0xBB, CHR 0xBF]" "a + length ''&#xFEFF;''"] t by simp
    finally show ?thesis using True t by simp
  next
    case False
    then have x: "xml_text sch (c # s) = xml_char sch c @ xml_text sch s" by auto
    have st: "esc_size_xml sch (p @ c # s @ NUL # r) (length p) = Some (length (xml_char sch c), 0)"
      using step xml_step_at [of sch p c s r] False
      by (simp only: if_False option.map prod.case)
    have "esc_size_loop (esc_size_xml sch) (p @ (c # s) @ NUL # r) (length p + length (c # s)) (length p) a =
      esc_size_loop (esc_size_xml sch) ((p @ [c]) @ s @ NUL # r) (length (p @ [c]) + length s)
        (length (p @ [c])) (a + length (xml_char sch c))"
      using st by (subst esc_size_loop.simps) simp
    also have "\<dots> = Some ((a + length (xml_char sch c)) + length (xml_text sch s))"
      by (rule 2(2) [OF False])
    finally show ?thesis using x by simp
  qed
qed

lemma esc_passes_xml:
  "esc_passes (esc_size_xml sch) (esc_text_xml sch) [] (s @ NUL # r) (length s) =
    Some (xml_text sch s @ [NUL])"
  using esc_size_loop_xml [of sch "[]" s r 1]
    esc_text_loop_xml [of "[]" sch s "1 + length (xml_text sch s)" "[]" r]
  by (simp add: esc_passes_def buf_puts_def buf_put_def)

subsection \<open>What is read back\<close>

lemma unesc_backslash_chars:
  "length out + length s \<le> cap \<Longrightarrow>
   unesc_backslash cap (concat (map backslash_char s)) out = Some (out @ s)"
  by (induction s arbitrary: out) (auto simp: backslash_char_def buf_put_def)

lemma unesc_quote_chars:
  "length out + length s \<le> cap \<Longrightarrow>
   unesc_quote q cap (concat (map (quote_char q) s)) out = Some (out @ s)"
  by (induction s arbitrary: out) (auto simp: quote_char_def buf_put_def c_at_def)

lemma hex_digit_cases:
  assumes "n < 16"
  shows "hex_value (hex_digit n) = n \<and> hex_digit n \<noteq> NUL"
proof -
  have "\<forall>n\<in>set [0..<16]. hex_value (hex_digit n) = n \<and> hex_digit n \<noteq> NUL" by code_simp
  with assms show ?thesis by auto
qed

definition plus_space :: "char \<Rightarrow> char" where
  "plus_space c = (if c = CHR ''+'' then CHR '' '' else c)"

lemma unesc_url_chars:
  "length out + length s \<le> cap \<Longrightarrow>
   unesc_url cap (concat (map url_char s)) out = Some (out @ map plus_space s)"
proof (induction s arbitrary: out)
  case (Cons c s)
  have d: "hex_value (hex_digit (ccode c div 16)) = ccode c div 16" "hex_digit (ccode c div 16) \<noteq> NUL"
    "hex_value (hex_digit (ccode c mod 16)) = ccode c mod 16" "hex_digit (ccode c mod 16) \<noteq> NUL"
    using hex_digit_cases [of "ccode c div 16"] hex_digit_cases [of "ccode c mod 16"] ccode_less [of c]
    by (auto simp: less_mult_imp_div_less)
  show ?case
  proof (cases "is_url_safe c")
    case True
    then have "c \<noteq> CHR ''%''" by (auto simp: is_url_safe_def c_isdigit_def ccode_def)
    with True Cons show ?thesis by (simp add: url_char_def buf_put_def plus_space_def)
  next
    case False
    then have "c \<noteq> CHR ''+''" by (auto simp: is_url_safe_def)
    with False Cons d show ?thesis
      by (simp add: url_char_def buf_put_def plus_space_def c_at_def)
  qed
qed simp


subsection \<open>Unescaping never outgrows its input\<close>

lemma unesc_hex_digits:
  "unesc_hex v0 s = (v, ch, r) \<Longrightarrow> ch \<noteq> NUL \<Longrightarrow> v \<noteq> v0 \<Longrightarrow> length r + 2 \<le> length s"
proof (induction v0 s rule: unesc_hex.induct)
  case (2 v0 c s)
  then show ?case using unesc_hex_rest by (force split: if_splits)
qed simp

lemma unesc_dec_digits:
  "unesc_dec v0 s = (v, ch, r) \<Longrightarrow> ch \<noteq> NUL \<Longrightarrow> v \<noteq> v0 \<Longrightarrow> length r + 2 \<le> length s"
proof (induction v0 s rule: unesc_dec.induct)
  case (2 v0 c s)
  then show ?case using unesc_dec_rest by (force split: if_splits)
qed simp

text \<open>The text of a character reference.\<close>

definition ref_text :: "u32 \<Rightarrow> string" where
  "ref_text v = (if v = 0 then [] else utf8_seq (wide_code v))"

lemma unesc_xml_ref_eq:
  "unesc_xml_ref st (v, ch, s) = (if ch = CHR '';'' then Some (Some (ref_text v, s)) else Some None)"
proof -
  have "CPLRecodeFromWChar st (takeWhile (\<lambda>w. w \<noteq> 0) [v]) ''WCHAR_T'' CPL_ENC_UTF8 =
      Some (Some (ref_text v), st)"
    using CPLRecodeFromWChar_text [of "takeWhile (\<lambda>w. w \<noteq> 0) [v]" st] by (simp add: ref_text_def)
  then show ?thesis by (simp add: unesc_xml_ref_def)
qed

lemma unesc_xml_step_total: "unesc_xml_step st ch s \<noteq> None"
proof -
  have "unesc_xml_ref st r \<noteq> None" for r by (cases r) (simp add: unesc_xml_ref_eq)
  then show ?thesis by (simp add: unesc_xml_step_def)
qed

lemma ref_text_length: "length (ref_text v) \<le> 4" "v = 0 \<Longrightarrow> length (ref_text v) = 0"
  by (simp_all add: ref_text_def utf8_seq_length)

lemma unesc_hex_bound:
  assumes "unesc_xml_ref st (unesc_hex 0 s) = Some (Some (t, r))"
  shows "length t + length r \<le> 2 + length s"
proof -
  obtain v ch u where h: "unesc_hex 0 s = (v, ch, u)" by (cases "unesc_hex 0 s")
  with assms have "ch \<noteq> NUL" "r = u" "t = ref_text v"
    by (auto simp: unesc_xml_ref_eq split: if_splits)
  with h unesc_hex_rest [OF h] unesc_hex_digits [OF h] ref_text_length [of v] show ?thesis
    by (cases "v = 0") auto
qed

lemma unesc_dec_bound:
  assumes "unesc_xml_ref st (unesc_dec 0 s) = Some (Some (t, r))"
  shows "length t + length r \<le> 2 + length s"
proof -
  obtain v ch u where h: "unesc_dec 0 s = (v, ch, u)" by (cases "unesc_dec 0 s")
  with assms have "ch \<noteq> NUL" "r = u" "t = ref_text v"
    by (auto simp: unesc_xml_ref_eq split: if_splits)
  with h unesc_dec_rest [OF h] unesc_dec_digits [OF h] ref_text_length [of v] show ?thesis
    by (cases "v = 0") auto
qed

lemma STARTS_WITH_length: "STARTS_WITH_CI (c # s) (d # p) \<Longrightarrow> length p \<le> length s"
  using EQUALN_length_le [of "c # s" "d # p"] by (simp add: STARTS_WITH_CI_def)

lemma unesc_xml_step_bound:
  assumes "unesc_xml_step st ch s = Some (Some (t, r))"
  shows "length t + length r \<le> Suc (length s)"
proof -
  have "length t + length r \<le> Suc (length s)"
    if "STARTS_WITH_CI (ch # s) ''&#x''" "unesc_xml_ref st (unesc_hex 0 (drop 2 s)) = Some (Some (t, r))"
    using unesc_hex_bound [OF that(2)] STARTS_WITH_length [OF that(1)] by simp
  moreover have "length t + length r \<le> Suc (length s)"
    if "STARTS_WITH_CI (ch # s) ''&#''" "unesc_xml_ref st (unesc_dec 0 (drop 1 s)) = Some (Some (t, r))"
    using unesc_dec_bound [OF that(2)] STARTS_WITH_length [OF that(1)] by simp
  ultimately show ?thesis using assms by (auto simp: unesc_xml_step_def split: if_splits)
qed

lemma unesc_xml_bound:
  "length out + length s \<le> cap \<Longrightarrow>
   \<exists>out'. unesc_xml st cap s out = Some out' \<and> length out' \<le> length out + length s"
proof (induction st cap s out rule: unesc_xml.induct)
  case (2 st cap ch s out)
  obtain x where x: "unesc_xml_step st ch s = Some x" using unesc_xml_step_total by fastforce
  show ?case
  proof (cases x)
    case None
    with x show ?thesis by simp
  next
    case (Some y)
    then obtain t r where y: "x = Some (t, r)" by (cases y) auto
    have b: "length t + length r \<le> Suc (length s)" using x y unesc_xml_step_bound by simp
    then have put: "buf_puts out cap t = Some (out @ t)" using 2(2) by (simp add: buf_puts_def)
    have "\<exists>out'. unesc_xml st cap r (out @ t) = Some out' \<and> length out' \<le> length (out @ t) + length r"
      by (rule 2(1) [OF x y refl put]) (use 2(2) b in simp)
    with x y b put show ?thesis by auto
  qed
qed simp

lemma unesc_backslash_bound:
  "length out + length s \<le> cap \<Longrightarrow>
   \<exists>out'. unesc_backslash cap s out = Some out' \<and> length out' \<le> length out + length s"
proof (induction cap s out rule: unesc_backslash.induct)
  case (2 cap c s out)
  show ?case
  proof (cases "c = CHR 0x5C")
    case True
    show ?thesis
    proof (cases s)
      case Nil
      with True show ?thesis by simp
    next
      case (Cons d t)
      let ?d = "if d = CHR ''n'' then CHR 0x0A else if d = CHR ''0'' then NUL else d"
      have put: "buf_put out cap ?d = Some (out @ [?d])" using 2(3) Cons by (simp add: buf_put_def)
      have "\<exists>out'. unesc_backslash cap t (out @ [?d]) = Some out' \<and>
          length out' \<le> length (out @ [?d]) + length t"
        by (rule 2(1) [OF True Cons put]) (use 2(3) Cons in simp)
      with put True Cons show ?thesis by auto
    qed
  next
    case False
    have put: "buf_put out cap c = Some (out @ [c])" using 2(3) by (simp add: buf_put_def)
    have "\<exists>out'. unesc_backslash cap s (out @ [c]) = Some out' \<and>
        length out' \<le> length (out @ [c]) + length s"
      by (rule 2(2) [OF False put]) (use 2(3) in simp)
    with put False show ?thesis by auto
  qed
qed simp

lemma unesc_url_bound:
  "length out + length s \<le> cap \<Longrightarrow>
   \<exists>out'. unesc_url cap s out = Some out' \<and> length out' \<le> length out + length s"
proof (induction cap s out rule: unesc_url.induct)
  case (2 cap c s out)
  have put: "buf_put out cap x = Some (out @ [x])" for x using 2(3) by (simp add: buf_put_def)
  show ?case
  proof (cases "c = CHR ''%'' \<and> c_at s 0 \<noteq> NUL \<and> c_at s 1 \<noteq> NUL")
    case True
    then have "\<exists>out'. unesc_url cap (drop 2 s)
          (out @ [char_of (16 * hex_value (c_at s 0) + hex_value (c_at s 1))]) = Some out' \<and>
        length out' \<le> length (out @ [char_of (16 * hex_value (c_at s 0) + hex_value (c_at s 1))]) +
          length (drop 2 s)"
      by (intro 2(1)) (use 2(3) put in \<open>auto\<close>)
    then obtain out' where o: "unesc_url cap (drop 2 s)
          (out @ [char_of (16 * hex_value (c_at s 0) + hex_value (c_at s 1))]) = Some out'"
      and len: "length out' \<le> Suc (length out) + length (drop 2 s)" by auto
    have "length out' \<le> length out + length (c # s)" using len by simp
    moreover have "unesc_url cap (c # s) out = Some out'" using True put o by simp
    ultimately show ?thesis by blast
  next
    case False
    let ?c = "if c = CHR ''+'' then CHR '' '' else c"
    have "\<exists>out'. unesc_url cap s (out @ [?c]) = Some out' \<and> length out' \<le> length (out @ [?c]) + length s"
      by (rule 2(2) [OF False put]) (use 2(3) in simp)
    with False put show ?thesis by auto
  qed
qed simp

lemma unesc_quote_bound:
  "length out + length s \<le> cap \<Longrightarrow>
   \<exists>out'. unesc_quote q cap s out = Some out' \<and> length out' \<le> length out + length s"
proof (induction q cap s out rule: unesc_quote.induct)
  case (2 q cap c s out)
  have put: "buf_put out cap c = Some (out @ [c])" using 2(2) by (simp add: buf_put_def)
  let ?r = "if c = q \<and> c_at s 0 = q then tl s else s"
  have "length ?r \<le> length s" by simp
  then have "\<exists>out'. unesc_quote q cap ?r (out @ [c]) = Some out' \<and>
      length out' \<le> length (out @ [c]) + length ?r"
    by (intro 2(1) [OF put]) (use 2(2) in simp)
  with put \<open>length ?r \<le> length s\<close> show ?case by (simp only: unesc_quote.simps option.case) fastforce
qed simp




subsection \<open>Round trips\<close>

lemma CPLUnescapeString_terminated:
  "nScheme = CPLES_BackslashQuotable \<Longrightarrow> unesc_backslash (4 * length e + 1) e [] = Some out \<Longrightarrow>
   length e < 2 ^ 31 - 1 \<Longrightarrow> CPLUnescapeString st e nScheme = Some (Some out)"
  "nScheme = CPLES_XML \<or> nScheme = CPLES_XML_BUT_QUOTES \<Longrightarrow>
   unesc_xml st (4 * length e + 1) e [] = Some out \<Longrightarrow>
   length e < 2 ^ 31 - 1 \<Longrightarrow> CPLUnescapeString st e nScheme = Some (Some out)"
  "nScheme = CPLES_URL \<Longrightarrow> unesc_url (4 * length e + 1) e [] = Some out \<Longrightarrow>
   length e < 2 ^ 31 - 1 \<Longrightarrow> CPLUnescapeString st e nScheme = Some (Some out)"
  "nScheme = CPLES_SQL \<and> q = CHR 0x27 \<or> nScheme = CPLES_SQLI \<and> q = CHR 0x22 \<Longrightarrow>
   unesc_quote q (4 * length e + 1) e [] = Some out \<Longrightarrow>
   length e < 2 ^ 31 - 1 \<Longrightarrow> CPLUnescapeString st e nScheme = Some (Some out)"
  using unesc_backslash_bound [of "[]" e "4 * length e + 1"]
    unesc_xml_bound [of "[]" e "4 * length e + 1" st]
    unesc_url_bound [of "[]" e "4 * length e + 1"] unesc_quote_bound [of "[]" e "4 * length e + 1" q]
  by (auto simp: CPLUnescapeString_def scheme_defs Let_def buf_put_def c_int_def)

lemma concat_map_length: "(\<And>c. c \<in> set s \<Longrightarrow> f c \<noteq> []) \<Longrightarrow> length s \<le> length (concat (map f s))"
proof (induction s)
  case (Cons c s)
  then have "f c \<noteq> []" "length s \<le> length (concat (map f s))" by simp_all
  then show ?case by (cases "f c") auto
qed simp

lemma concat_map_le: "(\<And>c. c \<in> set s \<Longrightarrow> length (f c) \<le> k) \<Longrightarrow> length (concat (map f s)) \<le> k * length s"
proof (induction s)
  case (Cons c s)
  then have "length (f c) \<le> k" "length (concat (map f s)) \<le> k * length s" by simp_all
  then show ?case by simp
qed simp

lemma c_string_concat: "(\<And>c. c \<in> set s \<Longrightarrow> NUL \<notin> set (f c)) \<Longrightarrow> c_string (concat (map f s))"
  by (auto simp: c_string_def)

lemma chars_nonempty:
  "backslash_char c \<noteq> []" "url_char c \<noteq> []" "quote_char q c \<noteq> []"
  by (simp_all add: backslash_char_def url_char_def quote_char_def)

lemma chars_length: "length (backslash_char c) \<le> 2" "length (url_char c) \<le> 3" "length (quote_char q c) \<le> 2"
  by (simp_all add: backslash_char_def url_char_def quote_char_def)

lemma xml_text_length: "length (xml_text sch s) \<le> 6 * length s"
proof (induction sch s rule: xml_text.induct)
  case (2 sch c s)
  show ?case
  proof (cases "c = CHR 0xEF \<and> take 2 s = [CHR 0xBB, CHR 0xBF]")
    case True
    then obtain t where "s = CHR 0xBB # CHR 0xBF # t" using xml_text_bom by blast
    with True 2(1) show ?thesis by simp
  next
    case False
    then have x: "xml_text sch (c # s) = xml_char sch c @ xml_text sch s" by auto
    have "length (xml_char sch c) \<le> 6" by (simp add: xml_char_def)
    then show ?thesis unfolding x using 2(2) [OF False] by simp
  qed
qed simp

lemma chars_NUL:
  "NUL \<notin> set (backslash_char c)" "NUL \<notin> set (url_char c)" "c \<noteq> NUL \<Longrightarrow> NUL \<notin> set (quote_char q c)"
proof -
  show "NUL \<notin> set (backslash_char c)" "c \<noteq> NUL \<Longrightarrow> NUL \<notin> set (quote_char q c)"
    by (auto simp: backslash_char_def quote_char_def)
  have "hex_digit (ccode c div 16) \<noteq> NUL" "hex_digit (ccode c mod 16) \<noteq> NUL"
    using hex_digit_cases [of "ccode c div 16"] hex_digit_cases [of "ccode c mod 16"] ccode_less [of c]
    by (auto simp: less_mult_imp_div_less)
  moreover have "\<not> is_url_safe NUL" by (simp add: is_url_safe_def c_isdigit_def ccode_NUL)
  ultimately show "NUL \<notin> set (url_char c)" by (auto simp: url_char_def)
qed

text \<open>Backslash escaping is undone exactly, for binary data with zero bytes, quotes, backslashes
  and newlines alike: the escaped text is a C string, and unescaping it gives the data back with
  its length.\<close>

theorem CPLEscape_backslash_roundtrip:
  assumes "2 * length s < 2 ^ 31 - 1"
  shows "\<exists>e. CPLEscapeString (s @ NUL # r) (int (length s)) CPLES_BackslashQuotable = Some (e @ [NUL]) \<and>
    c_string e \<and> CPLUnescapeString st e CPLES_BackslashQuotable = Some (Some s)"
proof -
  let ?e = "concat (map backslash_char s)"
  have "CPLEscapeString (s @ NUL # r) (int (length s)) CPLES_BackslashQuotable = Some (?e @ [NUL])"
    by (simp add: CPLEscapeString_def esc_passes_chars [OF esc_text_chars(1) pass_pairs(1)])
  moreover have "c_string ?e" using chars_NUL(1) by (auto simp: c_string_def)
  moreover have "length s \<le> length ?e" by (rule concat_map_length) (rule chars_nonempty)
  then have "CPLUnescapeString st ?e CPLES_BackslashQuotable = Some (Some s)"
    using assms concat_map_le [of s backslash_char 2] chars_length(1)
    by (intro CPLUnescapeString_terminated(1)) (simp_all add: unesc_backslash_chars)
  ultimately show ?thesis by blast
qed

text \<open>SQL literals and identifiers are escaped and unescaped without loss.\<close>

theorem CPLEscape_sql_roundtrip:
  assumes "c_string s" and "nScheme = CPLES_SQL \<or> nScheme = CPLES_SQLI" and "2 * length s < 2 ^ 31 - 1"
  shows "\<exists>e. CPLEscapeString (s @ [NUL]) (- 1) nScheme = Some (e @ [NUL]) \<and> c_string e \<and>
    CPLUnescapeString st e nScheme = Some (Some s)"
proof -
  define q where "q = (if nScheme = CPLES_SQL then CHR 0x27 else CHR 0x22)"
  let ?e = "concat (map (quote_char q) s)"
  have "CPLEscapeString (s @ [NUL]) (- 1) nScheme = Some (?e @ [NUL])"
    using assms(2)
    by (auto simp: CPLEscapeString_def c_strlen_string [OF assms(1)] scheme_defs q_def
        esc_passes_chars [OF esc_text_chars(3) pass_pairs(4)])
  moreover have "c_string ?e"
    by (rule c_string_concat, rule chars_NUL(3)) (use assms(1) in \<open>auto simp: c_string_def\<close>)
  moreover have "length s \<le> length ?e" by (rule concat_map_length) (rule chars_nonempty)
  then have "CPLUnescapeString st ?e nScheme = Some (Some s)"
    using assms(2,3) concat_map_le [of s "quote_char q" 2] chars_length(3) [of q]
    by (intro CPLUnescapeString_terminated(4) [of _ q]) (auto simp: q_def scheme_defs unesc_quote_chars)
  ultimately show ?thesis by blast
qed

theorem CPLEscape_sql_roundtrip_witness:
  "\<exists>e. CPLEscapeString (''it'' @ [CHR 0x27] @ ''s'' @ [NUL]) (- 1) CPLES_SQL = Some (e @ [NUL]) \<and>
    CPLUnescapeString no_warnings e CPLES_SQL = Some (Some (''it'' @ [CHR 0x27] @ ''s''))"
  using CPLEscape_sql_roundtrip [of "''it'' @ [CHR 0x27] @ ''s''" CPLES_SQL no_warnings]
  by (auto simp: c_string_def)

text \<open>C31: URL escaping is undone up to the plus sign: unescaping what was escaped gives the data
  back with every plus turned into a space, since the escaping pass leaves a plus as it is.  The data, zero bytes
  included, may be as long as three times its length, the size of the escaped text, stays below 2^31 - 1.\<close>

theorem CPLEscape_url_roundtrip:
  assumes "3 * length s < 2 ^ 31 - 1"
  shows "\<exists>e. CPLEscapeString (s @ NUL # r) (int (length s)) CPLES_URL = Some (e @ [NUL]) \<and>
    c_string e \<and> CPLUnescapeString st e CPLES_URL = Some (Some (map plus_space s))"
proof -
  let ?e = "concat (map url_char s)"
  have "CPLEscapeString (s @ NUL # r) (int (length s)) CPLES_URL = Some (?e @ [NUL])"
    by (simp add: CPLEscapeString_def scheme_defs esc_passes_chars [OF esc_text_chars(2) pass_pairs(3)])
  moreover have "c_string ?e" using chars_NUL(2) by (auto simp: c_string_def)
  moreover have "length s \<le> length ?e" by (rule concat_map_length) (rule chars_nonempty)
  then have "CPLUnescapeString st ?e CPLES_URL = Some (Some (map plus_space s))"
    using assms concat_map_le [of s url_char 3] chars_length(2)
    by (intro CPLUnescapeString_terminated(3)) (simp_all add: unesc_url_chars)
  ultimately show ?thesis by blast
qed

theorem CPLEscape_url_roundtrip_witness:
  "\<exists>e. CPLEscapeString (''a+b'' @ [NUL]) 3 CPLES_URL = Some (e @ [NUL]) \<and>
    CPLUnescapeString no_warnings e CPLES_URL = Some (Some ''a b'')"
  using CPLEscape_url_roundtrip [of "''a+b''" "[]" no_warnings] by (auto simp: plus_space_def)


lemmas entity_simps = unesc_xml_step_def STARTS_WITH_CI_def EQUALN_def c_tolower_def

lemma unesc_xml_entities:
  "unesc_xml_step st (CHR ''&'') (''lt;'' @ r) = Some (Some (''<'', r))"
  "unesc_xml_step st (CHR ''&'') (''gt;'' @ r) = Some (Some (''>'', r))"
  "unesc_xml_step st (CHR ''&'') (''amp;'' @ r) = Some (Some (''&'', r))"
  "unesc_xml_step st (CHR ''&'') (''quot;'' @ r) = Some (Some ([CHR 0x22], r))"
  by (simp_all add: entity_simps ccode_def)

lemma bom_text: "ref_text 0xFEFF = [CHR 0xEF, CHR 0xBB, CHR 0xBF]"
  by (simp add: ref_text_def wide_code_def utf8_seq_eq char_of_def bit_0)

lemma unesc_xml_bom:
  "unesc_xml_step st (CHR ''&'') (''#xFEFF;'' @ r) = Some (Some ([CHR 0xEF, CHR 0xBB, CHR 0xBF], r))"
proof -
  have "unesc_hex 0 (''FEFF;'' @ r) = (0xFEFF, CHR '';'', r)"
    by (simp add: c_isdigit_def ccode_def)
  then show ?thesis
    by (simp add: entity_simps ccode_def unesc_xml_ref_eq bom_text)
qed

lemma unesc_xml_plain: "c \<noteq> CHR ''&'' \<Longrightarrow> unesc_xml_step st c r = Some (Some ([c], r))"
  by (simp add: unesc_xml_step_def)

lemma unesc_xml_char:
  assumes "c \<noteq> NUL" "xml_dropped c \<or> length out < cap"
  shows "unesc_xml st cap (xml_char sch c @ r) out =
    unesc_xml st cap r (if xml_dropped c then out else out @ [c])"
proof -
  consider "c = CHR ''<''" | "c = CHR ''>''" | "c = CHR ''&''"
    | "c = CHR 0x22 \<and> sch \<noteq> CPLES_XML_BUT_QUOTES"
    | (other) "c \<noteq> CHR ''<''" "c \<noteq> CHR ''>''" "c \<noteq> CHR ''&''"
      "\<not> (c = CHR 0x22 \<and> sch \<noteq> CPLES_XML_BUT_QUOTES)"
    by blast
  then show ?thesis
  proof cases
    case other
    then have "xml_char sch c = (if xml_dropped c then [] else [c])"
      by (simp only: xml_char_def if_False)
    with other(3) assms show ?thesis by (auto simp: unesc_xml_plain buf_puts_def)
  qed (use assms unesc_xml_entities [of st r] in
      \<open>simp_all add: xml_char_def xml_dropped_def ccode_def buf_puts_def\<close>)
qed

lemma unesc_xml_text:
  "c_string s \<Longrightarrow> length out + length (filter (\<lambda>c. \<not> xml_dropped c) s) \<le> cap \<Longrightarrow>
   unesc_xml st cap (xml_text sch s) out = Some (out @ filter (\<lambda>c. \<not> xml_dropped c) s)"
proof (induction sch s arbitrary: out rule: xml_text.induct)
  case (1 sch)
  then show ?case by simp
next
  case (2 sch c s)
  show ?case
  proof (cases "c = CHR 0xEF \<and> take 2 s = [CHR 0xBB, CHR 0xBF]")
    case True
    then obtain t where t: "s = CHR 0xBB # CHR 0xBF # t" using xml_text_bom by blast
    have "unesc_xml st cap (xml_text sch t) (out @ [CHR 0xEF, CHR 0xBB, CHR 0xBF]) =
        Some ((out @ [CHR 0xEF, CHR 0xBB, CHR 0xBF]) @ filter (\<lambda>c. \<not> xml_dropped c) t)"
      using 2(1) [OF True, of "out @ [CHR 0xEF, CHR 0xBB, CHR 0xBF]"] 2(3,4) True t
      by (simp add: c_string_def xml_dropped_def ccode_def)
    then show ?thesis
      using True t 2(4) unesc_xml_bom [of st "xml_text sch t"]
      by (simp add: buf_puts_def xml_dropped_def ccode_def)
  next
    case False
    then have x: "xml_text sch (c # s) = xml_char sch c @ xml_text sch s" by auto
    have "unesc_xml st cap (xml_text sch s) (if xml_dropped c then out else out @ [c]) =
        Some ((if xml_dropped c then out else out @ [c]) @ filter (\<lambda>c. \<not> xml_dropped c) s)"
      by (rule 2(2) [OF False]) (use 2(3,4) in \<open>auto simp: c_string_def\<close>)
    then show ?thesis
      unfolding x using unesc_xml_char [of c out cap st sch "xml_text sch s"] 2(3,4)
      by (auto simp: c_string_def split: if_splits)
  qed
qed

lemma xml_text_NUL: "c_string s \<Longrightarrow> c_string (xml_text sch s)"
proof (induction sch s rule: xml_text.induct)
  case (2 sch c s)
  have "c_string (drop 2 s)" "c_string s" "NUL \<notin> set (xml_char sch c)"
    using 2(3) by (auto simp: c_string_def xml_char_def dest: in_set_dropD)
  with 2 show ?case by (simp add: c_string_def)
qed simp

lemma xml_text_kept: "length (filter (\<lambda>c. \<not> xml_dropped c) s) \<le> length (xml_text sch s)"
proof (induction sch s rule: xml_text.induct)
  case (2 sch c s)
  show ?case
  proof (cases "c = CHR 0xEF \<and> take 2 s = [CHR 0xBB, CHR 0xBF]")
    case True
    then obtain t where "s = CHR 0xBB # CHR 0xBF # t" using xml_text_bom by blast
    with True 2 show ?thesis by simp
  next
    case False
    with 2 show ?thesis by (auto simp: xml_char_def)
  qed
qed simp


text \<open>C30: XML escaping (with or without quotes) of a string with less than a sixth of 2^31 - 1 characters (an escaped
  character has up to six, and the indices of the unescaping are of type \<open>int\<close>) loses nothing but the control
  characters XML cannot carry: the escaped text is a C string, and unescaping it gives the string back without the
  characters below 0x20 other than tab, newline and carriage return.  The byte order mark, sent as
  a character reference, comes back as its three bytes.\<close>

theorem CPLEscape_xml_roundtrip:
  assumes "c_string s" and "nScheme = CPLES_XML \<or> nScheme = CPLES_XML_BUT_QUOTES" and "6 * length s < 2 ^ 31 - 1"
  shows "\<exists>e. CPLEscapeString (s @ [NUL]) (- 1) nScheme = Some (e @ [NUL]) \<and> c_string e \<and>
    CPLUnescapeString st e nScheme = Some (Some (filter (\<lambda>c. \<not> xml_dropped c) s))"
proof -
  let ?e = "xml_text nScheme s" and ?k = "filter (\<lambda>c. \<not> xml_dropped c) s"
  have "CPLEscapeString (s @ [NUL]) (- 1) nScheme = Some (?e @ [NUL])"
    using assms(2)
    by (auto simp: CPLEscapeString_def c_strlen_string [OF assms(1)] scheme_defs
        esc_passes_xml [of _ _ "[]"])
  moreover have "c_string ?e" by (rule xml_text_NUL [OF assms(1)])
  moreover have "CPLUnescapeString st ?e nScheme = Some (Some ?k)"
  proof -
    have "unesc_xml st (4 * length ?e + 1) ?e [] = Some ([] @ ?k)"
      by (rule unesc_xml_text [OF assms(1)]) (use xml_text_kept [of s nScheme] in simp)
    then show ?thesis
      using assms(2,3) xml_text_length [of nScheme s] by (intro CPLUnescapeString_terminated(2)) simp_all
  qed
  ultimately show ?thesis by blast
qed


theorem CPLEscape_xml_roundtrip_witness:
  "\<exists>e. CPLEscapeString ([CHR ''<'', CHR 0x01, CHR ''b''] @ [NUL]) (- 1) CPLES_XML = Some (e @ [NUL]) \<and>
    CPLUnescapeString no_warnings e CPLES_XML = Some (Some ''<b'')"
  using CPLEscape_xml_roundtrip [of "[CHR ''<'', CHR 0x01, CHR ''b'']" CPLES_XML no_warnings]
  by (auto simp: c_string_def xml_dropped_def ccode_def)

subsection \<open>CSV\<close>

definition csv_special :: "char set" where
  "csv_special = {CHR 0x22, CHR '','', CHR '';'', CHR 0x09, CHR 0x0A, CHR 0x0D}"

lemma mem_strcspn_stop:
  "NUL \<notin> set s \<Longrightarrow> set s \<inter> set r = {} \<Longrightarrow> c = NUL \<or> c \<in> set r \<Longrightarrow>
   mem_strcspn (s @ c # t) r = Some (length s)"
  by (induction s) auto

lemma mem_strcspn_before:
  "NUL \<notin> set s \<Longrightarrow> set s \<inter> set r \<noteq> {} \<Longrightarrow> \<exists>n. mem_strcspn (s @ t) r = Some n \<and> n < length s"
  by (induction s) auto

text \<open>CSV escaping leaves a value without commas, semicolons, quotes and line ends as it is, and
  puts any other value in double quotes with its quotes doubled.\<close>

theorem CPLEscape_csv:
  assumes "c_string s"
  shows "CPLEscapeString (s @ NUL # r) (- 1) CPLES_CSV =
    Some ((if set s \<inter> csv_special = {} then s
           else CHR 0x22 # concat (map (quote_char (CHR 0x22)) s) @ [CHR 0x22]) @ [NUL])"
proof (cases "set s \<inter> csv_special = {}")
  case True
  then have "mem_strcspn (s @ NUL # r) [CHR 0x22, CHR '','', CHR '';'', CHR 0x09, CHR 0x0A, CHR 0x0D] =
      Some (length s)"
    using assms by (intro mem_strcspn_stop) (auto simp: c_string_def csv_special_def)
  with True show ?thesis
    by (simp add: CPLEscapeString_def c_strlen_string [OF assms] scheme_defs)
next
  case False
  then obtain n where "mem_strcspn (s @ NUL # r)
      [CHR 0x22, CHR '','', CHR '';'', CHR 0x09, CHR 0x0A, CHR 0x0D] = Some n" "n < length s"
    using mem_strcspn_before [of s "[CHR 0x22, CHR '','', CHR '';'', CHR 0x09, CHR 0x0A, CHR 0x0D]"]
      assms by (auto simp: c_string_def csv_special_def)
  with False show ?thesis
    by (simp add: CPLEscapeString_def c_strlen_string [OF assms] scheme_defs
        esc_passes_chars [OF esc_text_chars(3) pass_pairs(4)])
qed

theorem CPLEscape_csv_witness:
  "CPLEscapeString (''a,b'' @ NUL # []) (- 1) CPLES_CSV =
     Some ([CHR 0x22] @ ''a,b'' @ [CHR 0x22] @ [NUL])"
  using CPLEscape_csv [of "''a,b''" "[]"] by (simp add: c_string_def csv_special_def quote_char_def)

text \<open>Given the length of a part of a string that ends right before its first special character,
  CPLEscapeString in the CSV scheme returns the part with that character instead of a terminator:
  the bytes it returns hold no NUL at all, so the result is not a C string.\<close>

theorem CPLEscape_csv_unterminated:
  assumes "c_string s" "set s \<inter> csv_special = {}" "c \<in> csv_special"
  shows "CPLEscapeString (s @ c # r) (int (length s)) CPLES_CSV = Some (s @ [c]) \<and>
    NUL \<notin> set (s @ [c])"
proof -
  have "mem_strcspn (s @ c # r) [CHR 0x22, CHR '','', CHR '';'', CHR 0x09, CHR 0x0A, CHR 0x0D] =
      Some (length s)"
    using assms by (intro mem_strcspn_stop) (auto simp: c_string_def csv_special_def)
  then show ?thesis
    using assms by (auto simp: CPLEscapeString_def scheme_defs c_string_def csv_special_def)
qed

theorem CPLEscape_csv_unterminated_witness:
  "CPLEscapeString (''ab,cd'' @ [NUL]) 2 CPLES_CSV = Some ''ab,''"
  using CPLEscape_csv_unterminated [of "''ab''" "CHR '',''" "''cd'' @ [NUL]"]
  by (simp add: c_string_def csv_special_def)

end
