(* ===== verification/StrUtil.thy ===== *)
theory StrUtil
  imports Utf8
begin

section \<open>Hexadecimal text, bounded copies and value types (port/cpl_string.cpp)\<close>

text \<open>
  CPLBinaryToHex and CPLHexToBinary with the code's conversion table, CPLStrlcpy, CPLStrlcat and
  CPLStrnlen on checked buffers, and CPLGetValueType.  The last asks CPLAtof whether a number
  overflows; that is the C library's \<open>strtod\<close>, the parameter \<open>atof_inf\<close>.
\<close>

subsection \<open>Hexadecimal text\<close>

definition achHex :: string where "achHex = ''0123456789ABCDEF''"

text \<open>\<open>for (i = 0; i < nBytes; ++i)\<close>, the two characters of a byte going to \<open>2 * i\<close> and \<open>2 * i + 1\<close>.\<close>

function CPLBinaryToHex_loop :: "nat list \<Rightarrow> nat \<Rightarrow> nat \<Rightarrow> string \<Rightarrow> string option" where
  "CPLBinaryToHex_loop pabyData nBytes i pszHex =
     (if i < nBytes then do {
        b \<leftarrow> arr_get pabyData (int i);
        pszHex \<leftarrow> arr_set pszHex (int (i * 2)) (achHex ! drop_bit 4 (b AND 0xf0));
        pszHex \<leftarrow> arr_set pszHex (int (i * 2 + 1)) (achHex ! (b AND 0x0f));
        CPLBinaryToHex_loop pabyData nBytes (i + 1) pszHex
      } else Some pszHex)"
  by pat_completeness auto
termination by (relation "measure (\<lambda>(d, n, i, h). n - i)") auto

declare CPLBinaryToHex_loop.simps [simp del]

text \<open>Fresh memory is modelled by zeros; all of it is written.\<close>

definition CPLBinaryToHex :: "nat \<Rightarrow> nat list \<Rightarrow> string option" where
  "CPLBinaryToHex nBytes pabyData = do {
     _ \<leftarrow> c_int (int nBytes * 2 + 1);
     pszHex \<leftarrow> arr_set (replicate (nBytes * 2 + 1) NUL) (int (nBytes * 2)) NUL;
     CPLBinaryToHex_loop pabyData nBytes 0 pszHex
   }"

definition hex2char :: "nat list" where
  "hex2char =
     replicate 48 0 @
     [0, 1, 2, 3, 4, 5, 6, 7, 8, 9, 0, 0, 0, 0, 0, 0] @
     [0, 10, 11, 12, 13, 14, 15, 0, 0, 0, 0, 0, 0, 0, 0, 0] @
     replicate 16 0 @
     [0, 10, 11, 12, 13, 14, 15, 0, 0, 0, 0, 0, 0, 0, 0, 0, 0, 0, 0, 0, 0, 0, 0,
      0, 0, 0, 0, 0, 0, 0, 0, 0] @
     replicate 128 0"

function CPLHexToBinary_loop :: "string \<Rightarrow> nat \<Rightarrow> nat \<Rightarrow> nat list \<Rightarrow> nat list option" where
  "CPLHexToBinary_loop pszHex nHexLen i pabyWKB =
     (if i < nHexLen div 2 then do {
        c1 \<leftarrow> arr_get pszHex (int (2 * i));
        c2 \<leftarrow> arr_get pszHex (int (2 * i + 1));
        let h1 = hex2char ! ccode c1;
        let h2 = hex2char ! ccode c2;
        pabyWKB \<leftarrow> arr_set pabyWKB (int i) ((push_bit 4 h1 OR h2) mod 256);
        CPLHexToBinary_loop pszHex nHexLen (i + 1) pabyWKB
      } else Some pabyWKB)"
  by pat_completeness auto
termination by (relation "measure (\<lambda>(h, n, i, d). n - i)") auto

declare CPLHexToBinary_loop.simps [simp del]

text \<open>The buffer and \<open>*pnBytes\<close>.\<close>

definition CPLHexToBinary :: "string \<Rightarrow> (nat list \<times> nat) option" where
  "CPLHexToBinary pszHex = do {
     nHexLen \<leftarrow> c_strlen pszHex;
     pabyWKB \<leftarrow> CPLHexToBinary_loop pszHex nHexLen 0 (replicate (nHexLen div 2 + 2) 0);
     pabyWKB \<leftarrow> arr_set pabyWKB (int (nHexLen div 2)) 0;
     Some (pabyWKB, nHexLen div 2)
   }"

subsection \<open>Bounded copies\<close>

text \<open>The loop copies until \<open>nDestSize\<close> is used up or the source ends; \<open>k\<close> is the position in both.
  The source is a C string.\<close>

function CPLStrlcpy_loop :: "string \<Rightarrow> int \<Rightarrow> string \<Rightarrow> nat \<Rightarrow> nat \<Rightarrow> (string \<times> nat) option" where
  "CPLStrlcpy_loop dest off src k nDestSize =
     (if nDestSize \<noteq> 0 \<and> c_at src k \<noteq> NUL then
        (case arr_set dest (off + int k) (c_at src k) of
           None \<Rightarrow> None
         | Some dest' \<Rightarrow> CPLStrlcpy_loop dest' off src (k + 1) (nDestSize - 1))
      else Some (dest, k))"
  by pat_completeness auto
termination by (relation "measure (\<lambda>(d, off, s, k, n). n)") auto

declare CPLStrlcpy_loop.simps [simp del]

definition CPLStrlcpy_at :: "string \<Rightarrow> int \<Rightarrow> string \<Rightarrow> nat \<Rightarrow> (string \<times> nat) option" where
  "CPLStrlcpy_at dest off pszSrc nDestSize =
     (if nDestSize = 0 then Some (dest, length pszSrc)
      else do {
        (dest, k) \<leftarrow> CPLStrlcpy_loop dest off pszSrc 0 (nDestSize - 1);
        dest \<leftarrow> arr_set dest (off + int k) NUL;
        Some (dest, k + length (drop k pszSrc))
      })"

definition CPLStrlcpy :: "string \<Rightarrow> string \<Rightarrow> nat \<Rightarrow> (string \<times> nat) option" where
  "CPLStrlcpy pszDest pszSrc nDestSize = CPLStrlcpy_at pszDest 0 pszSrc nDestSize"

fun CPLStrlcat_skip :: "string \<Rightarrow> nat \<Rightarrow> nat \<Rightarrow> (nat \<times> nat) option" where
  "CPLStrlcat_skip d k 0 = Some (k, 0)"
| "CPLStrlcat_skip d k (Suc n) =
     (case arr_get d (int k) of
        None \<Rightarrow> None
      | Some c \<Rightarrow> if c \<noteq> NUL then CPLStrlcat_skip d (k + 1) n else Some (k, Suc n))"

definition CPLStrlcat :: "string \<Rightarrow> string \<Rightarrow> nat \<Rightarrow> (string \<times> nat) option" where
  "CPLStrlcat pszDest pszSrc nDestSize = do {
     (k, n) \<leftarrow> CPLStrlcat_skip pszDest 0 nDestSize;
     (dest, ret) \<leftarrow> CPLStrlcpy_at pszDest (int k) pszSrc n;
     Some (dest, k + ret)
   }"

fun CPLStrnlen_loop :: "string \<Rightarrow> nat \<Rightarrow> nat \<Rightarrow> nat option" where
  "CPLStrnlen_loop m nLen 0 = Some nLen"
| "CPLStrnlen_loop m nLen (Suc n) =
     (case arr_get m (int nLen) of
        None \<Rightarrow> None
      | Some c \<Rightarrow> if c \<noteq> NUL then CPLStrnlen_loop m (nLen + 1) n else Some nLen)"

definition CPLStrnlen :: "string \<Rightarrow> nat \<Rightarrow> nat option" where
  "CPLStrnlen pszStr nMaxLen = CPLStrnlen_loop pszStr 0 nMaxLen"

subsection \<open>The type of a value\<close>

datatype CPLValueType = CPL_VALUE_STRING | CPL_VALUE_REAL | CPL_VALUE_INTEGER

text \<open>The state of the scan; \<open>pszAfterExponent\<close> is the text after the exponent character.\<close>

record value_scan =
  bFoundDot :: bool
  bFoundExponent :: bool
  bIsLastCharExponent :: bool
  bIsReal :: bool
  pszAfterExponent :: "string option"
  bFoundMantissa :: bool

text \<open>The loop body for the character \<open>c\<close> with \<open>s\<close> after it: a \<open>return CPL_VALUE_STRING\<close>, the
  \<open>break\<close> at trailing spaces, or the next state.\<close>

datatype scan_step = Scan_String | Scan_Break | Scan_Next value_scan

definition CPLGetValueType_step :: "value_scan \<Rightarrow> char \<Rightarrow> string \<Rightarrow> scan_step" where
  "CPLGetValueType_step st c s =
     (if c_isdigit c then Scan_Next (st\<lparr>bIsLastCharExponent := False, bFoundMantissa := True\<rparr>)
      else if c_isspace c then (if dropWhile c_isspace s = [] then Scan_Break else Scan_String)
      else if c = CHR ''-'' \<or> c = CHR ''+'' then
        (if bIsLastCharExponent st then Scan_Next (st\<lparr>bIsLastCharExponent := False\<rparr>) else Scan_String)
      else if c = CHR ''.'' then
        (if \<not> bFoundDot st \<and> \<not> bIsLastCharExponent st
         then Scan_Next (st\<lparr>bIsReal := True, bFoundDot := True, bIsLastCharExponent := False\<rparr>)
         else Scan_String)
      else if c = CHR ''D'' \<or> c = CHR ''d'' \<or> c = CHR ''E'' \<or> c = CHR ''e'' then
        (if \<not> bFoundMantissa st then Scan_String
         else if \<not> (c_at s 0 = CHR ''+'' \<or> c_at s 0 = CHR ''-'' \<or> c_isdigit (c_at s 0)) then Scan_String
         else if bFoundExponent st then Scan_String
         else Scan_Next (st\<lparr>bIsReal := True, bFoundExponent := True, pszAfterExponent := Some s,
                           bIsLastCharExponent := True\<rparr>))
      else Scan_String)"

fun CPLGetValueType_loop :: "value_scan \<Rightarrow> string \<Rightarrow> value_scan option" where
  "CPLGetValueType_loop st [] = Some st"
| "CPLGetValueType_loop st (c # s) =
     (case CPLGetValueType_step st c s of
        Scan_String \<Rightarrow> None
      | Scan_Break \<Rightarrow> Some st
      | Scan_Next st' \<Rightarrow> CPLGetValueType_loop st' s)"

definition skip_sign :: "string \<Rightarrow> string" where
  "skip_sign s = (if c_at s 0 = CHR ''+'' \<or> c_at s 0 = CHR ''-'' then tl s else s)"

definition CPLGetValueType :: "(string \<Rightarrow> bool) \<Rightarrow> string option \<Rightarrow> CPLValueType" where
  "CPLGetValueType atof_inf pszValue =
     (case pszValue of
        None \<Rightarrow> CPL_VALUE_STRING
      | Some pszValueInit \<Rightarrow>
          let s = dropWhile c_isspace pszValueInit
          in if s = [] then CPL_VALUE_STRING
             else case CPLGetValueType_loop
                    \<lparr>bFoundDot = False, bFoundExponent = False, bIsLastCharExponent = False,
                     bIsReal = False, pszAfterExponent = None, bFoundMantissa = False\<rparr> (skip_sign s) of
                    None \<Rightarrow> CPL_VALUE_STRING
                  | Some st \<Rightarrow>
                      if bIsReal st \<and> (case pszAfterExponent st of None \<Rightarrow> False | Some e \<Rightarrow> length e > 3) \<and>
                         atof_inf pszValueInit
                      then CPL_VALUE_STRING
                      else if bIsReal st then CPL_VALUE_REAL else CPL_VALUE_INTEGER)"

subsection \<open>Lemmas\<close>

lemma hex2char_table:
  assumes "n < 16"
  shows "hex2char ! ccode (achHex ! n) = n" "achHex ! n \<noteq> NUL"
proof -
  have "\<forall>n\<in>set [0..<16]. hex2char ! ccode (achHex ! n) = n \<and> achHex ! n \<noteq> NUL"
    by code_simp
  with assms show "hex2char ! ccode (achHex ! n) = n" "achHex ! n \<noteq> NUL" by auto
qed

definition hex_pair :: "nat \<Rightarrow> string" where
  "hex_pair b = [achHex ! (b div 16), achHex ! (b mod 16)]"

lemma nibbles: "b < 256 \<Longrightarrow> drop_bit 4 (b AND 0xf0) = b div 16"
  "b < 256 \<Longrightarrow> drop_bit 4 b mod 16 = b div 16" "(b::nat) AND 0x0f = b mod 16"
proof -
  assume b: "b < 256"
  have "b AND 0xf0 = push_bit 4 (drop_bit 4 b AND 0x0f)"
    using and_push_bit [of b 4 15] by (simp add: push_bit_eq_mult)
  then show "drop_bit 4 (b AND 0xf0) = b div 16"
    using b by (simp add: and_mask_nat drop_bit_eq_div push_bit_eq_mult less_mult_imp_div_less)
qed (simp_all add: and_mask_nat drop_bit_eq_div less_mult_imp_div_less)

lemma CPLBinaryToHex_loop_result:
  assumes "\<forall>b\<in>set xs. b < 256"
  shows "length h = 2 * length ys \<Longrightarrow> length r = 2 * length xs \<Longrightarrow>
    CPLBinaryToHex_loop (ys @ xs @ zs) (length ys + length xs) (length ys) (h @ r @ t) =
      Some (h @ concat (map hex_pair xs) @ t)"
  using assms
proof (induction xs arbitrary: ys h r)
  case Nil
  then show ?case by (simp add: CPLBinaryToHex_loop.simps)
next
  case (Cons b xs)
  obtain r0 r1 r' where r: "r = r0 # r1 # r'" "length r' = 2 * length xs"
    using Cons.prems(2) by (cases r; cases "tl r") auto
  have get: "arr_get (ys @ (b # xs) @ zs) (int (length ys)) = Some b" by simp
  have set0: "arr_set (h @ (r0 # r1 # r') @ t) (int (length ys * 2)) x = Some (h @ (x # r1 # r') @ t)" for x
    using arr_set_mid [of h r0 "r1 # r' @ t" x] Cons.prems(1) by (simp add: mult.commute)
  have set1: "arr_set (h @ (y # r1 # r') @ t) (int (length ys * 2 + 1)) x = Some (h @ (y # x # r') @ t)" for x y
    using arr_set_mid [of "h @ [y]" r1 "r' @ t" x] Cons.prems(1) by (simp add: mult.commute add.commute)
  have "CPLBinaryToHex_loop (ys @ (b # xs) @ zs) (length ys + length (b # xs)) (length ys) (h @ r @ t) =
      CPLBinaryToHex_loop ((ys @ [b]) @ xs @ zs) (length (ys @ [b]) + length xs) (length (ys @ [b]))
        ((h @ hex_pair b) @ r' @ t)"
    unfolding r(1) using Cons.prems(3)
    by (subst CPLBinaryToHex_loop.simps)
      (simp only: get set0 set1 bind.bind_lunit, simp add: nibbles hex_pair_def)
  also have "\<dots> = Some ((h @ hex_pair b) @ concat (map hex_pair xs) @ t)"
    using Cons.prems r(2) by (intro Cons.IH) (auto simp: hex_pair_def)
  finally show ?case by simp
qed


lemma hex_pair_back:
  assumes "b < 256"
  shows "(push_bit 4 (hex2char ! ccode (achHex ! (b div 16))) OR hex2char ! ccode (achHex ! (b mod 16))) mod 256 = b"
proof -
  have "b div 16 < 16" using assms by (simp add: less_mult_imp_div_less)
  then show ?thesis
    using hex2char_table(1) [of "b div 16"] hex2char_table(1) [of "b mod 16"]
      or_push_bit [of "b mod 16" 4 "b div 16"] assms
    by (simp add: push_bit_eq_mult)
qed

lemma CPLHexToBinary_loop_result:
  assumes "\<forall>b\<in>set xs. b < 256"
  shows "length p = 2 * length d \<Longrightarrow> length r = length xs \<Longrightarrow>
    CPLHexToBinary_loop (p @ concat (map hex_pair xs) @ t) (2 * (length d + length xs)) (length d) (d @ r @ u) =
      Some (d @ xs @ u)"
  using assms
proof (induction xs arbitrary: p d r)
  case Nil
  then show ?case by (simp add: CPLHexToBinary_loop.simps)
next
  case (Cons b xs)
  obtain r0 r' where r: "r = r0 # r'" "length r' = length xs" using Cons.prems(2) by (cases r) auto
  let ?m = "p @ concat (map hex_pair (b # xs)) @ t"
  have get0: "arr_get ?m (int (2 * length d)) = Some (achHex ! (b div 16))"
    using arr_get_mid [of p "achHex ! (b div 16)"] Cons.prems(1) by (simp add: hex_pair_def)
  have get1: "arr_get ?m (int (2 * length d + 1)) = Some (achHex ! (b mod 16))"
    using arr_get_mid [of "p @ [achHex ! (b div 16)]" "achHex ! (b mod 16)"] Cons.prems(1)
    by (simp add: hex_pair_def add.commute)
  have set: "arr_set (d @ (r0 # r') @ u) (int (length d)) b = Some (d @ (b # r') @ u)" by simp
  have "CPLHexToBinary_loop ?m (2 * (length d + length (b # xs))) (length d) (d @ r @ u) =
      CPLHexToBinary_loop ((p @ hex_pair b) @ concat (map hex_pair xs) @ t)
        (2 * (length (d @ [b]) + length xs)) (length (d @ [b])) ((d @ [b]) @ r' @ u)"
    unfolding r(1) using Cons.prems(3) hex_pair_back [of b]
    by (subst CPLHexToBinary_loop.simps)
      (simp only: get0 get1 bind.bind_lunit Let_def, simp only: hex_pair_back set list.set_intros
        bind.bind_lunit, simp)
  also have "\<dots> = Some ((d @ [b]) @ xs @ u)"
    using Cons.prems r(2) by (intro Cons.IH) (auto simp: hex_pair_def)
  finally show ?case by simp
qed

text \<open>Hexadecimal text decodes to the bytes it was made from: CPLBinaryToHex writes two digits
  for each byte and a terminator into its block, without leaving it, and CPLHexToBinary reads the
  bytes back, with their number.\<close>

theorem CPLBinaryToHex_roundtrip:
  assumes "\<forall>b\<in>set data. b < 256" and "length data < 2 ^ 30"
  shows "\<exists>hex. CPLBinaryToHex (length data) data = Some (hex @ [NUL]) \<and> length hex = 2 * length data \<and>
    c_string hex \<and> CPLHexToBinary (hex @ [NUL]) = Some (data @ [0, 0], length data)"
proof -
  let ?hex = "concat (map hex_pair data)"
  have len: "length ?hex = 2 * length data" by (induction data) (auto simp: hex_pair_def)
  have str: "c_string ?hex"
  proof -
    have "NUL \<notin> set (hex_pair b)" if "b < 256" for b
      using hex2char_table(2) [of "b div 16"] hex2char_table(2) [of "b mod 16"] that
      by (auto simp: hex_pair_def less_mult_imp_div_less)
    then show ?thesis using assms(1) by (auto simp: c_string_def)
  qed
  have "arr_set (replicate (length data * 2 + 1) NUL) (int (length data * 2)) NUL =
      Some (replicate (length data * 2) NUL @ [NUL])"
    using arr_set_mid [of "replicate (length data * 2) NUL" NUL "[]" NUL]
    by (simp add: replicate_append_same)
  then have "CPLBinaryToHex (length data) data = Some (?hex @ [NUL])"
    using CPLBinaryToHex_loop_result [OF assms(1), of "[]" "[]" "replicate (length data * 2) NUL" "[]" "[NUL]"] assms(2)
    by (simp add: CPLBinaryToHex_def c_int_def)
  moreover have "CPLHexToBinary (?hex @ [NUL]) = Some (data @ [0, 0], length data)"
  proof -
    have "CPLHexToBinary_loop (?hex @ [NUL]) (2 * length data) 0 (replicate (length data) 0 @ [0, 0]) =
        Some (data @ [0, 0])"
      using CPLHexToBinary_loop_result [OF assms(1), of "[]" "[]" "replicate (length data) 0" "[NUL]" "[0, 0]"]
      by simp
    moreover have "replicate (length data + 2) (0::nat) = replicate (length data) 0 @ [0, 0]"
      unfolding replicate_add by (simp add: numeral_2_eq_2)
    moreover have "arr_set (data @ [0, 0]) (int (length data)) 0 = Some (data @ [0, 0])" by simp
    ultimately show ?thesis
      using c_strlen_string [OF str, of "[]"] len by (simp add: CPLHexToBinary_def)
  qed
  ultimately show ?thesis using len str by blast
qed

theorem CPLBinaryToHex_roundtrip_witness:
  "\<exists>hex. CPLBinaryToHex 3 [0, 171, 255] = Some (hex @ [NUL]) \<and>
    CPLHexToBinary (hex @ [NUL]) = Some ([0, 171, 255, 0, 0], 3)"
  using CPLBinaryToHex_roundtrip [of "[0, 171, 255]"] by (auto simp: numeral_3_eq_3)

subsection \<open>Bounded copies keep their contract\<close>

lemma CPLStrlcpy_loop_result:
  "c_string s \<Longrightarrow> n \<le> length m \<Longrightarrow> k \<le> length s \<Longrightarrow>
   CPLStrlcpy_loop (d @ take k s @ m) (int (length d)) s k n =
     Some (d @ take (k + n) s @ drop (min n (length s - k)) m, min (k + n) (length s))"
proof (induction n arbitrary: k m)
  case 0
  then show ?case by (simp add: CPLStrlcpy_loop.simps min_def)
next
  case (Suc n)
  show ?case
  proof (cases "k < length s")
    case False
    with Suc.prems show ?thesis by (simp add: CPLStrlcpy_loop.simps c_at_def)
  next
    case True
    have "c_at s k \<in> set s" using True by (simp add: c_at_def)
    then have nz: "c_at s k \<noteq> NUL" using Suc.prems(1) by (auto simp: c_string_def)
    obtain x m' where m: "m = x # m'" using Suc.prems(2) by (cases m) auto
    have set: "arr_set (d @ take k s @ m) (int (length d) + int k) (c_at s k) =
        Some (d @ take (Suc k) s @ m')"
      using arr_set_mid [of "d @ take k s" x m' "c_at s k"] True m
      by (simp add: c_at_def take_Suc_conv_app_nth)
    have "CPLStrlcpy_loop (d @ take k s @ m) (int (length d)) s k (Suc n) =
        CPLStrlcpy_loop (d @ take (Suc k) s @ m') (int (length d)) s (Suc k) n"
      using nz set by (subst CPLStrlcpy_loop.simps) simp
    also have "\<dots> = Some (d @ take (Suc k + n) s @ drop (min n (length s - Suc k)) m',
        min (Suc k + n) (length s))"
      using Suc.prems True m by (intro Suc.IH) auto
    also have "drop (min n (length s - Suc k)) m' = drop (min (Suc n) (length s - k)) m"
    proof -
      have "min (Suc n) (length s - k) = Suc (min n (length s - Suc k))" using True by auto
      then show ?thesis by (simp only: m drop_Suc_Cons)
    qed
    finally show ?thesis by simp
  qed
qed

lemma CPLStrlcpy_at_result:
  assumes "c_string s" "0 < n" "n \<le> length m"
  shows "CPLStrlcpy_at (d @ m) (int (length d)) s n =
    Some (d @ take (n - 1) s @ NUL # drop (min n (length s + 1)) m, length s)"
proof -
  let ?k = "min (n - 1) (length s)"
  have "CPLStrlcpy_loop (d @ take 0 s @ m) (int (length d)) s 0 (n - 1) =
      Some (d @ take (n - 1) s @ drop ?k m, ?k)"
    using CPLStrlcpy_loop_result [OF assms(1), of "n - 1" m 0 d] assms(3) by simp
  moreover obtain x m' where m: "drop ?k m = x # m'" "m' = drop (Suc ?k) m"
    using assms(2,3) by (metis Cons_nth_drop_Suc Suc_pred diff_less less_le_trans min.strict_coboundedI1 zero_less_one)
  moreover have "int (length d) + int ?k = int (length (d @ take (n - 1) s))" by (simp add: min.commute)
  then have "arr_set (d @ take (n - 1) s @ x # m') (int (length d) + int ?k) NUL =
      Some (d @ take (n - 1) s @ NUL # m')"
    using arr_set_mid [of "d @ take (n - 1) s" x m' NUL] by simp
  moreover have "min n (length s + 1) = Suc ?k" using assms(2) by auto
  moreover have "?k + length (drop ?k s) = length s" by auto
  ultimately show ?thesis using assms(2) by (simp add: CPLStrlcpy_at_def)
qed

lemma CPLStrlcat_skip_result:
  "NUL \<notin> set d' \<Longrightarrow> length d' < n \<Longrightarrow>
   CPLStrlcat_skip (d @ d' @ NUL # m) (length d) n = Some (length d + length d', n - length d')"
proof (induction d' arbitrary: d n)
  case Nil
  then show ?case by (cases n) auto
next
  case (Cons c d')
  then obtain k where n: "n = Suc k" by (cases n) auto
  have get: "arr_get (d @ (c # d') @ NUL # m) (int (length d)) = Some c" by simp
  have "CPLStrlcat_skip (d @ (c # d') @ NUL # m) (length d) n =
      CPLStrlcat_skip ((d @ [c]) @ d' @ NUL # m) (length (d @ [c])) k"
    unfolding n CPLStrlcat_skip.simps get using Cons.prems(1) by auto
  also have "\<dots> = Some (length (d @ [c]) + length d', k - length d')"
    by (rule Cons.IH) (use Cons.prems n in auto)
  finally show ?case using n by simp
qed

text \<open>C40: CPLStrlcpy and CPLStrlcat keep the contract of \<open>strlcpy\<close> and \<open>strlcat\<close>: behind a string
  \<open>d\<close> that ends within the \<open>nDestSize\<close> bytes of the buffer, CPLStrlcat writes as much of the source
  as leaves room for the terminator, changes nothing after that, and returns the length the full
  concatenation would have; CPLStrlcpy is the case of an empty \<open>d\<close>.\<close>

theorem CPLStrlcat_contract:
  assumes "c_string d" "c_string src" "length d < nDestSize" "nDestSize \<le> length (d @ NUL # m)"
  shows "CPLStrlcat (d @ NUL # m) src nDestSize =
      Some (take (nDestSize - 1) (d @ src) @ NUL #
              drop (min nDestSize (length d + length src + 1)) (d @ NUL # m), length d + length src) \<and>
    CPLStrlcpy (d @ NUL # m) src nDestSize =
      Some (take (nDestSize - 1) src @ NUL # drop (min nDestSize (length src + 1)) (d @ NUL # m),
            length src)"
proof -
  have "CPLStrlcat_skip (d @ NUL # m) 0 nDestSize = Some (length d, nDestSize - length d)"
    using CPLStrlcat_skip_result [of d nDestSize "[]" m] assms by (simp add: c_string_def)
  moreover have "CPLStrlcpy_at (d @ NUL # m) (int (length d)) src (nDestSize - length d) =
      Some (d @ take (nDestSize - length d - 1) src @ NUL #
        drop (min (nDestSize - length d) (length src + 1)) (NUL # m), length src)"
    by (rule CPLStrlcpy_at_result [OF assms(2)]) (use assms in auto)
  moreover have "min nDestSize (length d + length src + 1) =
      length d + min (nDestSize - length d) (length src + 1)"
    using assms(3) by auto
  moreover have "take (nDestSize - 1) (d @ src) = d @ take (nDestSize - length d - 1) src"
    using assms(3) by simp
  ultimately have "CPLStrlcat (d @ NUL # m) src nDestSize =
      Some (take (nDestSize - 1) (d @ src) @ NUL #
              drop (min nDestSize (length d + length src + 1)) (d @ NUL # m), length d + length src)"
    by (simp add: CPLStrlcat_def)
  moreover have "CPLStrlcpy (d @ NUL # m) src nDestSize =
      Some (take (nDestSize - 1) src @ NUL # drop (min nDestSize (length src + 1)) (d @ NUL # m),
            length src)"
    using CPLStrlcpy_at_result [OF assms(2), of nDestSize "d @ NUL # m" "[]"] assms(3,4)
    by (simp add: CPLStrlcpy_def)
  ultimately show ?thesis by blast
qed

theorem CPLStrlcat_contract_witness:
  "CPLStrlcat (''ab'' @ NUL # ''xy'') ''cde'' 5 = Some (''abcd'' @ [NUL], 5)"
  using CPLStrlcat_contract [of "''ab''" "''cde''" 5 "''xy''"] by (simp add: c_string_def)

subsection \<open>Which values are integers\<close>

lemma value_loop_digits:
  "\<not> bIsReal st \<Longrightarrow> \<forall>c\<in>set ds. c_isdigit c \<Longrightarrow> \<forall>c\<in>set w. c_isspace c \<Longrightarrow>
   \<exists>st'. CPLGetValueType_loop st (ds @ w) = Some st' \<and> \<not> bIsReal st'"
proof (induction ds arbitrary: st)
  case Nil
  show ?case
  proof (cases w)
    case (Cons c w')
    have "\<not> c_isdigit c" using Nil.prems Cons by (auto simp: c_isspace_def c_isdigit_def)
    moreover have "dropWhile c_isspace w' = []" using Nil.prems Cons by (simp add: dropWhile_eq_Nil_conv)
    ultimately show ?thesis using Nil.prems Cons by (simp add: CPLGetValueType_step_def)
  qed (use Nil in simp)
next
  case (Cons c ds)
  then show ?case by (simp add: CPLGetValueType_step_def)
qed

lemma value_step_facts:
  "case CPLGetValueType_step st c s of
     Scan_Next st' \<Rightarrow> (bIsReal st \<longrightarrow> bIsReal st') \<and>
       (\<not> c_isdigit c \<longrightarrow> \<not> c_isspace c \<longrightarrow> \<not> bIsLastCharExponent st \<longrightarrow> bIsReal st')
   | Scan_Break \<Rightarrow> c_isspace c \<and> dropWhile c_isspace s = []
   | Scan_String \<Rightarrow> True"
  by (simp add: CPLGetValueType_step_def)

lemma value_step_real:
  "CPLGetValueType_step st c s = Scan_Next st' \<Longrightarrow> bIsReal st \<Longrightarrow> bIsReal st'"
  using value_step_facts [where st = st and c = c and s = s] by simp

lemma value_loop_real: "CPLGetValueType_loop st s = Some st' \<Longrightarrow> bIsReal st \<Longrightarrow> bIsReal st'"
proof (induction st s rule: CPLGetValueType_loop.induct)
  case (2 st c s)
  then show ?case by (cases "CPLGetValueType_step st c s") (auto dest: value_step_real)
qed simp

lemma value_step_other:
  "\<not> c_isdigit c \<Longrightarrow> \<not> c_isspace c \<Longrightarrow> \<not> bIsLastCharExponent st \<Longrightarrow>
   CPLGetValueType_step st c s = Scan_Next st' \<Longrightarrow> bIsReal st'"
  using value_step_facts [where st = st and c = c and s = s] by simp

lemma value_step_break:
  "CPLGetValueType_step st c s = Scan_Break \<Longrightarrow> c_isspace c \<and> dropWhile c_isspace s = []"
  using value_step_facts [where st = st and c = c and s = s] by simp

lemma value_loop_integer:
  "CPLGetValueType_loop st s = Some st' \<Longrightarrow> \<not> bIsReal st' \<Longrightarrow> \<not> bIsLastCharExponent st \<Longrightarrow>
   \<exists>ds w. s = ds @ w \<and> (\<forall>c\<in>set ds. c_isdigit c) \<and> (\<forall>c\<in>set w. c_isspace c)"
proof (induction st s rule: CPLGetValueType_loop.induct)
  case (1 st)
  then show ?case by simp
next
  case (2 st c s)
  consider (digit) "c_isdigit c" | (space) "\<not> c_isdigit c" "c_isspace c"
    | (other) "\<not> c_isdigit c" "\<not> c_isspace c" by blast
  then show ?case
  proof cases
    case digit
    with 2 have "\<exists>ds w. s = ds @ w \<and> (\<forall>c\<in>set ds. c_isdigit c) \<and> (\<forall>c\<in>set w. c_isspace c)"
      by (simp add: CPLGetValueType_step_def)
    then obtain ds w where "s = ds @ w" "\<forall>c\<in>set ds. c_isdigit c" "\<forall>c\<in>set w. c_isspace c" by blast
    with digit show ?thesis by (intro exI [of _ "c # ds"] exI [of _ w]) auto
  next
    case space
    with 2(2) have "dropWhile c_isspace s = []"
      by (simp add: CPLGetValueType_step_def split: if_splits)
    then have "\<forall>x\<in>set s. c_isspace x" by (simp add: dropWhile_eq_Nil_conv)
    with space show ?thesis by (intro exI [of _ "[]"] exI [of _ "c # s"]) auto
  next
    case other
    then show ?thesis
      using 2(2-4) value_step_other [where st = st and c = c and s = s] value_step_break [where st = st and c = c and s = s] value_loop_real
      by (cases "CPLGetValueType_step st c s") auto
  qed
qed

text \<open>CPLGetValueType answers integer exactly for white space, an optional sign, digits and
  white space, where the digits may be missing when there is a sign: so a lone \<open>+\<close> or \<open>-\<close> is an
  integer for it.\<close>

theorem CPLGetValueType_integer_iff:
  "CPLGetValueType atof_inf (Some v) = CPL_VALUE_INTEGER \<longleftrightarrow>
    (\<exists>w sg ds w'. v = w @ sg @ ds @ w' \<and> (\<forall>c\<in>set w. c_isspace c) \<and> sg \<in> {[], ''+'', ''-''} \<and>
       (\<forall>c\<in>set ds. c_isdigit c) \<and> (\<forall>c\<in>set w'. c_isspace c) \<and> sg @ ds \<noteq> [])"
proof -
  define st0 where "st0 = \<lparr>bFoundDot = False, bFoundExponent = False, bIsLastCharExponent = False,
    bIsReal = False, pszAfterExponent = None, bFoundMantissa = False\<rparr>"
  let ?s = "dropWhile c_isspace v"
  have I: "CPLGetValueType atof_inf (Some v) = CPL_VALUE_INTEGER \<longleftrightarrow>
      ?s \<noteq> [] \<and> (\<exists>st. CPLGetValueType_loop st0 (skip_sign ?s) = Some st \<and> \<not> bIsReal st)"
    by (auto simp: CPLGetValueType_def Let_def st0_def split: option.splits)
  have v: "v = takeWhile c_isspace v @ ?s" by simp
  have sg: "\<exists>sg. ?s = sg @ skip_sign ?s \<and> sg \<in> {[], ''+'', ''-''}"
    by (cases ?s) (auto simp: skip_sign_def c_at_def)
  show ?thesis
  proof
    assume "CPLGetValueType atof_inf (Some v) = CPL_VALUE_INTEGER"
    then obtain st where ne: "?s \<noteq> []" and l: "CPLGetValueType_loop st0 (skip_sign ?s) = Some st" "\<not> bIsReal st"
      using I by blast
    obtain sg where s: "?s = sg @ skip_sign ?s" "sg \<in> {[], ''+'', ''-''}" using sg by blast
    obtain ds w' where d: "skip_sign ?s = ds @ w'" "\<forall>c\<in>set ds. c_isdigit c" "\<forall>c\<in>set w'. c_isspace c"
      using value_loop_integer [OF l] by (auto simp: st0_def)
    have "sg @ ds \<noteq> []"
    proof
      assume "sg @ ds = []"
      then have "?s = w'" using s d by simp
      then have "c_isspace (hd ?s)" using ne d(3) by (metis hd_in_set)
      with hd_dropWhile [OF ne] show False by simp
    qed
    then show "\<exists>w sg ds w'. v = w @ sg @ ds @ w' \<and> (\<forall>c\<in>set w. c_isspace c) \<and> sg \<in> {[], ''+'', ''-''} \<and>
       (\<forall>c\<in>set ds. c_isdigit c) \<and> (\<forall>c\<in>set w'. c_isspace c) \<and> sg @ ds \<noteq> []"
      using v s d by (metis set_takeWhileD)
  next
    assume "\<exists>w sg ds w'. v = w @ sg @ ds @ w' \<and> (\<forall>c\<in>set w. c_isspace c) \<and> sg \<in> {[], ''+'', ''-''} \<and>
       (\<forall>c\<in>set ds. c_isdigit c) \<and> (\<forall>c\<in>set w'. c_isspace c) \<and> sg @ ds \<noteq> []"
    then obtain w sg ds w' where v': "v = w @ sg @ ds @ w'" and w: "\<forall>c\<in>set w. c_isspace c"
      and sg': "sg \<in> {[], ''+'', ''-''}" and ds: "\<forall>c\<in>set ds. c_isdigit c" "\<forall>c\<in>set w'. c_isspace c"
      and ne: "sg @ ds \<noteq> []" by blast
    have hd: "\<not> c_isspace (hd (sg @ ds))"
      using sg' ds(1) ne by (cases ds) (auto simp: c_isspace_def c_isdigit_def ccode_def)
    have "?s = dropWhile c_isspace (sg @ ds @ w')" using v' w by (simp add: dropWhile_append2)
    also have "\<dots> = sg @ ds @ w'" using hd ne by (cases sg; cases ds) auto
    finally have s: "?s = sg @ ds @ w'" .
    have "c_at (ds @ w') 0 \<noteq> CHR ''+'' \<and> c_at (ds @ w') 0 \<noteq> CHR ''-''" if "sg = []"
      using ne that ds(1) by (cases ds) (auto simp: c_at_def c_isdigit_def ccode_def)
    then have "skip_sign ?s = ds @ w'" using s sg' by (auto simp: skip_sign_def c_at_def)
    moreover have "\<exists>st. CPLGetValueType_loop st0 (ds @ w') = Some st \<and> \<not> bIsReal st"
      by (rule value_loop_digits [OF _ ds]) (simp add: st0_def)
    ultimately show "CPLGetValueType atof_inf (Some v) = CPL_VALUE_INTEGER"
      using I s ne by (auto split: if_splits)
  qed
qed

theorem CPLGetValueType_integer_iff_witness:
  "CPLGetValueType (\<lambda>v. False) (Some '' -12 '') = CPL_VALUE_INTEGER"
proof -
  have "'' -12 '' = '' '' @ ''-'' @ ''12'' @ '' '' \<and> (\<forall>c\<in>set '' ''. c_isspace c) \<and>
      ''-'' \<in> {[], ''+'', ''-''} \<and> (\<forall>c\<in>set ''12''. c_isdigit c) \<and> ''-'' @ ''12'' \<noteq> []"
    by (simp add: c_isspace_def c_isdigit_def ccode_def)
  then show ?thesis unfolding CPLGetValueType_integer_iff by blast
qed

end
