(* ===== verification/HashSet.thy ===== *)
theory HashSet
  imports Prelude "HOL-Library.Multiset"
begin

section \<open>Hash sets (port/cpl_hash_set.cpp)\<close>

text \<open>
  A hash set is an array of chains of list nodes, a list of recycled nodes and some counters.  The
  record has the fields of \<open>struct _CPLHashSet\<close> and two more that only record what the code does:
  \<open>freed_elts\<close>, the arguments \<open>fnFreeEltFunc\<close> was called with, and \<open>live_nodes\<close>, the list nodes
  that are allocated and not yet freed.  A chain is the list of the \<open>pData\<close> of its nodes.  Table
  accesses and the signed products are checked: \<open>None\<close> is undefined behaviour.
  \<open>unsigned long\<close> has 64 bits.
\<close>

subsection \<open>The state\<close>

record 'a CPLHashSet =
  fnHashFunc :: "'a \<Rightarrow> u64"
  fnEqualFunc :: "'a \<Rightarrow> 'a \<Rightarrow> bool"
  fnFreeEltFunc :: bool
  tabList :: "'a list list"
  nSize :: int
  nIndiceAllocatedSize :: int
  nAllocatedSize :: int
  psRecyclingList :: "'a list"
  nRecyclingListSize :: int
  bRehash :: bool
  freed_elts :: "'a list"
  live_nodes :: int

definition anPrimes :: "int list" where
  "anPrimes =
     [53, 97, 193, 389, 769, 1543, 3079,
      6151, 12289, 24593, 49157, 98317, 196613, 393241,
      786433, 1572869, 3145739, 6291469, 12582917, 25165843, 50331653,
      100663319, 201326611, 402653189, 805306457, 1610612741]"

definition CPLHashSetNew :: "('a \<Rightarrow> u64) \<Rightarrow> ('a \<Rightarrow> 'a \<Rightarrow> bool) \<Rightarrow> bool \<Rightarrow> 'a CPLHashSet" where
  "CPLHashSetNew hash eq bFree =
     \<lparr>fnHashFunc = hash, fnEqualFunc = eq, fnFreeEltFunc = bFree, tabList = replicate 53 [],
      nSize = 0, nIndiceAllocatedSize = 0, nAllocatedSize = 53, psRecyclingList = [],
      nRecyclingListSize = 0, bRehash = False, freed_elts = [], live_nodes = 0\<rparr>"

definition CPLHashSetSize :: "'a CPLHashSet \<Rightarrow> int" where
  "CPLHashSetSize hset = nSize hset"

subsection \<open>Nodes\<close>

definition CPLHashSetGetNewListElt :: "'a CPLHashSet \<Rightarrow> 'a CPLHashSet" where
  "CPLHashSetGetNewListElt hset =
     (case psRecyclingList hset of
        d # rest \<Rightarrow> hset\<lparr>nRecyclingListSize := nRecyclingListSize hset - 1, psRecyclingList := rest\<rparr>
      | [] \<Rightarrow> hset\<lparr>live_nodes := live_nodes hset + 1\<rparr>)"

text \<open>The returned node keeps its data \<open>d\<close>.\<close>

definition CPLHashSetReturnListElt :: "'a CPLHashSet \<Rightarrow> 'a \<Rightarrow> 'a CPLHashSet" where
  "CPLHashSetReturnListElt hset d =
     (if nRecyclingListSize hset < 128
      then hset\<lparr>psRecyclingList := d # psRecyclingList hset,
               nRecyclingListSize := nRecyclingListSize hset + 1\<rparr>
      else hset\<lparr>live_nodes := live_nodes hset - 1\<rparr>)"

definition call_fnFreeEltFunc :: "'a CPLHashSet \<Rightarrow> 'a \<Rightarrow> 'a CPLHashSet" where
  "call_fnFreeEltFunc hset d =
     (if fnFreeEltFunc hset then hset\<lparr>freed_elts := freed_elts hset @ [d]\<rparr> else hset)"

subsection \<open>Clearing and walking\<close>

fun CPLHashSetClear_chain :: "bool \<Rightarrow> 'a CPLHashSet \<Rightarrow> 'a list \<Rightarrow> 'a CPLHashSet" where
  "CPLHashSetClear_chain bFinalize hset [] = hset"
| "CPLHashSetClear_chain bFinalize hset (d # cur) =
     (let hset = call_fnFreeEltFunc hset d;
          hset = (if bFinalize then hset\<lparr>live_nodes := live_nodes hset - 1\<rparr>
                 else CPLHashSetReturnListElt hset d)
      in CPLHashSetClear_chain bFinalize hset cur)"

function CPLHashSetClear_loop :: "bool \<Rightarrow> int \<Rightarrow> int \<Rightarrow> 'a CPLHashSet \<Rightarrow> 'a CPLHashSet option" where
  "CPLHashSetClear_loop bFinalize nAlloc i hset =
     (if i < nAlloc then do {
        cur \<leftarrow> arr_get (tabList hset) i;
        let hset = CPLHashSetClear_chain bFinalize hset cur;
        tab \<leftarrow> arr_set (tabList hset) i [];
        CPLHashSetClear_loop bFinalize nAlloc (i + 1) (hset\<lparr>tabList := tab\<rparr>)
      } else Some hset)"
  by pat_completeness auto
termination by (relation "measure (\<lambda>(f, n, i, s). nat (n - i))") auto

declare CPLHashSetClear_loop.simps [simp del]

definition CPLHashSetClearInternal :: "'a CPLHashSet \<Rightarrow> bool \<Rightarrow> 'a CPLHashSet option" where
  "CPLHashSetClearInternal hset bFinalize = do {
     hset \<leftarrow> CPLHashSetClear_loop bFinalize (nAllocatedSize hset) 0 hset;
     Some (hset\<lparr>bRehash := False\<rparr>)
   }"

text \<open>What remains of a destroyed set are the two records of the calls made; the recycled nodes are
  freed one by one by CPLListDestroy.\<close>

definition CPLHashSetDestroy :: "'a CPLHashSet \<Rightarrow> ('a list \<times> int) option" where
  "CPLHashSetDestroy hset = do {
     hset \<leftarrow> CPLHashSetClearInternal hset True;
     Some (freed_elts hset, live_nodes hset - int (length (psRecyclingList hset)))
   }"

definition CPLHashSetClear :: "'a CPLHashSet \<Rightarrow> 'a CPLHashSet option" where
  "CPLHashSetClear hset = do {
     hset \<leftarrow> CPLHashSetClearInternal hset False;
     Some (hset\<lparr>tabList := take 53 (tabList hset), nIndiceAllocatedSize := 0, nAllocatedSize := 53,
               nSize := 0\<rparr>)
   }"

text \<open>The callback gets the user data and says whether to go on.\<close>

fun CPLHashSetForeach_chain :: "('a \<Rightarrow> 'u \<Rightarrow> bool \<times> 'u) \<Rightarrow> 'u \<Rightarrow> 'a list \<Rightarrow> bool \<times> 'u" where
  "CPLHashSetForeach_chain fnIterFunc u [] = (True, u)"
| "CPLHashSetForeach_chain fnIterFunc u (d # cur) =
     (case fnIterFunc d u of
        (False, u') \<Rightarrow> (False, u')
      | (True, u') \<Rightarrow> CPLHashSetForeach_chain fnIterFunc u' cur)"

fun CPLHashSetForeach_loop :: "('a \<Rightarrow> 'u \<Rightarrow> bool \<times> 'u) \<Rightarrow> 'u \<Rightarrow> 'a list list \<Rightarrow> 'u" where
  "CPLHashSetForeach_loop fnIterFunc u [] = u"
| "CPLHashSetForeach_loop fnIterFunc u (cur # tab) =
     (case CPLHashSetForeach_chain fnIterFunc u cur of
        (False, u') \<Rightarrow> u'
      | (True, u') \<Rightarrow> CPLHashSetForeach_loop fnIterFunc u' tab)"

definition CPLHashSetForeach :: "'a CPLHashSet \<Rightarrow> ('a \<Rightarrow> 'u \<Rightarrow> bool \<times> 'u) \<Rightarrow> 'u \<Rightarrow> 'u" where
  "CPLHashSetForeach hset fnIterFunc user_data =
     CPLHashSetForeach_loop fnIterFunc user_data (tabList hset)"

subsection \<open>Rehashing\<close>

fun CPLHashSetRehash_chain :: "('a \<Rightarrow> u64) \<Rightarrow> int \<Rightarrow> 'a list list \<Rightarrow> 'a list \<Rightarrow> 'a list list option" where
  "CPLHashSetRehash_chain hash n newTab [] = Some newTab"
| "CPLHashSetRehash_chain hash n newTab (d # cur) = do {
     let nNewHashVal = uint (hash d) mod n;
     old \<leftarrow> arr_get newTab nNewHashVal;
     newTab \<leftarrow> arr_set newTab nNewHashVal (d # old);
     CPLHashSetRehash_chain hash n newTab cur
   }"

function CPLHashSetRehash_loop ::
    "('a \<Rightarrow> u64) \<Rightarrow> int \<Rightarrow> 'a list list \<Rightarrow> int \<Rightarrow> int \<Rightarrow> 'a list list \<Rightarrow> 'a list list option" where
  "CPLHashSetRehash_loop hash n tab nAlloc i newTab =
     (if i < nAlloc then do {
        cur \<leftarrow> arr_get tab i;
        newTab \<leftarrow> CPLHashSetRehash_chain hash n newTab cur;
        CPLHashSetRehash_loop hash n tab nAlloc (i + 1) newTab
      } else Some newTab)"
  by pat_completeness auto
termination by (relation "measure (\<lambda>(h, n, t, a, i, nt). nat (a - i))") auto

declare CPLHashSetRehash_loop.simps [simp del]

definition CPLHashSetRehash :: "'a CPLHashSet \<Rightarrow> 'a CPLHashSet option" where
  "CPLHashSetRehash hset = do {
     nNewAllocatedSize \<leftarrow> arr_get anPrimes (nIndiceAllocatedSize hset);
     newTabList \<leftarrow> CPLHashSetRehash_loop (fnHashFunc hset) nNewAllocatedSize (tabList hset)
       (nAllocatedSize hset) 0 (replicate (nat nNewAllocatedSize) []);
     Some (hset\<lparr>tabList := newTabList, nAllocatedSize := nNewAllocatedSize, bRehash := False\<rparr>)
   }"

subsection \<open>Finding, inserting, removing\<close>

fun CPLHashSetFindPtr_loop :: "('a \<Rightarrow> 'a \<Rightarrow> bool) \<Rightarrow> 'a \<Rightarrow> nat \<Rightarrow> 'a list \<Rightarrow> nat option" where
  "CPLHashSetFindPtr_loop eq elt k [] = None"
| "CPLHashSetFindPtr_loop eq elt k (d # cur) =
     (if eq d elt then Some k else CPLHashSetFindPtr_loop eq elt (k + 1) cur)"

text \<open>The pointer to the data found is the chain and the position in it.\<close>

definition CPLHashSetFindPtr :: "'a CPLHashSet \<Rightarrow> 'a \<Rightarrow> (int \<times> nat) option option" where
  "CPLHashSetFindPtr hset elt = do {
     let nHashVal = uint (fnHashFunc hset elt) mod nAllocatedSize hset;
     cur \<leftarrow> arr_get (tabList hset) nHashVal;
     Some (map_option (Pair nHashVal) (CPLHashSetFindPtr_loop (fnEqualFunc hset) elt 0 cur))
   }"

text \<open>The test before an insertion.\<close>

definition insert_rehashes :: "'a CPLHashSet \<Rightarrow> bool option" where
  "insert_rehashes hset = do {
     t \<leftarrow> c_int (2 * nAllocatedSize hset);
     Some (nSize hset \<ge> t div 3 \<or>
           (bRehash hset \<and> nIndiceAllocatedSize hset > 0 \<and> nSize hset \<le> nAllocatedSize hset div 2))
   }"

definition CPLHashSetInsert :: "'a CPLHashSet \<Rightarrow> 'a \<Rightarrow> ('a CPLHashSet \<times> bool) option" where
  "CPLHashSetInsert hset elt = do {
     pElt \<leftarrow> CPLHashSetFindPtr hset elt;
     case pElt of
       Some (v, k) \<Rightarrow> do {
         cur \<leftarrow> arr_get (tabList hset) v;
         old \<leftarrow> arr_get cur (int k);
         cur' \<leftarrow> arr_set cur (int k) elt;
         tab \<leftarrow> arr_set (tabList hset) v cur';
         Some ((call_fnFreeEltFunc hset old)\<lparr>tabList := tab\<rparr>, False)
       }
     | None \<Rightarrow> do {
         r \<leftarrow> insert_rehashes hset;
         hset \<leftarrow> (if r then CPLHashSetRehash (hset\<lparr>nIndiceAllocatedSize := nIndiceAllocatedSize hset + 1\<rparr>)
                else Some hset);
         let nHashVal = uint (fnHashFunc hset elt) mod nAllocatedSize hset;
         let hset = CPLHashSetGetNewListElt hset;
         cur \<leftarrow> arr_get (tabList hset) nHashVal;
         tab \<leftarrow> arr_set (tabList hset) nHashVal (elt # cur);
         n \<leftarrow> c_int (nSize hset + 1);
         Some (hset\<lparr>tabList := tab, nSize := n\<rparr>, True)
       }
   }"

definition CPLHashSetLookup :: "'a CPLHashSet \<Rightarrow> 'a \<Rightarrow> 'a option option" where
  "CPLHashSetLookup hset elt = do {
     pElt \<leftarrow> CPLHashSetFindPtr hset elt;
     case pElt of
       Some (v, k) \<Rightarrow> do {
         cur \<leftarrow> arr_get (tabList hset) v;
         d \<leftarrow> arr_get cur (int k);
         Some (Some d)
       }
     | None \<Rightarrow> Some None
   }"

text \<open>Unlinking the first node equal to \<open>elt\<close> (\<open>prev->psNext\<close> or the chain's head skips it).\<close>

fun CPLHashSetRemove_chain :: "('a \<Rightarrow> 'a \<Rightarrow> bool) \<Rightarrow> 'a \<Rightarrow> 'a list \<Rightarrow> 'a list \<Rightarrow> ('a \<times> 'a list) option" where
  "CPLHashSetRemove_chain eq elt prevs [] = None"
| "CPLHashSetRemove_chain eq elt prevs (d # cur) =
     (if eq d elt then Some (d, prevs @ cur)
      else CPLHashSetRemove_chain eq elt (prevs @ [d]) cur)"

definition CPLHashSetRemoveInternal :: "'a CPLHashSet \<Rightarrow> 'a \<Rightarrow> bool \<Rightarrow> ('a CPLHashSet \<times> bool) option" where
  "CPLHashSetRemoveInternal hset elt bDeferRehash = do {
     hset \<leftarrow> (if nIndiceAllocatedSize hset > 0 \<and> nSize hset \<le> nAllocatedSize hset div 2 then
              let hset = hset\<lparr>nIndiceAllocatedSize := nIndiceAllocatedSize hset - 1\<rparr>
              in if bDeferRehash then Some (hset\<lparr>bRehash := True\<rparr>) else CPLHashSetRehash hset
            else Some hset);
     let nHashVal = uint (fnHashFunc hset elt) mod nAllocatedSize hset;
     cur \<leftarrow> arr_get (tabList hset) nHashVal;
     case CPLHashSetRemove_chain (fnEqualFunc hset) elt [] cur of
       None \<Rightarrow> Some (hset, False)
     | Some (d, cur') \<Rightarrow> do {
         tab \<leftarrow> arr_set (tabList hset) nHashVal cur';
         let hset = call_fnFreeEltFunc (hset\<lparr>tabList := tab\<rparr>) d;
         let hset = CPLHashSetReturnListElt hset d;
         Some (hset\<lparr>nSize := nSize hset - 1\<rparr>, True)
       }
   }"

definition CPLHashSetRemove :: "'a CPLHashSet \<Rightarrow> 'a \<Rightarrow> ('a CPLHashSet \<times> bool) option" where
  "CPLHashSetRemove hset elt = CPLHashSetRemoveInternal hset elt False"

definition CPLHashSetRemoveDeferRehash :: "'a CPLHashSet \<Rightarrow> 'a \<Rightarrow> ('a CPLHashSet \<times> bool) option" where
  "CPLHashSetRemoveDeferRehash hset elt = CPLHashSetRemoveInternal hset elt True"

subsection \<open>The hash functions of the library\<close>

text \<open>Pointers are 64-bit addresses; a string argument may be NULL.\<close>

definition CPLHashSetHashPointer :: "u64 \<Rightarrow> u64" where
  "CPLHashSetHashPointer elt = elt"

definition CPLHashSetEqualPointer :: "u64 \<Rightarrow> u64 \<Rightarrow> bool" where
  "CPLHashSetEqualPointer elt1 elt2 \<longleftrightarrow> elt1 = elt2"

fun CPLHashSetHashStr_loop :: "u64 \<Rightarrow> string \<Rightarrow> u64" where
  "CPLHashSetHashStr_loop hash [] = hash"
| "CPLHashSetHashStr_loop hash (c # s) =
     CPLHashSetHashStr_loop (of_nat (ccode c) + push_bit 6 hash + push_bit 16 hash - hash) s"

definition CPLHashSetHashStr :: "string option \<Rightarrow> u64" where
  "CPLHashSetHashStr elt = (case elt of None \<Rightarrow> 0 | Some pszStr \<Rightarrow> CPLHashSetHashStr_loop 0 pszStr)"

definition CPLHashSetEqualStr :: "string option \<Rightarrow> string option \<Rightarrow> bool" where
  "CPLHashSetEqualStr elt1 elt2 =
     (case (elt1, elt2) of
        (None, Some _) \<Rightarrow> False
      | (Some _, None) \<Rightarrow> False
      | (None, None) \<Rightarrow> True
      | (Some pszStr1, Some pszStr2) \<Rightarrow> pszStr1 = pszStr2)"

subsection \<open>Contents and invariant\<close>

definition contents :: "'a CPLHashSet \<Rightarrow> 'a multiset" where
  "contents s = mset (concat (tabList s))"

text \<open>Every element is in the chain of its hash value.\<close>

definition chains_ok :: "('a \<Rightarrow> u64) \<Rightarrow> int \<Rightarrow> 'a list list \<Rightarrow> bool" where
  "chains_ok hash n tab \<longleftrightarrow>
     0 < n \<and> int (length tab) = n \<and> (\<forall>i<length tab. \<forall>x\<in>set (tab ! i). uint (hash x) mod n = int i)"

definition uniq :: "('a \<Rightarrow> 'a \<Rightarrow> bool) \<Rightarrow> 'a multiset \<Rightarrow> bool" where
  "uniq eq M \<longleftrightarrow> (\<forall>x. size (filter_mset (\<lambda>y. eq y x) M) \<le> 1)"

text \<open>The table has one of the sizes of \<open>anPrimes\<close> but the last; the index is that of the size, or
  a smaller one when a rehash is pending.\<close>

definition sizes_ok :: "'a CPLHashSet \<Rightarrow> bool" where
  "sizes_ok s \<longleftrightarrow> (\<exists>j<25. nAllocatedSize s = anPrimes ! j \<and> 0 \<le> nIndiceAllocatedSize s \<and>
     (if bRehash s then nIndiceAllocatedSize s < int j else nIndiceAllocatedSize s = int j))"

text \<open>The recycling list and the counters of nodes, when the chains have \<open>n\<close> nodes.\<close>

definition recycling_ok :: "'a CPLHashSet \<Rightarrow> int \<Rightarrow> bool" where
  "recycling_ok s n \<longleftrightarrow> nRecyclingListSize s = int (length (psRecyclingList s)) \<and>
     nRecyclingListSize s \<le> 128 \<and> live_nodes s = n + nRecyclingListSize s"

definition nodes_ok :: "'a CPLHashSet \<Rightarrow> bool" where
  "nodes_ok s \<longleftrightarrow> nSize s = int (size (contents s)) \<and> recycling_ok s (nSize s)"

definition hashset_ok :: "'a CPLHashSet \<Rightarrow> bool" where
  "hashset_ok s \<longleftrightarrow> sizes_ok s \<and> chains_ok (fnHashFunc s) (nAllocatedSize s) (tabList s) \<and>
     uniq (fnEqualFunc s) (contents s) \<and> nodes_ok s"

lemma chains_okD:
  "chains_ok hash n tab \<Longrightarrow> 0 < n" "chains_ok hash n tab \<Longrightarrow> int (length tab) = n"
  "chains_ok hash n tab \<Longrightarrow> i < length tab \<Longrightarrow> x \<in> set (tab ! i) \<Longrightarrow> uint (hash x) mod n = int i"
  by (auto simp: chains_ok_def)

lemma hash_index:
  assumes "chains_ok hash n tab"
  obtains v where "uint (hash x) mod n = int v" "v < length tab"
proof -
  have n: "0 < n" "int (length tab) = n" using assms by (auto dest: chains_okD)
  have "0 \<le> uint (hash x) mod n \<and> uint (hash x) mod n < n" using n(1) by simp
  with n that [of "nat (uint (hash x) mod n)"] show thesis by auto
qed

lemma mset_concat_update:
  assumes "v < length tab"
  shows "mset (concat (tab[v := c])) + mset (tab ! v) = mset (concat tab) + mset c"
proof -
  have "tab = take v tab @ tab ! v # drop (Suc v) tab" using assms by (rule id_take_nth_drop)
  then have "mset (concat tab) =
      mset (concat (take v tab)) + mset (tab ! v) + mset (concat (drop (Suc v) tab))"
    by (metis concat.simps(2) concat_append mset_append union_assoc)
  moreover have "mset (concat (tab[v := c])) =
      mset (concat (take v tab)) + mset c + mset (concat (drop (Suc v) tab))"
    using assms by (simp add: upd_conv_take_nth_drop)
  ultimately show ?thesis by simp
qed

lemma chains_ok_update:
  assumes "chains_ok hash n tab" "v < length tab" "\<forall>x\<in>set c. uint (hash x) mod n = int v"
  shows "chains_ok hash n (tab[v := c])"
  using assms by (auto simp: chains_ok_def nth_list_update)

lemma in_chain:
  assumes "chains_ok hash n tab" "uint (hash x) mod n = int v"
  shows "x \<in># mset (concat tab) \<longleftrightarrow> v < length tab \<and> x \<in> set (tab ! v)"
proof
  assume "x \<in># mset (concat tab)"
  then obtain c where "c \<in> set tab" "x \<in> set c" by auto
  then obtain i where "i < length tab" "x \<in> set (tab ! i)" by (auto simp: in_set_conv_nth [of c tab])
  with assms show "v < length tab \<and> x \<in> set (tab ! v)"
    by (metis chains_okD(3) of_nat_eq_iff)
qed auto

lemma FindPtr_loop_result:
  "CPLHashSetFindPtr_loop eq x k cur =
     (if \<exists>d\<in>set cur. eq d x then Some (k + length (takeWhile (\<lambda>d. \<not> eq d x) cur)) else None)"
  by (induction cur arbitrary: k) auto

lemma Remove_chain_result:
  "CPLHashSetRemove_chain eq x prevs cur =
     (case dropWhile (\<lambda>d. \<not> eq d x) cur of
        [] \<Rightarrow> None
      | d # r \<Rightarrow> Some (d, prevs @ takeWhile (\<lambda>d. \<not> eq d x) cur @ r))"
proof (induction cur arbitrary: prevs)
  case (Cons a cur)
  show ?case
  proof (cases "eq a x")
    case False
    have "CPLHashSetRemove_chain eq x prevs (a # cur) = CPLHashSetRemove_chain eq x (prevs @ [a]) cur"
      using False by simp
    also have "\<dots> = (case dropWhile (\<lambda>d. \<not> eq d x) cur of
        [] \<Rightarrow> None
      | d # r \<Rightarrow> Some (d, prevs @ (a # takeWhile (\<lambda>d. \<not> eq d x) cur) @ r))"
      by (simp only: Cons.IH append_assoc append_Cons append_Nil)
    also have "a # takeWhile (\<lambda>d. \<not> eq d x) cur = takeWhile (\<lambda>d. \<not> eq d x) (a # cur)"
      using False by simp
    also have "dropWhile (\<lambda>d. \<not> eq d x) cur = dropWhile (\<lambda>d. \<not> eq d x) (a # cur)"
      using False by simp
    finally show ?thesis .
  qed simp
qed simp

lemma in_diff_other: "z \<noteq> y \<Longrightarrow> z \<in># M - {#y#} \<longleftrightarrow> z \<in># M"
  by (metis diff_single_trivial in_diffD insert_DiffM insert_noteq_member)

lemma filter_mset_none: "(\<And>y. y \<in># M \<Longrightarrow> \<not> p y) \<Longrightarrow> filter_mset p M = {#}"
  by (induction M) auto

lemma uniq_subset: "uniq eq M \<Longrightarrow> N \<subseteq># M \<Longrightarrow> uniq eq N"
  unfolding uniq_def by (meson le_trans multiset_filter_mono size_mset_mono)

subsection \<open>Rehashing keeps the contents\<close>

lemma Rehash_chain_result:
  "chains_ok hash n tab \<Longrightarrow> \<exists>tab'. CPLHashSetRehash_chain hash n tab cur = Some tab' \<and>
     chains_ok hash n tab' \<and> mset (concat tab') = mset (concat tab) + mset cur"
proof (induction cur arbitrary: tab)
  case (Cons d cur)
  obtain v where v: "uint (hash d) mod n = int v" "v < length tab"
    using hash_index [OF Cons.prems] by blast
  let ?t = "tab[v := d # tab ! v]"
  have ok: "chains_ok hash n ?t"
    using Cons.prems v by (intro chains_ok_update) (auto dest: chains_okD)
  have "mset (concat ?t) = add_mset d (mset (concat tab))"
    using mset_concat_update [OF v(2), of "d # tab ! v"] by simp
  with Cons.IH [OF ok] show ?case using v by (auto simp: mem_simps)
qed simp

lemma Rehash_loop_result:
  "chains_ok hash n new \<Longrightarrow> i \<le> length tab \<Longrightarrow>
   \<exists>tab'. CPLHashSetRehash_loop hash n tab (int (length tab)) (int i) new = Some tab' \<and>
     chains_ok hash n tab' \<and> mset (concat tab') = mset (concat new) + mset (concat (drop i tab))"
proof (induction "length tab - i" arbitrary: i new)
  case 0
  then show ?case by (simp add: CPLHashSetRehash_loop.simps)
next
  case (Suc k)
  then have i: "i < length tab" by simp
  obtain new' where new': "CPLHashSetRehash_chain hash n new (tab ! i) = Some new'"
    "chains_ok hash n new'" "mset (concat new') = mset (concat new) + mset (tab ! i)"
    using Rehash_chain_result [OF Suc.prems(1)] by blast
  have "drop i tab = tab ! i # drop (Suc i) tab" using i by (simp add: Cons_nth_drop_Suc)
  then have d: "mset (concat (drop i tab)) = mset (tab ! i) + mset (concat (drop (Suc i) tab))" by simp
  have "CPLHashSetRehash_loop hash n tab (int (length tab)) (int i) new =
      CPLHashSetRehash_loop hash n tab (int (length tab)) (int (Suc i)) new'"
    using i new'(1) by (subst CPLHashSetRehash_loop.simps) (simp add: mem_simps add.commute)
  with Suc.hyps(1) [of "Suc i" new'] Suc.hyps(2) i new' d show ?case by (auto simp: ac_simps)
qed

lemma anPrimes_facts:
  "length anPrimes = 26" "i < 26 \<Longrightarrow> 53 \<le> anPrimes ! i"
  "i < 25 \<Longrightarrow> anPrimes ! i \<le> 805306457" "i < 24 \<Longrightarrow> anPrimes ! i \<le> 402653189"
proof -
  show "length anPrimes = 26" by (simp add: anPrimes_def)
  have all: "\<forall>i\<in>set [0..<26]. 53 \<le> anPrimes ! i" "\<forall>i\<in>set [0..<25]. anPrimes ! i \<le> 805306457"
    "\<forall>i\<in>set [0..<24]. anPrimes ! i \<le> 402653189"
    by code_simp+
  show "i < 26 \<Longrightarrow> 53 \<le> anPrimes ! i" "i < 25 \<Longrightarrow> anPrimes ! i \<le> 805306457"
    "i < 24 \<Longrightarrow> anPrimes ! i \<le> 402653189"
    using all by auto
qed

lemma chains_ok_new: "0 < n \<Longrightarrow> chains_ok hash n (replicate (nat n) [])"
  by (simp add: chains_ok_def)

lemma Rehash_result:
  assumes "chains_ok (fnHashFunc s) (nAllocatedSize s) (tabList s)"
    and "nIndiceAllocatedSize s = int j" "j < 26"
  shows "\<exists>tab. CPLHashSetRehash s =
      Some (s\<lparr>tabList := tab, nAllocatedSize := anPrimes ! j, bRehash := False\<rparr>) \<and>
    chains_ok (fnHashFunc s) (anPrimes ! j) tab \<and> mset (concat tab) = contents s"
proof -
  have p: "0 < anPrimes ! j" using anPrimes_facts(2) [OF assms(3)] by simp
  obtain tab where "CPLHashSetRehash_loop (fnHashFunc s) (anPrimes ! j) (tabList s)
      (int (length (tabList s))) (int 0) (replicate (nat (anPrimes ! j)) []) = Some tab"
    "chains_ok (fnHashFunc s) (anPrimes ! j) tab" "mset (concat tab) = contents s"
    using Rehash_loop_result [OF chains_ok_new [OF p, of "fnHashFunc s"], of 0 "tabList s"]
    by (auto simp: contents_def)
  then show ?thesis
    using assms(2,3) chains_okD(2) [OF assms(1)]
    by (auto simp: CPLHashSetRehash_def mem_simps anPrimes_facts)
qed

subsection \<open>The contract of the two functions\<close>

text \<open>Equality is an equivalence, and equal elements have the same hash value.  Everything a client
  may rely on follows from it.\<close>

locale hash_contract =
  fixes hash :: "'a \<Rightarrow> u64" and eq :: "'a \<Rightarrow> 'a \<Rightarrow> bool"
  assumes eq_refl: "eq x x"
    and eq_sym: "eq x y \<Longrightarrow> eq y x"
    and eq_trans: "eq x y \<Longrightarrow> eq y z \<Longrightarrow> eq x z"
    and eq_hash: "eq x y \<Longrightarrow> hash x = hash y"
begin

lemma eq_cong: "eq x y \<Longrightarrow> eq x z \<longleftrightarrow> eq y z"
  using eq_sym eq_trans by blast

lemma chain_of_equal:
  assumes "chains_ok hash n tab" "uint (hash x) mod n = int v" "y \<in># mset (concat tab)" "eq y x"
  shows "y \<in> set (tab ! v)"
  using assms(2,3) in_chain [OF assms(1), of y v] eq_hash [OF assms(4)] by simp

lemma find_none:
  assumes "chains_ok hash n tab" "uint (hash x) mod n = int v" "v < length tab"
  shows "CPLHashSetFindPtr_loop eq x k (tab ! v) = None \<longleftrightarrow> (\<forall>y\<in>#mset (concat tab). \<not> eq y x)"
proof
  assume l: "CPLHashSetFindPtr_loop eq x k (tab ! v) = None"
  then have no: "\<forall>d\<in>set (tab ! v). \<not> eq d x" by (auto simp: FindPtr_loop_result split: if_splits)
  show "\<forall>y\<in>#mset (concat tab). \<not> eq y x"
    using no chain_of_equal [OF assms(1,2)] by blast
next
  assume "\<forall>y\<in>#mset (concat tab). \<not> eq y x"
  then have "\<forall>d\<in>set (tab ! v). \<not> eq d x" using nth_mem [OF assms(3)] by auto
  then show "CPLHashSetFindPtr_loop eq x k (tab ! v) = None" by (simp add: FindPtr_loop_result)
qed

lemma find_some:
  assumes "v < length tab" "CPLHashSetFindPtr_loop eq x 0 (tab ! v) = Some k"
  shows "k < length (tab ! v) \<and> eq (tab ! v ! k) x \<and> tab ! v ! k \<in># mset (concat tab)"
proof -
  from assms(2) have ex: "\<exists>d\<in>set (tab ! v). eq d x"
    and k: "k = length (takeWhile (\<lambda>d. \<not> eq d x) (tab ! v))"
    by (auto simp: FindPtr_loop_result split: if_splits)
  have "k < length (tab ! v)"
    using ex unfolding k
    by (metis (mono_tags, lifting) length_takeWhile_le linorder_le_cases nat_less_le
        set_takeWhileD takeWhile_eq_all_conv takeWhile_eq_take take_all)
  moreover from this have "eq (tab ! v ! k) x" using nth_length_takeWhile k by metis
  ultimately show ?thesis using nth_mem [OF assms(1)] nth_mem [of k "tab ! v"]
    by (simp del: nth_mem) blast
qed

lemma uniq_eq:
  assumes "uniq eq M" "y \<in># M" "z \<in># M" "eq y x" "eq z x"
  shows "y = z"
proof (rule ccontr)
  assume ne: "y \<noteq> z"
  have "{#y, z#} \<subseteq># filter_mset (\<lambda>a. eq a x) M"
    using assms ne by (intro mset_subset_eqI) (auto simp: not_in_iff Suc_le_eq)
  then have "2 \<le> size (filter_mset (\<lambda>a. eq a x) M)" using size_mset_mono by fastforce
  with assms(1) show False unfolding uniq_def by (metis Suc_1 not_less_eq_eq)
qed

lemma uniq_add:
  assumes "uniq eq M" "\<forall>y\<in>#M. \<not> eq y x"
  shows "uniq eq (add_mset x M)"
  unfolding uniq_def
proof
  fix z
  have "filter_mset (\<lambda>y. eq y z) M = {#}" if "eq x z"
    using assms(2) that eq_sym eq_trans by (intro filter_mset_none) blast
  then show "size (filter_mset (\<lambda>y. eq y z) (add_mset x M)) \<le> 1"
    using assms(1) by (auto simp: uniq_def)
qed

lemma uniq_replace:
  assumes "uniq eq (add_mset y M)" "eq y x"
  shows "uniq eq (add_mset x M)"
proof -
  have "size (filter_mset (\<lambda>a. eq a z) (add_mset x M)) = size (filter_mset (\<lambda>a. eq a z) (add_mset y M))"
    for z using eq_cong [OF assms(2), of z] by simp
  with assms(1) show ?thesis unfolding uniq_def by presburger
qed

end

subsection \<open>What the operations do\<close>

text \<open>The functions of a set never change.\<close>

definition same_funs :: "'a CPLHashSet \<Rightarrow> 'a CPLHashSet \<Rightarrow> bool" where
  "same_funs s s' \<longleftrightarrow> fnHashFunc s' = fnHashFunc s \<and> fnEqualFunc s' = fnEqualFunc s \<and>
     fnFreeEltFunc s' = fnFreeEltFunc s"

text \<open>The elements given to the free function between \<open>s\<close> and \<open>s'\<close>.\<close>

definition frees :: "'a CPLHashSet \<Rightarrow> 'a multiset \<Rightarrow> 'a CPLHashSet \<Rightarrow> bool" where
  "frees s M s' \<longleftrightarrow> mset (freed_elts s') = mset (freed_elts s) + (if fnFreeEltFunc s then M else {#})"

lemma same_funs_refl [simp]: "same_funs s s"
  by (simp add: same_funs_def)

lemma frees_nothing: "freed_elts s' = freed_elts s \<Longrightarrow> frees s {#} s'"
  by (simp add: frees_def)

lemma call_fnFreeEltFunc_simps [simp]:
  "tabList (call_fnFreeEltFunc s d) = tabList s" "nSize (call_fnFreeEltFunc s d) = nSize s"
  "nIndiceAllocatedSize (call_fnFreeEltFunc s d) = nIndiceAllocatedSize s"
  "nAllocatedSize (call_fnFreeEltFunc s d) = nAllocatedSize s"
  "psRecyclingList (call_fnFreeEltFunc s d) = psRecyclingList s"
  "nRecyclingListSize (call_fnFreeEltFunc s d) = nRecyclingListSize s"
  "bRehash (call_fnFreeEltFunc s d) = bRehash s" "live_nodes (call_fnFreeEltFunc s d) = live_nodes s"
  "fnHashFunc (call_fnFreeEltFunc s d) = fnHashFunc s" "fnEqualFunc (call_fnFreeEltFunc s d) = fnEqualFunc s"
  "fnFreeEltFunc (call_fnFreeEltFunc s d) = fnFreeEltFunc s"
  "freed_elts (call_fnFreeEltFunc s d) = freed_elts s @ (if fnFreeEltFunc s then [d] else [])"
  by (simp_all add: call_fnFreeEltFunc_def)

lemma ReturnListElt_simps [simp]:
  "tabList (CPLHashSetReturnListElt s d) = tabList s" "nSize (CPLHashSetReturnListElt s d) = nSize s"
  "nIndiceAllocatedSize (CPLHashSetReturnListElt s d) = nIndiceAllocatedSize s"
  "nAllocatedSize (CPLHashSetReturnListElt s d) = nAllocatedSize s"
  "bRehash (CPLHashSetReturnListElt s d) = bRehash s"
  "fnHashFunc (CPLHashSetReturnListElt s d) = fnHashFunc s"
  "fnEqualFunc (CPLHashSetReturnListElt s d) = fnEqualFunc s"
  "fnFreeEltFunc (CPLHashSetReturnListElt s d) = fnFreeEltFunc s"
  "freed_elts (CPLHashSetReturnListElt s d) = freed_elts s"
  by (simp_all add: CPLHashSetReturnListElt_def)

lemma GetNewListElt_simps [simp]:
  "tabList (CPLHashSetGetNewListElt s) = tabList s" "nSize (CPLHashSetGetNewListElt s) = nSize s"
  "nIndiceAllocatedSize (CPLHashSetGetNewListElt s) = nIndiceAllocatedSize s"
  "nAllocatedSize (CPLHashSetGetNewListElt s) = nAllocatedSize s"
  "bRehash (CPLHashSetGetNewListElt s) = bRehash s"
  "fnHashFunc (CPLHashSetGetNewListElt s) = fnHashFunc s"
  "fnEqualFunc (CPLHashSetGetNewListElt s) = fnEqualFunc s"
  "fnFreeEltFunc (CPLHashSetGetNewListElt s) = fnFreeEltFunc s"
  "freed_elts (CPLHashSetGetNewListElt s) = freed_elts s"
  by (simp_all add: CPLHashSetGetNewListElt_def split: list.split)

lemma recycling_get: "recycling_ok s n \<Longrightarrow> recycling_ok (CPLHashSetGetNewListElt s) (n + 1)"
  by (auto simp: recycling_ok_def CPLHashSetGetNewListElt_def split: list.split)

lemma recycling_return: "recycling_ok s n \<Longrightarrow> recycling_ok (CPLHashSetReturnListElt s d) (n - 1)"
  by (auto simp: recycling_ok_def CPLHashSetReturnListElt_def)

lemma recycling_cong:
  "psRecyclingList s' = psRecyclingList s \<Longrightarrow> nRecyclingListSize s' = nRecyclingListSize s \<Longrightarrow>
   live_nodes s' = live_nodes s \<Longrightarrow> recycling_ok s' n = recycling_ok s n"
  by (simp add: recycling_ok_def)

lemma sizes_okI:
  "j < 25 \<Longrightarrow> nAllocatedSize s = anPrimes ! j \<Longrightarrow> 0 \<le> nIndiceAllocatedSize s \<Longrightarrow>
   (if bRehash s then nIndiceAllocatedSize s < int j else nIndiceAllocatedSize s = int j) \<Longrightarrow> sizes_ok s"
  unfolding sizes_ok_def by blast

lemma sizes_okE:
  assumes "sizes_ok s"
  obtains j i where "j < 25" "nAllocatedSize s = anPrimes ! j" "nIndiceAllocatedSize s = int i"
    "i \<le> j" "bRehash s \<longleftrightarrow> i < j"
proof -
  obtain j where j: "j < 25" "nAllocatedSize s = anPrimes ! j" "0 \<le> nIndiceAllocatedSize s"
    "if bRehash s then nIndiceAllocatedSize s < int j else nIndiceAllocatedSize s = int j"
    using assms unfolding sizes_ok_def by blast
  define i where "i = nat (nIndiceAllocatedSize s)"
  have i: "nIndiceAllocatedSize s = int i" using j(3) by (simp add: i_def)
  from j(4) have "i \<le> j" "bRehash s \<longleftrightarrow> i < j" unfolding i by (simp_all split: if_splits)
  then show thesis using that j(1,2) i by blast
qed

text \<open>The size test before an insertion never overflows, and growing never leaves \<open>anPrimes\<close>, as
  long as there are fewer than 536870971 elements.\<close>

lemma grow_result:
  assumes ok: "hashset_ok s" and small: "nSize s < 536870971"
  shows "\<exists>r s'. insert_rehashes s = Some r \<and>
    (if r then CPLHashSetRehash (s\<lparr>nIndiceAllocatedSize := nIndiceAllocatedSize s + 1\<rparr>) else Some s) = Some s' \<and>
    hashset_ok s' \<and> contents s' = contents s \<and> same_funs s s' \<and> freed_elts s' = freed_elts s \<and>
    nSize s' = nSize s"
proof -
  obtain j i where j: "j < 25" "nAllocatedSize s = anPrimes ! j" and i: "nIndiceAllocatedSize s = int i"
    "i \<le> j" "bRehash s \<longleftrightarrow> i < j"
    using ok sizes_okE [of s] unfolding hashset_ok_def by metis
  have p: "53 \<le> anPrimes ! j" "anPrimes ! j \<le> 805306457" using anPrimes_facts(2,3) [of j] j(1) by auto
  define r where "r \<longleftrightarrow> nSize s \<ge> 2 * nAllocatedSize s div 3 \<or>
      (bRehash s \<and> nIndiceAllocatedSize s > 0 \<and> nSize s \<le> nAllocatedSize s div 2)"
  have r: "insert_rehashes s = Some r"
    using p j(2) by (simp add: insert_rehashes_def r_def c_int_def)
  show ?thesis
  proof (cases r)
    case False
    with r ok show ?thesis by auto
  next
    case True
    have "Suc i < 25"
    proof (rule ccontr)
      assume "\<not> Suc i < 25"
      with i j(1) have "i = 24" "j = 24" "\<not> bRehash s" by auto
      with True j(2) small show False by (simp add: r_def anPrimes_def)
    qed
    let ?s = "s\<lparr>nIndiceAllocatedSize := nIndiceAllocatedSize s + 1\<rparr>"
    obtain tab where tab: "CPLHashSetRehash ?s =
        Some (?s\<lparr>tabList := tab, nAllocatedSize := anPrimes ! Suc i, bRehash := False\<rparr>)"
      "chains_ok (fnHashFunc s) (anPrimes ! Suc i) tab" "mset (concat tab) = contents s"
      using Rehash_result [of ?s "Suc i"] ok i(1) \<open>Suc i < 25\<close>
      by (auto simp: hashset_ok_def contents_def)
    have "sizes_ok (?s\<lparr>tabList := tab, nAllocatedSize := anPrimes ! Suc i, bRehash := False\<rparr>)"
      using \<open>Suc i < 25\<close> i(1) by (intro sizes_okI [of "Suc i"]) auto
    then have "hashset_ok (?s\<lparr>tabList := tab, nAllocatedSize := anPrimes ! Suc i, bRehash := False\<rparr>)"
      using tab(2,3) ok recycling_cong by (simp add: hashset_ok_def nodes_ok_def contents_def recycling_ok_def)
    with tab(1,3) r True show ?thesis
      by (intro exI [of _ r] exI [of _ "?s\<lparr>tabList := tab, nAllocatedSize := anPrimes ! Suc i, bRehash := False\<rparr>"])
        (simp add: contents_def same_funs_def)
  qed
qed

lemma same_funs_trans: "same_funs a b \<Longrightarrow> same_funs b c \<Longrightarrow> same_funs a c"
  by (simp add: same_funs_def)

lemma sizes_ok_cong:
  "nAllocatedSize s' = nAllocatedSize s \<Longrightarrow> nIndiceAllocatedSize s' = nIndiceAllocatedSize s \<Longrightarrow>
   bRehash s' = bRehash s \<Longrightarrow> sizes_ok s' = sizes_ok s"
  by (simp add: sizes_ok_def)

lemma hashset_okD:
  "hashset_ok s \<Longrightarrow> sizes_ok s" "hashset_ok s \<Longrightarrow> uniq (fnEqualFunc s) (contents s)"
  "hashset_ok s \<Longrightarrow> chains_ok (fnHashFunc s) (nAllocatedSize s) (tabList s)"
  "hashset_ok s \<Longrightarrow> nSize s = int (size (contents s))" "hashset_ok s \<Longrightarrow> recycling_ok s (nSize s)"
  unfolding hashset_ok_def nodes_ok_def by blast+

lemma hashset_okI:
  "sizes_ok s \<Longrightarrow> chains_ok (fnHashFunc s) (nAllocatedSize s) (tabList s) \<Longrightarrow>
   uniq (fnEqualFunc s) (contents s) \<Longrightarrow> nSize s = int (size (contents s)) \<Longrightarrow>
   recycling_ok s (nSize s) \<Longrightarrow> hashset_ok s"
  unfolding hashset_ok_def nodes_ok_def by blast


context hash_contract
begin

lemma FindPtr_cases:
  assumes ok: "hashset_ok s" and f: "fnHashFunc s = hash" "fnEqualFunc s = eq"
  obtains (none) "CPLHashSetFindPtr s x = Some None" "\<forall>y\<in>#contents s. \<not> eq y x"
  | (some) v k where "CPLHashSetFindPtr s x = Some (Some (int v, k))" "v < length (tabList s)"
      "k < length (tabList s ! v)" "eq (tabList s ! v ! k) x" "tabList s ! v ! k \<in># contents s"
      "uint (hash x) mod nAllocatedSize s = int v"
proof -
  have c: "chains_ok hash (nAllocatedSize s) (tabList s)" using hashset_okD(3) [OF ok] f by simp
  obtain v where v: "uint (hash x) mod nAllocatedSize s = int v" "v < length (tabList s)"
    using hash_index [OF c] by blast
  have F: "CPLHashSetFindPtr s x =
      Some (map_option (Pair (int v)) (CPLHashSetFindPtr_loop eq x 0 (tabList s ! v)))"
    using v f by (simp add: CPLHashSetFindPtr_def mem_simps)
  show thesis
  proof (cases "CPLHashSetFindPtr_loop eq x 0 (tabList s ! v)")
    case None
    with F find_none [OF c v] none show thesis by (simp add: contents_def)
  next
    case (Some k)
    with F find_some [OF v(2) Some] some [of v k] v show thesis by (simp add: contents_def)
  qed
qed

lemma Lookup_result:
  assumes "hashset_ok s" "fnHashFunc s = hash" "fnEqualFunc s = eq"
  shows "\<exists>r. CPLHashSetLookup s x = Some r \<and> (\<forall>y. r = Some y \<longleftrightarrow> y \<in># contents s \<and> eq y x)"
  using assms
proof (cases rule: FindPtr_cases [of s x, case_names none some])
  case none
  then show ?thesis by (auto simp: CPLHashSetLookup_def)
next
  case (some v k)
  let ?y = "tabList s ! v ! k"
  have "?y = y \<longleftrightarrow> y \<in># contents s \<and> eq y x" for y
    using uniq_eq [of "contents s" y ?y x] hashset_okD(2) [OF assms(1)] assms(3) some(4,5) by auto
  moreover have "CPLHashSetLookup s x = Some (Some ?y)"
    using some(1-3) by (simp add: CPLHashSetLookup_def mem_simps)
  ultimately show ?thesis by (intro exI [of _ "Some ?y"]) simp
qed

lemma Insert_result:
  assumes ok: "hashset_ok s" and f: "fnHashFunc s = hash" "fnEqualFunc s = eq"
    and small: "nSize s < 536870971"
  shows "\<exists>s' b. CPLHashSetInsert s x = Some (s', b) \<and> hashset_ok s' \<and> same_funs s s' \<and>
    (if b then (\<forall>y\<in>#contents s. \<not> eq y x) \<and> contents s' = add_mset x (contents s) \<and> frees s {#} s'
     else \<exists>y. y \<in># contents s \<and> eq y x \<and> contents s' = add_mset x (contents s - {#y#}) \<and> frees s {#y#} s')"
  using ok f
proof (cases rule: FindPtr_cases [of s x, case_names none some])
  case none
  obtain r t where t: "insert_rehashes s = Some r"
    "(if r then CPLHashSetRehash (s\<lparr>nIndiceAllocatedSize := nIndiceAllocatedSize s + 1\<rparr>) else Some s) = Some t"
    "hashset_ok t" "contents t = contents s" "same_funs s t" "freed_elts t = freed_elts s" "nSize t = nSize s"
    using grow_result [OF ok small] by blast
  have c: "chains_ok hash (nAllocatedSize t) (tabList t)"
    using hashset_okD(3) [OF t(3)] t(5) f by (simp add: same_funs_def)
  obtain v where v: "uint (hash x) mod nAllocatedSize t = int v" "v < length (tabList t)"
    using hash_index [OF c] by blast
  define s' where "s' = (CPLHashSetGetNewListElt t)\<lparr>tabList := (tabList t)[v := x # tabList t ! v],
    nSize := nSize t + 1\<rparr>"
  have "c_int (nSize t + 1) = Some (nSize t + 1)"
    using small t(7) hashset_okD(4) [OF t(3)] by (simp add: c_int_def)
  then have I: "CPLHashSetInsert s x = Some (s', True)"
    using none(1) t(1,2) v t(5) f
    by (simp add: CPLHashSetInsert_def s'_def same_funs_def mem_simps)
  have cont: "contents s' = add_mset x (contents s)"
    using mset_concat_update [OF v(2), of "x # tabList t ! v"] t(4) by (simp add: s'_def contents_def)
  have "hashset_ok s'"
  proof (rule hashset_okI)
    show "sizes_ok s'" using hashset_okD(1) [OF t(3)] sizes_ok_cong [of s' t] by (simp add: s'_def)
    show "chains_ok (fnHashFunc s') (nAllocatedSize s') (tabList s')"
      using c v t(5) f chains_ok_update [OF c v(2), of "x # tabList t ! v"]
      by (auto simp: s'_def same_funs_def dest: chains_okD(3))
    show "uniq (fnEqualFunc s') (contents s')"
      using uniq_add [of "contents s" x] hashset_okD(2) [OF ok] f(2) none(2) t(5) cont
      by (simp add: s'_def same_funs_def)
    show "nSize s' = int (size (contents s'))" using cont hashset_okD(4) [OF ok] t(7) by (simp add: s'_def)
    show "recycling_ok s' (nSize s')"
      using recycling_get [OF hashset_okD(5) [OF t(3)]] by (simp add: s'_def recycling_ok_def)
  qed
  moreover have "same_funs s s'" using t(5) by (simp add: s'_def same_funs_def)
  moreover have "frees s {#} s'" using t(6) by (intro frees_nothing) (simp add: s'_def)
  ultimately show ?thesis using I cont none(2) by (intro exI [of _ s'] exI [of _ True]) simp
next
  case (some v k)
  let ?y = "tabList s ! v ! k" and ?c = "(tabList s ! v)[k := x]"
  define s' where "s' = (call_fnFreeEltFunc s ?y)\<lparr>tabList := (tabList s)[v := ?c]\<rparr>"
  have I: "CPLHashSetInsert s x = Some (s', False)"
    using some by (simp add: CPLHashSetInsert_def s'_def mem_simps)
  have ci: "mset ?c = add_mset x (mset (tabList s ! v) - {#?y#})"
    using some(3) by (simp add: mset_update)
  have y: "?y \<in># mset (tabList s ! v)" using some(3) by simp
  have "mset (concat ((tabList s)[v := ?c])) + mset (tabList s ! v) = contents s + mset ?c"
    using mset_concat_update [OF some(2)] by (simp add: contents_def)
  also have "\<dots> = add_mset x (contents s - {#?y#}) + mset (tabList s ! v)"
    using ci y some(5) by (metis add_mset_remove_trivial_eq insert_DiffM union_mset_add_mset_left union_mset_add_mset_right)
  finally have cont: "contents s' = add_mset x (contents s - {#?y#})" by (simp add: s'_def contents_def)
  have U: "uniq eq (contents s')"
    unfolding cont using uniq_replace [of ?y "contents s - {#?y#}" x] hashset_okD(2) [OF ok] f(2) some(4,5)
    by simp
  have c: "chains_ok hash (nAllocatedSize s) (tabList s)" using hashset_okD(3) [OF ok] f by simp
  have "hashset_ok s'"
  proof (rule hashset_okI)
    show "sizes_ok s'" using hashset_okD(1) [OF ok] sizes_ok_cong [of s' s] by (simp add: s'_def)
    show "chains_ok (fnHashFunc s') (nAllocatedSize s') (tabList s')"
      using chains_ok_update [OF c some(2), of ?c] chains_okD(3) [OF c some(2)] some(6) f
        set_update_subset_insert [of "tabList s ! v" k x]
      by (auto simp: s'_def)
    show "uniq (fnEqualFunc s') (contents s')" using U f(2) by (simp add: s'_def)
    show "nSize s' = int (size (contents s'))"
      using cont hashset_okD(4) [OF ok] some(5) by (simp add: s'_def size_Suc_Diff1)
    show "recycling_ok s' (nSize s')"
      using hashset_okD(5) [OF ok] by (simp add: s'_def recycling_ok_def)
  qed
  moreover have "same_funs s s'" by (simp add: s'_def same_funs_def)
  moreover have "frees s {#?y#} s'" by (simp add: s'_def frees_def)
  ultimately show ?thesis using I cont some(4,5)
    by (intro exI [of _ s'] exI [of _ False]) auto
qed

end


lemma shrink_result:
  assumes ok: "hashset_ok s"
  shows "\<exists>t. (if nIndiceAllocatedSize s > 0 \<and> nSize s \<le> nAllocatedSize s div 2 then
        let s = s\<lparr>nIndiceAllocatedSize := nIndiceAllocatedSize s - 1\<rparr>
        in if d then Some (s\<lparr>bRehash := True\<rparr>) else CPLHashSetRehash s
      else Some s) = Some t \<and>
    hashset_ok t \<and> contents t = contents s \<and> same_funs s t \<and> freed_elts t = freed_elts s"
proof -
  obtain j i where j: "j < 25" "nAllocatedSize s = anPrimes ! j" and i: "nIndiceAllocatedSize s = int i"
    "i \<le> j" "bRehash s \<longleftrightarrow> i < j"
    using ok sizes_okE [of s] unfolding hashset_ok_def by metis
  show ?thesis
  proof (cases "nIndiceAllocatedSize s > 0 \<and> nSize s \<le> nAllocatedSize s div 2")
    case False
    then show ?thesis using ok by auto
  next
    case True
    then obtain i' where i': "i = Suc i'" using i(1) by (cases i) auto
    let ?s = "s\<lparr>nIndiceAllocatedSize := nIndiceAllocatedSize s - 1\<rparr>"
    show ?thesis
    proof (cases d)
      case True
      have "sizes_ok (?s\<lparr>bRehash := True\<rparr>)" using i i' j by (intro sizes_okI [of j]) auto
      then have "hashset_ok (?s\<lparr>bRehash := True\<rparr>)"
        using ok by (simp add: hashset_ok_def nodes_ok_def contents_def recycling_ok_def)
      then show ?thesis using True \<open>nIndiceAllocatedSize s > 0 \<and> _\<close>
        by (intro exI [of _ "?s\<lparr>bRehash := True\<rparr>"]) (simp add: contents_def same_funs_def)
    next
      case False
      obtain tab where tab: "CPLHashSetRehash ?s =
          Some (?s\<lparr>tabList := tab, nAllocatedSize := anPrimes ! i', bRehash := False\<rparr>)"
        "chains_ok (fnHashFunc s) (anPrimes ! i') tab" "mset (concat tab) = contents s"
        using Rehash_result [of ?s i'] ok i(1,2) i' j(1) by (auto simp: hashset_ok_def contents_def)
      let ?t = "?s\<lparr>tabList := tab, nAllocatedSize := anPrimes ! i', bRehash := False\<rparr>"
      have "sizes_ok ?t" using i(1,2) i' j(1) by (intro sizes_okI [of i']) auto
      then have "hashset_ok ?t"
        using tab(2,3) ok by (simp add: hashset_ok_def nodes_ok_def contents_def recycling_ok_def)
      then show ?thesis using False tab(1,3) \<open>nIndiceAllocatedSize s > 0 \<and> _\<close>
        by (intro exI [of _ ?t]) (simp add: contents_def same_funs_def Let_def)
    qed
  qed
qed

context hash_contract
begin

lemma Remove_result:
  assumes ok: "hashset_ok s" and f: "fnHashFunc s = hash" "fnEqualFunc s = eq"
  shows "\<exists>s' b. CPLHashSetRemoveInternal s x d = Some (s', b) \<and> hashset_ok s' \<and> same_funs s s' \<and>
    (if b then \<exists>y. y \<in># contents s \<and> eq y x \<and> contents s' = contents s - {#y#} \<and> frees s {#y#} s'
     else (\<forall>y\<in>#contents s. \<not> eq y x) \<and> contents s' = contents s \<and> frees s {#} s')"
proof -
  obtain t where t: "(if nIndiceAllocatedSize s > 0 \<and> nSize s \<le> nAllocatedSize s div 2 then
        let s = s\<lparr>nIndiceAllocatedSize := nIndiceAllocatedSize s - 1\<rparr>
        in if d then Some (s\<lparr>bRehash := True\<rparr>) else CPLHashSetRehash s
      else Some s) = Some t"
    "hashset_ok t" "contents t = contents s" "same_funs s t" "freed_elts t = freed_elts s"
    using shrink_result [OF ok, of d] by blast
  have ft: "fnHashFunc t = hash" "fnEqualFunc t = eq" using t(4) f by (simp_all add: same_funs_def)
  have c: "chains_ok hash (nAllocatedSize t) (tabList t)" using hashset_okD(3) [OF t(2)] ft by simp
  obtain v where v: "uint (hash x) mod nAllocatedSize t = int v" "v < length (tabList t)"
    using hash_index [OF c] by blast
  let ?cur = "tabList t ! v"
  show ?thesis
  proof (cases "dropWhile (\<lambda>y. \<not> eq y x) ?cur")
    case Nil
    then have no: "CPLHashSetFindPtr_loop eq x 0 ?cur = None"
      by (auto simp: FindPtr_loop_result dropWhile_eq_Nil_conv)
    have "CPLHashSetRemove_chain eq x [] ?cur = None"
      by (simp only: Remove_chain_result Nil list.case)
    then have "CPLHashSetRemoveInternal s x d = Some (t, False)"
      using v ft by (simp only: CPLHashSetRemoveInternal_def t(1)) (simp add: mem_simps)
    then show ?thesis using t find_none [OF c v, of 0] no frees_nothing [OF t(5)]
      by (intro exI [of _ t] exI [of _ False]) (simp add: contents_def)
  next
    case (Cons y r)
    let ?w = "takeWhile (\<lambda>y. \<not> eq y x) ?cur"
    have y: "eq y x" using Cons hd_dropWhile [of "\<lambda>y. \<not> eq y x" ?cur] by auto
    have cur: "?cur = ?w @ y # r" using Cons takeWhile_dropWhile_id [of "\<lambda>y. \<not> eq y x" ?cur] by simp
    define s' where "s' = (CPLHashSetReturnListElt (call_fnFreeEltFunc
      (t\<lparr>tabList := (tabList t)[v := ?w @ r]\<rparr>) y) y)\<lparr>nSize := nSize t - 1\<rparr>"
    have "CPLHashSetRemove_chain eq x [] ?cur = Some (y, ?w @ r)"
      by (simp only: Remove_chain_result Cons list.case append_Nil)
    then have R: "CPLHashSetRemoveInternal s x d = Some (s', True)"
      using v ft by (simp only: CPLHashSetRemoveInternal_def t(1)) (simp add: mem_simps s'_def)
    have "y \<in> set ?cur" by (subst cur) simp
    then have mem: "y \<in># contents t" using nth_mem [OF v(2)] by (auto simp: contents_def)
    have "mset (concat ((tabList t)[v := ?w @ r])) + mset ?cur = contents t + mset (?w @ r)"
      using mset_concat_update [OF v(2)] by (simp add: contents_def)
    moreover have "mset ?cur = add_mset y (mset (?w @ r))" by (subst cur) simp
    ultimately have "add_mset y (mset (concat ((tabList t)[v := ?w @ r]))) = contents t" by simp
    then have cont: "contents s' = contents s - {#y#}" using t(3)
      by (simp add: s'_def contents_def) (metis add_mset_remove_trivial contents_def)
    have sz: "size (contents s) = Suc (size (contents s'))"
      using mem t(3) cont by (metis size_Suc_Diff1)
    have "hashset_ok s'"
    proof (rule hashset_okI)
      show "sizes_ok s'" using hashset_okD(1) [OF t(2)] sizes_ok_cong [of s' t] by (simp add: s'_def)
      have "set (?w @ r) \<subseteq> set ?cur" using cur by (metis Un_iff list.set_intros(2) set_append subsetI)
      then show "chains_ok (fnHashFunc s') (nAllocatedSize s') (tabList s')"
        using chains_ok_update [OF c v(2), of "?w @ r"] chains_okD(3) [OF c v(2)] ft
        by (auto simp: s'_def)
      show "uniq (fnEqualFunc s') (contents s')"
        using uniq_subset [OF hashset_okD(2) [OF t(2)], of "contents s'"] ft t(3) cont
        by (simp add: s'_def)
      show "nSize s' = int (size (contents s'))" using sz hashset_okD(4) [OF t(2)] t(3) by (simp add: s'_def)
      have "recycling_ok (call_fnFreeEltFunc (t\<lparr>tabList := (tabList t)[v := ?w @ r]\<rparr>) y) (nSize t)"
        using hashset_okD(5) [OF t(2)] by (simp add: recycling_ok_def)
      from recycling_return [OF this, of y] show "recycling_ok s' (nSize s')"
        by (simp add: s'_def recycling_ok_def)
    qed
    moreover have "same_funs s s'" using t(4) by (simp add: s'_def same_funs_def)
    moreover have "frees s {#y#} s'" using t(4,5) by (simp add: s'_def frees_def same_funs_def)
    ultimately show ?thesis using R cont y mem t(3)
      by (intro exI [of _ s'] exI [of _ True]) auto
  qed
qed

end

subsection \<open>Clearing frees everything once\<close>

lemma Clear_chain_result:
  "recycling_ok s n \<Longrightarrow>
   (let s' = CPLHashSetClear_chain fin s cur in
     tabList s' = tabList s \<and> nSize s' = nSize s \<and> nAllocatedSize s' = nAllocatedSize s \<and> same_funs s s' \<and>
     frees s (mset cur) s' \<and> recycling_ok s' (n - int (length cur)))"
proof (induction cur arbitrary: s n)
  case Nil
  then show ?case by (simp add: frees_nothing)
next
  case (Cons d cur)
  let ?s = "if fin then (call_fnFreeEltFunc s d)\<lparr>live_nodes := live_nodes (call_fnFreeEltFunc s d) - 1\<rparr>
    else CPLHashSetReturnListElt (call_fnFreeEltFunc s d) d"
  have r: "recycling_ok ?s (n - 1)"
    using Cons.prems by (auto simp: recycling_ok_def CPLHashSetReturnListElt_def)
  have "frees s {#d#} ?s" "same_funs s ?s" "tabList ?s = tabList s" "nSize ?s = nSize s"
    "nAllocatedSize ?s = nAllocatedSize s"
    by (simp_all add: frees_def same_funs_def)
  moreover define t where "t = ?s"
  ultimately have t: "frees s {#d#} t" "same_funs s t" "tabList t = tabList s" "nSize t = nSize s"
    "nAllocatedSize t = nAllocatedSize s" "recycling_ok t (n - 1)"
    using r by simp_all
  have step: "CPLHashSetClear_chain fin s (d # cur) = CPLHashSetClear_chain fin t cur"
    by (simp add: t_def Let_def)
  have "n - 1 - int (length cur) = n - int (length (d # cur))" by simp
  then show ?case using Cons.IH [OF t(6)] t(1-5) unfolding step Let_def
    by (simp add: frees_def same_funs_def diff_diff_eq)
qed

lemma Clear_loop_result:
  assumes "i \<le> length (tabList s)"
  shows "recycling_ok s n \<Longrightarrow> \<exists>s'. CPLHashSetClear_loop fin (int (length (tabList s))) (int i) s = Some s' \<and>
    tabList s' = take i (tabList s) @ replicate (length (tabList s) - i) [] \<and> same_funs s s' \<and>
    frees s (mset (concat (drop i (tabList s)))) s' \<and>
    recycling_ok s' (n - int (length (concat (drop i (tabList s)))))"
  using assms
proof (induction "length (tabList s) - i" arbitrary: i s n)
  case 0
  then show ?case by (simp add: CPLHashSetClear_loop.simps frees_nothing)
next
  case (Suc k)
  then have i: "i < length (tabList s)" by simp
  let ?cur = "tabList s ! i"
  define t where "t = CPLHashSetClear_chain fin s ?cur"
  define t' where "t' = t\<lparr>tabList := (tabList s)[i := []]\<rparr>"
  have t: "tabList t = tabList s" "same_funs s t" "frees s (mset ?cur) t"
    "recycling_ok t (n - int (length ?cur))"
    using Clear_chain_result [OF Suc.prems(1), of fin ?cur] by (simp_all add: t_def Let_def)
  have r: "recycling_ok t' (n - int (length ?cur))" using t(4) by (simp add: t'_def recycling_ok_def)
  have len: "length (tabList t') = length (tabList s)" by (simp add: t'_def)
  have step: "CPLHashSetClear_loop fin (int (length (tabList s))) (int i) s =
      CPLHashSetClear_loop fin (int (length (tabList t'))) (int (Suc i)) t'"
    using i t(1) by (subst CPLHashSetClear_loop.simps) (simp add: mem_simps t_def t'_def add.commute)
  obtain s' where s': "CPLHashSetClear_loop fin (int (length (tabList t'))) (int (Suc i)) t' = Some s'"
    "tabList s' = take (Suc i) (tabList t') @ replicate (length (tabList t') - Suc i) []"
    "same_funs t' s'" "frees t' (mset (concat (drop (Suc i) (tabList t')))) s'"
    "recycling_ok s' (n - int (length ?cur) - int (length (concat (drop (Suc i) (tabList t')))))"
  proof -
    have "k = length (tabList t') - Suc i" "Suc i \<le> length (tabList t')" using Suc.hyps(2) i len by simp_all
    from Suc.hyps(1) [OF this(1) r this(2)] that show thesis by blast
  qed
  have d: "drop i (tabList s) = ?cur # drop (Suc i) (tabList s)" using i by (simp add: Cons_nth_drop_Suc)
  have tk: "take (Suc i) (tabList t') @ replicate (length (tabList t') - Suc i) [] =
      take i (tabList s) @ replicate (length (tabList s) - i) []"
  proof -
    have "length (tabList s) - i = Suc (length (tabList s) - Suc i)" using i by simp
    then show ?thesis using i by (simp add: t'_def take_Suc_conv_app_nth)
  qed
  have dr: "drop (Suc i) (tabList t') = drop (Suc i) (tabList s)" by (simp add: t'_def)
  have "same_funs s s'" using t(2) s'(3) by (simp add: t'_def same_funs_def)
  moreover have "frees s (mset (concat (drop i (tabList s)))) s'"
    using t(2,3) s'(4) unfolding dr d by (simp add: t'_def frees_def same_funs_def ac_simps)
  moreover have "recycling_ok s' (n - int (length (concat (drop i (tabList s)))))"
    using s'(5) unfolding dr d by (simp add: algebra_simps)
  ultimately show ?case using step s'(1,2) tk by auto
qed


lemma Clear_result:
  assumes ok: "hashset_ok s"
  shows "\<exists>s'. CPLHashSetClear s = Some s' \<and> hashset_ok s' \<and> same_funs s s' \<and> contents s' = {#} \<and>
    frees s (contents s) s'"
proof -
  have len: "int (length (tabList s)) = nAllocatedSize s" using chains_okD(2) [OF hashset_okD(3) [OF ok]] .
  have big: "53 \<le> length (tabList s)"
  proof -
    obtain j where "j < 25" "nAllocatedSize s = anPrimes ! j"
      using sizes_okE [OF hashset_okD(1) [OF ok]] by blast
    with anPrimes_facts(2) [of j] len show ?thesis by simp
  qed
  obtain t where t: "CPLHashSetClear_loop False (nAllocatedSize s) 0 s = Some t"
    "tabList t = replicate (length (tabList s)) []" "same_funs s t" "frees s (contents s) t"
    "recycling_ok t (nSize s - int (length (concat (tabList s))))"
    using Clear_loop_result [OF _ hashset_okD(5) [OF ok], of 0 False] len by (auto simp: contents_def)
  define s' where "s' = t\<lparr>bRehash := False, tabList := take 53 (tabList t), nIndiceAllocatedSize := 0,
    nAllocatedSize := 53, nSize := 0\<rparr>"
  have tab: "tabList s' = replicate 53 []" using t(2) big by (simp add: s'_def)
  have "hashset_ok s'"
  proof (rule hashset_okI)
    show "sizes_ok s'" by (rule sizes_okI [of 0]) (simp_all add: s'_def anPrimes_def)
    show "chains_ok (fnHashFunc s') (nAllocatedSize s') (tabList s')"
      unfolding tab by (simp add: s'_def chains_ok_def)
    show "uniq (fnEqualFunc s') (contents s')" by (simp add: tab contents_def uniq_def)
    show "nSize s' = int (size (contents s'))" unfolding contents_def tab by (simp add: s'_def)
    have "nSize s - int (length (concat (tabList s))) = 0" using hashset_okD(4) [OF ok] by (simp add: contents_def)
    then show "recycling_ok s' (nSize s')" using t(5) by (simp add: s'_def recycling_ok_def)
  qed
  moreover have "CPLHashSetClear s = Some s'"
    using t(1) by (simp add: CPLHashSetClear_def CPLHashSetClearInternal_def s'_def)
  moreover have "same_funs s s'" "frees s (contents s) s'"
    using t(3,4) by (simp_all add: s'_def same_funs_def frees_def)
  moreover have "contents s' = {#}" by (simp add: contents_def tab)
  ultimately show ?thesis by blast
qed

lemma Destroy_result:
  assumes ok: "hashset_ok s"
  shows "\<exists>fr. CPLHashSetDestroy s = Some (fr, 0) \<and>
    mset fr = mset (freed_elts s) + (if fnFreeEltFunc s then contents s else {#})"
proof -
  have len: "int (length (tabList s)) = nAllocatedSize s" using chains_okD(2) [OF hashset_okD(3) [OF ok]] .
  obtain t where t: "CPLHashSetClear_loop True (nAllocatedSize s) 0 s = Some t"
    "frees s (contents s) t" "recycling_ok t (nSize s - int (length (concat (tabList s))))"
    using Clear_loop_result [OF _ hashset_okD(5) [OF ok], of 0 True] len by (auto simp: contents_def)
  have "nSize s - int (length (concat (tabList s))) = 0" using hashset_okD(4) [OF ok] by (simp add: contents_def)
  then have "live_nodes t - int (length (psRecyclingList t)) = 0" using t(3) by (simp add: recycling_ok_def)
  then show ?thesis using t(1,2)
    by (auto simp: CPLHashSetDestroy_def CPLHashSetClearInternal_def frees_def)
qed


subsection \<open>Runs of operations\<close>

datatype 'a hash_op = HInsert 'a | HRemove 'a | HRemoveDefer 'a | HClear

fun hash_step :: "'a CPLHashSet \<Rightarrow> 'a hash_op \<Rightarrow> ('a CPLHashSet \<times> bool) option" where
  "hash_step s (HInsert e) = CPLHashSetInsert s e"
| "hash_step s (HRemove e) = CPLHashSetRemove s e"
| "hash_step s (HRemoveDefer e) = CPLHashSetRemoveDeferRehash s e"
| "hash_step s HClear = map_option (\<lambda>s. (s, False)) (CPLHashSetClear s)"

fun hash_run :: "'a CPLHashSet \<Rightarrow> 'a hash_op list \<Rightarrow> ('a CPLHashSet \<times> bool list) option" where
  "hash_run s [] = Some (s, [])"
| "hash_run s (oper # ops) = do {
     (s, b) \<leftarrow> hash_step s oper;
     (s, bs) \<leftarrow> hash_run s ops;
     Some (s, b # bs)
   }"

text \<open>The specification: a map from elements to the stored element equal to them.\<close>

fun spec_step :: "('a \<Rightarrow> 'a \<Rightarrow> bool) \<Rightarrow> ('a \<Rightarrow> 'a option) \<Rightarrow> 'a hash_op \<Rightarrow> ('a \<Rightarrow> 'a option) \<times> bool" where
  "spec_step eq m (HInsert e) = (\<lambda>x. if eq e x then Some e else m x, m e = None)"
| "spec_step eq m (HRemove e) = (\<lambda>x. if eq e x then None else m x, m e \<noteq> None)"
| "spec_step eq m (HRemoveDefer e) = (\<lambda>x. if eq e x then None else m x, m e \<noteq> None)"
| "spec_step eq m HClear = (\<lambda>x. None, False)"

fun spec_run :: "('a \<Rightarrow> 'a \<Rightarrow> bool) \<Rightarrow> ('a \<Rightarrow> 'a option) \<Rightarrow> 'a hash_op list \<Rightarrow> ('a \<Rightarrow> 'a option) \<times> bool list" where
  "spec_run eq m [] = (m, [])"
| "spec_run eq m (oper # ops) =
     (let (m, b) = spec_step eq m oper; (m, bs) = spec_run eq m ops in (m, b # bs))"

fun inserted :: "'a hash_op list \<Rightarrow> 'a list" where
  "inserted [] = []"
| "inserted (HInsert e # ops) = e # inserted ops"
| "inserted (oper # ops) = inserted ops"

definition hash_models :: "('a \<Rightarrow> 'a \<Rightarrow> bool) \<Rightarrow> ('a \<Rightarrow> 'a option) \<Rightarrow> 'a CPLHashSet \<Rightarrow> bool" where
  "hash_models eq m s \<longleftrightarrow> (\<forall>x y. m x = Some y \<longleftrightarrow> y \<in># contents s \<and> eq y x)"

text \<open>What was given to the free function and what is still in the set.\<close>

definition owned :: "'a CPLHashSet \<Rightarrow> 'a multiset" where
  "owned s = mset (freed_elts s) + (if fnFreeEltFunc s then contents s else {#})"

context hash_contract
begin

lemma uniq_count:
  assumes "uniq eq M" "y \<in># M"
  shows "y \<notin># M - {#y#}"
proof
  assume "y \<in># M - {#y#}"
  then obtain N where "M = add_mset y (add_mset y N)" using assms(2) by (metis insert_DiffM)
  then have "2 \<le> size (filter_mset (\<lambda>a. eq a y) M)" using eq_refl by simp
  with assms(1) show False unfolding uniq_def by (metis Suc_1 not_less_eq_eq)
qed

lemma Remove_models:
  assumes ok: "hashset_ok s" and f: "fnEqualFunc s = eq" and m: "hash_models eq m s"
    and y: "y \<in># contents s" "eq y e" "contents s' = contents s - {#y#}"
  shows "hash_models eq (\<lambda>x. if eq e x then None else m x) s' \<and> m e \<noteq> None"
proof -
  have u: "uniq eq (contents s)" using hashset_okD(2) [OF ok] f by simp
  have no: "\<not> eq z e" if "z \<in># contents s'" for z
  proof
    assume "eq z e"
    moreover have "z \<in># contents s" using that y(3) by (simp add: in_diffD)
    ultimately have "z = y" using uniq_eq [OF u, of z y e] y(1,2) by simp
    with that uniq_count [OF u y(1)] y(3) show False by simp
  qed
  have "(if eq e x then None else m x) = Some z \<longleftrightarrow> z \<in># contents s' \<and> eq z x" for x z
  proof (cases "eq e x")
    case True
    then have "\<not> (z \<in># contents s' \<and> eq z x)" using no eq_sym eq_trans by blast
    with True show ?thesis by simp
  next
    case False
    then have "\<not> eq y x" using y(2) eq_sym eq_trans by blast
    then have "z \<noteq> y" if "eq z x" using that by blast
    then have "z \<in># contents s' \<and> eq z x \<longleftrightarrow> z \<in># contents s \<and> eq z x"
      using y(3) by (auto simp: in_diffD in_diff_other)
    with False m show ?thesis by (simp add: hash_models_def)
  qed
  moreover have "m e = Some y" using m y(1,2) by (simp add: hash_models_def)
  ultimately show ?thesis unfolding hash_models_def by simp
qed

lemma Insert_models:
  assumes ok: "hashset_ok s'" and f: "fnEqualFunc s' = eq" and m: "hash_models eq m s"
    and c: "contents s' = add_mset e M" "\<And>z. \<not> eq z e \<Longrightarrow> z \<in># M \<longleftrightarrow> z \<in># contents s"
  shows "hash_models eq (\<lambda>x. if eq e x then Some e else m x) s'"
proof -
  have u: "uniq eq (contents s')" using hashset_okD(2) [OF ok] f by simp
  have "(if eq e x then Some e else m x) = Some z \<longleftrightarrow> z \<in># contents s' \<and> eq z x" for x z
  proof (cases "eq e x")
    case True
    then show ?thesis using uniq_eq [OF u, of z e x] c(1) by auto
  next
    case False
    then have "\<not> eq z e" if "eq z x" using that eq_sym eq_trans by blast
    then have "z \<in># contents s' \<and> eq z x \<longleftrightarrow> z \<in># contents s \<and> eq z x"
      using c False by auto
    with False m show ?thesis by (simp add: hash_models_def)
  qed
  then show ?thesis unfolding hash_models_def by simp
qed

end


lemma owned_frees:
  "same_funs s s' \<Longrightarrow> frees s F s' \<Longrightarrow> contents s' + F = contents s + A \<Longrightarrow>
   owned s' = owned s + (if fnFreeEltFunc s then A else {#})"
  by (simp add: owned_def same_funs_def frees_def) (metis add.commute add.left_commute)

context hash_contract
begin

lemma step_result:
  assumes ok: "hashset_ok s" and f: "fnHashFunc s = hash" "fnEqualFunc s = eq"
    and small: "nSize s < 536870971" and m: "hash_models eq m s"
  shows "\<exists>s' b. hash_step s oper = Some (s', b) \<and> hashset_ok s' \<and> same_funs s s' \<and>
    hash_models eq (fst (spec_step eq m oper)) s' \<and> b = snd (spec_step eq m oper) \<and>
    owned s' = owned s + (if fnFreeEltFunc s then mset (inserted [oper]) else {#}) \<and>
    size (contents s') \<le> Suc (size (contents s))"
proof -
  have u: "uniq eq (contents s)" using hashset_okD(2) [OF ok] f by simp
  have none: "m e = None \<longleftrightarrow> (\<forall>y\<in>#contents s. \<not> eq y e)" for e
    using m unfolding hash_models_def by (metis not_None_eq option.distinct(1))
  have del: "\<exists>s' b. CPLHashSetRemoveInternal s e d = Some (s', b) \<and> hashset_ok s' \<and> same_funs s s' \<and>
      hash_models eq (\<lambda>x. if eq e x then None else m x) s' \<and> b = (m e \<noteq> None) \<and> owned s' = owned s \<and>
      size (contents s') \<le> Suc (size (contents s))" for e d
  proof -
    obtain s' b where r: "CPLHashSetRemoveInternal s e d = Some (s', b)" "hashset_ok s'" "same_funs s s'"
      "if b then \<exists>y. y \<in># contents s \<and> eq y e \<and> contents s' = contents s - {#y#} \<and> frees s {#y#} s'
       else (\<forall>y\<in>#contents s. \<not> eq y e) \<and> contents s' = contents s \<and> frees s {#} s'"
      using Remove_result [OF ok f, of e d] by blast
    show ?thesis
    proof (cases b)
      case True
      then obtain y where y: "y \<in># contents s" "eq y e" "contents s' = contents s - {#y#}" "frees s {#y#} s'"
        using r(4) by auto
      have "owned s' = owned s" using owned_frees [OF r(3) y(4), of "{#}"] y(1,3) by simp
      moreover have "size (contents s') \<le> Suc (size (contents s))" using y(1,3) by (simp add: size_Diff_singleton)
      ultimately show ?thesis using Remove_models [OF ok f(2) m y(1-3)] r(1-3) True by auto
    next
      case False
      have "m x = None" if "eq e x" for x
        using none [of x] False r(4) that eq_sym eq_trans by (metis (full_types))
      then have "hash_models eq (\<lambda>x. if eq e x then None else m x) s'"
        using m r(4) False unfolding hash_models_def by (metis (full_types))
      moreover have "owned s' = owned s" using owned_frees [OF r(3), of "{#}" "{#}"] r(4) False by simp
      ultimately show ?thesis using r False none [of e] by auto
    qed
  qed
  show ?thesis
  proof (cases oper)
    case (HInsert e)
    obtain s' b where r: "CPLHashSetInsert s e = Some (s', b)" "hashset_ok s'" "same_funs s s'"
      "if b then (\<forall>y\<in>#contents s. \<not> eq y e) \<and> contents s' = add_mset e (contents s) \<and> frees s {#} s'
       else \<exists>y. y \<in># contents s \<and> eq y e \<and> contents s' = add_mset e (contents s - {#y#}) \<and> frees s {#y#} s'"
      using Insert_result [OF ok f small, of e] by blast
    have f': "fnEqualFunc s' = eq" using r(3) f by (simp add: same_funs_def)
    show ?thesis
    proof (cases b)
      case True
      with r(4) have c: "contents s' = add_mset e (contents s)" "frees s {#} s'" by auto
      have "hash_models eq (\<lambda>x. if eq e x then Some e else m x) s'"
        by (rule Insert_models [OF r(2) f' m c(1)]) simp
      moreover have "owned s' = owned s + (if fnFreeEltFunc s then {#e#} else {#})"
        by (rule owned_frees [OF r(3) c(2)]) (simp add: c(1))
      ultimately show ?thesis using r True HInsert none [of e] by auto
    next
      case False
      with r(4) obtain y where y: "y \<in># contents s" "eq y e" "contents s' = add_mset e (contents s - {#y#})"
        "frees s {#y#} s'" by auto
      have "hash_models eq (\<lambda>x. if eq e x then Some e else m x) s'"
        by (rule Insert_models [OF r(2) f' m y(3)]) (metis in_diffD in_diff_other y(2))
      moreover have "owned s' = owned s + (if fnFreeEltFunc s then {#e#} else {#})"
        by (rule owned_frees [OF r(3) y(4)]) (simp add: y(1,3))
      moreover have "m e \<noteq> None" using none [of e] y(1,2) by auto
      moreover have "size (contents s') \<le> Suc (size (contents s))" using y(1,3) by (simp add: size_Diff_singleton)
      ultimately show ?thesis using r False HInsert by auto
    qed
  next
    case HClear
    obtain s' where r: "CPLHashSetClear s = Some s'" "hashset_ok s'" "same_funs s s'" "contents s' = {#}"
      "frees s (contents s) s'"
      using Clear_result [OF ok] by blast
    have "owned s' = owned s" using owned_frees [OF r(3) r(5), of "{#}"] r(4) by simp
    then show ?thesis using r(1-4) HClear
      by (intro exI [of _ s'] exI [of _ False]) (simp add: hash_models_def)
  qed (use del in \<open>auto simp: CPLHashSetRemove_def CPLHashSetRemoveDeferRehash_def\<close>)
qed

end


context hash_contract
begin

lemma run_result:
  assumes "hashset_ok s" "fnHashFunc s = hash" "fnEqualFunc s = eq" "hash_models eq m s"
    and "size (contents s) + length ops < 536870971"
  shows "\<exists>s'. hash_run s ops = Some (s', snd (spec_run eq m ops)) \<and> hashset_ok s' \<and> same_funs s s' \<and>
    hash_models eq (fst (spec_run eq m ops)) s' \<and>
    owned s' = owned s + (if fnFreeEltFunc s then mset (inserted ops) else {#})"
  using assms
proof (induction ops arbitrary: s m)
  case Nil
  then show ?case by simp
next
  case (Cons oper ops)
  have small: "nSize s < 536870971" using Cons.prems(5) hashset_okD(4) [OF Cons.prems(1)] by simp
  obtain t b where t: "hash_step s oper = Some (t, b)" "hashset_ok t" "same_funs s t"
    "hash_models eq (fst (spec_step eq m oper)) t" "b = snd (spec_step eq m oper)"
    "owned t = owned s + (if fnFreeEltFunc s then mset (inserted [oper]) else {#})"
    "size (contents t) \<le> Suc (size (contents s))"
    using step_result [OF Cons.prems(1-3) small Cons.prems(4), of oper] by blast
  have ft: "fnHashFunc t = hash" "fnEqualFunc t = eq" "fnFreeEltFunc t = fnFreeEltFunc s"
    using t(3) Cons.prems(2,3) by (simp_all add: same_funs_def)
  have "size (contents t) + length ops < 536870971" using t(7) Cons.prems(5) by simp
  from Cons.IH [OF t(2) ft(1,2) t(4) this] obtain s' where
    s': "hash_run t ops = Some (s', snd (spec_run eq (fst (spec_step eq m oper)) ops))" "hashset_ok s'"
    "same_funs t s'" "hash_models eq (fst (spec_run eq (fst (spec_step eq m oper)) ops)) s'"
    "owned s' = owned t + (if fnFreeEltFunc s then mset (inserted ops) else {#})"
    unfolding ft(3) by blast
  have ins: "mset (inserted [oper]) + mset (inserted ops) = mset (inserted (oper # ops))"
    by (cases oper) simp_all
  have "owned s' = owned s + (if fnFreeEltFunc s then mset (inserted (oper # ops)) else {#})"
    unfolding s'(5) t(6) ins [symmetric] by simp
  then show ?case using t(1,3,5) s'(1-4) same_funs_trans
    by (auto simp: Let_def split_beta)
qed

lemma new_ok: "hashset_ok (CPLHashSetNew hash eq free)"
proof (rule hashset_okI)
  show "sizes_ok (CPLHashSetNew hash eq free)"
    by (rule sizes_okI [of 0]) (simp_all add: CPLHashSetNew_def anPrimes_def)
qed (simp_all add: CPLHashSetNew_def chains_ok_def contents_def uniq_def recycling_ok_def)

lemma new_run:
  assumes "length ops < 536870971"
  shows "\<exists>s. hash_run (CPLHashSetNew hash eq free) ops = Some (s, snd (spec_run eq (\<lambda>x. None) ops)) \<and>
    hashset_ok s \<and> fnHashFunc s = hash \<and> fnEqualFunc s = eq \<and> fnFreeEltFunc s = free \<and>
    hash_models eq (fst (spec_run eq (\<lambda>x. None) ops)) s \<and>
    owned s = (if free then mset (inserted ops) else {#})"
proof -
  let ?s = "CPLHashSetNew hash eq free"
  have m: "hash_models eq (\<lambda>x. None) ?s" and z: "size (contents ?s) + length ops < 536870971"
    and f: "fnHashFunc ?s = hash" "fnEqualFunc ?s = eq" "fnFreeEltFunc ?s = free" "owned ?s = {#}"
    using assms by (simp_all add: hash_models_def CPLHashSetNew_def contents_def owned_def)
  obtain s where "hash_run ?s ops = Some (s, snd (spec_run eq (\<lambda>x. None) ops))" "hashset_ok s"
    "same_funs ?s s" "hash_models eq (fst (spec_run eq (\<lambda>x. None) ops)) s"
    "owned s = (if free then mset (inserted ops) else {#})"
    using run_result [OF new_ok [of free] f(1,2) m z] f(3,4) by auto
  then show ?thesis using f(1-3) unfolding same_funs_def by metis
qed

lemma models_lookup:
  assumes "hashset_ok s" "fnHashFunc s = hash" "fnEqualFunc s = eq" "hash_models eq m s"
  shows "CPLHashSetLookup s x = Some (m x)"
proof -
  obtain r where r: "CPLHashSetLookup s x = Some r" "\<forall>y. r = Some y \<longleftrightarrow> y \<in># contents s \<and> eq y x"
    using Lookup_result [OF assms(1-3)] by blast
  have "r = Some y \<longleftrightarrow> m x = Some y" for y
    using r(2) assms(4) unfolding hash_models_def by blast
  then have "r = m x" by (metis not_None_eq)
  with r(1) show ?thesis by simp
qed

end

subsection \<open>The functions of the library keep the contract\<close>

interpretation str_hash: hash_contract CPLHashSetHashStr CPLHashSetEqualStr
  by unfold_locales (auto simp: CPLHashSetEqualStr_def split: option.splits)

interpretation ptr_hash: hash_contract CPLHashSetHashPointer CPLHashSetEqualPointer
  by unfold_locales (auto simp: CPLHashSetEqualPointer_def)

text \<open>C15: With hash and equality functions that keep their contract (the equality is an equivalence and equal elements
  have the same hash), a hash set behaves as a map from elements to the stored element equal to them: every sequence
  of less than 536870971 insertions, removals (with an immediate or a deferred rehash) and clearings on a new set runs
  without leaving the table of sizes or a chain and without overflow, returns what the map returns, and every later
  lookup finds what the map holds, through all growing, shrinking and rehashing of the table.  Beyond that number the
  set can outgrow the table of sizes, which the code does not check.\<close>

theorem CPLHashSet_refines_map:
  assumes "hash_contract hash eq" and "length ops < 536870971"
  shows "\<exists>s. hash_run (CPLHashSetNew hash eq free) ops = Some (s, snd (spec_run eq (\<lambda>x. None) ops)) \<and>
    (\<forall>x. CPLHashSetLookup s x = Some (fst (spec_run eq (\<lambda>x. None) ops) x)) \<and> hashset_ok s"
  using hash_contract.new_run [OF assms, of free] hash_contract.models_lookup [OF assms(1)] by blast

theorem CPLHashSet_refines_map_witness:
  "\<exists>s. hash_run (CPLHashSetNew CPLHashSetHashStr CPLHashSetEqualStr True)
      [HInsert (Some ''a''), HInsert None, HRemoveDefer (Some ''a''), HInsert (Some ''a'')] =
      Some (s, [True, True, True, True]) \<and>
    CPLHashSetLookup s (Some ''a'') = Some (Some (Some ''a''))"
  using CPLHashSet_refines_map [OF str_hash.hash_contract_axioms,
    of "[HInsert (Some ''a''), HInsert None, HRemoveDefer (Some ''a''), HInsert (Some ''a'')]" True]
  by (auto simp: Let_def CPLHashSetEqualStr_def)

text \<open>C21: A set made with a free function calls it once for every insertion: after any sequence of less than 536870971
  operations and CPLHashSetDestroy, the multiset of the freed elements is that of the inserted ones, so that an element
  inserted once is freed exactly once and one inserted several times as often as it was inserted, whether it was
  replaced, removed, cleared or still stored, and no list node stays allocated; without a free function nothing is
  freed.  Hash and equality functions keep their contract.\<close>

theorem CPLHashSet_frees_once:
  assumes "hash_contract hash eq" and "length ops < 536870971"
  shows "\<exists>s bs fr. hash_run (CPLHashSetNew hash eq free) ops = Some (s, bs) \<and>
    CPLHashSetDestroy s = Some (fr, 0) \<and> mset fr = (if free then mset (inserted ops) else {#})"
proof -
  obtain s bs where s: "hash_run (CPLHashSetNew hash eq free) ops = Some (s, bs)" "hashset_ok s"
    "fnFreeEltFunc s = free" "owned s = (if free then mset (inserted ops) else {#})"
    using hash_contract.new_run [OF assms, of free] by blast
  then show ?thesis using Destroy_result [OF s(2)] by (auto simp: owned_def)
qed

theorem CPLHashSet_frees_once_witness:
  "\<exists>s bs fr. hash_run (CPLHashSetNew CPLHashSetHashPointer CPLHashSetEqualPointer True)
      [HInsert 7, HInsert 7, HClear, HInsert 9] = Some (s, bs) \<and>
    CPLHashSetDestroy s = Some (fr, 0) \<and> mset fr = {#7, 7, 9#}"
  using CPLHashSet_frees_once [OF ptr_hash.hash_contract_axioms, of "[HInsert 7, HInsert 7, HClear, HInsert 9]" True]
  by simp

end
