(* ===== verification/Base64.thy ===== *)
theory Base64
  imports Prelude
begin

section \<open>Base64 (port/cpl_base64.cpp)\<close>

text \<open>
  CPLBase64DecodeInPlace works on one block of bytes: it first squeezes out the characters that are
  not of Base64, then overwrites the block with the decoded bytes while it reads it.  The block is a
  list of byte values with checked accesses, so a result \<open>Some\<close> says that the code stays inside
  it.  CPLBase64Encode collects three bytes at a time.
\<close>

subsection \<open>Decoding\<close>

definition CPLBase64DecodeChar :: "nat list" where
  "CPLBase64DecodeChar =
     replicate 43 64 @ [62] @ replicate 3 64 @ [63] @
     [52, 53, 54, 55, 56, 57, 58, 59, 60, 61] @ replicate 7 64 @
     [0, 1, 2, 3, 4, 5, 6, 7, 8, 9, 10, 11, 12, 13, 14, 15, 16, 17, 18, 19, 20,
      21, 22, 23, 24, 25] @
     replicate 6 64 @
     [26, 27, 28, 29, 30, 31, 32, 33, 34, 35, 36, 37, 38, 39, 40, 41, 42, 43, 44,
      45, 46, 47, 48, 49, 50, 51] @
     replicate 5 64 @ replicate 128 64"

text \<open>Dropping illegal characters: the loop up to the terminator, with both offsets.  The offsets of the
  function are of type \<open>int\<close>: \<open>None\<close> when one overflows (the second never gets ahead of the first).\<close>

function Base64_squeeze :: "nat list \<Rightarrow> nat \<Rightarrow> nat \<Rightarrow> (nat list \<times> nat \<times> nat) option" where
  "Base64_squeeze mem offset_1 offset_2 =
     (case arr_get mem (int offset_1) of
        None \<Rightarrow> None
      | Some c \<Rightarrow>
          if c = 0 then Some (mem, offset_1, offset_2)
          else if c_int (int offset_1 + 1) = None then None
          else if CPLBase64DecodeChar ! c \<noteq> 64 \<or> c = 61
          then (case arr_set mem (int offset_2) c of
                  None \<Rightarrow> None
                | Some mem' \<Rightarrow> Base64_squeeze mem' (offset_1 + 1) (offset_2 + 1))
          else Base64_squeeze mem (offset_1 + 1) offset_2)"
  by pat_completeness auto
termination
  by (relation "measure (\<lambda>(m, i, j). length m - i)")
    (auto simp: arr_get_def arr_set_def split: if_splits)

declare Base64_squeeze.simps [simp del]

text \<open>The values \<open>b1\<close>, \<open>b2\<close> and the characters \<open>c3\<close>, \<open>c4\<close> of the group at \<open>idx\<close>, with the defaults of
  a short last group.\<close>

definition Base64_group :: "nat list \<Rightarrow> nat \<Rightarrow> nat \<Rightarrow> (nat \<times> nat \<times> nat \<times> nat) option" where
  "Base64_group mem idx offset_2 = do {
     c1 \<leftarrow> arr_get mem (int idx);
     if idx + 3 < offset_2 then do {
       c2 \<leftarrow> arr_get mem (int (idx + 1));
       c3 \<leftarrow> arr_get mem (int (idx + 2));
       c4 \<leftarrow> arr_get mem (int (idx + 3));
       Some (CPLBase64DecodeChar ! c1, CPLBase64DecodeChar ! c2, c3, c4)
     }
     else if idx + 2 < offset_2 then do {
       c2 \<leftarrow> arr_get mem (int (idx + 1));
       c3 \<leftarrow> arr_get mem (int (idx + 2));
       Some (CPLBase64DecodeChar ! c1, CPLBase64DecodeChar ! c2, c3, 65)
     }
     else if idx + 1 < offset_2 then do {
       c2 \<leftarrow> arr_get mem (int (idx + 1));
       Some (CPLBase64DecodeChar ! c1, CPLBase64DecodeChar ! c2, 65, 65)
     }
     else Some (CPLBase64DecodeChar ! c1, 0, 65, 65)
   }"

text \<open>The stores of a group: a store per byte, each followed by the test of the end of the input; the
  flag says that it was reached.\<close>

fun Base64_store :: "nat list \<Rightarrow> nat \<Rightarrow> nat \<Rightarrow> (bool \<times> nat) list \<Rightarrow> (nat list \<times> nat \<times> bool) option" where
  "Base64_store mem p offset_1 [] = Some (mem, p, False)"
| "Base64_store mem p offset_1 ((wanted, b) # bs) =
     (if wanted
      then (case arr_set mem (int p) (b mod 256) of
              None \<Rightarrow> None
            | Some mem \<Rightarrow> if p + 1 = offset_1 then Some (mem, p + 1, True)
                          else Base64_store mem (p + 1) offset_1 bs)
      else Base64_store mem p offset_1 bs)"

function Base64_decode :: "nat list \<Rightarrow> nat \<Rightarrow> nat \<Rightarrow> nat \<Rightarrow> nat \<Rightarrow> (nat list \<times> nat) option" where
  "Base64_decode mem p idx offset_1 offset_2 =
     (if idx < offset_2 then do {
        _ \<leftarrow> c_int (int idx + 3);
        (b1, b2, c3, c4) \<leftarrow> Base64_group mem idx offset_2;
        let b3 = CPLBase64DecodeChar ! c3;
        let b4 = CPLBase64DecodeChar ! c4;
        (mem, p, done) \<leftarrow> Base64_store mem p offset_1
          [(True, push_bit 2 b1 OR drop_bit 4 b2),
           (c3 \<noteq> 61, push_bit 4 (b2 AND 0xf) OR drop_bit 2 b3),
           (c4 \<noteq> 61, push_bit 6 (b3 AND 0x3) OR b4)];
        if done then Some (mem, p)
        else do { _ \<leftarrow> c_int (int idx + 4); Base64_decode mem p (idx + 4) offset_1 offset_2 }
      } else Some (mem, p))"
  by pat_completeness auto
termination by (relation "measure (\<lambda>(m, p, i, o1, o2). o2 - i)") auto

declare Base64_decode.simps [simp del]

text \<open>The block after the call and the returned length.\<close>

definition CPLBase64DecodeInPlace :: "nat list option \<Rightarrow> (nat list \<times> nat) option" where
  "CPLBase64DecodeInPlace pszBase64 =
     (case pszBase64 of
        None \<Rightarrow> Some ([], 0)
      | Some mem \<Rightarrow> do {
          c \<leftarrow> arr_get mem 0;
          if c \<noteq> 0 then do {
            (mem, offset_1, offset_2) \<leftarrow> Base64_squeeze mem 0 0;
            Base64_decode mem 0 0 offset_1 offset_2
          } else Some (mem, 0)
        })"

subsection \<open>Encoding\<close>

definition base64Chars :: string where
  "base64Chars = ''ABCDEFGHIJKLMNOPQRSTUVWXYZabcdefghijklmnopqrstuvwxyz0123456789+/''"

definition charArray4 :: "nat list \<Rightarrow> nat list" where
  "charArray4 a =
     [drop_bit 2 (a ! 0 AND 0xfc),
      (push_bit 4 (a ! 0 AND 0x03) + drop_bit 4 (a ! 1 AND 0xf0)) mod 256,
      (push_bit 2 (a ! 1 AND 0x0f) + drop_bit 6 (a ! 2 AND 0xc0)) mod 256,
      a ! 2 AND 0x3f]"

definition base64_chars :: "nat list \<Rightarrow> nat \<Rightarrow> string" where
  "base64_chars charArray3 n = map (\<lambda>idx. base64Chars ! (charArray4 charArray3 ! idx)) [0..<n]"

text \<open>The loop over the input, with \<open>charArray3\<close>, \<open>array3_idx\<close> and \<open>result\<close>.\<close>

fun CPLBase64Encode_loop :: "nat list \<Rightarrow> nat \<Rightarrow> string \<Rightarrow> nat list \<Rightarrow> nat list \<times> nat \<times> string" where
  "CPLBase64Encode_loop charArray3 array3_idx result [] = (charArray3, array3_idx, result)"
| "CPLBase64Encode_loop charArray3 array3_idx result (b # data) =
     (let charArray3 = charArray3[array3_idx := b];
          array3_idx = array3_idx + 1
      in if array3_idx = 3
         then CPLBase64Encode_loop charArray3 0 (result @ base64_chars charArray3 4) data
         else CPLBase64Encode_loop charArray3 array3_idx result data)"

text \<open>\<open>pabyBytesToEncode\<close> holds the \<open>nDataLen\<close> bytes.\<close>

definition CPLBase64Encode :: "nat list \<Rightarrow> string" where
  "CPLBase64Encode pabyBytesToEncode =
     (let (charArray3, array3_idx, result) = CPLBase64Encode_loop [0, 0, 0] 0 [] pabyBytesToEncode
      in if array3_idx \<noteq> 0
         then (let charArray3 = fold (\<lambda>idx a. a[idx := 0]) [array3_idx..<3] charArray3
               in result @ base64_chars charArray3 (array3_idx + 1) @ replicate (3 - array3_idx) (CHR ''=''))
         else result)"

subsection \<open>The standard encoding\<close>

definition b64_char :: "nat \<Rightarrow> char" where "b64_char n = base64Chars ! n"

fun b64_encode :: "nat list \<Rightarrow> string" where
  "b64_encode [] = []"
| "b64_encode [a] = [b64_char (a div 4), b64_char (a mod 4 * 16), CHR ''='', CHR ''='']"
| "b64_encode [a, b] =
     [b64_char (a div 4), b64_char (a mod 4 * 16 + b div 16), b64_char (b mod 16 * 4), CHR ''='']"
| "b64_encode (a # b # c # data) =
     [b64_char (a div 4), b64_char (a mod 4 * 16 + b div 16), b64_char (b mod 16 * 4 + c div 64),
      b64_char (c mod 64)] @ b64_encode data"

lemma charArray4_bytes:
  assumes "a < 256" "b < 256" "c < 256"
  shows "charArray4 [a, b, c] =
    [a div 4, a mod 4 * 16 + b div 16, b mod 16 * 4 + c div 64, c mod 64]"
proof -
  have "a div 4 < 64" "b div 16 < 16" "c div 64 < 4" using assms by (simp_all add: less_mult_imp_div_less)
  moreover have "a mod 4 < 4" "b mod 16 < 16" by simp_all
  ultimately have "a mod 4 * 16 + b div 16 < 256" "b mod 16 * 4 + c div 64 < 256" by linarith+
  then show ?thesis using assms
    by (simp add: charArray4_def and_mask_nat push_bit_eq_mult mult.commute, simp add: drop_bit_eq_div)
qed

lemma base64_chars_eq:
  assumes "a < 256" "b < 256" "c < 256"
  shows "base64_chars [a, b, c] 2 = [b64_char (a div 4), b64_char (a mod 4 * 16 + b div 16)]"
    "base64_chars [a, b, c] 3 = [b64_char (a div 4), b64_char (a mod 4 * 16 + b div 16),
       b64_char (b mod 16 * 4 + c div 64)]"
    "base64_chars [a, b, c] 4 = [b64_char (a div 4), b64_char (a mod 4 * 16 + b div 16),
       b64_char (b mod 16 * 4 + c div 64), b64_char (c mod 64)]"
  by (simp_all add: base64_chars_def charArray4_bytes [OF assms] b64_char_def upt_rec)

definition encode_end :: "nat list \<times> nat \<times> string \<Rightarrow> string" where
  "encode_end st = (let (charArray3, array3_idx, result) = st in
     if array3_idx \<noteq> 0
     then (let charArray3 = fold (\<lambda>idx a. a[idx := 0]) [array3_idx..<3] charArray3
           in result @ base64_chars charArray3 (array3_idx + 1) @ replicate (3 - array3_idx) (CHR ''=''))
     else result)"

lemma replicate_2: "replicate 2 x = [x, x]"
  by (simp add: numeral_2_eq_2)

lemma Encode_loop_result:
  "\<forall>b\<in>set data. b < 256 \<Longrightarrow>
   encode_end (CPLBase64Encode_loop [x, y, z] 0 res data) = res @ b64_encode data"
proof (induction data arbitrary: x y z res rule: b64_encode.induct)
  case (2 a)
  then show ?case
    by (simp add: encode_end_def base64_chars_eq(1) [unfolded numeral_2_eq_2] upt_rec replicate_2)
next
  case (3 a b)
  then show ?case
    by (simp add: encode_end_def base64_chars_eq(2) [unfolded numeral_3_eq_3] upt_rec)
next
  case (4 a b c data)
  then show ?case by (simp add: base64_chars_eq)
qed (simp add: encode_end_def)

lemma CPLBase64Encode_eq:
  "\<forall>b\<in>set data. b < 256 \<Longrightarrow> CPLBase64Encode data = b64_encode data"
  using Encode_loop_result [of data 0 0 0 "[]"]
  by (simp add: CPLBase64Encode_def encode_end_def)

subsection \<open>What decoding computes\<close>

abbreviation b64_legal :: "nat \<Rightarrow> bool" where
  "b64_legal c \<equiv> CPLBase64DecodeChar ! c \<noteq> 64 \<or> c = 61"

definition b64_group :: "nat \<Rightarrow> nat \<Rightarrow> nat \<Rightarrow> nat \<Rightarrow> nat list" where
  "b64_group c1 c2 c3 c4 =
     (let b1 = CPLBase64DecodeChar ! c1; b2 = CPLBase64DecodeChar ! c2;
          b3 = CPLBase64DecodeChar ! c3; b4 = CPLBase64DecodeChar ! c4
      in [(push_bit 2 b1 OR drop_bit 4 b2) mod 256] @
         (if c3 \<noteq> 61 then [(push_bit 4 (b2 AND 0xf) OR drop_bit 2 b3) mod 256] else []) @
         (if c4 \<noteq> 61 then [(push_bit 6 (b3 AND 0x3) OR b4) mod 256] else []))"

fun b64_decode :: "nat list \<Rightarrow> nat list" where
  "b64_decode [] = []"
| "b64_decode [c1] = b64_group c1 65 65 65"
| "b64_decode [c1, c2] = b64_group c1 c2 65 65"
| "b64_decode [c1, c2, c3] = b64_group c1 c2 c3 65"
| "b64_decode (c1 # c2 # c3 # c4 # r) = b64_group c1 c2 c3 c4 @ b64_decode r"

lemma squeeze_result:
  "0 \<notin> set s \<Longrightarrow> length F + length J + length s < 2 ^ 31 \<Longrightarrow> \<exists>mem'. Base64_squeeze (F @ J @ s @ 0 # r) (length F + length J) (length F) =
      Some (mem', length F + length J + length s, length F + length (filter b64_legal s)) \<and>
    take (length F + length (filter b64_legal s)) mem' = F @ filter b64_legal s \<and>
    length mem' = length (F @ J @ s @ 0 # r)"
proof (induction s arbitrary: F J)
  case Nil
  have "arr_get (F @ J @ 0 # r) (int (length F + length J)) = Some 0"
    using arr_get_mid [of "F @ J" 0 r] by simp
  then show ?case by (subst Base64_squeeze.simps) simp
next
  case (Cons c s)
  have get: "arr_get (F @ J @ (c # s) @ 0 # r) (int (length F + length J)) = Some c"
    using arr_get_mid [of "F @ J" c "s @ 0 # r"] by simp
  have i: "c_int (int (length F) + int (length J) + 1) = Some (int (length F) + int (length J) + 1)"
    using Cons.prems(2) by (simp add: c_int_def)
  show ?case
  proof (cases "b64_legal c")
    case False
    have "Base64_squeeze (F @ J @ (c # s) @ 0 # r) (length F + length J) (length F) =
        Base64_squeeze (F @ (J @ [c]) @ s @ 0 # r) (length F + length (J @ [c])) (length F)"
      by (subst Base64_squeeze.simps, subst get) (use False Cons.prems i in simp)
    with Cons.IH [of F "J @ [c]"] Cons.prems False show ?thesis by simp
  next
    case True
    obtain J' where J': "arr_set (F @ J @ (c # s) @ 0 # r) (int (length F)) c =
        Some ((F @ [c]) @ J' @ s @ 0 # r)" "length J' = length J"
    proof (cases J)
      case Nil
      then show thesis using that [of "[]"] arr_set_mid [of F c "s @ 0 # r" c] by simp
    next
      case (Cons j J0)
      then show thesis using that [of "J0 @ [c]"] arr_set_mid [of F j "J0 @ c # s @ 0 # r" c] by simp
    qed
    have "Base64_squeeze (F @ J @ (c # s) @ 0 # r) (length F + length J) (length F) =
        Base64_squeeze ((F @ [c]) @ J' @ s @ 0 # r) (length (F @ [c]) + length J') (length (F @ [c]))"
      by (subst Base64_squeeze.simps, subst get) (use True Cons.prems J' i in simp)
    with Cons.IH [of "F @ [c]" J'] Cons.prems True J'(2) show ?thesis by simp
  qed
qed

lemma store_result:
  "p < offset_1 \<Longrightarrow> offset_1 \<le> length mem \<Longrightarrow>
   (let vals = map (\<lambda>(w, b). b mod 256) (filter fst bs) in
    Base64_store mem p offset_1 bs =
      Some (overwrite mem p (take (offset_1 - p) vals), min offset_1 (p + length vals),
            offset_1 \<le> p + length vals))"
proof (induction bs arbitrary: mem p)
  case (Cons wb bs)
  obtain w b where wb: "wb = (w, b)" by (cases wb)
  show ?case
  proof (cases w)
    case True
    have set: "arr_set mem (int p) (b mod 256) = Some (mem[p := b mod 256])"
      using Cons.prems by (simp add: mem_simps)
    show ?thesis
    proof (cases "p + 1 = offset_1")
      case True
      then show ?thesis using set wb \<open>w\<close> by (auto simp: Let_def)
    next
      case False
      then have "p + 1 < offset_1" "offset_1 - p = Suc (offset_1 - Suc p)" using Cons.prems by auto
      then show ?thesis using Cons.IH [of "p + 1" "mem[p := b mod 256]"] set wb \<open>w\<close> False Cons.prems
        by (simp add: Let_def)
    qed
  qed (use Cons wb in simp)
qed simp


lemma group_length: "1 \<le> length (b64_group c1 c2 c3 c4)" "length (b64_group c1 c2 c3 c4) \<le> 3"
  by (simp_all add: b64_group_def Let_def)

lemma decode_step:
  assumes "p < offset_1" "offset_1 \<le> length mem" "idx < offset_2"
    and "Base64_group mem idx offset_2 = Some (CPLBase64DecodeChar ! c1, CPLBase64DecodeChar ! c2, c3, c4)"
    and "offset_2 + 3 < 2 ^ 31"
  shows "Base64_decode mem p idx offset_1 offset_2 =
    (let g = b64_group c1 c2 c3 c4; mem' = overwrite mem p (take (offset_1 - p) g)
     in if offset_1 \<le> p + length g then Some (mem', offset_1)
        else Base64_decode mem' (p + length g) (idx + 4) offset_1 offset_2)"
proof -
  let ?b1 = "CPLBase64DecodeChar ! c1" and ?b2 = "CPLBase64DecodeChar ! c2"
  let ?b3 = "CPLBase64DecodeChar ! c3" and ?b4 = "CPLBase64DecodeChar ! c4"
  let ?bs = "[(True, push_bit 2 ?b1 OR drop_bit 4 ?b2), (c3 \<noteq> 61, push_bit 4 (?b2 AND 0xf) OR drop_bit 2 ?b3),
    (c4 \<noteq> 61, push_bit 6 (?b3 AND 0x3) OR ?b4)]"
  have g: "map (\<lambda>(w, b). b mod 256) (filter fst ?bs) = b64_group c1 c2 c3 c4"
    by (simp add: b64_group_def Let_def)
  have "Base64_store mem p offset_1 ?bs =
      Some (overwrite mem p (take (offset_1 - p) (b64_group c1 c2 c3 c4)),
        min offset_1 (p + length (b64_group c1 c2 c3 c4)), offset_1 \<le> p + length (b64_group c1 c2 c3 c4))"
    using store_result [OF assms(1,2), of ?bs] unfolding g Let_def .
  moreover have "c_int (int idx + 3) = Some (int idx + 3)" "c_int (int idx + 4) = Some (int idx + 4)"
    using assms(3,5) by (simp_all add: c_int_def)
  ultimately show ?thesis using assms(3,4)
    by (subst Base64_decode.simps) (simp only: if_True bind.bind_lunit prod.case Let_def, simp add: min_def)
qed

lemma group_full:
  assumes "drop idx mem = c1 # c2 # c3 # c4 # r" "idx + 4 \<le> offset_2"
  shows "Base64_group mem idx offset_2 = Some (CPLBase64DecodeChar ! c1, CPLBase64DecodeChar ! c2, c3, c4)"
proof -
  have idx: "idx + 4 \<le> length mem"
    using arg_cong [OF assms(1), of length] by simp
  have "mem ! (idx + k) = (c1 # c2 # c3 # c4 # r) ! k" for k
    using idx assms(1) nth_drop [of idx mem k] by simp
  from this [of 0] this [of 1] this [of 2] this [of 3] show ?thesis
    using assms(2) idx by (simp add: Base64_group_def arr_get_def nat_add_distrib)
qed

lemma group_part:
  assumes "drop idx mem = F @ r" "idx + length F = offset_2" "F \<noteq> []" "length F < 4"
  shows "Base64_group mem idx offset_2 = Some (CPLBase64DecodeChar ! (F ! 0),
    CPLBase64DecodeChar ! (if length F > 1 then F ! 1 else 65), if length F > 2 then F ! 2 else 65, 65)"
proof -
  have idx: "idx \<le> length mem" using assms(1,3) by (cases "idx \<le> length mem") auto
  have "mem ! (idx + k) = F ! k \<and> idx + k < length mem" if "k < length F" for k
  proof -
    have "mem ! (idx + k) = drop idx mem ! k" using idx by simp
    moreover have "length F \<le> length mem - idx" using arg_cong [OF assms(1), of length] by simp
    ultimately show ?thesis using that assms(1) by (simp add: nth_append)
  qed
  note k = this
  have d: "CPLBase64DecodeChar ! 65 = 0" by code_simp
  from assms(3,4) consider "length F = 1" | "length F = 2" | "length F = 3"
    by (cases F; cases "tl F"; cases "tl (tl F)"; cases "tl (tl (tl F))") auto
  then show ?thesis
    using assms(2) k [of 0] k [of 1] k [of 2]
    by cases (auto simp: Base64_group_def arr_get_def nat_add_distrib d)
qed


lemma drop_overwrite: "p + length xs \<le> k \<Longrightarrow> drop k (overwrite mem p xs) = drop k mem"
  by (induction mem p xs rule: overwrite.induct) (simp_all add: drop_update_cancel)

lemma take_overwrite:
  "p + length xs \<le> length mem \<Longrightarrow> take (p + length xs) (overwrite mem p xs) = take p mem @ xs"
  by (simp add: overwrite_eq)

lemma decode_last:
  assumes "take p mem = D" "length D = p" "drop idx mem = F @ r" "idx + length F = offset_2"
    "p \<le> idx" "p < offset_1" "offset_1 \<le> length mem" "F \<noteq> []" "length F < 4" "offset_2 + 3 < 2 ^ 31"
    and g: "b64_decode F = b64_group (F ! 0) (if length F > 1 then F ! 1 else 65) (if length F > 2 then F ! 2 else 65) 65"
  shows "\<exists>mem'. Base64_decode mem p idx offset_1 offset_2 =
       Some (mem', min offset_1 (p + length (b64_decode F))) \<and> length mem' = length mem \<and>
     take (min offset_1 (p + length (b64_decode F))) mem' = take offset_1 (D @ b64_decode F)"
proof -
  let ?g = "b64_decode F" and ?n = "min (offset_1 - p) (length (b64_decode F))"
  let ?mem = "overwrite mem p (take (offset_1 - p) ?g)"
  have lt: "idx < offset_2" using assms(4,8) by (cases F) auto
  have "Base64_decode ?mem q (idx + 4) offset_1 offset_2 = Some (?mem, q)" for q
    using assms(4,9) by (subst Base64_decode.simps) simp
  moreover have "Base64_decode mem p idx offset_1 offset_2 =
      (if offset_1 \<le> p + length ?g then Some (?mem, offset_1)
       else Base64_decode ?mem (p + length ?g) (idx + 4) offset_1 offset_2)"
    using decode_step [OF assms(6,7) lt group_part [OF assms(3,4,8,9)] assms(10)]
    unfolding g [symmetric] Let_def .
  ultimately have "Base64_decode mem p idx offset_1 offset_2 = Some (?mem, min offset_1 (p + length ?g))"
    by (simp only: min_def if_distrib [of "\<lambda>n. Some (?mem, n)"])
  moreover have "min offset_1 (p + length ?g) = p + length (take (offset_1 - p) ?g)" using assms(6) by auto
  moreover have "take (p + length (take (offset_1 - p) ?g)) ?mem = D @ take (offset_1 - p) ?g"
    using take_overwrite [of p "take (offset_1 - p) ?g" mem] assms(1,6,7) by simp
  ultimately show ?thesis using assms(2,6) by auto
qed

text \<open>The stores never overtake the reads: the decoded bytes stay below the position of the group.\<close>

lemma decode_result:
  "take p mem = D \<Longrightarrow> length D = p \<Longrightarrow> drop idx mem = F @ r \<Longrightarrow> idx + length F = offset_2 \<Longrightarrow>
   p \<le> idx \<Longrightarrow> p < offset_1 \<Longrightarrow> offset_1 \<le> length mem \<Longrightarrow> offset_2 + 3 < 2 ^ 31 \<Longrightarrow>
   \<exists>mem'. Base64_decode mem p idx offset_1 offset_2 =
       Some (mem', min offset_1 (p + length (b64_decode F))) \<and> length mem' = length mem \<and>
     take (min offset_1 (p + length (b64_decode F))) mem' = take offset_1 (D @ b64_decode F)"
proof (induction F arbitrary: mem p D idx rule: b64_decode.induct)
  case 1
  then show ?case by (auto simp: Base64_decode.simps min_def)
next
  case (5 c1 c2 c3 c4 F)
  let ?g = "b64_group c1 c2 c3 c4"
  let ?mem = "overwrite mem p (take (offset_1 - p) ?g)"
  have g: "Base64_group mem idx offset_2 = Some (CPLBase64DecodeChar ! c1, CPLBase64DecodeChar ! c2, c3, c4)"
    by (rule group_full) (use "5.prems" in auto)
  have step: "Base64_decode mem p idx offset_1 offset_2 =
      (if offset_1 \<le> p + length ?g then Some (?mem, offset_1)
       else Base64_decode ?mem (p + length ?g) (idx + 4) offset_1 offset_2)"
    using decode_step [OF "5.prems"(6,7) _ g "5.prems"(8)] "5.prems"(4) by (simp add: Let_def)
  show ?case
  proof (cases "offset_1 \<le> p + length ?g")
    case True
    have "p + length (take (offset_1 - p) ?g) = offset_1" using True "5.prems"(6) by simp
    then have "take offset_1 ?mem = D @ take (offset_1 - p) ?g"
      using take_overwrite [of p "take (offset_1 - p) ?g" mem] "5.prems"(1,7) by metis
    then show ?thesis using step True "5.prems"(2,6) by (auto simp: min_def)
  next
    case False
    then have mem: "?mem = overwrite mem p ?g" by simp
    have bound: "p + length ?g \<le> length mem" "length ?g \<le> 3" using False "5.prems"(7) group_length(2) by auto
    have drop4: "drop (idx + 4) mem = F @ r"
    proof -
      have "drop (idx + 4) mem = drop 4 (drop idx mem)" by (simp add: add.commute)
      then show ?thesis using "5.prems"(3) by (simp add: numeral_eq_Suc)
    qed
    have "take (p + length ?g) ?mem = D @ ?g" using take_overwrite [OF bound(1)] "5.prems"(1) mem by simp
    moreover have "drop (idx + 4) ?mem = F @ r"
      using drop_overwrite [of p ?g "idx + 4" mem] bound(2) "5.prems"(5) drop4 mem by simp
    ultimately have "\<exists>mem'. Base64_decode ?mem (p + length ?g) (idx + 4) offset_1 offset_2 =
        Some (mem', min offset_1 (p + length ?g + length (b64_decode F))) \<and> length mem' = length ?mem \<and>
      take (min offset_1 (p + length ?g + length (b64_decode F))) mem' = take offset_1 ((D @ ?g) @ b64_decode F)"
      using "5.prems" False bound(2) by (intro "5.IH") auto
    then show ?thesis using step False by (auto simp: add.assoc)
  qed
next
  case (2 c1)
  then show ?case by (intro decode_last) simp_all
next
  case (3 c1 c2)
  then show ?case by (intro decode_last) simp_all
next
  case (4 c1 c2 c3)
  then show ?case by (intro decode_last) simp_all
qed


lemma CPLBase64DecodeInPlace_result:
  assumes "0 \<notin> set s" "length s + 3 < 2 ^ 31"
  shows "\<exists>mem. CPLBase64DecodeInPlace (Some (s @ 0 # r)) =
      Some (mem, min (length s) (length (b64_decode (filter b64_legal s)))) \<and>
    length mem = length (s @ 0 # r) \<and>
    take (min (length s) (length (b64_decode (filter b64_legal s)))) mem =
      take (length s) (b64_decode (filter b64_legal s))"
proof (cases s)
  case Nil
  then show ?thesis by (simp add: CPLBase64DecodeInPlace_def arr_get_def)
next
  case (Cons c s')
  let ?F = "filter b64_legal s"
  obtain mem where m: "Base64_squeeze (s @ 0 # r) 0 0 = Some (mem, length s, length ?F)"
    "take (length ?F) mem = ?F" "length mem = length (s @ 0 # r)"
    using squeeze_result [OF assms(1), of "[]" "[]" r] assms(2) by auto
  have d: "drop 0 mem = ?F @ drop (length ?F) mem"
    by (subst append_take_drop_id [of "length ?F" mem, symmetric]) (simp only: m(2) drop_0)
  have "\<exists>mem'. Base64_decode mem 0 0 (length s) (length ?F) =
       Some (mem', min (length s) (0 + length (b64_decode ?F))) \<and> length mem' = length mem \<and>
     take (min (length s) (0 + length (b64_decode ?F))) mem' = take (length s) ([] @ b64_decode ?F)"
    by (rule decode_result [OF _ _ d]) (use Cons m assms(2) length_filter_le [of b64_legal s] in auto)
  moreover have "arr_get (s @ 0 # r) 0 = Some c" "c \<noteq> 0" using Cons assms(1) by (auto simp: arr_get_def)
  ultimately show ?thesis using m by (auto simp: CPLBase64DecodeInPlace_def)
qed

subsection \<open>Decoding undoes encoding\<close>

lemma decode_table: "map (nth CPLBase64DecodeChar) (map ccode base64Chars) = [0..<64]"
  by code_simp

lemma decode_char:
  assumes "n < 64"
  shows "CPLBase64DecodeChar ! ccode (b64_char n) = n" "ccode (b64_char n) \<noteq> 61"
proof -
  have len: "length base64Chars = 64" by (simp add: base64Chars_def)
  have "map (nth CPLBase64DecodeChar) (map ccode base64Chars) ! n = [0..<64] ! n"
    unfolding decode_table ..
  then show d: "CPLBase64DecodeChar ! ccode (b64_char n) = n"
    using assms len by (simp add: b64_char_def)
  have "CPLBase64DecodeChar ! 61 = 64" by code_simp
  with d assms show "ccode (b64_char n) \<noteq> 61" by auto
qed

lemma b64_bits:
  fixes a b c d :: nat
  assumes "a < 64" "b < 64" "c < 64" "d < 64"
  shows "(push_bit 2 a OR drop_bit 4 b) mod 256 = (a * 4 + b div 16) mod 256"
    "(push_bit 4 (b AND 0xf) OR drop_bit 2 c) mod 256 = (b mod 16 * 16 + c div 4) mod 256"
    "(push_bit 6 (c AND 0x3) OR d) mod 256 = (c mod 4 * 64 + d) mod 256"
proof -
  have "b div 16 < 2 ^ 2" "c div 4 < 2 ^ 4" "d < 2 ^ 6"
    using assms by (simp_all add: less_mult_imp_div_less)
  then show "(push_bit 2 a OR drop_bit 4 b) mod 256 = (a * 4 + b div 16) mod 256"
    "(push_bit 4 (b AND 0xf) OR drop_bit 2 c) mod 256 = (b mod 16 * 16 + c div 4) mod 256"
    "(push_bit 6 (c AND 0x3) OR d) mod 256 = (c mod 4 * 64 + d) mod 256"
    using or_push_bit [of "b div 16" 2 a] or_push_bit [of "c div 4" 4 "b mod 16"] or_push_bit [of d 6 "c mod 4"]
    by (simp_all only: drop_bit_eq_div and_mask_nat) (simp_all add: push_bit_eq_mult)
qed

lemma digit_div: "y < n \<Longrightarrow> (x * n + y) div n = (x::nat)"
  by simp

lemma digit_mod: "y < n \<Longrightarrow> (x * n + y) mod n = (y::nat)"
  by simp

lemma group_decode:
  assumes "a < 256" "b < 256" "c < 256"
  shows "b64_group (ccode (b64_char (a div 4))) (ccode (b64_char (a mod 4 * 16 + b div 16)))
      (ccode (b64_char (b mod 16 * 4 + c div 64))) (ccode (b64_char (c mod 64))) = [a, b, c]"
    "b64_group (ccode (b64_char (a div 4))) (ccode (b64_char (a mod 4 * 16 + b div 16)))
      (ccode (b64_char (b mod 16 * 4))) 61 = [a, b]"
    "b64_group (ccode (b64_char (a div 4))) (ccode (b64_char (a mod 4 * 16))) 61 61 = [a]"
proof -
  have "b div 16 < 16" "c div 64 < 4" "a div 4 < 64" using assms by (simp_all add: less_mult_imp_div_less)
  moreover have "a mod 4 \<le> 3" "b mod 16 \<le> 15" by simp_all
  ultimately have r: "a div 4 < 64" "a mod 4 * 16 + b div 16 < 64" "b mod 16 * 4 + c div 64 < 64" "c mod 64 < 64"
    "b mod 16 * 4 < 64" "a mod 4 * 16 < 64"
    by simp_all
  have "b div 16 < 16" "c div 64 < 4" using assms by (simp_all add: less_mult_imp_div_less)
  then have q: "(a mod 4 * 16 + b div 16) div 16 = a mod 4" "(a mod 4 * 16 + b div 16) mod 16 = b div 16"
    "(b mod 16 * 4 + c div 64) div 4 = b mod 16" "(b mod 16 * 4 + c div 64) mod 4 = c div 64"
    by (simp_all only: digit_div digit_mod)
  have e: "(a * 4 div 4) mod 256 = a" "(a div 4 * 4 + (a mod 4 * 16 + b div 16) div 16) mod 256 = a"
    "((a mod 4 * 16 + b div 16) mod 16 * 16 + (b mod 16 * 4 + c div 64) div 4) mod 256 = b"
    "((b mod 16 * 4 + c div 64) mod 4 * 64 + c mod 64) mod 256 = c"
    "((a mod 4 * 16 + b div 16) mod 16 * 16 + (b mod 16 * 4) div 4) mod 256 = b"
    "(a div 4 * 4 + (a mod 4 * 16) div 16) mod 256 = a"
    using assms by (simp_all only: q div_mult_mod_eq div_mult_self_is_m mod_mult_self2_is_0
      add_0_right mod_less zero_less_numeral)
  show "b64_group (ccode (b64_char (a div 4))) (ccode (b64_char (a mod 4 * 16 + b div 16)))
      (ccode (b64_char (b mod 16 * 4 + c div 64))) (ccode (b64_char (c mod 64))) = [a, b, c]"
    unfolding b64_group_def Let_def
    by (simp only: decode_char r b64_bits [OF r(1-4)] e) (simp add: decode_char r)
  show "b64_group (ccode (b64_char (a div 4))) (ccode (b64_char (a mod 4 * 16 + b div 16)))
      (ccode (b64_char (b mod 16 * 4))) 61 = [a, b]"
    unfolding b64_group_def Let_def
    by (simp only: decode_char r b64_bits(1) [OF r(1,2,5,5)] b64_bits(2) [OF r(1,2,5,5)] e) (simp add: decode_char r)
  show "b64_group (ccode (b64_char (a div 4))) (ccode (b64_char (a mod 4 * 16))) 61 61 = [a]"
    unfolding b64_group_def Let_def
    by (simp only: decode_char r b64_bits(1) [OF r(1,6,6,6)] e) simp
qed


lemma b64_decode_encode:
  "\<forall>b\<in>set data. b < 256 \<Longrightarrow> b64_decode (map ccode (b64_encode data)) = data"
  by (induction data rule: b64_encode.induct)
    (simp_all add: group_decode group_decode(2) [of _ _ 0, simplified] group_decode(3) [of _ 0 0, simplified]
      ccode_def [of "CHR ''=''"])


lemma encode_length: "length data \<le> length (b64_encode data)"
  by (induction data rule: b64_encode.induct) auto

text \<open>C19: Base64 decoding undoes encoding, in place and with any characters between the encoded
  ones that are not of Base64, such as the line ends of a mail body: the call stays inside the block,
  returns the number of bytes and leaves them at its start.  The text, of less than 2^31 - 3 characters with those
  between, is one whose offsets an \<open>int\<close> can hold.\<close>

theorem CPLBase64_roundtrip:
  assumes "\<forall>b\<in>set data. b < 256" and "0 \<notin> set s" and "length s + 3 < 2 ^ 31"
    and "filter b64_legal s = map ccode (CPLBase64Encode data)"
  shows "\<exists>mem. CPLBase64DecodeInPlace (Some (s @ 0 # r)) = Some (mem, length data) \<and>
    take (length data) mem = data \<and> length mem = length (s @ 0 # r)"
proof -
  have f: "b64_decode (filter b64_legal s) = data"
    using assms(1,4) b64_decode_encode CPLBase64Encode_eq by simp
  have "length data \<le> length (filter b64_legal s)"
    using assms(1,4) CPLBase64Encode_eq encode_length [of data] by simp
  then have "length data \<le> length s" using length_filter_le [of b64_legal s] by linarith
  then show ?thesis using CPLBase64DecodeInPlace_result [OF assms(2,3), of r] unfolding f by auto
qed

theorem CPLBase64_roundtrip_witness:
  "\<exists>mem. CPLBase64DecodeInPlace (Some (map ccode ''aG'' @ [10] @ map ccode ''k='' @ 0 # [])) = Some (mem, 2) \<and>
    take 2 mem = [104, 105]"
proof -
  have e: "CPLBase64Encode [104, 105] = ''aGk=''" by code_simp
  let ?s = "map ccode ''aG'' @ [10] @ map ccode ''k=''"
  have f: "filter b64_legal ?s = map ccode ''aGk=''" and z: "0 \<notin> set ?s" by code_simp+
  have "length ?s + 3 = 8" by simp
  then have n: "length ?s + 3 < 2 ^ 31" by (simp only:) simp
  have "\<forall>b\<in>set [104, 105]. b < (256::nat)" by simp
  from CPLBase64_roundtrip [OF this z n, of "[]"] f e show ?thesis by (auto simp: numeral_2_eq_2)
qed

text \<open>CPLBase64DecodeInPlace never leaves the string it decodes: whatever the bytes up to the
  terminator, every access is inside the block, the stores never overtake the reads, and the returned
  length is that of the decoded groups of the legal characters, cut off at the length of the string.\<close>

theorem CPLBase64DecodeInPlace_in_bounds:
  assumes "0 \<notin> set s" "length s + 3 < 2 ^ 31"
  shows "\<exists>mem. CPLBase64DecodeInPlace (Some (s @ 0 # r)) =
      Some (mem, min (length s) (length (b64_decode (filter b64_legal s)))) \<and>
    take (min (length s) (length (b64_decode (filter b64_legal s)))) mem =
      take (length s) (b64_decode (filter b64_legal s))"
  using CPLBase64DecodeInPlace_result [OF assms, of r] by blast

text \<open>The witness is a group without padding: \<open>aGk\<close> stands for two bytes, but decodes to three.\<close>

theorem CPLBase64DecodeInPlace_in_bounds_witness:
  "\<exists>mem. CPLBase64DecodeInPlace (Some (map ccode ''aGk'' @ 0 # [])) = Some (mem, 3) \<and>
    take 3 mem = [104, 105, 0]"
proof -
  have d: "b64_decode (filter b64_legal (map ccode ''aGk'')) = [104, 105, 0]"
    and l: "length (map ccode ''aGk'') = 3" "length [104, 105, 0::nat] = 3" "0 \<notin> set (map ccode ''aGk'')"
    by code_simp+
  have n: "length (map ccode ''aGk'') + 3 < 2 ^ 31" unfolding l(1) by simp
  show ?thesis
    using CPLBase64DecodeInPlace_in_bounds [OF l(3) n, of "[]"] unfolding d l(1,2) by simp
qed

end
