(* ===== verification/BlockHash.thy ===== *)
theory BlockHash
  imports Prelude
begin

section \<open>Block hashes: the interface of the three message digests\<close>

text \<open>
  MD5, SHA-1 and SHA-256 (port/cpl_md5.cpp, cpl_sha1.cpp, cpl_sha256.cpp) take a message in pieces
  of any size: a context holds the chaining value, the bytes that do not fill a block yet and the
  length so far.  This theory has what the three share: bytes of words, checked copies, the
  absorption of a byte string in blocks of 64, the standard padding, and the locale with the law of
  an update operation, from which follows that only the concatenation of the pieces matters.
\<close>

subsection \<open>Words and bytes in memory\<close>

text \<open>A 32-bit word at an address, least significant byte first.\<close>

definition load_le32 :: "byte list \<Rightarrow> u32" where
  "load_le32 bs = ucast (bs ! 0) OR push_bit 8 (ucast (bs ! 1)) OR push_bit 16 (ucast (bs ! 2)) OR
     push_bit 24 (ucast (bs ! 3))"

definition store_le32 :: "u32 \<Rightarrow> byte list" where
  "store_le32 w = [ucast w, ucast (drop_bit 8 w), ucast (drop_bit 16 w), ucast (drop_bit 24 w)]"

definition load_be32 :: "byte list \<Rightarrow> u32" where
  "load_be32 bs = push_bit 24 (ucast (bs ! 0)) OR push_bit 16 (ucast (bs ! 1)) OR
     push_bit 8 (ucast (bs ! 2)) OR ucast (bs ! 3)"

definition store_be32 :: "u32 \<Rightarrow> byte list" where
  "store_be32 w = [ucast (drop_bit 24 w), ucast (drop_bit 16 w), ucast (drop_bit 8 w), ucast w]"

definition store_be64 :: "u64 \<Rightarrow> byte list" where
  "store_be64 w = store_be32 (ucast (drop_bit 32 w)) @ store_be32 (ucast w)"

text \<open>The bytes of a 64-bit word in memory.\<close>

definition store_le64 :: "u64 \<Rightarrow> byte list" where
  "store_le64 w = map (\<lambda>i. ucast (drop_bit (8 * i) w)) [0..<8]"

lemma store_length [simp]: "length (store_le32 w) = 4" "length (store_be32 w) = 4" "length (store_be64 v) = 8"
  by (simp_all add: store_le32_def store_be32_def store_be64_def)

lemma store_le64_split: "store_le64 x = store_le32 (ucast x) @ store_le32 (ucast (drop_bit 32 x))"
proof -
  have "ucast (drop_bit k x) = (ucast (drop_bit k (ucast x :: u32)) :: byte)"
    "ucast (drop_bit (k + 32) x) = (ucast (drop_bit k (ucast (drop_bit 32 x) :: u32)) :: byte)"
    if "k \<le> 24" for k
    using that by (auto intro!: bit_word_eqI simp: bit_simps ac_simps)
  from this(1) [of 8] this(1) [of 16] this(1) [of 24] this(2) [of 0] this(2) [of 8] this(2) [of 16]
    this(2) [of 24] this(1) [of 0]
  show ?thesis by (simp add: store_le64_def store_le32_def upt_rec)
qed

lemma bit_high: "LENGTH('a) \<le> n \<Longrightarrow> \<not> bit (x::'a::len word) n"
  using bit_imp_le_length [of x n] by auto

text \<open>Bit positions of a word, for proofs by cases.\<close>

lemma less_32: "n < 32 \<Longrightarrow> n \<in> {0, 1, 2, 3, 4, 5, 6, 7, 8, 9, 10, 11, 12, 13, 14, 15, 16, 17, 18, 19, 20, 21, 22, 23, 24, 25, 26, 27, 28, 29, 30, 31::nat}"
  by (simp, presburger)

lemma less_8: "n < 8 \<Longrightarrow> n \<in> {0, 1, 2, 3, 4, 5, 6, 7::nat}"
  by (simp, presburger)

lemma four_bytes:
  assumes "length bs = 4"
  obtains a b c d where "bs = [a, b, c, d]"
  using assms by (auto simp: numeral_eq_Suc length_Suc_conv)

lemma bytes_of_load [simp]: "store_le32 (load_le32 [a, b, c, d]) = [a, b, c, d]"
proof -
  have "ucast (drop_bit (8 * k) (load_le32 [a, b, c, d])) = [a, b, c, d] ! k" if k: "k < 4" for k
  proof (rule bit_word_eqI)
    fix n assume "n < LENGTH(8)"
    then have n: "n \<in> {0, 1, 2, 3, 4, 5, 6, 7::nat}" by (intro less_8) simp
    have "k \<in> {0, 1, 2, 3::nat}" using k by (simp, presburger)
    then show "bit (ucast (drop_bit (8 * k) (load_le32 [a, b, c, d])) :: byte) n = bit ([a, b, c, d] ! k) n"
      using n unfolding load_le32_def insert_iff empty_iff
      by (elim disjE FalseE; simp add: bit_simps bit_high)
  qed
  from this [of 0] this [of 1] this [of 2] this [of 3] show ?thesis by (simp add: store_le32_def)
qed

lemma load_be32_rev: "load_be32 [a, b, c, d] = load_le32 [d, c, b, a]"
  by (simp add: load_be32_def load_le32_def or.commute or.left_commute)

lemma store_be32_rev: "store_be32 w = rev (store_le32 w)"
  by (simp add: store_be32_def store_le32_def)

text \<open>\<open>memcpy (&dst[off], src, n)\<close> and \<open>memset (&dst[off], c, n)\<close>, \<open>None\<close> outside the blocks.\<close>

definition c_memcpy :: "'a list \<Rightarrow> nat \<Rightarrow> 'a list \<Rightarrow> nat \<Rightarrow> 'a list option" where
  "c_memcpy dst off src n =
     (if off + n \<le> length dst \<and> n \<le> length src
      then Some (take off dst @ take n src @ drop (off + n) dst) else None)"

definition c_memset :: "'a list \<Rightarrow> nat \<Rightarrow> 'a \<Rightarrow> nat \<Rightarrow> 'a list option" where
  "c_memset dst off c n = c_memcpy dst off (replicate n c) n"

lemma c_memcpy_length: "c_memcpy dst off src n = Some dst' \<Longrightarrow> length dst' = length dst"
  by (auto simp: c_memcpy_def split: if_splits)

subsection \<open>Absorbing a byte string\<close>

text \<open>All complete blocks of 64 bytes are compressed into the chaining value; the rest is pending.\<close>

function absorb :: "('h \<Rightarrow> byte list \<Rightarrow> 'h) \<Rightarrow> 'h \<Rightarrow> byte list \<Rightarrow> 'h \<times> byte list" where
  "absorb f h xs = (if 64 \<le> length xs then absorb f (f h (take 64 xs)) (drop 64 xs) else (h, xs))"
  by pat_completeness auto
termination by (relation "measure (\<lambda>(f, h, xs). length xs)") auto

declare absorb.simps [simp del]

lemma absorb_short: "length xs < 64 \<Longrightarrow> absorb f h xs = (h, xs)"
  by (simp add: absorb.simps)

lemma absorb_block: "64 \<le> length xs \<Longrightarrow> absorb f h xs = absorb f (f h (take 64 xs)) (drop 64 xs)"
  by (subst absorb.simps) simp

lemma absorb_append: "absorb f h (xs @ ys) = (case absorb f h xs of (h', r) \<Rightarrow> absorb f h' (r @ ys))"
proof (induction f h xs rule: absorb.induct)
  case (1 f h xs)
  show ?case
  proof (cases "64 \<le> length xs")
    case True
    have "absorb f h (xs @ ys) = absorb f (f h (take 64 xs)) (drop 64 xs @ ys)"
      using True by (subst absorb_block) simp_all
    also have "\<dots> = (case absorb f (f h (take 64 xs)) (drop 64 xs) of (h', r) \<Rightarrow> absorb f h' (r @ ys))"
      by (rule 1 [OF True])
    finally show ?thesis using True by (simp add: absorb_block [of xs])
  qed (simp add: absorb_short)
qed

lemma absorb_rest: "length (snd (absorb f h xs)) = length xs mod 64"
proof (induction f h xs rule: absorb.induct)
  case (1 f h xs)
  then show ?case by (cases "64 \<le> length xs") (simp_all add: absorb_block [of xs] absorb_short le_mod_geq)
qed

lemma absorb_one:
  assumes "length a = 64"
  shows "absorb f h a = (f h a, [])"
proof -
  have "absorb f h a = absorb f (f h (take 64 a)) (drop 64 a)" using assms by (intro absorb_block) simp
  also have "\<dots> = absorb f (f h a) []" using assms by simp
  finally show ?thesis by (simp add: absorb_short)
qed

lemma absorb_two: "length a = 64 \<Longrightarrow> length b = 64 \<Longrightarrow> absorb f h (a @ b) = (f (f h a) b, [])"
  using absorb_append [of f h a b] by (simp add: absorb_one)

subsection \<open>The standard hash\<close>

text \<open>The padding of a message of \<open>n\<close> bytes: a one bit, zeros, and the length in bits, whose eight
  bytes are given by \<open>len\<close>.\<close>

definition md_padding :: "(u64 \<Rightarrow> byte list) \<Rightarrow> nat \<Rightarrow> byte list" where
  "md_padding len n = 0x80 # replicate ((119 - n mod 64) mod 64) 0 @ len (of_nat (8 * n))"

definition md_hash :: "('h \<Rightarrow> byte list \<Rightarrow> 'h) \<Rightarrow> 'h \<Rightarrow> (u64 \<Rightarrow> byte list) \<Rightarrow> byte list \<Rightarrow> 'h" where
  "md_hash f h0 len msg = fst (absorb f h0 (msg @ md_padding len (length msg)))"

text \<open>The keyed hash of a message (RFC 2104), over a hash function to bytes with blocks of 64.\<close>

definition hmac :: "(byte list \<Rightarrow> byte list) \<Rightarrow> byte list \<Rightarrow> byte list \<Rightarrow> byte list" where
  "hmac H key msg =
     (let k = (if length key > 64 then H key else key);
          k = k @ replicate (64 - length k) 0
      in H (map (\<lambda>b. b XOR 0x5c) k @ H (map (\<lambda>b. b XOR 0x36) k @ msg)))"

subsection \<open>The interface\<close>

text \<open>A sequence of updates.\<close>

fun update_all :: "('s \<Rightarrow> byte list \<Rightarrow> 's option) \<Rightarrow> 's \<Rightarrow> byte list list \<Rightarrow> 's option" where
  "update_all update s [] = Some s"
| "update_all update s (d # ds) =
     (case update s d of None \<Rightarrow> None | Some s' \<Rightarrow> update_all update s' ds)"

text \<open>A context \<open>s\<close> that has absorbed messages: its chaining value, its pending bytes, and the length
  in bits modulo 2 to the power 64.\<close>

locale block_hash =
  fixes update :: "'s \<Rightarrow> byte list \<Rightarrow> 's option"
    and valid :: "'s \<Rightarrow> bool"
    and chain :: "'s \<Rightarrow> 'h"
    and pending :: "'s \<Rightarrow> byte list"
    and bit_count :: "'s \<Rightarrow> u64"
    and compress :: "'h \<Rightarrow> byte list \<Rightarrow> 'h"
  assumes update_absorbs: "valid s \<Longrightarrow> \<exists>s'. update s d = Some s' \<and> valid s' \<and>
      (chain s', pending s') = absorb compress (chain s) (pending s @ d) \<and>
      bit_count s' = bit_count s + of_nat (8 * length d)"
    and pending_short: "valid s \<Longrightarrow> length (pending s) < 64"
begin

text \<open>Only the concatenation of the pieces matters.\<close>

lemma update_all_absorbs:
  "valid s \<Longrightarrow> \<exists>s'. update_all update s ds = Some s' \<and> valid s' \<and>
     (chain s', pending s') = absorb compress (chain s) (pending s @ concat ds) \<and>
     bit_count s' = bit_count s + of_nat (8 * length (concat ds))"
proof (induction ds arbitrary: s)
  case Nil
  then show ?case using pending_short by (simp add: absorb_short)
next
  case (Cons d ds)
  obtain t where t: "update s d = Some t" "valid t"
    "(chain t, pending t) = absorb compress (chain s) (pending s @ d)"
    "bit_count t = bit_count s + of_nat (8 * length d)"
    using update_absorbs [OF Cons.prems] by blast
  obtain s' where s': "update_all update t ds = Some s'" "valid s'"
    "(chain s', pending s') = absorb compress (chain t) (pending t @ concat ds)"
    "bit_count s' = bit_count t + of_nat (8 * length (concat ds))"
    using Cons.IH [OF t(2)] by blast
  have "absorb compress (chain s) (pending s @ concat (d # ds)) = (chain s', pending s')"
    using absorb_append [of compress "chain s" "pending s @ d" "concat ds"] s'(3)
    unfolding t(3) [symmetric] by simp
  with t(1,4) s' show ?case by (simp add: algebra_simps)
qed

lemma update_all_from_start:
  assumes "valid s0" "pending s0 = []" "bit_count s0 = 0"
  shows "\<exists>s'. update_all update s0 ds = Some s' \<and> valid s' \<and>
    (chain s', pending s') = absorb compress (chain s0) (concat ds) \<and>
    bit_count s' = of_nat (8 * length (concat ds)) \<and> length (pending s') = length (concat ds) mod 64"
proof -
  obtain s' where s': "update_all update s0 ds = Some s'" "valid s'"
    "(chain s', pending s') = absorb compress (chain s0) (concat ds)"
    "bit_count s' = of_nat (8 * length (concat ds))"
    using update_all_absorbs [OF assms(1), of ds] assms(2,3) by auto
  moreover have "length (pending s') = length (concat ds) mod 64"
    using absorb_rest [of compress "chain s0" "concat ds"] unfolding s'(3) [symmetric] by simp
  ultimately show ?thesis by blast
qed

end

text \<open>Absorbing the padding ends with nothing pending; the last blocks are those of the pending bytes
  and the padding.\<close>

lemma md_hash_pending:
  assumes "(h, r) = absorb f h0 msg"
  shows "md_hash f h0 len msg = fst (absorb f h (r @ md_padding len (length msg)))"
  using absorb_append [of f h0 msg] by (simp add: md_hash_def flip: assms)

lemma md_padding_blocks:
  assumes "length r = n mod 64" "\<And>w. length (len w) = 8"
  shows "length (r @ md_padding len n) = (if n mod 64 < 56 then 64 else 128)"
proof -
  define m where "m = n mod 64"
  have m: "m < 64" by (simp add: m_def)
  have "(119 - m) mod 64 = (if m < 56 then 55 - m else 119 - m)"
  proof (cases "m < 56")
    case True
    then have "119 - m = (55 - m) + 64" by simp
    then have "(119 - m) mod 64 = (55 - m) mod 64" by (metis mod_add_self2)
    with True show ?thesis by simp
  qed (use m in simp)
  then have "length (md_padding len n) = (if m < 56 then 64 - m else 128 - m)"
    using m assms(2) by (simp add: md_padding_def flip: m_def)
  with assms(1) m show ?thesis by (simp flip: m_def)
qed

text \<open>A digest over a context: from any context whose memory is sound, initialising, updating with
  pieces and finishing gives the hash \<open>spec\<close> of their concatenation.  The keyed hashes are clients
  of this contract.\<close>

locale stream_digest =
  fixes init :: "'s \<Rightarrow> 's"
    and update :: "'s \<Rightarrow> byte list \<Rightarrow> 's option"
    and final :: "'s \<Rightarrow> ('s \<times> byte list) option"
    and sound :: "'s \<Rightarrow> bool"
    and spec :: "byte list \<Rightarrow> byte list"
  assumes stream: "sound s \<Longrightarrow> \<exists>s' s''. update_all update (init s) ds = Some s' \<and>
      final s' = Some (s'', spec (concat ds)) \<and> sound s''"
begin

lemma one_shot:
  assumes "sound s"
  shows "do { let sc = init s; sc \<leftarrow> update sc msg; (sc, digest) \<leftarrow> final sc; Some digest } = Some (spec msg)"
  using stream [OF assms, of "[msg]"] by (auto split: option.splits)

lemma xor_pads: "(x XOR y) XOR (x XOR b) = (b XOR y :: byte)"
  by (rule bit_word_eqI) (auto simp: bit_simps)

text \<open>The two passes of a keyed hash; the second turns the pad of the first into its own.\<close>

lemma two_passes:
  assumes "sound s"
  shows "do {
      let abyPad = map (\<lambda>b. 0x36 XOR b) pad;
      let sc = init s;
      sc \<leftarrow> update sc abyPad;
      sc \<leftarrow> update sc msg;
      (sc, abyDigest) \<leftarrow> final sc;
      let abyPad = map (\<lambda>b. (0x36 XOR 0x5C) XOR b) abyPad;
      let sc = init sc;
      sc \<leftarrow> update sc abyPad;
      sc \<leftarrow> update sc abyDigest;
      (sc, abyDigest) \<leftarrow> final sc;
      Some abyDigest
    } = Some (spec (map (\<lambda>b. b XOR 0x5c) pad @ spec (map (\<lambda>b. b XOR 0x36) pad @ msg)))"
proof -
  let ?i = "map (\<lambda>b. 0x36 XOR b) pad" and ?o = "map (\<lambda>b. (0x36 XOR 0x5C) XOR b) (map (\<lambda>b. 0x36 XOR b) pad)"
  obtain s1 s2 s3 where s: "update (init s) ?i = Some s1" "update s1 msg = Some s2"
    "final s2 = Some (s3, spec (?i @ msg))" "sound s3"
    using stream [OF assms, of "[?i, msg]"] by (auto split: option.splits)
  obtain t1 t2 t3 where t: "update (init s3) ?o = Some t1" "update t1 (spec (?i @ msg)) = Some t2"
    "final t2 = Some (t3, spec (?o @ spec (?i @ msg)))"
    using stream [OF s(4), of "[?o, spec (?i @ msg)]"] by (auto split: option.splits)
  have o: "?o = map (\<lambda>b. b XOR 0x5c) pad" by (simp only: map_map comp_def xor_pads)
  have i: "?i = map (\<lambda>b. b XOR 0x36) pad" by (simp only: xor.commute)
  show ?thesis unfolding o [symmetric] i [symmetric] using s t by (simp del: map_map add: Let_def)
qed

end

text \<open>The key block of a keyed hash.\<close>

lemma hmac_key_block:
  assumes "length (H key) \<le> 64"
  shows "(if length key > 64 then do { d \<leftarrow> Some (H key); c_memcpy (replicate 64 0) 0 d (length d) }
          else c_memcpy (replicate 64 0) 0 key (length key)) =
    Some (let k = (if length key > 64 then H key else key) in k @ replicate (64 - length k) 0)"
  using assms by (simp add: c_memcpy_def Let_def)

end
