(* ===== verification/Sha256.thy ===== *)
theory Sha256
  imports BlockHash
begin

section \<open>SHA-256 and its keyed hash (port/cpl_sha256.cpp)\<close>

text \<open>
  The context holds the eight words of the chaining value, a block of 64 bytes of which the first
  \<open>bufferLength\<close> are pending, and the length in bits.  The machine is little endian, so words are
  swapped when they are read and written.  The stack cleaning of the code (\<open>burnStack\<close>) has no
  effect on the result and is left out.  \<open>bufferLength\<close> never exceeds 64 and is a number here.
\<close>

subsection \<open>The compression function\<close>

definition ROTL :: "u32 \<Rightarrow> nat \<Rightarrow> u32" where
  "ROTL x n = push_bit n x OR drop_bit (32 - n) x"

definition ROTR :: "u32 \<Rightarrow> nat \<Rightarrow> u32" where
  "ROTR x n = drop_bit n x OR push_bit (32 - n) x"

definition Ch :: "u32 \<Rightarrow> u32 \<Rightarrow> u32 \<Rightarrow> u32" where
  "Ch x y z = z XOR (x AND (y XOR z))"

definition Maj :: "u32 \<Rightarrow> u32 \<Rightarrow> u32 \<Rightarrow> u32" where
  "Maj x y z = (x AND (y OR z)) OR (y AND z)"

definition SIGMA0 :: "u32 \<Rightarrow> u32" where
  "SIGMA0 x = ROTR x 2 XOR ROTR x 13 XOR ROTR x 22"

definition SIGMA1 :: "u32 \<Rightarrow> u32" where
  "SIGMA1 x = ROTR x 6 XOR ROTR x 11 XOR ROTR x 25"

definition sigma0 :: "u32 \<Rightarrow> u32" where
  "sigma0 x = ROTR x 7 XOR ROTR x 18 XOR drop_bit 3 x"

definition sigma1 :: "u32 \<Rightarrow> u32" where
  "sigma1 x = ROTR x 17 XOR ROTR x 19 XOR drop_bit 10 x"

definition K :: "u32 list" where
  "K =
    [0x428a2f98, 0x71374491, 0xb5c0fbcf, 0xe9b5dba5, 0x3956c25b,
     0x59f111f1, 0x923f82a4, 0xab1c5ed5, 0xd807aa98, 0x12835b01,
     0x243185be, 0x550c7dc3, 0x72be5d74, 0x80deb1fe, 0x9bdc06a7,
     0xc19bf174, 0xe49b69c1, 0xefbe4786, 0x0fc19dc6, 0x240ca1cc,
     0x2de92c6f, 0x4a7484aa, 0x5cb0a9dc, 0x76f988da, 0x983e5152,
     0xa831c66d, 0xb00327c8, 0xbf597fc7, 0xc6e00bf3, 0xd5a79147,
     0x06ca6351, 0x14292967, 0x27b70a85, 0x2e1b2138, 0x4d2c6dfc,
     0x53380d13, 0x650a7354, 0x766a0abb, 0x81c2c92e, 0x92722c85,
     0xa2bfe8a1, 0xa81a664b, 0xc24b8b70, 0xc76c51a3, 0xd192e819,
     0xd6990624, 0xf40e3585, 0x106aa070, 0x19a4c116, 0x1e376c08,
     0x2748774c, 0x34b0bcb5, 0x391c0cb3, 0x4ed8aa4a, 0x5b9cca4f,
     0x682e6ff3, 0x748f82ee, 0x78a5636f, 0x84c87814, 0x8cc70208,
     0x90befffa, 0xa4506ceb, 0xbef9a3f7, 0xc67178f2]"

definition BYTESWAP :: "u32 \<Rightarrow> u32" where
  "BYTESWAP x = (ROTR x 8 AND 0xff00ff00) OR (ROTL x 8 AND 0x00ff00ff)"

definition byteswap64 :: "u64 \<Rightarrow> u64" where
  "byteswap64 x =
     (let a = ucast (drop_bit 32 x) :: u32; b = ucast x :: u32
      in push_bit 32 (ucast (BYTESWAP b)) OR ucast (BYTESWAP a))"

definition padding :: "byte list" where
  "padding = 0x80 # replicate 63 0"

text \<open>\<open>DO_ROUND\<close> on the eight working variables, with the next constant and schedule word.\<close>

type_synonym sha_vars = "u32 \<times> u32 \<times> u32 \<times> u32 \<times> u32 \<times> u32 \<times> u32 \<times> u32"

fun DO_ROUND :: "u32 \<Rightarrow> u32 \<Rightarrow> sha_vars \<Rightarrow> sha_vars" where
  "DO_ROUND k w (a, b, c, d, e, f, g, h) =
     (let t1 = h + SIGMA1 e + Ch e f g + k + w;
          t2 = SIGMA0 a + Maj a b c
      in (t1 + t2, a, b, c, d + t1, e, f, g))"

text \<open>The message schedule: the sixteen words of the block, then 48 words, each from the four that
  the pointers \<open>W2\<close>, \<open>W7\<close>, \<open>W15\<close> and \<open>W16\<close> name.\<close>

fun sha_schedule :: "nat \<Rightarrow> u32 list \<Rightarrow> u32 list" where
  "sha_schedule 0 W = W"
| "sha_schedule (Suc n) W =
     sha_schedule n (W @ [sigma1 (W ! (length W - 2)) + W ! (length W - 7) +
       sigma0 (W ! (length W - 15)) + W ! (length W - 16)])"

definition block_words :: "byte list \<Rightarrow> u32 list" where
  "block_words cbuf = map (\<lambda>i. BYTESWAP (load_le32 (take 4 (drop (4 * i) cbuf)))) [0..<16]"

fun sha_vars :: "u32 list \<Rightarrow> sha_vars" where
  "sha_vars hash = (hash ! 0, hash ! 1, hash ! 2, hash ! 3, hash ! 4, hash ! 5, hash ! 6, hash ! 7)"

fun sha_add :: "u32 list \<Rightarrow> sha_vars \<Rightarrow> u32 list" where
  "sha_add hash (a, b, c, d, e, f, g, h) =
     [hash ! 0 + a, hash ! 1 + b, hash ! 2 + c, hash ! 3 + d,
      hash ! 4 + e, hash ! 5 + f, hash ! 6 + g, hash ! 7 + h]"

definition CPL_SHA256Guts :: "u32 list \<Rightarrow> byte list \<Rightarrow> u32 list" where
  "CPL_SHA256Guts hash cbuf =
     (let W = sha_schedule 48 (block_words cbuf)
      in sha_add hash (fold (\<lambda>i. DO_ROUND (K ! i) (W ! i)) [0..<64] (sha_vars hash)))"

subsection \<open>The context\<close>

record CPL_SHA256Context =
  totalLength :: u64
  hash :: "u32 list"
  bufferLength :: nat
  buffer :: "byte list"

definition sha256_start :: "u32 list" where
  "sha256_start =
     [0x6a09e667, 0xbb67ae85, 0x3c6ef372, 0xa54ff53a, 0x510e527f, 0x9b05688c, 0x1f83d9ab, 0x5be0cd19]"

text \<open>The buffer of a context keeps its old contents.\<close>

definition CPL_SHA256Init :: "CPL_SHA256Context \<Rightarrow> CPL_SHA256Context" where
  "CPL_SHA256Init sc = sc\<lparr>totalLength := 0, hash := sha256_start, bufferLength := 0\<rparr>"

text \<open>The loop over complete blocks of the data.\<close>

function SHA256Update_blocks :: "CPL_SHA256Context \<Rightarrow> byte list \<Rightarrow> CPL_SHA256Context \<times> byte list" where
  "SHA256Update_blocks sc data =
     (if length data > 63
      then SHA256Update_blocks
             (sc\<lparr>totalLength := totalLength sc + 512, hash := CPL_SHA256Guts (hash sc) (take 64 data)\<rparr>)
             (drop 64 data)
      else (sc, data))"
  by pat_completeness auto
termination by (relation "measure (\<lambda>(s, d). length d)") auto

declare SHA256Update_blocks.simps [simp del]

definition CPL_SHA256Update :: "CPL_SHA256Context \<Rightarrow> byte list \<Rightarrow> CPL_SHA256Context option" where
  "CPL_SHA256Update sc data = do {
     (sc, data) \<leftarrow> (if bufferLength sc \<noteq> 0 then do {
         let bufferBytesLeft = 64 - bufferLength sc;
         let bytesToCopy = min bufferBytesLeft (length data);
         buf \<leftarrow> c_memcpy (buffer sc) (bufferLength sc) data bytesToCopy;
         let sc = sc\<lparr>buffer := buf, totalLength := totalLength sc + of_nat (bytesToCopy * 8),
                     bufferLength := bufferLength sc + bytesToCopy\<rparr>;
         let sc = (if bufferLength sc = 64
                   then sc\<lparr>hash := CPL_SHA256Guts (hash sc) (buffer sc), bufferLength := 0\<rparr> else sc);
         Some (sc, drop bytesToCopy data)
       } else Some (sc, data));
     let (sc, data) = SHA256Update_blocks sc data;
     if data \<noteq> [] then do {
       buf \<leftarrow> c_memcpy (buffer sc) (bufferLength sc) data (length data);
       Some (sc\<lparr>buffer := buf, totalLength := totalLength sc + of_nat (length data * 8),
                bufferLength := bufferLength sc + length data\<rparr>)
     } else Some sc
   }"

definition CPL_SHA256Final :: "CPL_SHA256Context \<Rightarrow> (CPL_SHA256Context \<times> byte list) option" where
  "CPL_SHA256Final sc = do {
     let bytesToPad = 120 - bufferLength sc;
     let bytesToPad = (if bytesToPad > 64 then bytesToPad - 64 else bytesToPad);
     let lengthPad = byteswap64 (totalLength sc);
     sc \<leftarrow> CPL_SHA256Update sc (take bytesToPad padding);
     sc \<leftarrow> CPL_SHA256Update sc (store_le64 lengthPad);
     Some (sc, concat (map (\<lambda>i. store_le32 (BYTESWAP (hash sc ! i))) [0..<8]))
   }"

text \<open>A context on the stack: what its buffer holds is not defined; here it is zeros.\<close>

definition sha256_fresh :: CPL_SHA256Context where
  "sha256_fresh = \<lparr>totalLength = 0, hash = replicate 8 0, bufferLength = 0, buffer = replicate 64 0\<rparr>"

definition CPL_SHA256 :: "byte list \<Rightarrow> byte list option" where
  "CPL_SHA256 data = do {
     let sc = CPL_SHA256Init sha256_fresh;
     sc \<leftarrow> CPL_SHA256Update sc data;
     (sc, digest) \<leftarrow> CPL_SHA256Final sc;
     Some digest
   }"

definition CPL_HMAC_SHA256 :: "byte list \<Rightarrow> byte list \<Rightarrow> byte list option" where
  "CPL_HMAC_SHA256 pKey pabyMessage = do {
     abyPad \<leftarrow> (if length pKey > 64 then do {
         d \<leftarrow> CPL_SHA256 pKey;
         c_memcpy (replicate 64 0) 0 d (length d)
       } else c_memcpy (replicate 64 0) 0 pKey (length pKey));
     let abyPad = map (\<lambda>b. 0x36 XOR b) abyPad;
     let sc = CPL_SHA256Init sha256_fresh;
     sc \<leftarrow> CPL_SHA256Update sc abyPad;
     sc \<leftarrow> CPL_SHA256Update sc pabyMessage;
     (sc, abyDigest) \<leftarrow> CPL_SHA256Final sc;
     let abyPad = map (\<lambda>b. (0x36 XOR 0x5C) XOR b) abyPad;
     let sc = CPL_SHA256Init sc;
     sc \<leftarrow> CPL_SHA256Update sc abyPad;
     sc \<leftarrow> CPL_SHA256Update sc abyDigest;
     (sc, abyDigest) \<leftarrow> CPL_SHA256Final sc;
     Some abyDigest
   }"

subsection \<open>Byte order\<close>

lemma BYTESWAP_eq: "BYTESWAP x = load_be32 (store_le32 x)"
proof (rule bit_word_eqI)
  fix n assume "n < LENGTH(32)"
  then have n: "n < 32" by simp
  show "bit (BYTESWAP x) n = bit (load_be32 (store_le32 x)) n"
    using less_32 [OF n]
    unfolding BYTESWAP_def load_be32_def store_le32_def ROTL_def ROTR_def insert_iff empty_iff
    by (elim disjE FalseE; simp add: bit_simps bit_high)
qed

lemma BYTESWAP_load: "length bs = 4 \<Longrightarrow> BYTESWAP (load_le32 bs) = load_be32 bs"
  by (erule four_bytes) (simp add: BYTESWAP_eq)

lemma store_BYTESWAP: "store_le32 (BYTESWAP w) = store_be32 w"
proof -
  obtain a b c d where "store_le32 w = [a, b, c, d]" using four_bytes [OF store_length(1)] by blast
  then show ?thesis by (simp add: BYTESWAP_eq load_be32_rev store_be32_rev)
qed

lemma store_byteswap64: "store_le64 (byteswap64 w) = store_be64 w"
proof -
  define a where "a = BYTESWAP (ucast (drop_bit 32 w))"
  define b where "b = BYTESWAP (ucast w)"
  have w: "byteswap64 w = push_bit 32 (ucast b) OR ucast a"
    by (simp add: byteswap64_def a_def b_def Let_def)
  have "ucast (byteswap64 w) = a" "ucast (drop_bit 32 (byteswap64 w)) = b"
    unfolding w by (auto intro!: bit_word_eqI simp: bit_simps bit_high)
  then show ?thesis by (simp add: store_le64_split store_be64_def store_BYTESWAP a_def b_def)
qed

subsection \<open>The compression function is the one of the standard\<close>

text \<open>FIPS 180-4, with its functions as they are written there.\<close>

definition fips_Ch :: "u32 \<Rightarrow> u32 \<Rightarrow> u32 \<Rightarrow> u32" where
  "fips_Ch x y z = (x AND y) XOR (NOT x AND z)"

definition fips_Maj :: "u32 \<Rightarrow> u32 \<Rightarrow> u32 \<Rightarrow> u32" where
  "fips_Maj x y z = (x AND y) XOR (x AND z) XOR (y AND z)"

fun fips_W :: "byte list \<Rightarrow> nat \<Rightarrow> u32" where
  "fips_W M t =
     (if t < 16 then load_be32 (take 4 (drop (4 * t) M))
      else (word_rotr 17 (fips_W M (t - 2)) XOR word_rotr 19 (fips_W M (t - 2)) XOR drop_bit 10 (fips_W M (t - 2)))
         + fips_W M (t - 7)
         + (word_rotr 7 (fips_W M (t - 15)) XOR word_rotr 18 (fips_W M (t - 15)) XOR drop_bit 3 (fips_W M (t - 15)))
         + fips_W M (t - 16))"

declare fips_W.simps [simp del]

fun fips_round :: "byte list \<Rightarrow> nat \<Rightarrow> sha_vars \<Rightarrow> sha_vars" where
  "fips_round M t (a, b, c, d, e, f, g, h) =
     (let T1 = h + (word_rotr 6 e XOR word_rotr 11 e XOR word_rotr 25 e) + fips_Ch e f g + K ! t + fips_W M t;
          T2 = (word_rotr 2 a XOR word_rotr 13 a XOR word_rotr 22 a) + fips_Maj a b c
      in (T1 + T2, a, b, c, d + T1, e, f, g))"

definition fips_compress :: "u32 list \<Rightarrow> byte list \<Rightarrow> u32 list" where
  "fips_compress H M = sha_add H (fold (fips_round M) [0..<64] (sha_vars H))"

lemma Ch_fips: "Ch x y z = fips_Ch x y z"
  by (rule bit_word_eqI) (auto simp: Ch_def fips_Ch_def bit_simps)

lemma Maj_fips: "Maj x y z = fips_Maj x y z"
  by (rule bit_word_eqI) (auto simp: Maj_def fips_Maj_def bit_simps)

lemma ROTR_rotr:
  assumes "0 < n" "n < 32"
  shows "ROTR x n = word_rotr n x"
proof (rule bit_word_eqI)
  fix i assume "i < LENGTH(32)"
  then have i: "i < 32" by simp
  show "bit (ROTR x n) i = bit (word_rotr n x) i"
  proof (cases "i + n < 32")
    case True
    then show ?thesis using assms i by (auto simp: ROTR_def bit_simps add.commute [of i] dest: bit_imp_le_length)
  next
    case False
    then have "(i + n) mod 32 = i - (32 - n)" using i assms by (simp add: mod_if)
    then show ?thesis using assms i False by (auto simp: ROTR_def bit_simps ac_simps dest: bit_imp_le_length)
  qed
qed

lemma block_words_nth:
  assumes "length M = 64" "i < 16"
  shows "block_words M ! i = load_be32 (take 4 (drop (4 * i) M))"
  using assms by (simp add: block_words_def BYTESWAP_load)

lemma schedule_fips:
  "(\<forall>i<length W. W ! i = fips_W M i) \<Longrightarrow> 16 \<le> length W \<Longrightarrow> length M = 64 \<Longrightarrow>
   length (sha_schedule n W) = length W + n \<and> (\<forall>i<length W + n. sha_schedule n W ! i = fips_W M i)"
proof (induction n arbitrary: W)
  case (Suc n)
  let ?w = "sigma1 (W ! (length W - 2)) + W ! (length W - 7) + sigma0 (W ! (length W - 15)) + W ! (length W - 16)"
  have "?w = fips_W M (length W)"
    using Suc.prems by (subst fips_W.simps) (simp add: sigma0_def sigma1_def ROTR_rotr)
  then have "\<forall>i<length (W @ [?w]). (W @ [?w]) ! i = fips_W M i"
    using Suc.prems by (auto simp: nth_append less_Suc_eq)
  from Suc.IH [OF this] Suc.prems show ?case by simp
qed simp

lemma Guts_fips_compress:
  assumes "length M = 64"
  shows "CPL_SHA256Guts H M = fips_compress H M"
proof -
  have len: "length (block_words M) = 16" by (simp add: block_words_def)
  have "\<forall>i<length (block_words M). block_words M ! i = fips_W M i"
    using block_words_nth [OF assms] len by (simp add: fips_W.simps)
  from schedule_fips [OF this _ assms, of 48] len
  have W: "sha_schedule 48 (block_words M) ! i = fips_W M i" if "i < 64" for i using that by simp
  have "DO_ROUND (K ! i) (sha_schedule 48 (block_words M) ! i) v = fips_round M i v" if "i < 64" for i v
  proof -
    obtain a b c d e f g h where "v = (a, b, c, d, e, f, g, h)" by (metis surj_pair)
    then show ?thesis
      using W [OF that] by (simp add: SIGMA0_def SIGMA1_def ROTR_rotr Ch_fips Maj_fips Let_def)
  qed
  then have "fold (\<lambda>i. DO_ROUND (K ! i) (sha_schedule 48 (block_words M) ! i)) [0..<64] v =
      fold (fips_round M) [0..<64] v" for v
    by (intro fold_cong refl ext) simp
  then show ?thesis by (simp only: CPL_SHA256Guts_def fips_compress_def Let_def)
qed

subsection \<open>Updating absorbs the data\<close>

definition sha256_valid :: "CPL_SHA256Context \<Rightarrow> bool" where
  "sha256_valid sc \<longleftrightarrow> length (buffer sc) = 64 \<and> bufferLength sc < 64"

definition sha256_pending :: "CPL_SHA256Context \<Rightarrow> byte list" where
  "sha256_pending sc = take (bufferLength sc) (buffer sc)"

lemma Update_blocks_result:
  "\<exists>sc' r. SHA256Update_blocks sc data = (sc', r) \<and>
     (hash sc', r) = absorb CPL_SHA256Guts (hash sc) data \<and> length r < 64 \<and>
     buffer sc' = buffer sc \<and> bufferLength sc' = bufferLength sc \<and>
     totalLength sc' + of_nat (8 * length r) = totalLength sc + of_nat (8 * length data)"
proof (induction sc data rule: SHA256Update_blocks.induct)
  case (1 sc data)
  show ?case
  proof (cases "length data > 63")
    case False
    then show ?thesis by (simp add: SHA256Update_blocks.simps absorb_short)
  next
    case True
    have "of_nat (8 * length data) = (512 + of_nat (8 * length (drop 64 data)) :: u64)"
    proof -
      have "8 * length data = 512 + 8 * length (drop 64 data)" using True by simp
      then show ?thesis by (metis of_nat_add of_nat_numeral)
    qed
    with 1 [OF True] True show ?thesis
      by (subst SHA256Update_blocks.simps) (simp add: absorb_block [of data] algebra_simps)
  qed
qed

lemma blocks_Nil: "SHA256Update_blocks sc [] = (sc, [])"
  by (simp add: SHA256Update_blocks.simps)

text \<open>The first part of an update: the pending bytes are completed to a block if possible.\<close>

lemma Update_rest:
  assumes "sha256_valid sc" "bufferLength sc = 0"
  shows "\<exists>sc'. (let (sc, data) = SHA256Update_blocks sc data in
      if data \<noteq> [] then do {
        buf \<leftarrow> c_memcpy (buffer sc) (bufferLength sc) data (length data);
        Some (sc\<lparr>buffer := buf, totalLength := totalLength sc + of_nat (length data * 8),
                 bufferLength := bufferLength sc + length data\<rparr>)
      } else Some sc) = Some sc' \<and> sha256_valid sc' \<and>
    (hash sc', sha256_pending sc') = absorb CPL_SHA256Guts (hash sc) data \<and>
    totalLength sc' = totalLength sc + of_nat (8 * length data)"
proof -
  obtain t r where t: "SHA256Update_blocks sc data = (t, r)"
    "(hash t, r) = absorb CPL_SHA256Guts (hash sc) data" "length r < 64"
    "buffer t = buffer sc" "bufferLength t = bufferLength sc"
    "totalLength t + of_nat (8 * length r) = totalLength sc + of_nat (8 * length data)"
    using Update_blocks_result [of sc data] by blast
  show ?thesis
  proof (cases "r = []")
    case True
    then show ?thesis using t assms by (simp add: sha256_valid_def sha256_pending_def)
  next
    case False
    have "c_memcpy (buffer t) (bufferLength t) r (length r) = Some (r @ drop (length r) (buffer sc))"
      using t assms by (simp add: c_memcpy_def sha256_valid_def)
    then show ?thesis using t assms False
      by (simp add: sha256_valid_def sha256_pending_def mult.commute)
  qed
qed

lemma Update_result:
  assumes v: "sha256_valid sc"
  shows "\<exists>sc'. CPL_SHA256Update sc data = Some sc' \<and> sha256_valid sc' \<and>
    (hash sc', sha256_pending sc') = absorb CPL_SHA256Guts (hash sc) (sha256_pending sc @ data) \<and>
    totalLength sc' = totalLength sc + of_nat (8 * length data)"
proof (cases "bufferLength sc = 0")
  case True
  then show ?thesis using Update_rest [OF v True, of data]
    by (simp add: CPL_SHA256Update_def sha256_pending_def)
next
  case False
  let ?b = "bufferLength sc"
  let ?n = "min (64 - ?b) (length data)"
  let ?buf = "take ?b (buffer sc) @ take ?n data @ drop (?b + ?n) (buffer sc)"
  have b: "?b < 64" "length (buffer sc) = 64" using v by (simp_all add: sha256_valid_def)
  have cp: "c_memcpy (buffer sc) ?b data ?n = Some ?buf" using b by (simp add: c_memcpy_def)
  show ?thesis
  proof (cases "length data < 64 - ?b")
    case True
    define sc' where "sc' = sc\<lparr>buffer := ?buf, totalLength := totalLength sc + of_nat (8 * length data),
      bufferLength := ?b + length data\<rparr>"
    have n: "?n = length data" using True by simp
    have "CPL_SHA256Update sc data = Some sc'"
      using False True cp b unfolding n
      by (simp add: CPL_SHA256Update_def Let_def blocks_Nil sc'_def mult.commute)
    moreover have "sha256_valid sc'" "sha256_pending sc' = sha256_pending sc @ data"
      using True b by (simp_all add: sc'_def sha256_valid_def sha256_pending_def)
    moreover have "length (sha256_pending sc @ data) < 64" using True b by (simp add: sha256_pending_def)
    ultimately show ?thesis by (simp add: absorb_short) (simp add: sc'_def)
  next
    case full: False
    have n: "?n = 64 - ?b" using full by simp
    define t where "t = sc\<lparr>buffer := ?buf, totalLength := totalLength sc + of_nat (8 * (64 - ?b)),
      hash := CPL_SHA256Guts (hash sc) ?buf, bufferLength := 0\<rparr>"
    have buf: "?buf = take 64 (sha256_pending sc @ data)" unfolding n using b by (simp add: sha256_pending_def)
    have t: "sha256_valid t" "bufferLength t = 0" using b n by (simp_all add: t_def sha256_valid_def)
    obtain sc' where sc': "(let (sc, data) = SHA256Update_blocks t (drop ?n data) in
      if data \<noteq> [] then do {
        buf \<leftarrow> c_memcpy (buffer sc) (bufferLength sc) data (length data);
        Some (sc\<lparr>buffer := buf, totalLength := totalLength sc + of_nat (length data * 8),
                 bufferLength := bufferLength sc + length data\<rparr>)
      } else Some sc) = Some sc'" "sha256_valid sc'"
      "(hash sc', sha256_pending sc') = absorb CPL_SHA256Guts (hash t) (drop ?n data)"
      "totalLength sc' = totalLength t + of_nat (8 * length (drop ?n data))"
      using Update_rest [OF t, of "drop ?n data"] by blast
    have U: "CPL_SHA256Update sc data = Some sc'"
      using False cp [unfolded n] b(1) sc'(1) [unfolded n t_def] min.absorb1 [of "64 - ?b" "length data"] full
      by (simp add: CPL_SHA256Update_def Let_def mult.commute)
    have d: "drop 64 (sha256_pending sc @ data) = drop ?n data" "64 \<le> length (sha256_pending sc @ data)"
      using full b n by (simp_all add: sha256_pending_def)
    have "absorb CPL_SHA256Guts (hash sc) (sha256_pending sc @ data) =
        absorb CPL_SHA256Guts (hash t) (drop ?n data)"
      unfolding absorb_block [OF d(2)] d(1) t_def buf by simp
    moreover have "8 * length data = 8 * (64 - ?b) + 8 * length (drop ?n data)" using full n by simp
    then have "of_nat (8 * length data) = (of_nat (8 * (64 - ?b)) + of_nat (8 * length (drop ?n data)) :: u64)"
      by (simp only: of_nat_add)
    ultimately show ?thesis using U sc'(2-4) by (simp add: t_def add.assoc)
  qed
qed


interpretation sha256: block_hash CPL_SHA256Update sha256_valid hash sha256_pending totalLength CPL_SHA256Guts
proof unfold_locales
  show "\<And>s d. sha256_valid s \<Longrightarrow> \<exists>s'. CPL_SHA256Update s d = Some s' \<and> sha256_valid s' \<and>
      (hash s', sha256_pending s') = absorb CPL_SHA256Guts (hash s) (sha256_pending s @ d) \<and>
      totalLength s' = totalLength s + of_nat (8 * length d)"
    by (rule Update_result)
qed (simp add: sha256_valid_def sha256_pending_def)

subsection \<open>The digest\<close>

definition sha256_bytes :: "u32 list \<Rightarrow> byte list" where
  "sha256_bytes h = concat (map (\<lambda>i. store_be32 (h ! i)) [0..<8])"

text \<open>The specification: the standard hash of the whole message.\<close>

definition sha256_spec :: "byte list \<Rightarrow> byte list" where
  "sha256_spec msg = sha256_bytes (md_hash CPL_SHA256Guts sha256_start store_be64 msg)"

lemma padding_bytes: "0 < k \<Longrightarrow> k \<le> 64 \<Longrightarrow> take k padding = 0x80 # replicate (k - 1) 0"
  by (cases k) (simp_all add: padding_def)

lemma pad_length:
  fixes b :: nat
  assumes "b < 64"
  shows "let p = 120 - b; p = (if p > 64 then p - 64 else p)
    in 0 < p \<and> p \<le> 64 \<and> p - 1 = (119 - b) mod 64"
proof (cases "b < 56")
  case True
  then have "119 - b = (55 - b) + 64" by simp
  then have "(119 - b) mod 64 = (55 - b) mod 64" by (metis mod_add_self2)
  moreover have "64 < 120 - b" using True by simp
  ultimately show ?thesis using True by (simp add: Let_def)
qed (use assms in \<open>simp add: Let_def\<close>)

lemma Final_result:
  assumes v: "sha256_valid sc" and len: "length (sha256_pending sc) = length msg mod 64"
    and c: "(hash sc, sha256_pending sc) = absorb CPL_SHA256Guts sha256_start msg"
    and t: "totalLength sc = of_nat (8 * length msg)"
  shows "\<exists>sc'. CPL_SHA256Final sc = Some (sc', sha256_spec msg) \<and> length (buffer sc') = 64"
proof -
  have b: "bufferLength sc < 64" "bufferLength sc = length msg mod 64"
    using v len by (auto simp: sha256_valid_def sha256_pending_def)
  define p where "p = (let p = 120 - bufferLength sc in if p > 64 then p - 64 else p)"
  have p: "0 < p" "p \<le> 64" "p - 1 = (119 - length msg mod 64) mod 64"
    using pad_length [OF b(1)] b(2) by (simp_all add: p_def Let_def)
  obtain sc' where sc': "update_all CPL_SHA256Update sc [take p padding, store_be64 (totalLength sc)] = Some sc'"
    "sha256_valid sc'" "(hash sc', sha256_pending sc') = absorb CPL_SHA256Guts (hash sc)
       (sha256_pending sc @ take p padding @ store_be64 (totalLength sc))"
    using sha256.update_all_absorbs [OF v, of "[take p padding, store_be64 (totalLength sc)]"] by auto
  have pad: "take p padding @ store_be64 (totalLength sc) = md_padding store_be64 (length msg)"
    using padding_bytes [OF p(1,2)] p(3) t by (simp add: md_padding_def)
  have "md_hash CPL_SHA256Guts sha256_start store_be64 msg = hash sc'"
    unfolding md_hash_pending [OF c] pad [symmetric] sc'(3) [symmetric] by simp
  moreover have "CPL_SHA256Final sc = Some (sc', sha256_bytes (hash sc'))"
  proof -
    obtain x where "CPL_SHA256Update sc (take p padding) = Some x"
      "CPL_SHA256Update x (store_be64 (totalLength sc)) = Some sc'"
      using sc'(1) by (auto split: option.splits)
    then show ?thesis
      by (simp only: CPL_SHA256Final_def Let_def p_def store_byteswap64 store_BYTESWAP
          sha256_bytes_def bind.bind_lunit)
  qed
  ultimately show ?thesis using sc'(2) by (simp add: sha256_spec_def sha256_valid_def)
qed

lemma Init_valid:
  "length (buffer sc) = 64 \<Longrightarrow> sha256_valid (CPL_SHA256Init sc)"
  "sha256_pending (CPL_SHA256Init sc) = []" "totalLength (CPL_SHA256Init sc) = 0"
  "hash (CPL_SHA256Init sc) = sha256_start"
  by (simp_all add: CPL_SHA256Init_def sha256_valid_def sha256_pending_def)

lemma stream_result:
  assumes "length (buffer sc) = 64"
  shows "\<exists>sc' sc''. update_all CPL_SHA256Update (CPL_SHA256Init sc) ds = Some sc' \<and>
    CPL_SHA256Final sc' = Some (sc'', sha256_spec (concat ds)) \<and> length (buffer sc'') = 64"
proof -
  obtain sc' where sc': "update_all CPL_SHA256Update (CPL_SHA256Init sc) ds = Some sc'" "sha256_valid sc'"
    "(hash sc', sha256_pending sc') = absorb CPL_SHA256Guts sha256_start (concat ds)"
    "totalLength sc' = of_nat (8 * length (concat ds))" "length (sha256_pending sc') = length (concat ds) mod 64"
    using sha256.update_all_from_start [OF Init_valid(1) [OF assms] Init_valid(2,3), of ds]
    unfolding Init_valid(4) by blast
  then show ?thesis using Final_result [OF sc'(2,5,3,4)] by blast
qed


interpretation sha256d: stream_digest CPL_SHA256Init CPL_SHA256Update CPL_SHA256Final
    "\<lambda>sc. length (buffer sc) = 64" sha256_spec
  by unfold_locales (rule stream_result)

lemma fresh_sound: "length (buffer sha256_fresh) = 64"
  by (simp add: sha256_fresh_def)

lemma CPL_SHA256_spec: "CPL_SHA256 msg = Some (sha256_spec msg)"
  unfolding CPL_SHA256_def by (rule sha256d.one_shot [OF fresh_sound])

lemma sha256_spec_length [simp]: "length (sha256_spec msg) = 32"
  by (simp add: sha256_spec_def sha256_bytes_def length_concat comp_def sum_list_triv)

lemma HMAC_result: "CPL_HMAC_SHA256 key msg = Some (hmac sha256_spec key msg)"
proof -
  have k: "length (sha256_spec key) \<le> 64" by simp
  show ?thesis
    unfolding CPL_HMAC_SHA256_def CPL_SHA256_spec hmac_key_block [of sha256_spec key, OF k]
    unfolding bind.bind_lunit sha256d.two_passes [OF fresh_sound] hmac_def by (simp add: Let_def)
qed

text \<open>C16: The SHA-256 context computes the standard hash of the whole message however it is cut into
  pieces: updating a fresh context with any list of pieces and finishing stays inside the 64 bytes of
  the buffer and gives the digest of their concatenation, where padding, big endian order and the
  length modulo 2 to the power 64 are those of the standard.\<close>

theorem CPL_SHA256_streaming:
  assumes "length (buffer sc) = 64"
  shows "\<exists>sc' sc''. update_all CPL_SHA256Update (CPL_SHA256Init sc) pieces = Some sc' \<and>
    CPL_SHA256Final sc' = Some (sc'', sha256_bytes
      (md_hash CPL_SHA256Guts sha256_start store_be64 (concat pieces)))"
  using stream_result [OF assms, of pieces] unfolding sha256_spec_def by blast

theorem CPL_SHA256_streaming_witness:
  "\<exists>sc' sc''. update_all CPL_SHA256Update (CPL_SHA256Init sha256_fresh) [replicate 70 1, [], [2, 3]] = Some sc' \<and>
    CPL_SHA256Final sc' = Some (sc'', sha256_bytes
      (md_hash CPL_SHA256Guts sha256_start store_be64 (replicate 70 1 @ [2, 3])))"
  using CPL_SHA256_streaming [of sha256_fresh "[replicate 70 1, [], [2, 3]]"]
  by (simp add: sha256_fresh_def)

text \<open>C34: CPL_SHA256Guts, with its shortened Ch and Maj, its swapped words and its schedule filled
  through moving pointers, is the compression function of FIPS 180-4 as the standard writes it.\<close>

theorem CPL_SHA256Guts_fips:
  assumes "length M = 64"
  shows "CPL_SHA256Guts H M = fips_compress H M"
  by (rule Guts_fips_compress [OF assms])

theorem CPL_SHA256Guts_fips_witness:
  "CPL_SHA256Guts sha256_start (replicate 64 7) = fips_compress sha256_start (replicate 64 7)"
  by (rule CPL_SHA256Guts_fips) simp

text \<open>CPL_HMAC_SHA256 is the keyed hash of RFC 2104 over CPL_SHA256, for every key, shorter or
  longer than a block, and every message, although it turns the inner into the outer pad in place.\<close>

theorem CPL_HMAC_SHA256_hmac:
  "CPL_HMAC_SHA256 key msg = Some (hmac (\<lambda>m. the (CPL_SHA256 m)) key msg)"
  using HMAC_result by (simp add: CPL_SHA256_spec)

end
