(* ===== verification/Sha1.thy ===== *)
theory Sha1
  imports BlockHash
begin

section \<open>SHA-1 and its keyed hash (port/cpl_sha1.cpp)\<close>

text \<open>
  The context takes the data byte by byte and compresses its block when it is full.  Sums of shifted
  bytes are taken modulo 2 to the power 32, as they are stored in unsigned words; \<open>datalen\<close> stays
  below 64 and is a number here.
\<close>

record CPL_SHA1Context =
  sha1_data :: "byte list"
  datalen :: nat
  bitlen :: u64
  state :: "u32 list"

definition ROTLEFT :: "u32 \<Rightarrow> nat \<Rightarrow> u32" where
  "ROTLEFT a b = push_bit b a OR drop_bit (32 - b) a"

subsection \<open>The compression function\<close>

definition sha1_words :: "byte list \<Rightarrow> u32 list" where
  "sha1_words data = map (\<lambda>i. let j = 4 * i in
     push_bit 24 (ucast (data ! j)) + push_bit 16 (ucast (data ! (j + 1))) +
     push_bit 8 (ucast (data ! (j + 2))) + ucast (data ! (j + 3))) [0..<16]"

fun sha1_expand :: "nat \<Rightarrow> u32 list \<Rightarrow> u32 list" where
  "sha1_expand 0 m = m"
| "sha1_expand (Suc n) m =
     (let i = length m;
          w = m ! (i - 3) XOR m ! (i - 8) XOR m ! (i - 14) XOR m ! (i - 16)
      in sha1_expand n (m @ [push_bit 1 w OR drop_bit 31 w]))"

type_synonym sha1_vars = "u32 \<times> u32 \<times> u32 \<times> u32 \<times> u32"

text \<open>The body of the four loops, which differ in the function and the constant.\<close>

fun sha1_round :: "(u32 \<Rightarrow> u32 \<Rightarrow> u32 \<Rightarrow> u32) \<Rightarrow> u32 \<Rightarrow> u32 \<Rightarrow> sha1_vars \<Rightarrow> sha1_vars" where
  "sha1_round f k w (a, b, c, d, e) = (ROTLEFT a 5 + f b c d + e + k + w, a, ROTLEFT b 30, c, d)"

fun sha1_vars :: "u32 list \<Rightarrow> sha1_vars" where
  "sha1_vars st = (st ! 0, st ! 1, st ! 2, st ! 3, st ! 4)"

fun sha1_add :: "u32 list \<Rightarrow> sha1_vars \<Rightarrow> u32 list" where
  "sha1_add st (a, b, c, d, e) = [st ! 0 + a, st ! 1 + b, st ! 2 + c, st ! 3 + d, st ! 4 + e]"

definition sha1_transform :: "u32 list \<Rightarrow> byte list \<Rightarrow> u32 list" where
  "sha1_transform st data =
     (let m = sha1_expand 64 (sha1_words data);
          v = sha1_vars st;
          v = fold (\<lambda>i. sha1_round (\<lambda>b c d. (b AND c) XOR (NOT b AND d)) 0x5a827999 (m ! i)) [0..<20] v;
          v = fold (\<lambda>i. sha1_round (\<lambda>b c d. b XOR c XOR d) 0x6ed9eba1 (m ! i)) [20..<40] v;
          v = fold (\<lambda>i. sha1_round (\<lambda>b c d. (b AND c) XOR (b AND d) XOR (c AND d)) 0x8f1bbcdc (m ! i))
                [40..<60] v;
          v = fold (\<lambda>i. sha1_round (\<lambda>b c d. b XOR c XOR d) 0xca62c1d6 (m ! i)) [60..<80] v
      in sha1_add st v)"

subsection \<open>The context\<close>

definition sha1_start :: "u32 list" where
  "sha1_start = [0x67452301, 0xEFCDAB89, 0x98BADCFE, 0x10325476, 0xc3d2e1f0]"

definition CPL_SHA1Init :: "CPL_SHA1Context \<Rightarrow> CPL_SHA1Context" where
  "CPL_SHA1Init ctx = ctx\<lparr>datalen := 0, bitlen := 0, state := sha1_start\<rparr>"

fun CPL_SHA1Update :: "CPL_SHA1Context \<Rightarrow> byte list \<Rightarrow> CPL_SHA1Context option" where
  "CPL_SHA1Update ctx [] = Some ctx"
| "CPL_SHA1Update ctx (b # data) =
     (case arr_set (sha1_data ctx) (int (datalen ctx)) b of
        None \<Rightarrow> None
      | Some buf \<Rightarrow>
          let ctx = ctx\<lparr>sha1_data := buf, datalen := datalen ctx + 1\<rparr>;
              ctx = (if datalen ctx = 64
                     then ctx\<lparr>state := sha1_transform (state ctx) (sha1_data ctx),
                              bitlen := bitlen ctx + 512, datalen := 0\<rparr>
                     else ctx)
          in CPL_SHA1Update ctx data)"

text \<open>\<open>while (i < lim) data[i++] = 0x00\<close>\<close>

function sha1_zeros :: "byte list \<Rightarrow> nat \<Rightarrow> nat \<Rightarrow> byte list option" where
  "sha1_zeros data i lim =
     (if i < lim then (case arr_set data (int i) 0 of None \<Rightarrow> None | Some data \<Rightarrow> sha1_zeros data (i + 1) lim)
      else Some data)"
  by pat_completeness auto
termination by (relation "measure (\<lambda>(d, i, l). l - i)") auto

declare sha1_zeros.simps [simp del]

definition CPL_SHA1Final :: "CPL_SHA1Context \<Rightarrow> (CPL_SHA1Context \<times> byte list) option" where
  "CPL_SHA1Final ctx = do {
     let i = datalen ctx;
     data \<leftarrow> arr_set (sha1_data ctx) (int i) 0x80;
     ctx \<leftarrow> (if datalen ctx < 56 then do {
         data \<leftarrow> sha1_zeros data (i + 1) 56;
         Some (ctx\<lparr>sha1_data := data\<rparr>)
       } else do {
         data \<leftarrow> sha1_zeros data (i + 1) 64;
         let st = sha1_transform (state ctx) data;
         data \<leftarrow> c_memset data 0 0 56;
         Some (ctx\<lparr>sha1_data := data, state := st\<rparr>)
       });
     let ctx = ctx\<lparr>bitlen := bitlen ctx + of_nat (datalen ctx * 8)\<rparr>;
     data \<leftarrow> arr_set (sha1_data ctx) 63 (ucast (bitlen ctx));
     data \<leftarrow> arr_set data 62 (ucast (drop_bit 8 (bitlen ctx)));
     data \<leftarrow> arr_set data 61 (ucast (drop_bit 16 (bitlen ctx)));
     data \<leftarrow> arr_set data 60 (ucast (drop_bit 24 (bitlen ctx)));
     data \<leftarrow> arr_set data 59 (ucast (drop_bit 32 (bitlen ctx)));
     data \<leftarrow> arr_set data 58 (ucast (drop_bit 40 (bitlen ctx)));
     data \<leftarrow> arr_set data 57 (ucast (drop_bit 48 (bitlen ctx)));
     data \<leftarrow> arr_set data 56 (ucast (drop_bit 56 (bitlen ctx)));
     let st = sha1_transform (state ctx) data;
     let hash = concat (map (\<lambda>s. map (\<lambda>i. ucast (drop_bit (24 - i * 8) (st ! s) AND 0xff)) [0..<4]) [0..<5]);
     Some (ctx\<lparr>sha1_data := data, state := st\<rparr>, hash)
   }"

text \<open>A context on the stack, its undefined contents taken as zeros.\<close>

definition sha1_fresh :: CPL_SHA1Context where
  "sha1_fresh = \<lparr>sha1_data = replicate 64 0, datalen = 0, bitlen = 0, state = replicate 5 0\<rparr>"

definition CPL_SHA1 :: "byte list \<Rightarrow> byte list option" where
  "CPL_SHA1 data = do {
     let ctx = CPL_SHA1Init sha1_fresh;
     ctx \<leftarrow> CPL_SHA1Update ctx data;
     (ctx, hash) \<leftarrow> CPL_SHA1Final ctx;
     Some hash
   }"

definition CPL_HMAC_SHA1 :: "byte list \<Rightarrow> byte list \<Rightarrow> byte list option" where
  "CPL_HMAC_SHA1 pKey pabyMessage = do {
     abyPad \<leftarrow> (if length pKey > 64 then do {
         d \<leftarrow> CPL_SHA1 pKey;
         c_memcpy (replicate 64 0) 0 d (length d)
       } else c_memcpy (replicate 64 0) 0 pKey (length pKey));
     let abyPad = map (\<lambda>b. 0x36 XOR b) abyPad;
     let ctx = CPL_SHA1Init sha1_fresh;
     ctx \<leftarrow> CPL_SHA1Update ctx abyPad;
     ctx \<leftarrow> CPL_SHA1Update ctx pabyMessage;
     (ctx, abyDigest) \<leftarrow> CPL_SHA1Final ctx;
     let abyPad = map (\<lambda>b. (0x36 XOR 0x5C) XOR b) abyPad;
     let ctx = CPL_SHA1Init ctx;
     ctx \<leftarrow> CPL_SHA1Update ctx abyPad;
     ctx \<leftarrow> CPL_SHA1Update ctx abyDigest;
     (ctx, abyDigest) \<leftarrow> CPL_SHA1Final ctx;
     Some abyDigest
   }"

subsection \<open>Updating absorbs the data\<close>

definition sha1_valid :: "CPL_SHA1Context \<Rightarrow> bool" where
  "sha1_valid ctx \<longleftrightarrow> length (sha1_data ctx) = 64 \<and> datalen ctx < 64"

definition sha1_pending :: "CPL_SHA1Context \<Rightarrow> byte list" where
  "sha1_pending ctx = take (datalen ctx) (sha1_data ctx)"

text \<open>The count of absorbed bits: \<open>bitlen\<close> is only brought up to date when a block is complete.\<close>

definition sha1_bits :: "CPL_SHA1Context \<Rightarrow> u64" where
  "sha1_bits ctx = bitlen ctx + of_nat (8 * datalen ctx)"

lemma SHA1Update_result:
  "sha1_valid ctx \<Longrightarrow> \<exists>ctx'. CPL_SHA1Update ctx data = Some ctx' \<and> sha1_valid ctx' \<and>
    (state ctx', sha1_pending ctx') = absorb sha1_transform (state ctx) (sha1_pending ctx @ data) \<and>
    sha1_bits ctx' = sha1_bits ctx + of_nat (8 * length data)"
proof (induction data arbitrary: ctx)
  case Nil
  then show ?case by (simp add: sha1_valid_def sha1_pending_def absorb_short)
next
  case (Cons b data)
  let ?d = "datalen ctx" and ?buf = "(sha1_data ctx)[datalen ctx := b]"
  have v: "length (sha1_data ctx) = 64" "?d < 64" using Cons.prems by (simp_all add: sha1_valid_def)
  have set: "arr_set (sha1_data ctx) (int ?d) b = Some ?buf" using v by (simp add: mem_simps)
  have pend: "take (Suc ?d) ?buf = sha1_pending ctx @ [b]"
    using v by (simp add: sha1_pending_def take_Suc_conv_app_nth)
  show ?case
  proof (cases "Suc ?d = 64")
    case False
    define t where "t = ctx\<lparr>sha1_data := ?buf, datalen := Suc ?d\<rparr>"
    have "sha1_valid t" "sha1_pending t = sha1_pending ctx @ [b]" "state t = state ctx"
      "sha1_bits t = sha1_bits ctx + 8"
      using v False pend by (simp_all add: t_def sha1_valid_def sha1_pending_def sha1_bits_def)
    moreover have "CPL_SHA1Update ctx (b # data) = CPL_SHA1Update t data"
      using set False by (simp add: t_def)
    ultimately show ?thesis using Cons.IH [of t] by (simp add: algebra_simps)
  next
    case True
    define t where "t = ctx\<lparr>sha1_data := ?buf, state := sha1_transform (state ctx) ?buf,
      bitlen := bitlen ctx + 512, datalen := 0\<rparr>"
    have buf: "?buf = sha1_pending ctx @ [b]" using pend v True by simp
    have len: "length (sha1_pending ctx @ [b]) = 64" using v True by (simp add: sha1_pending_def)
    have bits: "sha1_bits t = sha1_bits ctx + 8"
    proof -
      have "8 * Suc ?d = 512" using True by simp
      then have "of_nat (8 * ?d) + 8 = (512 :: u64)" by (metis mult_Suc_right add.commute of_nat_add of_nat_numeral)
      then show ?thesis by (simp add: sha1_bits_def t_def add.assoc)
    qed
    have "sha1_valid t" "sha1_pending t = []" using v by (simp_all add: t_def sha1_valid_def sha1_pending_def)
    moreover have "CPL_SHA1Update ctx (b # data) = CPL_SHA1Update t data"
      using set True by (simp add: t_def Let_def)
    moreover have "absorb sha1_transform (state ctx) (sha1_pending ctx @ b # data) =
        absorb sha1_transform (state t) data"
      using absorb_block [of "(sha1_pending ctx @ [b]) @ data" sha1_transform "state ctx"] len buf
      by (simp add: t_def)
    ultimately show ?thesis using Cons.IH [of t] bits by (simp add: algebra_simps)
  qed
qed


interpretation sha1: block_hash CPL_SHA1Update sha1_valid state sha1_pending sha1_bits sha1_transform
proof unfold_locales
  show "\<And>s d. sha1_valid s \<Longrightarrow> \<exists>s'. CPL_SHA1Update s d = Some s' \<and> sha1_valid s' \<and>
      (state s', sha1_pending s') = absorb sha1_transform (state s) (sha1_pending s @ d) \<and>
      sha1_bits s' = sha1_bits s + of_nat (8 * length d)"
    by (rule SHA1Update_result)
qed (simp add: sha1_valid_def sha1_pending_def)

subsection \<open>The digest\<close>

definition sha1_bytes :: "u32 list \<Rightarrow> byte list" where
  "sha1_bytes h = concat (map (\<lambda>i. store_be32 (h ! i)) [0..<5])"

definition sha1_spec :: "byte list \<Rightarrow> byte list" where
  "sha1_spec msg = sha1_bytes (md_hash sha1_transform sha1_start store_be64 msg)"

lemma sha1_zeros_result:
  "i \<le> lim \<Longrightarrow> lim \<le> length data \<Longrightarrow>
   sha1_zeros data i lim = Some (take i data @ replicate (lim - i) 0 @ drop lim data)"
proof (induction "lim - i" arbitrary: i data)
  case 0
  then show ?case by (simp add: sha1_zeros.simps)
next
  case (Suc n)
  then have i: "i < lim" "i < length data" by auto
  have "sha1_zeros data i lim = sha1_zeros (data[i := 0]) (i + 1) lim"
    using i by (subst sha1_zeros.simps) (simp add: mem_simps)
  also have "\<dots> = Some (take (i + 1) (data[i := 0]) @ replicate (lim - (i + 1)) 0 @ drop lim (data[i := 0]))"
    using Suc by (intro Suc.hyps(1)) auto
  also have "\<dots> = Some (take i data @ replicate (lim - i) 0 @ drop lim data)"
  proof -
    have "lim - i = Suc (lim - Suc i)" using i by simp
    then show ?thesis using i by (simp add: take_Suc_conv_app_nth drop_update_cancel)
  qed
  finally show ?case .
qed

lemma take_front: "length xs = n \<Longrightarrow> take n (xs @ ys) = xs"
  by simp

lemma eight_bytes:
  assumes "length xs = 8"
  obtains a b c d e f h k where "xs = [a, b, c, d, e, f, h, k]"
  using assms by (auto simp: numeral_eq_Suc length_Suc_conv)

lemma length_stores:
  assumes "length data = 64"
  shows "do {
     data \<leftarrow> arr_set data 63 (ucast (w :: u64));
     data \<leftarrow> arr_set data 62 (ucast (drop_bit 8 w));
     data \<leftarrow> arr_set data 61 (ucast (drop_bit 16 w));
     data \<leftarrow> arr_set data 60 (ucast (drop_bit 24 w));
     data \<leftarrow> arr_set data 59 (ucast (drop_bit 32 w));
     data \<leftarrow> arr_set data 58 (ucast (drop_bit 40 w));
     data \<leftarrow> arr_set data 57 (ucast (drop_bit 48 w));
     data \<leftarrow> arr_set data 56 (ucast (drop_bit 56 w));
     g data
   } = g (take 56 data @ store_be64 w)"
proof -
  have "length (drop 56 data) = 8" using assms by simp
  then obtain a b c d e f h k where r: "drop 56 data = [a, b, c, d, e, f, h, k]"
    by (rule eight_bytes)
  have data: "data = take 56 data @ [a, b, c, d, e, f, h, k]"
    by (subst r [symmetric]) simp
  have b: "ucast (drop_bit n (ucast w :: u32)) = (ucast (drop_bit n w) :: byte)"
    "ucast (drop_bit n (ucast (drop_bit 32 w) :: u32)) = (ucast (drop_bit (32 + n) w) :: byte)" if "n \<le> 24" for n
    using that by (auto intro!: bit_word_eqI simp: bit_simps ac_simps)
  have s: "store_be64 w = [ucast (drop_bit 56 w), ucast (drop_bit 48 w), ucast (drop_bit 40 w),
      ucast (drop_bit 32 w), ucast (drop_bit 24 w), ucast (drop_bit 16 w), ucast (drop_bit 8 w), ucast w]"
    using b(1) [of 0] b(2) [of 0] by (simp add: store_be64_def store_be32_def b)
  show ?thesis unfolding s
    using assms by (subst (1) data) (simp add: arr_set_def list_update_append)
qed

lemma hash_bytes:
  "map (\<lambda>i. ucast (drop_bit (24 - i * 8) w AND 0xff)) [0..<4] = store_be32 w"
proof -
  have "ucast (x AND 0xff) = (ucast x :: byte)" for x :: u32
    by (rule bit_word_eqI) (auto simp: bit_simps dest: less_8)
  then show ?thesis by (simp add: store_be32_def upt_rec)
qed

lemma digest_bytes:
  "concat (map (\<lambda>s. map (\<lambda>i. ucast (drop_bit (24 - i * 8) (st ! s) AND 0xff)) [0..<4]) [0..<5]) =
    sha1_bytes st"
  by (simp only: hash_bytes sha1_bytes_def)

text \<open>After the padding: the length is stored and the last block compressed.\<close>

lemma SHA1Final_padded:
  assumes "arr_set (sha1_data ctx) (int (datalen ctx)) 0x80 = Some data"
    and "(if datalen ctx < 56 then do {
         data \<leftarrow> sha1_zeros data (datalen ctx + 1) 56;
         Some (ctx\<lparr>sha1_data := data\<rparr>)
       } else do {
         data \<leftarrow> sha1_zeros data (datalen ctx + 1) 64;
         let st = sha1_transform (state ctx) data;
         data \<leftarrow> c_memset data 0 0 56;
         Some (ctx\<lparr>sha1_data := data, state := st\<rparr>)
       }) = Some \<lparr>sha1_data = d, datalen = n, bitlen = l, state = st\<rparr>"
    and len: "length d = 64"
  shows "\<exists>ctx'. CPL_SHA1Final ctx =
      Some (ctx', sha1_bytes (sha1_transform st (take 56 d @ store_be64 (l + of_nat (n * 8))))) \<and>
    length (sha1_data ctx') = 64"
  unfolding CPL_SHA1Final_def Let_def assms(1) bind.bind_lunit assms(2) [unfolded Let_def]
    CPL_SHA1Context.simps length_stores [OF len] digest_bytes
  using len by auto

lemma SHA1Final_result:
  assumes v: "sha1_valid ctx" and len: "length (sha1_pending ctx) = length msg mod 64"
    and c: "(state ctx, sha1_pending ctx) = absorb sha1_transform sha1_start msg"
    and t: "sha1_bits ctx = of_nat (8 * length msg)"
  shows "\<exists>ctx'. CPL_SHA1Final ctx = Some (ctx', sha1_spec msg) \<and> length (sha1_data ctx') = 64"
proof -
  let ?d = "datalen ctx" and ?r = "sha1_pending ctx" and ?L = "store_be64 (of_nat (8 * length msg))"
  have d: "?d < 64" "length (sha1_data ctx) = 64" "?d = length msg mod 64" "length ?r = ?d"
    using v len by (auto simp: sha1_valid_def sha1_pending_def)
  have set: "arr_set (sha1_data ctx) (int ?d) 0x80 = Some ((sha1_data ctx)[?d := 0x80])"
    using d by (simp add: mem_simps)
  have tk: "take (Suc ?d) ((sha1_data ctx)[?d := 0x80]) = ?r @ [0x80]"
    using d by (simp add: sha1_pending_def take_Suc_conv_app_nth)
  define h where "h = md_hash sha1_transform sha1_start store_be64 msg"
  have h: "h = fst (absorb sha1_transform (state ctx) (?r @ md_padding store_be64 (length msg)))"
    unfolding h_def by (rule md_hash_pending [OF c])
  have bits: "bitlen ctx + of_nat (?d * 8) = of_nat (8 * length msg)"
    using t by (simp add: sha1_bits_def mult.commute)
  have ctx': "ctx\<lparr>sha1_data := x\<rparr> = \<lparr>sha1_data = x, datalen = ?d, bitlen = bitlen ctx, state = state ctx\<rparr>"
    "ctx\<lparr>sha1_data := x, state := y\<rparr> = \<lparr>sha1_data = x, datalen = ?d, bitlen = bitlen ctx, state = y\<rparr>" for x y
    by simp_all
  show ?thesis
  proof (cases "?d < 56")
    case True
    let ?blk = "?r @ 0x80 # replicate (55 - ?d) 0"
    have z: "sha1_zeros ((sha1_data ctx)[?d := 0x80]) (?d + 1) 56 =
        Some (?blk @ drop 56 ((sha1_data ctx)[?d := 0x80]))"
      using sha1_zeros_result [of "?d + 1" 56 "(sha1_data ctx)[?d := 0x80]"] True d tk by simp
    have pad: "?r @ md_padding store_be64 (length msg) = ?blk @ ?L"
    proof -
      have "119 - ?d = (55 - ?d) + 64" using True by simp
      then have "(119 - ?d) mod 64 = (55 - ?d) mod 64" by (metis mod_add_self2)
      then show ?thesis using True d(3) by (simp add: md_padding_def)
    qed
    have "length (?blk @ ?L) = 64" using True d by simp
    then have "h = sha1_transform (state ctx) (?blk @ ?L)"
      unfolding h pad by (simp only: absorb_one fst_conv)
    moreover have "\<exists>ctx'. CPL_SHA1Final ctx = Some (ctx', sha1_bytes (sha1_transform (state ctx)
        (take 56 (?blk @ drop 56 ((sha1_data ctx)[?d := 0x80])) @
         store_be64 (bitlen ctx + of_nat (?d * 8))))) \<and> length (sha1_data ctx') = 64"
      by (rule SHA1Final_padded [OF set]) (use True z d in \<open>simp_all add: ctx'\<close>)
    moreover have "length ?blk = 56" using True d by simp
    then have "take 56 (?blk @ drop 56 ((sha1_data ctx)[?d := 0x80])) = ?blk"
      by (rule take_front)
    ultimately show ?thesis using bits by (simp only: sha1_spec_def h_def [symmetric])
  next
    case False
    let ?blk = "?r @ 0x80 # replicate (63 - ?d) 0"
    have z: "sha1_zeros ((sha1_data ctx)[?d := 0x80]) (?d + 1) 64 = Some ?blk"
      using sha1_zeros_result [of "?d + 1" 64 "(sha1_data ctx)[?d := 0x80]"] d tk by simp
    have m: "c_memset ?blk 0 0 56 = Some (replicate 56 0 @ drop 56 ?blk)"
      using d by (simp add: c_memset_def c_memcpy_def)
    have pad: "?r @ md_padding store_be64 (length msg) = ?blk @ (replicate 56 0 @ ?L)"
    proof -
      have "(119 - ?d) mod 64 = (63 - ?d) + 56" using False d(1) by simp
      then have "replicate ((119 - ?d) mod 64) 0 = replicate (63 - ?d) (0::byte) @ replicate 56 0"
        by (simp only: replicate_add)
      then show ?thesis unfolding md_padding_def d(3) [symmetric] by simp
    qed
    have "length ?blk = 64" "length (replicate 56 (0::byte) @ ?L) = 64" using False d by simp_all
    then have "h = sha1_transform (sha1_transform (state ctx) ?blk) (replicate 56 0 @ ?L)"
      unfolding h pad by (simp only: absorb_two fst_conv)
    moreover have "\<exists>ctx'. CPL_SHA1Final ctx = Some (ctx', sha1_bytes (sha1_transform
        (sha1_transform (state ctx) ?blk) (take 56 (replicate 56 0 @ drop 56 ?blk) @
         store_be64 (bitlen ctx + of_nat (?d * 8))))) \<and> length (sha1_data ctx') = 64"
      by (rule SHA1Final_padded [OF set]) (use False z m d in \<open>simp_all add: ctx'\<close>)
    moreover have "take 56 (replicate 56 0 @ drop 56 ?blk) = replicate 56 (0::byte)"
      by (rule take_front) simp
    ultimately show ?thesis using bits by (simp only: sha1_spec_def h_def [symmetric])
  qed
qed


lemma sha1_stream:
  assumes "length (sha1_data ctx) = 64"
  shows "\<exists>ctx' ctx''. update_all CPL_SHA1Update (CPL_SHA1Init ctx) ds = Some ctx' \<and>
    CPL_SHA1Final ctx' = Some (ctx'', sha1_spec (concat ds)) \<and> length (sha1_data ctx'') = 64"
proof -
  have i: "sha1_valid (CPL_SHA1Init ctx)" "sha1_pending (CPL_SHA1Init ctx) = []"
    "sha1_bits (CPL_SHA1Init ctx) = 0" "state (CPL_SHA1Init ctx) = sha1_start"
    using assms by (simp_all add: CPL_SHA1Init_def sha1_valid_def sha1_pending_def sha1_bits_def)
  obtain ctx' where c: "update_all CPL_SHA1Update (CPL_SHA1Init ctx) ds = Some ctx'" "sha1_valid ctx'"
    "(state ctx', sha1_pending ctx') = absorb sha1_transform sha1_start (concat ds)"
    "sha1_bits ctx' = of_nat (8 * length (concat ds))" "length (sha1_pending ctx') = length (concat ds) mod 64"
    using sha1.update_all_from_start [OF i(1-3), of ds] unfolding i(4) by blast
  then show ?thesis using SHA1Final_result [OF c(2,5,3,4)] by blast
qed

interpretation sha1d: stream_digest CPL_SHA1Init CPL_SHA1Update CPL_SHA1Final
    "\<lambda>ctx. length (sha1_data ctx) = 64" sha1_spec
  by unfold_locales (rule sha1_stream)

lemma sha1_fresh_sound: "length (sha1_data sha1_fresh) = 64"
  by (simp add: sha1_fresh_def)

lemma CPL_SHA1_spec: "CPL_SHA1 msg = Some (sha1_spec msg)"
  unfolding CPL_SHA1_def by (rule sha1d.one_shot [OF sha1_fresh_sound])

lemma sha1_spec_length [simp]: "length (sha1_spec msg) = 20"
  by (simp add: sha1_spec_def sha1_bytes_def length_concat comp_def sum_list_triv)

lemma HMAC_SHA1_result: "CPL_HMAC_SHA1 key msg = Some (hmac sha1_spec key msg)"
proof -
  have k: "length (sha1_spec key) \<le> 64" by simp
  show ?thesis
    unfolding CPL_HMAC_SHA1_def CPL_SHA1_spec hmac_key_block [of sha1_spec key, OF k]
    unfolding bind.bind_lunit sha1d.two_passes [OF sha1_fresh_sound] hmac_def by (simp add: Let_def)
qed

text \<open>CPL_HMAC_SHA1 is the keyed hash of RFC 2104 over the standard SHA-1 construction: its own
  digest, which takes bytes one by one, pads in place and may need one block more for the length, is
  the hash of the padded message, for every key and message.\<close>

theorem CPL_HMAC_SHA1_hmac:
  "CPL_HMAC_SHA1 key msg =
     Some (hmac (\<lambda>m. sha1_bytes (md_hash sha1_transform sha1_start store_be64 m)) key msg)"
  using HMAC_SHA1_result by (simp add: sha1_spec_def [abs_def])

end
