(* ===== verification/Md5.thy ===== *)
theory Md5
  imports BlockHash
begin

section \<open>MD5 (port/cpl_md5.cpp)\<close>

text \<open>
  The context has the four words of the chaining value, the length in bits as two words with an
  explicit carry, and a block of 64 bytes; the number of pending bytes is read off the length.
\<close>

record CPLMD5Context =
  buf :: "u32 list"
  bits0 :: u32
  bits1 :: u32
  inraw :: "byte list"

subsection \<open>The compression function\<close>

definition getu32 :: "byte list \<Rightarrow> u32" where
  "getu32 addr =
     push_bit 8 (push_bit 8 (push_bit 8 (ucast (addr ! 3)) OR ucast (addr ! 2)) OR ucast (addr ! 1)) OR
     ucast (addr ! 0)"

definition putu32 :: "u32 \<Rightarrow> byte list" where
  "putu32 data =
     [ucast (data AND 0xff), ucast (drop_bit 8 data AND 0xff), ucast (drop_bit 16 data AND 0xff),
      ucast (drop_bit 24 data AND 0xff)]"

definition F1 :: "u32 \<Rightarrow> u32 \<Rightarrow> u32 \<Rightarrow> u32" where "F1 x y z = z XOR (x AND (y XOR z))"
definition F2 :: "u32 \<Rightarrow> u32 \<Rightarrow> u32 \<Rightarrow> u32" where "F2 x y z = F1 z x y"
definition F3 :: "u32 \<Rightarrow> u32 \<Rightarrow> u32 \<Rightarrow> u32" where "F3 x y z = x XOR y XOR z"
definition F4 :: "u32 \<Rightarrow> u32 \<Rightarrow> u32 \<Rightarrow> u32" where "F4 x y z = y XOR (x OR NOT z)"

definition MD5STEP :: "(u32 \<Rightarrow> u32 \<Rightarrow> u32 \<Rightarrow> u32) \<Rightarrow> u32 \<Rightarrow> u32 \<Rightarrow> u32 \<Rightarrow> u32 \<Rightarrow> u32 \<Rightarrow> nat \<Rightarrow> u32" where
  "MD5STEP f w x y z data s =
     (let w = w + (f x y z + data); w = push_bit s w OR drop_bit (32 - s) w in w + x)"

text \<open>The variables take turns: after a step on \<open>a, b, c, d\<close> the next is on \<open>d, a, b, c\<close>.  A step is
  given by the index of its word, its constant and its shift.\<close>

type_synonym md5_vars = "u32 \<times> u32 \<times> u32 \<times> u32"

fun md5_turn :: "(u32 \<Rightarrow> u32 \<Rightarrow> u32 \<Rightarrow> u32) \<Rightarrow> u32 list \<Rightarrow> nat \<times> u32 \<times> nat \<Rightarrow> md5_vars \<Rightarrow> md5_vars" where
  "md5_turn f m (k, t, s) (w, x, y, z) = (z, MD5STEP f w x y z (m ! k + t) s, x, y)"

definition md5_steps :: "((u32 \<Rightarrow> u32 \<Rightarrow> u32 \<Rightarrow> u32) \<times> (nat \<times> u32 \<times> nat) list) list" where
  "md5_steps =
    [(F1,
     [(0, 0xd76aa478, 7), (1, 0xe8c7b756, 12), (2, 0x242070db, 17), (3, 0xc1bdceee, 22),
      (4, 0xf57c0faf, 7), (5, 0x4787c62a, 12), (6, 0xa8304613, 17), (7, 0xfd469501, 22),
      (8, 0x698098d8, 7), (9, 0x8b44f7af, 12), (10, 0xffff5bb1, 17), (11, 0x895cd7be, 22),
      (12, 0x6b901122, 7), (13, 0xfd987193, 12), (14, 0xa679438e, 17), (15, 0x49b40821, 22)]),
     (F2,
     [(1, 0xf61e2562, 5), (6, 0xc040b340, 9), (11, 0x265e5a51, 14), (0, 0xe9b6c7aa, 20),
      (5, 0xd62f105d, 5), (10, 0x02441453, 9), (15, 0xd8a1e681, 14), (4, 0xe7d3fbc8, 20),
      (9, 0x21e1cde6, 5), (14, 0xc33707d6, 9), (3, 0xf4d50d87, 14), (8, 0x455a14ed, 20),
      (13, 0xa9e3e905, 5), (2, 0xfcefa3f8, 9), (7, 0x676f02d9, 14), (12, 0x8d2a4c8a, 20)]),
     (F3,
     [(5, 0xfffa3942, 4), (8, 0x8771f681, 11), (11, 0x6d9d6122, 16), (14, 0xfde5380c, 23),
      (1, 0xa4beea44, 4), (4, 0x4bdecfa9, 11), (7, 0xf6bb4b60, 16), (10, 0xbebfbc70, 23),
      (13, 0x289b7ec6, 4), (0, 0xeaa127fa, 11), (3, 0xd4ef3085, 16), (6, 0x04881d05, 23),
      (9, 0xd9d4d039, 4), (12, 0xe6db99e5, 11), (15, 0x1fa27cf8, 16), (2, 0xc4ac5665, 23)]),
     (F4,
     [(0, 0xf4292244, 6), (7, 0x432aff97, 10), (14, 0xab9423a7, 15), (5, 0xfc93a039, 21),
      (12, 0x655b59c3, 6), (3, 0x8f0ccc92, 10), (10, 0xffeff47d, 15), (1, 0x85845dd1, 21),
      (8, 0x6fa87e4f, 6), (15, 0xfe2ce6e0, 10), (6, 0xa3014314, 15), (13, 0x4e0811a1, 21),
      (4, 0xf7537e82, 6), (11, 0xbd3af235, 10), (2, 0x2ad7d2bb, 15), (9, 0xeb86d391, 21)])]"

fun md5_vars :: "u32 list \<Rightarrow> md5_vars" where
  "md5_vars h = (h ! 0, h ! 1, h ! 2, h ! 3)"

fun md5_add :: "u32 list \<Rightarrow> md5_vars \<Rightarrow> u32 list" where
  "md5_add h (a, b, c, d) = [h ! 0 + a, h ! 1 + b, h ! 2 + c, h ! 3 + d]"

definition CPLMD5Transform :: "u32 list \<Rightarrow> byte list \<Rightarrow> u32 list" where
  "CPLMD5Transform h raw =
     (let m = map (\<lambda>i. getu32 (take 4 (drop (4 * i) raw))) [0..<16]
      in md5_add h (fold (\<lambda>(f, ss). fold (md5_turn f m) ss) md5_steps (md5_vars h)))"

subsection \<open>The context\<close>

definition md5_start :: "u32 list" where
  "md5_start = [0x67452301, 0xefcdab89, 0x98badcfe, 0x10325476]"

definition CPLMD5Init :: "CPLMD5Context \<Rightarrow> CPLMD5Context" where
  "CPLMD5Init context = context\<lparr>buf := md5_start, bits0 := 0, bits1 := 0\<rparr>"

definition md5_count :: "CPLMD5Context \<Rightarrow> nat \<Rightarrow> CPLMD5Context" where
  "md5_count context len =
     (let t = bits0 context;
          b0 = t + push_bit 3 (of_nat len);
          b1 = (if b0 < t then bits1 context + 1 else bits1 context);
          b1 = b1 + of_nat (drop_bit 29 len)
      in context\<lparr>bits0 := b0, bits1 := b1\<rparr>)"

text \<open>Complete blocks are copied into the context and compressed there; the rest stays there.\<close>

function MD5Update_blocks :: "CPLMD5Context \<Rightarrow> byte list \<Rightarrow> CPLMD5Context option" where
  "MD5Update_blocks context data =
     (if length data \<ge> 64 then
        (case c_memcpy (inraw context) 0 data 64 of
           None \<Rightarrow> None
         | Some m \<Rightarrow> MD5Update_blocks
             (context\<lparr>inraw := m, buf := CPLMD5Transform (buf context) m\<rparr>) (drop 64 data))
      else (case c_memcpy (inraw context) 0 data (length data) of
              None \<Rightarrow> None
            | Some m \<Rightarrow> Some (context\<lparr>inraw := m\<rparr>)))"
  by pat_completeness auto
termination by (relation "measure (\<lambda>(c, d). length d)") auto

declare MD5Update_blocks.simps [simp del]

text \<open>An update of at most 0xffffffff bytes.\<close>

definition MD5Update_piece :: "CPLMD5Context \<Rightarrow> byte list \<Rightarrow> CPLMD5Context option" where
  "MD5Update_piece context data = do {
     let t = bits0 context;
     let context = md5_count context (length data);
     let t = unat (drop_bit 3 t AND 0x3f);
     if t \<noteq> 0 then
       (if length data < 64 - t then do {
          m \<leftarrow> c_memcpy (inraw context) t data (length data);
          Some (context\<lparr>inraw := m\<rparr>)
        } else do {
          m \<leftarrow> c_memcpy (inraw context) t data (64 - t);
          MD5Update_blocks (context\<lparr>inraw := m, buf := CPLMD5Transform (buf context) m\<rparr>)
            (drop (64 - t) data)
        })
     else MD5Update_blocks context data
   }"

function CPLMD5Update :: "CPLMD5Context \<Rightarrow> byte list \<Rightarrow> CPLMD5Context option" where
  "CPLMD5Update context data =
     (if length data > 0xffffffff then
        (case MD5Update_piece context (take 0xffffffff data) of
           None \<Rightarrow> None
         | Some context \<Rightarrow> CPLMD5Update context (drop 0xffffffff data))
      else MD5Update_piece context data)"
  by pat_completeness auto
termination by (relation "measure (\<lambda>(c, d). length d)") auto

declare CPLMD5Update.simps [simp del]

text \<open>The context is cleared at the end.\<close>

definition CPLMD5Final :: "CPLMD5Context \<Rightarrow> (CPLMD5Context \<times> byte list) option" where
  "CPLMD5Final context = do {
     let count = unat (drop_bit 3 (bits0 context) AND 0x3F);
     m \<leftarrow> arr_set (inraw context) (int count) 0x80;
     let p = count + 1;
     let count = 64 - 1 - count;
     context \<leftarrow> (if count < 8 then do {
         m \<leftarrow> c_memset m p 0 count;
         let h = CPLMD5Transform (buf context) m;
         m \<leftarrow> c_memset m 0 0 56;
         Some (context\<lparr>inraw := m, buf := h\<rparr>)
       } else do {
         m \<leftarrow> c_memset m p 0 (count - 8);
         Some (context\<lparr>inraw := m\<rparr>)
       });
     m \<leftarrow> c_memcpy (inraw context) 56 (putu32 (bits0 context)) 4;
     m \<leftarrow> c_memcpy m 60 (putu32 (bits1 context)) 4;
     let h = CPLMD5Transform (buf context) m;
     Some (\<lparr>buf = replicate 4 0, bits0 = 0, bits1 = 0, inraw = replicate 64 0\<rparr>,
           putu32 (h ! 0) @ putu32 (h ! 1) @ putu32 (h ! 2) @ putu32 (h ! 3))
   }"

definition md5_fresh :: CPLMD5Context where
  "md5_fresh = \<lparr>buf = replicate 4 0, bits0 = 0, bits1 = 0, inraw = replicate 64 0\<rparr>"

definition tohex :: string where "tohex = ''0123456789abcdef''"

definition CPLMD5String :: "string \<Rightarrow> string option" where
  "CPLMD5String pszText = do {
     let context = CPLMD5Init md5_fresh;
     context \<leftarrow> CPLMD5Update context (map (\<lambda>c. of_nat (ccode c)) pszText);
     (context, hash) \<leftarrow> CPLMD5Final context;
     Some (concat (map (\<lambda>i. [tohex ! unat (drop_bit 4 (hash ! i) AND 0xf), tohex ! unat (hash ! i AND 0xf)])
       [0..<16]))
   }"

subsection \<open>The length and the pending bytes\<close>

definition md5_pos :: "u32 \<Rightarrow> nat" where "md5_pos b = unat b div 8 mod 64"

definition md5_bits :: "CPLMD5Context \<Rightarrow> u64" where
  "md5_bits ctx = of_nat (unat (bits0 ctx) + 2 ^ 32 * unat (bits1 ctx))"

definition md5_pending :: "CPLMD5Context \<Rightarrow> byte list" where
  "md5_pending ctx = take (md5_pos (bits0 ctx)) (inraw ctx)"

lemma md5_pos_mask: "unat (drop_bit 3 b AND 0x3f) = md5_pos b"
proof -
  have b: "unat b < 2 ^ 32" using unsigned_less [of b] by simp
  have "drop_bit 3 b AND 0x3f = take_bit 6 (drop_bit 3 b)"
    by (simp add: take_bit_eq_mask mask_eq_exp_minus_1)
  moreover have "unat (take_bit 6 (drop_bit 3 b)) = take_bit 6 (drop_bit 3 (unat b))"
    by (simp only: unsigned_take_bit_eq unsigned_drop_bit_eq) (simp add: take_bit_nat_eq_self [OF b])
  ultimately show ?thesis by (simp only: md5_pos_def take_bit_eq_mod drop_bit_eq_div) simp
qed

lemma two_words:
  assumes b: "a < 2 ^ 32" "c < 2 ^ 32"
  shows "(a + 2 ^ 32 * c) div 8 mod 64 = a div 8 mod (64::nat)" "a + 2 ^ 32 * c < 2 ^ 64"
proof -
  have "a + 2 ^ 32 * c = a + 8 * (2 ^ 29 * c)" by simp
  also have "\<dots> div 8 = a div 8 + 2 ^ 29 * c" by simp
  also have "\<dots> mod 64 = (a div 8 + 64 * (2 ^ 23 * c)) mod 64" by (rule arg_cong [of _ _ "\<lambda>x. x mod 64"]) simp
  also have "\<dots> = a div 8 mod 64" by (rule mod_mult_self2)
  finally show "(a + 2 ^ 32 * c) div 8 mod 64 = a div 8 mod 64" .
  show "a + 2 ^ 32 * c < 2 ^ 64" using assms by simp
qed

lemma md5_pos_bits: "md5_pos (bits0 ctx) = unat (md5_bits ctx) div 8 mod 64"
proof -
  have b: "unat (bits0 ctx) < 2 ^ 32" "unat (bits1 ctx) < 2 ^ 32"
    using unsigned_less [of "bits0 ctx"] unsigned_less [of "bits1 ctx"] by simp_all
  have "unat (md5_bits ctx) = unat (bits0 ctx) + 2 ^ 32 * unat (bits1 ctx)"
    unfolding md5_bits_def unat_of_nat using two_words(2) [OF b] by (simp only: len_num0 len_num1 len_bit0) simp
  then show ?thesis by (simp only: md5_pos_def two_words(1) [OF b])
qed

lemma carry_sum:
  fixes a b c l :: nat
  assumes "a < 2 ^ 32" "b < 2 ^ 32" "c = (a + b) mod 2 ^ 32"
  shows "c + 2 ^ 32 * (if c < a then 1 else 0) = a + b"
proof (cases "a + b < 2 ^ 32")
  case True
  then show ?thesis using assms(3) by simp
next
  case False
  then have "c = a + b - 2 ^ 32" using assms by (simp add: mod_if)
  then show ?thesis using False assms(1,2) by simp
qed

lemma high_mod: "(2 ^ 32 * (n mod 2 ^ 32)) mod 2 ^ 64 = (2 ^ 32 * n) mod (2 ^ 64 :: nat)"
proof -
  have "(2 ^ 64 :: nat) = 2 ^ 32 * 2 ^ 32" by simp
  then show ?thesis by (simp only: mod_mult_mult1 mod_mod_trivial)
qed

lemma low_high: "8 * len = 8 * len mod 2 ^ 32 + 2 ^ 32 * (len div 2 ^ 29 :: nat)"
proof -
  have m: "8 * len mod 2 ^ 32 = 8 * (len mod 2 ^ 29)" using mod_mult_mult1 [of 8 len "2 ^ 29"] by simp
  have "8 * (len mod 2 ^ 29 + 2 ^ 29 * (len div 2 ^ 29)) = 8 * len" by (simp only: mod_mult_div_eq)
  with m show ?thesis by (simp only: distrib_left mult.assoc [symmetric]) simp
qed

lemma of_nat_high: "(of_nat (2 ^ 32 * (n mod 2 ^ 32)) :: u64) = of_nat (2 ^ 32 * n)"
  unfolding word_of_nat_eq_iff take_bit_eq_mod using high_mod [of n] by simp

lemma of_nat_high_word: "(of_nat (2 ^ 32 * unat (of_nat n :: u32)) :: u64) = of_nat (2 ^ 32 * n)"
  using of_nat_high [of n] by (simp add: unat_of_nat)

text \<open>Adding the length of an update, with the carry out of the low word.\<close>

lemma md5_count_bits:
  assumes "len \<le> 0xffffffff"
  shows "md5_bits (md5_count ctx len) = md5_bits ctx + of_nat (8 * len)"
proof -
  let ?a = "unat (bits0 ctx)" and ?b = "8 * len mod 2 ^ 32" and ?B = "unat (bits1 ctx)"
  let ?w = "bits0 ctx + push_bit 3 (of_nat len) :: u32"
  define c where "c = unat ?w"
  have "(push_bit 3 (of_nat len) :: u32) = of_nat (8 * len)" by (simp add: push_bit_eq_mult mult.commute)
  then have c: "c = (?a + ?b) mod 2 ^ 32"
    by (simp only: c_def unat_word_ariths unat_of_nat) simp
  have a: "?a < 2 ^ 32" using unsigned_less [of "bits0 ctx"] by simp
  have "?b < 2 ^ 32" by simp
  from carry_sum [OF a this c] have sum: "c + 2 ^ 32 * (if c < ?a then 1 else 0) = ?a + ?b" .
  have split: "8 * len = ?b + 2 ^ 32 * (len div 2 ^ 29)" by (rule low_high)
  have lt: "?w < bits0 ctx \<longleftrightarrow> c < ?a" by (simp add: c_def word_less_nat_alt)
  let ?n = "?B + (if c < ?a then 1 else 0) + len div 2 ^ 29"
  have b0: "bits0 (md5_count ctx len) = ?w" by (simp add: md5_count_def Let_def)
  have b1: "bits1 (md5_count ctx len) = of_nat ?n"
    by (simp add: md5_count_def Let_def lt drop_bit_eq_div)
  have "md5_bits (md5_count ctx len) = of_nat c + of_nat (2 ^ 32 * unat (of_nat ?n :: u32))"
    unfolding md5_bits_def b0 b1 c_def by (rule of_nat_add)
  also have "\<dots> = of_nat c + of_nat (2 ^ 32 * ?n)" by (simp only: of_nat_high_word)
  also have "\<dots> = of_nat (c + 2 ^ 32 * ?n)" by (rule of_nat_add [symmetric])
  also have "c + 2 ^ 32 * ?n = (?a + 2 ^ 32 * ?B) + 8 * len"
    using sum split by (simp only: distrib_left)
  finally show ?thesis by (simp only: md5_bits_def of_nat_add)
qed

lemma md5_count_fields [simp]:
  "buf (md5_count ctx len) = buf ctx" "inraw (md5_count ctx len) = inraw ctx"
  by (simp_all add: md5_count_def Let_def)

lemma div8_mod: "(n mod 2 ^ 64) div 8 mod 64 = n div 8 mod (64 :: nat)"
proof -
  have "n mod 2 ^ 64 = n mod (8 * 2 ^ 61)" by simp
  also have "\<dots> = 8 * (n div 8 mod 2 ^ 61) + n mod 8" by (rule mod_mult2_eq)
  also have "\<dots> div 8 = n div 8 mod 2 ^ 61" by simp
  finally show ?thesis by (simp add: mod_mod_cancel)
qed

lemma md5_count_pos:
  assumes "len \<le> 0xffffffff"
  shows "md5_pos (bits0 (md5_count ctx len)) = (len + md5_pos (bits0 ctx)) mod 64"
proof -
  have "unat (md5_bits ctx + of_nat (8 * len)) = (unat (md5_bits ctx) + 8 * len) mod 2 ^ 64"
    by (simp add: unat_word_ariths unat_of_nat mod_add_right_eq del: of_nat_mult)
  then show ?thesis unfolding md5_pos_bits md5_count_bits [OF assms]
    by (simp only: div8_mod) (simp add: mod_add_right_eq)
qed

subsection \<open>Updates\<close>

definition md5_valid :: "CPLMD5Context \<Rightarrow> bool" where
  "md5_valid ctx \<longleftrightarrow> length (inraw ctx) = 64"

lemma md5_pos_less [simp]: "md5_pos b < 64"
  by (simp add: md5_pos_def)

lemma c_memcpy_front:
  "n \<le> length dst \<Longrightarrow> n \<le> length src \<Longrightarrow> c_memcpy dst 0 src n = Some (take n src @ drop n dst)"
  by (simp add: c_memcpy_def)

lemma MD5Update_blocks_result:
  "length (inraw ctx) = 64 \<Longrightarrow> \<exists>h m. MD5Update_blocks ctx data = Some (ctx\<lparr>inraw := m, buf := h\<rparr>) \<and>
     length m = 64 \<and> absorb CPLMD5Transform (buf ctx) data = (h, take (length data mod 64) m)"
proof (induction ctx data rule: MD5Update_blocks.induct)
  case (1 ctx data)
  show ?case
  proof (cases "64 \<le> length data")
    case True
    define t where "t = ctx\<lparr>inraw := take 64 data, buf := CPLMD5Transform (buf ctx) (take 64 data)\<rparr>"
    have cp: "c_memcpy (inraw ctx) 0 data 64 = Some (take 64 data)"
      using True "1.prems" by (simp add: c_memcpy_front)
    have step: "MD5Update_blocks ctx data = MD5Update_blocks t (drop 64 data)"
      using True cp by (subst MD5Update_blocks.simps) (simp add: t_def)
    have "length (inraw t) = 64" using True by (simp add: t_def)
    from "1.IH" [OF True cp, folded t_def, OF this] obtain h m
      where r: "MD5Update_blocks t (drop 64 data) = Some (t\<lparr>inraw := m, buf := h\<rparr>)" "length m = 64"
        "absorb CPLMD5Transform (buf t) (drop 64 data) = (h, take (length (drop 64 data) mod 64) m)"
      by blast
    have "absorb CPLMD5Transform (buf ctx) data = (h, take (length data mod 64) m)"
      using True r(3) by (simp add: absorb_block [of data] t_def le_mod_geq)
    moreover have "MD5Update_blocks ctx data = Some (ctx\<lparr>inraw := m, buf := h\<rparr>)"
      unfolding step r(1) by (simp add: t_def)
    ultimately show ?thesis using r(2) by blast
  next
    case False
    let ?m = "data @ drop (length data) (inraw ctx)"
    have "MD5Update_blocks ctx data = Some (ctx\<lparr>inraw := ?m\<rparr>)"
      using False "1.prems" by (subst MD5Update_blocks.simps) (simp add: c_memcpy_front)
    then have "MD5Update_blocks ctx data = Some (ctx\<lparr>inraw := ?m, buf := buf ctx\<rparr>)" by simp
    moreover have "length ?m = 64" using False "1.prems" by simp
    moreover have "absorb CPLMD5Transform (buf ctx) data = (buf ctx, take (length data mod 64) ?m)"
      using False by (simp add: absorb_short)
    ultimately show ?thesis by blast
  qed
qed

lemma MD5Update_piece_result:
  assumes v: "md5_valid ctx" and len: "length data \<le> 0xffffffff"
  shows "\<exists>ctx'. MD5Update_piece ctx data = Some ctx' \<and> md5_valid ctx' \<and>
    (buf ctx', md5_pending ctx') = absorb CPLMD5Transform (buf ctx) (md5_pending ctx @ data) \<and>
    md5_bits ctx' = md5_bits ctx + of_nat (8 * length data)"
proof -
  define c where "c = md5_count ctx (length data)"
  define t where "t = md5_pos (bits0 ctx)"
  have l: "length (inraw ctx) = 64" and t: "t < 64" using v by (simp_all add: md5_valid_def t_def)
  have pend: "md5_pending ctx = take t (inraw ctx)" "length (md5_pending ctx) = t"
    using l t by (simp_all add: md5_pending_def flip: t_def)
  have c: "buf c = buf ctx" "inraw c = inraw ctx" "md5_bits c = md5_bits ctx + of_nat (8 * length data)"
    "md5_pos (bits0 c) = (length data + t) mod 64"
    by (simp_all add: c_def md5_count_bits [OF len] md5_count_pos [OF len] flip: t_def)
  have fin: ?thesis
    if "MD5Update_piece ctx data = Some (c\<lparr>inraw := m, buf := h\<rparr>)" "length m = 64"
      "absorb CPLMD5Transform (buf ctx) (md5_pending ctx @ data) = (h, take ((length data + t) mod 64) m)" for m h
    using that c(3,4) by (simp add: md5_valid_def md5_pending_def md5_bits_def)
  have piece: "MD5Update_piece ctx data =
     (if t \<noteq> 0 then
       (if length data < 64 - t then do {
          m \<leftarrow> c_memcpy (inraw c) t data (length data);
          Some (c\<lparr>inraw := m\<rparr>)
        } else do {
          m \<leftarrow> c_memcpy (inraw c) t data (64 - t);
          MD5Update_blocks (c\<lparr>inraw := m, buf := CPLMD5Transform (buf c) m\<rparr>) (drop (64 - t) data)
        })
     else MD5Update_blocks c data)"
    unfolding MD5Update_piece_def Let_def md5_pos_mask t_def c_def ..
  consider (blocks) "t = 0" | (fill) "t \<noteq> 0" "length data < 64 - t" | (block) "t \<noteq> 0" "\<not> length data < 64 - t"
    by blast
  then show ?thesis
  proof cases
    case blocks
    have "length (inraw c) = 64" using c(2) l by simp
    from MD5Update_blocks_result [OF this, of data] obtain m h
      where "MD5Update_blocks c data = Some (c\<lparr>inraw := m, buf := h\<rparr>)" "length m = 64"
        "absorb CPLMD5Transform (buf ctx) data = (h, take (length data mod 64) m)"
      unfolding c(1) by blast
    then show ?thesis using blocks piece pend by (intro fin) simp_all
  next
    case fill
    let ?m = "take t (inraw ctx) @ data @ drop (t + length data) (inraw ctx)"
    have "c_memcpy (inraw c) t data (length data) = Some ?m" using fill c(2) l by (simp add: c_memcpy_def)
    then have "MD5Update_piece ctx data = Some (c\<lparr>inraw := ?m, buf := buf ctx\<rparr>)"
      using fill piece by (simp flip: c(1))
    moreover have "length ?m = 64" using fill l by simp
    moreover have "absorb CPLMD5Transform (buf ctx) (md5_pending ctx @ data) =
        (buf ctx, take ((length data + t) mod 64) ?m)"
      using fill pend l by (simp add: absorb_short)
    ultimately show ?thesis by (rule fin)
  next
    case block
    let ?m = "take t (inraw ctx) @ take (64 - t) data" and ?d = "drop (64 - t) data"
    have m: "length ?m = 64" using block l t by simp
    have cp: "c_memcpy (inraw c) t data (64 - t) = Some ?m" using block c(2) l t by (simp add: c_memcpy_def)
    define s where "s = c\<lparr>inraw := ?m, buf := CPLMD5Transform (buf c) ?m\<rparr>"
    have "MD5Update_piece ctx data = MD5Update_blocks s ?d" using block cp piece by (simp add: s_def)
    moreover have "length (inraw s) = 64" using m by (simp add: s_def)
    from MD5Update_blocks_result [OF this, of ?d] obtain m' h
      where r: "MD5Update_blocks s ?d = Some (s\<lparr>inraw := m', buf := h\<rparr>)" "length m' = 64"
        "absorb CPLMD5Transform (buf s) ?d = (h, take (length ?d mod 64) m')"
      by blast
    ultimately have "MD5Update_piece ctx data = Some (c\<lparr>inraw := m', buf := h\<rparr>)" by (simp add: s_def)
    moreover note r(2)
    moreover have "absorb CPLMD5Transform (buf ctx) (md5_pending ctx @ data) =
        (h, take ((length data + t) mod 64) m')"
    proof -
      have "md5_pending ctx @ data = ?m @ ?d" by (simp add: pend)
      moreover have "absorb CPLMD5Transform (buf ctx) (?m @ ?d) = absorb CPLMD5Transform (buf s) ?d"
        unfolding absorb_append [of _ _ ?m ?d] absorb_one [OF m] by (simp add: s_def c(1))
      moreover have "length ?d mod 64 = (length data + t) mod 64"
      proof -
        have "length data + t = length ?d + 64" using block t by simp
        then show ?thesis by (metis mod_add_self2)
      qed
      ultimately show ?thesis using r(3) by simp
    qed
    ultimately show ?thesis by (rule fin)
  qed
qed

lemma MD5Update_result:
  "md5_valid ctx \<Longrightarrow> \<exists>ctx'. CPLMD5Update ctx data = Some ctx' \<and> md5_valid ctx' \<and>
    (buf ctx', md5_pending ctx') = absorb CPLMD5Transform (buf ctx) (md5_pending ctx @ data) \<and>
    md5_bits ctx' = md5_bits ctx + of_nat (8 * length data)"
proof (induction ctx data rule: CPLMD5Update.induct)
  case (1 ctx data)
  show ?case
  proof (cases "length data > 0xffffffff")
    case False
    then show ?thesis using MD5Update_piece_result [OF "1.prems", of data]
      by (subst CPLMD5Update.simps) simp
  next
    case True
    let ?a = "take 0xffffffff data" and ?b = "drop 0xffffffff data"
    have "length ?a \<le> 0xffffffff" by simp
    from MD5Update_piece_result [OF "1.prems" this] obtain c
      where c: "MD5Update_piece ctx ?a = Some c" "md5_valid c"
        "(buf c, md5_pending c) = absorb CPLMD5Transform (buf ctx) (md5_pending ctx @ ?a)"
        "md5_bits c = md5_bits ctx + of_nat (8 * length ?a)"
      by blast
    from "1.IH" [OF True c(1,2)] obtain ctx'
      where d: "CPLMD5Update c ?b = Some ctx'" "md5_valid ctx'"
        "(buf ctx', md5_pending ctx') = absorb CPLMD5Transform (buf c) (md5_pending c @ ?b)"
        "md5_bits ctx' = md5_bits c + of_nat (8 * length ?b)"
      by blast
    have "CPLMD5Update ctx data = Some ctx'" using True c(1) d(1) by (subst CPLMD5Update.simps) simp
    moreover have "md5_pending ctx @ data = (md5_pending ctx @ ?a) @ ?b"
      by (simp only: append_assoc append_take_drop_id)
    then have "absorb CPLMD5Transform (buf ctx) (md5_pending ctx @ data) = (buf ctx', md5_pending ctx')"
      by (simp only: absorb_append [of _ _ "md5_pending ctx @ ?a"] c(3) [symmetric] d(3) prod.case)
    moreover have len: "length data = length ?a + length ?b" using True by simp
    have "md5_bits ctx' = md5_bits ctx + of_nat (8 * length data)"
      by (subst len) (simp only: d(4) c(4) distrib_left of_nat_add add.assoc)
    ultimately show ?thesis using d(2) by (intro exI conjI) (assumption | simp only:)+
  qed
qed

interpretation md5: block_hash CPLMD5Update md5_valid buf md5_pending md5_bits CPLMD5Transform
proof unfold_locales
  show "\<And>s d. md5_valid s \<Longrightarrow> \<exists>s'. CPLMD5Update s d = Some s' \<and> md5_valid s' \<and>
      (buf s', md5_pending s') = absorb CPLMD5Transform (buf s) (md5_pending s @ d) \<and>
      md5_bits s' = md5_bits s + of_nat (8 * length d)"
    by (rule MD5Update_result)
  show "\<And>s. md5_valid s \<Longrightarrow> length (md5_pending s) < 64"
    by (simp add: md5_valid_def md5_pending_def)
qed

subsection \<open>The digest\<close>

lemma putu32_store: "putu32 w = store_le32 w"
proof -
  have "ucast (x AND 0xff) = (ucast x :: byte)" for x :: u32
    by (rule bit_word_eqI) (auto simp: bit_simps dest: less_8)
  then show ?thesis by (simp add: putu32_def store_le32_def)
qed

definition md5_bytes :: "u32 list \<Rightarrow> byte list" where
  "md5_bytes h = concat (map (\<lambda>i. store_le32 (h ! i)) [0..<4])"

lemma md5_bytes_words:
  "md5_bytes h = store_le32 (h ! 0) @ store_le32 (h ! 1) @ store_le32 (h ! 2) @ store_le32 (h ! 3)"
  by (simp add: md5_bytes_def upt_rec numeral_eq_Suc)

definition md5_spec :: "byte list \<Rightarrow> byte list" where
  "md5_spec msg = md5_bytes (md_hash CPLMD5Transform md5_start store_le64 msg)"

lemma md5_bits_bytes: "store_le32 (bits0 ctx) @ store_le32 (bits1 ctx) = store_le64 (md5_bits ctx)"
proof -
  have b: "md5_bits ctx = ucast (bits0 ctx) + push_bit 32 (ucast (bits1 ctx))"
    by (simp add: md5_bits_def push_bit_eq_mult)
  have o: "md5_bits ctx = ucast (bits0 ctx) OR push_bit 32 (ucast (bits1 ctx))"
    unfolding b by (rule disjunctive_add) (auto simp: bit_simps bit_high)
  have "ucast (md5_bits ctx) = bits0 ctx" "ucast (drop_bit 32 (md5_bits ctx)) = bits1 ctx"
    unfolding o by (rule bit_word_eqI; auto simp: bit_simps dest: bit_imp_le_length)+
  then show ?thesis by (simp only: store_le64_split)
qed

lemma MD5Final_result:
  assumes v: "md5_valid ctx" and len: "length (md5_pending ctx) = length msg mod 64"
    and c: "(buf ctx, md5_pending ctx) = absorb CPLMD5Transform md5_start msg"
    and t: "md5_bits ctx = of_nat (8 * length msg)"
  shows "\<exists>ctx'. CPLMD5Final ctx = Some (ctx', md5_spec msg) \<and> length (inraw ctx') = 64"
proof -
  let ?r = "md5_pending ctx" and ?L = "store_le64 (of_nat (8 * length msg))"
  define n where "n = md5_pos (bits0 ctx)"
  have l: "length (inraw ctx) = 64" and n: "n < 64" using v by (simp_all add: md5_valid_def n_def)
  have r: "?r = take n (inraw ctx)" "length ?r = n" "length msg mod 64 = n"
    using l n len by (simp_all add: md5_pending_def flip: n_def)
  let ?m = "?r @ 0x80 # drop (Suc n) (inraw ctx)"
  have set: "arr_set (inraw ctx) (int n) 0x80 = Some ?m"
    using l n by (simp add: mem_simps r upd_conv_take_nth_drop)
  define h where "h = md_hash CPLMD5Transform md5_start store_le64 msg"
  have h: "h = fst (absorb CPLMD5Transform (buf ctx) (?r @ md_padding store_le64 (length msg)))"
    unfolding h_def by (rule md_hash_pending [OF c])
  have last: "\<exists>ctx'. CPLMD5Final ctx = Some (ctx', md5_bytes (CPLMD5Transform h' (take 56 m' @ ?L))) \<and>
      length (inraw ctx') = 64"
    if "(if 64 - 1 - n < 8 then do {
         m \<leftarrow> c_memset ?m (n + 1) 0 (64 - 1 - n);
         let h = CPLMD5Transform (buf ctx) m;
         m \<leftarrow> c_memset m 0 0 56;
         Some (ctx\<lparr>inraw := m, buf := h\<rparr>)
       } else do {
         m \<leftarrow> c_memset ?m (n + 1) 0 (64 - 1 - n - 8);
         Some (ctx\<lparr>inraw := m\<rparr>)
       }) = Some (ctx\<lparr>inraw := m', buf := h'\<rparr>)" "length m' = 64" for m' h'
  proof -
    have cp: "c_memcpy m' 56 (store_le32 (bits0 ctx)) 4 = Some (take 56 m' @ store_le32 (bits0 ctx) @ drop 60 m')"
      using that(2) by (simp add: c_memcpy_def)
    have "c_memcpy (take 56 m' @ store_le32 (bits0 ctx) @ drop 60 m') 60 (store_le32 (bits1 ctx)) 4 =
        Some (take 56 m' @ store_le32 (bits0 ctx) @ store_le32 (bits1 ctx))"
      using that(2) by (simp add: c_memcpy_def)
    with cp show ?thesis
      unfolding CPLMD5Final_def md5_pos_mask n_def [symmetric] Let_def set bind.bind_lunit that(1) [unfolded Let_def]
      by (simp add: putu32_store md5_bits_bytes t md5_bytes_words)
  qed
  show ?thesis
  proof (cases "n < 56")
    case True
    let ?blk = "?r @ 0x80 # replicate (55 - n) 0"
    have z: "c_memset ?m (n + 1) 0 (64 - 1 - n - 8) = Some (?blk @ drop 56 (inraw ctx))"
      using True r(2) l by (simp add: c_memset_def c_memcpy_def drop_Cons')
    have pad: "?r @ md_padding store_le64 (length msg) = ?blk @ ?L"
    proof -
      have "119 - n = (55 - n) + 64" using True by simp
      then have "(119 - n) mod 64 = (55 - n) mod 64" by (metis mod_add_self2)
      then show ?thesis using True r(3) by (simp add: md_padding_def)
    qed
    have l64: "length (?blk @ ?L) = 64" using True r(2) by (simp add: store_le64_def)
    have "h = CPLMD5Transform (buf ctx) (?blk @ ?L)" unfolding h pad by (simp only: absorb_one [OF l64] fst_conv)
    moreover have "take 56 (?blk @ drop 56 (inraw ctx)) = ?blk" using True r(2) by (simp add: take_Cons')
    moreover have "\<exists>ctx'. CPLMD5Final ctx = Some (ctx', md5_bytes (CPLMD5Transform (buf ctx)
        (take 56 (?blk @ drop 56 (inraw ctx)) @ ?L))) \<and> length (inraw ctx') = 64"
    proof (rule last)
      have "\<not> 64 - 1 - n < 8" using True by linarith
      then show "(if 64 - 1 - n < 8 then do {
         m \<leftarrow> c_memset ?m (n + 1) 0 (64 - 1 - n);
         let h = CPLMD5Transform (buf ctx) m;
         m \<leftarrow> c_memset m 0 0 56;
         Some (ctx\<lparr>inraw := m, buf := h\<rparr>)
       } else do {
         m \<leftarrow> c_memset ?m (n + 1) 0 (64 - 1 - n - 8);
         Some (ctx\<lparr>inraw := m\<rparr>)
       }) = Some (ctx\<lparr>inraw := ?blk @ drop 56 (inraw ctx), buf := buf ctx\<rparr>)"
        by (simp only: if_False z bind.bind_lunit) simp
    qed (use True r(2) l in simp)
    ultimately show ?thesis by (simp only: md5_spec_def h_def append_assoc)
  next
    case False
    let ?blk = "?r @ 0x80 # replicate (63 - n) 0"
    have z: "c_memset ?m (n + 1) 0 (64 - 1 - n) = Some ?blk"
      using n r(2) l by (simp add: c_memset_def c_memcpy_def)
    have z': "c_memset ?blk 0 0 56 = Some (replicate 56 0 @ drop 56 ?blk)"
      using n r(2) by (simp add: c_memset_def c_memcpy_def)
    have pad: "?r @ md_padding store_le64 (length msg) = ?blk @ (replicate 56 0 @ ?L)"
    proof -
      have "(119 - n) mod 64 = (63 - n) + 56" using False n by simp
      then have "replicate ((119 - n) mod 64) 0 = replicate (63 - n) (0::byte) @ replicate 56 0"
        by (simp only: replicate_add)
      then show ?thesis using r(3) by (simp add: md_padding_def)
    qed
    have l64: "length ?blk = 64" "length (replicate 56 (0::byte) @ ?L) = 64"
      using n r(2) by (simp_all add: store_le64_def)
    have "h = CPLMD5Transform (CPLMD5Transform (buf ctx) ?blk) (replicate 56 0 @ ?L)"
      unfolding h pad by (simp only: absorb_two [OF l64] fst_conv)
    moreover have "take 56 (replicate 56 0 @ drop 56 ?blk) = replicate 56 (0::byte)" by simp
    moreover have "\<exists>ctx'. CPLMD5Final ctx = Some (ctx', md5_bytes (CPLMD5Transform (CPLMD5Transform (buf ctx) ?blk)
        (take 56 (replicate 56 0 @ drop 56 ?blk) @ ?L))) \<and> length (inraw ctx') = 64"
    proof (rule last)
      have "64 - 1 - n < 8" using False by linarith
      then show "(if 64 - 1 - n < 8 then do {
         m \<leftarrow> c_memset ?m (n + 1) 0 (64 - 1 - n);
         let h = CPLMD5Transform (buf ctx) m;
         m \<leftarrow> c_memset m 0 0 56;
         Some (ctx\<lparr>inraw := m, buf := h\<rparr>)
       } else do {
         m \<leftarrow> c_memset ?m (n + 1) 0 (64 - 1 - n - 8);
         Some (ctx\<lparr>inraw := m\<rparr>)
       }) = Some (ctx\<lparr>inraw := replicate 56 0 @ drop 56 ?blk, buf := CPLMD5Transform (buf ctx) ?blk\<rparr>)"
        by (simp only: if_True z z' bind.bind_lunit Let_def)
    qed (use False r(2) n in simp)
    ultimately show ?thesis by (simp only: md5_spec_def h_def)
  qed
qed

lemma md5_stream:
  assumes "length (inraw ctx) = 64"
  shows "\<exists>ctx' ctx''. update_all CPLMD5Update (CPLMD5Init ctx) ds = Some ctx' \<and>
    CPLMD5Final ctx' = Some (ctx'', md5_spec (concat ds)) \<and> length (inraw ctx'') = 64"
proof -
  have i: "md5_valid (CPLMD5Init ctx)" "md5_pending (CPLMD5Init ctx) = []"
    "md5_bits (CPLMD5Init ctx) = 0" "buf (CPLMD5Init ctx) = md5_start"
    using assms by (simp_all add: CPLMD5Init_def md5_valid_def md5_pending_def md5_bits_def md5_pos_def)
  obtain ctx' where c: "update_all CPLMD5Update (CPLMD5Init ctx) ds = Some ctx'" "md5_valid ctx'"
    "(buf ctx', md5_pending ctx') = absorb CPLMD5Transform md5_start (concat ds)"
    "md5_bits ctx' = of_nat (8 * length (concat ds))" "length (md5_pending ctx') = length (concat ds) mod 64"
    using md5.update_all_from_start [OF i(1-3), of ds] unfolding i(4) by blast
  then show ?thesis using MD5Final_result [OF c(2,5,3,4)] by blast
qed

interpretation md5d: stream_digest CPLMD5Init CPLMD5Update CPLMD5Final
    "\<lambda>ctx. length (inraw ctx) = 64" md5_spec
  by unfold_locales (rule md5_stream)

lemma CPLMD5String_result:
  "CPLMD5String pszText =
     (let hash = md5_spec (map (\<lambda>c. of_nat (ccode c)) pszText)
      in Some (concat (map (\<lambda>i. [tohex ! unat (drop_bit 4 (hash ! i) AND 0xf), tohex ! unat (hash ! i AND 0xf)]) [0..<16])))"
proof -
  obtain s' s'' where "CPLMD5Update (CPLMD5Init md5_fresh) (map (\<lambda>c. of_nat (ccode c)) pszText) = Some s'"
    "CPLMD5Final s' = Some (s'', md5_spec (map (\<lambda>c. of_nat (ccode c)) pszText))"
    using md5_stream [of md5_fresh "[map (\<lambda>c. of_nat (ccode c)) pszText]"]
    by (auto simp: md5_fresh_def split: option.splits)
  then show ?thesis by (simp add: CPLMD5String_def Let_def)
qed

text \<open>The first core function is an optimised form of the choice of RFC 1321.\<close>

lemma F1_choice: "F1 x y z = (x AND y) OR (NOT x AND z)"
  by (rule bit_word_eqI) (auto simp: F1_def bit_simps)

text \<open>C20: CPLMD5String returns, for every text, the 32 lower-case hexadecimal digits of the standard
  MD5 construction over its bytes: the message padded with a one bit, zeros and its length in bits,
  least significant byte first, compressed block by block.  The context, which keeps the length as two
  words with an explicit carry and derives the fill of its block from it, is not visible.\<close>

theorem CPLMD5String_digest:
  "CPLMD5String pszText =
     (let hash = concat (map store_le32 (map (\<lambda>i. md_hash CPLMD5Transform md5_start store_le64
                   (map (\<lambda>c. of_nat (ccode c)) pszText) ! i) [0..<4]))
      in Some (concat (map (\<lambda>b. [tohex ! (unat b div 16), tohex ! (unat b mod 16)]) hash)))"
proof -
  let ?m = "map (\<lambda>c. of_nat (ccode c)) pszText"
  have len: "length (md5_spec ?m) = 16" by (simp add: md5_spec_def md5_bytes_words)
  have hex: "unat (drop_bit 4 b AND 0xf) = unat b div 16" "unat (b AND 0xf) = unat b mod 16" for b :: byte
  proof -
    have m: "x AND 0xf = take_bit 4 x" for x :: byte by (simp add: take_bit_eq_mask mask_eq_exp_minus_1)
    have "unat b < 256" using unsigned_less [of b] by simp
    then show "unat (drop_bit 4 b AND 0xf) = unat b div 16" "unat (b AND 0xf) = unat b mod 16"
      by (simp_all only: m unsigned_take_bit_eq unsigned_drop_bit_eq)
        (simp_all add: take_bit_eq_mod drop_bit_eq_div less_mult_imp_div_less)
  qed
  have "md5_spec ?m = concat (map store_le32 (map (\<lambda>i. md_hash CPLMD5Transform md5_start store_le64 ?m ! i) [0..<4]))"
    by (simp add: md5_spec_def md5_bytes_def comp_def)
  moreover have "concat (map (\<lambda>i. [tohex ! (unat (h ! i) div 16), tohex ! (unat (h ! i) mod 16)]) [0..<length h]) =
      concat (map (\<lambda>b. [tohex ! (unat b div 16), tohex ! (unat b mod 16)]) h)" for h :: "byte list"
    by (rule arg_cong [of _ _ concat]) (rule nth_equalityI, simp_all)
  from this [of "md5_spec ?m"]
  have "concat (map (\<lambda>i. [tohex ! (unat (md5_spec ?m ! i) div 16), tohex ! (unat (md5_spec ?m ! i) mod 16)]) [0..<16]) =
      concat (map (\<lambda>b. [tohex ! (unat b div 16), tohex ! (unat b mod 16)]) (md5_spec ?m))"
    unfolding len .
  ultimately show ?thesis unfolding CPLMD5String_result Let_def hex(1) unfolding hex(2) by simp
qed

end
