(* ===== verification/TimeConv.thy ===== *)
theory TimeConv
  imports Tokenize "HOL-Library.Signed_Division"
begin

section \<open>Calendar time (port/cpl_time.cpp)\<close>

text \<open>
  Conversion between seconds since 1970 and broken-down UTC time, and the parser of RFC 822 dates.
  Division and remainder are those of C, which truncate towards zero (\<open>sdiv\<close>, \<open>smod\<close>); a value of
  type \<open>int\<close> that overflows is \<open>None\<close>.
\<close>

record tm =
  tm_sec :: int
  tm_min :: int
  tm_hour :: int
  tm_mday :: int
  tm_mon :: int
  tm_year :: int
  tm_wday :: int
  tm_yday :: int
  tm_isdst :: int

definition tm_zero :: tm where
  "tm_zero = \<lparr>tm_sec = 0, tm_min = 0, tm_hour = 0, tm_mday = 0, tm_mon = 0, tm_year = 0,
     tm_wday = 0, tm_yday = 0, tm_isdst = 0\<rparr>"

definition SECSPERMIN :: int where "SECSPERMIN = 60"
definition SECSPERHOUR :: int where "SECSPERHOUR = 3600"
definition SECSPERDAY :: int where "SECSPERDAY = 86400"
definition DAYSPERWEEK :: int where "DAYSPERWEEK = 7"
definition EPOCH_YEAR :: int where "EPOCH_YEAR = 1970"
definition EPOCH_WDAY :: int where "EPOCH_WDAY = 4"
definition TM_YEAR_BASE :: int where "TM_YEAR_BASE = 1900"
definition DAYSPERNYEAR :: int where "DAYSPERNYEAR = 365"
definition DAYSPERLYEAR :: int where "DAYSPERLYEAR = 366"
definition TEN_THOUSAND_YEARS :: int where
  "TEN_THOUSAND_YEARS = 10000 * SECSPERDAY * DAYSPERLYEAR"

lemmas time_consts = SECSPERMIN_def SECSPERHOUR_def SECSPERDAY_def DAYSPERWEEK_def EPOCH_YEAR_def
  EPOCH_WDAY_def TM_YEAR_BASE_def DAYSPERNYEAR_def DAYSPERLYEAR_def TEN_THOUSAND_YEARS_def

definition isleap :: "int \<Rightarrow> bool" where
  "isleap y \<longleftrightarrow> (y smod 4 = 0 \<and> y smod 100 \<noteq> 0) \<or> y smod 400 = 0"

definition LEAPS_THROUGH_END_OF :: "int \<Rightarrow> int" where
  "LEAPS_THROUGH_END_OF y = y sdiv 4 - y sdiv 100 + y sdiv 400"

definition mon_lengths :: "bool \<Rightarrow> int list" where
  "mon_lengths leap =
     (if leap then [31, 29, 31, 30, 31, 30, 31, 31, 30, 31, 30, 31]
      else [31, 28, 31, 30, 31, 30, 31, 31, 30, 31, 30, 31])"

definition year_lengths :: "bool \<Rightarrow> int" where
  "year_lengths leap = (if leap then DAYSPERLYEAR else DAYSPERNYEAR)"

subsection \<open>From seconds to a date\<close>

text \<open>\<open>while (rem < 0)\<close>: one day is borrowed at a time.\<close>

function borrow_days :: "int \<Rightarrow> int \<Rightarrow> int \<times> int" where
  "borrow_days days rem =
     (if rem < 0 then borrow_days (days - 1) (rem + SECSPERDAY) else (days, rem))"
  by pat_completeness auto
termination by (relation "measure (\<lambda>(d, r). nat (- r))") (auto simp: SECSPERDAY_def)

declare borrow_days.simps [simp del]

text \<open>The search for the year; \<open>yleap\<close> is set when the condition is evaluated up to its end.\<close>

function year_loop :: "nat \<Rightarrow> int \<Rightarrow> int \<Rightarrow> bool \<Rightarrow> (nat \<times> int \<times> int \<times> bool) option" where
  "year_loop iters y days yleap =
     (if iters < 1000 then
        (let yleap = (if days < 0 then yleap else isleap y)
         in if days < 0 \<or> days \<ge> year_lengths yleap then
              (case c_int (y + days sdiv DAYSPERNYEAR - (if days < 0 then 1 else 0)) of
                 None \<Rightarrow> None
               | Some newy \<Rightarrow>
                   year_loop (iters + 1) newy
                     (days - ((newy - y) * DAYSPERNYEAR + LEAPS_THROUGH_END_OF (newy - 1) -
                              LEAPS_THROUGH_END_OF (y - 1))) yleap)
            else Some (iters, y, days, yleap))
      else Some (iters, y, days, yleap))"
  by pat_completeness auto
termination by (relation "measure (\<lambda>(i, y, d, l). 1000 - i)") auto

declare year_loop.simps [simp del]

text \<open>The search for the month; \<open>None\<close> outside the table of month lengths.\<close>

function month_loop :: "int list \<Rightarrow> int \<Rightarrow> int \<Rightarrow> (int \<times> int) option" where
  "month_loop ip mon days =
     (case arr_get ip mon of
        None \<Rightarrow> None
      | Some n \<Rightarrow> if days \<ge> n then month_loop ip (mon + 1) (days - n) else Some (mon, days))"
  by pat_completeness auto
termination
  by (relation "measure (\<lambda>(ip, m, d). nat (int (length ip) - m))") (auto simp: arr_get_def split: if_splits)

declare month_loop.simps [simp del]

text \<open>The flag of the result tells whether an error was raised.\<close>

definition CPLUnixTimeToYMDHMS :: "int \<Rightarrow> (tm \<times> bool) option" where
  "CPLUnixTimeToYMDHMS unixTime =
     (let days = unixTime sdiv SECSPERDAY;
          rem = unixTime smod SECSPERDAY
      in if unixTime < - TEN_THOUSAND_YEARS \<or> unixTime > TEN_THOUSAND_YEARS then Some (tm_zero, True)
         else do {
           let (days, rem) = borrow_days days rem;
           let hour = rem sdiv SECSPERHOUR;
           let rem = rem smod SECSPERHOUR;
           let min = rem sdiv SECSPERMIN;
           let sec = rem smod SECSPERMIN;
           let wday = (EPOCH_WDAY + days) smod DAYSPERWEEK;
           let wday = (if wday < 0 then wday + DAYSPERWEEK else wday);
           (iters, y, days, yleap) \<leftarrow> year_loop 0 EPOCH_YEAR days False;
           if iters = 1000 then Some (tm_zero, True)
           else do {
             let yday = days;
             (mon, days) \<leftarrow> month_loop (mon_lengths yleap) 0 days;
             Some (\<lparr>tm_sec = sec, tm_min = min, tm_hour = hour, tm_mday = days + 1, tm_mon = mon,
                    tm_year = y - TM_YEAR_BASE, tm_wday = wday, tm_yday = yday, tm_isdst = 0\<rparr>, False)
           }
         })"

subsection \<open>From a date to seconds\<close>

text \<open>The days of the months before \<open>tm_mon\<close>.\<close>

function add_months :: "int list \<Rightarrow> int \<Rightarrow> int \<Rightarrow> int \<Rightarrow> int option" where
  "add_months ip mon lim days =
     (if mon < lim then
        (case arr_get ip mon of None \<Rightarrow> None | Some n \<Rightarrow> add_months ip (mon + 1) lim (days + n))
      else Some days)"
  by pat_completeness auto
termination by (relation "measure (\<lambda>(ip, m, t, d). nat (t - m))") auto

declare add_months.simps [simp del]

definition CPLYMDHMSToUnixTime :: "tm \<Rightarrow> int option" where
  "CPLYMDHMSToUnixTime t =
     (if tm_mon t < 0 \<or> tm_mon t \<ge> 12 then Some (- 1)
      else do {
        days \<leftarrow> c_int (tm_mday t - 1);
        year \<leftarrow> c_int (TM_YEAR_BASE + tm_year t);
        days \<leftarrow> add_months (mon_lengths (isleap year)) 0 (tm_mon t) days;
        last \<leftarrow> c_int (TM_YEAR_BASE + tm_year t - 1);
        let days = days + (TM_YEAR_BASE + tm_year t - EPOCH_YEAR) * DAYSPERNYEAR +
                   LEAPS_THROUGH_END_OF last - LEAPS_THROUGH_END_OF (EPOCH_YEAR - 1);
        m \<leftarrow> c_int (tm_min t * SECSPERMIN);
        s \<leftarrow> c_int (tm_sec t + m);
        h \<leftarrow> c_int (tm_hour t * SECSPERHOUR);
        s \<leftarrow> c_int (s + h);
        Some (s + days * SECSPERDAY)
      })"

subsection \<open>Leap years\<close>

definition leap_year :: "int \<Rightarrow> bool" where
  "leap_year y \<longleftrightarrow> 4 dvd y \<and> (\<not> 100 dvd y \<or> 400 dvd y)"

definition leaps :: "int \<Rightarrow> int" where
  "leaps y = y div 4 - y div 100 + y div 400"

lemma sdiv_div: "0 \<le> a \<Longrightarrow> 0 < b \<Longrightarrow> a sdiv b = a div (b::int)"
  by (simp add: signed_divide_int_def zsgn_def)

lemma smod_mod: "0 \<le> a \<Longrightarrow> 0 < b \<Longrightarrow> a smod b = a mod (b::int)"
  by (cases "a = 0") (simp_all add: signed_modulo_int_def sdiv_div minus_div_mult_eq_mod)

lemma sdiv_neg: "a < 0 \<Longrightarrow> 0 < b \<Longrightarrow> a sdiv b = - ((- a) div (b::int))"
  by (simp add: signed_divide_int_def zsgn_def)

lemma dvd_years: "(400::int) dvd y \<Longrightarrow> 100 dvd y" "(100::int) dvd y \<Longrightarrow> 4 dvd y"
  by (rule dvd_trans [of _ 400], simp_all) (rule dvd_trans [of _ 100], simp_all)

lemma isleap_eq: "0 \<le> y \<Longrightarrow> isleap y = leap_year y"
  using dvd_years [of y] by (simp add: isleap_def leap_year_def smod_mod mod_eq_0_iff_dvd) blast

lemma LEAPS_eq: "0 \<le> y \<Longrightarrow> LEAPS_THROUGH_END_OF y = leaps y"
  by (simp add: LEAPS_THROUGH_END_OF_def leaps_def sdiv_div)

lemma div_step:
  assumes "0 < (k::int)"
  shows "y div k = (y - 1) div k + (if k dvd y then 1 else 0)"
proof -
  let ?q = "(y - 1) div k" and ?r = "(y - 1) mod k"
  have y: "y = k * ?q + (?r + 1)" using mult_div_mod_eq [of k "y - 1"] by linarith
  have r: "0 \<le> ?r" "?r < k" using assms by simp_all
  show ?thesis
  proof (cases "?r + 1 = k")
    case True
    then have "y = k * (?q + 1)" using y by (simp add: distrib_left)
    then show ?thesis using assms by (metis dvd_triv_left nonzero_mult_div_cancel_left order_less_irrefl)
  next
    case False
    then have "y div k = ?q" "y mod k = ?r + 1"
      using int_div_pos_eq [OF y] int_mod_pos_eq [OF y] r by simp_all
    then show ?thesis using r by (simp add: dvd_eq_mod_eq_0)
  qed
qed

lemma leaps_step: "leaps y = leaps (y - 1) + (if leap_year y then 1 else 0)"
  unfolding leaps_def leap_year_def div_step [of 4 y, simplified] div_step [of 100 y, simplified]
    div_step [of 400 y, simplified]
  using dvd_years [of y] by (cases "4 dvd y"; cases "100 dvd y"; cases "400 dvd y"; simp)

text \<open>Between two years there are at most as many leap years as multiples of four.\<close>

lemma leaps_between:
  assumes "a \<le> b"
  shows "0 \<le> leaps b - leaps a" "leaps b - leaps a \<le> b div 4 - a div 4"
proof -
  have "0 \<le> leaps b - leaps a \<and> leaps b - leaps a \<le> b div 4 - a div 4"
    using assms
  proof (induction b rule: int_ge_induct)
    case (step i)
    then show ?case
      using leaps_step [of "i + 1"] div_step [of 4 "i + 1"] by (auto simp: leap_year_def)
  qed simp
  then show "0 \<le> leaps b - leaps a" "leaps b - leaps a \<le> b div 4 - a div 4" by simp_all
qed

text \<open>The first day of a year as the program counts it, from 1970, and as the calendar does, from the
  year one: the years before are added up.\<close>

definition year_len :: "int \<Rightarrow> int" where
  "year_len y = (if leap_year y then 366 else 365)"

definition year_days :: "int \<Rightarrow> int" where
  "year_days y = sum_list (map year_len [1..y - 1])"

lemma year_days_leaps: "1 \<le> y \<Longrightarrow> year_days y = 365 * (y - 1) + leaps (y - 1)"
proof (induction y rule: int_ge_induct)
  case base
  then show ?case by (simp add: year_days_def leaps_def)
next
  case (step y)
  then have "year_days (y + 1) = year_days y + year_len y"
    by (simp add: year_days_def upto_rec2)
  then show ?case using step leaps_step [of y] by (simp add: year_len_def)
qed

subsection \<open>The search for the year ends\<close>

text \<open>The search from a year with the given day ends, after at most \<open>n\<close> more rounds, at the year
  that contains the day number \<open>e\<close> (from the first day of the year one).\<close>

definition finds :: "nat \<Rightarrow> nat \<Rightarrow> int \<Rightarrow> int \<Rightarrow> bool \<Rightarrow> int \<Rightarrow> bool" where
  "finds n i y days l e \<longleftrightarrow>
     (\<exists>i' y' d'. year_loop i y days l = Some (i', y', d', leap_year y') \<and> i' \<le> i + n \<and>
        1 \<le> y' \<and> y' \<le> 20000 \<and> 0 \<le> d' \<and> d' < year_len y' \<and> year_days y' + d' = e)"

lemma finds_mono: "finds n i y days l e \<Longrightarrow> n \<le> m \<Longrightarrow> finds m i y days l e"
  unfolding finds_def using order_trans by fastforce

lemma year_len_bounds: "365 \<le> year_len y" "year_len y \<le> 366"
  by (simp_all add: year_len_def)

lemma year_lengths_eq: "0 \<le> y \<Longrightarrow> year_lengths (isleap y) = year_len y"
  by (simp add: year_lengths_def year_len_def isleap_eq time_consts)

lemma finds_done:
  assumes "i < 1000" "1 \<le> y" "y \<le> 20000" "0 \<le> days" "days < year_len y"
  shows "finds 0 i y days l (year_days y + days)"
proof -
  have "year_loop i y days l = Some (i, y, days, isleap y)"
    using assms by (subst year_loop.simps) (simp add: year_lengths_eq)
  then show ?thesis using assms by (simp add: finds_def isleap_eq)
qed

lemma finds_step:
  assumes "i < 1000" "days < 0 \<or> year_lengths (isleap y) \<le> days"
    and c: "c = y + days sdiv 365 - (if days < 0 then 1 else 0)" "- 10000 \<le> c" "c \<le> 20000"
    and "finds n (i + 1) c (days - ((c - y) * 365 + LEAPS_THROUGH_END_OF (c - 1) -
           LEAPS_THROUGH_END_OF (y - 1))) (if days < 0 then l else isleap y) e"
  shows "finds (n + 1) i y days l e"
proof -
  have ci: "c_int (y + days sdiv 365 - (if days < 0 then 1 else 0)) = Some c"
    unfolding c(1) [symmetric] using c(2,3) by (simp add: c_int_def)
  have cond: "days < 0 \<or> year_lengths (if days < 0 then l else isleap y) \<le> days" using assms(2) by auto
  have "year_loop i y days l = year_loop (i + 1) c (days - ((c - y) * 365 + LEAPS_THROUGH_END_OF (c - 1) -
      LEAPS_THROUGH_END_OF (y - 1))) (if days < 0 then l else isleap y)"
    using assms(1) cond by (subst year_loop.simps) (simp only: Let_def if_True ci option.case DAYSPERNYEAR_def)
  then show ?thesis using assms(6) by (auto simp: finds_def)
qed

text \<open>Between years of the calendar the jump keeps the day number.\<close>

lemma jump:
  assumes "1 \<le> y" "1 \<le> c"
  shows "days - ((c - y) * 365 + LEAPS_THROUGH_END_OF (c - 1) - LEAPS_THROUGH_END_OF (y - 1)) =
    days + year_days y - year_days c"
  using assms by (simp add: LEAPS_eq year_days_leaps algebra_simps)

lemma finds_next:
  assumes "i < 999" "1 \<le> y" "y < 20000" "year_len y \<le> days" "days \<le> 367"
  shows "finds 1 i y days l (year_days y + days)"
proof -
  have yl: "year_days (y + 1) = year_days y + year_len y"
    using assms(2) leaps_step [of y] by (simp add: year_days_leaps year_len_def)
  have "days sdiv 365 = 1" using assms(4,5) year_len_bounds [of y] by (simp add: sdiv_div div_pos_geq)
  moreover have "finds 0 (i + 1) (y + 1) (days + year_days y - year_days (y + 1)) (isleap y) (year_days y + days)"
    using finds_done [of "i + 1" "y + 1" "days - year_len y" "isleap y"] assms year_len_bounds [of y]
      year_len_bounds [of "y + 1"] by (simp add: yl)
  ultimately have "finds (0 + 1) i y days l (year_days y + days)"
    using assms year_len_bounds [of y]
    by (intro finds_step [where c = "y + 1"]) (simp_all only: jump, simp_all add: year_lengths_eq)
  then show ?thesis by simp
qed

lemma finds_short:
  assumes "i < 999" "1 \<le> y" "y < 20000" "0 \<le> days" "days \<le> 367"
  shows "finds 1 i y days l (year_days y + days)"
  using finds_next [OF assms(1-3) _ assms(5)] finds_mono [OF finds_done, of i y days 1] assms
  by (cases "days < year_len y") simp_all

text \<open>Quotients as fresh variables, for linear arithmetic.\<close>

lemma quotE:
  fixes n b :: int
  assumes "0 < b"
  obtains q where "n div b = q" "b * q \<le> n" "n < b * q + b"
proof
  show "b * (n div b) \<le> n" "n < b * (n div b) + b"
    using mult_div_mod_eq [of b n] pos_mod_bound [OF assms, of n] pos_mod_sign [OF assms, of n] by linarith+
qed simp

lemma finds_back:
  assumes "i < 998" "y \<le> 20000" "days < 0" "- 2554 \<le> days" "1 \<le> y - ((- days) div 365 + 1)"
  shows "finds 2 i y days l (year_days y + days)"
proof -
  define k where "k = (- days) div 365 + 1"
  obtain q where "(- days) div 365 = q" "365 * q \<le> - days" "- days < 365 * q + 365"
    by (rule quotE [of 365 "- days"]) simp_all
  then have k: "1 \<le> k" "k \<le> 7" "- days < 365 * k" "365 * k \<le> - days + 365"
    using assms(3,4) by (simp_all add: k_def)
  let ?c = "y - k"
  have y: "1 \<le> ?c" using assms(5) by (simp add: k_def)
  have yd: "year_days y - year_days ?c = 365 * k + (leaps (y - 1) - leaps (?c - 1))"
    using y k by (simp add: year_days_leaps algebra_simps)
  have b: "0 \<le> leaps (y - 1) - leaps (?c - 1)" "leaps (y - 1) - leaps (?c - 1) \<le> 2"
  proof -
    obtain p q where "(y - 1) div 4 = p" "4 * p \<le> y - 1" "(?c - 1) div 4 = q" "?c - 1 < 4 * q + 4"
      by (rule quotE [of 4 "y - 1"]; rule quotE [of 4 "?c - 1"]) simp_all
    then have "(y - 1) div 4 - (?c - 1) div 4 \<le> 2" using k(1,2) by simp
    then show "0 \<le> leaps (y - 1) - leaps (?c - 1)" "leaps (y - 1) - leaps (?c - 1) \<le> 2"
      using leaps_between [of "?c - 1" "y - 1"] k by simp_all
  qed
  have "finds 1 (i + 1) ?c (days + year_days y - year_days ?c) l (year_days ?c + (days + year_days y - year_days ?c))"
    by (rule finds_short) (use assms y k yd b in linarith)+
  then have "finds 1 (i + 1) ?c (days + year_days y - year_days ?c) l (year_days y + days)"
    by (simp add: add.commute)
  then have "finds (1 + 1) i y days l (year_days y + days)"
    using assms y k
    by (intro finds_step [where c = ?c]) (simp_all only: jump, simp_all add: sdiv_neg k_def)
  then show ?thesis by (simp add: numeral_2_eq_2)
qed

text \<open>From any day of the calendar on.\<close>

lemma finds_ahead:
  assumes "i < 990" "1 \<le> y" "y \<le> 2000" "0 \<le> days" "days < 3662000"
  shows "finds 3 i y days l (year_days y + days)"
proof (cases "days < year_len y")
  case True
  then show ?thesis using finds_done [of i y days l] assms finds_mono [of 0 i y days l _ 3] by simp
next
  case False
  define k where "k = days div 365"
  have k: "1 \<le> k" "k \<le> 10032" "365 * k \<le> days" "days < 365 * k + 365"
  proof -
    obtain q where "days div 365 = q" "365 * q \<le> days" "days < 365 * q + 365"
      by (rule quotE [of 365 days]) simp_all
    then show "1 \<le> k" "k \<le> 10032" "365 * k \<le> days" "days < 365 * k + 365"
      using False assms(5) year_len_bounds [of y] by (simp_all add: k_def)
  qed
  let ?c = "y + k"
  define d' where "d' = days + year_days y - year_days ?c"
  have d': "d' = days - 365 * k - (leaps (?c - 1) - leaps (y - 1))"
    using assms(2) k by (simp add: d'_def year_days_leaps algebra_simps)
  obtain r where r: "k div 4 = r" "4 * r \<le> k" "k < 4 * r + 4" by (rule quotE [of 4 k]) simp_all
  have "(?c - 1) div 4 - (y - 1) div 4 \<le> k div 4 + 1"
  proof -
    obtain p q where "(?c - 1) div 4 = p" "4 * p \<le> ?c - 1" "(y - 1) div 4 = q" "y - 1 < 4 * q + 4"
      by (rule quotE [of 4 "?c - 1"]; rule quotE [of 4 "y - 1"]) simp_all
    then show ?thesis using r by simp
  qed
  then have b: "0 \<le> leaps (?c - 1) - leaps (y - 1)" "leaps (?c - 1) - leaps (y - 1) \<le> k div 4 + 1"
    using leaps_between [of "y - 1" "?c - 1"] k by simp_all
  have k4: "4 * (k div 4) \<le> k" using r by simp
  have lo: "- 2554 \<le> d'" "d' \<le> 364" using d' b k k4 by linarith+
  have e: "year_days ?c + d' = year_days y + days" by (simp add: d'_def)
  have "finds 2 (i + 1) ?c d' (isleap y) (year_days ?c + d')"
  proof (cases "d' < 0")
    case True
    obtain q where "(- d') div 365 = q" "365 * q \<le> - d'" by (rule quotE [of 365 "- d'"]) simp_all
    then have "1 \<le> ?c - ((- d') div 365 + 1)" using d' b k k4 assms(2) by linarith
    then show ?thesis using True lo assms k by (intro finds_back) simp_all
  next
    case False
    then show ?thesis
      using lo assms k finds_short [of "i + 1" ?c d' "isleap y"] finds_mono [of 1 _ _ _ _ _ 2] by simp
  qed
  then have "finds (2 + 1) i y days l (year_days y + days)"
    unfolding e unfolding d'_def using assms False k year_len_bounds [of y]
    by (intro finds_step [where c = ?c])
      (simp_all only: jump, simp_all add: sdiv_div k_def year_lengths_eq)
  then show ?thesis by simp
qed

text \<open>From 1970 back to the first day of the year one.  The first jump may land in the two years
  before it, which the program takes for common years.\<close>

lemma finds_before:
  assumes "i < 980" "days < 0" "- 719162 \<le> days"
  shows "finds 5 i 1970 days l (year_days 1970 + days)"
proof -
  define k where "k = (- days) div 365 + 1"
  obtain q where "(- days) div 365 = q" "365 * q \<le> - days" "- days < 365 * q + 365"
    by (rule quotE [of 365 "- days"]) simp_all
  then have k: "1 \<le> k" "k \<le> 1971" "- days < 365 * k" "365 * k \<le> - days + 365"
    using assms(2,3) by (simp_all add: k_def)
  have yd: "year_days 1970 = 365 * 1969 + leaps 1969" and l1969: "leaps 1969 = 477"
    by (simp_all add: year_days_leaps leaps_def)
  let ?c = "1970 - k"
  have step: ?thesis if "finds 4 (i + 1) ?c (days - ((?c - 1970) * 365 + LEAPS_THROUGH_END_OF (?c - 1) -
      LEAPS_THROUGH_END_OF 1969)) l (year_days 1970 + days)"
  proof -
    have "finds (4 + 1) i 1970 days l (year_days 1970 + days)"
      using that assms k by (intro finds_step [where c = ?c]) (simp_all add: sdiv_neg k_def)
    then show ?thesis by simp
  qed
  consider (calendar) "1 \<le> ?c" | (zero) "k = 1970" | (minus) "k = 1971" using k(2) by linarith
  then show ?thesis
  proof cases
    case calendar
    define d' where "d' = days + year_days 1970 - year_days ?c"
    have d': "d' = days + 365 * k + (leaps 1969 - leaps (?c - 1))"
      using calendar by (simp add: d'_def year_days_leaps algebra_simps)
    have "0 \<le> leaps (?c - 1)" using leaps_between(1) [of 0 "?c - 1"] calendar by (simp add: leaps_def)
    moreover have "0 \<le> leaps 1969 - leaps (?c - 1)" using leaps_between(1) [of "?c - 1" 1969] k(1) by simp
    ultimately have "0 \<le> d'" "d' \<le> 842" using d' k l1969 by linarith+
    then have "finds 3 (i + 1) ?c d' l (year_days ?c + d')"
      using calendar k assms(1) by (intro finds_ahead) simp_all
    then have "finds 3 (i + 1) ?c d' l (year_days 1970 + days)"
      by (simp add: d'_def add.commute)
    from finds_mono [OF this, of 4] have f: "finds 4 (i + 1) ?c d' l (year_days 1970 + days)" by simp
    have j: "days - ((?c - 1970) * 365 + LEAPS_THROUGH_END_OF (?c - 1) - LEAPS_THROUGH_END_OF 1969) = d'"
      using jump [of 1970 ?c days] calendar unfolding d'_def by simp
    show ?thesis by (rule step) (simp only: j f)
  next
    case zero
    then have r: "- 719049 \<le> days" "days \<le> - 718685" using k by linarith+
    have L: "LEAPS_THROUGH_END_OF (- 1) = 0" "LEAPS_THROUGH_END_OF 0 = 0" "LEAPS_THROUGH_END_OF 1 = 0"
      "LEAPS_THROUGH_END_OF 1969 = 477" "isleap 0"
      by (simp_all add: LEAPS_THROUGH_END_OF_def isleap_def signed_divide_int_def signed_modulo_int_def)
    define k' where "k' = (days + 719527) div 365"
    have k': "k' = 1 \<or> k' = 2" "365 * k' \<le> days + 719527" "days + 719527 < 365 * k' + 365"
    proof -
      obtain q where "(days + 719527) div 365 = q" "365 * q \<le> days + 719527" "days + 719527 < 365 * q + 365"
        by (rule quotE [of 365 "days + 719527"]) simp_all
      then show "k' = 1 \<or> k' = 2" "365 * k' \<le> days + 719527" "days + 719527 < 365 * k' + 365"
        using r by (auto simp: k'_def)
    qed
    have sd: "(days + 719527) sdiv 365 = k'" using r by (simp add: sdiv_div k'_def)
    have yl: "year_lengths (isleap 0) = 366" using L by (simp add: year_lengths_def time_consts)
    have yk: "year_days k' = 365 * (k' - 1)" "LEAPS_THROUGH_END_OF (k' - 1) = 0"
      using k'(1) L by (auto simp: year_days_leaps leaps_def)
    have "finds 3 (i + 1 + 1) k' (days + 719527 - 365 * k') (isleap 0)
        (year_days k' + (days + 719527 - 365 * k'))"
      using k' assms(1) by (intro finds_ahead) auto
    then have "finds 3 (i + 1 + 1) k' (days + 719527 - 365 * k') (isleap 0) (year_days 1970 + days)"
      using yk by (simp add: yd l1969 algebra_simps)
    then have "finds (3 + 1) (i + 1) 0 (days + 719527) l (year_days 1970 + days)"
      using r k'(1) assms(1) yk L sd yl
      by (intro finds_step [where c = k']) (simp_all add: algebra_simps, linarith+)
    then show ?thesis using zero L by (intro step) simp
  next
    case minus
    then have r: "- 719162 \<le> days" "days \<le> - 719050" using k assms(3) by linarith+
    have L: "LEAPS_THROUGH_END_OF (- 2) = 0" "LEAPS_THROUGH_END_OF 0 = 0"
      "LEAPS_THROUGH_END_OF 1969 = 477" "\<not> isleap (- 1)"
      by (simp_all add: LEAPS_THROUGH_END_OF_def isleap_def signed_divide_int_def signed_modulo_int_def)
    have d2: "(days + 719892) sdiv 365 = 2" using r by (simp add: sdiv_div)
    have y1: "year_days 1 = 0" by (simp add: year_days_def)
    have "finds 3 (i + 1 + 1) 1 (days + 719162) False (year_days 1 + (days + 719162))"
      using r assms(1) by (intro finds_ahead) auto
    then have "finds 3 (i + 1 + 1) 1 (days + 719162) False (year_days 1970 + days)"
      by (simp add: yd l1969 y1 algebra_simps)
    then have "finds (3 + 1) (i + 1) (- 1) (days + 719892) l (year_days 1970 + days)"
      using r assms(1) L
      by (intro finds_step [where c = 1]) (auto simp: d2 year_lengths_def time_consts algebra_simps)
    then show ?thesis using minus L by (intro step) simp
  qed
qed

subsection \<open>Days, months and hours\<close>

lemma smod_neg: "a < 0 \<Longrightarrow> 0 < b \<Longrightarrow> a smod b = - ((- a) mod (b::int))"
  by (simp add: signed_modulo_int_def sdiv_neg minus_div_mult_eq_mod [symmetric])

lemma smod_adjust: "0 < b \<Longrightarrow> (if a smod b < 0 then a smod b + b else a smod b) = a mod (b::int)"
  by (cases "a < 0") (simp_all add: smod_neg smod_mod zmod_zminus1_eq_if linorder_not_le leD)

lemma borrow_none: "0 \<le> r \<Longrightarrow> borrow_days d r = (d, r)"
  by (subst borrow_days.simps) simp

lemma borrow_one: "r < 0 \<Longrightarrow> - 86400 \<le> r \<Longrightarrow> borrow_days d r = (d - 1, r + 86400)"
  by (subst borrow_days.simps) (simp add: SECSPERDAY_def borrow_none)

lemma borrow_days_eq: "borrow_days (t sdiv SECSPERDAY) (t smod SECSPERDAY) = (t div 86400, t mod 86400)"
proof (cases "0 \<le> t")
  case True
  then show ?thesis by (simp add: sdiv_div smod_mod SECSPERDAY_def borrow_none)
next
  case False
  define q r where "q = (- t) div 86400" and "r = (- t) mod 86400"
  have t: "t = - (86400 * q + r)" and r: "0 \<le> r" "r < 86400" by (simp_all add: q_def r_def)
  have s: "t sdiv SECSPERDAY = - q" "t smod SECSPERDAY = - r"
    using False by (simp_all add: sdiv_neg smod_neg SECSPERDAY_def q_def r_def)
  show ?thesis
  proof (cases "r = 0")
    case True
    then have "t div 86400 = - q" "t mod 86400 = 0" using t by simp_all
    then show ?thesis unfolding s True by (simp add: borrow_none)
  next
    case False
    then have "t = 86400 * (- q - 1) + (86400 - r)" "0 \<le> 86400 - r" "86400 - r < 86400" using t r by simp_all
    then have "t div 86400 = - q - 1" "t mod 86400 = 86400 - r"
      using int_div_pos_eq int_mod_pos_eq by blast+
    then show ?thesis unfolding s using False r by (simp add: borrow_one)
  qed
qed

lemma month_loop_result:
  "0 \<le> mon \<Longrightarrow> mon < int (length ip) \<Longrightarrow> \<forall>n\<in>set ip. 0 < n \<Longrightarrow> 0 \<le> days \<Longrightarrow> days < sum_list (drop (nat mon) ip) \<Longrightarrow>
   \<exists>m d. month_loop ip mon days = Some (m, d) \<and> mon \<le> m \<and> m < int (length ip) \<and> 0 \<le> d \<and> d < ip ! nat m \<and>
     sum_list (take (nat m) ip) + d = sum_list (take (nat mon) ip) + days"
proof (induction ip mon days rule: month_loop.induct)
  case (1 ip mon days)
  have get: "arr_get ip mon = Some (ip ! nat mon)" using 1(2,3) by (simp add: mem_simps)
  have dr: "drop (nat mon) ip = ip ! nat mon # drop (nat (mon + 1)) ip"
    using 1(2,3) by (simp add: Cons_nth_drop_Suc nat_add_distrib)
  have tk: "sum_list (take (nat (mon + 1)) ip) = sum_list (take (nat mon) ip) + ip ! nat mon"
    using 1(2,3) by (simp add: nat_add_distrib take_Suc_conv_app_nth)
  show ?case
  proof (cases "ip ! nat mon \<le> days")
    case False
    then show ?thesis using 1 get by (subst month_loop.simps) simp
  next
    case True
    have more: "mon + 1 < int (length ip)"
    proof (rule ccontr)
      assume "\<not> mon + 1 < int (length ip)"
      then have "drop (nat (mon + 1)) ip = []" by simp
      then show False using True 1(6) dr by simp
    qed
    from 1(1) [OF get True _ more 1(4)] 1(2,6) True dr obtain m d
      where "month_loop ip (mon + 1) (days - ip ! nat mon) = Some (m, d)" "mon + 1 \<le> m" "m < int (length ip)"
        "0 \<le> d" "d < ip ! nat m"
        "sum_list (take (nat m) ip) + d = sum_list (take (nat (mon + 1)) ip) + (days - ip ! nat mon)"
      by auto
    then show ?thesis using get True tk by (subst month_loop.simps) simp
  qed
qed

lemma add_months_result:
  "0 \<le> mon \<Longrightarrow> mon \<le> lim \<Longrightarrow> lim \<le> int (length ip) \<Longrightarrow>
   add_months ip mon lim days = Some (days + sum_list (take (nat lim) ip) - sum_list (take (nat mon) ip))"
proof (induction ip mon lim days rule: add_months.induct)
  case (1 ip mon lim days)
  show ?case
  proof (cases "mon < lim")
    case True
    then have get: "arr_get ip mon = Some (ip ! nat mon)" using 1(2,4) by (simp add: mem_simps)
    have tk: "sum_list (take (nat (mon + 1)) ip) = sum_list (take (nat mon) ip) + ip ! nat mon"
      using 1(2,4) True by (simp add: nat_add_distrib take_Suc_conv_app_nth)
    show ?thesis
      using True get 1(1) [OF True get] 1(2,4) tk by (subst add_months.simps) simp
  next
    case False
    then show ?thesis using 1(3) by (subst add_months.simps) simp
  qed
qed

subsection \<open>The calendar\<close>

text \<open>The day of the year, the day since the first of January of the year one, and the seconds since
  the first of January 1970, of a date; a valid date of the calendar, with its derived fields.\<close>

definition civil_year :: "tm \<Rightarrow> int" where
  "civil_year t = 1900 + tm_year t"

definition civil_yday :: "tm \<Rightarrow> int" where
  "civil_yday t = sum_list (take (nat (tm_mon t)) (mon_lengths (leap_year (civil_year t)))) + tm_mday t - 1"

definition civil_days :: "tm \<Rightarrow> int" where
  "civil_days t = year_days (civil_year t) + civil_yday t"

definition civil_seconds :: "tm \<Rightarrow> int" where
  "civil_seconds t = 86400 * (civil_days t - 719162) + 3600 * tm_hour t + 60 * tm_min t + tm_sec t"

definition civil_valid :: "tm \<Rightarrow> bool" where
  "civil_valid t \<longleftrightarrow> 1 \<le> civil_year t \<and> civil_year t \<le> 20000 \<and> 0 \<le> tm_mon t \<and> tm_mon t < 12 \<and>
     1 \<le> tm_mday t \<and> tm_mday t \<le> mon_lengths (leap_year (civil_year t)) ! nat (tm_mon t) \<and>
     0 \<le> tm_hour t \<and> tm_hour t < 24 \<and> 0 \<le> tm_min t \<and> tm_min t < 60 \<and> 0 \<le> tm_sec t \<and> tm_sec t < 60"

definition civil_derived :: "tm \<Rightarrow> bool" where
  "civil_derived t \<longleftrightarrow> tm_yday t = civil_yday t \<and> tm_wday t = (civil_days t + 1) mod 7 \<and> tm_isdst t = 0"

lemma mon_lengths_facts:
  "length (mon_lengths b) = 12" "\<forall>n\<in>set (mon_lengths b). 0 < n"
  "sum_list (mon_lengths (leap_year y)) = year_len y"
  by (simp_all add: mon_lengths_def year_len_def)

lemma mon_lengths_31: "i < 12 \<Longrightarrow> mon_lengths b ! i \<le> 31"
proof -
  have "\<forall>n\<in>set (mon_lengths b). n \<le> 31" by (simp add: mon_lengths_def)
  then show "i < 12 \<Longrightarrow> ?thesis" by (simp add: mon_lengths_facts)
qed

lemma quotient:
  assumes "0 \<le> r" "r < a * b" "0 < (b::int)"
  shows "0 \<le> r div b \<and> r div b < a"
proof -
  have "r div b * b \<le> r" using assms by (simp add: minus_mod_eq_div_mult [symmetric])
  then have "r div b * b < a * b" using assms by linarith
  then show ?thesis using assms by (simp add: pos_imp_zdiv_nonneg_iff)
qed

lemma UnixTimeToYMDHMS_result:
  assumes "- 62135596800 \<le> t" "t \<le> TEN_THOUSAND_YEARS"
  shows "\<exists>d. CPLUnixTimeToYMDHMS t = Some (d, False) \<and> civil_valid d \<and> civil_derived d \<and> civil_seconds d = t"
proof -
  let ?days = "t div 86400" and ?rem = "t mod 86400"
  have days: "- 719162 \<le> ?days" "?days \<le> 3660000"
  proof -
    obtain q where "t div 86400 = q" "86400 * q \<le> t" "t < 86400 * q + 86400"
      by (rule quotE [of 86400 t]) simp_all
    then show "- 719162 \<le> ?days" "?days \<le> 3660000" using assms by (simp_all add: time_consts)
  qed
  have "finds 5 0 1970 ?days False (year_days 1970 + ?days)"
  proof (cases "?days < 0")
    case True
    then show ?thesis using days by (intro finds_before) simp_all
  next
    case False
    then have "finds 3 0 1970 ?days False (year_days 1970 + ?days)" using days by (intro finds_ahead) simp_all
    then show ?thesis by (rule finds_mono) simp
  qed
  then obtain i y yday where loop: "year_loop 0 1970 ?days False = Some (i, y, yday, leap_year y)"
    and i: "i \<le> 5" and y: "1 \<le> y" "y \<le> 20000" "0 \<le> yday" "yday < year_len y" "year_days y + yday = year_days 1970 + ?days"
    unfolding finds_def by auto
  let ?ip = "mon_lengths (leap_year y)"
  obtain m md where mon: "month_loop ?ip 0 yday = Some (m, md)" "0 \<le> m" "m < 12" "0 \<le> md" "md < ?ip ! nat m"
    "sum_list (take (nat m) ?ip) + md = yday"
    using month_loop_result [of 0 ?ip yday] y mon_lengths_facts(1,2) [of "leap_year y"] mon_lengths_facts(3) [of y] by auto
  have rem: "0 \<le> ?rem" "?rem < 86400" by simp_all
  have hm: "0 \<le> ?rem div 3600 \<and> ?rem div 3600 < 24" "0 \<le> ?rem mod 3600 div 60 \<and> ?rem mod 3600 div 60 < 60"
    by (rule quotient; simp)+
  let ?w = "(4 + ?days) smod 7"
  define d where "d = \<lparr>tm_sec = ?rem mod 3600 mod 60, tm_min = ?rem mod 3600 div 60, tm_hour = ?rem div 3600,
      tm_mday = md + 1, tm_mon = m, tm_year = y - 1900, tm_wday = (if ?w < 0 then ?w + 7 else ?w),
      tm_yday = yday, tm_isdst = 0\<rparr>"
  have range: "\<not> (t < - TEN_THOUSAND_YEARS \<or> t > TEN_THOUSAND_YEARS)"
    using assms by (simp add: time_consts)
  have "CPLUnixTimeToYMDHMS t = Some (d, False)"
    unfolding CPLUnixTimeToYMDHMS_def Let_def borrow_days_eq prod.case if_not_P [OF range] EPOCH_YEAR_def loop bind.bind_lunit
    using i mon(1) rem by (simp add: d_def time_consts sdiv_div smod_mod)
  moreover have valid: "civil_valid d"
    using y mon hm by (simp add: civil_valid_def civil_year_def d_def)
  moreover have yd: "civil_yday d = yday" and cd: "civil_days d = 719162 + ?days"
    using mon(6) y(5) by (simp_all add: civil_days_def civil_yday_def civil_year_def d_def year_days_leaps leaps_def)
  moreover have "civil_derived d"
  proof -
    have "719162 + ?days + 1 = 4 + ?days + 7 * 102737" by simp
    then have e: "(719162 + ?days + 1) mod 7 = (4 + ?days) mod 7" by (metis mod_mult_self2)
    have "0 < (7::int)" by simp
    from smod_adjust [OF this, of "4 + ?days"] e
    have w: "(if ?w < 0 then ?w + 7 else ?w) = (719162 + ?days + 1) mod 7" by (simp only:)
    have f: "tm_yday d = yday" "tm_wday d = (if ?w < 0 then ?w + 7 else ?w)" "tm_isdst d = 0"
      by (simp_all only: d_def tm.simps)
    show ?thesis by (simp only: civil_derived_def f yd cd w simp_thms)
  qed
  moreover have "civil_seconds d = t"
  proof -
    have sum: "86400 * (719162 + a - 719162) + 3600 * h + 60 * m + s = r"
      if "3600 * h + b = c" "60 * m + s = b" "86400 * a + c = r" for a b c h m s r :: int
      by (simp flip: that)
    have f: "tm_hour d = ?rem div 3600" "tm_min d = ?rem mod 3600 div 60" "tm_sec d = ?rem mod 3600 mod 60"
      by (simp_all only: d_def tm.simps)
    show ?thesis unfolding civil_seconds_def cd f by (rule sum) (rule mult_div_mod_eq)+
  qed
  ultimately show ?thesis by blast
qed

lemma YMDHMSToUnixTime_result:
  assumes v: "civil_valid d"
  shows "CPLYMDHMSToUnixTime d = Some (civil_seconds d)"
proof -
  let ?ip = "mon_lengths (leap_year (civil_year d))"
  have y: "isleap (civil_year d) = leap_year (civil_year d)"
    using v by (intro isleap_eq) (simp add: civil_valid_def)
  have m: "0 \<le> tm_mon d" "tm_mon d < 12" using v by (simp_all add: civil_valid_def)
  have md: "1 \<le> tm_mday d" "tm_mday d \<le> 31"
  proof -
    have "nat (tm_mon d) < 12" using m by simp
    from mon_lengths_31 [OF this, of "leap_year (civil_year d)"]
    show "1 \<le> tm_mday d" "tm_mday d \<le> 31" using v by (auto simp: civil_valid_def)
  qed
  have add: "add_months ?ip 0 (tm_mon d) (tm_mday d - 1) = Some (tm_mday d - 1 + sum_list (take (nat (tm_mon d)) ?ip))"
    using add_months_result [of 0 "tm_mon d" ?ip] m by (simp add: mon_lengths_facts)
  have L: "LEAPS_THROUGH_END_OF (civil_year d - 1) = leaps (civil_year d - 1)" "LEAPS_THROUGH_END_OF 1969 = 477"
    using v by (simp_all add: LEAPS_eq leaps_def civil_valid_def)
  have ci: "c_int (tm_mday d - 1) = Some (tm_mday d - 1)" "c_int (civil_year d) = Some (civil_year d)"
    "c_int (civil_year d - 1) = Some (civil_year d - 1)" "c_int (tm_min d * 60) = Some (tm_min d * 60)"
    "c_int (tm_sec d + tm_min d * 60) = Some (tm_sec d + tm_min d * 60)" "c_int (tm_hour d * 3600) = Some (tm_hour d * 3600)"
    "c_int (tm_sec d + tm_min d * 60 + tm_hour d * 3600) = Some (tm_sec d + tm_min d * 60 + tm_hour d * 3600)"
    using v md by (simp_all add: c_int_def civil_valid_def)
  have base: "1900 + tm_year d = civil_year d" by (simp add: civil_year_def)
  have "\<not> (tm_mon d < 0 \<or> tm_mon d \<ge> 12)" using m by simp
  then have "CPLYMDHMSToUnixTime d = Some (tm_sec d + tm_min d * 60 + tm_hour d * 3600 +
      (tm_mday d - 1 + sum_list (take (nat (tm_mon d)) ?ip) + (civil_year d - 1970) * 365 + leaps (civil_year d - 1) - 477) * 86400)"
    unfolding CPLYMDHMSToUnixTime_def time_consts base by (simp add: ci y add L)
  also have "\<dots> = Some (civil_seconds d)"
    using v by (simp add: civil_seconds_def civil_days_def civil_yday_def year_days_leaps civil_valid_def algebra_simps)
  finally show ?thesis .
qed

subsection \<open>Dates are unique\<close>

text \<open>Splitting a number into a start from an increasing sequence and a rest that stays before the next
  start is unique; used for years and months.\<close>

lemma split_unique:
  fixes f :: "int \<Rightarrow> int"
  assumes step: "\<And>y. lo \<le> y \<Longrightarrow> y < hi \<Longrightarrow> f (y + 1) = f y + len y" and pos: "\<And>y. lo \<le> y \<Longrightarrow> y < hi \<Longrightarrow> 0 \<le> len y"
    and y: "lo \<le> y" "y < hi" "0 \<le> d" "d < len y"
    and z: "lo \<le> z" "z < hi" "0 \<le> e" "e < len z"
    and eq: "f y + d = f z + e"
  shows "y = z \<and> d = e"
proof -
  have mono: "a \<le> b \<Longrightarrow> lo \<le> a \<Longrightarrow> b \<le> hi \<Longrightarrow> f a \<le> f b" for a b
  proof (induction b rule: int_ge_induct)
    case (step i)
    then show ?case using assms(1) [of i] pos [of i] by auto
  qed simp
  have "\<not> y < z" using mono [of "y + 1" z] step [of y] y z eq by auto
  moreover have "\<not> z < y" using mono [of "z + 1" y] step [of z] y z eq by auto
  ultimately have "y = z" by simp
  then show ?thesis using eq by simp
qed

lemma year_days_step: "1 \<le> y \<Longrightarrow> year_days (y + 1) = year_days y + year_len y"
  using leaps_step [of y] by (simp add: year_days_leaps year_len_def)

lemma month_days_step:
  "0 \<le> m \<Longrightarrow> m < 12 \<Longrightarrow> sum_list (take (nat (m + 1)) (mon_lengths b)) =
     sum_list (take (nat m) (mon_lengths b)) + mon_lengths b ! nat m"
  by (simp add: nat_add_distrib take_Suc_conv_app_nth mon_lengths_facts)

lemma mon_lengths_pos: "0 \<le> m \<Longrightarrow> m < 12 \<Longrightarrow> 0 < mon_lengths b ! nat m"
  using mon_lengths_facts(1,2) [of b] by simp

lemma civil_yday_range:
  assumes "civil_valid t"
  shows "0 \<le> civil_yday t" "civil_yday t < year_len (civil_year t)"
proof -
  let ?ip = "mon_lengths (leap_year (civil_year t))" and ?m = "nat (tm_mon t)"
  have m: "?m < 12" "1 \<le> tm_mday t" "tm_mday t \<le> ?ip ! ?m" "0 \<le> tm_mon t"
    using assms by (simp_all add: civil_valid_def nat_less_iff)
  have nn: "0 \<le> sum_list (take ?m ?ip)" "0 \<le> sum_list (drop (Suc ?m) ?ip)"
  proof -
    have "\<forall>n\<in>set ?ip. 0 \<le> n" by (simp add: mon_lengths_def)
    then show "0 \<le> sum_list (take ?m ?ip)" "0 \<le> sum_list (drop (Suc ?m) ?ip)"
      by (auto intro!: sum_list_nonneg dest: in_set_takeD in_set_dropD)
  qed
  have "sum_list ?ip = sum_list (take ?m ?ip @ ?ip ! ?m # drop (Suc ?m) ?ip)"
    using m(1) by (simp add: id_take_nth_drop [symmetric] mon_lengths_facts)
  then have "year_len (civil_year t) = sum_list (take ?m ?ip) + ?ip ! ?m + sum_list (drop (Suc ?m) ?ip)"
    by (simp add: mon_lengths_facts)
  then show "0 \<le> civil_yday t" "civil_yday t < year_len (civil_year t)"
    using m nn by (simp_all add: civil_yday_def)
qed

lemma civil_unique:
  assumes s: "civil_valid s" "civil_derived s" and t: "civil_valid t" "civil_derived t"
    and eq: "civil_seconds s = civil_seconds t"
  shows "s = t"
proof -
  let ?r = "\<lambda>t. 3600 * tm_hour t + 60 * tm_min t + tm_sec t"
  have r: "0 \<le> ?r s" "?r s < 86400" "0 \<le> ?r t" "?r t < 86400" using s(1) t(1) by (simp_all add: civil_valid_def)
  have e: "86400 * civil_days s + ?r s = 86400 * civil_days t + ?r t" using eq by (simp add: civil_seconds_def)
  have "\<not> civil_days s < civil_days t" "\<not> civil_days t < civil_days s" using e r by linarith+
  then have d: "civil_days s = civil_days t" by simp
  then have r': "?r s = ?r t" using e by simp
  have hms: "tm_hour s = tm_hour t" "tm_min s = tm_min t" "tm_sec s = tm_sec t"
  proof -
    have b: "0 \<le> tm_min s" "tm_min s < 60" "0 \<le> tm_sec s" "tm_sec s < 60"
      "0 \<le> tm_min t" "tm_min t < 60" "0 \<le> tm_sec t" "tm_sec t < 60"
      using s(1) t(1) by (simp_all add: civil_valid_def)
    have "\<not> tm_hour s < tm_hour t" "\<not> tm_hour t < tm_hour s" using r' b by linarith+
    then show h: "tm_hour s = tm_hour t" by simp
    have "\<not> tm_min s < tm_min t" "\<not> tm_min t < tm_min s" using r' b h by linarith+
    then show m: "tm_min s = tm_min t" by simp
    show "tm_sec s = tm_sec t" using r' h m by simp
  qed
  have "civil_year s = civil_year t \<and> civil_yday s = civil_yday t"
    by (rule split_unique [of 1 20001 year_days year_len])
      (use s(1) t(1) d civil_yday_range year_days_step year_len_bounds in
        \<open>simp_all add: civil_valid_def civil_days_def order_trans [OF _ year_len_bounds(1)]\<close>)
  then have y: "civil_year s = civil_year t" and yd: "civil_yday s = civil_yday t" by simp_all
  let ?ip = "mon_lengths (leap_year (civil_year t))"
  have "tm_mon s = tm_mon t \<and> tm_mday s - 1 = tm_mday t - 1"
    by (rule split_unique [of 0 12 "\<lambda>m. sum_list (take (nat m) ?ip)" "\<lambda>m. ?ip ! nat m"])
      (use s(1) t(1) y yd month_days_step mon_lengths_pos [THEN less_imp_le] in
        \<open>simp_all add: civil_valid_def civil_yday_def\<close>)
  then have "tm_mon s = tm_mon t" "tm_mday s = tm_mday t" by simp_all
  moreover have "tm_year s = tm_year t" using y by (simp add: civil_year_def)
  moreover have "tm_yday s = tm_yday t" "tm_wday s = tm_wday t" "tm_isdst s = tm_isdst t"
    using s(2) t(2) d yd by (simp_all add: civil_derived_def)
  ultimately show ?thesis using hms by (intro tm.equality) simp_all
qed

text \<open>C24: For every second from the first of January of the year 1 to the limit of ten thousand years,
  CPLUnixTimeToYMDHMS succeeds with the valid date of the proleptic Gregorian calendar, its day of the
  week and of the year included, that is that many seconds after the start of 1970, and
  CPLYMDHMSToUnixTime takes the date back to the second.  The search for the year ends well before its
  limit of 1000 rounds.\<close>

theorem CPLUnixTime_roundtrip:
  assumes "- 62135596800 \<le> t" "t \<le> TEN_THOUSAND_YEARS"
  shows "\<exists>d. CPLUnixTimeToYMDHMS t = Some (d, False) \<and> civil_valid d \<and> civil_derived d \<and>
    civil_seconds d = t \<and> CPLYMDHMSToUnixTime d = Some t"
  using UnixTimeToYMDHMS_result [OF assms] YMDHMSToUnixTime_result by metis

text \<open>C23: Every valid date from the year 1 to the limit of ten thousand years goes to its second by
  CPLYMDHMSToUnixTime, and back to the same date, day of the week and of the year included, by
  CPLUnixTimeToYMDHMS.\<close>

theorem CPLYMDHMS_roundtrip:
  assumes "civil_valid d" "civil_derived d" "civil_seconds d \<le> TEN_THOUSAND_YEARS"
  shows "\<exists>t. CPLYMDHMSToUnixTime d = Some t \<and> CPLUnixTimeToYMDHMS t = Some (d, False)"
proof -
  have "0 \<le> leaps (civil_year d - 1)"
    using leaps_between(1) [of 0 "civil_year d - 1"] assms(1) leaps_def [of 0] by (simp add: civil_valid_def)
  then have "0 \<le> civil_days d"
    using assms(1) civil_yday_range(1) [of d] by (simp add: civil_days_def year_days_leaps civil_valid_def)
  then have "- 62135596800 \<le> civil_seconds d"
    using assms(1) by (simp add: civil_seconds_def civil_valid_def)
  from UnixTimeToYMDHMS_result [OF this assms(3)] obtain d'
    where "CPLUnixTimeToYMDHMS (civil_seconds d) = Some (d', False)" "civil_valid d'" "civil_derived d'"
      "civil_seconds d' = civil_seconds d" by blast
  moreover have "d' = d" using calculation assms civil_unique by metis
  ultimately show ?thesis using YMDHMSToUnixTime_result [OF assms(1)] by blast
qed

theorem CPLUnixTime_roundtrip_witness:
  "\<exists>d. CPLUnixTimeToYMDHMS 951782400 = Some (d, False) \<and> civil_valid d \<and> civil_derived d \<and>
    civil_seconds d = 951782400 \<and> CPLYMDHMSToUnixTime d = Some 951782400"
  using CPLUnixTime_roundtrip [of 951782400] by (simp add: time_consts)

text \<open>Thursday, 29 February 2024.\<close>

definition leap_day :: tm where
  "leap_day = \<lparr>tm_sec = 5, tm_min = 4, tm_hour = 3, tm_mday = 29, tm_mon = 1, tm_year = 124,
     tm_wday = 4, tm_yday = 59, tm_isdst = 0\<rparr>"

theorem CPLYMDHMS_roundtrip_witness:
  "\<exists>t. CPLYMDHMSToUnixTime leap_day = Some t \<and> CPLUnixTimeToYMDHMS t = Some (leap_day, False)"
  by (rule CPLYMDHMS_roundtrip)
    (simp_all add: civil_valid_def civil_derived_def civil_days_def civil_yday_def civil_seconds_def
      civil_year_def leap_day_def mon_lengths_def leap_year_def year_days_leaps leaps_def time_consts)

subsection \<open>Before the year one\<close>

text \<open>LEAPS_THROUGH_END_OF divides with truncation, so before the year one it does not count the years
  that isleap calls leap years.  The search for the last day of the year -3 goes to and fro.\<close>

lemmas year_loop_eval = isleap_def year_lengths_def time_consts c_int_def LEAPS_THROUGH_END_OF_def
  signed_divide_int_def signed_modulo_int_def Let_def

lemma year_loop_cycle:
  "i \<le> 1000 \<Longrightarrow> (\<forall>l. \<exists>y d l'. year_loop i (- 3) 365 l = Some (1000, y, d, l')) \<and>
     (\<forall>l. \<exists>y d l'. year_loop i (- 2) (- 1) l = Some (1000, y, d, l'))"
proof (induction i rule: inc_induct)
  case base
  have "year_loop 1000 y d l = Some (1000, y, d, l)" for y d l by (subst year_loop.simps) simp
  then show ?case by blast
next
  case (step i)
  have "year_loop i (- 3) 365 l = year_loop (Suc i) (- 2) (- 1) False" for l
    using step.hyps by (subst year_loop.simps) (simp add: year_loop_eval)
  moreover have "year_loop i (- 2) (- 1) l = year_loop (Suc i) (- 3) 365 l" for l
    using step.hyps by (subst year_loop.simps) (simp add: year_loop_eval)
  ultimately show ?case using step.IH by simp
qed


subsection \<open>RFC 822 dates\<close>

text \<open>The values behind the output pointers of CPLParseRFC822DateTime; a NULL pointer only skips its
  stores, so all pointers are taken to be set.\<close>

record rfc822 =
  pnYear :: int
  pnMonth :: int
  pnDay :: int
  pnHour :: int
  pnMinute :: int
  pnSecond :: int
  pnTZFlag :: int
  pnWeekDay :: int

definition aszWeekDayStr :: "string list" where
  "aszWeekDayStr = [''Mon'', ''Tue'', ''Wed'', ''Thu'', ''Fri'', ''Sat'', ''Sun'']"

definition aszMonthStr :: "string list" where
  "aszMonthStr = [''Jan'', ''Feb'', ''Mar'', ''Apr'', ''May'', ''Jun'', ''Jul'', ''Aug'', ''Sep'',
     ''Oct'', ''Nov'', ''Dec'']"

definition zones :: "(string \<times> int) list" where
  "zones = [(''GMT'', 0), (''UT'', 0), (''Z'', 0), (''EST'', - 5), (''EDT'', - 4), (''CST'', - 6),
     (''CDT'', - 5), (''MST'', - 7), (''MDT'', - 6), (''PST'', - 8), (''PDT'', - 7)]"

text \<open>The token \<open>*papszVal\<close> at position \<open>p\<close>: the array has the tokens and a NULL pointer at its end,
  and the text of a NULL pointer cannot be read.\<close>

definition val_cell :: "string list \<Rightarrow> nat \<Rightarrow> cell option" where
  "val_cell vals p = arr_get (map Some vals @ [None]) (int p)"

definition val :: "string list \<Rightarrow> nat \<Rightarrow> string option" where
  "val vals p = (case val_cell vals p of None \<Rightarrow> None | Some c \<Rightarrow> c)"

text \<open>The weekday and the day, the month, and the year; \<open>Inl\<close> is an early return of false.\<close>

definition parse_date :: "string list \<Rightarrow> rfc822 \<Rightarrow> (rfc822 + rfc822 \<times> nat) option" where
  "parse_date vals r = do {
     let r = r\<lparr>pnWeekDay := 0\<rparr>;
     w \<leftarrow> val vals 0;
     let (r, p) =
       (if \<not> c_isdigit (c_at w 0)
        then let i = csl_find (\<lambda>s. EQUAL w s) 0 aszWeekDayStr
             in (if i \<ge> 0 then r\<lparr>pnWeekDay := i + 1\<rparr> else r, 1)
        else (r, 0));
     d \<leftarrow> val vals p;
     day \<leftarrow> c_atoi d;
     if day \<le> 0 \<or> day \<ge> 32 then Some (Inl r)
     else do {
       let r = r\<lparr>pnDay := day\<rparr>;
       m \<leftarrow> val vals (p + 1);
       let i = csl_find (\<lambda>s. EQUAL m s) 0 aszMonthStr;
       let month = (if i \<ge> 0 then i + 1 else 0);
       if month = 0 then Some (Inl r)
       else do {
         let r = r\<lparr>pnMonth := month\<rparr>;
         y \<leftarrow> val vals (p + 2);
         year \<leftarrow> c_atoi y;
         let year = (if year < 100 \<and> year \<ge> 30 then year + 1900
                     else if year < 30 \<and> year \<ge> 0 then year + 2000 else year);
         Some (Inr (r\<lparr>pnYear := year\<rparr>, p + 3))
       }
     }
   }"

definition parse_time :: "string list \<Rightarrow> nat \<Rightarrow> rfc822 \<Rightarrow> (rfc822 + rfc822 \<times> nat) option" where
  "parse_time vals p r = do {
     h \<leftarrow> val vals p;
     hour \<leftarrow> c_atoi h;
     if hour < 0 \<or> hour \<ge> 24 then Some (Inl r)
     else do {
       let r = r\<lparr>pnHour := hour\<rparr>;
       m \<leftarrow> val_cell vals (p + 1);
       case m of
         None \<Rightarrow> Some (Inl r)
       | Some m \<Rightarrow> do {
           minute \<leftarrow> c_atoi m;
           if minute < 0 \<or> minute \<ge> 60 then Some (Inl r)
           else do {
             let r = r\<lparr>pnMinute := minute\<rparr>;
             s \<leftarrow> val_cell vals (p + 2);
             case s of
               None \<Rightarrow> Some (Inr (r\<lparr>pnSecond := - 1\<rparr>, p + 2))
             | Some s \<Rightarrow>
                 if c_isdigit (c_at s 0) then do {
                   second \<leftarrow> c_atoi s;
                   if second < 0 \<or> second \<ge> 61 then Some (Inl r)
                   else Some (Inr (r\<lparr>pnSecond := second\<rparr>, p + 3))
                 } else Some (Inr (r\<lparr>pnSecond := - 1\<rparr>, p + 2))
           }
         }
     }
   }"

text \<open>The time zone flag; \<open>None\<close> is the early return of false.  The numbers have two characters each, so that
  an \<open>int\<close> holds them.\<close>

definition parse_zone :: "cell \<Rightarrow> int option" where
  "parse_zone v =
     (case v of
        None \<Rightarrow> Some 0
      | Some v \<Rightarrow>
          if length v = 5 \<and> (v ! 0 = CHR ''+'' \<or> v ! 0 = CHR ''-'') then
            (let TZHour = c_scan_int [v ! 1, v ! 2]
             in if TZHour < 0 \<or> TZHour \<ge> 15 then None
                else let TZMinute = c_scan_int [v ! 3, v ! 4]
                     in Some (100 + (if v ! 0 = CHR ''+'' then 1 else - 1) * ((TZHour * 60 + TZMinute) sdiv 15)))
          else (let i = csl_find (\<lambda>s. EQUAL v s) 0 (map fst zones);
                    TZ = (if i \<ge> 0 then 100 + snd (zones ! nat i) * 4 else - 1)
                in if TZ < 0 then None else Some TZ))"

definition CPLParseRFC822DateTime :: "string \<Rightarrow> rfc822 \<Rightarrow> (rfc822 \<times> bool) option" where
  "CPLParseRFC822DateTime pszRFC822DateTime r = do {
     papszTokens \<leftarrow> CSLTokenizeStringComplex (Some pszRFC822DateTime) '' ,:'' True False;
     let vals = strings_of papszTokens;
     if CSLCount papszTokens < 5 then Some (r, False)
     else do {
       date \<leftarrow> parse_date vals r;
       case date of
         Inl r \<Rightarrow> Some (r, False)
       | Inr (r, p) \<Rightarrow> do {
           time \<leftarrow> parse_time vals p r;
           case time of
             Inl r \<Rightarrow> Some (r, False)
           | Inr (r, p) \<Rightarrow> do {
               z \<leftarrow> val_cell vals p;
               case parse_zone z of
                 None \<Rightarrow> Some (r, False)
               | Some TZ \<Rightarrow> Some (r\<lparr>pnTZFlag := TZ\<rparr>, True)
             }
         }
     }
   }"

lemma val_cell_in: "p \<le> length vals \<Longrightarrow> val_cell vals p = Some (if p < length vals then Some (vals ! p) else None)"
  by (simp add: val_cell_def mem_simps nth_append)

lemma val_in: "p < length vals \<Longrightarrow> val vals p = Some (vals ! p)"
  by (simp add: val_def val_cell_in)

lemma csl_find_range: "csl_find p i xs = - 1 \<or> i \<le> csl_find p i xs \<and> csl_find p i xs < i + int (length xs)"
  by (induction xs arbitrary: i) (force simp: add.assoc)+

lemma csl_find_bound: "csl_find p 0 xs < int (length xs)"
  using csl_find_range [of p 0 xs] by auto

text \<open>Fields in their documented ranges; a time zone given in digits may have odd minutes.\<close>

definition rfc822_ok :: "rfc822 \<Rightarrow> bool" where
  "rfc822_ok r \<longleftrightarrow> 0 \<le> pnWeekDay r \<and> pnWeekDay r \<le> 7 \<and> 1 \<le> pnDay r \<and> pnDay r \<le> 31 \<and>
     1 \<le> pnMonth r \<and> pnMonth r \<le> 12 \<and> 0 \<le> pnHour r \<and> pnHour r \<le> 23 \<and>
     0 \<le> pnMinute r \<and> pnMinute r \<le> 59 \<and> - 1 \<le> pnSecond r \<and> pnSecond r \<le> 60"

lemma parse_date_result:
  assumes "5 \<le> length vals" "\<forall>v\<in>set vals. c_atoi v \<noteq> None"
  shows "\<exists>x. parse_date vals r = Some x \<and> (\<forall>r' p. x = Inr (r', p) \<longrightarrow> (p = 3 \<or> p = 4) \<and>
    0 \<le> pnWeekDay r' \<and> pnWeekDay r' \<le> 7 \<and> 1 \<le> pnDay r' \<and> pnDay r' \<le> 31 \<and> 1 \<le> pnMonth r' \<and> pnMonth r' \<le> 12)"
proof -
  have b: "csl_find p 0 aszWeekDayStr < 7" "csl_find p 0 aszMonthStr < 12" for p
    using csl_find_bound [of p aszWeekDayStr] csl_find_bound [of p aszMonthStr]
    by (simp_all add: aszWeekDayStr_def aszMonthStr_def)
  have v: "val vals 0 = Some (vals ! 0)" "val vals 1 = Some (vals ! 1)" "val vals (Suc 0) = Some (vals ! 1)"
    "val vals 2 = Some (vals ! 2)" "val vals 3 = Some (vals ! 3)" "val vals (Suc 0 + 2) = Some (vals ! 3)"
    "val vals (Suc (Suc 0)) = Some (vals ! 2)" "val vals (Suc (Suc (Suc 0))) = Some (vals ! 3)"
    using assms by (auto simp: numeral_eq_Suc intro!: val_in)
  have n: "\<exists>y. c_atoi (vals ! k) = Some y" if "k < 5" for k using assms that by auto
  show ?thesis
    using b n [of 0] n [of 1] n [of 2] n [of 3]
    by (cases "c_isdigit (c_at (vals ! 0) 0)") (auto simp: parse_date_def v Let_def add1_zle_eq)
qed

lemma parse_time_result:
  assumes "p + 1 < length vals \<or> p + 1 = length vals" "\<forall>v\<in>set vals. c_atoi v \<noteq> None"
  shows "\<exists>x. parse_time vals p r = Some x \<and> (\<forall>r' q. x = Inr (r', q) \<longrightarrow> q \<le> length vals \<and>
    0 \<le> pnHour r' \<and> pnHour r' \<le> 23 \<and> 0 \<le> pnMinute r' \<and> pnMinute r' \<le> 59 \<and> - 1 \<le> pnSecond r' \<and> pnSecond r' \<le> 60 \<and>
    pnWeekDay r' = pnWeekDay r \<and> pnDay r' = pnDay r \<and> pnMonth r' = pnMonth r)"
proof -
  have n: "\<exists>y. c_atoi (vals ! k) = Some y" if "k < length vals" for k using assms(2) that by auto
  show ?thesis using assms(1) n [of p] n [of "p + 1"] n [of "p + 2"]
    by (auto simp: parse_time_def val_in val_cell_in Let_def)
qed

text \<open>The tokens of a date; \<open>atoi\<close> is called on tokens only.\<close>

abbreviation rfc822_tokens_of :: "string \<Rightarrow> string list" where
  "rfc822_tokens_of s \<equiv> strings_of (the (CSLTokenizeStringComplex (Some s) '' ,:'' True False))"

lemma RFC822_result:
  assumes fits: "\<forall>v\<in>set (rfc822_tokens_of s). c_atoi v \<noteq> None"
  shows "\<exists>r' ok. CPLParseRFC822DateTime s r = Some (r', ok) \<and> (ok \<longrightarrow> rfc822_ok r')"
proof -
  obtain vals where tok: "CSLTokenizeStringComplex (Some s) '' ,:'' True False = Some (Some vals)"
    using CSLTokenizeString2_total unfolding CSLTokenizeStringComplex_def by metis
  have fit: "\<forall>v\<in>set vals. c_atoi v \<noteq> None" using fits by (simp add: tok)
  show ?thesis
  proof (cases "length vals < 5")
    case True
    then show ?thesis by (intro exI [of _ r] exI [of _ False]) (simp add: CPLParseRFC822DateTime_def tok)
  next
    case False
    then have len: "5 \<le> length vals" by simp
    obtain x where d: "parse_date vals r = Some x" and dx: "\<And>r' p. x = Inr (r', p) \<Longrightarrow> (p = 3 \<or> p = 4) \<and>
        0 \<le> pnWeekDay r' \<and> pnWeekDay r' \<le> 7 \<and> 1 \<le> pnDay r' \<and> pnDay r' \<le> 31 \<and> 1 \<le> pnMonth r' \<and> pnMonth r' \<le> 12"
      using parse_date_result [OF len fit, of r] by blast
    show ?thesis
    proof (cases x)
      case (Inl r1)
      then show ?thesis using len d
        by (intro exI [of _ r1] exI [of _ False]) (simp add: CPLParseRFC822DateTime_def tok)
    next
      case (Inr a)
      then obtain r1 p where a: "x = Inr (r1, p)" by (cases a) simp
      have "p + 1 < length vals \<or> p + 1 = length vals" using dx [OF a] len by auto
      from parse_time_result [OF this fit, of r1] obtain y where t: "parse_time vals p r1 = Some y"
        and ty: "\<And>r' q. y = Inr (r', q) \<Longrightarrow> q \<le> length vals \<and>
          0 \<le> pnHour r' \<and> pnHour r' \<le> 23 \<and> 0 \<le> pnMinute r' \<and> pnMinute r' \<le> 59 \<and> - 1 \<le> pnSecond r' \<and> pnSecond r' \<le> 60 \<and>
          pnWeekDay r' = pnWeekDay r1 \<and> pnDay r' = pnDay r1 \<and> pnMonth r' = pnMonth r1" by blast
      show ?thesis
      proof (cases y)
        case (Inl r2)
        then show ?thesis using len d a t
          by (intro exI [of _ r2] exI [of _ False]) (simp add: CPLParseRFC822DateTime_def tok)
      next
        case (Inr b)
        then obtain r2 q where b: "y = Inr (r2, q)" by (cases b) simp
        have q: "val_cell vals q = Some (if q < length vals then Some (vals ! q) else None)"
          using ty [OF b] by (intro val_cell_in) simp
        show ?thesis
          using len d a t b q dx [OF a] ty [OF b]
          by (cases "parse_zone (if q < length vals then Some (vals ! q) else None)")
            (auto simp: CPLParseRFC822DateTime_def tok rfc822_ok_def)
      qed
    qed
  qed
qed

text \<open>CPLParseRFC822DateTime reads no token outside its list, whatever the text whose numbers an \<open>int\<close> can hold,
  and when it returns true every field it has set is in its documented range.\<close>

theorem CPLParseRFC822DateTime_safe:
  "\<forall>v\<in>set (rfc822_tokens_of s). c_atoi v \<noteq> None \<Longrightarrow>
   (\<exists>r'. CPLParseRFC822DateTime s r = Some (r', False)) \<or>
   (\<exists>r'. CPLParseRFC822DateTime s r = Some (r', True) \<and> rfc822_ok r')"
proof -
  assume "\<forall>v\<in>set (rfc822_tokens_of s). c_atoi v \<noteq> None"
  then obtain r' ok where "CPLParseRFC822DateTime s r = Some (r', ok)" "ok \<longrightarrow> rfc822_ok r'"
    using RFC822_result by blast
  then show ?thesis by (cases ok) auto
qed

text \<open>A date in the form of RFC 822 with its numbers written in any number of digits: a weekday or
  none, the day, the month, the year, the hour, the minute, seconds or none, and a zone name.\<close>

definition digits :: "string \<Rightarrow> bool" where
  "digits w \<longleftrightarrow> w \<noteq> [] \<and> (\<forall>c\<in>set w. c_isdigit c)"

definition rfc822_text :: "nat option \<Rightarrow> string \<Rightarrow> nat \<Rightarrow> string \<Rightarrow> string \<Rightarrow> string \<Rightarrow> string option \<Rightarrow> nat \<Rightarrow> string" where
  "rfc822_text wd d mo y h mi sec z =
     (case wd of None \<Rightarrow> [] | Some k \<Rightarrow> aszWeekDayStr ! k @ '', '') @ d @ '' '' @ aszMonthStr ! mo @ '' '' @ y @
     '' '' @ h @ '':'' @ mi @ (case sec of None \<Rightarrow> [] | Some s \<Rightarrow> '':'' @ s) @ '' '' @ fst (zones ! z)"

definition delim :: "char \<Rightarrow> bool" where "delim = c_strchr '' ,:''"

lemma split_on_word: "\<forall>c\<in>set w. \<not> p c \<Longrightarrow> p e \<Longrightarrow> split_on p (w @ e # s) = w # split_on p s"
  by (induction w) simp_all

lemma split_on_one: "\<forall>c\<in>set w. \<not> p c \<Longrightarrow> split_on p w = [w]"
  by (induction w) simp_all

lemma nth_set: "k < length xs \<Longrightarrow> \<forall>x\<in>set xs. P x \<Longrightarrow> P (xs ! k)"
  by simp

definition plain_word :: "string \<Rightarrow> bool" where
  "plain_word w \<longleftrightarrow> w \<noteq> [] \<and> (\<forall>c\<in>set w. \<not> delim c \<and> c \<noteq> CHR 0x22)"

lemma digits_plain: "digits w \<Longrightarrow> plain_word w"
  by (auto simp: digits_def plain_word_def delim_def c_strchr_def c_isdigit_def ccode_def)

lemma name_words:
  "\<forall>w\<in>set aszWeekDayStr. plain_word w \<and> \<not> c_isdigit (c_at w 0)"
  "\<forall>w\<in>set aszMonthStr. plain_word w"
  "\<forall>w\<in>set (map fst zones). plain_word w \<and> \<not> c_isdigit (c_at w 0) \<and> length w \<noteq> 5"
  by (simp_all add: aszWeekDayStr_def aszMonthStr_def zones_def plain_word_def delim_def c_strchr_def
      c_isdigit_def ccode_def c_at_def)

lemma name_lengths: "length aszWeekDayStr = 7" "length aszMonthStr = 12" "length zones = 11"
  by (simp_all add: aszWeekDayStr_def aszMonthStr_def zones_def)

text \<open>Each name is found at its own place.\<close>

lemma csl_find_distinct:
  "distinct (map (map c_tolower) xs) \<Longrightarrow> k < length xs \<Longrightarrow> csl_find (\<lambda>s. EQUAL (xs ! k) s) i xs = i + int k"
  by (rule csl_find_in) (auto simp: EQUAL_def distinct_conv_nth)

lemma names_distinct:
  "distinct (map (map c_tolower) aszWeekDayStr)" "distinct (map (map c_tolower) aszMonthStr)"
  "distinct (map (map c_tolower) (map fst zones))"
  by (simp_all add: aszWeekDayStr_def aszMonthStr_def zones_def c_tolower_def ccode_def)

lemma parse_zone_name: "z < 11 \<Longrightarrow> parse_zone (Some (fst (zones ! z))) = Some (100 + 4 * snd (zones ! z))"
proof -
  assume z: "z < 11"
  have l: "length (map fst zones) = 11" by (simp add: name_lengths)
  have "map fst zones ! z \<in> set (map fst zones)" using z l by (metis nth_mem)
  then have w: "length (fst (zones ! z)) \<noteq> 5" using name_words(3) z by (simp add: name_lengths)
  have "csl_find (\<lambda>s. EQUAL (map fst zones ! z) s) 0 (map fst zones) = int z"
    using csl_find_distinct [OF names_distinct(3), of z 0] z l by simp
  then have f: "csl_find (\<lambda>s. EQUAL (fst (zones ! z)) s) 0 (map fst zones) = int z"
    using z by (simp add: name_lengths)
  have "\<forall>p\<in>set zones. - 8 \<le> snd p" by (simp add: zones_def)
  then have "- 8 \<le> snd (zones ! z)" using z by (simp add: name_lengths)
  then show ?thesis using w f by (simp add: parse_zone_def Let_def)
qed

lemma tokens_plain:
  assumes "s \<noteq> []" "length s < 2 ^ 62" "CHR 0x22 \<notin> set s"
  shows "CSLTokenizeStringComplex (Some s) '' ,:'' True False =
    Some (Some (filter (\<lambda>w. w \<noteq> []) (split_on delim s)))"
proof -
  have f: "has_flag (0 OR CSLT_HONOURSTRINGS) CSLT_ALLOWEMPTYTOKENS = False"
    "has_flag (0 OR CSLT_HONOURSTRINGS) CSLT_STRIPLEADSPACES = False"
    "has_flag (0 OR CSLT_HONOURSTRINGS) CSLT_STRIPENDSPACES = False"
    by (simp_all add: has_flag_def CSLT_HONOURSTRINGS_def CSLT_ALLOWEMPTYTOKENS_def
        CSLT_STRIPLEADSPACES_def CSLT_STRIPENDSPACES_def)
  have "token_strip (0 OR CSLT_HONOURSTRINGS) = (\<lambda>w. w)"
    by (rule ext) (simp only: token_strip_def f if_False Let_def)
  then show ?thesis
    using CSLTokenizeString2_plain [OF _ assms(1,2), of "0 OR CSLT_HONOURSTRINGS" "'' ,:''"] assms(3)
    by (simp only: CSLTokenizeStringComplex_def Let_def if_True if_False f delim_def) simp
qed

lemma split_words: "plain_word w \<Longrightarrow> delim e \<Longrightarrow> split_on delim (w @ e # s) = w # split_on delim s"
  by (rule split_on_word) (auto simp: plain_word_def)

lemma split_words_last: "plain_word w \<Longrightarrow> split_on delim w = [w]"
  by (rule split_on_one) (auto simp: plain_word_def)

lemma delim_chars [simp]: "delim (CHR '' '')" "delim (CHR '','')" "delim (CHR '':'')" "\<not> delim (CHR 0x22)"
  by (simp_all add: delim_def c_strchr_def)

definition opt_words :: "string option \<Rightarrow> string list" where
  "opt_words w = (case w of None \<Rightarrow> [] | Some w \<Rightarrow> [w])"

lemma rfc822_tokens:
  assumes "case wd of None \<Rightarrow> True | Some k \<Rightarrow> k < 7" "mo < 12" "z < 11"
    and "digits d" "digits y" "digits h" "digits mi" "case sec of None \<Rightarrow> True | Some s \<Rightarrow> digits s"
  shows "filter (\<lambda>w. w \<noteq> []) (split_on delim (rfc822_text wd d mo y h mi sec z)) =
      opt_words (map_option (\<lambda>k. aszWeekDayStr ! k) wd) @ [d, aszMonthStr ! mo, y, h, mi] @ opt_words sec @ [fst (zones ! z)]"
    and "CHR 0x22 \<notin> set (rfc822_text wd d mo y h mi sec z)"
proof -
  have p: "plain_word d" "plain_word y" "plain_word h" "plain_word mi" "plain_word (aszMonthStr ! mo)"
    "plain_word (fst (zones ! z))"
    using assms digits_plain name_words(2) nth_mem [of z "map fst zones"] name_words(3)
    by (auto simp: name_lengths)
  have wd: "plain_word (aszWeekDayStr ! k)" if "wd = Some k" for k
    using that assms(1) name_words(1) by (simp add: name_lengths)
  have sec: "plain_word s" if "sec = Some s" for s using that assms(8) digits_plain by simp
  have ne: "plain_word w \<Longrightarrow> w \<noteq> []" and nq: "plain_word w \<Longrightarrow> CHR 0x22 \<notin> set w" for w
    by (auto simp: plain_word_def)
  show "filter (\<lambda>w. w \<noteq> []) (split_on delim (rfc822_text wd d mo y h mi sec z)) =
      opt_words (map_option (\<lambda>k. aszWeekDayStr ! k) wd) @ [d, aszMonthStr ! mo, y, h, mi] @ opt_words sec @ [fst (zones ! z)]"
    using p wd sec
    by (cases wd; cases sec) (simp_all add: rfc822_text_def opt_words_def split_words split_words_last ne)
  show "CHR 0x22 \<notin> set (rfc822_text wd d mo y h mi sec z)"
    using p wd sec by (cases wd; cases sec) (simp_all add: rfc822_text_def nq)
qed

lemma digits_first: "digits w \<Longrightarrow> c_isdigit (c_at w 0)"
  by (cases w) (simp_all add: digits_def c_at_def)

text \<open>The numbers are not checked before \<open>atoi\<close> reads them: the year of a date from a file can be one that no
  \<open>int\<close> holds, which is undefined.\<close>

theorem CPLParseRFC822DateTime_year_overflow:
  "CPLParseRFC822DateTime ''28 Dec 99999999999 05:24 GMT'' r = None"
proof -
  let ?s = "rfc822_text None ''28'' 11 ''99999999999'' ''05'' ''24'' None 0"
  let ?v = "[''28'', aszMonthStr ! 11, ''99999999999'', ''05'', ''24'', fst (zones ! 0)]"
  have s: "?s = ''28 Dec 99999999999 05:24 GMT''" by (simp add: rfc822_text_def aszMonthStr_def zones_def)
  have "length ?s = 28" unfolding s by simp
  then have n: "length ?s < 2 ^ 62" by (simp only:) simp
  have d: "digits ''28''" "digits ''99999999999''" "digits ''05''" "digits ''24''" by code_simp+
  have "filter (\<lambda>w. w \<noteq> []) (split_on delim ?s) = opt_words (map_option (\<lambda>k. aszWeekDayStr ! k) None) @
      [''28'', aszMonthStr ! 11, ''99999999999'', ''05'', ''24''] @ opt_words None @ [fst (zones ! 0)]" and q: "CHR 0x22 \<notin> set ?s"
    using rfc822_tokens [OF _ _ _ d, where wd = None and sec = None and mo = 11 and z = 0]
    by simp_all
  then have f: "filter (\<lambda>w. w \<noteq> []) (split_on delim ?s) = ?v" by (simp add: opt_words_def)
  have ne: "?s \<noteq> []" unfolding s by simp
  have tok: "CSLTokenizeStringComplex (Some ?s) '' ,:'' True False = Some (Some ?v)"
    by (simp only: tokens_plain [OF ne n q] f)
  have "c_isdigit (c_at ''28'' 0)" "c_atoi ''28'' = Some 28" "c_atoi ''99999999999'' = None" by code_simp+
  moreover have "csl_find (\<lambda>s. EQUAL (aszMonthStr ! 11) s) 0 aszMonthStr = 11"
    using csl_find_distinct [OF names_distinct(2), of 11 0] by (simp add: name_lengths)
  ultimately have "parse_date ?v r = None"
    by (simp add: parse_date_def val_def val_cell_def arr_get_def Let_def)
  then have "CPLParseRFC822DateTime ?s r = None" by (simp add: CPLParseRFC822DateTime_def tok)
  then show ?thesis unfolding s .
qed

text \<open>C35: A date in the form of RFC 822, shorter than 2^62 characters, with or without the weekday and the seconds,
  with any of the twelve months and the eleven zone names, and with its numbers in any number of digits, leading
  zeros included, as long as an int holds the year and the day is from 1 to 31, the hour from 0 to 23, the minute
  from 0 to 59 and the second from 0 to 60, is parsed to its parts: years below 100 count from 1930 to 2029, missing
  seconds are -1, a missing weekday is 0, and the zone is counted in quarters of an hour from 100.\<close>

theorem CPLParseRFC822DateTime_parses:
  assumes "case wd of None \<Rightarrow> True | Some k \<Rightarrow> k < 7" "mo < 12" "z < 11"
    and "digits d" "digits y" "digits h" "digits mi" "case sec of None \<Rightarrow> True | Some s \<Rightarrow> digits s"
    and "c_atoi d = Some day" "1 \<le> day" "day \<le> 31" "c_atoi y = Some n"
    and "c_atoi h = Some hour" "0 \<le> hour" "hour \<le> 23" "c_atoi mi = Some minute" "0 \<le> minute" "minute \<le> 59"
    and "case sec of None \<Rightarrow> second = - 1 | Some s \<Rightarrow> c_atoi s = Some second \<and> 0 \<le> second \<and> second \<le> 60"
    and "length (rfc822_text wd d mo y h mi sec z) < 2 ^ 62"
  shows "CPLParseRFC822DateTime (rfc822_text wd d mo y h mi sec z) r =
    Some (\<lparr>pnYear = (if 0 \<le> n \<and> n < 30 then n + 2000 else if 30 \<le> n \<and> n < 100 then n + 1900 else n),
           pnMonth = int mo + 1, pnDay = day, pnHour = hour, pnMinute = minute, pnSecond = second,
           pnTZFlag = 100 + 4 * snd (zones ! z),
           pnWeekDay = (case wd of None \<Rightarrow> 0 | Some k \<Rightarrow> int k + 1)\<rparr>, True)"
proof -
  have ne: "rfc822_text wd d mo y h mi sec z \<noteq> []" by (simp add: rfc822_text_def)
  have tok: "CSLTokenizeStringComplex (Some (rfc822_text wd d mo y h mi sec z)) '' ,:'' True False =
      Some (Some (opt_words (map_option (\<lambda>k. aszWeekDayStr ! k) wd) @ [d, aszMonthStr ! mo, y, h, mi] @
        opt_words sec @ [fst (zones ! z)]))"
    using tokens_plain [OF ne assms(20)] rfc822_tokens [OF assms(1-8)] by simp
  have zn: "\<not> c_isdigit (c_at (fst (zones ! z)) 0)"
    using assms(3) nth_mem [of z "map fst zones"] name_words(3) by (simp add: name_lengths)
  have wn: "\<not> c_isdigit (c_at (aszWeekDayStr ! k) 0)" "csl_find (\<lambda>s. EQUAL (aszWeekDayStr ! k) s) 0 aszWeekDayStr = int k"
    if "wd = Some k" for k
    using that assms(1) name_words(1) csl_find_distinct [OF names_distinct(1), of k 0] by (simp_all add: name_lengths)
  have mn: "csl_find (\<lambda>s. EQUAL (aszMonthStr ! mo) s) 0 aszMonthStr = int mo"
    using assms(2) csl_find_distinct [OF names_distinct(2), of mo 0] by (simp add: name_lengths)
  have dg: "c_isdigit (c_at d 0)" using assms(4) by (rule digits_first)
  have sg: "c_isdigit (c_at s 0)" if "sec = Some s" for s using that assms(8) digits_first by simp
  note facts = tok zn mn dg parse_zone_name [OF assms(3)] assms(9-18)
  show ?thesis
    using facts wn sg assms(19)
    by (cases wd; cases sec)
      (simp_all add: CPLParseRFC822DateTime_def parse_date_def parse_time_def opt_words_def val_def
        val_cell_def arr_get_def Let_def)
qed

theorem CPLParseRFC822DateTime_parses_witness:
  "CPLParseRFC822DateTime ''Fri, 28 Dec 2007 05:24:17 EST''
     \<lparr>pnYear = 0, pnMonth = 0, pnDay = 0, pnHour = 0, pnMinute = 0, pnSecond = 0, pnTZFlag = 0, pnWeekDay = 0\<rparr> =
   Some (\<lparr>pnYear = 2007, pnMonth = 12, pnDay = 28, pnHour = 5, pnMinute = 24, pnSecond = 17, pnTZFlag = 80,
          pnWeekDay = 5\<rparr>, True)"
  using CPLParseRFC822DateTime_parses [of "Some 4" 11 3 "''28''" "''2007''" "''05''" "''24''" "Some ''17''" 28 2007 5 24 17
    "\<lparr>pnYear = 0, pnMonth = 0, pnDay = 0, pnHour = 0, pnMinute = 0, pnSecond = 0, pnTZFlag = 0, pnWeekDay = 0\<rparr>"]
  by (simp add: rfc822_text_def digits_def c_isdigit_def ccode_def c_atoi_def c_scan_int_def c_int_def c_isspace_def aszWeekDayStr_def
      aszMonthStr_def zones_def)

end
