(* ===== verification/HalfFloat.thy ===== *)
theory HalfFloat
  imports Prelude
begin

section \<open>Small floating point formats (port/cpl_float.cpp)\<close>

text \<open>
  Conversions between the 16-bit, the 24-bit and the 32-bit floating point formats, on bit patterns.
  The loop that renormalises a denormalised number ends only when the mantissa is not zero, so it is
  a partial function.
\<close>

type_synonym u16 = "16 word"

subsection \<open>The conversions\<close>

text \<open>\<open>while (!(iMantissa & hidden)) { iMantissa <<= 1; iExponent -= 1; }\<close>\<close>

partial_function (option) renormalize :: "u32 \<Rightarrow> u32 \<Rightarrow> int \<Rightarrow> (u32 \<times> int) option" where
  "renormalize hidden iMantissa iExponent =
     (if iMantissa AND hidden = 0 then renormalize hidden (push_bit 1 iMantissa) (iExponent - 1)
      else Some (iMantissa, iExponent))"

declare renormalize.simps [code]

definition CPLHalfToFloat :: "u16 \<Rightarrow> u32 option" where
  "CPLHalfToFloat iHalf =
     (let iSign = ucast (drop_bit 15 iHalf AND 1) :: u32;
          iExponent = uint (drop_bit 10 iHalf AND 0x1f);
          iMantissa = ucast (iHalf AND 0x3ff) :: u32
      in if iExponent = 0 \<and> iMantissa = 0 then Some (push_bit 31 iSign)
         else if iExponent = 31 then
           (if iMantissa = 0 then Some (push_bit 31 iSign OR 0x7f800000)
            else Some (push_bit 31 iSign OR 0x7f800000 OR push_bit 13 iMantissa))
         else do {
           (iMantissa, iExponent) \<leftarrow>
             (if iExponent = 0 then do {
                (iMantissa, iExponent) \<leftarrow> renormalize 0x400 iMantissa iExponent;
                Some (iMantissa AND NOT 0x400, iExponent + 1)
              } else Some (iMantissa, iExponent));
           let iExponent = iExponent + (127 - 15);
           let iMantissa = push_bit 13 iMantissa;
           Some (push_bit 31 iSign OR push_bit 23 (of_int iExponent) OR iMantissa)
         })"

definition CPLTripleToFloat :: "u32 \<Rightarrow> u32 option" where
  "CPLTripleToFloat iTriple =
     (let iSign = drop_bit 23 iTriple AND 1;
          iExponent = uint (drop_bit 16 iTriple AND 0x7f);
          iMantissa = iTriple AND 0xffff
      in if iExponent = 0 \<and> iMantissa = 0 then Some (push_bit 31 iSign)
         else if iExponent = 127 then
           (if iMantissa = 0 then Some (push_bit 31 iSign OR 0x7f800000)
            else Some (push_bit 31 iSign OR 0x7f800000 OR push_bit 7 iMantissa))
         else do {
           (iMantissa, iExponent) \<leftarrow>
             (if iExponent = 0 then do {
                (iMantissa, iExponent) \<leftarrow> renormalize 0x10000 iMantissa iExponent;
                Some (iMantissa AND NOT 0x10000, iExponent + 1)
              } else Some (iMantissa, iExponent));
           let iExponent = iExponent + (127 - 63);
           let iMantissa = push_bit 7 iMantissa;
           Some (push_bit 31 iSign OR push_bit 23 (of_int iExponent) OR iMantissa)
         })"

text \<open>\<open>bHasWarned\<close> is set when a number out of range becomes an infinity.\<close>

definition CPLFloatToHalf :: "u32 \<Rightarrow> bool \<Rightarrow> u16 \<times> bool" where
  "CPLFloatToHalf iFloat32 bHasWarned =
     (let iSign = drop_bit 31 iFloat32 AND 1;
          iExponent = drop_bit 23 iFloat32 AND 0xff;
          iMantissa = iFloat32 AND 0x7fffff
      in if iExponent = 255 then
           (if iMantissa = 0 then (ucast (push_bit 15 iSign OR 0x7C00), bHasWarned)
            else if drop_bit 13 iMantissa \<noteq> 0
            then (ucast (push_bit 15 iSign OR 0x7C00 OR drop_bit 13 iMantissa), bHasWarned)
            else (ucast (push_bit 15 iSign OR 0x7E00), bHasWarned))
         else if iExponent \<le> 127 - 15 then
           (if 13 + 1 + 127 - 15 - iExponent \<ge> 32 then (ucast (push_bit 15 iSign), bHasWarned)
            else (ucast (push_bit 15 iSign OR
                    drop_bit (unat (13 + 1 + 127 - 15 - iExponent)) (iMantissa OR 0x800000)), bHasWarned))
         else if iExponent - (127 - 15) \<ge> 31 then (ucast (push_bit 15 iSign OR 0x7C00), True)
         else (ucast (push_bit 15 iSign OR push_bit 10 (iExponent - (127 - 15)) OR drop_bit 13 iMantissa),
               bHasWarned))"

subsection \<open>What a bit pattern means\<close>

text \<open>A format has \<open>eb\<close> exponent and \<open>mb\<close> mantissa bits.  A finite number is a multiple of the smallest
  positive number of its format, its units: for the 16-bit format two to the power -24, for the 24-bit
  one -78, for the 32-bit one -149.\<close>

datatype fp = Finite bool nat | Infinite bool | NotANumber bool nat

definition fp_units :: "nat \<Rightarrow> nat \<Rightarrow> nat \<Rightarrow> nat" where
  "fp_units mb e m = (if e = 0 then m else (2 ^ mb + m) * 2 ^ (e - 1))"

definition fp_parts :: "nat \<Rightarrow> nat \<Rightarrow> bool \<Rightarrow> nat \<Rightarrow> nat \<Rightarrow> fp" where
  "fp_parts eb mb s e m =
     (if e = 2 ^ eb - 1 then (if m = 0 then Infinite s else NotANumber s m)
      else Finite s (fp_units mb e m))"

definition fp_value :: "nat \<Rightarrow> nat \<Rightarrow> nat \<Rightarrow> fp" where
  "fp_value eb mb n = fp_parts eb mb (odd (n div 2 ^ (eb + mb))) (n div 2 ^ mb mod 2 ^ eb) (n mod 2 ^ mb)"

text \<open>The same number in the units of a wider format.\<close>

fun fp_widen :: "nat \<Rightarrow> nat \<Rightarrow> fp \<Rightarrow> fp" where
  "fp_widen d p (Finite s u) = Finite s (u * 2 ^ d)"
| "fp_widen d p (Infinite s) = Infinite s"
| "fp_widen d p (NotANumber s m) = NotANumber s (m * 2 ^ p)"

lemma fp_value_parts:
  assumes "e < 2 ^ eb" "m < 2 ^ mb"
  shows "fp_value eb mb (of_bool s * 2 ^ (eb + mb) + e * 2 ^ mb + m) = fp_parts eb mb s e m"
proof -
  let ?n = "of_bool s * 2 ^ (eb + mb) + e * 2 ^ mb + m"
  have n: "?n = (of_bool s * 2 ^ eb + e) * 2 ^ mb + m" by (simp add: power_add algebra_simps)
  have d: "?n div 2 ^ mb = of_bool s * 2 ^ eb + e" "?n mod 2 ^ mb = m"
    unfolding n using assms(2) by simp_all
  have "?n div 2 ^ (eb + mb) = of_bool s"
    using assms(1) d(1) by (simp add: power_add mult.commute [of "2 ^ eb"] div_mult2_eq)
  then show ?thesis using assms(1) d by (cases s) (simp_all add: fp_value_def)
qed

subsection \<open>Fields of a word\<close>

lemma mask_nat: "unat (drop_bit k w AND mask n) = unat w div 2 ^ k mod 2 ^ n" for w :: "'a::len word"
proof -
  have "unat (drop_bit k w) = drop_bit k (unat w)"
    by (simp only: unsigned_drop_bit_eq) (simp add: take_bit_nat_eq_self)
  then have "unat (drop_bit k w AND mask n) = take_bit n (drop_bit k (unat w))"
    by (simp only: take_bit_eq_mask [symmetric] unsigned_take_bit_eq)
  then show ?thesis by (simp add: take_bit_eq_mod drop_bit_eq_div)
qed

lemma masks:
  "(1::'a::len word) = mask 1" "(0x1f::'a word) = mask 5" "(0x7f::'a word) = mask 7" "(0xff::'a word) = mask 8"
  "(0x3ff::'a word) = mask 10" "(0xffff::'a word) = mask 16" "(0x7fffff::'a word) = mask 23"
  by (simp_all add: mask_eq_exp_minus_1)

text \<open>A sign, an exponent and a mantissa put together.\<close>

lemma assemble:
  fixes s e m :: u32
  assumes "unat s < 2" "unat e < 2 ^ 8" "unat m < 2 ^ 23"
  shows "unat (push_bit 31 s OR push_bit 23 e OR m) = unat s * 2 ^ 31 + unat e * 2 ^ 23 + unat m"
proof -
  have p: "unat (push_bit k x) = push_bit k (unat x)" if "unat x < 2 ^ n" "k + n \<le> 32" for k n and x :: u32
  proof -
    have "unat x * 2 ^ k < 2 ^ n * 2 ^ k" using that(1) by simp
    also have "\<dots> = 2 ^ (k + n)" by (simp add: power_add)
    also have "\<dots> \<le> 2 ^ 32" using that(2) by (intro power_increasing) simp_all
    finally have "push_bit k (unat x) < 2 ^ 32" by (simp add: push_bit_eq_mult)
    then show ?thesis by (simp only: unsigned_push_bit_eq) (simp add: take_bit_nat_eq_self)
  qed
  have e: "push_bit 23 (unat e) OR unat m = push_bit 23 (unat e) + unat m"
    using assms(3) by (rule or_push_bit)
  have lt: "push_bit 23 (unat e) + unat m < 2 ^ 31"
    using assms(2,3) by (simp add: push_bit_eq_mult)
  have "unat (push_bit 31 s OR push_bit 23 e OR m) = push_bit 31 (unat s) OR (push_bit 23 (unat e) OR unat m)"
    using p [of s 1 31] p [of e 8 23] assms by (simp add: unsigned_or_eq or.assoc)
  also have "\<dots> = push_bit 31 (unat s) + (push_bit 23 (unat e) + unat m)"
    unfolding e by (rule or_push_bit [OF lt])
  finally show ?thesis by (simp add: push_bit_eq_mult)
qed

text \<open>The renormalisation shifts the mantissa up to the hidden bit.\<close>

lemma bit_div: "bit (m::u32) k \<longleftrightarrow> odd (unat m div 2 ^ k)"
  by (simp add: bit_unsigned_iff bit_iff_odd [symmetric])

lemma hidden_bit:
  assumes "unat (m::u32) < 2 ^ Suc k" "k < 32"
  shows "m AND push_bit k 1 = 0 \<longleftrightarrow> unat m < 2 ^ k"
proof -
  have "m AND push_bit k 1 = 0 \<longleftrightarrow> \<not> bit m k"
    by (simp add: push_bit_of_1 and_exp_eq_0_iff_not_bit)
  moreover note bit_div [of m k]
  moreover have "unat m div 2 ^ k = (if unat m < 2 ^ k then 0 else 1)"
    using assms(1) by (simp add: div_eq_dividend_iff) (simp add: div_nat_eqI)
  ultimately show ?thesis by simp
qed

lemma renormalize_result:
  "unat m < 2 ^ k \<Longrightarrow> k < 31 \<Longrightarrow> 2 ^ k \<le> unat m * 2 ^ j \<Longrightarrow>
   \<exists>m' i. renormalize (push_bit k 1) m e = Some (m', e - int i) \<and> i \<le> j \<and>
     unat m' = unat m * 2 ^ i \<and> 2 ^ k \<le> unat m' \<and> unat m' < 2 ^ Suc k"
proof (induction j arbitrary: m e)
  case 0
  then show ?case by simp
next
  case (Suc j)
  have m2: "unat (push_bit 1 m) = 2 * unat m"
  proof -
    have "2 * unat m < 2 * 2 ^ k" using Suc.prems(1) by simp
    also have "\<dots> = 2 ^ Suc k" by simp
    also have "\<dots> \<le> 2 ^ 32" using Suc.prems(2) by (intro power_increasing) simp_all
    finally have "push_bit 1 (unat m) < 2 ^ 32" by (simp add: push_bit_eq_mult)
    then show ?thesis by (simp only: unsigned_push_bit_eq) (simp add: take_bit_nat_eq_self push_bit_eq_mult)
  qed
  have "m AND push_bit k 1 = 0" using hidden_bit [of m k] Suc.prems(1,2) by simp
  then have step: "renormalize (push_bit k 1) m e = renormalize (push_bit k 1) (push_bit 1 m) (e - 1)"
    by (subst renormalize.simps) simp
  show ?case
  proof (cases "unat (push_bit 1 m) < 2 ^ k")
    case True
    have "2 ^ k \<le> unat (push_bit 1 m) * 2 ^ j" unfolding m2 using Suc.prems(3) by (simp add: ac_simps)
    from Suc.IH [OF True Suc.prems(2) this, of "e - 1"] obtain m' i
      where "renormalize (push_bit k 1) (push_bit 1 m) (e - 1) = Some (m', e - 1 - int i)" "i \<le> j"
        "unat m' = unat (push_bit 1 m) * 2 ^ i" "2 ^ k \<le> unat m'" "unat m' < 2 ^ Suc k" by blast
    then show ?thesis using step m2 by (intro exI [of _ m'] exI [of _ "Suc i"]) simp
  next
    case False
    have "\<not> push_bit 1 m AND push_bit k 1 = 0"
      using hidden_bit [of "push_bit 1 m" k] False Suc.prems(1,2) m2 by simp
    then have "renormalize (push_bit k 1) (push_bit 1 m) (e - 1) = Some (push_bit 1 m, e - 1)"
      by (subst renormalize.simps) simp
    then show ?thesis
      using step False m2 Suc.prems(1) by (intro exI [of _ "push_bit 1 m"] exI [of _ 1]) simp
  qed
qed

lemma clear_hidden:
  assumes "2 ^ k \<le> unat (m::u32)" "unat m < 2 ^ Suc k" "k < 31"
  shows "unat (m AND NOT (push_bit k 1)) = unat m - 2 ^ k"
proof -
  have high: "\<not> bit m n" if "k < n" for n
  proof -
    have "(2::nat) ^ Suc k \<le> 2 ^ n" using that by (intro power_increasing) simp_all
    then have "unat m div 2 ^ n = 0" using assms(2) by simp
    then show ?thesis by (simp add: bit_div)
  qed
  have "m AND NOT (push_bit k 1) = take_bit k m"
    by (rule bit_word_eqI) (use high linorder_neq_iff in \<open>auto simp: bit_simps\<close>)
  then have "unat (m AND NOT (push_bit k 1)) = unat m mod 2 ^ k"
    by (simp only: unsigned_take_bit_eq) (simp add: take_bit_eq_mod)
  moreover have "unat m = 2 ^ k + (unat m - 2 ^ k)" "unat m - 2 ^ k < 2 ^ k" using assms(1,2) by simp_all
  ultimately show ?thesis by (metis mod_add_self1 mod_less)
qed

lemma unat_push_bit:
  assumes "unat (x::u32) * 2 ^ k < 2 ^ 32"
  shows "unat (push_bit k x) = unat x * 2 ^ k"
  using assms by (simp only: unsigned_push_bit_eq) (simp add: take_bit_nat_eq_self push_bit_eq_mult)

text \<open>Both widening conversions: a format with \<open>eb\<close> exponent and \<open>k\<close> mantissa bits, the difference \<open>c\<close>
  of the exponent biases.\<close>

definition to_float :: "nat \<Rightarrow> nat \<Rightarrow> nat \<Rightarrow> u32 \<Rightarrow> int \<Rightarrow> u32 \<Rightarrow> u32 option" where
  "to_float eb k c iSign iExponent iMantissa =
     (if iExponent = 0 \<and> iMantissa = 0 then Some (push_bit 31 iSign)
      else if iExponent = 2 ^ eb - 1 then
        (if iMantissa = 0 then Some (push_bit 31 iSign OR 0x7f800000)
         else Some (push_bit 31 iSign OR 0x7f800000 OR push_bit (23 - k) iMantissa))
      else do {
        (iMantissa, iExponent) \<leftarrow>
          (if iExponent = 0 then do {
             (iMantissa, iExponent) \<leftarrow> renormalize (push_bit k 1) iMantissa iExponent;
             Some (iMantissa AND NOT (push_bit k 1), iExponent + 1)
           } else Some (iMantissa, iExponent));
        Some (push_bit 31 iSign OR push_bit 23 (of_int (iExponent + int c)) OR push_bit (23 - k) iMantissa)
      })"

lemma widen_result:
  fixes iSign iMantissa :: u32
  assumes k: "k < 23" "k \<le> c" "c + 2 ^ eb \<le> 256" "1 < eb" "eb \<le> 8"
    and s: "unat iSign = of_bool s" and e: "iExponent = int e" "e < 2 ^ eb" and m: "unat iMantissa < 2 ^ k"
  shows "\<exists>w. to_float eb k c iSign iExponent iMantissa = Some w \<and>
      fp_value 8 23 (unat w) = fp_widen (23 - k + c) (23 - k) (fp_parts eb k s e (unat iMantissa))"
    (is "\<exists>w. ?f = Some w \<and> _")
proof -
  have p23: "(2::nat) ^ 23 = 2 ^ k * 2 ^ (23 - k)" using k(1) by (simp add: power_add [symmetric])
  have fval: "fp_value 8 23 (unat (push_bit 31 iSign OR push_bit 23 E OR M)) = fp_parts 8 23 s (unat E) (unat M)"
    if "unat E < 2 ^ 8" "unat M < 2 ^ 23" for E M :: u32
  proof -
    have "unat (push_bit 31 iSign OR push_bit 23 E OR M) = of_bool s * 2 ^ (8 + 23) + unat E * 2 ^ 23 + unat M"
      using assemble [of iSign E M] that s by simp
    then show ?thesis using fp_value_parts [of "unat E" 8 "unat M" 23 s] that by simp
  qed
  have shifted: "unat (push_bit (23 - k) M) = unat M * 2 ^ (23 - k)" "unat M * 2 ^ (23 - k) < 2 ^ 23"
    if "unat M < 2 ^ k" for M :: u32
  proof -
    show "unat M * 2 ^ (23 - k) < 2 ^ 23" unfolding p23 using that by simp
    then show "unat (push_bit (23 - k) M) = unat M * 2 ^ (23 - k)" by (intro unat_push_bit) simp
  qed
  have of_int_nat: "unat (of_int (int n) :: u32) = n" if "n < 256" for n
    using that by (simp add: unat_of_nat)
  have m0: "iMantissa = 0 \<longleftrightarrow> unat iMantissa = 0" by (simp add: unat_eq_0)
  have topi: "(2::int) ^ eb - 1 = int (2 ^ eb - 1)" by (simp add: of_nat_diff)
  have eb4: "(4::nat) \<le> 2 ^ eb" using power_increasing [of 2 eb "2::nat"] k(4) by simp
  consider (zero) "e = 0" "unat iMantissa = 0" | (top) "e = 2 ^ eb - 1" | (denormal) "e = 0" "unat iMantissa \<noteq> 0"
    | (normal) "e \<noteq> 0" "e \<noteq> 2 ^ eb - 1" by blast
  then show ?thesis
  proof cases
    case zero
    have "?f = Some (push_bit 31 iSign)" using zero e(1) m0 by (simp add: to_float_def)
    moreover have "fp_value 8 23 (unat (push_bit 31 iSign)) = Finite s 0"
      using fval [of 0 0] by (simp add: fp_parts_def fp_units_def)
    ultimately show ?thesis using zero eb4 by (simp add: fp_parts_def fp_units_def)
  next
    case top
    have ne: "e \<noteq> 0" using top eb4 by simp
    have ie: "iExponent \<noteq> 0" using ne e(1) by simp
    have it: "iExponent = 2 ^ eb - 1" by (simp only: e(1) top topi)
    have "\<not> (iExponent = 0 \<and> iMantissa = 0)" using ie by simp
    then have "?f = (if iMantissa = 0 then Some (push_bit 31 iSign OR 0x7f800000)
        else Some (push_bit 31 iSign OR 0x7f800000 OR push_bit (23 - k) iMantissa))"
      by (simp only: to_float_def if_P [OF it] if_False)
    then have "?f = Some (push_bit 31 iSign OR 0x7f800000 OR push_bit (23 - k) iMantissa)" by simp
    moreover have "fp_value 8 23 (unat (push_bit 31 iSign OR 0x7f800000 OR push_bit (23 - k) iMantissa)) =
        fp_parts 8 23 s 255 (unat iMantissa * 2 ^ (23 - k))"
      using fval [of 255 "push_bit (23 - k) iMantissa"] shifted [OF m] by simp
    ultimately show ?thesis using top by (simp add: fp_parts_def)
  next
    case normal
    have r: "e + c < 255" using normal e(2) k(3) eb4 by linarith
    have "?f = Some (push_bit 31 iSign OR push_bit 23 (of_int (int (e + c))) OR push_bit (23 - k) iMantissa)"
    proof -
      have "iExponent \<noteq> 0" "iExponent \<noteq> 2 ^ eb - 1"
        using normal unfolding e(1) topi by (simp_all only: of_nat_eq_iff of_nat_0_eq_iff not_False_eq_True)
      then show ?thesis using e(1) by (simp add: to_float_def)
    qed
    moreover have "unat (of_int (int (e + c)) :: u32) = e + c" using r by (intro of_int_nat) simp
    moreover have "(2 ^ 23 + unat iMantissa * 2 ^ (23 - k)) * 2 ^ (e + c - 1) =
        (2 ^ k + unat iMantissa) * 2 ^ (e - 1) * 2 ^ (23 - k + c)"
    proof -
      have "2 ^ 23 + unat iMantissa * 2 ^ (23 - k) = (2 ^ k + unat iMantissa) * 2 ^ (23 - k)"
        by (simp only: p23 distrib_right)
      moreover have "e + c - 1 = (e - 1) + c" using normal(1) by simp
      ultimately show ?thesis by (simp only: power_add) simp
    qed
    ultimately show ?thesis
      using fval [of "of_int (int (e + c))" "push_bit (23 - k) iMantissa"] shifted [OF m] r normal
      by (simp add: fp_parts_def fp_units_def)
  next
    case denormal
    have "1 * 2 ^ k \<le> unat iMantissa * 2 ^ k" using denormal by (intro mult_le_mono1) simp
    then obtain m' i where rn: "renormalize (push_bit k 1) iMantissa 0 = Some (m', 0 - int i)" "i \<le> k"
      "unat m' = unat iMantissa * 2 ^ i" "2 ^ k \<le> unat m'" "unat m' < 2 ^ Suc k"
      using renormalize_result [OF m, of k 0] k(1) by auto
    let ?M = "m' AND NOT (push_bit k 1)"
    have M: "unat ?M = unat m' - 2 ^ k" "unat ?M < 2 ^ k" using clear_hidden [OF rn(4,5)] rn k(1) by simp_all
    have r: "c + 1 - i < 255" "c + 1 - i \<noteq> 0" using k eb4 rn(2) by linarith+
    have ex: "- int i + 1 + int c = int (c + 1 - i)" using rn(2) k(2) by (simp add: of_nat_diff)
    have "(2::int) ^ 1 < 2 ^ eb" using k(4) by (intro power_strict_increasing) simp_all
    then have "(2::int) ^ eb \<noteq> 1" by simp
    then have "?f = Some (push_bit 31 iSign OR push_bit 23 (of_int (- int i + 1 + int c)) OR push_bit (23 - k) ?M)"
      using denormal e(1) m0 rn(1) by (simp add: to_float_def)
    then have "?f = Some (push_bit 31 iSign OR push_bit 23 (of_int (int (c + 1 - i))) OR push_bit (23 - k) ?M)"
      by (simp only: ex)
    moreover have "unat (of_int (int (c + 1 - i)) :: u32) = c + 1 - i" using r by (intro of_int_nat) simp
    moreover have "(2 ^ 23 + unat ?M * 2 ^ (23 - k)) * 2 ^ (c + 1 - i - 1) = unat iMantissa * 2 ^ (23 - k + c)"
    proof -
      have "2 ^ 23 + unat ?M * 2 ^ (23 - k) = (2 ^ k + unat ?M) * 2 ^ (23 - k)" by (simp only: p23 distrib_right)
      also have "2 ^ k + unat ?M = unat iMantissa * 2 ^ i" using M(1) rn(3,4) by simp
      finally have "(2 ^ 23 + unat ?M * 2 ^ (23 - k)) * 2 ^ (c + 1 - i - 1) = unat iMantissa * 2 ^ (i + (23 - k) + (c - i))"
        by (simp add: power_add)
      moreover have "i + (23 - k) + (c - i) = 23 - k + c" using rn(2) k(2) by simp
      ultimately show ?thesis by simp
    qed
    ultimately show ?thesis
      using fval [of "of_int (int (c + 1 - i))" "push_bit (23 - k) ?M"] shifted [OF M(2)] r denormal eb4
      by (simp add: fp_parts_def fp_units_def)
  qed
qed

lemma sign_bit: "unat (drop_bit k w AND 1) = of_bool (odd (unat w div 2 ^ k))" for w :: "'a::len word"
  by (subst masks(1)) (simp only: mask_nat, simp add: odd_iff_mod_2_eq_one)

lemma mask_0: "unat (w AND mask n) = unat w mod 2 ^ n" for w :: "'a::len word"
  using mask_nat [of 0 w n] by simp

lemma take_bits:
  fixes n :: nat
  assumes "k + j \<le> l"
  shows "n mod 2 ^ l div 2 ^ k mod 2 ^ j = n div 2 ^ k mod 2 ^ j"
proof -
  have "take_bit j (drop_bit k (take_bit l n)) = take_bit j (drop_bit k n)"
    by (rule bit_eqI) (use assms in \<open>auto simp: bit_simps\<close>)
  then show ?thesis by (simp add: take_bit_eq_mod drop_bit_eq_div)
qed

lemma mod_mod_power: "n mod 2 ^ l mod 2 ^ j = n mod 2 ^ j" if "j \<le> l" for n :: nat
  using take_bits [of 0 j l n] that by simp

lemma CPLHalfToFloat_exact_half:
  "\<exists>w. CPLHalfToFloat h = Some w \<and> fp_value 8 23 (unat w) = fp_widen 125 13 (fp_value 5 10 (unat h))"
proof -
  let ?s = "ucast (drop_bit 15 h AND 1) :: u32" and ?m = "ucast (h AND 0x3ff) :: u32"
  have up: "unat (ucast x :: u32) = unat x" for x :: u16
    by (simp add: unsigned_ucast_eq) (simp add: take_bit_nat_eq_self order.strict_trans2 [OF unsigned_less])
  have s: "unat ?s = of_bool (odd (unat h div 2 ^ 15))" by (simp only: up sign_bit)
  have e: "uint (drop_bit 10 h AND 0x1f) = int (unat h div 2 ^ 10 mod 2 ^ 5)"
    by (subst masks(2)) (simp only: mask_nat [symmetric] uint_nat)
  have m: "unat ?m = unat h mod 2 ^ 10" by (subst masks(5)) (simp only: up mask_0)
  have v: "fp_value 5 10 (unat h) = fp_parts 5 10 (odd (unat h div 2 ^ 15)) (unat h div 2 ^ 10 mod 2 ^ 5) (unat ?m)"
    by (simp add: fp_value_def m)
  have "CPLHalfToFloat h = to_float 5 10 112 ?s (uint (drop_bit 10 h AND 0x1f)) ?m"
    by (simp add: CPLHalfToFloat_def to_float_def Let_def)
  then show ?thesis
    using widen_result [OF _ _ _ _ _ s e, where k = 10 and c = 112 and iMantissa = ?m] unfolding v by (simp add: m)
qed

text \<open>CPLHalfToFloat and CPLTripleToFloat are exact on every bit pattern: the renormalisation ends,
  a finite number of the small format becomes the same number, the sign of zeros and infinities and the
  payload of a number that is not one are kept.\<close>

theorem CPLHalfToFloat_exact:
  "map_option (\<lambda>w. fp_value 8 23 (unat w)) (CPLHalfToFloat h) =
     Some (fp_widen 125 13 (fp_value 5 10 (unat h))) \<and>
   map_option (\<lambda>w. fp_value 8 23 (unat w)) (CPLTripleToFloat t) =
     Some (fp_widen 71 7 (fp_value 7 16 (unat t mod 2 ^ 24)))"
proof (rule conjI)
  show "map_option (\<lambda>w. fp_value 8 23 (unat w)) (CPLHalfToFloat h) =
     Some (fp_widen 125 13 (fp_value 5 10 (unat h)))" using CPLHalfToFloat_exact_half [of h] by auto
next
  let ?s = "drop_bit 23 t AND 1" and ?m = "t AND 0xffff"
  have s: "unat ?s = of_bool (odd (unat t div 2 ^ 23))" by (rule sign_bit)
  have e: "uint (drop_bit 16 t AND 0x7f) = int (unat t div 2 ^ 16 mod 2 ^ 7)"
    by (subst masks(3)) (simp only: mask_nat [symmetric] uint_nat)
  have m: "unat ?m = unat t mod 2 ^ 16" by (subst masks(6)) (simp only: mask_0)
  have v: "fp_value 7 16 (unat t mod 2 ^ 24) =
      fp_parts 7 16 (odd (unat t div 2 ^ 23)) (unat t div 2 ^ 16 mod 2 ^ 7) (unat ?m)"
  proof -
    have "odd (unat t mod 2 ^ 24 div 2 ^ 23) = odd (unat t div 2 ^ 23)"
      using take_bits [of 23 1 24 "unat t"] by (simp only: odd_iff_mod_2_eq_one) simp
    moreover have "unat t mod 2 ^ 24 div 2 ^ 16 mod 2 ^ 7 = unat t div 2 ^ 16 mod 2 ^ 7" by (rule take_bits) simp
    moreover have "unat t mod 2 ^ 24 mod 2 ^ 16 = unat t mod 2 ^ 16" by (rule mod_mod_power) simp
    moreover have "(7::nat) + 16 = 23" by simp
    ultimately show ?thesis by (simp only: fp_value_def m)
  qed
  have "CPLTripleToFloat t = to_float 7 16 64 ?s (uint (drop_bit 16 t AND 0x7f)) ?m"
    by (simp add: CPLTripleToFloat_def to_float_def Let_def)
  then have "\<exists>w. CPLTripleToFloat t = Some w \<and>
      fp_value 8 23 (unat w) = fp_widen (23 - 16 + 64) (23 - 16) (fp_value 7 16 (unat t mod 2 ^ 24))"
    using widen_result [OF _ _ _ _ _ s e, where k = 16 and c = 64 and iMantissa = ?m] unfolding v by (simp add: m)
  then show "map_option (\<lambda>w. fp_value 8 23 (unat w)) (CPLTripleToFloat t) =
     Some (fp_widen 71 7 (fp_value 7 16 (unat t mod 2 ^ 24)))" by auto
qed

subsection \<open>Narrowing\<close>

text \<open>The bits of a half below its sign, from the exponent and the mantissa of a float.\<close>

definition half_bits :: "nat \<Rightarrow> nat \<Rightarrow> nat" where
  "half_bits E M =
     (if E = 255 then (if M = 0 then 31744 else if 2 ^ 13 \<le> M then 31744 + M div 2 ^ 13 else 32256)
      else if E \<le> 112 then (if E \<le> 94 then 0 else (M + 2 ^ 23) div 2 ^ (126 - E))
      else if 143 \<le> E then 31744
      else (E - 112) * 2 ^ 10 + M div 2 ^ 13)"

lemma half_assemble:
  fixes s x :: u32
  assumes "unat s < 2" "unat x < 2 ^ 15"
  shows "unat (ucast (push_bit 15 s OR x) :: u16) = unat s * 2 ^ 15 + unat x"
proof -
  have p: "unat (push_bit 15 s) = push_bit 15 (unat s)"
    using assms(1) by (subst unat_push_bit) (simp_all add: push_bit_eq_mult)
  have "unat (push_bit 15 s OR x) = push_bit 15 (unat s) + unat x"
    by (simp only: unsigned_or_eq p or_push_bit [OF assms(2)])
  moreover have "push_bit 15 (unat s) + unat x < 2 ^ 16" using assms by (simp add: push_bit_eq_mult)
  ultimately show ?thesis
    by (simp add: unsigned_ucast_eq take_bit_nat_eq_self) (simp add: push_bit_eq_mult)
qed

lemma unat_drop_bit: "unat (drop_bit k w) = unat w div 2 ^ k" for w :: "'a::len word"
proof -
  have "unat (drop_bit k w) = drop_bit k (unat w)"
    by (simp only: unsigned_drop_bit_eq) (simp add: take_bit_nat_eq_self)
  then show ?thesis by (simp add: drop_bit_eq_div)
qed

lemma half_bits_less: "M < 2 ^ 23 \<Longrightarrow> E < 2 ^ 8 \<Longrightarrow> half_bits E M < 2 ^ 15"
proof -
  assume M: "M < 2 ^ 23" and E: "E < 2 ^ 8"
  have m: "M div 2 ^ 13 < 2 ^ 10" using M by (intro less_mult_imp_div_less) simp
  have "(M + 2 ^ 23) div 2 ^ (126 - E) \<le> (M + 2 ^ 23) div 2 ^ 14" if "E \<le> 112"
    using that by (intro div_le_mono2 power_increasing) simp_all
  moreover have "(M + 2 ^ 23) div 2 ^ 14 < 2 ^ 10" using M by (intro less_mult_imp_div_less) simp
  moreover have "(E - 112) * 2 ^ 10 + M div 2 ^ 13 < 31 * 2 ^ 10" if "E < 143" "\<not> E \<le> 112"
  proof -
    have "(E - 112) * 2 ^ 10 \<le> 30 * 2 ^ 10" using that by (intro mult_le_mono1) simp
    then show ?thesis using m by simp
  qed
  ultimately show "half_bits E M < 2 ^ 15" using m
    by (cases "E \<le> 112"; cases "E < 143") (auto simp: half_bits_def)
qed

lemma CPLFloatToHalf_bits:
  fixes f :: u32
  defines "s \<equiv> odd (unat f div 2 ^ 31)" and "E \<equiv> unat f div 2 ^ 23 mod 2 ^ 8" and "M \<equiv> unat f mod 2 ^ 23"
  shows "unat (fst (CPLFloatToHalf f b)) = of_bool s * 2 ^ 15 + half_bits E M"
    and "snd (CPLFloatToHalf f b) \<longleftrightarrow> b \<or> 143 \<le> E \<and> E < 255"
proof -
  define sw where "sw = drop_bit 31 f AND 1"
  define ew where "ew = drop_bit 23 f AND 0xff"
  define mw where "mw = f AND 0x7fffff"
  have s: "unat sw = of_bool s" unfolding s_def sw_def by (rule sign_bit)
  have e: "unat ew = E" unfolding E_def ew_def by (subst masks(4)) (simp only: mask_nat)
  have m: "unat mw = M" unfolding M_def mw_def by (subst masks(7)) (simp only: mask_0)
  have M: "M < 2 ^ 23" and E: "E < 2 ^ 8" by (simp_all add: M_def E_def)
  have s2: "unat sw < 2" using s by simp
  note asm = half_assemble [OF s2]
  have z: "unat (ucast (push_bit 15 sw) :: u16) = unat sw * 2 ^ 15" using asm [of 0] by simp
  have top: "unat (0x7C00 OR drop_bit 13 mw) = 31744 + M div 2 ^ 13"
  proof -
    have "M div 2 ^ 13 < 2 ^ 10" using M by (intro less_mult_imp_div_less) simp
    then have "push_bit 10 31 OR (M div 2 ^ 13) = push_bit 10 31 + M div 2 ^ 13" by (rule or_push_bit)
    then show ?thesis by (simp add: unsigned_or_eq unat_drop_bit m push_bit_eq_mult)
  qed
  have nor: "unat (push_bit 10 (ew - 112) OR drop_bit 13 mw) = (E - 112) * 2 ^ 10 + M div 2 ^ 13" if "112 < E"
  proof -
    define xw where "xw = ew - 112"
    have x: "unat xw = E - 112" unfolding xw_def using that e by (simp add: unat_sub word_le_nat_alt)
    moreover have "M div 2 ^ 13 < 2 ^ 10" using M by (intro less_mult_imp_div_less) simp
    moreover have "unat (push_bit 10 xw) = (E - 112) * 2 ^ 10"
      using E x by (subst unat_push_bit) simp_all
    ultimately show ?thesis using or_push_bit [of "M div 2 ^ 13" 10 "E - 112"]
      unfolding xw_def [symmetric] by (simp add: unsigned_or_eq unat_drop_bit m push_bit_eq_mult)
  qed
  have den: "unat (drop_bit (unat (126 - ew)) (mw OR 0x800000)) = (M + 2 ^ 23) div 2 ^ (126 - E)"
    and sh: "32 \<le> 126 - ew \<longleftrightarrow> E \<le> 94" if "E \<le> 112"
  proof -
    have "unat (126 - ew) = 126 - E" using that e by (simp add: unat_sub word_le_nat_alt)
    moreover define hw where "hw = mw OR 0x800000"
    moreover have "unat hw = M + 2 ^ 23"
      using or_push_bit [OF M, of 1] by (simp add: hw_def unsigned_or_eq m push_bit_eq_mult or.commute)
    ultimately show "unat (drop_bit (unat (126 - ew)) (mw OR 0x800000)) = (M + 2 ^ 23) div 2 ^ (126 - E)"
      "32 \<le> 126 - ew \<longleftrightarrow> E \<le> 94"
      using that unfolding hw_def [symmetric] by (auto simp: unat_drop_bit word_le_nat_alt)
  qed
  have E255: "ew = 255 \<longleftrightarrow> E = 255" by (simp add: e [symmetric] word_unat_eq_iff)
  have m0: "mw = 0 \<longleftrightarrow> M = 0" by (simp add: m [symmetric] unat_eq_0)
  have m13: "drop_bit 13 mw = 0 \<longleftrightarrow> M < 2 ^ 13"
    by (simp add: m [symmetric] unat_eq_0 [symmetric] unat_drop_bit div_eq_0_iff)
  have e112: "ew \<le> 112 \<longleftrightarrow> E \<le> 112" by (simp add: e [symmetric] word_le_nat_alt)
  have e31: "31 \<le> ew - 112 \<longleftrightarrow> 143 \<le> E" if "112 < E"
    using that e by (auto simp: unat_sub word_le_nat_alt)
  note hb = half_bits_less [OF M E]
  have nan: "unat (ucast (push_bit 15 sw OR 0x7E00) :: u16) = unat sw * 2 ^ 15 + 32256" by (subst asm) simp_all
  have inf: "unat (ucast (push_bit 15 sw OR 0x7C00) :: u16) = unat sw * 2 ^ 15 + 31744" by (subst asm) simp_all
  have over: "unat (ucast (push_bit 15 sw OR 0x7C00 OR drop_bit 13 mw) :: u16) =
      unat sw * 2 ^ 15 + (31744 + M div 2 ^ 13)"
  proof -
    have "M div 2 ^ 13 < 2 ^ 10" using M by (intro less_mult_imp_div_less) simp
    then have "unat (0x7C00 OR drop_bit 13 mw) < 2 ^ 15" unfolding top by simp
    from asm [OF this] show ?thesis by (simp only: top or.assoc)
  qed
  have const: "(127 - 15 :: u32) = 112" "(13 + 1 + 127 - 15 - ew :: u32) = 126 - ew" by simp_all
  note def = CPLFloatToHalf_def [of f b, unfolded Let_def, folded sw_def ew_def mw_def]
  show "unat (fst (CPLFloatToHalf f b)) = of_bool s * 2 ^ 15 + half_bits E M"
    using nan inf over hb z nor den sh e31
    by (cases "E = 255"; cases "E \<le> 112")
      (auto simp: def const E255 m0 m13 e112 half_bits_def s asm or.assoc)
  show "snd (CPLFloatToHalf f b) \<longleftrightarrow> b \<or> 143 \<le> E \<and> E < 255"
    using sh e31 E by (cases "E = 255"; cases "E \<le> 112") (auto simp: def const E255 m0 m13 e112)
qed

text \<open>The halfs from zero to infinity in the order of their bits, in units.\<close>

definition half_units :: "nat \<Rightarrow> nat" where
  "half_units n = fp_units 10 (n div 2 ^ 10) (n mod 2 ^ 10)"

lemma half_units_small: "n \<le> 1024 \<Longrightarrow> half_units n = n"
  by (cases "n = 1024") (simp_all add: half_units_def fp_units_def)

lemma half_units_normal: "half_units (e * 2 ^ 10 + m) = (2 ^ 10 + m) * 2 ^ (e - 1)" if "e \<noteq> 0" "m \<le> 2 ^ 10"
proof (cases "m = 2 ^ 10")
  case True
  have "half_units (e * 2 ^ 10 + m) = half_units (Suc e * 2 ^ 10)" using True by (simp add: add.commute)
  also have "\<dots> = 2 ^ 10 * 2 ^ e" unfolding half_units_def by (simp add: fp_units_def)
  also have "\<dots> = (2 ^ 10 + m) * 2 ^ (e - 1)" using True that by (cases e) simp_all
  finally show ?thesis .
qed (use that in \<open>simp add: half_units_def fp_units_def\<close>)

lemma half_units_Suc: "half_units n < half_units (Suc n)"
proof (cases "n < 1024")
  case False
  define e m where "e = n div 2 ^ 10" and "m = n mod 2 ^ 10"
  have n: "n = e * 2 ^ 10 + m" and m: "m < 2 ^ 10" by (simp_all add: e_def m_def)
  have e: "e \<noteq> 0" using False by (simp add: e_def div_eq_0_iff)
  have "Suc n = e * 2 ^ 10 + Suc m" using n by simp
  then show ?thesis using half_units_normal [OF e, of m] half_units_normal [OF e, of "Suc m"] n m by simp
qed (simp add: half_units_small)

lemma half_units_mono: "strict_mono half_units"
  by (simp add: strict_mono_Suc_iff half_units_Suc)

lemma half_value:
  assumes "n < 2 ^ 15"
  shows "fp_value 5 10 (of_bool s * 2 ^ 15 + n) =
    (if n = 31744 then Infinite s else if n < 31744 then Finite s (half_units n) else NotANumber s (n - 31744))"
proof -
  define e m where "e = n div 2 ^ 10" and "m = n mod 2 ^ 10"
  have n: "n = e * 2 ^ 10 + m" and m: "m < 2 ^ 10" by (simp_all add: e_def m_def)
  have e: "e < 2 ^ 5" using assms by (auto simp: e_def intro: less_mult_imp_div_less)
  have v: "fp_value 5 10 (of_bool s * 2 ^ 15 + n) = fp_parts 5 10 s e m"
    using fp_value_parts [OF e m, of s] n by (simp add: add.assoc)
  have u: "half_units n = fp_units 10 e m" by (simp add: half_units_def e_def m_def)
  have n': "n = e * 1024 + m" "m < 1024" using n m by simp_all
  moreover have "e \<noteq> 31 \<Longrightarrow> n < 31744"
  proof -
    assume "e \<noteq> 31"
    then have "e * 1024 \<le> 30 * 1024" using e by (intro mult_le_mono1) simp
    then show ?thesis using n' by linarith
  qed
  ultimately have "n = 31744 \<longleftrightarrow> e = 31 \<and> m = 0" "n < 31744 \<longleftrightarrow> e \<noteq> 31" "e = 31 \<Longrightarrow> n - 31744 = m"
    by (cases "e = 31"; simp)+
  then show ?thesis using u v by (auto simp: fp_parts_def)
qed

text \<open>A finite float is cut to the half below it.\<close>

lemma half_bits_cut:
  assumes "E < 255" "M < 2 ^ 23"
  shows "half_units (half_bits E M) * 2 ^ 125 \<le> fp_units 23 E M"
    and "half_bits E M = 31744 \<or> half_bits E M < 31744 \<and> fp_units 23 E M < half_units (Suc (half_bits E M)) * 2 ^ 125"
    and "half_bits E M = 31744 \<longleftrightarrow> 143 \<le> E"
proof -
  consider (zero) "E \<le> 94" | (denormal) "94 < E" "E \<le> 112" | (normal) "112 < E" "E < 143" | (over) "143 \<le> E"
    by linarith
  then have "half_units (half_bits E M) * 2 ^ 125 \<le> fp_units 23 E M \<and>
    (half_bits E M = 31744 \<or> half_bits E M < 31744 \<and> fp_units 23 E M < half_units (Suc (half_bits E M)) * 2 ^ 125) \<and>
    (half_bits E M = 31744 \<longleftrightarrow> 143 \<le> E)"
  proof cases
    case zero
    have "fp_units 23 E M < 2 ^ 24 * 2 ^ 93"
    proof (cases "E = 0")
      case False
      have "(2 ^ 23 + M) * 2 ^ (E - 1) < 2 ^ 24 * 2 ^ 93"
        using assms(2) zero by (intro mult_less_le_imp_less power_increasing) simp_all
      then show ?thesis using False by (simp add: fp_units_def)
    qed (use assms(2) in \<open>simp add: fp_units_def\<close>)
    then show ?thesis using zero by (simp add: half_bits_def half_units_small)
  next
    case denormal
    define d where "d = 126 - E"
    have d: "(2::nat) ^ 125 = 2 ^ d * 2 ^ (E - 1)" using denormal by (simp only: d_def power_add [symmetric]) simp
    define q where "q = (M + 2 ^ 23) div 2 ^ d"
    have hb: "half_bits E M = q" using denormal assms by (simp add: half_bits_def q_def d_def)
    have "q \<le> (M + 2 ^ 23) div 2 ^ 14"
      unfolding q_def d_def using denormal by (intro div_le_mono2 power_increasing) simp_all
    also have "\<dots> < 2 ^ 10" using assms(2) by (intro less_mult_imp_div_less) simp
    finally have q: "q < 1024" by simp
    have "q * 2 ^ d \<le> M + 2 ^ 23" "M + 2 ^ 23 < (q + 1) * 2 ^ d"
      unfolding q_def by (simp_all add: dividend_less_div_times)
    then have "q * 2 ^ d * 2 ^ (E - 1) \<le> (2 ^ 23 + M) * 2 ^ (E - 1)"
      "(2 ^ 23 + M) * 2 ^ (E - 1) < (q + 1) * 2 ^ d * 2 ^ (E - 1)" by (simp_all add: ac_simps)
    then show ?thesis using hb q denormal
      by (simp only: d mult.assoc [symmetric]) (simp add: half_units_small fp_units_def)
  next
    case normal
    define e m where "e = E - 112" and "m = M div 2 ^ 13"
    have e: "e \<noteq> 0" "e \<le> 30" using normal by (simp_all add: e_def)
    have m: "m < 2 ^ 10" unfolding m_def using assms(2) by (intro less_mult_imp_div_less) simp
    have hb: "half_bits E M = e * 2 ^ 10 + m" using normal assms by (simp add: half_bits_def e_def m_def)
    have "e * 2 ^ 10 \<le> 30 * 2 ^ 10" using e(2) by (rule mult_le_mono1)
    then have lt: "half_bits E M < 31744" using hb m by simp
    have d: "2 ^ (e - 1) * 2 ^ 125 = 2 ^ 13 * (2 ^ (E - 1) :: nat)"
      using normal by (simp only: e_def power_add [symmetric]) simp
    have "(2 ^ 10 + m) * 2 ^ 13 \<le> 2 ^ 23 + M" "2 ^ 23 + M < (2 ^ 10 + m + 1) * 2 ^ 13"
      using dividend_less_div_times [of "2 ^ 13" M] by (simp_all add: m_def)
    then have "(2 ^ 10 + m) * 2 ^ 13 * 2 ^ (E - 1) \<le> (2 ^ 23 + M) * 2 ^ (E - 1)"
      "(2 ^ 23 + M) * 2 ^ (E - 1) < (2 ^ 10 + m + 1) * 2 ^ 13 * 2 ^ (E - 1)" by simp_all
    moreover have "half_units (e * 2 ^ 10 + m) * 2 ^ 125 = (2 ^ 10 + m) * 2 ^ 13 * 2 ^ (E - 1)"
      "half_units (e * 2 ^ 10 + Suc m) * 2 ^ 125 = (2 ^ 10 + m + 1) * 2 ^ 13 * 2 ^ (E - 1)"
      using half_units_normal [OF e(1), of m] half_units_normal [OF e(1), of "Suc m"] m
      by (simp_all only: mult.assoc d) simp_all
    moreover have "fp_units 23 E M = (2 ^ 23 + M) * 2 ^ (E - 1)" using normal by (simp add: fp_units_def)
    ultimately show ?thesis using lt normal by (simp only: hb add_Suc_right) simp
  next
    case over
    have "half_units 31744 * 2 ^ 125 = 2 ^ 23 * 2 ^ 142" by (simp add: half_units_def fp_units_def)
    also have "\<dots> \<le> (2 ^ 23 + M) * 2 ^ (E - 1)" using over by (intro mult_le_mono power_increasing) simp_all
    finally show ?thesis using over assms(1) by (simp add: half_bits_def fp_units_def)
  qed
  then show "half_units (half_bits E M) * 2 ^ 125 \<le> fp_units 23 E M"
    "half_bits E M = 31744 \<or> half_bits E M < 31744 \<and> fp_units 23 E M < half_units (Suc (half_bits E M)) * 2 ^ 125"
    "half_bits E M = 31744 \<longleftrightarrow> 143 \<le> E" by blast+
qed

text \<open>What CPLFloatToHalf makes of a float: the half numbered \<open>n\<close> and whether it warns.\<close>

lemma CPLFloatToHalf_value:
  obtains n where "unat (fst (CPLFloatToHalf f b)) = of_bool (odd (unat f div 2 ^ 31)) * 2 ^ 15 + n" "n < 2 ^ 15"
    "case fp_value 8 23 (unat f) of
       Finite s u \<Rightarrow> odd (unat f div 2 ^ 31) = s \<and> half_units n * 2 ^ 125 \<le> u \<and>
         (n = 31744 \<or> n < 31744 \<and> u < half_units (Suc n) * 2 ^ 125) \<and>
         snd (CPLFloatToHalf f b) = (b \<or> n = 31744)
     | Infinite s \<Rightarrow> odd (unat f div 2 ^ 31) = s \<and> n = 31744 \<and> snd (CPLFloatToHalf f b) = b
     | NotANumber s m \<Rightarrow> odd (unat f div 2 ^ 31) = s \<and>
         n = 31744 + (if m div 2 ^ 13 = 0 then 512 else m div 2 ^ 13) \<and> snd (CPLFloatToHalf f b) = b"
proof
  let ?E = "unat f div 2 ^ 23 mod 2 ^ 8" and ?M = "unat f mod 2 ^ 23"
  note bits = CPLFloatToHalf_bits [of f b]
  show "unat (fst (CPLFloatToHalf f b)) = of_bool (odd (unat f div 2 ^ 31)) * 2 ^ 15 + half_bits ?E ?M"
    by (rule bits(1))
  show "half_bits ?E ?M < 2 ^ 15" by (rule half_bits_less) simp_all
  have v: "fp_value 8 23 (unat f) = fp_parts 8 23 (odd (unat f div 2 ^ 31)) ?E ?M" by (simp add: fp_value_def)
  have M: "?M < 2 ^ 23" and E: "?E < 2 ^ 8" by simp_all
  show "case fp_value 8 23 (unat f) of
       Finite s u \<Rightarrow> odd (unat f div 2 ^ 31) = s \<and> half_units (half_bits ?E ?M) * 2 ^ 125 \<le> u \<and>
         (half_bits ?E ?M = 31744 \<or> half_bits ?E ?M < 31744 \<and> u < half_units (Suc (half_bits ?E ?M)) * 2 ^ 125) \<and>
         snd (CPLFloatToHalf f b) = (b \<or> half_bits ?E ?M = 31744)
     | Infinite s \<Rightarrow> odd (unat f div 2 ^ 31) = s \<and> half_bits ?E ?M = 31744 \<and> snd (CPLFloatToHalf f b) = b
     | NotANumber s m \<Rightarrow> odd (unat f div 2 ^ 31) = s \<and>
         half_bits ?E ?M = 31744 + (if m div 2 ^ 13 = 0 then 512 else m div 2 ^ 13) \<and> snd (CPLFloatToHalf f b) = b"
  proof (cases "?E = 255")
    case True
    then show ?thesis using bits(2) unfolding v
      by (auto simp: fp_parts_def half_bits_def div_eq_0_iff not_less)
  next
    case False
    then have E': "?E < 255" using E by simp
    have f: "fp_value 8 23 (unat f) = Finite (odd (unat f div 2 ^ 31)) (fp_units 23 ?E ?M)"
      unfolding v using False by (simp only: fp_parts_def) simp
    from half_bits_cut [OF E' M] show ?thesis
      unfolding f fp.case using bits(2) E' by blast
  qed
qed

lemma sign_parts:
  fixes n :: nat
  assumes "n < 2 ^ k"
  shows "(of_bool s * 2 ^ k + n) mod 2 ^ k = n" "odd ((of_bool s * 2 ^ k + n) div 2 ^ k) = s"
proof -
  show "(of_bool s * 2 ^ k + n) mod 2 ^ k = n" using assms by simp
  have "(of_bool s * 2 ^ k + n) div 2 ^ k = of_bool s" using assms by simp
  then show "odd ((of_bool s * 2 ^ k + n) div 2 ^ k) = s" by simp
qed

text \<open>CPLFloatToHalf rounds toward zero: a finite float becomes the largest half that is not larger
  in absolute value, with its sign; beyond the range it becomes an infinity and the warning is set.  A
  number that is not one keeps the upper bits of its payload, and stays one when they are all zero.\<close>

theorem CPLFloatToHalf_truncates:
  "let (h, warned) = CPLFloatToHalf f b; s = odd (unat f div 2 ^ 31); n = unat h mod 2 ^ 15
   in odd (unat h div 2 ^ 15) = s \<and>
      (case fp_value 8 23 (unat f) of
         Finite s' u \<Rightarrow> warned = (b \<or> n = 31744) \<and> half_units n * 2 ^ 125 \<le> u \<and>
           (if n = 31744 then fp_value 5 10 (unat h) = Infinite s
            else fp_value 5 10 (unat h) = Finite s (half_units n) \<and> u < half_units (Suc n) * 2 ^ 125)
       | Infinite s' \<Rightarrow> fp_value 5 10 (unat h) = Infinite s \<and> warned = b
       | NotANumber s' m \<Rightarrow>
           fp_value 5 10 (unat h) = NotANumber s (if m div 2 ^ 13 = 0 then 512 else m div 2 ^ 13) \<and> warned = b)"
proof -
  let ?h = "fst (CPLFloatToHalf f b)" and ?w = "snd (CPLFloatToHalf f b)" and ?s = "odd (unat f div 2 ^ 31)"
  obtain n where n: "unat ?h = of_bool ?s * 2 ^ 15 + n" "n < 2 ^ 15" and
    v: "case fp_value 8 23 (unat f) of
       Finite s u \<Rightarrow> ?s = s \<and> half_units n * 2 ^ 125 \<le> u \<and>
         (n = 31744 \<or> n < 31744 \<and> u < half_units (Suc n) * 2 ^ 125) \<and> ?w = (b \<or> n = 31744)
     | Infinite s \<Rightarrow> ?s = s \<and> n = 31744 \<and> ?w = b
     | NotANumber s m \<Rightarrow> ?s = s \<and> n = 31744 + (if m div 2 ^ 13 = 0 then 512 else m div 2 ^ 13) \<and> ?w = b"
    by (rule CPLFloatToHalf_value)
  have mod: "unat ?h mod 2 ^ 15 = n" and sgn: "odd (unat ?h div 2 ^ 15) = ?s"
    unfolding n(1) by (rule sign_parts [OF n(2)])+
  note h = half_value [OF n(2), of ?s, folded n(1)]
  show ?thesis
  proof (cases "fp_value 8 23 (unat f)")
    case (Finite s u)
    note v = v [unfolded Finite fp.case]
    show ?thesis unfolding case_prod_beta Let_def mod sgn Finite fp.case using v h by (metis nat_neq_iff)
  next
    case (Infinite s)
    note v = v [unfolded Infinite fp.case]
    show ?thesis unfolding case_prod_beta Let_def mod sgn Infinite fp.case using v h by simp
  next
    case (NotANumber s m)
    note v = v [unfolded NotANumber fp.case]
    have "n \<noteq> 31744" "\<not> n < 31744"
      "n - 31744 = (if m div 2 ^ 13 = 0 then 512 else m div 2 ^ 13)" using v by (auto split: if_splits)
    then show ?thesis
      unfolding case_prod_beta Let_def mod sgn NotANumber fp.case using v h by simp
  qed
qed

text \<open>C38: Narrowing undoes widening: every half, converted to a float and back, is the same bit pattern,
  and no warning is given.\<close>

theorem CPLFloatToHalf_CPLHalfToFloat:
  "map_option (\<lambda>w. CPLFloatToHalf w b) (CPLHalfToFloat h) = Some (h, b)"
proof -
  define s n where "s = odd (unat h div 2 ^ 15)" and "n = unat h mod 2 ^ 15"
  have h: "unat h = of_bool s * 2 ^ 15 + n" and n: "n < 2 ^ 15"
  proof -
    have "unat h div 2 ^ 15 < 2" using unsigned_less [of h] by (intro less_mult_imp_div_less) simp
    then have "unat h div 2 ^ 15 = of_bool s" by (auto simp: s_def less_2_cases_iff)
    then show "unat h = of_bool s * 2 ^ 15 + n" "n < 2 ^ 15"
      unfolding n_def using div_mult_mod_eq [of "unat h" "2 ^ 15"] by simp_all
  qed
  obtain w where w: "CPLHalfToFloat h = Some w" "fp_value 8 23 (unat w) = fp_widen 125 13 (fp_value 5 10 (unat h))"
    using CPLHalfToFloat_exact_half [of h] by blast
  let ?h = "fst (CPLFloatToHalf w b)" and ?w = "snd (CPLFloatToHalf w b)" and ?s = "odd (unat w div 2 ^ 31)"
  obtain k where k: "unat ?h = of_bool ?s * 2 ^ 15 + k" "k < 2 ^ 15" and
    v: "case fp_value 8 23 (unat w) of
       Finite s u \<Rightarrow> ?s = s \<and> half_units k * 2 ^ 125 \<le> u \<and>
         (k = 31744 \<or> k < 31744 \<and> u < half_units (Suc k) * 2 ^ 125) \<and> ?w = (b \<or> k = 31744)
     | Infinite s \<Rightarrow> ?s = s \<and> k = 31744 \<and> ?w = b
     | NotANumber s m \<Rightarrow> ?s = s \<and> k = 31744 + (if m div 2 ^ 13 = 0 then 512 else m div 2 ^ 13) \<and> ?w = b"
    by (rule CPLFloatToHalf_value)
  note v = v [unfolded w(2) h half_value [OF n]]
  have "?s = s \<and> k = n \<and> ?w = b"
  proof (cases "n < 31744")
    case True
    then have k': "half_units k \<le> half_units n" "k = 31744 \<or> half_units n < half_units (Suc k)" "?s = s"
      "?w = (b \<or> k = 31744)" using v by auto
    then have "k \<le> n" "k = 31744 \<or> n < Suc k"
      using half_units_mono by (simp_all only: strict_mono_less_eq strict_mono_less)
    then show ?thesis using k'(3,4) True by auto
  qed (use v in \<open>auto split: if_splits\<close>)
  then have "unat ?h = unat h" "?w = b" using k(1) h by simp_all
  then show ?thesis using w(1) by (simp add: word_unat_eq_iff [symmetric] prod_eq_iff)
qed

end
