(* ===== verification/JsonParser.thy ===== *)
theory JsonParser
  imports Prelude
begin

section \<open>The streaming JSON parser (port/cpl_json_streaming_parser.cpp)\<close>

text \<open>
  CPLJSonStreamingParser gets a document in pieces and calls a virtual method for every part of it.
  The record holds the members of the class; a vector is the list of its elements, the last one first.
  The calls of the virtual methods are recorded in \<open>calls\<close>.  Each round of the loop of Parse is
  \<open>Parse_step\<close>, with one definition for each state; \<open>back ()\<close> of an empty vector, a read behind the
  text and a failed assertion are \<open>None\<close>.  The line and character counters, which only messages
  show, do not overflow; \<open>isspace\<close>, \<open>isdigit\<close> and \<open>isalpha\<close> are those of the C locale.
\<close>

subsection \<open>The class\<close>

datatype State = INIT | OBJECT | ARRAY | STRING | NUMBER | STATE_TRUE | STATE_FALSE | STATE_NULL

datatype ArrayState = ARRAY_INIT | AFTER_COMMA | AFTER_VALUE

datatype MemberState = WAITING_KEY | IN_KEY | KEY_FINISHED | IN_VALUE

datatype call = String string | Number string | Boolean bool | Null | StartObject | EndObject
  | StartObjectMember string | StartArray | EndArray | StartArrayMember | Exception string

record json_parser =
  m_bExceptionOccurred :: bool
  m_bElementFound :: bool
  m_nLastChar :: char
  m_nLineCounter :: nat
  m_nCharCounter :: nat
  m_aState :: "State list"
  m_osToken :: string
  m_abArrayState :: "ArrayState list"
  m_bInStringEscape :: bool
  m_bInUnicode :: bool
  m_osUnicodeHex :: string
  m_nMaxDepth :: nat
  m_nMaxStringSize :: nat
  m_aeObjectState :: "MemberState list"
  calls :: "call list"

text \<open>The constructor with the initial values of the members.\<close>

definition CPLJSonStreamingParser :: json_parser where
  "CPLJSonStreamingParser =
     \<lparr>m_bExceptionOccurred = False, m_bElementFound = False, m_nLastChar = NUL, m_nLineCounter = 1,
      m_nCharCounter = 1, m_aState = [INIT], m_osToken = [], m_abArrayState = [],
      m_bInStringEscape = False, m_bInUnicode = False, m_osUnicodeHex = [], m_nMaxDepth = 1024,
      m_nMaxStringSize = 10000000, m_aeObjectState = [], calls = []\<rparr>"

definition SetMaxDepth :: "nat \<Rightarrow> json_parser \<Rightarrow> json_parser" where
  "SetMaxDepth nVal p = p\<lparr>m_nMaxDepth := nVal\<rparr>"

definition SetMaxStringSize :: "nat \<Rightarrow> json_parser \<Rightarrow> json_parser" where
  "SetMaxStringSize nVal p = p\<lparr>m_nMaxStringSize := nVal\<rparr>"

definition Reset :: "json_parser \<Rightarrow> json_parser" where
  "Reset p = p\<lparr>m_bExceptionOccurred := False, m_bElementFound := False, m_nLastChar := NUL,
     m_nLineCounter := 1, m_nCharCounter := 1, m_aState := [INIT], m_osToken := [], m_abArrayState := [],
     m_aeObjectState := [], m_bInStringEscape := False, m_bInUnicode := False, m_osUnicodeHex := []\<rparr>"

definition vec_back :: "'a list \<Rightarrow> 'a option" where
  "vec_back v = (case v of [] \<Rightarrow> None | x # _ \<Rightarrow> Some x)"

definition currentState :: "json_parser \<Rightarrow> State option" where
  "currentState p = vec_back (m_aState p)"

definition emit :: "call \<Rightarrow> json_parser \<Rightarrow> json_parser" where
  "emit c p = p\<lparr>calls := calls p @ [c]\<rparr>"

definition push_state :: "State \<Rightarrow> json_parser \<Rightarrow> json_parser" where
  "push_state s p = p\<lparr>m_aState := s # m_aState p\<rparr>"

definition pop_state :: "json_parser \<Rightarrow> json_parser" where
  "pop_state p = p\<lparr>m_aState := tl (m_aState p)\<rparr>"

subsection \<open>Characters and messages\<close>

definition AdvanceChar :: "json_parser \<Rightarrow> char \<Rightarrow> json_parser" where
  "AdvanceChar p c =
     (let new_line = c = CHR 0x0d \<and> m_nLastChar p \<noteq> CHR 0x0a \<or> c = CHR 0x0a \<and> m_nLastChar p \<noteq> CHR 0x0d
      in p\<lparr>m_nLineCounter := (if new_line then m_nLineCounter p + 1 else m_nLineCounter p),
           m_nLastChar := c,
           m_nCharCounter := (if new_line then 0 else m_nCharCounter p) + 1\<rparr>)"

fun SkipSpace :: "json_parser \<Rightarrow> string \<Rightarrow> json_parser \<times> string" where
  "SkipSpace p [] = (p, [])"
| "SkipSpace p (c # s) = (if c_isspace c then SkipSpace (AdvanceChar p c) s else (p, c # s))"

text \<open>The functions that emit an exception return false; their callers return that.\<close>

definition EmitException :: "json_parser \<Rightarrow> string \<Rightarrow> json_parser" where
  "EmitException p pszMessage =
     emit (Exception (c_str (''At line '' @ c_decimal (int (m_nLineCounter p)) @ '', character '' @
       c_decimal (int (m_nCharCounter p)) @ '': '' @ pszMessage))) (p\<lparr>m_bExceptionOccurred := True\<rparr>)"

definition EmitUnexpectedChar :: "json_parser \<Rightarrow> char \<Rightarrow> string option \<Rightarrow> json_parser" where
  "EmitUnexpectedChar p ch pszExpecting =
     EmitException p (take 63
       (case pszExpecting of
          Some e \<Rightarrow> ''Unexpected character ('' @ [ch] @ ''). Expecting '' @ e
        | None \<Rightarrow> ''Unexpected character ('' @ [ch] @ '')''))"

definition IsValidNewToken :: "char \<Rightarrow> bool" where
  "IsValidNewToken ch \<longleftrightarrow> ch \<in> set ''[{\"-.'' \<or> c_isdigit ch \<or> ch \<in> set ''tfniIN''"

definition starts_number :: "char \<Rightarrow> bool" where
  "starts_number ch \<longleftrightarrow> ch \<in> set ''-.'' \<or> c_isdigit ch \<or> ch \<in> set ''iIN''"

text \<open>A part of Parse returns \<open>Inl\<close> when Parse returns false in it, and \<open>Inr\<close> with the rest of the
  text when it goes on.\<close>

type_synonym progress = "json_parser + json_parser \<times> string"

definition StartNewToken :: "json_parser \<Rightarrow> string \<Rightarrow> progress option" where
  "StartNewToken p pStr =
     (case pStr of
        [] \<Rightarrow> None
      | ch # s \<Rightarrow>
          if ch = CHR ''{'' then
            (if length (m_aState p) = m_nMaxDepth p
             then Some (Inl (EmitException p ''Too many nested objects and/or arrays''))
             else Some (Inr (AdvanceChar (push_state OBJECT
               ((emit StartObject p)\<lparr>m_aeObjectState := WAITING_KEY # m_aeObjectState p\<rparr>)) ch, s)))
          else if ch = CHR 0x22 then Some (Inr (AdvanceChar (push_state STRING p) ch, s))
          else if ch = CHR ''['' then
            (if length (m_aState p) = m_nMaxDepth p
             then Some (Inl (EmitException p ''Too many nested objects and/or arrays''))
             else Some (Inr (AdvanceChar (push_state ARRAY
               ((emit StartArray p)\<lparr>m_abArrayState := ARRAY_INIT # m_abArrayState p\<rparr>)) ch, s)))
          else if starts_number ch then Some (Inr (push_state NUMBER p, pStr))
          else if ch = CHR ''t'' then Some (Inr (push_state STATE_TRUE p, pStr))
          else if ch = CHR ''f'' then Some (Inr (push_state STATE_FALSE p, pStr))
          else if ch = CHR ''n'' then Some (Inr (push_state STATE_NULL p, pStr))
          else None)"

definition CheckAndEmitTrueFalseOrNull :: "json_parser \<Rightarrow> char \<Rightarrow> (json_parser + json_parser) option" where
  "CheckAndEmitTrueFalseOrNull p ch = do {
     eCurState \<leftarrow> currentState p;
     let (word, c) = (if eCurState = STATE_TRUE then (''true'', Boolean True)
                      else if eCurState = STATE_FALSE then (''false'', Boolean False)
                      else (''null'', Null));
     Some (if m_osToken p = word then Inr ((pop_state (emit c p))\<lparr>m_osToken := []\<rparr>)
           else Inl (EmitUnexpectedChar p ch None))
   }"

definition CheckStackEmpty :: "json_parser \<Rightarrow> json_parser \<times> bool" where
  "CheckStackEmpty p =
     (if m_aeObjectState p \<noteq> [] then (EmitException p ''Unterminated object'', False)
      else if m_abArrayState p \<noteq> [] then (EmitException p ''Unterminated array'', False)
      else (p, True))"

subsection \<open>Unicode escapes\<close>

definition IsHighSurrogate :: "nat \<Rightarrow> bool" where
  "IsHighSurrogate uc \<longleftrightarrow> uc AND 0xFC00 = 0xD800"

definition IsLowSurrogate :: "nat \<Rightarrow> bool" where
  "IsLowSurrogate uc \<longleftrightarrow> uc AND 0xFC00 = 0xDC00"

definition GetSurrogatePair :: "nat \<Rightarrow> nat \<Rightarrow> nat" where
  "GetSurrogatePair hi lo = push_bit 10 (hi AND 0x3FF) + (lo AND 0x3FF) + 0x10000"

definition IsHexDigit :: "char \<Rightarrow> bool" where
  "IsHexDigit ch \<longleftrightarrow> 48 \<le> ccode ch \<and> ccode ch \<le> 57 \<or> 97 \<le> ccode ch \<and> ccode ch \<le> 102 \<or>
     65 \<le> ccode ch \<and> ccode ch \<le> 70"

text \<open>Called for hexadecimal digits only.\<close>

definition HexToDecimal :: "char \<Rightarrow> nat" where
  "HexToDecimal ch =
     (if 48 \<le> ccode ch \<and> ccode ch \<le> 57 then ccode ch - 48
      else if 97 \<le> ccode ch \<and> ccode ch \<le> 102 then 10 + ccode ch - 97
      else 10 + ccode ch - 65)"

definition getUCSChar :: "string \<Rightarrow> nat" where
  "getUCSChar h = push_bit 12 (HexToDecimal (c_at h 0)) OR push_bit 8 (HexToDecimal (c_at h 1)) OR
     push_bit 4 (HexToDecimal (c_at h 2)) OR HexToDecimal (c_at h 3)"

text \<open>The bytes that DecodeUnicode appends for a character code.\<close>

definition Unicode_bytes :: "nat \<Rightarrow> string" where
  "Unicode_bytes nUCSChar =
     (if nUCSChar < 0x80 then [char_of nUCSChar]
      else if nUCSChar < 0x800 then
        [char_of (0xC0 OR drop_bit 6 nUCSChar), char_of (0x80 OR nUCSChar AND 0x3F)]
      else if IsLowSurrogate nUCSChar \<or> IsHighSurrogate nUCSChar then [CHR 0xEF, CHR 0xBF, CHR 0xBD]
      else if nUCSChar < 0x10000 then
        [char_of (0xE0 OR drop_bit 12 nUCSChar), char_of (0x80 OR drop_bit 6 nUCSChar AND 0x3F),
         char_of (0x80 OR nUCSChar AND 0x3F)]
      else if nUCSChar < 0x110000 then
        [char_of (0xF0 OR drop_bit 18 nUCSChar AND 0x07), char_of (0x80 OR drop_bit 12 nUCSChar AND 0x3F),
         char_of (0x80 OR drop_bit 6 nUCSChar AND 0x3F), char_of (0x80 OR nUCSChar AND 0x3F)]
      else [CHR 0xEF, CHR 0xBF, CHR 0xBD])"

definition DecodeUnicode :: "json_parser \<Rightarrow> json_parser option" where
  "DecodeUnicode p = do {
     nUCSChar \<leftarrow>
       (if length (m_osUnicodeHex p) = 8 then
          (let nUCSHigh = getUCSChar (m_osUnicodeHex p);
               nUCSLow = getUCSChar (drop 4 (m_osUnicodeHex p))
           in if \<not> IsHighSurrogate nUCSHigh then None
              else Some (if IsLowSurrogate nUCSLow then GetSurrogatePair nUCSHigh nUCSLow else 0xFFFFFFFF))
        else if length (m_osUnicodeHex p) = 4 then Some (getUCSChar (m_osUnicodeHex p))
        else None);
     Some (p\<lparr>m_osToken := m_osToken p @ Unicode_bytes nUCSChar, m_bInUnicode := False, m_osUnicodeHex := []\<rparr>)
   }"

subsection \<open>One round of Parse\<close>

text \<open>The result of a round: \<open>Inl (p, b)\<close>, Parse returns \<open>b\<close>; \<open>Inr (p, s)\<close>, another round with the rest
  \<open>s\<close> of the text.\<close>

type_synonym round = "json_parser \<times> bool + json_parser \<times> string"

definition fails :: "json_parser \<Rightarrow> round" where
  "fails p = Inl (p, False)"

definition goes_on :: "progress \<Rightarrow> round" where
  "goes_on r = (case r of Inl p \<Rightarrow> fails p | Inr ps \<Rightarrow> Inr ps)"

definition Parse_INIT :: "json_parser \<Rightarrow> string \<Rightarrow> round option" where
  "Parse_INIT p pStr =
     (case SkipSpace p pStr of
        (p, []) \<Rightarrow> Some (Inl (p, True))
      | (p, ch # s) \<Rightarrow>
          if m_bElementFound p \<or> \<not> IsValidNewToken ch then Some (fails (EmitUnexpectedChar p ch None))
          else do {
            r \<leftarrow> StartNewToken p (ch # s);
            Some (case r of Inl p \<Rightarrow> fails p | Inr (p, s) \<Rightarrow> Inr (p\<lparr>m_bElementFound := True\<rparr>, s))
          })"

text \<open>Numbers, with the spellings of infinity and not-a-number in any case.\<close>

definition number_char :: "char \<Rightarrow> bool" where
  "number_char ch \<longleftrightarrow> ch \<in> set ''+-'' \<or> c_isdigit ch \<or> ch \<in> set ''.eE''"

definition ends_token :: "char \<Rightarrow> bool" where
  "ends_token ch \<longleftrightarrow> c_isspace ch \<or> ch \<in> set '',}]''"

definition begins_word :: "string \<Rightarrow> string \<Rightarrow> char \<Rightarrow> bool" where
  "begins_word word token ch \<longleftrightarrow>
     STARTS_WITH_CI word (c_str (token @ [ch])) \<and> length token + 1 \<le> length word"

fun number_loop :: "json_parser \<Rightarrow> string \<Rightarrow> progress" where
  "number_loop p [] = Inr (p, [])"
| "number_loop p (ch # s) =
     (if number_char ch then
        (if length (m_osToken p) = 1024 then Inl (EmitException p ''Too many characters in number'')
         else number_loop (AdvanceChar (p\<lparr>m_osToken := m_osToken p @ [ch]\<rparr>) ch) s)
      else if ends_token ch then Inr (SkipSpace p (ch # s))
      else if begins_word ''Infinity'' (m_osToken p) ch \<or> begins_word ''-Infinity'' (m_osToken p) ch \<or>
        begins_word ''NaN'' (m_osToken p) ch
      then number_loop (AdvanceChar (p\<lparr>m_osToken := m_osToken p @ [ch]\<rparr>) ch) s
      else Inl (EmitUnexpectedChar p ch None))"

definition number_valid :: "string \<Rightarrow> bool" where
  "number_valid token =
     (let firstCh = c_at token 0 in
      if firstCh \<in> set ''iI'' then EQUAL (c_str token) ''Infinity''
      else if firstCh = CHR ''-'' then
        (if c_at token 1 \<in> set ''iI'' then EQUAL (c_str token) ''-Infinity'' else True)
      else if firstCh \<in> set ''nN'' then
        (if c_at token 1 \<in> set ''aA'' then EQUAL (c_str token) ''NaN'' else True)
      else True)"

definition Parse_NUMBER :: "json_parser \<Rightarrow> string \<Rightarrow> bool \<Rightarrow> round" where
  "Parse_NUMBER p pStr bFinished =
     (case number_loop p pStr of
        Inl p \<Rightarrow> fails p
      | Inr (p, s) \<Rightarrow>
          if s \<noteq> [] \<or> bFinished then
            (if \<not> number_valid (m_osToken p) then fails (EmitException p ''Invalid number'')
             else let p = pop_state ((emit (Number (m_osToken p)) p)\<lparr>m_osToken := []\<rparr>)
               in if s = [] then Inl (CheckStackEmpty p) else Inr (p, s))
          else Inl (p, True))"

text \<open>Strings: the character either fails, is consumed (\<open>continue\<close> or the end of the loop body), or ends
  the string.\<close>

datatype char_result = Fails json_parser | Consumed json_parser | EndOfString json_parser

definition illegal_unicode :: "json_parser \<Rightarrow> char \<Rightarrow> json_parser" where
  "illegal_unicode p ch =
     EmitException p (take 63 (''Illegal character in unicode sequence ('' @ [CHR 0x5c, ch] @ '')''))"

definition string_escape :: "json_parser \<Rightarrow> char \<Rightarrow> char_result" where
  "string_escape p ch =
     (let plain = (\<lambda>c. Consumed (AdvanceChar (p\<lparr>m_osToken := m_osToken p @ [c], m_bInStringEscape := False\<rparr>) ch))
      in if ch \<in> {CHR 0x22, CHR 0x5c, CHR ''/''} then plain ch
         else if ch = CHR ''b'' then plain (CHR 0x08)
         else if ch = CHR ''f'' then plain (CHR 0x0c)
         else if ch = CHR ''n'' then plain (CHR 0x0a)
         else if ch = CHR ''r'' then plain (CHR 0x0d)
         else if ch = CHR ''t'' then plain (CHR 0x09)
         else if ch = CHR ''u'' then
           Consumed (AdvanceChar (p\<lparr>m_bInUnicode := True, m_bInStringEscape := False\<rparr>) ch)
         else Fails (EmitException p (take 31 (''Illegal escape sequence ('' @ [CHR 0x5c, ch] @ '')''))))"

definition string_plain :: "json_parser \<Rightarrow> char \<Rightarrow> char_result" where
  "string_plain p ch =
     (if m_bInStringEscape p then string_escape p ch
      else if ch = CHR 0x5c then Consumed (AdvanceChar (p\<lparr>m_bInStringEscape := True\<rparr>) ch)
      else if ch = CHR 0x22 then EndOfString p
      else Consumed (AdvanceChar (p\<lparr>m_osToken := m_osToken p @ [ch]\<rparr>) ch))"

definition string_unicode :: "json_parser \<Rightarrow> char \<Rightarrow> char_result option" where
  "string_unicode p ch =
     (if length (m_osUnicodeHex p) = 8 then do {
        p \<leftarrow> DecodeUnicode p;
        Some (string_plain p ch)
      } else if length (m_osUnicodeHex p) = 4 then
        (if m_nLastChar p = CHR 0x5c then
           (if ch = CHR ''u'' then Some (Consumed (AdvanceChar p ch))
            else do {
              p \<leftarrow> DecodeUnicode p;
              Some (string_plain (p\<lparr>m_bInStringEscape := True\<rparr>) ch)
            })
         else if m_nLastChar p = CHR ''u'' then
           Some (if IsHexDigit ch
                 then Consumed (AdvanceChar (p\<lparr>m_osUnicodeHex := m_osUnicodeHex p @ [ch]\<rparr>) ch)
                 else Fails (illegal_unicode p ch))
         else if ch = CHR 0x5c then Some (Consumed (AdvanceChar p ch))
         else do {
           p \<leftarrow> DecodeUnicode p;
           Some (string_plain p ch)
         })
      else if IsHexDigit ch then
        (let p = p\<lparr>m_osUnicodeHex := m_osUnicodeHex p @ [ch]\<rparr>
         in do {
           p \<leftarrow> (if length (m_osUnicodeHex p) = 4 \<and> \<not> IsHighSurrogate (getUCSChar (m_osUnicodeHex p))
                 then DecodeUnicode p else Some p);
           Some (Consumed (AdvanceChar p ch))
         })
      else Some (Fails (illegal_unicode p ch)))"

definition string_char :: "json_parser \<Rightarrow> char \<Rightarrow> char_result option" where
  "string_char p ch =
     (if length (m_osToken p) = m_nMaxStringSize p
      then Some (Fails (EmitException p ''Too many characters in number''))
      else if m_bInUnicode p then string_unicode p ch
      else Some (string_plain p ch))"

text \<open>The end of a string: \<open>bEOS\<close> is the last component of the result.\<close>

definition string_end :: "json_parser \<Rightarrow> json_parser" where
  "string_end p =
     pop_state ((emit (if m_aeObjectState p \<noteq> [] \<and> hd (m_aeObjectState p) = IN_KEY
                       then StartObjectMember (m_osToken p) else String (m_osToken p)) p)\<lparr>m_osToken := []\<rparr>)"

fun string_loop :: "json_parser \<Rightarrow> string \<Rightarrow> (json_parser + json_parser \<times> string \<times> bool) option" where
  "string_loop p [] = Some (Inr (p, [], False))"
| "string_loop p (ch # s) = do {
     r \<leftarrow> string_char p ch;
     case r of
       Fails p \<Rightarrow> Some (Inl p)
     | Consumed p \<Rightarrow> string_loop p s
     | EndOfString p \<Rightarrow> (case SkipSpace (AdvanceChar p ch) s of (p, s) \<Rightarrow> Some (Inr (string_end p, s, True)))
   }"

definition Parse_STRING :: "json_parser \<Rightarrow> string \<Rightarrow> bool \<Rightarrow> round option" where
  "Parse_STRING p pStr bFinished = do {
     r \<leftarrow> string_loop p pStr;
     Some (case r of
       Inl p \<Rightarrow> fails p
     | Inr (p, s, bEOS) \<Rightarrow>
         if s = [] then
           (if bFinished then
              (if \<not> bEOS then fails (EmitException p ''Unterminated string'') else Inl (CheckStackEmpty p))
            else Inl (p, True))
         else Inr (p, s))
   }"

text \<open>Arrays and objects.\<close>

definition Parse_ARRAY :: "json_parser \<Rightarrow> string \<Rightarrow> bool \<Rightarrow> round option" where
  "Parse_ARRAY p pStr bFinished =
     (case SkipSpace p pStr of
        (p, []) \<Rightarrow> Some (if bFinished then fails (EmitException p ''Unterminated array'') else Inl (p, True))
      | (p, ch # s) \<Rightarrow>
          if ch = CHR '','' then do {
            st \<leftarrow> vec_back (m_abArrayState p);
            Some (if st \<noteq> AFTER_VALUE then fails (EmitUnexpectedChar p ch (Some (CHR 0x27 # '','' @ [CHR 0x27])))
                  else Inr (AdvanceChar (p\<lparr>m_abArrayState := AFTER_COMMA # tl (m_abArrayState p)\<rparr>) ch, s))
          } else if ch = CHR '']'' then do {
            st \<leftarrow> vec_back (m_abArrayState p);
            Some (if st = AFTER_COMMA then fails (EmitException p ''Missing value'')
                  else Inr (pop_state ((AdvanceChar (emit EndArray p) ch)\<lparr>m_abArrayState := tl (m_abArrayState p)\<rparr>), s))
          } else if IsValidNewToken ch then do {
            st \<leftarrow> vec_back (m_abArrayState p);
            if st = AFTER_VALUE
            then Some (fails (EmitException p (''Unexpected state: '' @ [CHR 0x27] @ '','' @ [CHR 0x27] @ '' or '' @
              [CHR 0x27] @ '']'' @ [CHR 0x27] @ '' expected'')))
            else do {
              r \<leftarrow> StartNewToken (emit StartArrayMember (p\<lparr>m_abArrayState := AFTER_VALUE # tl (m_abArrayState p)\<rparr>))
                (ch # s);
              Some (goes_on r)
            }
          } else Some (fails (EmitUnexpectedChar p ch None)))"

definition Parse_OBJECT :: "json_parser \<Rightarrow> string \<Rightarrow> bool \<Rightarrow> round option" where
  "Parse_OBJECT p pStr bFinished =
     (case SkipSpace p pStr of
        (p, []) \<Rightarrow> Some (if bFinished then fails (EmitException p ''Unterminated object'') else Inl (p, True))
      | (p, ch # s) \<Rightarrow>
          if ch = CHR '','' then do {
            st \<leftarrow> vec_back (m_aeObjectState p);
            Some (if st \<noteq> IN_VALUE then fails (EmitUnexpectedChar p ch (Some [CHR 0x27, ch, CHR 0x27]))
                  else Inr (AdvanceChar (p\<lparr>m_aeObjectState := WAITING_KEY # tl (m_aeObjectState p)\<rparr>) ch, s))
          } else if ch = CHR '':'' then do {
            st \<leftarrow> vec_back (m_aeObjectState p);
            Some (if st \<noteq> IN_KEY then fails (EmitUnexpectedChar p ch (Some [CHR 0x27, ch, CHR 0x27]))
                  else Inr (AdvanceChar (p\<lparr>m_aeObjectState := KEY_FINISHED # tl (m_aeObjectState p)\<rparr>) ch, s))
          } else if ch = CHR ''}'' then do {
            st \<leftarrow> vec_back (m_aeObjectState p);
            Some (if st = WAITING_KEY \<or> st = IN_VALUE
                  then Inr (pop_state ((AdvanceChar (emit EndObject p) ch)\<lparr>m_aeObjectState := tl (m_aeObjectState p)\<rparr>), s)
                  else fails (EmitException p ''Missing value''))
          } else if IsValidNewToken ch then do {
            st \<leftarrow> vec_back (m_aeObjectState p);
            if st = WAITING_KEY then
              (if ch \<noteq> CHR 0x22
               then Some (fails (EmitUnexpectedChar p ch (Some [CHR 0x27, CHR 0x22, CHR 0x27])))
               else do {
                 r \<leftarrow> StartNewToken (p\<lparr>m_aeObjectState := IN_KEY # tl (m_aeObjectState p)\<rparr>) (ch # s);
                 Some (goes_on r)
               })
            else if st = KEY_FINISHED then do {
              r \<leftarrow> StartNewToken (p\<lparr>m_aeObjectState := IN_VALUE # tl (m_aeObjectState p)\<rparr>) (ch # s);
              Some (goes_on r)
            } else Some (fails (EmitException p ''Unexpected state''))
          } else Some (fails (EmitUnexpectedChar p ch None)))"

text \<open>true, false and null; null may turn out to be not-a-number.\<close>

definition c_isalpha :: "char \<Rightarrow> bool" where
  "c_isalpha c \<longleftrightarrow> 65 \<le> ccode c \<and> ccode c \<le> 90 \<or> 97 \<le> ccode c \<and> ccode c \<le> 122"

definition not_prefix :: "string \<Rightarrow> string \<Rightarrow> bool" where
  "not_prefix token word \<longleftrightarrow> length token > length word \<or> take (length token) word \<noteq> token"

fun literal_loop :: "State \<Rightarrow> json_parser \<Rightarrow> string \<Rightarrow> progress" where
  "literal_loop eCurState p [] = Inr (p, [])"
| "literal_loop eCurState p (ch # s) =
     (if eCurState = STATE_NULL \<and> ch \<in> set ''aA'' \<and> length (m_osToken p) = 1
      then Inr (p\<lparr>m_aState := NUMBER # tl (m_aState p)\<rparr>, ch # s)
      else if c_isalpha ch then
        (let p = p\<lparr>m_osToken := m_osToken p @ [ch]\<rparr> in
         if eCurState = STATE_TRUE \<and> not_prefix (m_osToken p) ''true'' then Inl (EmitUnexpectedChar p ch None)
         else if eCurState = STATE_FALSE \<and> not_prefix (m_osToken p) ''false'' then Inl (EmitUnexpectedChar p ch None)
         else if eCurState = STATE_NULL \<and> not_prefix (m_osToken p) ''null'' then Inl (EmitUnexpectedChar p ch None)
         else literal_loop eCurState (AdvanceChar p ch) s)
      else if ends_token ch then Inr (SkipSpace p (ch # s))
      else Inl (EmitUnexpectedChar p ch None))"

definition Parse_literal :: "State \<Rightarrow> json_parser \<Rightarrow> string \<Rightarrow> bool \<Rightarrow> round option" where
  "Parse_literal eCurState p pStr bFinished =
     (case literal_loop eCurState p pStr of
        Inl p \<Rightarrow> Some (fails p)
      | Inr (p, s) \<Rightarrow> do {
          st \<leftarrow> currentState p;
          if st = NUMBER then Some (Inr (p, s))
          else case s of
            [] \<Rightarrow>
              if bFinished then do {
                r \<leftarrow> CheckAndEmitTrueFalseOrNull p NUL;
                Some (case r of Inl p \<Rightarrow> fails p | Inr p \<Rightarrow> Inl (CheckStackEmpty p))
              } else Some (Inl (p, True))
          | ch # _ \<Rightarrow> do {
              r \<leftarrow> CheckAndEmitTrueFalseOrNull p ch;
              Some (case r of Inl p \<Rightarrow> fails p | Inr p \<Rightarrow> Inr (p, s))
            }
        })"

text \<open>The body of the loop of Parse.\<close>

definition Parse_step :: "json_parser \<Rightarrow> string \<Rightarrow> bool \<Rightarrow> round option" where
  "Parse_step p pStr bFinished = do {
     eCurState \<leftarrow> currentState p;
     case eCurState of
       INIT \<Rightarrow> Parse_INIT p pStr
     | NUMBER \<Rightarrow> Some (Parse_NUMBER p pStr bFinished)
     | STRING \<Rightarrow> Parse_STRING p pStr bFinished
     | ARRAY \<Rightarrow> Parse_ARRAY p pStr bFinished
     | OBJECT \<Rightarrow> Parse_OBJECT p pStr bFinished
     | _ \<Rightarrow> Parse_literal eCurState p pStr bFinished
   }"

subsection \<open>The loop ends\<close>

fun Advance :: "json_parser \<Rightarrow> string \<Rightarrow> json_parser" where
  "Advance p [] = p"
| "Advance p (c # s) = Advance (AdvanceChar p c) s"

lemma SkipSpace_eq: "SkipSpace p s = (Advance p (takeWhile c_isspace s), dropWhile c_isspace s)"
  by (induction s arbitrary: p) auto

lemma AdvanceChar_fields [simp]:
  "m_bExceptionOccurred (AdvanceChar p c) = m_bExceptionOccurred p"
  "m_bElementFound (AdvanceChar p c) = m_bElementFound p"
  "m_nLastChar (AdvanceChar p c) = c"
  "m_aState (AdvanceChar p c) = m_aState p" "m_osToken (AdvanceChar p c) = m_osToken p"
  "m_abArrayState (AdvanceChar p c) = m_abArrayState p"
  "m_bInStringEscape (AdvanceChar p c) = m_bInStringEscape p"
  "m_bInUnicode (AdvanceChar p c) = m_bInUnicode p" "m_osUnicodeHex (AdvanceChar p c) = m_osUnicodeHex p"
  "m_nMaxDepth (AdvanceChar p c) = m_nMaxDepth p" "m_nMaxStringSize (AdvanceChar p c) = m_nMaxStringSize p"
  "m_aeObjectState (AdvanceChar p c) = m_aeObjectState p" "calls (AdvanceChar p c) = calls p"
  by (simp_all add: AdvanceChar_def Let_def)

lemma Advance_fields [simp]:
  "m_bExceptionOccurred (Advance p s) = m_bExceptionOccurred p"
  "m_bElementFound (Advance p s) = m_bElementFound p"
  "m_aState (Advance p s) = m_aState p" "m_osToken (Advance p s) = m_osToken p"
  "m_abArrayState (Advance p s) = m_abArrayState p"
  "m_bInStringEscape (Advance p s) = m_bInStringEscape p"
  "m_bInUnicode (Advance p s) = m_bInUnicode p" "m_osUnicodeHex (Advance p s) = m_osUnicodeHex p"
  "m_nMaxDepth (Advance p s) = m_nMaxDepth p" "m_nMaxStringSize (Advance p s) = m_nMaxStringSize p"
  "m_aeObjectState (Advance p s) = m_aeObjectState p" "calls (Advance p s) = calls p"
  by (induction s arbitrary: p) auto

lemma state_fields [simp]:
  "m_aState (emit c p) = m_aState p" "m_aState (push_state st p) = st # m_aState p"
  "m_aState (pop_state p) = tl (m_aState p)" "m_osToken (emit c p) = m_osToken p"
  "m_osToken (push_state st p) = m_osToken p" "m_osToken (pop_state p) = m_osToken p"
  "m_abArrayState (emit c p) = m_abArrayState p" "m_abArrayState (push_state st p) = m_abArrayState p"
  "m_abArrayState (pop_state p) = m_abArrayState p" "m_aeObjectState (emit c p) = m_aeObjectState p"
  "m_aeObjectState (push_state st p) = m_aeObjectState p" "m_aeObjectState (pop_state p) = m_aeObjectState p"
  "calls (emit c p) = calls p @ [c]" "calls (push_state st p) = calls p" "calls (pop_state p) = calls p"
  "m_nMaxDepth (emit c p) = m_nMaxDepth p" "m_nMaxDepth (push_state st p) = m_nMaxDepth p"
  "m_nMaxDepth (pop_state p) = m_nMaxDepth p" "m_nMaxStringSize (emit c p) = m_nMaxStringSize p"
  "m_nMaxStringSize (push_state st p) = m_nMaxStringSize p" "m_nMaxStringSize (pop_state p) = m_nMaxStringSize p"
  by (simp_all add: emit_def push_state_def pop_state_def)

text \<open>Every round consumes text, or leaves the text and moves to a state that will consume it.\<close>

definition parse_rank :: "json_parser \<Rightarrow> string \<Rightarrow> nat" where
  "parse_rank p s =
     (if s = [] \<or> ends_token (hd s) then length (m_aState p)
      else case m_aState p of
          NUMBER # _ \<Rightarrow> 0 | STATE_TRUE # _ \<Rightarrow> 1 | STATE_FALSE # _ \<Rightarrow> 1 | STATE_NULL # _ \<Rightarrow> 1 | _ \<Rightarrow> 2)"

definition parse_order :: "((json_parser \<times> string \<times> bool) \<times> (json_parser \<times> string \<times> bool)) set" where
  "parse_order = (\<lambda>(p, s, b). length s) <*mlex*> measure (\<lambda>(p, s, b). parse_rank p s)"

lemma token_start_ccode:
  "IsValidNewToken c \<Longrightarrow>
   ccode c \<in> {91, 123, 34, 45, 46, 116, 102, 110, 105, 73, 78} \<or> 48 \<le> ccode c \<and> ccode c \<le> 57"
  unfolding IsValidNewToken_def c_isdigit_def by (elim disjE) (simp_all, safe, simp_all add: ccode_def)

lemma token_start_not_end:
  assumes "IsValidNewToken c"
  shows "\<not> ends_token c" "\<not> c_isspace c" "c \<noteq> CHR '',''" "c \<noteq> CHR '':''" "c \<noteq> CHR '']''" "c \<noteq> CHR ''}''"
proof -
  note cc = token_start_ccode [OF assms]
  show sp: "\<not> c_isspace c" using cc by (auto simp: c_isspace_def)
  have "ccode CHR '','' = 44" "ccode CHR '':'' = 58" "ccode CHR '']'' = 93" "ccode CHR ''}'' = 125"
    by (simp_all add: ccode_def)
  then show ne: "c \<noteq> CHR '',''" "c \<noteq> CHR '':''" "c \<noteq> CHR '']''" "c \<noteq> CHR ''}''" using cc by auto
  show "\<not> ends_token c"
    unfolding ends_token_def using sp ne by (simp only: list.set insert_iff empty_iff simp_thms)
qed

lemma token_start_cases:
  assumes "IsValidNewToken ch"
  obtains "ch = CHR 0x22" | "ch = CHR ''{''" | "ch = CHR ''[''" | "starts_number ch" | "ch = CHR ''t''"
    | "ch = CHR ''f''" | "ch = CHR ''n''"
proof -
  have "ch = CHR 0x22 \<or> ch = CHR ''{'' \<or> ch = CHR ''['' \<or> starts_number ch \<or> ch = CHR ''t'' \<or> ch = CHR ''f'' \<or>
      ch = CHR ''n''"
    using assms unfolding IsValidNewToken_def starts_number_def by (elim disjE) (simp_all, argo+)
  then show thesis using that by argo
qed

lemma starts_number_not: "\<not> starts_number CHR 0x22" "\<not> starts_number CHR ''{''" "\<not> starts_number CHR ''[''"
  "\<not> starts_number CHR ''t''" "\<not> starts_number CHR ''f''" "\<not> starts_number CHR ''n''"
  by (simp_all add: starts_number_def c_isdigit_def ccode_def)

lemma StartNewToken_progress:
  assumes "StartNewToken p (c # s) = Some (Inr (p', s'))" "IsValidNewToken c"
  shows "s' = s \<or> s' = c # s \<and> (\<exists>st. m_aState p' = st # m_aState p \<and> st \<in> {NUMBER, STATE_TRUE, STATE_FALSE, STATE_NULL})"
proof (cases rule: token_start_cases [OF assms(2)])
  case 4
  then have "StartNewToken p (c # s) = Some (Inr (push_state NUMBER p, c # s))"
    using starts_number_not by (auto simp: StartNewToken_def)
  then show ?thesis using assms(1) by simp
qed (use assms(1) starts_number_not in \<open>auto simp: StartNewToken_def split: if_splits\<close>)

lemma number_loop_progress:
  assumes "number_loop p s = Inr (p', s')"
  shows "m_aState p' = m_aState p \<and>
    (length s' < length s \<or> s' = s \<and> (s = [] \<or> ends_token (hd s)))"
  using assms
proof (induction p s rule: number_loop.induct)
  case (2 p ch s)
  have "length (dropWhile c_isspace s) < Suc (length s)" by (simp add: length_dropWhile_le le_imp_less_Suc)
  then show ?case using 2 by (fastforce simp: SkipSpace_eq split: if_splits)
qed simp

lemma literal_loop_progress:
  assumes "literal_loop st p s = Inr (p', s')"
  shows "(m_aState p' = m_aState p \<or> m_aState p' = NUMBER # tl (m_aState p) \<and> s' \<noteq> [] \<and> \<not> ends_token (hd s')) \<and>
    (length s' < length s \<or> s' = s \<and> (s = [] \<or> ends_token (hd s) \<or> m_aState p' = NUMBER # tl (m_aState p)))"
  using assms
proof (induction st p s rule: literal_loop.induct)
  case (2 st p ch s)
  have "length (dropWhile c_isspace s) < Suc (length s)" by (simp add: length_dropWhile_le le_imp_less_Suc)
  moreover have "\<not> ends_token CHR ''a''" "\<not> ends_token CHR ''A''"
    by (simp_all add: ends_token_def c_isspace_def ccode_def)
  ultimately show ?case using 2 by (fastforce simp: SkipSpace_eq Let_def split: if_splits)
qed simp

lemma string_loop_progress:
  "string_loop p s = Some (Inr (p', s', e)) \<Longrightarrow> length s' < length s \<or> s = [] \<and> s' = []"
proof (induction p s arbitrary: rule: string_loop.induct)
  case (2 p ch s)
  have "length (dropWhile c_isspace s) < Suc (length s)" by (simp add: length_dropWhile_le le_imp_less_Suc)
  then show ?case using 2
    by (fastforce simp: SkipSpace_eq split: bind_splits char_result.splits)
qed simp

lemma parse_order_consumed: "length s' < length s \<Longrightarrow> ((p', s', b), (p, s, b)) \<in> parse_order"
  by (simp add: parse_order_def mlex_iff)

lemma parse_order_rank: "parse_rank p' s < parse_rank p s \<Longrightarrow> ((p', s, b), (p, s, b)) \<in> parse_order"
  by (simp add: parse_order_def mlex_iff)

lemma dropWhile_same: "length (dropWhile P s) < length s \<or> dropWhile P s = s"
  by (cases s) (auto simp: length_dropWhile_le le_imp_less_Suc)

text \<open>A container state that starts a token: the text is consumed, or the token state has a smaller
  rank.\<close>

lemma container_token:
  assumes "StartNewToken p1 (c # t) = Some (Inr (p', s'))" "IsValidNewToken c" "dropWhile c_isspace s = c # t"
    and "m_aState p = st # r" "st \<in> {INIT, OBJECT, ARRAY}" "m_aState p'' = m_aState p'"
  shows "((p'', s', b), (p, s, b)) \<in> parse_order"
proof -
  have le: "length (c # t) \<le> length s" using assms(3) by (metis length_dropWhile_le)
  show ?thesis
  proof (cases "length s' < length s")
    case False
    then have s': "s' = c # t" and top: "hd (m_aState p'') \<in> {NUMBER, STATE_TRUE, STATE_FALSE, STATE_NULL}"
      "m_aState p'' \<noteq> []"
      using StartNewToken_progress [OF assms(1,2)] le assms(6) by auto
    have "s = c # t" using False s' dropWhile_same [of c_isspace s] assms(3) by simp
    moreover have "parse_rank p'' (c # t) < parse_rank p (c # t)"
      using token_start_not_end(1) [OF assms(2)] assms(4,5) top
      by (cases "m_aState p''") (auto simp: parse_rank_def)
    ultimately show ?thesis using s' parse_order_rank by simp
  qed (rule parse_order_consumed)
qed

lemma Parse_step_progress:
  assumes "Parse_step p s b = Some (Inr (p', s'))"
  shows "((p', s', b), (p, s, b)) \<in> parse_order"
proof -
  have less: "length t < length s" if "dropWhile c_isspace s = c # t" for c t
    using length_dropWhile_le [of c_isspace s] that by simp
  obtain st r where st: "m_aState p = st # r"
    using assms by (cases "m_aState p") (auto simp: Parse_step_def currentState_def vec_back_def)
  then have cs: "currentState p = Some st" by (simp add: currentState_def vec_back_def)
  note step = assms [unfolded Parse_step_def cs, simplified]
  have lit: ?thesis if "Parse_literal st p s b = Some (Inr (p', s'))" "st \<in> {STATE_TRUE, STATE_FALSE, STATE_NULL}"
  proof -
    note h = that
    obtain q t where ql: "literal_loop st p s = Inr (q, t)"
      using h(1) by (cases "literal_loop st p s") (auto simp: Parse_literal_def fails_def)
    obtain x qs where qs: "m_aState q = x # qs"
      using h(1) ql by (cases "m_aState q") (auto simp: Parse_literal_def currentState_def vec_back_def)
    have q: "literal_loop st p s = Inr (q, s')"
      "if x = NUMBER then p' = q else m_aState p' = tl (m_aState q) \<and> s' \<noteq> []"
      using h(1) ql qs
      by (auto simp: Parse_literal_def fails_def CheckAndEmitTrueFalseOrNull_def currentState_def vec_back_def Let_def
          split: if_splits bind_splits sum.splits list.splits)
    have "s' = s \<Longrightarrow> parse_rank p' s < parse_rank p s"
      using literal_loop_progress [OF q(1)] q(2) qs st h(2) by (auto simp: parse_rank_def)
    then show ?thesis
      using literal_loop_progress [OF q(1)] parse_order_consumed parse_order_rank by blast
  qed
  show ?thesis
  proof (cases st)
    case INIT
    then show ?thesis using step st
      by (auto simp: Parse_INIT_def SkipSpace_eq fails_def split: list.splits if_splits bind_splits sum.splits
          intro: container_token)
  next
    case OBJECT
    then show ?thesis using step st less
      by (auto simp: Parse_OBJECT_def SkipSpace_eq fails_def goes_on_def split: list.splits if_splits bind_splits sum.splits
          intro: container_token parse_order_consumed)
  next
    case ARRAY
    then show ?thesis using step st less
      by (auto simp: Parse_ARRAY_def SkipSpace_eq fails_def goes_on_def split: list.splits if_splits bind_splits sum.splits
          intro: container_token parse_order_consumed)
  next
    case STRING
    then show ?thesis using step st string_loop_progress [of p s]
      by (auto simp: Parse_STRING_def fails_def split: if_splits bind_splits sum.splits
          intro!: parse_order_consumed)
  next
    case NUMBER
    then obtain q where q: "number_loop p s = Inr (q, s')" "m_aState p' = tl (m_aState q)" "s' \<noteq> []"
      using step by (auto simp: Parse_NUMBER_def fails_def Let_def split: if_splits sum.splits)
    have "s' = s \<Longrightarrow> parse_rank p' s < parse_rank p s"
      using number_loop_progress [OF q(1)] q(2,3) st by (auto simp: parse_rank_def)
    then show ?thesis
      using number_loop_progress [OF q(1)] parse_order_consumed parse_order_rank by blast
  qed (use step lit in auto)
qed

text \<open>\<open>while (true)\<close> of Parse.  A document of any size is parsed in finitely many rounds.\<close>

function Parse_loop :: "json_parser \<Rightarrow> string \<Rightarrow> bool \<Rightarrow> (json_parser \<times> bool) option" where
  "Parse_loop p pStr bFinished =
     (case Parse_step p pStr bFinished of
        None \<Rightarrow> None
      | Some (Inl r) \<Rightarrow> Some r
      | Some (Inr (p, s)) \<Rightarrow> Parse_loop p s bFinished)"
  by pat_completeness auto
termination
proof (relation parse_order)
  show "wf parse_order" unfolding parse_order_def by (intro wf_mlex) simp
qed (rule Parse_step_progress, blast)

declare Parse_loop.simps [simp del]

definition Parse :: "json_parser \<Rightarrow> string \<Rightarrow> bool \<Rightarrow> (json_parser \<times> bool) option" where
  "Parse p pStr bFinished = (if m_bExceptionOccurred p then Some (p, False) else Parse_loop p pStr bFinished)"

text \<open>A string, up to its terminator, as JSON text.  The index \<open>i\<close> is an \<open>int\<close>.\<close>

fun GetSerializedString_loop :: "int \<Rightarrow> string \<Rightarrow> string option" where
  "GetSerializedString_loop i [] = Some []"
| "GetSerializedString_loop i (ch # s) =
     (if ch = NUL then Some []
      else do {
        i \<leftarrow> c_int (i + 1);
        r \<leftarrow> GetSerializedString_loop i s;
        Some ((if ch = CHR 0x08 then [CHR 0x5c, CHR ''b'']
      else if ch = CHR 0x0c then [CHR 0x5c, CHR ''f'']
      else if ch = CHR 0x0a then [CHR 0x5c, CHR ''n'']
      else if ch = CHR 0x0d then [CHR 0x5c, CHR ''r'']
      else if ch = CHR 0x09 then [CHR 0x5c, CHR ''t'']
      else if ch = CHR 0x22 then [CHR 0x5c, CHR 0x22]
      else if ch = CHR 0x5c then [CHR 0x5c, CHR 0x5c]
      else if ccode ch < 32 then CHR 0x5c # CHR ''u'' # c_hex4 (ccode ch)
      else [ch]) @ r)
      })"

definition GetSerializedString :: "string \<Rightarrow> string option" where
  "GetSerializedString pszStr = map_option (\<lambda>r. CHR 0x22 # r @ [CHR 0x22]) (GetSerializedString_loop 0 pszStr)"

subsection \<open>The calls of a document\<close>

text \<open>
  The order in which the virtual methods may be called, as a stack machine: the innermost frame is
  the first one.  \<open>Doc\<close>, \<open>Member\<close> and \<open>Element\<close> wait for a value (of the document, of a member whose key
  is known, of an announced element), \<open>Members\<close> and \<open>Elements\<close> for the next member or element or the end
  of the object or array.  Nothing follows the document or an exception.
\<close>

datatype frame = Doc | Done | Members | Member | Elements | Element | Stopped

fun value_end :: "frame list \<Rightarrow> frame list" where
  "value_end (Doc # fs) = Done # fs"
| "value_end (Member # fs) = Members # fs"
| "value_end (Element # fs) = Elements # fs"
| "value_end fs = fs"

definition waits_value :: "frame list \<Rightarrow> bool" where
  "waits_value fs \<longleftrightarrow> fs \<noteq> [] \<and> hd fs \<in> {Doc, Member, Element}"

definition call_step :: "frame list \<Rightarrow> call \<Rightarrow> frame list option" where
  "call_step fs c =
     (if fs \<noteq> [] \<and> hd fs = Stopped then None
      else case c of
          Exception m \<Rightarrow> Some [Stopped]
        | StartObject \<Rightarrow> if waits_value fs then Some (Members # fs) else None
        | StartArray \<Rightarrow> if waits_value fs then Some (Elements # fs) else None
        | StartObjectMember k \<Rightarrow> (case fs of Members # gs \<Rightarrow> Some (Member # gs) | _ \<Rightarrow> None)
        | StartArrayMember \<Rightarrow> (case fs of Elements # gs \<Rightarrow> Some (Element # gs) | _ \<Rightarrow> None)
        | EndObject \<Rightarrow> (case fs of Members # gs \<Rightarrow> Some (value_end gs) | _ \<Rightarrow> None)
        | EndArray \<Rightarrow> (case fs of Elements # gs \<Rightarrow> Some (value_end gs) | _ \<Rightarrow> None)
        | _ \<Rightarrow> if waits_value fs then Some (value_end fs) else None)"

fun run_calls :: "frame list \<Rightarrow> call list \<Rightarrow> frame list option" where
  "run_calls fs [] = Some fs"
| "run_calls fs (c # cs) = (case call_step fs c of None \<Rightarrow> None | Some gs \<Rightarrow> run_calls gs cs)"

lemma run_calls_append:
  "run_calls fs (cs @ ds) = (case run_calls fs cs of None \<Rightarrow> None | Some gs \<Rightarrow> run_calls gs ds)"
  by (induction cs arbitrary: fs) (auto split: option.splits)

text \<open>The frames of a parser: of containers that wait for the value that is being read, and of all.\<close>

fun open_frames :: "State list \<Rightarrow> ArrayState list \<Rightarrow> MemberState list \<Rightarrow> frame list option" where
  "open_frames (INIT # r) as ms = (if r = [] \<and> as = [] \<and> ms = [] then Some [Doc] else None)"
| "open_frames (ARRAY # r) (AFTER_VALUE # as) ms = map_option (Cons Element) (open_frames r as ms)"
| "open_frames (OBJECT # r) as (IN_VALUE # ms) = map_option (Cons Member) (open_frames r as ms)"
| "open_frames _ _ _ = None"

definition stack_frames :: "bool \<Rightarrow> State list \<Rightarrow> ArrayState list \<Rightarrow> MemberState list \<Rightarrow> frame list option" where
  "stack_frames e sts as ms =
     (case sts of
        [] \<Rightarrow> None
      | st # r \<Rightarrow>
          if st = INIT then (if r = [] \<and> as = [] \<and> ms = [] then Some [if e then Done else Doc] else None)
          else if st = ARRAY then (case as of [] \<Rightarrow> None | _ # as \<Rightarrow> map_option (Cons Elements) (open_frames r as ms))
          else if st = OBJECT then
            (case ms of
               [] \<Rightarrow> None
             | m # ms \<Rightarrow> map_option (Cons (if m = WAITING_KEY \<or> m = IN_VALUE then Members else Member)) (open_frames r as ms))
          else if st = STRING \<and> r \<noteq> [] \<and> hd r = OBJECT \<and> ms \<noteq> [] \<and> hd ms = IN_KEY
          then map_option (Cons Members) (open_frames (tl r) as (tl ms))
          else open_frames r as ms)"

definition parser_frames :: "json_parser \<Rightarrow> frame list option" where
  "parser_frames p = stack_frames (m_bElementFound p) (m_aState p) (m_abArrayState p) (m_aeObjectState p)"

text \<open>The invariant of the class: the vectors fit together and agree with the calls made, and the flags
  of strings are those of an unfinished string.\<close>

definition parser_ok :: "json_parser \<Rightarrow> bool" where
  "parser_ok p \<longleftrightarrow> \<not> m_bExceptionOccurred p \<and>
     parser_frames p \<noteq> None \<and> run_calls [Doc] (calls p) = parser_frames p \<and>
     (m_aState p = [INIT] \<or> m_bElementFound p) \<and>
     (if m_bInUnicode p
      then length (m_osUnicodeHex p) \<le> 8 \<and>
        (length (m_osUnicodeHex p) \<ge> 4 \<longrightarrow> IsHighSurrogate (getUCSChar (m_osUnicodeHex p)))
      else m_osUnicodeHex p = []) \<and>
     (hd (m_aState p) = STRING \<or> \<not> m_bInUnicode p \<and> \<not> m_bInStringEscape p)"

definition parser_failed :: "json_parser \<Rightarrow> bool" where
  "parser_failed p \<longleftrightarrow> m_bExceptionOccurred p \<and> run_calls [Doc] (calls p) = Some [Stopped]"

definition round_ok :: "bool \<Rightarrow> round \<Rightarrow> bool" where
  "round_ok b r =
     (case r of
        Inl (p, ok) \<Rightarrow> (if ok then parser_ok p \<and> (b \<longrightarrow> m_aState p = [INIT]) else parser_failed p)
      | Inr (p, s) \<Rightarrow> parser_ok p)"

lemma open_frames_value:
  "open_frames r as ms = Some fs \<Longrightarrow>
     waits_value fs \<and> stack_frames True r as ms = Some (value_end fs) \<and> r \<noteq> [] \<and> hd r \<in> {INIT, ARRAY, OBJECT}"
  by (induction r as ms arbitrary: fs rule: open_frames.induct) (auto simp: waits_value_def stack_frames_def split: if_splits)

lemma waits_not_stopped: "waits_value fs \<Longrightarrow> fs \<noteq> [] \<and> hd fs \<noteq> Stopped"
  by (auto simp: waits_value_def)

lemma frames_not_stopped: "stack_frames e sts as ms = Some fs \<Longrightarrow> fs \<noteq> [] \<and> hd fs \<noteq> Stopped"
  by (auto simp: stack_frames_def dest!: open_frames_value waits_not_stopped split: if_splits list.splits)

lemma call_step_values [simp]:
  assumes "waits_value fs"
  shows "call_step fs (String s) = Some (value_end fs)" "call_step fs (Number s) = Some (value_end fs)"
    "call_step fs (Boolean b) = Some (value_end fs)" "call_step fs Null = Some (value_end fs)"
    "call_step fs StartObject = Some (Members # fs)" "call_step fs StartArray = Some (Elements # fs)"
  using assms waits_not_stopped [OF assms] by (simp_all add: call_step_def)

lemma call_step_frames [simp]:
  "call_step (Members # fs) (StartObjectMember k) = Some (Member # fs)"
  "call_step (Members # fs) EndObject = Some (value_end fs)"
  "call_step (Elements # fs) StartArrayMember = Some (Element # fs)"
  "call_step (Elements # fs) EndArray = Some (value_end fs)"
  "fs \<noteq> [] \<Longrightarrow> hd fs \<noteq> Stopped \<Longrightarrow> call_step fs (Exception m) = Some [Stopped]"
  by (simp_all add: call_step_def)

lemma EmitException_failed:
  assumes "run_calls [Doc] (calls p) = Some fs" "fs \<noteq> []" "hd fs \<noteq> Stopped"
  shows "parser_failed (EmitException p m)"
  using assms by (simp add: parser_failed_def EmitException_def emit_def run_calls_append)

lemma EmitException_ok: "parser_ok p \<Longrightarrow> parser_failed (EmitException p m)"
  using frames_not_stopped by (fastforce simp: parser_ok_def parser_frames_def intro: EmitException_failed)

lemma EmitUnexpectedChar_ok: "parser_ok p \<Longrightarrow> parser_failed (EmitUnexpectedChar p c m)"
  unfolding EmitUnexpectedChar_def by (rule EmitException_ok)

lemma parser_ok_Advance [simp]:
  "parser_ok (AdvanceChar p c) = parser_ok p" "parser_ok (Advance p s) = parser_ok p"
  by (simp_all add: parser_ok_def parser_frames_def)

lemma parser_ok_token [simp]: "parser_ok (p\<lparr>m_osToken := t\<rparr>) = parser_ok p"
  by (simp add: parser_ok_def parser_frames_def)

lemma stack_frames_empty: "stack_frames e sts [] [] = Some fs \<Longrightarrow> hd sts \<in> {INIT, ARRAY, OBJECT} \<Longrightarrow> sts = [INIT]"
  by (auto simp: stack_frames_def split: list.splits if_splits)

lemma CheckStackEmpty_ok:
  assumes "parser_ok p" "hd (m_aState p) \<in> {INIT, ARRAY, OBJECT}"
  shows "round_ok b (Inl (CheckStackEmpty p))"
proof (cases "m_aeObjectState p = [] \<and> m_abArrayState p = []")
  case True
  then have "m_aState p = [INIT]"
    using assms stack_frames_empty by (auto simp: parser_ok_def parser_frames_def)
  then show ?thesis using True assms(1) by (simp add: CheckStackEmpty_def round_ok_def)
qed (use assms(1) in \<open>auto simp: CheckStackEmpty_def round_ok_def EmitException_ok\<close>)

lemma round_ok_simps [simp]:
  "round_ok b (Inr (p, s)) \<longleftrightarrow> parser_ok p" "round_ok b (fails p) \<longleftrightarrow> parser_failed p"
  "round_ok b (Inl (p, True)) \<longleftrightarrow> parser_ok p \<and> (b \<longrightarrow> m_aState p = [INIT])"
  by (auto simp: round_ok_def fails_def)

lemma record_fields [simp]:
  "m_bExceptionOccurred (emit c p) = m_bExceptionOccurred p" "m_bElementFound (emit c p) = m_bElementFound p"
  "m_bInUnicode (emit c p) = m_bInUnicode p" "m_osUnicodeHex (emit c p) = m_osUnicodeHex p"
  "m_bInStringEscape (emit c p) = m_bInStringEscape p"
  "m_bExceptionOccurred (push_state st p) = m_bExceptionOccurred p" "m_bElementFound (push_state st p) = m_bElementFound p"
  "m_bInUnicode (push_state st p) = m_bInUnicode p" "m_osUnicodeHex (push_state st p) = m_osUnicodeHex p"
  "m_bInStringEscape (push_state st p) = m_bInStringEscape p"
  "m_bExceptionOccurred (pop_state p) = m_bExceptionOccurred p" "m_bElementFound (pop_state p) = m_bElementFound p"
  "m_bInUnicode (pop_state p) = m_bInUnicode p" "m_osUnicodeHex (pop_state p) = m_osUnicodeHex p"
  "m_bInStringEscape (pop_state p) = m_bInStringEscape p"
  by (simp_all add: emit_def push_state_def pop_state_def)

text \<open>A complete value: its state is popped after the call that reports it.\<close>

lemma value_complete:
  assumes ok: "parser_ok p" and st: "m_aState p = st # r" "m_bElementFound p" "\<not> m_bInUnicode p" "\<not> m_bInStringEscape p"
    and fs: "open_frames r (m_abArrayState p) (m_aeObjectState p) = Some fs" "parser_frames p = Some fs"
    and c: "call_step fs c = Some (value_end fs)"
  shows "parser_ok (pop_state (emit c p))" "hd (tl (m_aState p)) \<in> {INIT, ARRAY, OBJECT}"
proof -
  note v = open_frames_value [OF fs(1)]
  show "hd (tl (m_aState p)) \<in> {INIT, ARRAY, OBJECT}" using v st by simp
  show "parser_ok (pop_state (emit c p))"
    using ok st fs c v by (auto simp: parser_ok_def parser_frames_def run_calls_append)
qed

lemma StartNewToken_ok:
  assumes run: "run_calls [Doc] (calls p) = Some fs" and fs: "fs \<noteq> []" "hd fs \<noteq> Stopped"
    and p: "\<not> m_bExceptionOccurred p" "\<not> m_bInUnicode p" "m_osUnicodeHex p = []" "\<not> m_bInStringEscape p" "m_aState p \<noteq> []"
    and tok: "IsValidNewToken ch"
    and val: "open_frames (m_aState p) (m_abArrayState p) (m_aeObjectState p) = Some fs \<or>
      ch = CHR 0x22 \<and> stack_frames True (STRING # m_aState p) (m_abArrayState p) (m_aeObjectState p) = Some fs"
  obtains (fail) q where "StartNewToken p (ch # s) = Some (Inl q)" "parser_failed q"
    | (ok) q t where "StartNewToken p (ch # s) = Some (Inr (q, t))" "parser_ok (q\<lparr>m_bElementFound := True\<rparr>)"
      "m_bElementFound q = m_bElementFound p"
proof -
  have fl: "parser_failed (EmitException p m)" for m by (rule EmitException_failed [OF run fs])
  show thesis
  proof (cases rule: token_start_cases [OF tok])
    case 1
    then have eq: "StartNewToken p (ch # s) = Some (Inr (AdvanceChar (push_state STRING p) ch, s))"
      by (simp add: StartNewToken_def)
    have "stack_frames True (STRING # m_aState p) (m_abArrayState p) (m_aeObjectState p) = Some fs"
      using val by (auto simp: stack_frames_def neq_Nil_conv split: if_splits)
    then show thesis using run p by (intro ok [OF eq]) (simp_all add: parser_ok_def parser_frames_def)
  next
    case 2
    then have val: "open_frames (m_aState p) (m_abArrayState p) (m_aeObjectState p) = Some fs" using val by simp
    let ?q = "AdvanceChar (push_state OBJECT ((emit StartObject p)\<lparr>m_aeObjectState := WAITING_KEY # m_aeObjectState p\<rparr>)) ch"
    have "parser_ok (?q\<lparr>m_bElementFound := True\<rparr>)"
      using run p val open_frames_value [OF val]
      by (simp add: parser_ok_def parser_frames_def stack_frames_def run_calls_append)
    then show thesis
      using 2 fl [of "''Too many nested objects and/or arrays''"]
        fail [of "EmitException p ''Too many nested objects and/or arrays''"] ok [of ?q s]
      by (cases "length (m_aState p) = m_nMaxDepth p") (simp_all add: StartNewToken_def)
  next
    case 3
    then have val: "open_frames (m_aState p) (m_abArrayState p) (m_aeObjectState p) = Some fs" using val by simp
    let ?q = "AdvanceChar (push_state ARRAY ((emit StartArray p)\<lparr>m_abArrayState := ARRAY_INIT # m_abArrayState p\<rparr>)) ch"
    have "parser_ok (?q\<lparr>m_bElementFound := True\<rparr>)"
      using run p val open_frames_value [OF val]
      by (simp add: parser_ok_def parser_frames_def stack_frames_def run_calls_append)
    then show thesis
      using 3 fl [of "''Too many nested objects and/or arrays''"]
        fail [of "EmitException p ''Too many nested objects and/or arrays''"] ok [of ?q s]
      by (cases "length (m_aState p) = m_nMaxDepth p") (simp_all add: StartNewToken_def)
  next
    case 4
    then have "ch \<noteq> CHR 0x22" "ch \<noteq> CHR ''{''" "ch \<noteq> CHR ''[''" using starts_number_not by auto
    then have eq: "StartNewToken p (ch # s) = Some (Inr (push_state NUMBER p, ch # s))"
      and val: "open_frames (m_aState p) (m_abArrayState p) (m_aeObjectState p) = Some fs"
      using 4 val by (simp_all add: StartNewToken_def)
    show thesis using run p val by (intro ok [OF eq]) (simp_all add: parser_ok_def parser_frames_def stack_frames_def)
  next
    case 5
    then have eq: "StartNewToken p (ch # s) = Some (Inr (push_state STATE_TRUE p, ch # s))"
      and val: "open_frames (m_aState p) (m_abArrayState p) (m_aeObjectState p) = Some fs"
      using val starts_number_not by (simp_all add: StartNewToken_def)
    show thesis using run p val by (intro ok [OF eq]) (simp_all add: parser_ok_def parser_frames_def stack_frames_def)
  next
    case 6
    then have eq: "StartNewToken p (ch # s) = Some (Inr (push_state STATE_FALSE p, ch # s))"
      and val: "open_frames (m_aState p) (m_abArrayState p) (m_aeObjectState p) = Some fs"
      using val starts_number_not by (simp_all add: StartNewToken_def)
    show thesis using run p val by (intro ok [OF eq]) (simp_all add: parser_ok_def parser_frames_def stack_frames_def)
  next
    case 7
    then have eq: "StartNewToken p (ch # s) = Some (Inr (push_state STATE_NULL p, ch # s))"
      and val: "open_frames (m_aState p) (m_abArrayState p) (m_aeObjectState p) = Some fs"
      using val starts_number_not by (simp_all add: StartNewToken_def)
    show thesis using run p val by (intro ok [OF eq]) (simp_all add: parser_ok_def parser_frames_def stack_frames_def)
  qed
qed

text \<open>The same inside a container.\<close>

lemma goes_on_ok:
  assumes "run_calls [Doc] (calls p) = Some fs"
    and "\<not> m_bExceptionOccurred p" "\<not> m_bInUnicode p" "m_osUnicodeHex p = []" "\<not> m_bInStringEscape p" "m_bElementFound p"
    and "IsValidNewToken ch" "fs \<noteq> []" "hd fs \<noteq> Stopped" "m_aState p \<noteq> []"
    and "open_frames (m_aState p) (m_abArrayState p) (m_aeObjectState p) = Some fs \<or>
      ch = CHR 0x22 \<and> stack_frames True (STRING # m_aState p) (m_abArrayState p) (m_aeObjectState p) = Some fs"
  shows "\<exists>x. StartNewToken p (ch # s) = Some x \<and> round_ok b (goes_on x)"
proof (cases rule: StartNewToken_ok [OF assms(1,8,9,2-5,10,7,11), of s])
  case (1 q)
  then show ?thesis by (simp add: goes_on_def)
next
  case (2 q t)
  note ok = 2
  have "q\<lparr>m_bElementFound := True\<rparr> = q" using ok(3) assms(6) by simp
  then show ?thesis using ok by (simp add: goes_on_def)
qed

lemma parser_ok_frames:
  assumes "parser_ok p"
  obtains fs where "stack_frames (m_bElementFound p) (m_aState p) (m_abArrayState p) (m_aeObjectState p) = Some fs"
    "run_calls [Doc] (calls p) = Some fs" "fs \<noteq> []" "hd fs \<noteq> Stopped" "m_aState p \<noteq> []"
  using assms frames_not_stopped by (fastforce simp: parser_ok_def parser_frames_def stack_frames_def)

lemma Parse_INIT_ok:
  assumes "parser_ok p" "m_aState p = INIT # r"
  shows "\<exists>x. Parse_INIT p s = Some x \<and> round_ok b x"
proof -
  obtain p1 s1 where sp: "SkipSpace p s = (p1, s1)" and ok: "parser_ok p1" and st: "m_aState p1 = INIT # r"
    using assms by (simp add: SkipSpace_eq)
  from ok obtain fs where fs: "stack_frames (m_bElementFound p1) (m_aState p1) (m_abArrayState p1) (m_aeObjectState p1) = Some fs"
    "run_calls [Doc] (calls p1) = Some fs" "fs \<noteq> []" "hd fs \<noteq> Stopped" "m_aState p1 \<noteq> []" by (rule parser_ok_frames)
  have r: "r = []" "m_abArrayState p1 = []" "m_aeObjectState p1 = []" "fs = [if m_bElementFound p1 then Done else Doc]"
    using fs(1) st by (auto simp: stack_frames_def split: if_splits)
  show ?thesis
  proof (cases s1)
    case Nil
    then show ?thesis using sp ok st r by (simp add: Parse_INIT_def)
  next
    case (Cons ch t)
    show ?thesis
    proof (cases "m_bElementFound p1 \<or> \<not> IsValidNewToken ch")
      case True
      then show ?thesis using sp ok Cons by (auto simp: Parse_INIT_def EmitUnexpectedChar_ok)
    next
      case False
      then have "open_frames (m_aState p1) (m_abArrayState p1) (m_aeObjectState p1) = Some fs" using r st by simp
      moreover have "\<not> m_bExceptionOccurred p1" "\<not> m_bInUnicode p1" "m_osUnicodeHex p1 = []" "\<not> m_bInStringEscape p1"
        using ok st by (auto simp: parser_ok_def)
      ultimately consider (fail) q where "StartNewToken p1 (ch # t) = Some (Inl q)" "parser_failed q"
        | (ok) q u where "StartNewToken p1 (ch # t) = Some (Inr (q, u))" "parser_ok (q\<lparr>m_bElementFound := True\<rparr>)"
        using StartNewToken_ok [of p1 fs ch t] fs False by metis
      then show ?thesis using False sp Cons by cases (auto simp: Parse_INIT_def)
    qed
  qed
qed

lemma EmitException_array [simp]:
  "parser_failed (EmitException (p\<lparr>m_abArrayState := as\<rparr>) m) = parser_failed (EmitException p m)"
  "parser_failed (EmitException (p\<lparr>m_aeObjectState := ms\<rparr>) m) = parser_failed (EmitException p m)"
  by (simp_all add: parser_failed_def EmitException_def emit_def)

lemma Parse_ARRAY_ok:
  assumes "parser_ok p" "m_aState p = ARRAY # r"
  shows "\<exists>x. Parse_ARRAY p s b = Some x \<and> round_ok b x"
proof -
  obtain p1 s1 where sp: "SkipSpace p s = (p1, s1)" and ok: "parser_ok p1" and st: "m_aState p1 = ARRAY # r"
    using assms by (simp add: SkipSpace_eq)
  from ok obtain fs where fs: "stack_frames (m_bElementFound p1) (m_aState p1) (m_abArrayState p1) (m_aeObjectState p1) = Some fs"
    "run_calls [Doc] (calls p1) = Some fs" "fs \<noteq> []" "hd fs \<noteq> Stopped" "m_aState p1 \<noteq> []" by (rule parser_ok_frames)
  obtain a as gs where as: "m_abArrayState p1 = a # as" and gs: "fs = Elements # gs"
    and op: "open_frames r as (m_aeObjectState p1) = Some gs"
    using fs(1) st by (auto simp: stack_frames_def split: list.splits)
  have flags: "\<not> m_bExceptionOccurred p1" "\<not> m_bInUnicode p1" "m_osUnicodeHex p1 = []" "\<not> m_bInStringEscape p1" "m_bElementFound p1"
    using ok st by (auto simp: parser_ok_def)
  note v = open_frames_value [OF op]
  show ?thesis
  proof (cases s1)
    case Nil
    then show ?thesis using sp ok st by (simp add: Parse_ARRAY_def EmitException_ok)
  next
    case (Cons ch t)
    consider (comma) "ch = CHR '',''" | (close) "ch = CHR '']''" | (token) "ch \<noteq> CHR '',''" "ch \<noteq> CHR '']''" "IsValidNewToken ch"
      | (other) "ch \<noteq> CHR '',''" "ch \<noteq> CHR '']''" "\<not> IsValidNewToken ch" by blast
    then show ?thesis
    proof cases
      case comma
      have "parser_ok (p1\<lparr>m_abArrayState := AFTER_COMMA # as\<rparr>)"
        using ok st as by (simp add: parser_ok_def parser_frames_def stack_frames_def)
      then show ?thesis using sp ok as comma Cons
        by (auto simp: Parse_ARRAY_def vec_back_def EmitUnexpectedChar_ok)
    next
      case close
      have "parser_ok (pop_state ((AdvanceChar (emit EndArray p1) ch)\<lparr>m_abArrayState := as\<rparr>))"
        using st as fs(2) gs v flags by (simp add: parser_ok_def parser_frames_def run_calls_append)
      then show ?thesis using sp ok as close Cons
        by (auto simp: Parse_ARRAY_def vec_back_def EmitException_ok)
    next
      case token
      let ?q = "emit StartArrayMember (p1\<lparr>m_abArrayState := AFTER_VALUE # as\<rparr>)"
      have "open_frames (m_aState ?q) (m_abArrayState ?q) (m_aeObjectState ?q) = Some (Element # gs)"
        "run_calls [Doc] (calls ?q) = Some (Element # gs)"
        using st op fs(2) gs by (simp_all add: run_calls_append)
      then have "\<exists>x. StartNewToken ?q (ch # t) = Some x \<and> round_ok b (goes_on x)"
        using flags st token(3) by (intro goes_on_ok [where fs = "Element # gs"]) simp_all
      then show ?thesis using sp ok as token Cons
        by (cases "a = AFTER_VALUE") (auto simp: Parse_ARRAY_def vec_back_def EmitException_ok)
    next
      case other
      then show ?thesis using sp ok Cons by (auto simp: Parse_ARRAY_def EmitUnexpectedChar_ok)
    qed
  qed
qed

lemma Parse_OBJECT_ok:
  assumes "parser_ok p" "m_aState p = OBJECT # r"
  shows "\<exists>x. Parse_OBJECT p s b = Some x \<and> round_ok b x"
proof -
  obtain p1 s1 where sp: "SkipSpace p s = (p1, s1)" and ok: "parser_ok p1" and st: "m_aState p1 = OBJECT # r"
    using assms by (simp add: SkipSpace_eq)
  from ok obtain fs where fs: "stack_frames (m_bElementFound p1) (m_aState p1) (m_abArrayState p1) (m_aeObjectState p1) = Some fs"
    "run_calls [Doc] (calls p1) = Some fs" "fs \<noteq> []" "hd fs \<noteq> Stopped" "m_aState p1 \<noteq> []" by (rule parser_ok_frames)
  obtain m ms gs where ms: "m_aeObjectState p1 = m # ms"
    and gs: "fs = (if m = WAITING_KEY \<or> m = IN_VALUE then Members else Member) # gs"
    and op: "open_frames r (m_abArrayState p1) ms = Some gs"
    using fs(1) st by (auto simp: stack_frames_def split: list.splits)
  have flags: "\<not> m_bExceptionOccurred p1" "\<not> m_bInUnicode p1" "m_osUnicodeHex p1 = []" "\<not> m_bInStringEscape p1" "m_bElementFound p1"
    using ok st by (auto simp: parser_ok_def)
  note v = open_frames_value [OF op]
  have sep: "parser_ok (p1\<lparr>m_aeObjectState := m' # ms\<rparr>)"
    if "(m = WAITING_KEY \<or> m = IN_VALUE) = (m' = WAITING_KEY \<or> m' = IN_VALUE)" for m'
    using st fs(2) gs op flags that by (simp add: parser_ok_def parser_frames_def stack_frames_def)
  show ?thesis
  proof (cases s1)
    case Nil
    then show ?thesis using sp ok st by (simp add: Parse_OBJECT_def EmitException_ok)
  next
    case (Cons ch t)
    consider (comma) "ch = CHR '',''" | (colon) "ch = CHR '':''" | (close) "ch = CHR ''}''"
      | (token) "ch \<noteq> CHR '',''" "ch \<noteq> CHR '':''" "ch \<noteq> CHR ''}''" "IsValidNewToken ch"
      | (other) "ch \<noteq> CHR '',''" "ch \<noteq> CHR '':''" "ch \<noteq> CHR ''}''" "\<not> IsValidNewToken ch" by blast
    then show ?thesis
    proof cases
      case comma
      then show ?thesis using sp ok ms Cons sep [of WAITING_KEY]
        by (cases "m = IN_VALUE") (auto simp: Parse_OBJECT_def vec_back_def EmitUnexpectedChar_ok)
    next
      case colon
      then show ?thesis using sp ok ms Cons sep [of KEY_FINISHED]
        by (cases "m = IN_KEY") (auto simp: Parse_OBJECT_def vec_back_def EmitUnexpectedChar_ok)
    next
      case close
      have "m = WAITING_KEY \<or> m = IN_VALUE \<Longrightarrow>
          parser_ok (pop_state ((AdvanceChar (emit EndObject p1) ch)\<lparr>m_aeObjectState := ms\<rparr>))"
        using st fs(2) gs v flags by (auto simp: parser_ok_def parser_frames_def run_calls_append)
      then show ?thesis using sp ok ms close Cons
        by (cases "m = WAITING_KEY \<or> m = IN_VALUE") (auto simp: Parse_OBJECT_def vec_back_def EmitException_ok)
    next
      case token
      have key: "\<exists>x. StartNewToken (p1\<lparr>m_aeObjectState := IN_KEY # ms\<rparr>) (CHR 0x22 # t) = Some x \<and> round_ok b (goes_on x)"
        if "m = WAITING_KEY"
        using flags st op fs(2) gs that
        by (intro goes_on_ok [where fs = "Members # gs"])
          (simp_all add: IsValidNewToken_def stack_frames_def)
      have val: "\<exists>x. StartNewToken (p1\<lparr>m_aeObjectState := IN_VALUE # ms\<rparr>) (ch # t) = Some x \<and> round_ok b (goes_on x)"
        if "m = KEY_FINISHED"
        using flags st op fs(2) gs that token(4)
        by (intro goes_on_ok [where fs = "Member # gs"]) simp_all
      show ?thesis using sp ok ms token Cons key val
        by (cases m; cases "ch = CHR 0x22") (auto simp: Parse_OBJECT_def vec_back_def EmitException_ok EmitUnexpectedChar_ok)
    next
      case other
      then show ?thesis using sp ok Cons by (auto simp: Parse_OBJECT_def EmitUnexpectedChar_ok)
    qed
  qed
qed

text \<open>Tokens: the loops keep the stacks.\<close>

definition same_stacks :: "json_parser \<Rightarrow> json_parser \<Rightarrow> bool" where
  "same_stacks p q \<longleftrightarrow> m_aState q = m_aState p \<and> m_abArrayState q = m_abArrayState p \<and>
     m_aeObjectState q = m_aeObjectState p \<and> calls q = calls p \<and> m_bElementFound q = m_bElementFound p \<and>
     m_bExceptionOccurred q = m_bExceptionOccurred p"

lemma number_loop_ok:
  "parser_ok p \<Longrightarrow> case number_loop p s of Inl q \<Rightarrow> parser_failed q | Inr (q, t) \<Rightarrow> parser_ok q \<and> same_stacks p q"
proof (induction p s rule: number_loop.induct)
  case (2 p ch s)
  then show ?case
    by (cases "number_char ch"; cases "ends_token ch")
      (auto simp: EmitException_ok EmitUnexpectedChar_ok SkipSpace_eq same_stacks_def split: sum.splits prod.splits)
qed (simp add: same_stacks_def)

lemma token_frames:
  assumes "parser_ok p" "m_aState p = st # r" "st \<in> {NUMBER, STATE_TRUE, STATE_FALSE, STATE_NULL}"
  obtains fs where "open_frames r (m_abArrayState p) (m_aeObjectState p) = Some fs" "parser_frames p = Some fs"
    "m_bElementFound p" "\<not> m_bInUnicode p" "\<not> m_bInStringEscape p" "waits_value fs"
  using assms open_frames_value by (auto simp: parser_ok_def parser_frames_def stack_frames_def)

lemma Parse_NUMBER_ok:
  assumes "parser_ok p" "m_aState p = NUMBER # r"
  shows "round_ok b (Parse_NUMBER p s b)"
proof (cases "number_loop p s")
  case (Inl q)
  then show ?thesis using number_loop_ok [OF assms(1), of s] by (simp add: Parse_NUMBER_def)
next
  case (Inr qt)
  obtain q t where q: "number_loop p s = Inr (q, t)" "parser_ok q" "m_aState q = NUMBER # r"
    using Inr number_loop_ok [OF assms(1), of s] assms(2) by (cases qt) (auto simp: same_stacks_def)
  obtain fs where fs: "open_frames r (m_abArrayState q) (m_aeObjectState q) = Some fs" "parser_frames q = Some fs"
    "m_bElementFound q" "\<not> m_bInUnicode q" "\<not> m_bInStringEscape q" "waits_value fs"
    using token_frames [OF q(2,3)] by auto
  let ?p = "pop_state ((emit (Number (m_osToken q)) q)\<lparr>m_osToken := []\<rparr>)"
  note vc = value_complete [OF q(2,3) fs(3-5) fs(1,2) call_step_values(2) [OF fs(6)]]
  have p: "?p = (pop_state (emit (Number (m_osToken q)) q))\<lparr>m_osToken := []\<rparr>"
    by (simp add: pop_state_def emit_def)
  have "parser_ok ?p" "hd (m_aState ?p) \<in> {INIT, ARRAY, OBJECT}" unfolding p using vc q(3) by simp_all
  then show ?thesis using q CheckStackEmpty_ok
    by (auto simp: Parse_NUMBER_def Let_def EmitException_ok)
qed

lemma literal_loop_ok:
  "parser_ok p \<Longrightarrow> m_aState p = st # r \<Longrightarrow> st \<in> {STATE_TRUE, STATE_FALSE, STATE_NULL} \<Longrightarrow>
   case literal_loop st p s of
     Inl q \<Rightarrow> parser_failed q
   | Inr (q, t) \<Rightarrow> parser_ok q \<and> (m_aState q = st # r \<or> m_aState q = NUMBER # r)"
proof (induction st p s rule: literal_loop.induct)
  case (2 st p ch s)
  obtain fs where fs: "open_frames r (m_abArrayState p) (m_aeObjectState p) = Some fs" "parser_frames p = Some fs"
    "m_bElementFound p" "\<not> m_bInUnicode p" "\<not> m_bInStringEscape p" "waits_value fs"
    using token_frames [OF 2(2,3)] 2(4) by auto
  have "parser_ok (p\<lparr>m_aState := NUMBER # r\<rparr>)"
    using 2(2,3) fs by (auto simp: parser_ok_def parser_frames_def stack_frames_def)
  then show ?case using 2
    by (auto simp: EmitException_ok EmitUnexpectedChar_ok SkipSpace_eq Let_def)
qed simp

lemma Parse_literal_ok:
  assumes "parser_ok p" "m_aState p = st # r" "st \<in> {STATE_TRUE, STATE_FALSE, STATE_NULL}"
  shows "\<exists>x. Parse_literal st p s b = Some x \<and> round_ok b x"
proof (cases "literal_loop st p s")
  case (Inl q)
  then show ?thesis using literal_loop_ok [OF assms, of s] by (simp add: Parse_literal_def)
next
  case (Inr qt)
  obtain q t where q: "literal_loop st p s = Inr (q, t)" "parser_ok q" "m_aState q = st # r \<or> m_aState q = NUMBER # r"
    using Inr literal_loop_ok [OF assms, of s] by (cases qt) auto
  show ?thesis
  proof (cases "m_aState q = NUMBER # r")
    case True
    then show ?thesis using q by (simp add: Parse_literal_def currentState_def vec_back_def)
  next
    case False
    then have st: "m_aState q = st # r" "currentState q = Some st" "st \<noteq> NUMBER"
      using q(3) assms(3) by (auto simp: currentState_def vec_back_def)
    obtain fs where fs: "open_frames r (m_abArrayState q) (m_aeObjectState q) = Some fs" "parser_frames q = Some fs"
      "m_bElementFound q" "\<not> m_bInUnicode q" "\<not> m_bInStringEscape q" "waits_value fs"
      using token_frames [OF q(2) st(1)] assms(3) by auto
    have vc: "parser_ok (pop_state (emit c q))" "hd (m_aState (pop_state (emit c q))) \<in> {INIT, ARRAY, OBJECT}"
      if "c \<in> {Boolean True, Boolean False, Null}" for c
    proof -
      have c: "call_step fs c = Some (value_end fs)" using fs(6) that by auto
      show "parser_ok (pop_state (emit c q))" "hd (m_aState (pop_state (emit c q))) \<in> {INIT, ARRAY, OBJECT}"
        using value_complete [OF q(2) st(1) fs(3-5) fs(1,2) c] by simp_all
    qed
    have "\<exists>x. CheckAndEmitTrueFalseOrNull q ch = Some x \<and>
        (case x of Inl q' \<Rightarrow> parser_failed q' | Inr q' \<Rightarrow> parser_ok q' \<and> hd (m_aState q') \<in> {INIT, ARRAY, OBJECT})" for ch
      using st(2) q(2) vc
      by (auto simp: CheckAndEmitTrueFalseOrNull_def EmitUnexpectedChar_ok)
    then obtain x where x: "CheckAndEmitTrueFalseOrNull q (if t = [] then NUL else hd t) = Some x"
      "case x of Inl q' \<Rightarrow> parser_failed q' | Inr q' \<Rightarrow> parser_ok q' \<and> hd (m_aState q') \<in> {INIT, ARRAY, OBJECT}" by blast
    show ?thesis
    proof (cases t)
      case Nil
      then show ?thesis using x q(1,2) st CheckStackEmpty_ok
        by (cases x; cases b) (auto simp: Parse_literal_def)
    next
      case (Cons c u)
      then show ?thesis using x q(1) st by (cases x) (auto simp: Parse_literal_def)
    qed
  qed
qed

text \<open>Strings.\<close>

definition char_ok :: "json_parser \<Rightarrow> char_result \<Rightarrow> bool" where
  "char_ok p r =
     (case r of
        Fails q \<Rightarrow> parser_failed q
      | Consumed q \<Rightarrow> parser_ok q \<and> same_stacks p q
      | EndOfString q \<Rightarrow> parser_ok q \<and> same_stacks p q \<and> \<not> m_bInUnicode q \<and> \<not> m_bInStringEscape q)"

lemma char_ok_simps [simp]:
  "char_ok p (Fails q) = parser_failed q" "char_ok p (Consumed q) \<longleftrightarrow> parser_ok q \<and> same_stacks p q"
  "char_ok p (EndOfString q) \<longleftrightarrow> parser_ok q \<and> same_stacks p q \<and> \<not> m_bInUnicode q \<and> \<not> m_bInStringEscape q"
  by (simp_all add: char_ok_def)

lemma parser_ok_flags:
  assumes "parser_ok p" "hd (m_aState p) = STRING" "\<not> m_bInUnicode p"
  shows "parser_ok (p\<lparr>m_bInStringEscape := e\<rparr>)" "parser_ok (p\<lparr>m_bInUnicode := True, m_bInStringEscape := e\<rparr>)"
  using assms by (auto simp: parser_ok_def parser_frames_def)

lemma parser_ok_hex:
  assumes "parser_ok p" "hd (m_aState p) = STRING" "m_bInUnicode p" "length h \<le> 8" "length h \<ge> 4 \<longrightarrow> IsHighSurrogate (getUCSChar h)"
  shows "parser_ok (p\<lparr>m_osUnicodeHex := h\<rparr>)"
  using assms by (auto simp: parser_ok_def parser_frames_def)

lemma string_plain_ok:
  assumes "parser_ok p" "hd (m_aState p) = STRING" "\<not> m_bInUnicode p"
  shows "char_ok p (string_plain p ch)"
proof (cases "m_bInStringEscape p")
  case True
  have t: "parser_ok (p\<lparr>m_osToken := t, m_bInStringEscape := e\<rparr>)" for t e
    using assms by (auto simp: parser_ok_def parser_frames_def)
  show ?thesis
    using True assms t parser_ok_flags [OF assms]
    by (auto simp: string_plain_def string_escape_def Let_def same_stacks_def EmitException_ok)
next
  case False
  then show ?thesis using assms parser_ok_flags [OF assms]
    by (auto simp: string_plain_def same_stacks_def)
qed

lemma DecodeUnicode_ok:
  assumes "parser_ok p" "hd (m_aState p) = STRING"
    and "length (m_osUnicodeHex p) = 8 \<and> IsHighSurrogate (getUCSChar (m_osUnicodeHex p)) \<or> length (m_osUnicodeHex p) = 4"
  obtains q where "DecodeUnicode p = Some q" "parser_ok q" "same_stacks p q" "\<not> m_bInUnicode q"
    "m_nLastChar q = m_nLastChar p"
proof -
  obtain u where "DecodeUnicode p =
      Some (p\<lparr>m_osToken := m_osToken p @ Unicode_bytes u, m_bInUnicode := False, m_osUnicodeHex := []\<rparr>)"
    using assms(3) by (auto simp: DecodeUnicode_def Let_def)
  moreover have "parser_ok (p\<lparr>m_osToken := t, m_bInUnicode := False, m_osUnicodeHex := []\<rparr>)" for t
    using assms(1,2) by (auto simp: parser_ok_def parser_frames_def)
  ultimately show thesis using that by (simp add: same_stacks_def)
qed

lemma same_stacks_trans: "same_stacks p q \<Longrightarrow> same_stacks q r \<Longrightarrow> same_stacks p r"
  by (simp add: same_stacks_def)

lemma char_ok_trans: "same_stacks p q \<Longrightarrow> char_ok q r \<Longrightarrow> char_ok p r"
  by (cases r) (auto intro: same_stacks_trans)

lemma string_unicode_ok:
  assumes p: "parser_ok p" "hd (m_aState p) = STRING" "m_bInUnicode p"
  shows "\<exists>r. string_unicode p ch = Some r \<and> char_ok p r"
proof -
  have u: "length (m_osUnicodeHex p) \<le> 8" "length (m_osUnicodeHex p) \<ge> 4 \<longrightarrow> IsHighSurrogate (getUCSChar (m_osUnicodeHex p))"
    using p by (auto simp: parser_ok_def)
  have decoded: "\<exists>q. DecodeUnicode p = Some q \<and> char_ok p (string_plain q ch) \<and>
      char_ok p (string_plain (q\<lparr>m_bInStringEscape := True\<rparr>) ch)"
    if len: "length (m_osUnicodeHex p) = 8 \<or> length (m_osUnicodeHex p) = 4"
  proof (rule DecodeUnicode_ok [OF p(1,2)])
    show "length (m_osUnicodeHex p) = 8 \<and> IsHighSurrogate (getUCSChar (m_osUnicodeHex p)) \<or> length (m_osUnicodeHex p) = 4"
      using len u by auto
  next
    fix q assume q: "DecodeUnicode p = Some q" "parser_ok q" "same_stacks p q" "\<not> m_bInUnicode q"
    then have hd: "hd (m_aState q) = STRING" using p(2) by (simp add: same_stacks_def)
    have "char_ok q (string_plain q ch)" by (rule string_plain_ok [OF q(2) hd q(4)])
    moreover have "char_ok (q\<lparr>m_bInStringEscape := True\<rparr>) (string_plain (q\<lparr>m_bInStringEscape := True\<rparr>) ch)"
      by (rule string_plain_ok) (use q hd parser_ok_flags in auto)
    moreover have "same_stacks p (q\<lparr>m_bInStringEscape := True\<rparr>)" using q(3) by (simp add: same_stacks_def)
    ultimately show ?thesis using q char_ok_trans by blast
  qed
  have hex: "parser_ok (p\<lparr>m_osUnicodeHex := m_osUnicodeHex p @ [ch]\<rparr>)"
    if "length (m_osUnicodeHex p) < 8" "length (m_osUnicodeHex p) \<noteq> 3 \<or> IsHighSurrogate (getUCSChar (m_osUnicodeHex p @ [ch]))"
  proof (rule parser_ok_hex [OF p])
    show "length (m_osUnicodeHex p @ [ch]) \<le> 8" using that by simp
    have "getUCSChar (m_osUnicodeHex p @ [ch]) = getUCSChar (m_osUnicodeHex p)" if "4 \<le> length (m_osUnicodeHex p)"
    proof -
      have "0 < length (m_osUnicodeHex p)" "1 < length (m_osUnicodeHex p)" "2 < length (m_osUnicodeHex p)"
        "3 < length (m_osUnicodeHex p)" using that by linarith+
      then show ?thesis by (simp only: getUCSChar_def c_at_def nth_append length_append) simp
    qed
    then show "4 \<le> length (m_osUnicodeHex p @ [ch]) \<longrightarrow> IsHighSurrogate (getUCSChar (m_osUnicodeHex p @ [ch]))"
      using that(2) u by (cases "length (m_osUnicodeHex p) = 3") auto
  qed
  consider "length (m_osUnicodeHex p) = 8" | "length (m_osUnicodeHex p) = 4"
    | "length (m_osUnicodeHex p) \<noteq> 8" "length (m_osUnicodeHex p) \<noteq> 4" by blast
  then show ?thesis
  proof cases
    case 1
    then show ?thesis using decoded by (auto simp: string_unicode_def)
  next
    case 2
    then show ?thesis using decoded hex p(1)
      by (auto simp: string_unicode_def illegal_unicode_def same_stacks_def EmitException_ok)
  next
    case 3
    let ?q = "p\<lparr>m_osUnicodeHex := m_osUnicodeHex p @ [ch]\<rparr>"
    show ?thesis
    proof (cases "IsHexDigit ch \<and> length (m_osUnicodeHex p) = 3 \<and> \<not> IsHighSurrogate (getUCSChar (m_osUnicodeHex p @ [ch]))")
      case True
      obtain n where "DecodeUnicode ?q =
          Some (?q\<lparr>m_osToken := m_osToken p @ Unicode_bytes n, m_bInUnicode := False, m_osUnicodeHex := []\<rparr>)"
        using True by (auto simp: DecodeUnicode_def Let_def)
      moreover have "parser_ok (?q\<lparr>m_osToken := t, m_bInUnicode := False, m_osUnicodeHex := []\<rparr>)" for t
        using p by (auto simp: parser_ok_def parser_frames_def)
      ultimately show ?thesis using True 3 by (simp add: string_unicode_def Let_def same_stacks_def)
    next
      case False
      then show ?thesis using 3 p(1) u hex
        by (auto simp: string_unicode_def Let_def illegal_unicode_def same_stacks_def EmitException_ok)
    qed
  qed
qed

text \<open>A string is a key exactly when it stands directly in an object that waits for one.\<close>

lemma open_frames_members: "open_frames r as ms = Some fs \<Longrightarrow> ms = [] \<or> hd ms = IN_VALUE"
  by (induction r as ms arbitrary: fs rule: open_frames.induct) (auto split: if_splits)

lemma string_end_ok:
  assumes "parser_ok q" "m_aState q = STRING # r" "\<not> m_bInUnicode q" "\<not> m_bInStringEscape q"
  shows "parser_ok (string_end q) \<and> hd r \<in> {INIT, ARRAY, OBJECT}"
proof -
  have e: "m_bElementFound q" using assms(1,2) by (auto simp: parser_ok_def)
  obtain fs where fs: "stack_frames True (STRING # r) (m_abArrayState q) (m_aeObjectState q) = Some fs"
    "run_calls [Doc] (calls q) = Some fs"
    using parser_ok_frames [OF assms(1)] assms(2) e by metis
  have tok: "(emit c q)\<lparr>m_osToken := []\<rparr> = emit c (q\<lparr>m_osToken := []\<rparr>)" for c by (simp add: emit_def)
  show ?thesis
  proof (cases "r \<noteq> [] \<and> hd r = OBJECT \<and> m_aeObjectState q \<noteq> [] \<and> hd (m_aeObjectState q) = IN_KEY")
    case True
    then obtain r' ms gs where key: "r = OBJECT # r'" "m_aeObjectState q = IN_KEY # ms"
      "open_frames r' (m_abArrayState q) ms = Some gs" "fs = Members # gs"
      using fs(1) by (auto simp: stack_frames_def neq_Nil_conv)
    then show ?thesis using assms fs(2) e
      by (auto simp: string_end_def tok parser_ok_def parser_frames_def stack_frames_def run_calls_append)
  next
    case False
    then have op: "open_frames r (m_abArrayState q) (m_aeObjectState q) = Some fs" using fs(1) by (auto simp: stack_frames_def)
    note v = open_frames_value [OF op]
    have "\<not> (m_aeObjectState q \<noteq> [] \<and> hd (m_aeObjectState q) = IN_KEY)" using open_frames_members [OF op] by auto
    then have "string_end q = (pop_state (emit (String (m_osToken q)) q))\<lparr>m_osToken := []\<rparr>"
      by (simp add: string_end_def pop_state_def emit_def)
    moreover have "parser_frames q = Some fs" using fs(1) assms(2) e by (simp add: parser_frames_def)
    ultimately show ?thesis
      using value_complete [OF assms(1,2) e assms(3,4) op, of "String (m_osToken q)"] v assms(2) by simp
  qed
qed

lemma string_loop_ok:
  "parser_ok p \<Longrightarrow> m_aState p = STRING # r \<Longrightarrow>
   \<exists>x. string_loop p s = Some x \<and>
     (case x of
        Inl q \<Rightarrow> parser_failed q
      | Inr (q, t, e) \<Rightarrow> parser_ok q \<and>
          (if e then m_aState q = r \<and> hd r \<in> {INIT, ARRAY, OBJECT} else t = [] \<and> m_aState q = STRING # r))"
proof (induction p s rule: string_loop.induct)
  case (2 p ch s)
  have st: "hd (m_aState p) = STRING" using 2 by simp
  have "\<exists>x. string_char p ch = Some x \<and> char_ok p x"
    using 2 st string_unicode_ok [of p ch] string_plain_ok [of p ch]
    by (auto simp: string_char_def EmitException_ok)
  then obtain x where x: "string_char p ch = Some x" "char_ok p x" by blast
  show ?case
  proof (cases x)
    case (Fails q)
    then show ?thesis using x by simp
  next
    case (Consumed q)
    then have "m_aState q = STRING # r" "parser_ok q" using x 2(3) by (simp_all add: same_stacks_def)
    then show ?thesis using x Consumed 2(1) [OF x(1) Consumed] by simp
  next
    case (EndOfString q)
    then have q: "parser_ok q" "m_aState q = STRING # r" "\<not> m_bInUnicode q" "\<not> m_bInStringEscape q"
      using x 2(3) by (simp_all add: same_stacks_def)
    let ?q = "Advance (AdvanceChar q ch) (takeWhile c_isspace s)"
    have "parser_ok (string_end ?q) \<and> hd r \<in> {INIT, ARRAY, OBJECT}"
      by (rule string_end_ok) (use q in simp_all)
    then show ?thesis using x EndOfString q(2) by (simp add: SkipSpace_eq string_end_def)
  qed
qed simp

lemma Parse_STRING_ok:
  assumes "parser_ok p" "m_aState p = STRING # r"
  shows "\<exists>x. Parse_STRING p s b = Some x \<and> round_ok b x"
proof -
  obtain x where x: "string_loop p s = Some x"
    "case x of Inl q \<Rightarrow> parser_failed q
       | Inr (q, t, e) \<Rightarrow> parser_ok q \<and>
           (if e then m_aState q = r \<and> hd r \<in> {INIT, ARRAY, OBJECT} else t = [] \<and> m_aState q = STRING # r)"
    using string_loop_ok [OF assms, of s] by blast
  show ?thesis
  proof (cases x)
    case (Inr y)
    obtain q t e where "y = (q, t, e)" by (cases y)
    then show ?thesis using x Inr CheckStackEmpty_ok [of q b]
      by (cases e) (auto simp: Parse_STRING_def EmitException_ok)
  qed (use x in \<open>simp add: Parse_STRING_def\<close>)
qed

lemma Parse_step_ok:
  assumes "parser_ok p"
  shows "\<exists>x. Parse_step p s b = Some x \<and> round_ok b x"
proof -
  obtain st r where st: "m_aState p = st # r" using parser_ok_frames [OF assms] by (metis neq_Nil_conv)
  then have "currentState p = Some st" by (simp add: currentState_def vec_back_def)
  then show ?thesis
    using Parse_INIT_ok [OF assms] Parse_ARRAY_ok [OF assms] Parse_OBJECT_ok [OF assms] Parse_NUMBER_ok [OF assms]
      Parse_STRING_ok [OF assms] Parse_literal_ok [OF assms] st
    by (cases st) (auto simp: Parse_step_def)
qed

lemma Parse_loop_ok:
  "parser_ok p \<Longrightarrow> \<exists>x. Parse_loop p s b = Some x \<and> round_ok b (Inl x)"
proof (induction p s b rule: Parse_loop.induct)
  case (1 p s b)
  obtain x where "Parse_step p s b = Some x" "round_ok b x" using Parse_step_ok [OF 1(2)] by blast
  then show ?case using 1(1) by (subst Parse_loop.simps) (auto split: sum.splits)
qed

subsection \<open>Properties of whole documents\<close>

text \<open>A document given in pieces, each with its value of \<open>bFinished\<close>.\<close>

fun Parse_pieces :: "json_parser \<Rightarrow> (string \<times> bool) list \<Rightarrow> json_parser option" where
  "Parse_pieces p [] = Some p"
| "Parse_pieces p ((s, b) # ps) = do {
     (q, _) \<leftarrow> Parse p s b;
     Parse_pieces q ps
   }"

lemma parser_ok_new: "parser_ok (SetMaxStringSize m (SetMaxDepth d CPLJSonStreamingParser))"
  by (simp add: parser_ok_def parser_frames_def stack_frames_def SetMaxStringSize_def SetMaxDepth_def
      CPLJSonStreamingParser_def)

lemma Parse_ok:
  assumes "parser_ok p \<or> parser_failed p"
  shows "\<exists>q ok. Parse p s b = Some (q, ok) \<and>
    (if ok then parser_ok q \<and> (b \<longrightarrow> m_aState q = [INIT]) else parser_failed q)"
proof (cases "m_bExceptionOccurred p")
  case True
  then show ?thesis using assms by (auto simp: Parse_def parser_ok_def)
next
  case False
  then have "parser_ok p" using assms by (auto simp: parser_failed_def)
  then show ?thesis using False Parse_loop_ok [of p s b] by (auto simp: Parse_def round_ok_def)
qed

lemma Parse_pieces_ok:
  "parser_ok p \<or> parser_failed p \<Longrightarrow> \<exists>q. Parse_pieces p ps = Some q \<and> (parser_ok q \<or> parser_failed q)"
proof (induction ps arbitrary: p)
  case (Cons sb ps)
  obtain s b where sb: "sb = (s, b)" by (cases sb)
  obtain q ok where "Parse p s b = Some (q, ok)" "parser_ok q \<or> parser_failed q"
    using Parse_ok [OF Cons.prems, of s b] by (metis (full_types))
  then show ?case using Cons.IH sb by simp
qed simp

text \<open>C3: Whatever the pieces of the input and the limits are, Parse ends, never takes the last element of
  an empty vector, never reads behind its text and never fails an assertion; afterwards either the
  vectors of states fit together and agree with the calls made, or an exception has been reported.\<close>

theorem Parse_total:
  "\<exists>q. Parse_pieces (SetMaxStringSize m (SetMaxDepth d CPLJSonStreamingParser)) ps = Some q \<and>
     (parser_ok q \<or> parser_failed q)"
  by (rule Parse_pieces_ok) (simp add: parser_ok_new)

lemma call_step_Stopped:
  "call_step fs c = Some gs \<Longrightarrow> Stopped \<notin> set fs \<Longrightarrow> (\<nexists>m. c = Exception m) \<Longrightarrow> Stopped \<notin> set gs"
proof -
  have v: "Stopped \<notin> set hs \<Longrightarrow> Stopped \<notin> set (value_end hs)" for hs by (cases hs rule: value_end.cases) auto
  show "call_step fs c = Some gs \<Longrightarrow> Stopped \<notin> set fs \<Longrightarrow> (\<nexists>m. c = Exception m) \<Longrightarrow> Stopped \<notin> set gs"
    by (cases c) (auto simp: call_step_def v split: if_splits list.splits frame.splits)
qed

lemma run_calls_Stopped:
  "run_calls fs cs = Some gs \<Longrightarrow> Stopped \<notin> set fs \<Longrightarrow>
   Stopped \<notin> set gs \<and> (\<forall>m. Exception m \<notin> set cs) \<or>
   gs = [Stopped] \<and> (\<exists>ds m. cs = ds @ [Exception m] \<and> (\<forall>m. Exception m \<notin> set ds) \<and> run_calls fs ds \<noteq> None)"
proof (induction cs arbitrary: gs rule: rev_induct)
  case (snoc c cs)
  then obtain hs where hs: "run_calls fs cs = Some hs" "call_step hs c = Some gs"
    by (auto simp: run_calls_append split: option.splits)
  have "\<not> hs = [Stopped]" using hs(2) by (auto simp: call_step_def)
  then have ih: "Stopped \<notin> set hs" "\<forall>m. Exception m \<notin> set cs" using snoc.IH [OF hs(1) snoc.prems(2)] by auto
  show ?case
  proof (cases "\<exists>m. c = Exception m")
    case True
    then obtain m where "c = Exception m" by blast
    moreover have "gs = [Stopped]" using True hs(2) by (auto simp: call_step_def split: if_splits)
    ultimately show ?thesis using ih hs(1) by auto
  next
    case False
    then show ?thesis using call_step_Stopped [OF hs(2) ih(1)] ih(2) by auto
  qed
qed simp

text \<open>C4: The calls a client sees follow the stack machine of frames.  When the last piece is accepted they
  are those of one complete document or none at all; when it is refused, the last call is the only
  exception, and what came before is the beginning of a document.\<close>

theorem Parse_calls:
  "case Parse_pieces (SetMaxStringSize m (SetMaxDepth d CPLJSonStreamingParser)) ps of
     None \<Rightarrow> False
   | Some p \<Rightarrow>
       (case Parse p s True of
          None \<Rightarrow> False
        | Some (q, ok) \<Rightarrow>
            if ok then run_calls [Doc] (calls q) \<in> {Some [Doc], Some [Done]} \<and> \<not> m_bExceptionOccurred q
            else m_bExceptionOccurred q \<and>
              (\<exists>cs e. calls q = cs @ [Exception e] \<and> (\<forall>e. Exception e \<notin> set cs) \<and> run_calls [Doc] cs \<noteq> None))"
proof -
  obtain p where p: "Parse_pieces (SetMaxStringSize m (SetMaxDepth d CPLJSonStreamingParser)) ps = Some p"
    "parser_ok p \<or> parser_failed p"
    using Parse_pieces_ok parser_ok_new by blast
  obtain q ok where q: "Parse p s True = Some (q, ok)"
    "if ok then parser_ok q \<and> m_aState q = [INIT] else parser_failed q"
    using Parse_ok [OF p(2), of s True] by auto
  show ?thesis
  proof (cases ok)
    case True
    then have "run_calls [Doc] (calls q) = stack_frames (m_bElementFound q) [INIT] (m_abArrayState q) (m_aeObjectState q)"
      "run_calls [Doc] (calls q) \<noteq> None" "\<not> m_bExceptionOccurred q"
      using q(2) by (auto simp: parser_ok_def parser_frames_def)
    then show ?thesis using True p q by (auto simp: stack_frames_def split: if_splits)
  next
    case False
    then have "run_calls [Doc] (calls q) = Some [Stopped]" "m_bExceptionOccurred q"
      using q(2) by (simp_all add: parser_failed_def)
    then show ?thesis using False p(1) q(1) run_calls_Stopped [of "[Doc]" "calls q" "[Stopped]"] by auto
  qed
qed

end
