(* ===== verification/JsonText.thy ===== *)
theory JsonText
  imports JsonParser Utf8
begin

section \<open>JSON texts and what the parser makes of them\<close>

text \<open>
  The grammar of JSON as an inductive relation between a tree and its texts, with any white space
  where the grammar allows it and any escapes in strings, and the theorem that the parser makes
  the calls of the tree for every such text.  Numbers are sequences of the characters of numbers.
\<close>

subsection \<open>Trees and texts\<close>

datatype json = JNull | JBool bool | JNumber string | JString string
  | JArray "json list" | JObject "(string \<times> json) list"

definition json_space :: "string \<Rightarrow> bool" where
  "json_space w \<longleftrightarrow> (\<forall>c\<in>set w. c \<in> {CHR '' '', CHR 0x09, CHR 0x0a, CHR 0x0d})"

definition json_number :: "string \<Rightarrow> bool" where
  "json_number t \<longleftrightarrow> t \<noteq> [] \<and> (hd t = CHR ''-'' \<or> c_isdigit (hd t)) \<and> (\<forall>c\<in>set t. number_char c)"

definition simple_escapes :: "(char \<times> char) list" where
  "simple_escapes = [(CHR 0x22, CHR 0x22), (CHR 0x5c, CHR 0x5c), (CHR ''/'', CHR ''/''), (CHR ''b'', CHR 0x08),
     (CHR ''f'', CHR 0x0c), (CHR ''n'', CHR 0x0a), (CHR ''r'', CHR 0x0d), (CHR ''t'', CHR 0x09)]"

text \<open>The number that hexadecimal digits stand for.\<close>

definition hex_digit_value :: "char \<Rightarrow> nat" where
  "hex_digit_value c = (if c_isdigit c then ccode c - 48 else ccode (c_tolower c) - 87)"

definition hex_value4 :: "string \<Rightarrow> nat" where
  "hex_value4 h = foldl (\<lambda>n c. 16 * n + hex_digit_value c) 0 h"

definition hex4 :: "string \<Rightarrow> bool" where
  "hex4 h \<longleftrightarrow> length h = 4 \<and> list_all IsHexDigit h"

definition surrogate :: "nat \<Rightarrow> bool" where
  "surrogate n \<longleftrightarrow> 0xD800 \<le> n \<and> n < 0xE000"

text \<open>The characters between the quotes, and the bytes (UTF-8) of the string.  A pair of surrogates
  is left out when the lower half of the character code itself looks like a surrogate.\<close>

inductive json_chars :: "string \<Rightarrow> string \<Rightarrow> bool" where
  chars_Nil: "json_chars [] []"
| chars_plain: "c \<noteq> CHR 0x22 \<Longrightarrow> c \<noteq> CHR 0x5c \<Longrightarrow> json_chars s t \<Longrightarrow> json_chars (c # s) (c # t)"
| chars_escape: "(e, c) \<in> set simple_escapes \<Longrightarrow> json_chars s t \<Longrightarrow> json_chars (c # s) (CHR 0x5c # e # t)"
| chars_unicode: "hex4 h \<Longrightarrow> \<not> surrogate (hex_value4 h) \<Longrightarrow> json_chars s t \<Longrightarrow>
    json_chars (utf8_seq (hex_value4 h) @ s) (CHR 0x5c # CHR ''u'' # h @ t)"
| chars_pair: "hex4 h \<Longrightarrow> hex4 l \<Longrightarrow> 0xD800 \<le> hex_value4 h \<Longrightarrow> hex_value4 h < 0xDC00 \<Longrightarrow>
    0xDC00 \<le> hex_value4 l \<Longrightarrow> hex_value4 l < 0xE000 \<Longrightarrow>
    n = 0x10000 + (hex_value4 h - 0xD800) * 0x400 + (hex_value4 l - 0xDC00) \<Longrightarrow> \<not> surrogate (n mod 0x10000) \<Longrightarrow>
    json_chars s t \<Longrightarrow>
    json_chars (utf8_seq n @ s) (CHR 0x5c # CHR ''u'' # h @ CHR 0x5c # CHR ''u'' # l @ t)"

inductive json_text :: "json \<Rightarrow> string \<Rightarrow> bool"
  and json_elements :: "json list \<Rightarrow> string \<Rightarrow> bool"
  and json_members :: "(string \<times> json) list \<Rightarrow> string \<Rightarrow> bool" where
  text_null: "json_text JNull ''null''"
| text_true: "json_text (JBool True) ''true''"
| text_false: "json_text (JBool False) ''false''"
| text_number: "json_number t \<Longrightarrow> json_text (JNumber t) t"
| text_string: "json_chars s t \<Longrightarrow> json_text (JString s) (CHR 0x22 # t @ [CHR 0x22])"
| text_empty_array: "json_space w \<Longrightarrow> json_text (JArray []) (CHR ''['' # w @ '']'')"
| text_array: "json_elements js t \<Longrightarrow> json_text (JArray js) (CHR ''['' # t @ '']'')"
| text_empty_object: "json_space w \<Longrightarrow> json_text (JObject []) (CHR ''{'' # w @ ''}'')"
| text_object: "json_members ms t \<Longrightarrow> json_text (JObject ms) (CHR ''{'' # t @ ''}'')"
| elements_one: "json_space v \<Longrightarrow> json_text j t \<Longrightarrow> json_space w \<Longrightarrow> json_elements [j] (v @ t @ w)"
| elements_more: "json_space v \<Longrightarrow> json_text j t \<Longrightarrow> json_space w \<Longrightarrow> json_elements js r \<Longrightarrow>
    json_elements (j # js) (v @ t @ w @ CHR '','' # r)"
| members_one: "json_space u \<Longrightarrow> json_chars k kt \<Longrightarrow> json_space v \<Longrightarrow> json_space x \<Longrightarrow> json_text j t \<Longrightarrow>
    json_space w \<Longrightarrow> json_members [(k, j)] (u @ CHR 0x22 # kt @ CHR 0x22 # v @ CHR '':'' # x @ t @ w)"
| members_more: "json_space u \<Longrightarrow> json_chars k kt \<Longrightarrow> json_space v \<Longrightarrow> json_space x \<Longrightarrow> json_text j t \<Longrightarrow>
    json_space w \<Longrightarrow> json_members ms r \<Longrightarrow>
    json_members ((k, j) # ms) (u @ CHR 0x22 # kt @ CHR 0x22 # v @ CHR '':'' # x @ t @ w @ CHR '','' # r)"

text \<open>The calls for a tree, and the limits of the parser.\<close>

fun json_calls :: "json \<Rightarrow> call list" where
  "json_calls JNull = [Null]"
| "json_calls (JBool b) = [Boolean b]"
| "json_calls (JNumber t) = [Number t]"
| "json_calls (JString s) = [String s]"
| "json_calls (JArray js) = StartArray # concat (map (\<lambda>j. StartArrayMember # json_calls j) js) @ [EndArray]"
| "json_calls (JObject ms) =
     StartObject # concat (map (\<lambda>(k, j). StartObjectMember k # json_calls j) ms) @ [EndObject]"

text \<open>\<open>d\<close> more containers may be opened, strings have less than \<open>m\<close> bytes.\<close>

fun json_fits :: "nat \<Rightarrow> nat \<Rightarrow> json \<Rightarrow> bool" where
  "json_fits d m JNull = True"
| "json_fits d m (JBool b) = True"
| "json_fits d m (JNumber t) = (length t \<le> 1024)"
| "json_fits d m (JString s) = (length s < m)"
| "json_fits d m (JArray js) = (d \<noteq> 0 \<and> list_all (json_fits (d - 1) m) js)"
| "json_fits d m (JObject ms) = (d \<noteq> 0 \<and> list_all (\<lambda>(k, j). length k < m \<and> json_fits (d - 1) m j) ms)"

subsection \<open>Unicode escapes\<close>

lemma and_0xfc00: "(n::nat) AND 0xFC00 = 1024 * (n div 1024 mod 64)"
proof -
  have "n AND push_bit 10 63 = push_bit 10 (drop_bit 10 n AND 63)" by (rule and_push_bit)
  then show ?thesis by (simp add: and_mask_nat push_bit_eq_mult drop_bit_eq_div)
qed

lemma IsHighSurrogate_iff: "IsHighSurrogate n \<longleftrightarrow> n div 1024 mod 64 = 54"
  by (simp add: IsHighSurrogate_def and_0xfc00)

lemma IsLowSurrogate_iff: "IsLowSurrogate n \<longleftrightarrow> n div 1024 mod 64 = 55"
  by (simp add: IsLowSurrogate_def and_0xfc00)

lemma surrogate_iff: "surrogate (n mod 0x10000) \<longleftrightarrow> IsHighSurrogate n \<or> IsLowSurrogate n"
proof -
  define r where "r = n mod 0x10000"
  have "n mod (1024 * 64) = 1024 * (n div 1024 mod 64) + n mod 1024" by (rule mod_mult2_eq)
  then have "r = 1024 * (n div 1024 mod 64) + n mod 1024" "n mod 1024 < 1024" by (simp_all add: r_def)
  then show ?thesis
    unfolding IsHighSurrogate_iff IsLowSurrogate_iff surrogate_def r_def [symmetric] by linarith
qed

lemma Unicode_bytes_eq:
  assumes "\<not> surrogate (n mod 0x10000)" "n < 0x110000"
  shows "Unicode_bytes n = utf8_seq n"
proof -
  have "drop_bit 18 n < 8" using assms(2) by (simp add: drop_bit_eq_div less_mult_imp_div_less)
  then have "drop_bit 18 n AND 7 = drop_bit 18 n" by (simp add: and_mask_nat)
  then show ?thesis using assms by (simp add: Unicode_bytes_def utf8_seq_def surrogate_iff)
qed

lemma HexToDecimal_eq: "IsHexDigit c \<Longrightarrow> HexToDecimal c = hex_digit_value c \<and> hex_digit_value c < 16"
  by (auto simp: IsHexDigit_def HexToDecimal_def hex_digit_value_def c_isdigit_def c_tolower_def)

lemma getUCSChar_eq:
  assumes "hex4 h"
  shows "getUCSChar (h @ r) = hex_value4 h" "hex_value4 h < 0x10000"
proof -
  obtain a b c d where h: "h = [a, b, c, d]" "IsHexDigit a" "IsHexDigit b" "IsHexDigit c" "IsHexDigit d"
    using assms by (auto simp: hex4_def length_Suc_conv eval_nat_numeral)
  note v = HexToDecimal_eq [OF h(2)] HexToDecimal_eq [OF h(3)] HexToDecimal_eq [OF h(4)] HexToDecimal_eq [OF h(5)]
  have "push_bit 12 x OR push_bit 8 y OR push_bit 4 z OR w = 16 * (16 * (16 * x + y) + z) + w"
    if "y < 16" "z < 16" "w < 16" for x y z w :: nat
  proof -
    have e: "push_bit 4 z OR w = 16 * z + w" using or_push_bit [of w 4 z] that by (simp add: push_bit_eq_mult)
    have "push_bit 8 y OR (16 * z + w) = 256 * y + (16 * z + w)"
      using or_push_bit [of "16 * z + w" 8 y] that by (simp add: push_bit_eq_mult)
    moreover have "push_bit 12 x OR (256 * y + (16 * z + w)) = 4096 * x + (256 * y + (16 * z + w))"
      using or_push_bit [of "256 * y + (16 * z + w)" 12 x] that by (simp add: push_bit_eq_mult)
    ultimately show ?thesis using e by simp
  qed
  then show "getUCSChar (h @ r) = hex_value4 h"
    using v by (simp add: getUCSChar_def c_at_def h(1) hex_value4_def)
  show "hex_value4 h < 0x10000" using v by (simp add: hex_value4_def h(1))
qed

lemma surrogate_range:
  assumes "n < 0x10000"
  shows "IsHighSurrogate n \<longleftrightarrow> 0xD800 \<le> n \<and> n < 0xDC00" "IsLowSurrogate n \<longleftrightarrow> 0xDC00 \<le> n \<and> n < 0xE000"
proof -
  have "n div 1024 < 64" using assms by (simp add: less_mult_imp_div_less)
  then have "n div 1024 mod 64 = n div 1024" by simp
  moreover have "n = 1024 * (n div 1024) + n mod 1024" "n mod 1024 < 1024" by simp_all
  ultimately show "IsHighSurrogate n \<longleftrightarrow> 0xD800 \<le> n \<and> n < 0xDC00" "IsLowSurrogate n \<longleftrightarrow> 0xDC00 \<le> n \<and> n < 0xE000"
    unfolding IsHighSurrogate_iff IsLowSurrogate_iff by linarith+
qed

lemma GetSurrogatePair_eq:
  assumes "0xD800 \<le> h" "h < 0xDC00" "0xDC00 \<le> l" "l < 0xE000"
  shows "GetSurrogatePair h l = 0x10000 + (h - 0xD800) * 0x400 + (l - 0xDC00)"
proof -
  have "h AND 0x3FF = h mod 1024" "l AND 0x3FF = l mod 1024" 
    using take_bit_eq_mask [of 10 h] take_bit_eq_mask [of 10 l] by (simp_all add: take_bit_eq_mod mask_eq_exp_minus_1)
  moreover have "h mod 1024 = h - 0xD800"
  proof -
    have "h = (h - 0xD800) + 54 * 1024" "h - 0xD800 < 1024" using assms by linarith+
    then show ?thesis by (metis mod_less mod_mult_self1)
  qed
  moreover have "l mod 1024 = l - 0xDC00"
  proof -
    have "l = (l - 0xDC00) + 55 * 1024" "l - 0xDC00 < 1024" using assms by linarith+
    then show ?thesis by (metis mod_less mod_mult_self1)
  qed
  ultimately show ?thesis by (simp add: GetSurrogatePair_def push_bit_eq_mult)
qed

subsection \<open>Reading a text moves the counters\<close>

lemma AdvanceChar_updates [simp]:
  "AdvanceChar (p\<lparr>m_osToken := a\<rparr>) c = (AdvanceChar p c)\<lparr>m_osToken := a\<rparr>"
  "AdvanceChar (p\<lparr>m_bInStringEscape := e\<rparr>) c = (AdvanceChar p c)\<lparr>m_bInStringEscape := e\<rparr>"
  "AdvanceChar (p\<lparr>m_bInUnicode := e\<rparr>) c = (AdvanceChar p c)\<lparr>m_bInUnicode := e\<rparr>"
  "AdvanceChar (p\<lparr>m_osUnicodeHex := a\<rparr>) c = (AdvanceChar p c)\<lparr>m_osUnicodeHex := a\<rparr>"
  "AdvanceChar (p\<lparr>m_aState := st\<rparr>) c = (AdvanceChar p c)\<lparr>m_aState := st\<rparr>"
  "AdvanceChar (p\<lparr>m_abArrayState := as\<rparr>) c = (AdvanceChar p c)\<lparr>m_abArrayState := as\<rparr>"
  "AdvanceChar (p\<lparr>m_aeObjectState := ms\<rparr>) c = (AdvanceChar p c)\<lparr>m_aeObjectState := ms\<rparr>"
  "AdvanceChar (p\<lparr>m_bElementFound := e\<rparr>) c = (AdvanceChar p c)\<lparr>m_bElementFound := e\<rparr>"
  "AdvanceChar (p\<lparr>calls := cs\<rparr>) c = (AdvanceChar p c)\<lparr>calls := cs\<rparr>"
  by (simp_all add: AdvanceChar_def Let_def)

lemma Advance_updates [simp]:
  "Advance (p\<lparr>m_osToken := a\<rparr>) s = (Advance p s)\<lparr>m_osToken := a\<rparr>"
  "Advance (p\<lparr>m_bInStringEscape := e\<rparr>) s = (Advance p s)\<lparr>m_bInStringEscape := e\<rparr>"
  "Advance (p\<lparr>m_bInUnicode := e\<rparr>) s = (Advance p s)\<lparr>m_bInUnicode := e\<rparr>"
  "Advance (p\<lparr>m_osUnicodeHex := a\<rparr>) s = (Advance p s)\<lparr>m_osUnicodeHex := a\<rparr>"
  "Advance (p\<lparr>m_aState := st\<rparr>) s = (Advance p s)\<lparr>m_aState := st\<rparr>"
  "Advance (p\<lparr>m_abArrayState := as\<rparr>) s = (Advance p s)\<lparr>m_abArrayState := as\<rparr>"
  "Advance (p\<lparr>m_aeObjectState := ms\<rparr>) s = (Advance p s)\<lparr>m_aeObjectState := ms\<rparr>"
  "Advance (p\<lparr>m_bElementFound := e\<rparr>) s = (Advance p s)\<lparr>m_bElementFound := e\<rparr>"
  "Advance (p\<lparr>calls := cs\<rparr>) s = (Advance p s)\<lparr>calls := cs\<rparr>"
  by (induction s arbitrary: p) simp_all

lemma Advance_append [simp]: "Advance p (s @ t) = Advance (Advance p s) t"
  by (induction s arbitrary: p) simp_all

lemma Advance_calls [simp]:
  "AdvanceChar (emit x p) c = emit x (AdvanceChar p c)" "AdvanceChar (push_state st p) c = push_state st (AdvanceChar p c)"
  "AdvanceChar (pop_state p) c = pop_state (AdvanceChar p c)"
  "Advance (emit x p) s = emit x (Advance p s)" "Advance (push_state st p) s = push_state st (Advance p s)"
  "Advance (pop_state p) s = pop_state (Advance p s)"
  by (simp_all add: emit_def push_state_def pop_state_def)

lemma Advance_last: "s \<noteq> [] \<Longrightarrow> m_nLastChar (Advance p s) = last s"
  by (induction s arbitrary: p) auto

subsection \<open>Strings\<close>

definition clean :: "json_parser \<Rightarrow> bool" where
  "clean p \<longleftrightarrow> \<not> m_bInUnicode p \<and> \<not> m_bInStringEscape p \<and> m_osUnicodeHex p = []"

lemma clean_simps [simp]:
  "clean (AdvanceChar p c) = clean p" "clean (Advance p s) = clean p" "clean (p\<lparr>m_osToken := t\<rparr>) = clean p"
  "clean (p\<lparr>m_aState := st\<rparr>) = clean p" "clean (p\<lparr>m_abArrayState := as\<rparr>) = clean p"
  "clean (p\<lparr>m_aeObjectState := ms\<rparr>) = clean p" "clean (p\<lparr>calls := cs\<rparr>) = clean p" "clean (p\<lparr>m_bElementFound := e\<rparr>) = clean p"
  "clean (emit x p) = clean p" "clean (push_state st' p) = clean p" "clean (pop_state p) = clean p"
  by (simp_all add: clean_def)

lemma clean_update [simp]: "clean p \<Longrightarrow> p\<lparr>m_bInStringEscape := False\<rparr> = p" "clean p \<Longrightarrow> p\<lparr>m_bInUnicode := False\<rparr> = p"
  "clean p \<Longrightarrow> p\<lparr>m_osUnicodeHex := []\<rparr> = p"
  by (simp_all add: clean_def)

text \<open>The four digits after \<open>\\u\<close>.\<close>

lemma string_loop_hex:
  assumes h: "length h = 4" "list_all IsHexDigit h"
    and p: "\<not> m_bInStringEscape p" "m_bInUnicode p" "m_osUnicodeHex p = []" "length (m_osToken p) \<noteq> m_nMaxStringSize p"
  shows "\<not> IsHighSurrogate (getUCSChar h) \<Longrightarrow> string_loop p (h @ u) =
      string_loop ((Advance p h)\<lparr>m_osToken := m_osToken p @ Unicode_bytes (getUCSChar h), m_bInUnicode := False, m_osUnicodeHex := []\<rparr>) u"
    and "IsHighSurrogate (getUCSChar h) \<Longrightarrow> string_loop p (h @ u) = string_loop ((Advance p h)\<lparr>m_osUnicodeHex := h\<rparr>) u"
proof -
  obtain a b c d where h4: "h = [a, b, c, d]" "IsHexDigit a" "IsHexDigit b" "IsHexDigit c" "IsHexDigit d"
    using h by (auto simp: length_Suc_conv eval_nat_numeral)
  have "string_loop p (h @ u) = string_loop ((Advance p [a, b, c])\<lparr>m_osUnicodeHex := [a, b, c]\<rparr>) (d # u)"
    using p h4 by (simp add: string_char_def string_unicode_def Let_def)
  moreover have "string_loop ((Advance p [a, b, c])\<lparr>m_osUnicodeHex := [a, b, c]\<rparr>) (d # u) =
      string_loop ((Advance p h)\<lparr>m_osToken := m_osToken p @ Unicode_bytes (getUCSChar h), m_bInUnicode := False, m_osUnicodeHex := []\<rparr>) u"
    if "\<not> IsHighSurrogate (getUCSChar h)"
    using p h4 that by (simp add: string_char_def string_unicode_def Let_def DecodeUnicode_def)
  moreover have "string_loop ((Advance p [a, b, c])\<lparr>m_osUnicodeHex := [a, b, c]\<rparr>) (d # u) =
      string_loop ((Advance p h)\<lparr>m_osUnicodeHex := h\<rparr>) u" if "IsHighSurrogate (getUCSChar h)"
    using p h4 that by (simp add: string_char_def string_unicode_def Let_def)
  ultimately show "\<not> IsHighSurrogate (getUCSChar h) \<Longrightarrow> string_loop p (h @ u) =
      string_loop ((Advance p h)\<lparr>m_osToken := m_osToken p @ Unicode_bytes (getUCSChar h), m_bInUnicode := False, m_osUnicodeHex := []\<rparr>) u"
    "IsHighSurrogate (getUCSChar h) \<Longrightarrow> string_loop p (h @ u) = string_loop ((Advance p h)\<lparr>m_osUnicodeHex := h\<rparr>) u"
    by simp_all
qed

lemma string_loop_unicode:
  assumes p: "clean p" "length (m_osToken p) \<noteq> m_nMaxStringSize p" and h: "hex4 h" "\<not> surrogate (hex_value4 h)"
  shows "string_loop p (CHR 0x5c # CHR ''u'' # h @ u) =
    string_loop ((Advance p (CHR 0x5c # CHR ''u'' # h))\<lparr>m_osToken := m_osToken p @ utf8_seq (hex_value4 h)\<rparr>) u"
proof -
  note g = getUCSChar_eq(1) [OF h(1), of "[]", simplified] getUCSChar_eq(2) [OF h(1)]
  have ns: "\<not> IsHighSurrogate (getUCSChar h)" using h(2) g surrogate_iff [of "hex_value4 h"] by simp
  have bytes: "Unicode_bytes (getUCSChar h) = utf8_seq (hex_value4 h)" using h(2) g Unicode_bytes_eq by simp
  let ?p = "(Advance p [CHR 0x5c, CHR ''u''])\<lparr>m_bInUnicode := True, m_bInStringEscape := False\<rparr>"
  have "string_loop p (CHR 0x5c # CHR ''u'' # h @ u) = string_loop ?p (h @ u)"
    using p by (simp add: string_char_def string_plain_def string_escape_def Let_def clean_def)
  also have "\<dots> = string_loop ((Advance ?p h)\<lparr>m_osToken := m_osToken ?p @ Unicode_bytes (getUCSChar h),
      m_bInUnicode := False, m_osUnicodeHex := []\<rparr>) u"
    using string_loop_hex(1) [OF _ _ _ _ _ _ ns, of ?p u] h(1) p by (simp add: hex4_def clean_def)
  also have "(Advance ?p h)\<lparr>m_osToken := m_osToken ?p @ Unicode_bytes (getUCSChar h), m_bInUnicode := False, m_osUnicodeHex := []\<rparr> =
      (Advance p (CHR 0x5c # CHR ''u'' # h))\<lparr>m_osToken := m_osToken p @ utf8_seq (hex_value4 h)\<rparr>"
    using p(1) by (intro json_parser.equality) (simp_all add: bytes clean_def)
  finally show ?thesis .
qed

lemma string_loop_pair:
  assumes p: "clean p" "length (m_osToken p) \<noteq> m_nMaxStringSize p" and h: "hex4 h" "hex4 l"
    "0xD800 \<le> hex_value4 h" "hex_value4 h < 0xDC00" "0xDC00 \<le> hex_value4 l" "hex_value4 l < 0xE000"
    and n: "n = 0x10000 + (hex_value4 h - 0xD800) * 0x400 + (hex_value4 l - 0xDC00)" "\<not> surrogate (n mod 0x10000)"
    and u: "u \<noteq> []" and size: "length (m_osToken p @ utf8_seq n) \<noteq> m_nMaxStringSize p"
  shows "string_loop p (CHR 0x5c # CHR ''u'' # h @ CHR 0x5c # CHR ''u'' # l @ u) =
    string_loop ((Advance p (CHR 0x5c # CHR ''u'' # h @ CHR 0x5c # CHR ''u'' # l))
      \<lparr>m_osToken := m_osToken p @ utf8_seq n\<rparr>) u"
proof -
  note gh = getUCSChar_eq(1) [OF h(1), of "[]", simplified] getUCSChar_eq(2) [OF h(1)]
    and gl = getUCSChar_eq(1) [OF h(2), of "[]", simplified] getUCSChar_eq(2) [OF h(2)]
  have hs: "IsHighSurrogate (getUCSChar h)" "IsLowSurrogate (getUCSChar l)"
    using gh gl h(3-6) surrogate_range by simp_all
  have bytes: "Unicode_bytes (GetSurrogatePair (getUCSChar h) (getUCSChar l)) = utf8_seq n"
    using Unicode_bytes_eq [OF n(2)] gh gl GetSurrogatePair_eq [OF h(3-6)] n(1) h(3-6) by simp
  obtain a b c d where l4: "l = [a, b, c, d]" "IsHexDigit a" "IsHexDigit b" "IsHexDigit c" "IsHexDigit d"
    using h(2) by (auto simp: hex4_def length_Suc_conv eval_nat_numeral)
  have len: "length h = 4" "list_all IsHexDigit h" "h \<noteq> []" using h(1) by (auto simp: hex4_def)
  have "IsHexDigit (last h)" using len(2,3) by (simp add: list_all_iff)
  then have last: "last h \<noteq> CHR 0x5c" "last h \<noteq> CHR ''u''" by (auto simp: IsHexDigit_def ccode_def)
  let ?p0 = "(Advance p [CHR 0x5c, CHR ''u''])\<lparr>m_bInUnicode := True, m_bInStringEscape := False\<rparr>"
  let ?p1 = "(Advance ?p0 h)\<lparr>m_osUnicodeHex := h\<rparr>"
  let ?p2 = "(Advance ?p1 (CHR 0x5c # CHR ''u'' # l))\<lparr>m_osUnicodeHex := h @ l\<rparr>"
  let ?q = "(Advance p (CHR 0x5c # CHR ''u'' # h @ CHR 0x5c # CHR ''u'' # l))\<lparr>m_osToken := m_osToken p @ utf8_seq n\<rparr>"
  have "string_loop p (CHR 0x5c # CHR ''u'' # h @ v) = string_loop ?p0 (h @ v)" for v
    using p by (simp add: string_char_def string_plain_def string_escape_def Let_def clean_def)
  also have "string_loop ?p0 (h @ v) = string_loop ?p1 v" for v
    using string_loop_hex(2) [OF _ _ _ _ _ _ hs(1), of ?p0 v] len p by (simp add: clean_def)
  also have "string_loop ?p1 (CHR 0x5c # CHR ''u'' # l @ u) = string_loop ?p2 u"
    using p(2) len last Advance_last [OF len(3)] l4
    by (simp add: string_char_def string_unicode_def Let_def)
  also have "string_loop ?p2 u = string_loop ?q u"
  proof -
    obtain c0 u' where u': "u = c0 # u'" using u by (cases u) auto
    have "getUCSChar (h @ l) = getUCSChar h" using getUCSChar_eq [OF h(1)] gh by simp
    then have "DecodeUnicode ?p2 = Some ((Advance ?p1 (CHR 0x5c # CHR ''u'' # l))\<lparr>m_osToken := m_osToken p @ utf8_seq n,
        m_bInUnicode := False, m_osUnicodeHex := []\<rparr>)"
      using hs len(1) l4(1) bytes by (simp add: DecodeUnicode_def Let_def)
    moreover have "(Advance ?p1 (CHR 0x5c # CHR ''u'' # l))\<lparr>m_osToken := m_osToken p @ utf8_seq n,
        m_bInUnicode := False, m_osUnicodeHex := []\<rparr> = ?q"
      using p(1) by (intro json_parser.equality) (simp_all add: clean_def)
    ultimately have d: "DecodeUnicode ?p2 = Some ?q" by (simp only:)
    have "string_char ?p2 c0 = string_unicode ?p2 c0" using p(2) by (simp add: string_char_def)
    also have "\<dots> = Some (string_plain ?q c0)"
    proof -
      have "length (m_osUnicodeHex ?p2) = 8" using len(1) l4(1) by simp
      then show ?thesis using d by (simp only: string_unicode_def if_True refl bind.bind_lunit simp_thms)
    qed
    also have "\<dots> = string_char ?q c0" using size p(1) by (simp add: string_char_def clean_def)
    finally show ?thesis by (simp only: u' string_loop.simps)
  qed
  finally show ?thesis by simp
qed

lemma string_loop_chars:
  "json_chars s t \<Longrightarrow> clean p \<Longrightarrow> u \<noteq> [] \<Longrightarrow> length (m_osToken p) + length s < m_nMaxStringSize p \<Longrightarrow>
   string_loop p (t @ u) = string_loop ((Advance p t)\<lparr>m_osToken := m_osToken p @ s\<rparr>) u"
proof (induction s t arbitrary: p rule: json_chars.induct)
  case chars_Nil
  then show ?case by simp
next
  case (chars_plain c s t)
  then show ?case
    using chars_plain.IH [of "(AdvanceChar p c)\<lparr>m_osToken := m_osToken p @ [c]\<rparr>"]
    by (simp add: string_char_def string_plain_def clean_def)
next
  case (chars_escape e c s t)
  let ?p = "(Advance p [CHR 0x5c, e])\<lparr>m_osToken := m_osToken p @ [c]\<rparr>"
  have e: "m_bInStringEscape p = False" using chars_escape.prems(1) by (simp add: clean_def)
  have "string_loop p (CHR 0x5c # e # t @ u) = string_loop ?p (t @ u)"
    using chars_escape.prems chars_escape.hyps(1)
    by (auto simp: string_char_def string_plain_def string_escape_def simple_escapes_def Let_def clean_def)
  then show ?case using chars_escape.IH [of ?p] chars_escape.prems by simp
next
  case (chars_unicode h s t)
  let ?p = "(Advance p (CHR 0x5c # CHR ''u'' # h))\<lparr>m_osToken := m_osToken p @ utf8_seq (hex_value4 h)\<rparr>"
  have "string_loop p ((CHR 0x5c # CHR ''u'' # h @ t) @ u) = string_loop ?p (t @ u)"
    using string_loop_unicode [of p h "t @ u"] chars_unicode by simp
  then show ?case using chars_unicode.IH [of ?p] chars_unicode.prems by simp
next
  case (chars_pair h l n s t)
  let ?p = "(Advance p (CHR 0x5c # CHR ''u'' # h @ CHR 0x5c # CHR ''u'' # l))\<lparr>m_osToken := m_osToken p @ utf8_seq n\<rparr>"
  have "string_loop p ((CHR 0x5c # CHR ''u'' # h @ CHR 0x5c # CHR ''u'' # l @ t) @ u) = string_loop ?p (t @ u)"
    using string_loop_pair [of p h l n "t @ u"] chars_pair by simp
  then show ?case using chars_pair.IH [of ?p] chars_pair.prems by simp
qed

text \<open>White space.\<close>

lemma json_space_isspace:
  assumes "json_space w"
  shows "\<forall>c\<in>set w. c_isspace c"
proof
  fix c assume "c \<in> set w"
  then have "c \<in> {CHR '' '', CHR 0x09, CHR 0x0a, CHR 0x0d}" by (rule bspec [OF assms [unfolded json_space_def]])
  then have "c = CHR '' '' \<or> c = CHR 0x09 \<or> c = CHR 0x0a \<or> c = CHR 0x0d" by (simp only: insert_iff empty_iff simp_thms)
  then show "c_isspace c" by (elim disjE) (simp_all add: c_isspace_def ccode_def)
qed

lemma SkipSpace_append: "\<forall>c\<in>set w. c_isspace c \<Longrightarrow> SkipSpace p (w @ s) = SkipSpace (Advance p w) s"
  by (induction w arbitrary: p) auto

definition container_top :: "json_parser \<Rightarrow> bool" where
  "container_top p \<longleftrightarrow> m_aState p \<noteq> [] \<and> hd (m_aState p) \<in> {INIT, ARRAY, OBJECT}"

lemma Parse_loop_space:
  assumes "container_top p" "\<forall>c\<in>set w. c_isspace c"
  shows "Parse_loop p (w @ s) b = Parse_loop (Advance p w) s b"
proof -
  have "Parse_step p (w @ s) b = Parse_step (Advance p w) s b"
    using assms SkipSpace_append [OF assms(2), of p s]
    by (auto simp: Parse_step_def currentState_def vec_back_def container_top_def neq_Nil_conv
        Parse_INIT_def Parse_ARRAY_def Parse_OBJECT_def)
  then show ?thesis by (subst (1 2) Parse_loop.simps) simp
qed

text \<open>What may follow a value: in a container a character that ends a token and, later, one that is no
  space; after the document nothing but space.\<close>

definition more_text :: "json_parser \<Rightarrow> string \<Rightarrow> bool \<Rightarrow> bool" where
  "more_text p u b \<longleftrightarrow>
     (\<exists>c\<in>set u. \<not> c_isspace c) \<or> b \<and> m_aState p = [INIT] \<and> m_abArrayState p = [] \<and> m_aeObjectState p = []"

definition follows :: "json_parser \<Rightarrow> string \<Rightarrow> bool \<Rightarrow> bool" where
  "follows p u b \<longleftrightarrow> (u = [] \<or> ends_token (hd u)) \<and> more_text p u b"

lemma after_token:
  assumes "container_top q" "more_text q u b" "dropWhile c_isspace u = []"
  shows "Parse_loop q u b = Some (CheckStackEmpty (Advance q u))" "b"
proof -
  have sp: "\<forall>c\<in>set u. c_isspace c" using assms(3) by (simp add: dropWhile_eq_Nil_conv)
  then have root: "b" "m_aState q = [INIT]" "m_abArrayState q = []" "m_aeObjectState q = []"
    using assms(2) by (auto simp: more_text_def)
  show b by (rule root)
  have "Parse_loop q u b = Parse_loop (Advance q u) [] b" using Parse_loop_space [OF assms(1) sp, of "[]" b] by simp
  also have "\<dots> = Some (Advance q u, True)"
    using root by (subst Parse_loop.simps) (simp add: Parse_step_def currentState_def vec_back_def Parse_INIT_def)
  finally show "Parse_loop q u b = Some (CheckStackEmpty (Advance q u))" using root by (simp add: CheckStackEmpty_def)
qed

lemma after_token_more:
  assumes "container_top q" "dropWhile c_isspace u = s"
  shows "Parse_loop q u b = Parse_loop (Advance q (takeWhile c_isspace u)) s b"
  using Parse_loop_space [OF assms(1), of "takeWhile c_isspace u" s b] assms(2)
  by (metis set_takeWhileD takeWhile_dropWhile_id)

lemma finish_token:
  assumes "container_top r" "more_text r u b"
    and v: "v = takeWhile c_isspace u" and d: "d = dropWhile c_isspace u"
    and step: "Parse_step q s b =
      Some (if d = [] then (if b then Inl (CheckStackEmpty (Advance r v)) else x) else Inr (Advance r v, d))"
  shows "Parse_loop q s b = Parse_loop r u b"
proof (cases "d = []")
  case True
  then have "v = u" unfolding v d by (metis takeWhile_dropWhile_id append_Nil2)
  then show ?thesis using after_token [OF assms(1,2)] True step d by (subst Parse_loop.simps) simp
next
  case False
  then show ?thesis using after_token_more [OF assms(1) d [symmetric], of b] step v by (subst Parse_loop.simps) simp
qed

lemma more_text_state [simp]: "more_text (p\<lparr>calls := cs\<rparr>) u b = more_text p u b"
  "more_text (p\<lparr>m_osToken := t\<rparr>) u b = more_text p u b" "more_text (Advance p t) u b = more_text p u b"
  "more_text (AdvanceChar p c) u b = more_text p u b" "more_text (emit x p) u b = more_text p u b"
  "more_text (p\<lparr>m_bElementFound := e\<rparr>) u b = more_text p u b"
  by (simp_all add: more_text_def emit_def)

lemma container_top_state [simp]: "container_top (p\<lparr>calls := cs\<rparr>) = container_top p"
  "container_top (p\<lparr>m_osToken := t\<rparr>) = container_top p" "container_top (Advance p t) = container_top p"
  "container_top (p\<lparr>m_bElementFound := e\<rparr>) = container_top p" "container_top (AdvanceChar p c) = container_top p"
  "container_top (emit x p) = container_top p"
  by (simp_all add: container_top_def)

text \<open>A parser that is about to read a value, and what reading it means.\<close>

definition value_ready :: "json_parser \<Rightarrow> bool" where
  "value_ready p \<longleftrightarrow> container_top p \<and> clean p \<and> m_osToken p = [] \<and>
     (m_aeObjectState p = [] \<or> hd (m_aeObjectState p) \<noteq> IN_KEY)"

definition makes_calls :: "json_parser \<Rightarrow> call list \<Rightarrow> json_parser" where
  "makes_calls p cs = p\<lparr>calls := calls p @ cs\<rparr>"

definition reads_value :: "string \<Rightarrow> call list \<Rightarrow> json_parser \<Rightarrow> string \<Rightarrow> bool \<Rightarrow> bool" where
  "reads_value t cs p u b \<longleftrightarrow>
     (\<exists>q s. StartNewToken p (t @ u) = Some (Inr (q, s)) \<and>
       Parse_loop q s b = Parse_loop (makes_calls (Advance p t) cs) u b)"

lemma pop_push [simp]: "pop_state (push_state st p) = p"
  by (simp add: pop_state_def push_state_def)

lemma number_loop_number:
  "\<forall>c\<in>set t. number_char c \<Longrightarrow> length (m_osToken p) + length t \<le> 1024 \<Longrightarrow>
   number_loop p (t @ u) = number_loop ((Advance p t)\<lparr>m_osToken := m_osToken p @ t\<rparr>) u"
  by (induction t arbitrary: p) simp_all

lemma ends_token_not_number: "ends_token c \<Longrightarrow> \<not> number_char c"
  unfolding ends_token_def number_char_def c_isspace_def c_isdigit_def
  by (elim disjE) (auto simp: ccode_def)

lemma number_loop_end: "u = [] \<or> ends_token (hd u) \<Longrightarrow> number_loop p u = Inr (SkipSpace p u)"
  by (cases u) (auto simp: ends_token_not_number)

lemma c_str_id: "NUL \<notin> set s \<Longrightarrow> c_str s = s"
  by (simp add: c_str_def takeWhile_eq_all_conv) blast

lemma number_valid_number:
  assumes "json_number t"
  shows "number_valid t"
proof -
  have no: "\<not> number_char CHR ''i''" "\<not> number_char CHR ''I''" "\<not> c_isdigit CHR ''i''" "\<not> c_isdigit CHR ''I''"
    "\<not> c_isdigit CHR ''n''" "\<not> c_isdigit CHR ''N''"
    by (simp_all add: number_char_def c_isdigit_def ccode_def)
  have "c_at t 1 \<noteq> CHR ''i'' \<and> c_at t 1 \<noteq> CHR ''I''"
  proof (cases "1 < length t")
    case True
    then have "number_char (t ! 1)" using assms unfolding json_number_def by (metis nth_mem)
    then show ?thesis using True no by (auto simp: c_at_def)
  qed (simp add: c_at_def)
  moreover have "c_at t 0 = hd t" using assms by (simp add: json_number_def c_at_def hd_conv_nth)
  ultimately show ?thesis using assms no unfolding number_valid_def json_number_def Let_def by auto
qed

lemma reads_number:
  assumes "value_ready p" "follows p u b" "json_number t" "length t \<le> 1024"
  shows "reads_value t [Number t] p u b"
proof -
  let ?q = "push_state NUMBER p" and ?v = "takeWhile c_isspace u" and ?d = "dropWhile c_isspace u"
  have "starts_number (hd t)" "t \<noteq> []" using assms(3) by (auto simp: json_number_def starts_number_def)
  then have "StartNewToken p (t @ u) = Some (Inr (?q, t @ u))"
    using starts_number_not by (cases t) (auto simp: StartNewToken_def)
  moreover have "Parse_loop ?q (t @ u) b = Parse_loop (makes_calls (Advance p t) [Number t]) u b"
  proof -
    have tok: "m_osToken p = []" and fu: "u = [] \<or> ends_token (hd u)"
      using assms(1,2) by (simp_all add: value_ready_def follows_def)
    let ?r = "(push_state NUMBER (Advance p t))\<lparr>m_osToken := t\<rparr>"
    have "number_loop ?q (t @ u) = Inr (Advance ?r ?v, ?d)"
      using number_loop_number [of t ?q u] assms(3,4) tok fu
      by (simp add: json_number_def number_loop_end SkipSpace_eq)
    moreover have "pop_state ((emit (Number t) (Advance ?r ?v))\<lparr>m_osToken := []\<rparr>) =
        Advance (makes_calls (Advance p t) [Number t]) ?v"
      using tok by (intro json_parser.equality) (simp_all add: makes_calls_def pop_state_def emit_def push_state_def)
    moreover obtain v d where vd: "v = ?v" "d = ?d" by blast
    ultimately have step: "Parse_step ?q (t @ u) b =
        Some (if d = [] then (if b then Inl (CheckStackEmpty (Advance (makes_calls (Advance p t) [Number t]) v))
            else Inl (Advance ?r v, True)) else Inr (Advance (makes_calls (Advance p t) [Number t]) v, d))"
      using number_valid_number [OF assms(3)] unfolding vd [symmetric]
      by (simp add: Parse_step_def currentState_def vec_back_def Parse_NUMBER_def Let_def)
    show ?thesis
      by (rule finish_token [OF _ _ vd step]) (use assms(1,2) in \<open>simp_all add: makes_calls_def value_ready_def follows_def\<close>)
  qed
  ultimately show ?thesis unfolding reads_value_def by blast
qed

text \<open>true, false and null.\<close>

lemma ends_token_not_alpha: "ends_token c \<Longrightarrow> \<not> c_isalpha c"
  unfolding ends_token_def c_isalpha_def c_isspace_def
  by (elim disjE) (auto simp: ccode_def)

lemma literal_loop_end:
  "u = [] \<or> ends_token (hd u) \<Longrightarrow> length (m_osToken p) \<noteq> 1 \<Longrightarrow> literal_loop st p u = Inr (SkipSpace p u)"
  by (cases u) (auto simp: ends_token_not_alpha)

lemma literal_alpha: "c_isalpha CHR ''t''" "c_isalpha CHR ''r''" "c_isalpha CHR ''u''" "c_isalpha CHR ''e''"
  "c_isalpha CHR ''f''" "c_isalpha CHR ''a''" "c_isalpha CHR ''l''" "c_isalpha CHR ''s''" "c_isalpha CHR ''n''"
  by (simp_all add: c_isalpha_def ccode_def)

lemma literal_loop_word:
  assumes "(st, word) \<in> {(STATE_TRUE, ''true''), (STATE_FALSE, ''false''), (STATE_NULL, ''null'')}" "m_osToken p = []"
  shows "literal_loop st p (word @ u) = literal_loop st ((Advance p word)\<lparr>m_osToken := word\<rparr>) u"
  using assms by (auto simp: literal_alpha not_prefix_def Let_def)

lemma reads_literal:
  assumes "value_ready p" "follows p u b"
    and w: "(st, word, c) \<in> {(STATE_TRUE, ''true'', Boolean True), (STATE_FALSE, ''false'', Boolean False), (STATE_NULL, ''null'', Null)}"
  shows "reads_value word [c] p u b"
proof -
  let ?q = "push_state st p"
  have start: "StartNewToken p (word @ u) = Some (Inr (?q, word @ u))"
    using w starts_number_not by (auto simp: StartNewToken_def)
  have tok: "m_osToken p = []" and fu: "u = [] \<or> ends_token (hd u)"
    using assms(1,2) by (simp_all add: value_ready_def follows_def)
  let ?t = "(push_state st (Advance p word))\<lparr>m_osToken := word\<rparr>" and ?m = "makes_calls (Advance p word) [c]"
  obtain v d where vd: "v = takeWhile c_isspace u" "d = dropWhile c_isspace u" by blast
  have "literal_loop st ?q (word @ u) = literal_loop st ?t u"
    using literal_loop_word [of st word ?q u] w tok by auto
  also have "\<dots> = Inr (Advance ?t v, d)"
    using literal_loop_end [OF fu, of ?t st] w vd by (auto simp: SkipSpace_eq)
  finally have loop: "literal_loop st ?q (word @ u) = Inr (Advance ?t v, d)" .
  have "(pop_state (emit c (Advance ?t v)))\<lparr>m_osToken := []\<rparr> = Advance ?m v"
    using tok by (intro json_parser.equality) (simp_all add: makes_calls_def pop_state_def emit_def push_state_def)
  then have check: "CheckAndEmitTrueFalseOrNull (Advance ?t v) ch = Some (Inr (Advance ?m v))" for ch
    using w by (auto simp: CheckAndEmitTrueFalseOrNull_def currentState_def vec_back_def)
  have step: "Parse_step ?q (word @ u) b =
      Some (if d = [] then (if b then Inl (CheckStackEmpty (Advance ?m v)) else Inl (Advance ?t v, True))
        else Inr (Advance ?m v, d))"
    using w loop check
    by (cases d) (auto simp: Parse_step_def Parse_literal_def currentState_def vec_back_def)
  have "Parse_loop ?q (word @ u) b = Parse_loop ?m u b"
    by (rule finish_token [OF _ _ vd step]) (use assms(1,2) in \<open>simp_all add: makes_calls_def value_ready_def follows_def\<close>)
  then show ?thesis using start unfolding reads_value_def by blast
qed

text \<open>Strings as values and as keys.\<close>

lemma reads_string:
  assumes "container_top p" "clean p" "m_osToken p = []" "more_text p u b" "json_chars s t" "length s < m_nMaxStringSize p"
  defines "c \<equiv> (if m_aeObjectState p \<noteq> [] \<and> hd (m_aeObjectState p) = IN_KEY then StartObjectMember s else String s)"
  shows "reads_value (CHR 0x22 # t @ [CHR 0x22]) [c] p u b"
proof -
  let ?q = "AdvanceChar (push_state STRING p) CHR 0x22" and ?w = "CHR 0x22 # t @ [CHR 0x22]"
  have start: "StartNewToken p (?w @ u) = Some (Inr (?q, (t @ [CHR 0x22]) @ u))" by (simp add: StartNewToken_def)
  let ?t = "(Advance ?q t)\<lparr>m_osToken := s\<rparr>" and ?m = "makes_calls (Advance p ?w) [c]"
  obtain v d where vd: "v = takeWhile c_isspace u" "d = dropWhile c_isspace u" by blast
  have "string_loop ?q ((t @ [CHR 0x22]) @ u) = string_loop ?t (CHR 0x22 # u)"
    using string_loop_chars [OF assms(5), of ?q "CHR 0x22 # u"] assms(2,3,6)
    by (simp del: string_loop.simps)
  also have "\<dots> = Some (Inr (string_end (Advance (AdvanceChar ?t CHR 0x22) v), d, True))"
    using assms(2,6) vd by (simp add: string_char_def string_plain_def clean_def SkipSpace_eq)
  also have "string_end (Advance (AdvanceChar ?t CHR 0x22) v) = Advance ?m v"
    using assms(3) c_def
    by (intro json_parser.equality) (simp_all add: string_end_def makes_calls_def pop_state_def emit_def push_state_def)
  finally have step: "Parse_step ?q ((t @ [CHR 0x22]) @ u) b =
      Some (if d = [] then (if b then Inl (CheckStackEmpty (Advance ?m v)) else Inl (Advance ?m v, True))
        else Inr (Advance ?m v, d))"
    by (simp add: Parse_step_def currentState_def vec_back_def Parse_STRING_def)
  have "Parse_loop ?q ((t @ [CHR 0x22]) @ u) b = Parse_loop ?m u b"
    by (rule finish_token [OF _ _ vd step]) (use assms(1,4) in \<open>simp_all add: makes_calls_def\<close>)
  then show ?thesis using start unfolding reads_value_def by blast
qed

subsection \<open>Whole texts\<close>

lemma text_start:
  assumes "json_text j t"
  shows "t \<noteq> []" "IsValidNewToken (hd t)" "\<not> c_isspace (hd t)"
    "hd t \<noteq> CHR '',''" "hd t \<noteq> CHR '':''" "hd t \<noteq> CHR '']''" "hd t \<noteq> CHR ''}''"
proof -
  have start: "IsValidNewToken CHR ''n''" "IsValidNewToken CHR ''t''" "IsValidNewToken CHR ''f''" "IsValidNewToken CHR 0x22"
    "IsValidNewToken CHR ''[''" "IsValidNewToken CHR ''{''" "IsValidNewToken CHR ''-''" "c_isdigit c \<Longrightarrow> IsValidNewToken c" for c
    by (simp_all add: IsValidNewToken_def)
  show "t \<noteq> []" using assms by (cases j t rule: json_text.cases) (auto simp: json_number_def)
  show tok: "IsValidNewToken (hd t)"
    using assms start by (cases j t rule: json_text.cases) (auto simp: json_number_def)
  show "\<not> c_isspace (hd t)" "hd t \<noteq> CHR '',''" "hd t \<noteq> CHR '':''" "hd t \<noteq> CHR '']''" "hd t \<noteq> CHR ''}''"
    using token_start_not_end [OF tok] by blast+
qed

text \<open>A parser directly inside an array or object whose innermost state is \<open>a\<close> or \<open>m\<close>.\<close>

definition in_array :: "json_parser \<Rightarrow> ArrayState \<Rightarrow> bool" where
  "in_array p a \<longleftrightarrow> m_aState p \<noteq> [] \<and> hd (m_aState p) = ARRAY \<and> m_abArrayState p \<noteq> [] \<and> hd (m_abArrayState p) = a \<and>
     clean p \<and> m_osToken p = [] \<and> (m_aeObjectState p = [] \<or> hd (m_aeObjectState p) \<noteq> IN_KEY)"

definition in_object :: "json_parser \<Rightarrow> MemberState \<Rightarrow> bool" where
  "in_object p m \<longleftrightarrow> m_aState p \<noteq> [] \<and> hd (m_aState p) = OBJECT \<and> m_aeObjectState p \<noteq> [] \<and> hd (m_aeObjectState p) = m \<and>
     clean p \<and> m_osToken p = []"

definition set_array :: "json_parser \<Rightarrow> ArrayState \<Rightarrow> json_parser" where
  "set_array p a = p\<lparr>m_abArrayState := a # tl (m_abArrayState p)\<rparr>"

definition set_object :: "json_parser \<Rightarrow> MemberState \<Rightarrow> json_parser" where
  "set_object p m = p\<lparr>m_aeObjectState := m # tl (m_aeObjectState p)\<rparr>"

lemma array_value:
  assumes p: "in_array p a" "a \<noteq> AFTER_VALUE" and t: "json_text j t" "json_space v" "json_space w"
    and u: "u \<noteq> []" "ends_token (hd u)" "\<not> c_isspace (hd u)"
    and reads: "\<And>q u. value_ready q \<Longrightarrow> follows q u b \<Longrightarrow> m_aState q = m_aState p \<Longrightarrow> m_nMaxDepth q = m_nMaxDepth p \<Longrightarrow>
      m_nMaxStringSize q = m_nMaxStringSize p \<Longrightarrow> reads_value t cs q u b"
  shows "Parse_loop p (v @ t @ w @ u) b =
    Parse_loop (set_array (makes_calls (Advance p (v @ t @ w)) (StartArrayMember # cs)) AFTER_VALUE) u b"
proof -
  note ts = text_start [OF t(1)]
  let ?p = "Advance p v"
  let ?q = "emit StartArrayMember (set_array ?p AFTER_VALUE)"
  have top: "container_top p" "m_aState ?p \<noteq> []" using p(1) by (auto simp: in_array_def container_top_def)
  have q: "value_ready ?q" "follows ?q (w @ u) b"
    using p(1) u json_space_isspace [OF t(3)]
    by (cases w; auto simp: value_ready_def in_array_def set_array_def emit_def container_top_def follows_def more_text_def ends_token_def neq_Nil_conv)+
  obtain q1 s1 where new: "StartNewToken ?q (t @ w @ u) = Some (Inr (q1, s1))"
    "Parse_loop q1 s1 b = Parse_loop (makes_calls (Advance ?q t) cs) (w @ u) b"
    using reads [OF q] unfolding reads_value_def by (auto simp: set_array_def emit_def)
  have "Parse_loop p (v @ t @ w @ u) b = Parse_loop ?p (t @ w @ u) b"
    using Parse_loop_space [OF top(1) json_space_isspace [OF t(2)]] by simp
  also have "\<dots> = Parse_loop q1 s1 b"
  proof -
    obtain c t' where c: "t = c # t'" using ts by (cases t) auto
    have "Parse_step ?p (t @ w @ u) b = Some (Inr (q1, s1))"
      using ts p new(1) top c
      by (auto simp: Parse_step_def currentState_def vec_back_def Parse_ARRAY_def in_array_def set_array_def goes_on_def neq_Nil_conv)
    then show ?thesis by (subst Parse_loop.simps) simp
  qed
  also have "\<dots> = Parse_loop (makes_calls (Advance ?q t) cs) (w @ u) b" by (rule new(2))
  also have "\<dots> = Parse_loop (Advance (makes_calls (Advance ?q t) cs) w) u b"
    using q(1) by (intro Parse_loop_space json_space_isspace t(3)) (simp add: makes_calls_def value_ready_def)
  also have "Advance (makes_calls (Advance ?q t) cs) w =
      set_array (makes_calls (Advance p (v @ t @ w)) (StartArrayMember # cs)) AFTER_VALUE"
    by (intro json_parser.equality) (simp_all add: makes_calls_def set_array_def emit_def)
  finally show ?thesis .
qed

lemma object_member:
  assumes p: "in_object p WAITING_KEY" and t: "json_text j t" "json_space y" "json_chars k kt" "json_space v" "json_space x" "json_space w"
    and k: "length k < m_nMaxStringSize p"
    and u: "u \<noteq> []" "ends_token (hd u)" "\<not> c_isspace (hd u)"
    and reads: "\<And>q u. value_ready q \<Longrightarrow> follows q u b \<Longrightarrow> m_aState q = m_aState p \<Longrightarrow> m_nMaxDepth q = m_nMaxDepth p \<Longrightarrow>
      m_nMaxStringSize q = m_nMaxStringSize p \<Longrightarrow> reads_value t cs q u b"
  shows "Parse_loop p (y @ CHR 0x22 # kt @ CHR 0x22 # v @ CHR '':'' # x @ t @ w @ u) b =
    Parse_loop (set_object (makes_calls (Advance p (y @ CHR 0x22 # kt @ CHR 0x22 # v @ CHR '':'' # x @ t @ w))
      (StartObjectMember k # cs)) IN_VALUE) u b"
proof -
  note ts = text_start [OF t(1)]
  let ?rest = "x @ t @ w @ u"
  let ?key = "CHR 0x22 # kt @ [CHR 0x22]"
  let ?p = "Advance p y"
  let ?q = "set_object ?p IN_KEY"
  let ?r = "makes_calls (Advance ?q ?key) [StartObjectMember k]"
  let ?r1 = "set_object (AdvanceChar (Advance ?r v) CHR '':'') KEY_FINISHED"
  let ?r2 = "Advance ?r1 x"
  let ?r3 = "set_object ?r2 IN_VALUE"
  have top: "container_top p" "container_top ?q" "m_aState ?p \<noteq> []"
    using p by (auto simp: in_object_def container_top_def set_object_def)
  have "Parse_loop p (y @ ?key @ v @ CHR '':'' # ?rest) b = Parse_loop ?p (?key @ v @ CHR '':'' # ?rest) b"
    by (rule Parse_loop_space [OF top(1) json_space_isspace [OF t(2)]])
  also have "\<dots> = Parse_loop ?r (v @ CHR '':'' # ?rest) b"
  proof -
    have "\<not> c_isspace CHR '':''" by (simp add: c_isspace_def ccode_def)
    then have "reads_value ?key [StartObjectMember k] ?q (v @ CHR '':'' # ?rest) b"
      using reads_string [of ?q "v @ CHR '':'' # ?rest" b k kt] top p k t(3)
      by (simp add: in_object_def set_object_def more_text_def)
    then obtain q1 s1 where new: "StartNewToken ?q (?key @ v @ CHR '':'' # ?rest) = Some (Inr (q1, s1))"
      "Parse_loop q1 s1 b = Parse_loop ?r (v @ CHR '':'' # ?rest) b" unfolding reads_value_def by blast
    have "\<not> c_isspace CHR 0x22" "IsValidNewToken CHR 0x22" by (simp_all add: c_isspace_def ccode_def IsValidNewToken_def)
    then have "Parse_step ?p (?key @ v @ CHR '':'' # ?rest) b = Some (Inr (q1, s1))"
      using p new(1)
      by (auto simp: Parse_step_def currentState_def vec_back_def Parse_OBJECT_def in_object_def set_object_def goes_on_def neq_Nil_conv)
    then show ?thesis using new(2) by (subst Parse_loop.simps) simp
  qed
  also have "\<dots> = Parse_loop (Advance ?r v) (CHR '':'' # ?rest) b"
    using top by (intro Parse_loop_space json_space_isspace t(4)) (simp add: makes_calls_def)
  also have "\<dots> = Parse_loop ?r1 ?rest b"
  proof -
    have "\<not> c_isspace CHR '':''" by (simp add: c_isspace_def ccode_def)
    then have "Parse_step (Advance ?r v) (CHR '':'' # ?rest) b = Some (Inr (?r1, ?rest))"
      using p by (auto simp: Parse_step_def currentState_def vec_back_def Parse_OBJECT_def in_object_def set_object_def
          makes_calls_def neq_Nil_conv)
    then show ?thesis by (subst Parse_loop.simps) simp
  qed
  also have "\<dots> = Parse_loop ?r2 (t @ w @ u) b"
    using top by (intro Parse_loop_space json_space_isspace t(5)) (simp add: makes_calls_def set_object_def container_top_def)
  also have "\<dots> = Parse_loop (makes_calls (Advance ?r3 t) cs) (w @ u) b"
  proof -
    have q: "value_ready ?r3" "follows ?r3 (w @ u) b"
      using p u json_space_isspace [OF t(6)]
      by (cases w; auto simp: value_ready_def in_object_def set_object_def makes_calls_def container_top_def follows_def
          more_text_def ends_token_def neq_Nil_conv)+
    have "reads_value t cs ?r3 (w @ u) b"
      by (rule reads [OF q]) (simp_all add: set_object_def makes_calls_def)
    then obtain q1 s1 where new: "StartNewToken ?r3 (t @ w @ u) = Some (Inr (q1, s1))"
      "Parse_loop q1 s1 b = Parse_loop (makes_calls (Advance ?r3 t) cs) (w @ u) b" unfolding reads_value_def by blast
    obtain c t' where c: "t = c # t'" using ts by (cases t) auto
    have "Parse_step ?r2 (t @ w @ u) b = Some (Inr (q1, s1))"
      using ts p new(1) c
      by (auto simp: Parse_step_def currentState_def vec_back_def Parse_OBJECT_def in_object_def set_object_def
          makes_calls_def goes_on_def neq_Nil_conv)
    then show ?thesis using new(2) by (subst Parse_loop.simps) simp
  qed
  also have "\<dots> = Parse_loop (Advance (makes_calls (Advance ?r3 t) cs) w) u b"
    using top by (intro Parse_loop_space json_space_isspace t(6)) (simp add: makes_calls_def set_object_def container_top_def)
  also have "Advance (makes_calls (Advance ?r3 t) cs) w =
      set_object (makes_calls (Advance p (y @ CHR 0x22 # kt @ CHR 0x22 # v @ CHR '':'' # x @ t @ w)) (StartObjectMember k # cs)) IN_VALUE"
    by (intro json_parser.equality) (simp_all add: makes_calls_def set_object_def)
  finally show ?thesis by simp
qed

lemma array_close:
  assumes "in_array p a" "a \<noteq> AFTER_COMMA"
  shows "Parse_loop p (CHR '']'' # u) b =
    Parse_loop (pop_state ((AdvanceChar (emit EndArray p) CHR '']'')\<lparr>m_abArrayState := tl (m_abArrayState p)\<rparr>)) u b"
proof -
  have "\<not> c_isspace CHR '']''" by (simp add: c_isspace_def ccode_def)
  then have "Parse_step p (CHR '']'' # u) b =
      Some (Inr (pop_state ((AdvanceChar (emit EndArray p) CHR '']'')\<lparr>m_abArrayState := tl (m_abArrayState p)\<rparr>), u))"
    using assms by (auto simp: Parse_step_def currentState_def vec_back_def Parse_ARRAY_def in_array_def neq_Nil_conv)
  then show ?thesis by (subst Parse_loop.simps) simp
qed

lemma object_close:
  assumes "in_object p m" "m = WAITING_KEY \<or> m = IN_VALUE"
  shows "Parse_loop p (CHR ''}'' # u) b =
    Parse_loop (pop_state ((AdvanceChar (emit EndObject p) CHR ''}'')\<lparr>m_aeObjectState := tl (m_aeObjectState p)\<rparr>)) u b"
proof -
  have "\<not> c_isspace CHR ''}''" by (simp add: c_isspace_def ccode_def)
  then have "Parse_step p (CHR ''}'' # u) b =
      Some (Inr (pop_state ((AdvanceChar (emit EndObject p) CHR ''}'')\<lparr>m_aeObjectState := tl (m_aeObjectState p)\<rparr>), u))"
    using assms by (auto simp: Parse_step_def currentState_def vec_back_def Parse_OBJECT_def in_object_def neq_Nil_conv)
  then show ?thesis by (subst Parse_loop.simps) simp
qed

lemma comma_steps:
  "in_array p AFTER_VALUE \<Longrightarrow>
     Parse_loop p (CHR '','' # u) b = Parse_loop (set_array (AdvanceChar p CHR '','') AFTER_COMMA) u b"
  "in_object p IN_VALUE \<Longrightarrow>
     Parse_loop p (CHR '','' # u) b = Parse_loop (set_object (AdvanceChar p CHR '','') WAITING_KEY) u b"
proof -
  have sp: "\<not> c_isspace CHR '',''" by (simp add: c_isspace_def ccode_def)
  show "Parse_loop p (CHR '','' # u) b = Parse_loop (set_array (AdvanceChar p CHR '','') AFTER_COMMA) u b"
    if "in_array p AFTER_VALUE"
  proof -
    have "Parse_step p (CHR '','' # u) b = Some (Inr (set_array (AdvanceChar p CHR '','') AFTER_COMMA, u))"
      using that sp
      by (auto simp: Parse_step_def currentState_def vec_back_def Parse_ARRAY_def in_array_def set_array_def neq_Nil_conv)
    then show ?thesis by (subst Parse_loop.simps) simp
  qed
  show "Parse_loop p (CHR '','' # u) b = Parse_loop (set_object (AdvanceChar p CHR '','') WAITING_KEY) u b"
    if "in_object p IN_VALUE"
  proof -
    have "Parse_step p (CHR '','' # u) b = Some (Inr (set_object (AdvanceChar p CHR '','') WAITING_KEY, u))"
      using that sp
      by (auto simp: Parse_step_def currentState_def vec_back_def Parse_OBJECT_def in_object_def set_object_def neq_Nil_conv)
    then show ?thesis by (subst Parse_loop.simps) simp
  qed
qed

text \<open>The opening bracket, what is between the brackets, the closing bracket.\<close>

lemma reads_array:
  assumes p: "value_ready p" "length (m_aState p) < m_nMaxDepth p"
    and inside: "\<And>q u. in_array q ARRAY_INIT \<Longrightarrow> length (m_aState q) = Suc (length (m_aState p)) \<Longrightarrow>
      m_nMaxDepth q = m_nMaxDepth p \<Longrightarrow> m_nMaxStringSize q = m_nMaxStringSize p \<Longrightarrow>
      \<exists>a. a \<noteq> AFTER_COMMA \<and> Parse_loop q (t @ CHR '']'' # u) b = Parse_loop (set_array (makes_calls (Advance q t) cs) a) (CHR '']'' # u) b"
  shows "reads_value (CHR ''['' # t @ '']'') (StartArray # cs @ [EndArray]) p u b"
proof -
  let ?q = "AdvanceChar (push_state ARRAY ((emit StartArray p)\<lparr>m_abArrayState := ARRAY_INIT # m_abArrayState p\<rparr>)) CHR ''[''"
  have start: "StartNewToken p ((CHR ''['' # t @ '']'') @ u) = Some (Inr (?q, t @ CHR '']'' # u))"
    using p(2) by (simp add: StartNewToken_def)
  have q: "in_array ?q ARRAY_INIT" using p(1) by (auto simp: in_array_def value_ready_def)
  obtain a where a: "a \<noteq> AFTER_COMMA"
    "Parse_loop ?q (t @ CHR '']'' # u) b = Parse_loop (set_array (makes_calls (Advance ?q t) cs) a) (CHR '']'' # u) b"
    using inside [OF q] by auto
  have "in_array (set_array (makes_calls (Advance ?q t) cs) a) a"
    using p(1) by (auto simp: in_array_def value_ready_def set_array_def makes_calls_def)
  from array_close [OF this a(1)] a(2)
  have "Parse_loop ?q (t @ CHR '']'' # u) b = Parse_loop (makes_calls (Advance p (CHR ''['' # t @ '']'')) (StartArray # cs @ [EndArray])) u b"
  proof -
    have "pop_state ((AdvanceChar (emit EndArray (set_array (makes_calls (Advance ?q t) cs) a)) CHR '']'')
        \<lparr>m_abArrayState := tl (m_abArrayState (set_array (makes_calls (Advance ?q t) cs) a))\<rparr>) =
        makes_calls (Advance p (CHR ''['' # t @ '']'')) (StartArray # cs @ [EndArray])"
      by (intro json_parser.equality) (simp_all add: set_array_def makes_calls_def emit_def pop_state_def push_state_def)
    then show ?thesis using a(2) array_close [OF \<open>in_array (set_array (makes_calls (Advance ?q t) cs) a) a\<close> a(1)] by (simp only:)
  qed
  then show ?thesis using start unfolding reads_value_def by blast
qed

lemma reads_object:
  assumes p: "value_ready p" "length (m_aState p) < m_nMaxDepth p"
    and inside: "\<And>q u. in_object q WAITING_KEY \<Longrightarrow> length (m_aState q) = Suc (length (m_aState p)) \<Longrightarrow>
      m_nMaxDepth q = m_nMaxDepth p \<Longrightarrow> m_nMaxStringSize q = m_nMaxStringSize p \<Longrightarrow>
      \<exists>m. (m = WAITING_KEY \<or> m = IN_VALUE) \<and> Parse_loop q (t @ CHR ''}'' # u) b = Parse_loop (set_object (makes_calls (Advance q t) cs) m) (CHR ''}'' # u) b"
  shows "reads_value (CHR ''{'' # t @ ''}'') (StartObject # cs @ [EndObject]) p u b"
proof -
  let ?q = "AdvanceChar (push_state OBJECT ((emit StartObject p)\<lparr>m_aeObjectState := WAITING_KEY # m_aeObjectState p\<rparr>)) CHR ''{''"
  have start: "StartNewToken p ((CHR ''{'' # t @ ''}'') @ u) = Some (Inr (?q, t @ CHR ''}'' # u))"
    using p(2) by (simp add: StartNewToken_def)
  have q: "in_object ?q WAITING_KEY" using p(1) by (auto simp: in_object_def value_ready_def)
  obtain m where m: "m = WAITING_KEY \<or> m = IN_VALUE"
    "Parse_loop ?q (t @ CHR ''}'' # u) b = Parse_loop (set_object (makes_calls (Advance ?q t) cs) m) (CHR ''}'' # u) b"
    using inside [OF q] by auto
  let ?r = "set_object (makes_calls (Advance ?q t) cs) m"
  have r: "in_object ?r m"
    using p(1) by (auto simp: in_object_def value_ready_def set_object_def makes_calls_def)
  have "pop_state ((AdvanceChar (emit EndObject ?r) CHR ''}'')\<lparr>m_aeObjectState := tl (m_aeObjectState ?r)\<rparr>) =
      makes_calls (Advance p (CHR ''{'' # t @ ''}'')) (StartObject # cs @ [EndObject])"
    by (intro json_parser.equality) (simp_all add: set_object_def makes_calls_def emit_def pop_state_def push_state_def)
  then have "Parse_loop ?q (t @ CHR ''}'' # u) b =
      Parse_loop (makes_calls (Advance p (CHR ''{'' # t @ ''}'')) (StartObject # cs @ [EndObject])) u b"
    using m(2) object_close [OF r m(1)] by (simp only:)
  then show ?thesis using start unfolding reads_value_def by blast
qed

definition element_calls :: "json list \<Rightarrow> call list" where
  "element_calls js = concat (map (\<lambda>j. StartArrayMember # json_calls j) js)"

definition member_calls :: "(string \<times> json) list \<Rightarrow> call list" where
  "member_calls ms = concat (map (\<lambda>(k, j). StartObjectMember k # json_calls j) ms)"

text \<open>The parser makes the calls of a tree on every text of it.\<close>

lemma Parse_loop_text:
  "json_text j t \<Longrightarrow> value_ready p \<Longrightarrow> follows p u b \<Longrightarrow>
     json_fits (m_nMaxDepth p - length (m_aState p)) (m_nMaxStringSize p) j \<Longrightarrow> reads_value t (json_calls j) p u b"
  "json_elements js t \<Longrightarrow> in_array p a \<Longrightarrow> a \<noteq> AFTER_VALUE \<Longrightarrow>
     list_all (json_fits (m_nMaxDepth p - length (m_aState p)) (m_nMaxStringSize p)) js \<Longrightarrow>
     Parse_loop p (t @ CHR '']'' # u) b = Parse_loop (set_array (makes_calls (Advance p t) (element_calls js)) AFTER_VALUE) (CHR '']'' # u) b"
  "json_members ms t \<Longrightarrow> in_object p WAITING_KEY \<Longrightarrow>
     list_all (\<lambda>(k, j). length k < m_nMaxStringSize p \<and>
       json_fits (m_nMaxDepth p - length (m_aState p)) (m_nMaxStringSize p) j) ms \<Longrightarrow>
     Parse_loop p (t @ CHR ''}'' # u) b = Parse_loop (set_object (makes_calls (Advance p t) (member_calls ms)) IN_VALUE) (CHR ''}'' # u) b"
proof (induction arbitrary: p u and p a u and p u rule: json_text_json_elements_json_members.inducts)
  case text_null
  then show ?case using reads_literal [of p u b STATE_NULL "''null''" Null] by simp
next
  case text_true
  then show ?case using reads_literal [of p u b STATE_TRUE "''true''" "Boolean True"] by simp
next
  case text_false
  then show ?case using reads_literal [of p u b STATE_FALSE "''false''" "Boolean False"] by simp
next
  case (text_number t)
  then show ?case using reads_number by simp
next
  case (text_string s t)
  then show ?case using reads_string [of p u b s t] by (auto simp: value_ready_def follows_def)
next
  case (text_empty_array w)
  have sp: "Parse_loop q (w @ CHR '']'' # u) b = Parse_loop (Advance q w) (CHR '']'' # u) b" if "in_array q ARRAY_INIT" for q u
    using that json_space_isspace [OF text_empty_array.hyps] Parse_loop_space [of q w "CHR '']'' # u" b]
    by (auto simp: in_array_def container_top_def)
  have "set_array (makes_calls (Advance q w) []) ARRAY_INIT = Advance q w" if "in_array q ARRAY_INIT" for q
    using that by (intro json_parser.equality) (auto simp: set_array_def makes_calls_def in_array_def neq_Nil_conv)
  then have "reads_value (CHR ''['' # w @ '']'') (StartArray # [] @ [EndArray]) p u b"
    using text_empty_array.prems sp by (intro reads_array exI [of _ ARRAY_INIT]) auto
  then show ?case by simp
next
  case (text_array js t)
  have "reads_value (CHR ''['' # t @ '']'') (StartArray # element_calls js @ [EndArray]) p u b"
    using text_array.prems by (intro reads_array exI [of _ AFTER_VALUE] conjI text_array.IH) auto
  then show ?case by (simp add: element_calls_def)
next
  case (text_empty_object w)
  have sp: "Parse_loop q (w @ CHR ''}'' # u) b = Parse_loop (Advance q w) (CHR ''}'' # u) b" if "in_object q WAITING_KEY" for q u
    using that json_space_isspace [OF text_empty_object.hyps] Parse_loop_space [of q w "CHR ''}'' # u" b]
    by (auto simp: in_object_def container_top_def)
  have "set_object (makes_calls (Advance q w) []) WAITING_KEY = Advance q w" if "in_object q WAITING_KEY" for q
    using that by (intro json_parser.equality) (auto simp: set_object_def makes_calls_def in_object_def neq_Nil_conv)
  then have "reads_value (CHR ''{'' # w @ ''}'') (StartObject # [] @ [EndObject]) p u b"
    using text_empty_object.prems sp by (intro reads_object exI [of _ WAITING_KEY]) auto
  then show ?case by simp
next
  case (text_object ms t)
  have "reads_value (CHR ''{'' # t @ ''}'') (StartObject # member_calls ms @ [EndObject]) p u b"
    using text_object.prems by (intro reads_object exI [of _ IN_VALUE] conjI text_object.IH) auto
  then show ?case by (simp add: member_calls_def)
next
  case (elements_one v j t w)
  have "Parse_loop p (v @ t @ w @ CHR '']'' # u) b =
      Parse_loop (set_array (makes_calls (Advance p (v @ t @ w)) (StartArrayMember # json_calls j)) AFTER_VALUE) (CHR '']'' # u) b"
    using elements_one.prems elements_one.IH
    by (intro array_value [OF _ _ elements_one.hyps(2,1,3)]) (auto simp: ends_token_def c_isspace_def ccode_def)
  then show ?case by (simp add: element_calls_def)
next
  case (elements_more v j t w js r)
  let ?p = "set_array (makes_calls (Advance p (v @ t @ w)) (StartArrayMember # json_calls j)) AFTER_VALUE"
  let ?q = "set_array (AdvanceChar ?p CHR '','') AFTER_COMMA"
  have "Parse_loop p (v @ t @ w @ CHR '','' # r @ CHR '']'' # u) b = Parse_loop ?p (CHR '','' # r @ CHR '']'' # u) b"
    using elements_more.prems elements_more.IH(1)
    by (intro array_value [OF _ _ elements_more.hyps(2,1,3)]) (auto simp: ends_token_def c_isspace_def ccode_def)
  also have "\<dots> = Parse_loop ?q (r @ CHR '']'' # u) b"
    using elements_more.prems(1) by (intro comma_steps) (auto simp: in_array_def set_array_def makes_calls_def)
  also have "\<dots> = Parse_loop (set_array (makes_calls (Advance ?q r) (element_calls js)) AFTER_VALUE) (CHR '']'' # u) b"
    using elements_more.prems
    by (intro elements_more.IH(2) [where a = AFTER_COMMA]) (auto simp: in_array_def set_array_def makes_calls_def)
  also have "set_array (makes_calls (Advance ?q r) (element_calls js)) AFTER_VALUE =
      set_array (makes_calls (Advance p (v @ t @ w @ CHR '','' # r)) (element_calls (j # js))) AFTER_VALUE"
    by (intro json_parser.equality) (simp_all add: set_array_def makes_calls_def element_calls_def)
  finally show ?case by simp
next
  case (members_one y k kt v x j t w)
  have "Parse_loop p (y @ CHR 0x22 # kt @ CHR 0x22 # v @ CHR '':'' # x @ t @ w @ CHR ''}'' # u) b =
      Parse_loop (set_object (makes_calls (Advance p (y @ CHR 0x22 # kt @ CHR 0x22 # v @ CHR '':'' # x @ t @ w))
        (StartObjectMember k # json_calls j)) IN_VALUE) (CHR ''}'' # u) b"
    using members_one.prems members_one.IH
    by (intro object_member [OF _ members_one.hyps(5,1-4,6)]) (auto simp: ends_token_def c_isspace_def ccode_def)
  then show ?case by (simp add: member_calls_def)
next
  case (members_more y k kt v x j t w ms r)
  let ?t = "y @ CHR 0x22 # kt @ CHR 0x22 # v @ CHR '':'' # x @ t @ w"
  let ?p = "set_object (makes_calls (Advance p ?t) (StartObjectMember k # json_calls j)) IN_VALUE"
  let ?q = "set_object (AdvanceChar ?p CHR '','') WAITING_KEY"
  have "Parse_loop p (y @ CHR 0x22 # kt @ CHR 0x22 # v @ CHR '':'' # x @ t @ w @ CHR '','' # r @ CHR ''}'' # u) b =
      Parse_loop ?p (CHR '','' # r @ CHR ''}'' # u) b"
    using members_more.prems members_more.IH(1)
    by (intro object_member [OF _ members_more.hyps(5,1-4,6)]) (auto simp: ends_token_def c_isspace_def ccode_def)
  also have "\<dots> = Parse_loop ?q (r @ CHR ''}'' # u) b"
    using members_more.prems(1) by (intro comma_steps) (auto simp: in_object_def set_object_def makes_calls_def)
  also have "\<dots> = Parse_loop (set_object (makes_calls (Advance ?q r) (member_calls ms)) IN_VALUE) (CHR ''}'' # u) b"
    using members_more.prems
    by (intro members_more.IH(2)) (auto simp: in_object_def set_object_def makes_calls_def)
  also have "set_object (makes_calls (Advance ?q r) (member_calls ms)) IN_VALUE =
      set_object (makes_calls (Advance p (?t @ CHR '','' # r)) (member_calls ((k, j) # ms))) IN_VALUE"
    by (intro json_parser.equality) (simp_all add: set_object_def makes_calls_def member_calls_def)
  finally show ?case by simp
qed

lemma StartNewToken_found:
  assumes "StartNewToken (p\<lparr>m_bElementFound := True\<rparr>) s = Some (Inr (q, u))"
  shows "\<exists>q'. StartNewToken p s = Some (Inr (q', u)) \<and> q'\<lparr>m_bElementFound := True\<rparr> = q"
proof -
  obtain c r where s: "s = c # r" using assms by (cases s) (auto simp: StartNewToken_def)
  have e: "emit x (p\<lparr>m_bElementFound := True\<rparr>) = (emit x p)\<lparr>m_bElementFound := True\<rparr>"
    "push_state st (p\<lparr>m_bElementFound := True\<rparr>) = (push_state st p)\<lparr>m_bElementFound := True\<rparr>"
    "push_state st (p\<lparr>m_bElementFound := True, m_abArrayState := as\<rparr>) = (push_state st (p\<lparr>m_abArrayState := as\<rparr>))\<lparr>m_bElementFound := True\<rparr>"
    "push_state st (p\<lparr>m_bElementFound := True, m_aeObjectState := ms\<rparr>) = (push_state st (p\<lparr>m_aeObjectState := ms\<rparr>))\<lparr>m_bElementFound := True\<rparr>" for x st p as ms
    by (simp_all add: emit_def push_state_def)
  show ?thesis using assms by (auto simp: StartNewToken_def s e split: if_splits)
qed

lemma Parse_document:
  assumes t: "json_text j t" "json_space v" "json_space w"
    and p: "m_aState p = [INIT]" "clean p" "m_osToken p = []" "m_abArrayState p = []" "m_aeObjectState p = []"
      "\<not> m_bElementFound p" "\<not> m_bExceptionOccurred p"
    and fits: "json_fits (m_nMaxDepth p - 1) (m_nMaxStringSize p) j"
  shows "Parse p (v @ t @ w) True =
    Some (makes_calls (Advance (p\<lparr>m_bElementFound := True\<rparr>) (v @ t @ w)) (json_calls j), True)"
proof -
  let ?p = "Advance p v"
  let ?q = "?p\<lparr>m_bElementFound := True\<rparr>"
  let ?r = "makes_calls (Advance ?q t) (json_calls j)"
  note ts = text_start [OF t(1)]
  have top: "container_top p" "container_top ?r" using p(1) by (auto simp: container_top_def makes_calls_def)
  have "follows ?q w True"
    using json_space_isspace [OF t(3)] p by (cases w) (auto simp: follows_def more_text_def ends_token_def)
  moreover have "value_ready ?q" using p by (auto simp: value_ready_def container_top_def)
  ultimately have "reads_value t (json_calls j) ?q w True"
    using fits p(1) by (intro Parse_loop_text(1) [OF t(1)]) simp_all
  then obtain q s where "StartNewToken ?q (t @ w) = Some (Inr (q, s))" "Parse_loop q s True = Parse_loop ?r w True"
    unfolding reads_value_def by blast
  moreover from this obtain q' where q': "StartNewToken ?p (t @ w) = Some (Inr (q', s))" "q'\<lparr>m_bElementFound := True\<rparr> = q"
    using StartNewToken_found by blast
  moreover have "Parse_step ?p (t @ w) True = Some (Inr (q, s))"
    using q' ts p by (cases t) (auto simp: Parse_step_def currentState_def vec_back_def Parse_INIT_def)
  ultimately have "Parse_loop ?p (t @ w) True = Parse_loop ?r w True" by (subst Parse_loop.simps) simp
  also have "\<dots> = Parse_loop (Advance ?r w) [] True"
    using Parse_loop_space [OF top(2) json_space_isspace [OF t(3)], of "[]"] by simp
  also have "\<dots> = Some (Advance ?r w, True)"
    using p by (subst Parse_loop.simps) (simp add: Parse_step_def currentState_def vec_back_def Parse_INIT_def makes_calls_def)
  also have "Advance ?r w = makes_calls (Advance (p\<lparr>m_bElementFound := True\<rparr>) (v @ t @ w)) (json_calls j)"
    by (simp add: makes_calls_def)
  finally show ?thesis
    using Parse_loop_space [OF top(1) json_space_isspace [OF t(2)], of "t @ w"] p(7) by (simp add: Parse_def)
qed

lemma Parse_new_document:
  assumes "json_text j t" "json_space v" "json_space w" "json_fits (d - 1) m j"
  shows "\<exists>q. Parse (SetMaxStringSize m (SetMaxDepth d CPLJSonStreamingParser)) (v @ t @ w) True = Some (q, True) \<and>
    calls q = json_calls j"
proof -
  let ?p = "SetMaxStringSize m (SetMaxDepth d CPLJSonStreamingParser)"
  have "Parse ?p (v @ t @ w) True =
      Some (makes_calls (Advance (?p\<lparr>m_bElementFound := True\<rparr>) (v @ t @ w)) (json_calls j), True)"
    using assms
    by (intro Parse_document) (simp_all add: SetMaxStringSize_def SetMaxDepth_def CPLJSonStreamingParser_def clean_def)
  then show ?thesis by (simp add: makes_calls_def SetMaxStringSize_def SetMaxDepth_def CPLJSonStreamingParser_def)
qed

text \<open>A valid pair of surrogates for a character whose code has a lower half that looks like a surrogate, such as
  U+1D800, is decoded as the replacement character.\<close>

theorem DecodeUnicode_pair_replaced:
  assumes "m_osUnicodeHex p = h @ l" "hex4 h" "hex4 l" "0xD800 \<le> hex_value4 h" "hex_value4 h < 0xDC00"
    and "0xDC00 \<le> hex_value4 l" "hex_value4 l < 0xE000"
    and "surrogate ((0x10000 + (hex_value4 h - 0xD800) * 0x400 + (hex_value4 l - 0xDC00)) mod 0x10000)"
  shows "DecodeUnicode p =
    Some (p\<lparr>m_osToken := m_osToken p @ [CHR 0xEF, CHR 0xBF, CHR 0xBD], m_bInUnicode := False, m_osUnicodeHex := []\<rparr>)"
proof -
  let ?n = "0x10000 + (hex_value4 h - 0xD800) * 0x400 + (hex_value4 l - 0xDC00)"
  have v: "getUCSChar (h @ l) = hex_value4 h" "getUCSChar l = hex_value4 l" "hex_value4 h < 0x10000" "hex_value4 l < 0x10000"
    using getUCSChar_eq(1) [OF assms(2), of l] getUCSChar_eq(1) [OF assms(3), of "[]"] getUCSChar_eq(2) assms(2,3)
    by simp_all
  have s: "IsHighSurrogate (hex_value4 h)" "IsLowSurrogate (hex_value4 l)"
    using assms(4-7) surrogate_range [OF v(3)] surrogate_range [OF v(4)] by simp_all
  have "IsHighSurrogate ?n \<or> IsLowSurrogate ?n" using assms(8) surrogate_iff by blast
  moreover have "\<not> ?n < 0x800" by simp
  ultimately have "Unicode_bytes ?n = [CHR 0xEF, CHR 0xBF, CHR 0xBD]" by (auto simp: Unicode_bytes_def)
  moreover have "length h = 4" "length l = 4" using assms(2,3) by (simp_all add: hex4_def)
  ultimately show ?thesis
    using v(1,2) s GetSurrogatePair_eq [OF assms(4-7)] assms(1) by (simp add: DecodeUnicode_def Let_def)
qed

text \<open>C5: The parser accepts every JSON text that nests arrays and objects less deep than its maximum depth, has keys and
  strings shorter than its maximum string size and numbers of at most 1024 characters, with any white space, and makes
  exactly the calls of the tree the text stands for.  All escapes are covered except surrogates that do not form a
  pair and pairs for a character whose code has a lower half that looks like a surrogate (U+1D800 to U+1DFFF and
  their likes in the other planes), which the code reads as the replacement character.\<close>

theorem Parse_accepts_json:
  assumes "json_text j t" "json_space v" "json_space w" "json_fits (d - 1) m j"
  shows "\<exists>q. Parse (SetMaxStringSize m (SetMaxDepth d CPLJSonStreamingParser)) (v @ t @ w) True = Some (q, True) \<and>
    calls q = json_calls j"
  using assms by (rule Parse_new_document)

theorem Parse_accepts_json_witness:
  "\<exists>q. Parse (SetMaxStringSize 2 (SetMaxDepth 2 CPLJSonStreamingParser)) ([CHR 0x0a] @ ''[1, null]'' @ '' '') True = Some (q, True) \<and>
    calls q = [StartArray, StartArrayMember, Number ''1'', StartArrayMember, Null, EndArray]"
proof -
  have "json_number ''1''" by (simp add: json_number_def number_char_def c_isdigit_def ccode_def)
  then have "json_elements [JNumber ''1'', JNull] ([] @ ''1'' @ [] @ CHR '','' # '' '' @ ''null'' @ [])"
    by (intro json_text_json_elements_json_members.intros) (simp_all add: json_space_def)
  then have "json_text (JArray [JNumber ''1'', JNull]) (CHR ''['' # ([] @ ''1'' @ [] @ CHR '','' # '' '' @ ''null'' @ []) @ '']'')"
    by (rule json_text_json_elements_json_members.intros)
  then show ?thesis
    using Parse_accepts_json [of "JArray [JNumber ''1'', JNull]" "''[1, null]''" "[CHR 0x0a]" "'' ''" 2 2]
    by (simp add: json_space_def)
qed

end
