(* ===== verification/Printf.thy ===== *)
theory Printf
  imports Prelude
begin

section \<open>Printing a floating point number (port/cpl_string.cpp)\<close>

text \<open>
  CPLvsnprintf is vsnprintf with a decimal point whatever the locale says, and CPLSPrintf its form with a buffer
  of 8000 characters.  They are modelled for calls with one floating point argument, as the JSON writer makes
  them.  What the C library prints of a number under a format is a parameter; it is \<open>None\<close> where the C
  library does not define it.  The result \<open>None\<close> is a call that is not defined: a conversion asks for an argument of
  another type or for a second one, or the C library is asked something that it does not define.  Format and
  texts are C strings, without their terminators; of the ring of buffers of CPLSPrintf only the one used is modelled.
\<close>

record 'd float_library =
  is_nan :: "'d \<Rightarrow> bool"
  is_inf :: "'d \<Rightarrow> bool"
  is_positive :: "'d \<Rightarrow> bool"
  printf_real :: "string \<Rightarrow> 'd \<Rightarrow> string option"

subsection \<open>The end of a conversion\<close>

text \<open>The loops over flags, digits and length modifiers return the rest of the format, or \<open>None\<close> for NULL.\<close>

definition skip_flags :: "string \<Rightarrow> string" where
  "skip_flags fmt = dropWhile (\<lambda>ch. ch = CHR 0x27 \<or> ch \<in> set ''-+ #0'') fmt"

fun skip_digits :: "string \<Rightarrow> string option" where
  "skip_digits [] = Some []"
| "skip_digits (ch # fmt) =
     (if ch = CHR ''$'' then None else if c_isdigit ch then skip_digits fmt else Some (ch # fmt))"

definition length_modifier :: "char \<Rightarrow> bool" where
  "length_modifier ch \<longleftrightarrow> ch \<in> set ''hljztL''"

fun skip_length :: "string \<Rightarrow> string option" where
  "skip_length [] = None"
| "skip_length (ch # fmt) =
     (if length_modifier ch then skip_length fmt
      else if ch = CHR ''I'' \<and> take 2 fmt = ''64'' then skip_length (drop 2 fmt)
      else Some (ch # fmt))"

definition CPLvsnprintf_get_end_of_formatting :: "string \<Rightarrow> string option" where
  "CPLvsnprintf_get_end_of_formatting fmt = do {
     fmt \<leftarrow> skip_digits (skip_flags fmt);
     fmt \<leftarrow> (if c_at fmt 0 = CHR ''.'' then skip_digits (tl fmt) else Some fmt);
     skip_length fmt
   }"

lemma skip_flags_suffix: "\<exists>u. fmt = u @ skip_flags fmt"
  unfolding skip_flags_def by (metis takeWhile_dropWhile_id)

lemma skip_digits_suffix: "skip_digits fmt = Some s \<Longrightarrow> \<exists>u. fmt = u @ s"
  by (induction fmt rule: skip_digits.induct) (auto split: if_splits)

lemma skip_length_suffix: "skip_length fmt = Some s \<Longrightarrow> s \<noteq> [] \<and> (\<exists>u. fmt = u @ s)"
proof (induction fmt rule: skip_length.induct)
  case (2 ch fmt)
  show ?case
  proof (cases "length_modifier ch \<or> ch = CHR ''I'' \<and> take 2 fmt = ''64''")
    case False
    then show ?thesis using "2.prems" by (auto split: if_splits)
  next
    case True
    define n where "n = (if length_modifier ch then 0 else 2 :: nat)"
    have "s \<noteq> [] \<and> (\<exists>u. drop n fmt = u @ s)"
    proof (cases "length_modifier ch")
      case m: True
      then show ?thesis using "2.IH"(1) [OF m] "2.prems" by (simp add: n_def)
    next
      case m: False
      then have i: "ch = CHR ''I'' \<and> take 2 fmt = ''64''" using True by blast
      then have "skip_length (drop 2 fmt) = Some s" using "2.prems" m by simp
      then show ?thesis using "2.IH"(2) [OF m i] m by (simp add: n_def)
    qed
    then obtain u where "drop n fmt = u @ s" "s \<noteq> []" by blast
    then have "ch # fmt = (ch # take n fmt @ u) @ s" by (metis append_Cons append_assoc append_take_drop_id)
    then show ?thesis using \<open>s \<noteq> []\<close> by blast
  qed
qed simp

lemma end_of_formatting_suffix:
  assumes "CPLvsnprintf_get_end_of_formatting fmt = Some s"
  shows "s \<noteq> []" "length s \<le> length fmt"
proof -
  obtain a b where ab: "skip_digits (skip_flags fmt) = Some a" "skip_length b = Some s"
    "b = a \<or> a \<noteq> [] \<and> skip_digits (tl a) = Some b"
    using assms unfolding CPLvsnprintf_get_end_of_formatting_def
    by (auto simp: c_at_def split: Option.bind_splits if_splits)
  obtain u v w where "fmt = u @ skip_flags fmt" "skip_flags fmt = v @ a" "b = w @ s"
    using skip_flags_suffix skip_digits_suffix [OF ab(1)] skip_length_suffix [OF ab(2)] by blast
  then have "length a \<le> length fmt" "length s \<le> length b" by (metis le_add2 length_append le_trans, simp)
  moreover have "length b \<le> length a" using ab(3) skip_digits_suffix [of "tl a" b] by (cases a) auto
  ultimately show "length s \<le> length fmt" by linarith
  show "s \<noteq> []" using skip_length_suffix [OF ab(2)] by blast
qed

subsection \<open>The loop over the format\<close>

text \<open>The first comma of a printed number is the decimal point of the locale.\<close>

fun comma_to_point :: "string \<Rightarrow> string" where
  "comma_to_point [] = []"
| "comma_to_point (c # s) = (if c = CHR '','' then CHR ''.'' # s else c # comma_to_point s)"

lemma length_comma_to_point [simp]: "length (comma_to_point s) = length s"
  by (induction s rule: comma_to_point.induct) simp_all

text \<open>The state of the loop: the rest of the format, the argument while it has not been read, and what has been stored.
  One round gives the next state, or the stored text when the loop is left (\<open>Inl\<close>).\<close>

definition CPLvsnprintf_step ::
  "'d float_library \<Rightarrow> nat \<Rightarrow> char \<Rightarrow> string \<Rightarrow> 'd option \<times> string \<Rightarrow> (string + string \<times> 'd option \<times> string) option" where
  "CPLvsnprintf_step lib nSize ch fmt st =
     (let (arg, str) = st in
      if ch = CHR ''%'' then
        (if take 4 (ch # fmt) = ''%.*f'' then None
         else case CPLvsnprintf_get_end_of_formatting fmt of
             None \<Rightarrow> Some (Inl str)
           | Some ptrend \<Rightarrow>
               let n = Suc (length fmt) - length ptrend; end_c = hd ptrend; end_m1 = (ch # fmt) ! (n - 1);
                   localfmt = take (n + 1) (ch # fmt) in
               if n \<ge> 20 then Some (Inl str)
               else if end_c = CHR ''%'' then
                 Some (if length str + 1 \<ge> nSize then Inl str else Inr (tl ptrend, arg, str @ ''%''))
               else if end_c \<in> set ''dicouxX'' then
                 (if end_m1 \<in> set ''jtL'' then Some (Inl str) else None)
               else if end_c \<in> set ''eEfFgGaA'' then
                 (if end_m1 = CHR ''L'' then None
                  else do {
                    x \<leftarrow> arg;
                    text \<leftarrow> printf_real lib localfmt x;
                    Some (if length str + length text \<ge> nSize then Inl str
                          else Inr (tl ptrend, None, str @ comma_to_point text))
                  })
               else if end_c = CHR ''s'' \<or> end_c = CHR ''p'' then None
               else Some (Inl str))
      else Some (if length str = nSize - 1 then Inl str else Inr (fmt, arg, str @ [ch])))"

lemma step_shorter: "CPLvsnprintf_step lib nSize ch fmt st = Some (Inr (fmt', st')) \<Longrightarrow> length fmt' < Suc (length fmt)"
  using end_of_formatting_suffix [of fmt]
  by (auto simp: CPLvsnprintf_step_def Let_def less_Suc_eq_le le_diff_conv simp del: take_Suc_Cons
      split: prod.splits if_splits option.splits Option.bind_splits intro: le_SucI)

lemma step_bound:
  "CPLvsnprintf_step lib nSize ch fmt (arg, str) = Some r \<Longrightarrow> length str < nSize \<Longrightarrow>
   (case r of Inl s \<Rightarrow> length s < nSize | Inr (fmt, arg, s) \<Rightarrow> length s < nSize)"
  by (auto simp: CPLvsnprintf_step_def Let_def simp del: take_Suc_Cons split: if_splits option.splits Option.bind_splits)

text \<open>The result is the text and whether the end of the format was reached.\<close>

function CPLvsnprintf_loop :: "'d float_library \<Rightarrow> nat \<Rightarrow> string \<times> 'd option \<times> string \<Rightarrow> (string \<times> bool) option" where
  "CPLvsnprintf_loop lib nSize ([], arg, str) = Some (str, True)"
| "CPLvsnprintf_loop lib nSize (ch # fmt, arg, str) =
     (case CPLvsnprintf_step lib nSize ch fmt (arg, str) of
        None \<Rightarrow> None
      | Some (Inl str) \<Rightarrow> Some (str, False)
      | Some (Inr st) \<Rightarrow> CPLvsnprintf_loop lib nSize st)"
  by pat_completeness auto
termination by (relation "measure (\<lambda>(lib, n, fmt, arg, str). length fmt)") (auto dest: step_shorter)

text \<open>The buffer up to its terminator and the returned length.  When the loop was left before its end the C library
  formats the call as it is, cut off at the size of the buffer.\<close>

definition CPLvsnprintf :: "'d float_library \<Rightarrow> nat \<Rightarrow> string \<Rightarrow> 'd \<Rightarrow> (string \<times> int) option" where
  "CPLvsnprintf lib nSize fmt x =
     (if nSize = 0 then map_option (\<lambda>text. ([], int (length text))) (printf_real lib fmt x)
      else do {
        (str, all_done) \<leftarrow> CPLvsnprintf_loop lib nSize (fmt, Some x, []);
        if all_done \<and> length str < nSize then Some (str, size_to_int (length str))
        else do {
          text \<leftarrow> printf_real lib fmt x;
          Some (take (nSize - 1) text, size_to_int (length text))
        }
      })"

definition CPLSPrintf_BUF_SIZE :: nat where "CPLSPrintf_BUF_SIZE = 8000"

text \<open>The text and whether the message about a truncated text has been given.\<close>

definition CPLSPrintf :: "'d float_library \<Rightarrow> string \<Rightarrow> 'd \<Rightarrow> (string \<times> bool) option" where
  "CPLSPrintf lib fmt x = do {
     (pachBuffer, ret) \<leftarrow> CPLvsnprintf lib (CPLSPrintf_BUF_SIZE - 1) fmt x;
     Some (pachBuffer, ret < 0 \<or> ret \<ge> int CPLSPrintf_BUF_SIZE - 1)
   }"

subsection \<open>Bounds\<close>

lemma vsnprintf_loop_bound:
  "CPLvsnprintf_loop lib nSize st = Some (s, b) \<Longrightarrow> length (snd (snd st)) < nSize \<Longrightarrow> length s < nSize"
proof (induction lib nSize st rule: CPLvsnprintf_loop.induct)
  case (2 lib nSize ch fmt arg str)
  then show ?case by (auto split: option.splits sum.splits dest!: step_bound)
qed simp

text \<open>The text always fits the buffer with its terminator.\<close>

theorem CPLvsnprintf_in_bounds:
  assumes "CPLvsnprintf lib nSize fmt x = Some (s, ret)" "nSize \<noteq> 0"
  shows "length s < nSize"
  using assms vsnprintf_loop_bound [of lib nSize "(fmt, Some x, [])"]
  by (auto simp: CPLvsnprintf_def split: Option.bind_splits if_splits)

subsection \<open>Formats for significant digits\<close>

lemma c_nat_decimal_chars:
  "(\<forall>c\<in>set (c_nat_decimal n). c_isdigit c) \<and> c_nat_decimal n \<noteq> []"
proof (induction n rule: c_nat_decimal.induct)
  case (1 n)
  have d: "c_isdigit (char_of (48 + k))" if "k < 10" for k :: nat
    using that by (simp add: c_isdigit_def)
  show ?case
  proof (cases "n < 10")
    case True
    then show ?thesis using d [of n] by (subst (1 2) c_nat_decimal.simps) simp
  next
    case False
    then have "c_nat_decimal n = c_nat_decimal (n div 10) @ [char_of (48 + n mod 10)]" by (subst c_nat_decimal.simps) simp
    then show ?thesis using 1 False d [of "n mod 10"] by auto
  qed
qed

lemma c_nat_decimal_length: "n < 10 ^ Suc k \<Longrightarrow> length (c_nat_decimal n) \<le> Suc k"
proof (induction k arbitrary: n)
  case 0
  then show ?case by (subst c_nat_decimal.simps) simp
next
  case (Suc k)
  show ?case
  proof (cases "n < 10")
    case False
    have "n div 10 < 10 ^ Suc k" using Suc.prems by (simp add: less_mult_imp_div_less)
    then show ?thesis using Suc.IH [of "n div 10"] False by (subst c_nat_decimal.simps) simp
  qed (subst c_nat_decimal.simps, simp)
qed

text \<open>What the C library documents of the conversion \<open>g\<close> with a precision, in a locale whose decimal point is a point
  or a comma: a finite number is an optional sign, digits, an optional fraction and an optional exponent; no
  \<open>double\<close> needs more than 1000 characters.\<close>

definition decimal_digits :: "string \<Rightarrow> bool" where
  "decimal_digits s \<longleftrightarrow> s \<noteq> [] \<and> (\<forall>c\<in>set s. c_isdigit c)"

definition g_text :: "string \<Rightarrow> bool" where
  "g_text t \<longleftrightarrow> (\<exists>sgn ds frac ex. t = sgn @ ds @ frac @ ex \<and> (sgn = [] \<or> sgn = ''-'') \<and> decimal_digits ds \<and>
     (frac = [] \<or> (\<exists>p fs. frac = p # fs \<and> (p = CHR ''.'' \<or> p = CHR '','') \<and> decimal_digits fs)) \<and>
     (ex = [] \<or> (\<exists>s es. ex = CHR ''e'' # s # es \<and> (s = CHR ''+'' \<or> s = CHR ''-'') \<and> decimal_digits es)))"

definition prints_g :: "'d float_library \<Rightarrow> bool" where
  "prints_g lib \<longleftrightarrow> (\<forall>n x. 0 \<le> n \<and> n < 10 ^ 6 \<and> \<not> is_nan lib x \<and> \<not> is_inf lib x \<longrightarrow>
     (\<exists>t. printf_real lib (''%.'' @ c_decimal n @ ''g'') x = Some t \<and> g_text t \<and> length t \<le> 1000))"

lemma skip_digits_digits: "\<forall>c\<in>set ds. c_isdigit c \<Longrightarrow> skip_digits (ds @ s) = skip_digits s"
  by (induction ds) (auto simp: c_isdigit_def ccode_def)

lemma g_format:
  assumes "0 \<le> n" "n < 10 ^ 6"
  shows "length (c_decimal n) \<le> 6" "CPLvsnprintf_get_end_of_formatting (CHR ''.'' # c_decimal n @ ''g'') = Some ''g''"
proof -
  have "nat n < 10 ^ Suc 5" using assms by (simp add: nat_less_iff)
  then show "length (c_decimal n) \<le> 6" using c_nat_decimal_length [of "nat n" 5] assms(1) by (simp add: c_decimal_def)
  have "\<forall>c\<in>set (c_decimal n). c_isdigit c" using c_nat_decimal_chars [of "nat n"] assms(1) by (simp add: c_decimal_def)
  then have "skip_digits (c_decimal n @ ''g'') = Some ''g''" by (simp add: skip_digits_digits c_isdigit_def ccode_def)
  moreover have "skip_flags (CHR ''.'' # c_decimal n @ ''g'') = CHR ''.'' # c_decimal n @ ''g''" by (simp add: skip_flags_def)
  moreover have "skip_digits (CHR ''.'' # c_decimal n @ ''g'') = Some (CHR ''.'' # c_decimal n @ ''g'')"
    by (simp add: c_isdigit_def ccode_def)
  ultimately show "CPLvsnprintf_get_end_of_formatting (CHR ''.'' # c_decimal n @ ''g'') = Some ''g''"
    by (simp add: CPLvsnprintf_get_end_of_formatting_def c_at_def length_modifier_def)
qed

lemma CPLSPrintf_g:
  assumes "0 \<le> n" "n < 10 ^ 6" "printf_real lib (''%.'' @ c_decimal n @ ''g'') x = Some t" "length t < 7999"
  shows "CPLSPrintf lib (''%.'' @ c_decimal n @ ''g'') x = Some (comma_to_point t, False)"
proof -
  let ?f = "CHR ''.'' # c_decimal n @ ''g''"
  note g = g_format [OF assms(1,2)]
  have d: "c_decimal n \<noteq> []" "\<forall>c\<in>set (c_decimal n). c_isdigit c"
    using c_nat_decimal_chars [of "nat n"] assms(1) by (simp_all add: c_decimal_def)
  have star: "take 4 (CHR ''%'' # ?f) \<noteq> ''%.*f''"
    using d by (cases "c_decimal n") (auto simp: c_isdigit_def ccode_def)
  have m1: "(CHR ''%'' # ?f) ! Suc (length (c_decimal n)) \<noteq> CHR ''L''"
  proof -
    have "c_isdigit (c_decimal n ! (length (c_decimal n) - 1))" using d by simp
    then have "c_decimal n ! (length (c_decimal n) - 1) \<noteq> CHR ''L''" by (auto simp: c_isdigit_def ccode_def)
    then show ?thesis using d(1) by (simp add: nth_append nth_Cons')
  qed
  have "CPLvsnprintf_step lib 7999 CHR ''%'' ?f (Some x, []) = Some (Inr ([], None, comma_to_point t))"
    using g star m1 assms(3,4) by (simp add: CPLvsnprintf_step_def Let_def del: take_Suc_Cons nth_Cons_Suc)
  then have "CPLvsnprintf_loop lib 7999 (CHR ''%'' # ?f, Some x, []) = Some (comma_to_point t, True)"
    by simp
  then show ?thesis
    using assms(4) by (simp add: CPLSPrintf_def CPLvsnprintf_def CPLSPrintf_BUF_SIZE_def size_to_int_small)
qed

lemma comma_to_point_at: "CHR '','' \<notin> set u \<Longrightarrow> comma_to_point (u @ CHR '','' # v) = u @ CHR ''.'' # v"
  by (induction u) auto

lemma comma_to_point_none: "CHR '','' \<notin> set u \<Longrightarrow> comma_to_point u = u"
  by (induction u) auto

lemma decimal_digits_comma: "decimal_digits s \<Longrightarrow> CHR '','' \<notin> set s"
  by (auto simp: decimal_digits_def c_isdigit_def ccode_def)

end
