(* ===== verification/JsonWriter.thy ===== *)
theory JsonWriter
  imports JsonText Printf
begin

section \<open>The streaming JSON writer (port/cpl_json_streaming_writer.cpp)\<close>

text \<open>
  CPLJSonStreamingWriter appends the parts of a document to a string or hands them to a function.
  The record holds the members of the class; the vector of states is the list of its elements, the last
  one first.  What the serialisation function is given is recorded in \<open>sent\<close>.  A failed assertion,
  \<open>back ()\<close> of an empty vector and a negative size are \<open>None\<close>.  Of floating point numbers the model
  knows what the code asks the C library: whether one is a number, infinite or positive, and its text.
\<close>

subsection \<open>The class\<close>

record writer_state =
  bIsObj :: bool
  bFirstChild :: bool

record json_writer =
  m_osStr :: string
  m_pfnSerializationFunc :: bool
  sent :: "string list"
  m_bPretty :: bool
  m_osIndent :: string
  m_osIndentAcc :: string
  m_nLevel :: int
  m_bNewLineEnabled :: bool
  m_states :: "writer_state list"
  m_bWaitForValue :: bool

definition CPLJSonStreamingWriter :: "bool \<Rightarrow> json_writer" where
  "CPLJSonStreamingWriter pfnSerializationFunc =
     \<lparr>m_osStr = [], m_pfnSerializationFunc = pfnSerializationFunc, sent = [], m_bPretty = True, m_osIndent = ''  '',
      m_osIndentAcc = [], m_nLevel = 0, m_bNewLineEnabled = True, m_states = [], m_bWaitForValue = False\<rparr>"

text \<open>The destructor only asserts that everything has been closed.\<close>

definition destroy_writer :: "json_writer \<Rightarrow> unit option" where
  "destroy_writer w = (if m_nLevel w = 0 \<and> m_states w = [] then Some () else None)"

definition Print :: "string \<Rightarrow> json_writer \<Rightarrow> json_writer" where
  "Print text w =
     (if m_pfnSerializationFunc w then w\<lparr>sent := sent w @ [c_str text]\<rparr>
      else w\<lparr>m_osStr := m_osStr w @ text\<rparr>)"

definition SetPrettyFormatting :: "bool \<Rightarrow> json_writer \<Rightarrow> json_writer" where
  "SetPrettyFormatting bPretty w = w\<lparr>m_bPretty := bPretty\<rparr>"

definition SetIndentationSize :: "int \<Rightarrow> json_writer \<Rightarrow> json_writer option" where
  "SetIndentationSize nSpaces w =
     (if m_nLevel w \<noteq> 0 \<or> nSpaces < 0 then None else Some (w\<lparr>m_osIndent := replicate (nat nSpaces) CHR '' ''\<rparr>))"

definition GetString :: "json_writer \<Rightarrow> string" where
  "GetString w = m_osStr w"

definition GetNewLine :: "json_writer \<Rightarrow> bool" where
  "GetNewLine w = m_bNewLineEnabled w"

definition SetNewline :: "bool \<Rightarrow> json_writer \<Rightarrow> json_writer" where
  "SetNewline bEnabled w = w\<lparr>m_bNewLineEnabled := bEnabled\<rparr>"

definition IncIndent :: "json_writer \<Rightarrow> json_writer option" where
  "IncIndent w = do {
     nLevel \<leftarrow> c_int (m_nLevel w + 1);
     let w = w\<lparr>m_nLevel := nLevel\<rparr>;
     Some (if m_bPretty w then w\<lparr>m_osIndentAcc := m_osIndentAcc w @ m_osIndent w\<rparr> else w)
   }"

definition DecIndent :: "json_writer \<Rightarrow> json_writer option" where
  "DecIndent w =
     (if m_nLevel w \<le> 0 then None
      else let w = w\<lparr>m_nLevel := m_nLevel w - 1\<rparr> in
        if m_bPretty w then
          (if length (m_osIndentAcc w) < length (m_osIndent w) then None
           else Some (w\<lparr>m_osIndentAcc := take (length (m_osIndentAcc w) - length (m_osIndent w)) (m_osIndentAcc w)\<rparr>))
        else Some w)"

subsection \<open>Strings\<close>

definition format_char :: "char \<Rightarrow> string" where
  "format_char ch =
     (if ch = CHR 0x22 then [CHR 0x5c, CHR 0x22]
      else if ch = CHR 0x5c then [CHR 0x5c, CHR 0x5c]
      else if ch = CHR 0x08 then [CHR 0x5c, CHR ''b'']
      else if ch = CHR 0x0c then [CHR 0x5c, CHR ''f'']
      else if ch = CHR 0x0a then [CHR 0x5c, CHR ''n'']
      else if ch = CHR 0x0d then [CHR 0x5c, CHR ''r'']
      else if ch = CHR 0x09 then [CHR 0x5c, CHR ''t'']
      else if ccode ch < 32 then CHR 0x5c # CHR ''u'' # c_hex4 (ccode ch)
      else [ch])"

fun FormatString_loop :: "string \<Rightarrow> string \<Rightarrow> string" where
  "FormatString_loop ret [] = ret"
| "FormatString_loop ret (ch # s) = FormatString_loop (ret @ format_char ch) s"

definition FormatString :: "string \<Rightarrow> string" where
  "FormatString str = FormatString_loop [CHR 0x22] str @ [CHR 0x22]"

subsection \<open>Structure\<close>

definition EmitCommaIfNeeded :: "json_writer \<Rightarrow> json_writer" where
  "EmitCommaIfNeeded w =
     (if m_bWaitForValue w then w\<lparr>m_bWaitForValue := False\<rparr>
      else case m_states w of
          [] \<Rightarrow> w
        | st # r \<Rightarrow>
            let w = (if \<not> bFirstChild st
                     then (let w = Print '','' w in if m_bPretty w \<and> \<not> m_bNewLineEnabled w then Print '' '' w else w)
                     else w);
                w = (if m_bPretty w \<and> m_bNewLineEnabled w then Print (m_osIndentAcc w) (Print [CHR 0x0a] w) else w)
            in w\<lparr>m_states := st\<lparr>bFirstChild := False\<rparr> # r\<rparr>)"

definition StartObj :: "json_writer \<Rightarrow> json_writer option" where
  "StartObj w = do {
     w \<leftarrow> IncIndent (Print ''{'' (EmitCommaIfNeeded w));
     Some (w\<lparr>m_states := \<lparr>bIsObj = True, bFirstChild = True\<rparr> # m_states w\<rparr>)
   }"

definition EndObj :: "json_writer \<Rightarrow> json_writer option" where
  "EndObj w =
     (if m_bWaitForValue w then None
      else case m_states w of
          [] \<Rightarrow> None
        | st # r \<Rightarrow>
            if \<not> bIsObj st then None
            else do {
              w \<leftarrow> DecIndent w;
              let w = (if \<not> bFirstChild st \<and> m_bPretty w \<and> m_bNewLineEnabled w
                       then Print (m_osIndentAcc w) (Print [CHR 0x0a] w) else w);
              Some (Print ''}'' (w\<lparr>m_states := r\<rparr>))
            })"

definition StartArr :: "json_writer \<Rightarrow> json_writer option" where
  "StartArr w = do {
     w \<leftarrow> IncIndent (Print ''['' (EmitCommaIfNeeded w));
     Some (w\<lparr>m_states := \<lparr>bIsObj = False, bFirstChild = True\<rparr> # m_states w\<rparr>)
   }"

definition EndArr :: "json_writer \<Rightarrow> json_writer option" where
  "EndArr w =
     (case m_states w of
        [] \<Rightarrow> None
      | st # r \<Rightarrow>
          if bIsObj st then None
          else do {
            w \<leftarrow> DecIndent w;
            let w = (if \<not> bFirstChild st \<and> m_bPretty w \<and> m_bNewLineEnabled w
                     then Print (m_osIndentAcc w) (Print [CHR 0x0a] w) else w);
            Some (Print '']'' (w\<lparr>m_states := r\<rparr>))
          })"

definition AddObjKey :: "string \<Rightarrow> json_writer \<Rightarrow> json_writer option" where
  "AddObjKey key w =
     (case m_states w of
        [] \<Rightarrow> None
      | st # r \<Rightarrow>
          if \<not> bIsObj st \<or> m_bWaitForValue w then None
          else (let w = Print (FormatString key) (EmitCommaIfNeeded w);
                    w = Print (if m_bPretty w then '': '' else '':'') w
                in Some (w\<lparr>m_bWaitForValue := True\<rparr>)))"

text \<open>ArrayContext and ObjectContext: what their constructors and destructors do around a block.\<close>

definition ArrayContext :: "bool \<Rightarrow> json_writer \<Rightarrow> (json_writer \<times> bool) option" where
  "ArrayContext bForceSingleLine w =
     (let backup = GetNewLine w; w = (if bForceSingleLine then SetNewline False w else w)
      in map_option (\<lambda>w. (w, backup)) (StartArr w))"

definition end_ArrayContext :: "bool \<Rightarrow> bool \<Rightarrow> json_writer \<Rightarrow> json_writer option" where
  "end_ArrayContext bForceSingleLine backup w =
     map_option (\<lambda>w. if bForceSingleLine then SetNewline backup w else w) (EndArr w)"

subsection \<open>Values\<close>

definition Add_bool :: "bool \<Rightarrow> json_writer \<Rightarrow> json_writer" where
  "Add_bool bVal w = Print (if bVal then ''true'' else ''false'') (EmitCommaIfNeeded w)"

definition Add_string :: "string \<Rightarrow> json_writer \<Rightarrow> json_writer" where
  "Add_string str w = Print (FormatString str) (EmitCommaIfNeeded w)"

definition Add_psz :: "string \<Rightarrow> json_writer \<Rightarrow> json_writer" where
  "Add_psz pszStr w = Print (FormatString pszStr) (EmitCommaIfNeeded w)"

definition Add_int64 :: "64 word \<Rightarrow> json_writer \<Rightarrow> json_writer" where
  "Add_int64 nVal w = Print (c_decimal (sint nVal)) (EmitCommaIfNeeded w)"

definition Add_uint64 :: "64 word \<Rightarrow> json_writer \<Rightarrow> json_writer" where
  "Add_uint64 nVal w = Print (c_decimal (uint nVal)) (EmitCommaIfNeeded w)"

definition Add_int :: "32 word \<Rightarrow> json_writer \<Rightarrow> json_writer" where
  "Add_int nVal = Add_int64 (scast nVal)"

definition Add_uint :: "32 word \<Rightarrow> json_writer \<Rightarrow> json_writer" where
  "Add_uint nVal = Add_int64 (ucast nVal)"

text \<open>\<open>snprintf\<close> into \<open>szFormatting\<close>, which has 10 characters with the terminator.\<close>

definition szFormatting :: "int \<Rightarrow> string" where
  "szFormatting nPrecision = take 9 (''%.'' @ c_decimal nPrecision @ ''g'')"

definition Add_real :: "'d float_library \<Rightarrow> 'd \<Rightarrow> int \<Rightarrow> json_writer \<Rightarrow> json_writer option" where
  "Add_real lib dfVal nPrecision w =
     (let w = EmitCommaIfNeeded w in
      if is_nan lib dfVal then Some (Print (CHR 0x22 # ''NaN'' @ [CHR 0x22]) w)
      else if is_inf lib dfVal then
        Some (Print (if is_positive lib dfVal then CHR 0x22 # ''Infinity'' @ [CHR 0x22] else CHR 0x22 # ''-Infinity'' @ [CHR 0x22]) w)
      else map_option (\<lambda>(text, too_big). Print text w) (CPLSPrintf lib (szFormatting nPrecision) dfVal))"

definition Add_float :: "'d float_library \<Rightarrow> 'd \<Rightarrow> int \<Rightarrow> json_writer \<Rightarrow> json_writer option" where
  "Add_float lib fVal nPrecision = Add_real lib fVal nPrecision"

definition Add_double :: "'d float_library \<Rightarrow> 'd \<Rightarrow> int \<Rightarrow> json_writer \<Rightarrow> json_writer option" where
  "Add_double lib dfVal nPrecision = Add_real lib dfVal nPrecision"

definition AddNull :: "json_writer \<Rightarrow> json_writer" where
  "AddNull w = Print ''null'' (EmitCommaIfNeeded w)"

subsection \<open>Writing a tree\<close>

text \<open>What a client writes: numbers by the operation used for them, arrays with or without a forced
  single line; and the JSON tree it means.  A floating point number stands for its digits, as the C library
  prints it with \<open>n\<close> significant digits, with a decimal point.\<close>

definition printed_real :: "'d float_library \<Rightarrow> int \<Rightarrow> 'd \<Rightarrow> string" where
  "printed_real lib n x = comma_to_point (the (printf_real lib (''%.'' @ c_decimal n @ ''g'') x))"

datatype 'd document = WNull | WBool bool | WString string | WInt "64 word" | WUInt "64 word" | WReal 'd int
  | WArray bool "'d document list" | WObject "(string \<times> 'd document) list"

fun document_json :: "'d float_library \<Rightarrow> 'd document \<Rightarrow> json" where
  "document_json lib WNull = JNull"
| "document_json lib (WBool b) = JBool b"
| "document_json lib (WString s) = JString s"
| "document_json lib (WInt i) = JNumber (c_decimal (sint i))"
| "document_json lib (WUInt i) = JNumber (c_decimal (uint i))"
| "document_json lib (WReal x n) =
     (if is_nan lib x then JString ''NaN''
      else if is_inf lib x then JString (if is_positive lib x then ''Infinity'' else ''-Infinity'')
      else JNumber (printed_real lib n x))"
| "document_json lib (WArray s xs) = JArray (map (document_json lib) xs)"
| "document_json lib (WObject ms) = JObject (map (\<lambda>(k, x). (k, document_json lib x)) ms)"

fun write_document :: "'d float_library \<Rightarrow> 'd document \<Rightarrow> json_writer \<Rightarrow> json_writer option"
  and write_elements :: "'d float_library \<Rightarrow> 'd document list \<Rightarrow> json_writer \<Rightarrow> json_writer option"
  and write_members :: "'d float_library \<Rightarrow> (string \<times> 'd document) list \<Rightarrow> json_writer \<Rightarrow> json_writer option" where
  "write_document lib WNull w = Some (AddNull w)"
| "write_document lib (WBool b) w = Some (Add_bool b w)"
| "write_document lib (WString s) w = Some (Add_string s w)"
| "write_document lib (WInt i) w = Some (Add_int64 i w)"
| "write_document lib (WUInt i) w = Some (Add_uint64 i w)"
| "write_document lib (WReal x n) w = Add_double lib x n w"
| "write_document lib (WArray s xs) w = do {
     (w, backup) \<leftarrow> ArrayContext s w;
     w \<leftarrow> write_elements lib xs w;
     end_ArrayContext s backup w
   }"
| "write_document lib (WObject ms) w = do {
     w \<leftarrow> StartObj w;
     w \<leftarrow> write_members lib ms w;
     EndObj w
   }"
| "write_elements lib [] w = Some w"
| "write_elements lib (x # xs) w = do {
     w \<leftarrow> write_document lib x w;
     write_elements lib xs w
   }"
| "write_members lib [] w = Some w"
| "write_members lib ((k, x) # ms) w = do {
     w \<leftarrow> AddObjKey k w;
     w \<leftarrow> write_document lib x w;
     write_members lib ms w
   }"

fun nesting :: "'d document \<Rightarrow> nat" where
  "nesting (WArray s xs) = Suc (foldr (\<lambda>x. max (nesting x)) xs 0)"
| "nesting (WObject ms) = Suc (foldr (\<lambda>(k, x). max (nesting x)) ms 0)"
| "nesting _ = 0"

text \<open>The output in either mode.\<close>

definition writer_output :: "json_writer \<Rightarrow> string" where
  "writer_output w = (if m_pfnSerializationFunc w then concat (sent w) else m_osStr w)"

definition same_layout :: "json_writer \<Rightarrow> json_writer \<Rightarrow> bool" where
  "same_layout w v \<longleftrightarrow> m_pfnSerializationFunc v = m_pfnSerializationFunc w \<and> m_bPretty v = m_bPretty w \<and>
     m_osIndent v = m_osIndent w \<and> m_osIndentAcc v = m_osIndentAcc w \<and> m_nLevel v = m_nLevel w \<and>
     m_bNewLineEnabled v = m_bNewLineEnabled w"

lemma Print_fields [simp]:
  "m_pfnSerializationFunc (Print t w) = m_pfnSerializationFunc w" "m_bPretty (Print t w) = m_bPretty w"
  "m_osIndent (Print t w) = m_osIndent w" "m_osIndentAcc (Print t w) = m_osIndentAcc w"
  "m_nLevel (Print t w) = m_nLevel w" "m_bNewLineEnabled (Print t w) = m_bNewLineEnabled w"
  "m_states (Print t w) = m_states w" "m_bWaitForValue (Print t w) = m_bWaitForValue w"
  by (simp_all add: Print_def)

lemma c_str_no_NUL: "NUL \<notin> set s \<Longrightarrow> c_str s = s"
  by (rule c_str_id)

lemma Print_output [simp]: "NUL \<notin> set t \<Longrightarrow> writer_output (Print t w) = writer_output w @ t"
  by (simp add: writer_output_def Print_def c_str_no_NUL)

lemma output_updates [simp]:
  "writer_output (w\<lparr>m_bPretty := b\<rparr>) = writer_output w" "writer_output (w\<lparr>m_osIndent := i\<rparr>) = writer_output w"
  "writer_output (w\<lparr>m_osIndentAcc := i\<rparr>) = writer_output w" "writer_output (w\<lparr>m_nLevel := n\<rparr>) = writer_output w"
  "writer_output (w\<lparr>m_bNewLineEnabled := b\<rparr>) = writer_output w" "writer_output (w\<lparr>m_states := sts\<rparr>) = writer_output w"
  "writer_output (w\<lparr>m_bWaitForValue := b\<rparr>) = writer_output w"
  by (simp_all add: writer_output_def)

lemma json_space_no_NUL: "json_space s \<Longrightarrow> NUL \<notin> set s"
proof
  assume "json_space s" "NUL \<in> set s"
  then have "c_isspace NUL" using json_space_isspace by blast
  then show False by (simp add: c_isspace_def ccode_def)
qed

lemma json_space_append [simp]: "json_space (a @ b) \<longleftrightarrow> json_space a \<and> json_space b"
  by (simp add: json_space_def ball_Un)

lemma json_space_simps [simp]: "json_space []" "json_space '' ''" "json_space (CHR 0x0a # s) = json_space s"
  by (simp_all add: json_space_def)

text \<open>The comma and the layout in front of a value.\<close>

definition separator :: "json_writer \<Rightarrow> string" where
  "separator w =
     (if m_bWaitForValue w \<or> m_states w = [] then []
      else (if bFirstChild (hd (m_states w)) then []
            else CHR '','' # (if m_bPretty w \<and> \<not> m_bNewLineEnabled w then '' '' else [])) @
        (if m_bPretty w \<and> m_bNewLineEnabled w then CHR 0x0a # m_osIndentAcc w else []))"

definition states_after :: "json_writer \<Rightarrow> writer_state list" where
  "states_after w =
     (if m_bWaitForValue w \<or> m_states w = [] then m_states w
      else (hd (m_states w))\<lparr>bFirstChild := False\<rparr> # tl (m_states w))"

definition good_layout :: "json_writer \<Rightarrow> bool" where
  "good_layout w \<longleftrightarrow> json_space (m_osIndent w) \<and> json_space (m_osIndentAcc w)"

lemma EmitCommaIfNeeded_result:
  assumes "good_layout w"
  shows "writer_output (EmitCommaIfNeeded w) = writer_output w @ separator w" "same_layout w (EmitCommaIfNeeded w)"
    "m_states (EmitCommaIfNeeded w) = states_after w" "\<not> m_bWaitForValue (EmitCommaIfNeeded w)"
  using assms json_space_no_NUL [of "m_osIndentAcc w"]
  by (cases "m_states w"; auto simp: EmitCommaIfNeeded_def separator_def same_layout_def states_after_def good_layout_def Let_def)+

subsection \<open>Texts of strings and numbers\<close>

lemma hex_digits:
  assumes "d < 16"
  defines "c \<equiv> ''0123456789ABCDEF'' ! d"
  shows "IsHexDigit c" "hex_digit_value c = d" "c \<noteq> NUL"
proof -
  have "list_all (\<lambda>d. let c = ''0123456789ABCDEF'' ! d in IsHexDigit c \<and> hex_digit_value c = d \<and> c \<noteq> NUL) [0..<16]"
    by code_simp
  then show "IsHexDigit c" "hex_digit_value c = d" "c \<noteq> NUL"
    using assms(1) unfolding c_def by (simp_all add: list_all_iff Let_def)
qed

lemma c_hex4_value: "n < 0x10000 \<Longrightarrow> hex4 (c_hex4 n) \<and> hex_value4 (c_hex4 n) = n \<and> NUL \<notin> set (c_hex4 n)"
proof -
  assume n: "n < 0x10000"
  have d: "k mod 16 < 16" for k :: nat by simp
  have "hex_value4 (c_hex4 n) = 16 * (16 * (16 * (n div 4096 mod 16) + n div 256 mod 16) + n div 16 mod 16) + n mod 16"
    using hex_digits(2) [OF d] by (simp add: hex_value4_def c_hex4_def)
  also have "\<dots> = n"
  proof -
    have gen: "a = 16 * b + w \<Longrightarrow> b = 16 * c + z \<Longrightarrow> c = 16 * d + y \<Longrightarrow> e = d \<Longrightarrow>
      16 * (16 * (16 * e + y) + z) + w = a" for a b c d e w y z :: nat by simp
    have "n = 16 * (n div 16) + n mod 16" "n div 16 = 16 * (n div 256) + n div 16 mod 16"
      "n div 256 = 16 * (n div 4096) + n div 256 mod 16"
      using mult_div_mod_eq [of 16 n] mult_div_mod_eq [of 16 "n div 16"] mult_div_mod_eq [of 16 "n div 256"]
      by (simp_all add: div_mult2_eq [symmetric])
    moreover have "n div 4096 < 16" using n by (simp add: less_mult_imp_div_less)
    then have "n div 4096 mod 16 = n div 4096" by simp
    ultimately show ?thesis by (rule gen)
  qed
  finally have v: "hex_value4 (c_hex4 n) = n" .
  have "hex4 (c_hex4 n)" using hex_digits(1) [OF d] by (simp add: hex4_def c_hex4_def)
  moreover have "NUL \<notin> set (c_hex4 n)" using hex_digits(3) [OF d] by (simp add: c_hex4_def not_sym)
  ultimately show ?thesis using v by blast
qed

lemma FormatString_loop_eq: "FormatString_loop ret s = ret @ concat (map format_char s)"
  by (induction ret s rule: FormatString_loop.induct) auto

lemma FormatString_eq: "FormatString s = CHR 0x22 # concat (map format_char s) @ [CHR 0x22]"
  by (simp add: FormatString_def FormatString_loop_eq)

text \<open>A control character is an escape of its own or four hexadecimal digits.\<close>

lemma format_char_cases:
  obtains e where "format_char c = [CHR 0x5c, e]" "(e, c) \<in> set simple_escapes" "e \<noteq> NUL"
    | "format_char c = CHR 0x5c # CHR ''u'' # c_hex4 (ccode c)" "ccode c < 32"
    | "format_char c = [c]" "c \<noteq> CHR 0x22" "c \<noteq> CHR 0x5c" "32 \<le> ccode c"
proof -
  consider "c \<in> {CHR 0x22, CHR 0x5c, CHR 0x08, CHR 0x0c, CHR 0x0a, CHR 0x0d, CHR 0x09}"
    | "c \<notin> {CHR 0x22, CHR 0x5c, CHR 0x08, CHR 0x0c, CHR 0x0a, CHR 0x0d, CHR 0x09}" "ccode c < 32"
    | "c \<notin> {CHR 0x22, CHR 0x5c, CHR 0x08, CHR 0x0c, CHR 0x0a, CHR 0x0d, CHR 0x09}" "32 \<le> ccode c" by linarith
  then show thesis
  proof cases
    case 1
    have "\<exists>e. format_char c = [CHR 0x5c, e] \<and> (e, c) \<in> set simple_escapes \<and> e \<noteq> NUL"
      using 1 unfolding insert_iff empty_iff by (elim disjE) (simp_all add: format_char_def simple_escapes_def)
    then show thesis using that(1) by blast
  next
    case 2
    then show thesis by (intro that(2)) (simp_all add: format_char_def)
  next
    case 3
    then show thesis by (intro that(3)) (simp_all add: format_char_def)
  qed
qed

lemma format_chars: "json_chars s (concat (map format_char s)) \<and> NUL \<notin> set (concat (map format_char s))"
proof (induction s)
  case (Cons c s)
  let ?t = "concat (map format_char s)"
  show ?case
  proof (cases rule: format_char_cases [of c])
    case (1 e)
    then show ?thesis using Cons chars_escape [of e c s ?t] by simp
  next
    case 2
    have "hex4 (c_hex4 (ccode c))" "hex_value4 (c_hex4 (ccode c)) = ccode c" "NUL \<notin> set (c_hex4 (ccode c))"
      using c_hex4_value [of "ccode c"] ccode_less [of c] by auto
    moreover have "utf8_seq (ccode c) = [c]" "\<not> surrogate (ccode c)"
      using 2(2) by (simp_all add: utf8_seq_def surrogate_def)
    ultimately show ?thesis using 2 Cons chars_unicode [of "c_hex4 (ccode c)" s ?t] by simp
  next
    case 3
    have "c \<noteq> NUL" using 3(4) by (auto simp: ccode_def)
    then show ?thesis using 3 Cons chars_plain [of c s ?t] by simp
  qed
qed (simp add: chars_Nil)

lemma c_decimal_number: "json_number (c_decimal i)" "NUL \<notin> set (c_decimal i)"
proof -
  have num: "c_isdigit c \<Longrightarrow> number_char c" "c_isdigit c \<Longrightarrow> c \<noteq> NUL" "number_char CHR ''-''" for c
    by (auto simp: number_char_def c_isdigit_def ccode_def)
  note d = c_nat_decimal_chars [of "nat i"] c_nat_decimal_chars [of "nat (- i)"]
  show "json_number (c_decimal i)" using d num by (auto simp: json_number_def c_decimal_def)
  show "NUL \<notin> set (c_decimal i)" using d num by (auto simp: c_decimal_def)
qed

lemma c_decimal_length: "\<bar>i\<bar> < 10 ^ 20 \<Longrightarrow> length (c_decimal i) \<le> 21"
  using c_nat_decimal_length [of "nat i" 19] c_nat_decimal_length [of "nat (- i)" 19]
  by (auto simp: c_decimal_def nat_less_iff)

subsection \<open>The writer writes JSON\<close>

text \<open>With a precision from 0 to 999999, which fits \<open>szFormatting\<close>, a finite number is printed as a JSON number.\<close>

fun precisions_ok :: "'d document \<Rightarrow> bool" where
  "precisions_ok (WReal x n) = (0 \<le> n \<and> n < 10 ^ 6)"
| "precisions_ok (WArray s xs) = list_all precisions_ok xs"
| "precisions_ok (WObject ms) = list_all (\<lambda>(k, x). precisions_ok x) ms"
| "precisions_ok _ = True"

lemma g_text_number:
  assumes "g_text t"
  shows "json_number (comma_to_point t)"
proof -
  obtain sgn ds frac ex where t: "t = sgn @ ds @ frac @ ex" "sgn = [] \<or> sgn = ''-''" "decimal_digits ds"
    "frac = [] \<or> (\<exists>p fs. frac = p # fs \<and> (p = CHR ''.'' \<or> p = CHR '','') \<and> decimal_digits fs)"
    "ex = [] \<or> (\<exists>s es. ex = CHR ''e'' # s # es \<and> (s = CHR ''+'' \<or> s = CHR ''-'') \<and> decimal_digits es)"
    using assms unfolding g_text_def by blast
  have num: "\<forall>c\<in>set u. number_char c" if "decimal_digits u" for u
    using that by (auto simp: decimal_digits_def number_char_def)
  have sign: "number_char CHR ''-''" "number_char CHR ''+''" "number_char CHR ''e''" "number_char CHR ''.''"
    by (simp_all add: number_char_def)
  have chars: "\<forall>c\<in>set sgn. number_char c" using t(2) sign by auto
  have "\<forall>c\<in>set ex. number_char c"
  proof (cases "ex = []")
    case False
    then obtain s es where e: "ex = CHR ''e'' # s # es" "s = CHR ''+'' \<or> s = CHR ''-''" "decimal_digits es" using t(5) by blast
    then show ?thesis using num [OF e(3)] sign by auto
  qed simp
  note chars = chars this
  have comma: "CHR '','' \<notin> set sgn" "CHR '','' \<notin> set ds" "CHR '','' \<notin> set ex"
    using t(2,3,5) decimal_digits_comma by auto
  have "\<exists>frac'. comma_to_point t = sgn @ ds @ frac' @ ex \<and> (\<forall>c\<in>set frac'. number_char c)"
  proof (cases "\<exists>fs. frac = CHR '','' # fs")
    case True
    then obtain fs where f: "frac = CHR '','' # fs" "decimal_digits fs" using t(4) by auto
    then have "comma_to_point t = (sgn @ ds) @ CHR ''.'' # fs @ ex"
      using comma_to_point_at [of "sgn @ ds" "fs @ ex"] comma t(1) by simp
    then show ?thesis using num [OF f(2)] by (intro exI [of _ "CHR ''.'' # fs"]) (simp add: sign)
  next
    case False
    then have f: "frac = [] \<or> (\<exists>fs. frac = CHR ''.'' # fs \<and> decimal_digits fs)" using t(4) by auto
    then have "CHR '','' \<notin> set frac" "\<forall>c\<in>set frac. number_char c"
      using decimal_digits_comma num sign by auto
    then show ?thesis using comma_to_point_none [of t] comma t(1) by auto
  qed
  then obtain frac' where c: "comma_to_point t = sgn @ ds @ frac' @ ex" "\<forall>c\<in>set frac'. number_char c" by blast
  obtain d ds' where d: "ds = d # ds'" "c_isdigit d" using t(3) by (cases ds) (auto simp: decimal_digits_def)
  show ?thesis
    using c chars num [OF t(3)] t(2) d by (auto simp: json_number_def)
qed

lemma Add_real_finite:
  assumes "prints_g lib" "0 \<le> n" "n < 10 ^ 6" "\<not> is_nan lib x" "\<not> is_inf lib x"
  shows "Add_real lib x n w = Some (Print (printed_real lib n x) (EmitCommaIfNeeded w))" "json_number (printed_real lib n x)"
    "length (printed_real lib n x) \<le> 1000"
proof -
  obtain t where t: "printf_real lib (''%.'' @ c_decimal n @ ''g'') x = Some t" "g_text t" "length t \<le> 1000"
    using assms unfolding prints_g_def by blast
  have f: "szFormatting n = ''%.'' @ c_decimal n @ ''g''" using g_format(1) [OF assms(2,3)] by (simp add: szFormatting_def)
  have "length t < 7999" using t(3) by simp
  note p = CPLSPrintf_g [OF assms(2,3) t(1) this]
  show "Add_real lib x n w = Some (Print (printed_real lib n x) (EmitCommaIfNeeded w))"
    using assms(4,5) p t(1) unfolding Add_real_def Let_def f by (simp add: printed_real_def)
  show "json_number (printed_real lib n x)" "length (printed_real lib n x) \<le> 1000"
    using g_text_number [OF t(2)] t(1,3) by (simp_all add: printed_real_def)
qed

text \<open>A value has been written: its separator, its text, and the state afterwards.\<close>

definition is_separator :: "json_writer \<Rightarrow> string \<Rightarrow> bool" where
  "is_separator w s \<longleftrightarrow>
     (if m_bWaitForValue w \<or> m_states w = [] then s = []
      else \<exists>sp. json_space sp \<and> s = (if bFirstChild (hd (m_states w)) then sp else CHR '','' # sp))"

definition wrote :: "json_writer \<Rightarrow> string \<Rightarrow> json_writer \<Rightarrow> bool" where
  "wrote w t v \<longleftrightarrow> (\<exists>s. is_separator w s \<and> writer_output v = writer_output w @ s @ t) \<and> same_layout w v \<and>
     m_states v = states_after w \<and> \<not> m_bWaitForValue v"

lemma same_layout_trans: "same_layout a b \<Longrightarrow> same_layout b c \<Longrightarrow> same_layout a c"
  by (simp add: same_layout_def)

lemma same_layout_good: "same_layout w v \<Longrightarrow> good_layout v = good_layout w"
  by (simp add: same_layout_def good_layout_def)

text \<open>White space that the separator adds after the comma.\<close>

lemma separator_split:
  assumes "good_layout w" "m_states w \<noteq> []" "\<not> m_bWaitForValue w"
  obtains s where "separator w = (if bFirstChild (hd (m_states w)) then s else CHR '','' # s)" "json_space s"
proof -
  let ?n = "if m_bPretty w \<and> m_bNewLineEnabled w then CHR 0x0a # m_osIndentAcc w else []"
  let ?b = "if bFirstChild (hd (m_states w)) then [] else if m_bPretty w \<and> \<not> m_bNewLineEnabled w then '' '' else []"
  have "separator w = (if bFirstChild (hd (m_states w)) then ?b @ ?n else CHR '','' # ?b @ ?n)"
    using assms(2,3) by (simp add: separator_def)
  moreover have "json_space (?b @ ?n)" using assms(1) by (simp add: good_layout_def)
  ultimately show thesis by (rule that)
qed

lemma separator_is:
  assumes "good_layout w"
  shows "is_separator w (separator w)"
proof (cases "m_bWaitForValue w \<or> m_states w = []")
  case True
  then show ?thesis by (simp add: is_separator_def separator_def)
next
  case False
  then obtain s where "separator w = (if bFirstChild (hd (m_states w)) then s else CHR '','' # s)" "json_space s"
    using separator_split [OF assms] by blast
  then show ?thesis using False by (simp add: is_separator_def)
qed

lemma Print_wrote: "good_layout w \<Longrightarrow> NUL \<notin> set t \<Longrightarrow> wrote w t (Print t (EmitCommaIfNeeded w))"
  using EmitCommaIfNeeded_result [of w] separator_is [of w] by (auto simp: wrote_def same_layout_def)

lemma number_no_NUL: "json_number t \<Longrightarrow> NUL \<notin> set t"
proof
  assume "json_number t" "NUL \<in> set t"
  then have "number_char NUL" by (auto simp: json_number_def)
  then show False by (simp add: number_char_def c_isdigit_def ccode_def)
qed

text \<open>Opening a container.\<close>

definition open_container :: "json_writer \<Rightarrow> char \<Rightarrow> bool \<Rightarrow> json_writer \<Rightarrow> bool" where
  "open_container w c obj v \<longleftrightarrow> writer_output v = writer_output w @ separator w @ [c] \<and>
     m_pfnSerializationFunc v = m_pfnSerializationFunc w \<and> m_bPretty v = m_bPretty w \<and> m_osIndent v = m_osIndent w \<and>
     m_osIndentAcc v = (if m_bPretty w then m_osIndentAcc w @ m_osIndent w else m_osIndentAcc w) \<and>
     m_nLevel v = m_nLevel w + 1 \<and> m_bNewLineEnabled v = m_bNewLineEnabled w \<and>
     m_states v = \<lparr>bIsObj = obj, bFirstChild = True\<rparr> # states_after w \<and> \<not> m_bWaitForValue v"

lemma open_container_good: "open_container w c obj v \<Longrightarrow> good_layout w \<Longrightarrow> good_layout v"
  by (simp add: open_container_def good_layout_def)

lemma IncIndent_eq:
  assumes "0 \<le> m_nLevel w" "m_nLevel w + 1 < 2 ^ 31"
  shows "IncIndent w = Some (w\<lparr>m_nLevel := m_nLevel w + 1,
    m_osIndentAcc := (if m_bPretty w then m_osIndentAcc w @ m_osIndent w else m_osIndentAcc w)\<rparr>)"
  using assms by (simp add: IncIndent_def c_int_def)

lemma start_container:
  assumes "good_layout w" "0 \<le> m_nLevel w" "m_nLevel w + 1 < 2 ^ 31"
  shows "\<exists>v. StartObj w = Some v \<and> open_container w CHR ''{'' True v"
    and "\<exists>v. StartArr w = Some v \<and> open_container w CHR ''['' False v"
proof -
  note e = EmitCommaIfNeeded_result [OF assms(1)]
  have lv: "m_nLevel (EmitCommaIfNeeded w) = m_nLevel w" using e(2) by (simp add: same_layout_def)
  show "\<exists>v. StartObj w = Some v \<and> open_container w CHR ''{'' True v"
    using e assms lv by (simp add: StartObj_def IncIndent_eq open_container_def same_layout_def)
  show "\<exists>v. StartArr w = Some v \<and> open_container w CHR ''['' False v"
    using e assms lv by (simp add: StartArr_def IncIndent_eq open_container_def same_layout_def)
qed

text \<open>Closing it.\<close>

definition close_text :: "json_writer \<Rightarrow> string \<Rightarrow> string" where
  "close_text w acc =
     (if \<not> bFirstChild (hd (m_states w)) \<and> m_bPretty w \<and> m_bNewLineEnabled w then CHR 0x0a # acc else [])"

lemma DecIndent_eq:
  assumes "0 < m_nLevel w" "m_bPretty w \<longrightarrow> m_osIndentAcc w = acc @ m_osIndent w" "\<not> m_bPretty w \<longrightarrow> m_osIndentAcc w = acc"
  shows "DecIndent w = Some (w\<lparr>m_nLevel := m_nLevel w - 1, m_osIndentAcc := acc\<rparr>)"
  using assms by (cases "m_bPretty w") (auto simp: DecIndent_def Let_def)

lemma end_container:
  assumes opened: "open_container w c obj v" "same_layout v x" "\<not> m_bWaitForValue x"
    and st: "m_states x = \<lparr>bIsObj = obj, bFirstChild = f\<rparr> # states_after w"
    and w: "good_layout w" "0 \<le> m_nLevel w"
  shows "obj \<Longrightarrow> \<exists>y. EndObj x = Some y \<and> same_layout w y \<and> m_states y = states_after w \<and> \<not> m_bWaitForValue y \<and>
      writer_output y = writer_output x @ close_text x (m_osIndentAcc w) @ ''}''"
    and "\<not> obj \<Longrightarrow> \<exists>y. EndArr x = Some y \<and> same_layout w y \<and> m_states y = states_after w \<and> \<not> m_bWaitForValue y \<and>
      writer_output y = writer_output x @ close_text x (m_osIndentAcc w) @ '']''"
proof -
  have dec: "DecIndent x = Some (x\<lparr>m_nLevel := m_nLevel w, m_osIndentAcc := m_osIndentAcc w\<rparr>)"
    using DecIndent_eq [of x "m_osIndentAcc w"] opened w(2) by (auto simp: open_container_def same_layout_def)
  have nul: "NUL \<notin> set (m_osIndentAcc w)" using w(1) json_space_no_NUL by (simp add: good_layout_def)
  show "\<exists>y. EndObj x = Some y \<and> same_layout w y \<and> m_states y = states_after w \<and> \<not> m_bWaitForValue y \<and>
      writer_output y = writer_output x @ close_text x (m_osIndentAcc w) @ ''}''" if "obj"
    using that dec st opened nul
    by (auto simp: EndObj_def Let_def close_text_def open_container_def same_layout_def)
  show "\<exists>y. EndArr x = Some y \<and> same_layout w y \<and> m_states y = states_after w \<and> \<not> m_bWaitForValue y \<and>
      writer_output y = writer_output x @ close_text x (m_osIndentAcc w) @ '']''" if "\<not> obj"
    using that dec st opened nul
    by (auto simp: EndArr_def Let_def close_text_def open_container_def same_layout_def)
qed

text \<open>The list of children: what has been written since the bracket.\<close>

definition wrote_children :: "bool \<Rightarrow> (string \<Rightarrow> bool) \<Rightarrow> 'a list \<Rightarrow> json_writer \<Rightarrow> json_writer \<Rightarrow> bool" where
  "wrote_children obj text xs w v \<longleftrightarrow>
     same_layout w v \<and> \<not> m_bWaitForValue v \<and>
     m_states v = \<lparr>bIsObj = obj, bFirstChild = bFirstChild (hd (m_states w)) \<and> xs = []\<rparr> # tl (m_states w) \<and>
     (if xs = [] then writer_output v = writer_output w
      else \<exists>t. writer_output v = writer_output w @ (if bFirstChild (hd (m_states w)) then t else CHR '','' # t) \<and>
        (\<forall>s. json_space s \<longrightarrow> text (t @ s)))"

definition in_container :: "bool \<Rightarrow> json_writer \<Rightarrow> bool" where
  "in_container obj w \<longleftrightarrow> m_states w \<noteq> [] \<and> bIsObj (hd (m_states w)) = obj \<and> \<not> m_bWaitForValue w"

lemma nesting_children:
  "x \<in> set xs \<Longrightarrow> nesting x \<le> foldr (\<lambda>x. max (nesting x)) xs 0"
  "(k, x) \<in> set ms \<Longrightarrow> nesting x \<le> foldr (\<lambda>(k, x). max (nesting x)) ms 0"
  by (induction xs) (auto, induction ms, auto)

definition writes_value :: "'d float_library \<Rightarrow> 'd document \<Rightarrow> bool" where
  "writes_value lib x \<longleftrightarrow>
     (\<forall>w. good_layout w \<longrightarrow> 0 \<le> m_nLevel w \<longrightarrow> m_nLevel w + int (nesting x) < 2 ^ 31 \<longrightarrow>
       (\<exists>v t. write_document lib x w = Some v \<and> wrote w t v \<and> json_text (document_json lib x) t))"

lemma writes_valueD:
  assumes "writes_value lib x" "good_layout w" "0 \<le> m_nLevel w" "m_nLevel w + int (nesting x) < 2 ^ 31"
  obtains v t where "write_document lib x w = Some v" "wrote w t v" "json_text (document_json lib x) t"
  using assms unfolding writes_value_def by blast

lemma write_elements_result:
  "\<forall>x\<in>set xs. writes_value lib x \<Longrightarrow> in_container False w \<Longrightarrow> good_layout w \<Longrightarrow> 0 \<le> m_nLevel w \<Longrightarrow>
   \<forall>x\<in>set xs. m_nLevel w + int (nesting x) < 2 ^ 31 \<Longrightarrow>
   \<exists>v. write_elements lib xs w = Some v \<and> wrote_children False (json_elements (map (document_json lib) xs)) xs w v"
proof (induction xs arbitrary: w)
  case Nil
  then show ?case by (cases "m_states w") (auto simp: wrote_children_def same_layout_def in_container_def)
next
  case (Cons x xs)
  obtain v t where v: "write_document lib x w = Some v" "wrote w t v" "json_text (document_json lib x) t"
    using writes_valueD [of lib x w] Cons.prems by auto
  obtain s where s: "writer_output v = writer_output w @ (if bFirstChild (hd (m_states w)) then s else CHR '','' # s) @ t" "json_space s"
    using v(2) Cons.prems(2) by (auto simp: wrote_def is_separator_def in_container_def)
  have st: "m_states v = \<lparr>bIsObj = False, bFirstChild = False\<rparr> # tl (m_states w)"
    using v(2) Cons.prems(2) by (auto simp: wrote_def states_after_def in_container_def)
  have lay: "same_layout w v" "\<not> m_bWaitForValue v" using v(2) by (simp_all add: wrote_def)
  obtain y where y: "write_elements lib xs v = Some y" "wrote_children False (json_elements (map (document_json lib) xs)) xs v y"
    using Cons.IH [of v] Cons.prems st lay same_layout_good [OF lay(1)] by (auto simp: in_container_def same_layout_def)
  have out: "writer_output v = writer_output w @ (if bFirstChild (hd (m_states w)) then s @ t else CHR '','' # s @ t)"
    using s(1) by simp
  have "\<exists>t'. writer_output y = writer_output w @ (if bFirstChild (hd (m_states w)) then t' else CHR '','' # t') \<and>
      (\<forall>r. json_space r \<longrightarrow> json_elements (map (document_json lib) (x # xs)) (t' @ r))"
  proof (cases "xs = []")
    case True
    then show ?thesis using y(2) out s(2) v(3) elements_one [of s "document_json lib x" t]
      by (intro exI [of _ "s @ t"]) (auto simp: wrote_children_def)
  next
    case False
    then obtain t2 where t2: "writer_output y = writer_output v @ CHR '','' # t2"
      "\<forall>r. json_space r \<longrightarrow> json_elements (map (document_json lib) xs) (t2 @ r)"
      using y(2) st by (auto simp: wrote_children_def)
    then show ?thesis using out s(2) v(3) elements_more [of s "document_json lib x" t "[]"]
      by (intro exI [of _ "s @ t @ CHR '','' # t2"]) auto
  qed
  then have "wrote_children False (json_elements (map (document_json lib) (x # xs))) (x # xs) w y"
    using y(2) st lay same_layout_trans by (auto simp: wrote_children_def)
  then show ?case using v(1) y(1) by simp
qed

lemma AddObjKey_result:
  assumes "in_container True w" "good_layout w"
  obtains v s where "AddObjKey k w = Some v" "m_bWaitForValue v" "same_layout w v"
    "m_states v = \<lparr>bIsObj = True, bFirstChild = False\<rparr> # tl (m_states w)"
    "writer_output v = writer_output w @ separator w @ FormatString k @ CHR '':'' # s" "json_space s"
proof -
  note e = EmitCommaIfNeeded_result [OF assms(2)]
  let ?v = "(Print (if m_bPretty w then '': '' else '':'') (Print (FormatString k) (EmitCommaIfNeeded w)))\<lparr>m_bWaitForValue := True\<rparr>"
  have nul: "NUL \<notin> set (FormatString k)" using format_chars [of k] by (simp add: FormatString_eq)
  have "AddObjKey k w = Some ?v"
    using assms e(2) by (auto simp: AddObjKey_def in_container_def Let_def same_layout_def neq_Nil_conv)
  moreover have "m_states ?v = \<lparr>bIsObj = True, bFirstChild = False\<rparr> # tl (m_states w)"
    using assms e(3) by (auto simp: states_after_def in_container_def)
  moreover have "writer_output ?v = writer_output w @ separator w @ FormatString k @ CHR '':'' # (if m_bPretty w then '' '' else [])"
    using e(1) nul by simp
  moreover have "same_layout w ?v" using e(2) by (simp add: same_layout_def)
  ultimately show thesis by (intro that [of ?v "if m_bPretty w then '' '' else []"]) simp_all
qed

lemma write_members_result:
  "\<forall>(k, x)\<in>set ms. writes_value lib x \<Longrightarrow> in_container True w \<Longrightarrow> good_layout w \<Longrightarrow> 0 \<le> m_nLevel w \<Longrightarrow>
   \<forall>(k, x)\<in>set ms. m_nLevel w + int (nesting x) < 2 ^ 31 \<Longrightarrow>
   \<exists>v. write_members lib ms w = Some v \<and>
     wrote_children True (json_members (map (\<lambda>(k, x). (k, document_json lib x)) ms)) ms w v"
proof (induction ms arbitrary: w)
  case Nil
  then show ?case by (cases "m_states w") (auto simp: wrote_children_def same_layout_def in_container_def)
next
  case (Cons kx ms)
  obtain k x where kx: "kx = (k, x)" by (cases kx)
  obtain u s1 where u: "AddObjKey k w = Some u" "m_bWaitForValue u" "same_layout w u"
    "m_states u = \<lparr>bIsObj = True, bFirstChild = False\<rparr> # tl (m_states w)"
    "writer_output u = writer_output w @ separator w @ FormatString k @ CHR '':'' # s1" "json_space s1"
    using AddObjKey_result [OF Cons.prems(2,3)] by blast
  obtain v t where v: "write_document lib x u = Some v" "wrote u t v" "json_text (document_json lib x) t"
    using writes_valueD [of lib x u] Cons.prems kx same_layout_good [OF u(3)] u(3) by (auto simp: same_layout_def)
  obtain s where s: "separator w = (if bFirstChild (hd (m_states w)) then s else CHR '','' # s)" "json_space s"
    using separator_split Cons.prems(2,3) by (auto simp: in_container_def)
  have st: "m_states v = \<lparr>bIsObj = True, bFirstChild = False\<rparr> # tl (m_states w)"
    using v(2) u(2,4) by (simp add: wrote_def states_after_def)
  have lay: "same_layout w v" "\<not> m_bWaitForValue v"
    using v(2) same_layout_trans [OF u(3)] by (simp_all add: wrote_def)
  obtain y where y: "write_members lib ms v = Some y"
    "wrote_children True (json_members (map (\<lambda>(k, x). (k, document_json lib x)) ms)) ms v y"
    using Cons.IH [of v] Cons.prems st lay same_layout_good [OF lay(1)] by (auto simp: in_container_def same_layout_def)
  define kt where "kt = concat (map format_char k)"
  have key: "json_chars k kt" "FormatString k = CHR 0x22 # kt @ [CHR 0x22]"
    using format_chars [of k] by (simp_all add: kt_def FormatString_eq)
  let ?m = "s @ CHR 0x22 # kt @ CHR 0x22 # [] @ CHR '':'' # s1 @ t"
  have out: "writer_output v = writer_output w @ (if bFirstChild (hd (m_states w)) then ?m else CHR '','' # ?m)"
    using v(2) u(2,5) s(1) key(2) by (simp add: wrote_def is_separator_def)
  have "\<exists>t'. writer_output y = writer_output w @ (if bFirstChild (hd (m_states w)) then t' else CHR '','' # t') \<and>
      (\<forall>r. json_space r \<longrightarrow> json_members (map (\<lambda>(k, x). (k, document_json lib x)) (kx # ms)) (t' @ r))"
  proof (cases "ms = []")
    case True
    then show ?thesis
      using y(2) out members_one [OF s(2) key(1) json_space_simps(1) u(6) v(3)] kx
      by (intro exI [of _ ?m]) (auto simp: wrote_children_def)
  next
    case False
    then obtain t2 where t2: "writer_output y = writer_output v @ CHR '','' # t2"
      "\<forall>r. json_space r \<longrightarrow> json_members (map (\<lambda>(k, x). (k, document_json lib x)) ms) (t2 @ r)"
      using y(2) st by (auto simp: wrote_children_def)
    then show ?thesis
      using out members_more [OF s(2) key(1) json_space_simps(1) u(6) v(3) json_space_simps(1)] kx
      by (intro exI [of _ "?m @ CHR '','' # t2"]) auto
  qed
  then have "wrote_children True (json_members (map (\<lambda>(k, x). (k, document_json lib x)) (kx # ms))) (kx # ms) w y"
    using y(2) st lay same_layout_trans by (auto simp: wrote_children_def)
  then show ?case using u(1) v(1) y(1) kx by simp
qed

lemma open_container_in: "open_container w c obj v \<Longrightarrow> in_container obj v"
  by (simp add: open_container_def in_container_def)

lemma close_text_space: "good_layout w \<Longrightarrow> json_space (close_text x (m_osIndentAcc w))"
  by (simp add: close_text_def good_layout_def)

text \<open>One container, given what its children write.\<close>

lemma write_array:
  assumes w: "good_layout w" "0 \<le> m_nLevel w" "m_nLevel w + 1 < 2 ^ 31"
    and children: "\<And>v. in_container False v \<Longrightarrow> good_layout v \<Longrightarrow> m_nLevel v = m_nLevel w + 1 \<Longrightarrow>
      \<exists>x. body v = Some x \<and> wrote_children False (json_elements js) xs v x"
    and js: "js = [] \<longleftrightarrow> xs = []"
  shows "\<exists>v x t. StartArr w = Some v \<and> (do { x \<leftarrow> body v; EndArr x }) = Some x \<and> wrote w t x \<and> json_text (JArray js) t"
proof -
  obtain v where v: "StartArr w = Some v" "open_container w CHR ''['' False v" using start_container [OF w] by blast
  note vd = v(2) [unfolded open_container_def]
  obtain x where x: "body v = Some x" "wrote_children False (json_elements js) xs v x"
    using children open_container_in [OF v(2)] open_container_good [OF v(2) w(1)] vd by blast
  note xd = x(2) [unfolded wrote_children_def]
  obtain y where y: "EndArr x = Some y" "same_layout w y" "m_states y = states_after w" "\<not> m_bWaitForValue y"
    "writer_output y = writer_output x @ close_text x (m_osIndentAcc w) @ '']''"
    using end_container(2) [OF v(2) _ _ _ w(1,2), of x "xs = []"] xd vd by auto
  let ?c = "close_text x (m_osIndentAcc w)"
  have "\<exists>t. wrote w t y \<and> json_text (JArray js) t"
  proof (cases "xs = []")
    case True
    have "writer_output y = writer_output w @ separator w @ CHR ''['' # ?c @ '']''" using y(5) xd vd True by simp
    then show ?thesis using y(2-4) text_empty_array [OF close_text_space [OF w(1), of x]] True js
      by (intro exI [of _ "CHR ''['' # ?c @ '']''"]) (auto simp: wrote_def intro: separator_is [OF w(1)])
  next
    case False
    then obtain t where t: "writer_output x = writer_output v @ t" "json_elements js (t @ ?c)"
      using xd vd close_text_space [OF w(1), of x] by auto
    have "writer_output y = writer_output w @ separator w @ CHR ''['' # (t @ ?c) @ '']''" using y(5) t vd by simp
    then show ?thesis using y(2-4) text_array [OF t(2)]
      by (intro exI [of _ "CHR ''['' # (t @ ?c) @ '']''"]) (auto simp: wrote_def intro: separator_is [OF w(1)])
  qed
  then show ?thesis using v(1) x(1) y(1) by auto
qed

lemma write_object:
  assumes w: "good_layout w" "0 \<le> m_nLevel w" "m_nLevel w + 1 < 2 ^ 31"
    and children: "\<And>v. in_container True v \<Longrightarrow> good_layout v \<Longrightarrow> m_nLevel v = m_nLevel w + 1 \<Longrightarrow>
      \<exists>x. body v = Some x \<and> wrote_children True (json_members js) xs v x"
    and js: "js = [] \<longleftrightarrow> xs = []"
  shows "\<exists>v x t. StartObj w = Some v \<and> (do { x \<leftarrow> body v; EndObj x }) = Some x \<and> wrote w t x \<and> json_text (JObject js) t"
proof -
  obtain v where v: "StartObj w = Some v" "open_container w CHR ''{'' True v" using start_container [OF w] by blast
  note vd = v(2) [unfolded open_container_def]
  obtain x where x: "body v = Some x" "wrote_children True (json_members js) xs v x"
    using children open_container_in [OF v(2)] open_container_good [OF v(2) w(1)] vd by blast
  note xd = x(2) [unfolded wrote_children_def]
  obtain y where y: "EndObj x = Some y" "same_layout w y" "m_states y = states_after w" "\<not> m_bWaitForValue y"
    "writer_output y = writer_output x @ close_text x (m_osIndentAcc w) @ ''}''"
    using end_container(1) [OF v(2) _ _ _ w(1,2), of x "xs = []"] xd vd by auto
  let ?c = "close_text x (m_osIndentAcc w)"
  have "\<exists>t. wrote w t y \<and> json_text (JObject js) t"
  proof (cases "xs = []")
    case True
    have "writer_output y = writer_output w @ separator w @ CHR ''{'' # ?c @ ''}''" using y(5) xd vd True by simp
    then show ?thesis using y(2-4) text_empty_object [OF close_text_space [OF w(1), of x]] True js
      by (intro exI [of _ "CHR ''{'' # ?c @ ''}''"]) (auto simp: wrote_def intro: separator_is [OF w(1)])
  next
    case False
    then obtain t where t: "writer_output x = writer_output v @ t" "json_members js (t @ ?c)"
      using xd vd close_text_space [OF w(1), of x] by auto
    have "writer_output y = writer_output w @ separator w @ CHR ''{'' # (t @ ?c) @ ''}''" using y(5) t vd by simp
    then show ?thesis using y(2-4) text_object [OF t(2)]
      by (intro exI [of _ "CHR ''{'' # (t @ ?c) @ ''}''"]) (auto simp: wrote_def intro: separator_is [OF w(1)])
  qed
  then show ?thesis using v(1) x(1) y(1) by auto
qed

lemma writes_scalar:
  assumes "\<And>w. write_document lib x w = Some (Print t (EmitCommaIfNeeded w))" "NUL \<notin> set t"
    "json_text (document_json lib x) t"
  shows "writes_value lib x"
  using assms Print_wrote [OF _ assms(2)] unfolding writes_value_def by blast

lemma write_document_result:
  assumes "prints_g lib"
  shows "precisions_ok x \<Longrightarrow> writes_value lib x"
proof (induction x)
  case WNull
  show ?case by (rule writes_scalar [of _ _ "''null''"]) (simp_all add: AddNull_def text_null)
next
  case (WBool b)
  show ?case
    by (rule writes_scalar [of _ _ "if b then ''true'' else ''false''"]) (simp_all add: Add_bool_def text_true text_false)
next
  case (WString s)
  show ?case
    using text_string [of s "concat (map format_char s)"] format_chars [of s]
    by (intro writes_scalar [of _ _ "FormatString s"]) (simp_all add: Add_string_def FormatString_eq)
next
  case (WInt i)
  show ?case
    using c_decimal_number text_number
    by (intro writes_scalar [of _ _ "c_decimal (sint i)"]) (simp_all add: Add_int64_def)
next
  case (WUInt i)
  show ?case
    using c_decimal_number text_number
    by (intro writes_scalar [of _ _ "c_decimal (uint i)"]) (simp_all add: Add_uint64_def)
next
  case (WReal x n)
  have n: "0 \<le> n" "n < 10 ^ 6" using WReal by simp_all
  define t where "t = (if is_nan lib x then CHR 0x22 # ''NaN'' @ [CHR 0x22]
      else if is_inf lib x then
        (if is_positive lib x then CHR 0x22 # ''Infinity'' @ [CHR 0x22] else CHR 0x22 # ''-Infinity'' @ [CHR 0x22])
      else printed_real lib n x)"
  have chars: "json_chars ''NaN'' ''NaN''" "json_chars ''Infinity'' ''Infinity''" "json_chars ''-Infinity'' ''-Infinity''"
    by (auto intro!: json_chars.intros)
  have tree: "document_json lib (WReal x n) = (if is_nan lib x then JString ''NaN''
      else if is_inf lib x then JString (if is_positive lib x then ''Infinity'' else ''-Infinity'')
      else JNumber (printed_real lib n x))" by simp
  have num: "json_number (printed_real lib n x)" if "\<not> is_nan lib x" "\<not> is_inf lib x"
    using Add_real_finite(2) [OF assms n that] .
  have "json_text (document_json lib (WReal x n)) t \<and> NUL \<notin> set t"
  proof (cases "is_nan lib x \<or> is_inf lib x")
    case True
    then show ?thesis
      using text_string [OF chars(1)] text_string [OF chars(2)] text_string [OF chars(3)] unfolding tree t_def by auto
  next
    case False
    then show ?thesis using num text_number [OF num] number_no_NUL [OF num] unfolding tree t_def by simp
  qed
  moreover have "write_document lib (WReal x n) w = Some (Print t (EmitCommaIfNeeded w))" for w
    using Add_real_finite(1) [OF assms n]
    by (cases "is_nan lib x \<or> is_inf lib x") (auto simp: Add_double_def t_def Add_real_def)
  ultimately show ?case using writes_scalar by blast
next
  case (WArray s xs)
  have "\<exists>v t. write_document lib (WArray s xs) w = Some v \<and> wrote w t v \<and> json_text (document_json lib (WArray s xs)) t"
    if w: "good_layout w" "0 \<le> m_nLevel w" "m_nLevel w + int (nesting (WArray s xs)) < 2 ^ 31" for w
  proof -
    let ?w = "if s then SetNewline False w else w"
    have w': "good_layout ?w" "0 \<le> m_nLevel ?w" "m_nLevel ?w + 1 < 2 ^ 31"
      using w by (auto simp: good_layout_def SetNewline_def)
    have "\<exists>x. write_elements lib xs v = Some x \<and> wrote_children False (json_elements (map (document_json lib) xs)) xs v x"
      if v: "in_container False v" "good_layout v" "m_nLevel v = m_nLevel ?w + 1" for v
    proof (rule write_elements_result)
      show "\<forall>x\<in>set xs. m_nLevel v + int (nesting x) < 2 ^ 31"
        using nesting_children(1) [of _ xs] v(3) w(3) by (fastforce simp: SetNewline_def)
    qed (use v w WArray in \<open>auto simp: SetNewline_def list_all_iff\<close>)
    then obtain v x t where x: "StartArr ?w = Some v" "(do { x \<leftarrow> write_elements lib xs v; EndArr x }) = Some x" "wrote ?w t x"
      "json_text (JArray (map (document_json lib) xs)) t"
      using write_array [OF w', of "write_elements lib xs" "map (document_json lib) xs" xs] by auto
    let ?x = "if s then SetNewline (m_bNewLineEnabled w) x else x"
    have "write_document lib (WArray s xs) w = Some ?x"
      using x(1,2) by (auto simp: ArrayContext_def end_ArrayContext_def GetNewLine_def Let_def bind_eq_Some_conv split: if_splits)
    moreover have "wrote w t ?x"
      using x(3) by (auto simp: wrote_def is_separator_def same_layout_def states_after_def SetNewline_def split: if_splits)
    ultimately show ?thesis using x(4) by auto
  qed
  then show ?case unfolding writes_value_def by blast
next
  case (WObject ms)
  have "\<exists>v t. write_document lib (WObject ms) w = Some v \<and> wrote w t v \<and> json_text (document_json lib (WObject ms)) t"
    if w: "good_layout w" "0 \<le> m_nLevel w" "m_nLevel w + int (nesting (WObject ms)) < 2 ^ 31" for w
  proof -
    have w': "m_nLevel w + 1 < 2 ^ 31" using w(3) by simp
    have "\<exists>x. write_members lib ms v = Some x \<and>
        wrote_children True (json_members (map (\<lambda>(k, x). (k, document_json lib x)) ms)) ms v x"
      if v: "in_container True v" "good_layout v" "m_nLevel v = m_nLevel w + 1" for v
    proof (rule write_members_result)
      show "\<forall>(k, x)\<in>set ms. m_nLevel v + int (nesting x) < 2 ^ 31"
        using nesting_children(2) [of _ _ ms] v(3) w(3) by fastforce
      show "\<forall>(k, x)\<in>set ms. writes_value lib x" using WObject by (fastforce simp: snds.simps list_all_iff)
    qed (use v w in auto)
    then obtain v x t where x: "StartObj w = Some v" "(do { x \<leftarrow> write_members lib ms v; EndObj x }) = Some x" "wrote w t x"
      "json_text (JObject (map (\<lambda>(k, x). (k, document_json lib x)) ms)) t"
      using write_object [OF w(1,2) w', of "write_members lib ms" "map (\<lambda>(k, x). (k, document_json lib x)) ms" ms] by auto
    then show ?thesis by auto
  qed
  then show ?case unfolding writes_value_def by blast
qed

text \<open>A writer as a client sets it up, and the document written with it.\<close>

definition write_whole :: "'d float_library \<Rightarrow> bool \<Rightarrow> int \<Rightarrow> bool \<Rightarrow> bool \<Rightarrow> 'd document \<Rightarrow> json_writer option" where
  "write_whole lib f nSpaces bPretty bNewLine x = do {
     w \<leftarrow> SetIndentationSize nSpaces (CPLJSonStreamingWriter f);
     w \<leftarrow> write_document lib x (SetNewline bNewLine (SetPrettyFormatting bPretty w));
     destroy_writer w;
     Some w
   }"

lemma write_whole_text:
  assumes "prints_g lib" "precisions_ok x" "nesting x < 2 ^ 31 - 1" "0 \<le> n"
  shows "\<exists>w. write_whole lib f n pretty nl x = Some w \<and> json_text (document_json lib x) (writer_output w)"
proof -
  let ?w = "SetNewline nl (SetPrettyFormatting pretty ((CPLJSonStreamingWriter f)\<lparr>m_osIndent := replicate (nat n) CHR '' ''\<rparr>))"
  have set: "SetIndentationSize n (CPLJSonStreamingWriter f) =
      Some ((CPLJSonStreamingWriter f)\<lparr>m_osIndent := replicate (nat n) CHR '' ''\<rparr>)"
    using assms(4) by (simp add: SetIndentationSize_def CPLJSonStreamingWriter_def)
  have "good_layout ?w" "0 \<le> m_nLevel ?w" "m_nLevel ?w + int (nesting x) < 2 ^ 31"
    using assms(3) by (auto simp: good_layout_def SetNewline_def SetPrettyFormatting_def CPLJSonStreamingWriter_def json_space_def)
  then obtain v t where v: "write_document lib x ?w = Some v" "wrote ?w t v" "json_text (document_json lib x) t"
    using writes_valueD [OF write_document_result [OF assms(1,2)]] by blast
  have "writer_output ?w = []" "m_states ?w = []" "m_nLevel ?w = 0"
    by (simp_all add: writer_output_def SetNewline_def SetPrettyFormatting_def CPLJSonStreamingWriter_def)
  then show ?thesis
    using v set by (auto simp: write_whole_def wrote_def is_separator_def destroy_writer_def same_layout_def states_after_def)
qed


text \<open>A C library for the witnesses: numbers are integers of 64 bits, printed in decimal.\<close>

definition integer_library :: "64 word float_library" where
  "integer_library = \<lparr>is_nan = (\<lambda>x. False), is_inf = (\<lambda>x. False), is_positive = (\<lambda>x. 0 < sint x),
     printf_real = (\<lambda>f x. Some (c_decimal (sint x)))\<rparr>"

lemma prints_integers: "prints_g integer_library"
proof -
  have g: "g_text (c_decimal i)" for i
    unfolding g_text_def using c_nat_decimal_chars [of "nat i"] c_nat_decimal_chars [of "nat (- i)"]
    by (intro exI [of _ "if i < 0 then ''-'' else []"] exI [of _ "c_nat_decimal (nat \<bar>i\<bar>)"] exI [of _ "[]"])
      (auto simp: c_decimal_def decimal_digits_def)
  have "length (c_decimal (sint x)) \<le> 1000" for x :: "64 word"
  proof -
    have "- (2 ^ 63) \<le> sint x" "sint x < 2 ^ 63" using sint_lt [of x] sint_ge [of x] by simp_all
    then have "\<bar>sint x\<bar> < 10 ^ 20" by simp
    then show ?thesis using c_decimal_length [of "sint x"] by linarith
  qed
  then show ?thesis using g by (simp add: prints_g_def integer_library_def)
qed

lemma integer_text: "document_json integer_library (WReal 7 18) = JNumber ''7''"
  by code_simp


text \<open>C7: What the writer writes the parser reads: the output for a document, with any setting of the
  writer, makes the parser call exactly the methods for the tree of the document.  Beyond the conditions of C6
  (nesting, precisions, the C library), the document must respect the limits set in the parser: arrays and objects
  are nested less deep than its maximum depth, keys and strings are shorter than its maximum string size, and a
  printed number has at most 1024 characters.\<close>

theorem writer_parser_roundtrip:
  assumes "prints_g lib" "precisions_ok x" "nesting x < 2 ^ 31 - 1" "0 \<le> nSpaces"
    and "json_fits (d - 1) m (document_json lib x)"
  shows "\<exists>w q. write_whole lib f nSpaces bPretty bNewLine x = Some w \<and>
    Parse (SetMaxStringSize m (SetMaxDepth d CPLJSonStreamingParser)) (writer_output w) True = Some (q, True) \<and>
    calls q = json_calls (document_json lib x)"
proof -
  obtain w where w: "write_whole lib f nSpaces bPretty bNewLine x = Some w" "json_text (document_json lib x) (writer_output w)"
    using write_whole_text [OF assms(1-4)] by blast
  then show ?thesis using Parse_new_document [OF w(2) _ _ assms(5), of "[]" "[]"] by auto
qed

theorem writer_parser_roundtrip_witness:
  "\<exists>w q. write_whole integer_library True 3 True False (WObject [(''a'', WArray True [WReal 7 18, WString [CHR 0x0a]])]) = Some w \<and>
    Parse (SetMaxStringSize 2 (SetMaxDepth 3 CPLJSonStreamingParser)) (writer_output w) True = Some (q, True) \<and>
    calls q = [StartObject, StartObjectMember ''a'', StartArray, StartArrayMember, Number ''7'', StartArrayMember,
      String [CHR 0x0a], EndArray, EndObject]"
  using writer_parser_roundtrip [OF prints_integers,
      of "WObject [(''a'', WArray True [WReal 7 18, WString [CHR 0x0a]])]" 3 3 2 True True False]
  by (simp add: integer_text del: document_json.simps(6))

lemma GetSerializedString_loop_result:
  "0 \<le> i \<Longrightarrow> i + int (length (c_str s)) < 2 ^ 31 \<Longrightarrow> GetSerializedString_loop i s = Some (concat (map format_char (c_str s)))"
proof (induction s arbitrary: i)
  case (Cons ch s)
  show ?case
  proof (cases "ch = NUL")
    case False
    then have "c_str (ch # s) = ch # c_str s" by (simp add: c_str_def)
    moreover from this have "c_int (i + 1) = Some (i + 1)" "GetSerializedString_loop (i + 1) s = Some (concat (map format_char (c_str s)))"
      using Cons.prems Cons.IH [of "i + 1"] by (simp_all add: c_int_def)
    ultimately show ?thesis using False by (simp add: format_char_def [of ch])
  qed (simp add: c_str_def)
qed (simp add: c_str_def)

lemma GetSerializedString_eq: "length (c_str s) < 2 ^ 31 \<Longrightarrow> GetSerializedString s = Some (FormatString (c_str s))"
  using GetSerializedString_loop_result [of 0 s] by (simp add: GetSerializedString_def FormatString_eq)

text \<open>C8: GetSerializedString serialises a string of less than 2^31 bytes exactly as the writer does, and when the string
  is shorter than the maximum string size of the parser, the parser reads the text back as the string, whatever bytes
  stand before its terminator.\<close>

theorem GetSerializedString_parses:
  assumes "length (c_str s) < 2 ^ 31" "length (c_str s) < m"
  shows "GetSerializedString s = Some (FormatString (c_str s)) \<and>
    (\<exists>q. Parse (SetMaxStringSize m CPLJSonStreamingParser) (FormatString (c_str s)) True = Some (q, True) \<and>
      calls q = [String (c_str s)])"
proof -
  have "json_text (JString (c_str s)) (FormatString (c_str s))"
    using text_string [of "c_str s" "concat (map format_char (c_str s))"] format_chars [of "c_str s"]
    by (simp add: FormatString_eq)
  moreover have "SetMaxDepth 1024 CPLJSonStreamingParser = CPLJSonStreamingParser"
    by (simp add: SetMaxDepth_def CPLJSonStreamingParser_def)
  ultimately show ?thesis
    using Parse_new_document [of "JString (c_str s)" "FormatString (c_str s)" "[]" "[]" 1024 m] assms
    by (simp add: GetSerializedString_eq)
qed

theorem GetSerializedString_parses_witness:
  "\<exists>t q. GetSerializedString [CHR 0x22, CHR 0x01] = Some t \<and>
    Parse (SetMaxStringSize 3 CPLJSonStreamingParser) t True = Some (q, True) \<and> calls q = [String [CHR 0x22, CHR 0x01]]"
proof -
  have "c_str [CHR 0x22, CHR 0x01] = [CHR 0x22, CHR 0x01]" by (simp add: c_str_def)
  then show ?thesis using GetSerializedString_parses [of "[CHR 0x22, CHR 0x01]" 3] by auto
qed

end
