(* ===== verification/Paths.thy ===== *)
theory Paths
  imports StrUtil CslNames Printf
begin

section \<open>File names (port/cpl_path.cpp)\<close>

text \<open>
  Most functions of this file copy their result into one of ten static buffers of 2048 characters.
  Here such a function gets the buffer that CPLGetStaticResult hands out (\<open>None\<close> when there is no
  memory for it) with whatever characters it holds, works on it with the checked copies of StrUtil, and
  gives the string it ends up with.  The arguments do not lie in that buffer, which the code asserts.
  The sources are those of a system with \<open>/\<close> as separator (not WIN32); configuration options, the
  process number and the file system are parameters of the functions that ask for them.
\<close>

subsection \<open>Buffers\<close>

definition CPL_PATH_BUF_SIZE :: nat where "CPL_PATH_BUF_SIZE = 2048"
definition CPL_PATH_BUF_COUNT :: nat where "CPL_PATH_BUF_COUNT = 10"
definition SEP_STRING :: string where "SEP_STRING = ''/''"

text \<open>The ring of buffers: \<open>*pnBufIndex\<close> and the buffers behind it.\<close>

record path_ring =
  bufIndex :: nat
  bufs :: "string list"

definition CPLGetStaticResult :: "path_ring option \<Rightarrow> (path_ring \<times> nat) option" where
  "CPLGetStaticResult ring =
     (case ring of
        None \<Rightarrow> None
      | Some r \<Rightarrow> Some (r\<lparr>bufIndex := (bufIndex r + 1) mod CPL_PATH_BUF_COUNT\<rparr>, bufIndex r))"

text \<open>The error is reported and the result is the empty string, in the buffer or as a literal.\<close>

definition CPLStaticBufferTooSmall :: "string option \<Rightarrow> string option" where
  "CPLStaticBufferTooSmall pszStaticResult =
     (case pszStaticResult of
        None \<Rightarrow> Some []
      | Some b \<Rightarrow> map_option c_str (arr_set b 0 NUL))"

subsection \<open>Parts of a name\<close>

definition is_slash :: "char \<Rightarrow> bool" where
  "is_slash c \<longleftrightarrow> c = CHR ''/'' \<or> c = CHR 0x5c"

fun FilenameStart_loop :: "string \<Rightarrow> nat \<Rightarrow> nat" where
  "FilenameStart_loop pszFilename 0 = 0"
| "FilenameStart_loop pszFilename (Suc i) =
     (if is_slash (c_at pszFilename i) then Suc i else FilenameStart_loop pszFilename i)"

definition CPLFindFilenameStart :: "string \<Rightarrow> int" where
  "CPLFindFilenameStart pszFilename = size_to_int (FilenameStart_loop pszFilename (length pszFilename))"

text \<open>The part before the last separator; \<open>none\<close> is the result for a name without one.\<close>

definition path_before :: "string \<Rightarrow> string option \<Rightarrow> string \<Rightarrow> string option" where
  "path_before none pszStaticResult pszFilename =
     (let iFileStart = CPLFindFilenameStart pszFilename in
      case pszStaticResult of
        None \<Rightarrow> CPLStaticBufferTooSmall None
      | Some b \<Rightarrow>
          if iFileStart \<ge> int CPL_PATH_BUF_SIZE then CPLStaticBufferTooSmall (Some b)
          else if iFileStart = 0 then do {
            (b, _) \<leftarrow> CPLStrlcpy b none (length none + 1);
            Some (c_str b)
          } else do {
            (b, _) \<leftarrow> CPLStrlcpy b pszFilename (int_to_size (iFileStart + 1));
            b \<leftarrow> (if iFileStart > 1 then do {
                   c \<leftarrow> arr_get b (iFileStart - 1);
                   if is_slash c then arr_set b (iFileStart - 1) NUL else Some b
                 } else Some b);
            Some (c_str b)
          })"

definition CPLGetPath :: "string option \<Rightarrow> string \<Rightarrow> string option" where
  "CPLGetPath = path_before []"

definition CPLGetDirname :: "string option \<Rightarrow> string \<Rightarrow> string option" where
  "CPLGetDirname = path_before ''.''"

definition CPLGetFilename :: "string \<Rightarrow> string option" where
  "CPLGetFilename pszFullFilename =
     (let iFileStart = CPLFindFilenameStart pszFullFilename
      in if iFileStart < 0 then None else Some (drop (nat iFileStart) pszFullFilename))"

text \<open>\<open>for (; iExtStart > iFileStart && psz[iExtStart] != '.'; iExtStart--)\<close>\<close>

fun ExtStart_loop :: "string \<Rightarrow> nat \<Rightarrow> nat \<Rightarrow> nat" where
  "ExtStart_loop s iFileStart 0 = 0"
| "ExtStart_loop s iFileStart (Suc i) =
     (if iFileStart < Suc i \<and> c_at s (Suc i) \<noteq> CHR ''.'' then ExtStart_loop s iFileStart i else Suc i)"

definition CPLGetBasename :: "string option \<Rightarrow> string \<Rightarrow> string option" where
  "CPLGetBasename pszStaticResult pszFullFilename =
     (let iFileStart = int_to_size (CPLFindFilenameStart pszFullFilename) in
      case pszStaticResult of
        None \<Rightarrow> CPLStaticBufferTooSmall None
      | Some b \<Rightarrow>
          let e = ExtStart_loop pszFullFilename iFileStart (length pszFullFilename);
              iExtStart = (if e = iFileStart then length pszFullFilename else e)
          in if iExtStart < iFileStart then None
             else let nLength = iExtStart - iFileStart in
               if nLength \<ge> CPL_PATH_BUF_SIZE then CPLStaticBufferTooSmall (Some b)
               else do {
                 (b, _) \<leftarrow> CPLStrlcpy b (drop iFileStart pszFullFilename) (nLength + 1);
                 Some (c_str b)
               })"

definition knMaxExtensionSize :: nat where "knMaxExtensionSize = 10"

definition CPLGetExtension :: "string option \<Rightarrow> string \<Rightarrow> string option" where
  "CPLGetExtension pszStaticResult pszFullFilename =
     (if pszFullFilename = [] then Some []
      else let iFileStart = int_to_size (CPLFindFilenameStart pszFullFilename) in
        case pszStaticResult of
          None \<Rightarrow> CPLStaticBufferTooSmall None
        | Some b \<Rightarrow>
            let e = ExtStart_loop pszFullFilename iFileStart (length pszFullFilename);
                iExtStart = (if e = iFileStart then length pszFullFilename - 1 else e)
            in if iExtStart \<ge> length pszFullFilename then None
               else if length (drop (iExtStart + 1) pszFullFilename) > knMaxExtensionSize then Some []
               else do {
                 (b, n) \<leftarrow> CPLStrlcpy b (drop (iExtStart + 1) pszFullFilename) CPL_PATH_BUF_SIZE;
                 if n \<ge> CPL_PATH_BUF_SIZE then CPLStaticBufferTooSmall (Some b) else Some (c_str b)
               })"

text \<open>The loop that cuts an extension off, from the last character down to the second.\<close>

fun ResetExtension_loop :: "string \<Rightarrow> nat \<Rightarrow> string option" where
  "ResetExtension_loop b 0 = Some b"
| "ResetExtension_loop b (Suc i) = do {
     c \<leftarrow> arr_get b (int (Suc i));
     if c = CHR ''.'' then arr_set b (int (Suc i)) NUL
     else if is_slash c \<or> c = CHR '':'' then Some b
     else ResetExtension_loop b i
   }"

text \<open>A chain of CPLStrlcat joined by \<open>||\<close>: it stops at the first that does not fit.\<close>

fun cat_all :: "string \<Rightarrow> string list \<Rightarrow> (string \<times> bool) option" where
  "cat_all b [] = Some (b, False)"
| "cat_all b (s # ss) = do {
     (b, n) \<leftarrow> CPLStrlcat b s CPL_PATH_BUF_SIZE;
     if n \<ge> CPL_PATH_BUF_SIZE then Some (b, True) else cat_all b ss
   }"

definition cat_result :: "string \<Rightarrow> string list \<Rightarrow> string option" where
  "cat_result b ss = do {
     (b, full) \<leftarrow> cat_all b ss;
     if full then CPLStaticBufferTooSmall (Some b) else Some (c_str b)
   }"

definition CPLResetExtension :: "string option \<Rightarrow> string \<Rightarrow> string \<Rightarrow> string option" where
  "CPLResetExtension pszStaticResult pszPath pszExt =
     (case pszStaticResult of
        None \<Rightarrow> CPLStaticBufferTooSmall None
      | Some b \<Rightarrow> do {
          (b, n) \<leftarrow> CPLStrlcpy b pszPath CPL_PATH_BUF_SIZE;
          if n \<ge> CPL_PATH_BUF_SIZE then CPLStaticBufferTooSmall (Some b)
          else do {
            b \<leftarrow> (if c_str b = [] then Some b else ResetExtension_loop b (length (c_str b) - 1));
            cat_result b [''.'', pszExt]
          }
        })"

subsection \<open>Joining parts\<close>

definition STARTS_WITH :: "string \<Rightarrow> string \<Rightarrow> bool" where
  "STARTS_WITH a b \<longleftrightarrow> take (length b) a = b"

definition CPLIsFilenameRelative :: "string \<Rightarrow> bool" where
  "CPLIsFilenameRelative s \<longleftrightarrow> \<not>
     (s \<noteq> [] \<and> (STARTS_WITH (tl s) [CHR '':'', CHR 0x5c] \<or> STARTS_WITH (tl s) '':/'' \<or> c_strstr (tl s) ''://'') \<or>
      STARTS_WITH s [CHR 0x5c, CHR 0x5c, CHR ''?'', CHR 0x5c] \<or> c_at s 0 = CHR 0x5c \<or> c_at s 0 = CHR ''/'')"

text \<open>What CPLFormFilename makes of the path: the number of its characters used, the base name, and the
  separator to add.\<close>

definition form_dir :: "string \<Rightarrow> string \<Rightarrow> (nat \<times> string \<times> string) option" where
  "form_dir pszPath pszBasename =
     (let nLenPath = length pszPath in
      if \<not> CPLIsFilenameRelative pszPath \<and> pszBasename = ''..'' then do {
        c \<leftarrow> arr_get pszPath (int nLenPath - 1);
        let nLenPathOri = (if is_slash c then nLenPath - 1 else nLenPath);
        let nLenPath = FilenameStart_loop pszPath nLenPathOri;
        Some (if nLenPath = 1 \<and> c_at pszPath 0 = CHR ''/'' then (nLenPath, [], [])
              else if nLenPath > 1 \<and> c_at pszPath 0 = CHR ''/'' \<or> nLenPath > 2 \<and> c_at pszPath 1 = CHR '':'' \<or>
                nLenPath > 6 \<and> STARTS_WITH pszPath [CHR 0x5c, CHR 0x5c, CHR ''$'', CHR 0x5c]
              then (nLenPath - 1, [], [])
              else (nLenPathOri, pszBasename, SEP_STRING))
      } else if nLenPath > 0 \<and> \<not> is_slash (c_at pszPath (nLenPath - 1)) then Some (nLenPath, pszBasename, SEP_STRING)
      else Some (nLenPath, pszBasename, []))"

text \<open>NULL for the path or the extension is \<open>None\<close>.\<close>

definition CPLFormFilename :: "string option \<Rightarrow> string option \<Rightarrow> string \<Rightarrow> string option \<Rightarrow> string option" where
  "CPLFormFilename pszStaticResult pszPath pszBasename pszExtension =
     (case pszStaticResult of
        None \<Rightarrow> CPLStaticBufferTooSmall None
      | Some b \<Rightarrow> do {
          let pszBasename = (if c_at pszBasename 0 = CHR ''.'' \<and> is_slash (c_at pszBasename 1)
                             then drop 2 pszBasename else pszBasename);
          let pszPath = (case pszPath of None \<Rightarrow> [] | Some p \<Rightarrow> p);
          (nLenPath, pszBasename, pszAddedPathSep) \<leftarrow> form_dir pszPath pszBasename;
          let (pszAddedExtSep, pszExtension) =
            (case pszExtension of
               None \<Rightarrow> ([], [])
             | Some e \<Rightarrow> if c_at e 0 \<noteq> CHR ''.'' \<and> e \<noteq> [] then (''.'', e) else ([], e));
          (b, n) \<leftarrow> CPLStrlcpy b pszPath (min (nLenPath + 1) CPL_PATH_BUF_SIZE);
          if n \<ge> CPL_PATH_BUF_SIZE then CPLStaticBufferTooSmall (Some b)
          else cat_result b [pszAddedPathSep, pszBasename, pszAddedExtSep, pszExtension]
        })"

definition CPLProjectRelativeFilename :: "string option \<Rightarrow> string option \<Rightarrow> string \<Rightarrow> string option" where
  "CPLProjectRelativeFilename pszStaticResult pszProjectDir pszSecondaryFilename =
     (case pszStaticResult of
        None \<Rightarrow> CPLStaticBufferTooSmall None
      | Some b \<Rightarrow>
          if \<not> CPLIsFilenameRelative pszSecondaryFilename then Some pszSecondaryFilename
          else case pszProjectDir of
              None \<Rightarrow> Some pszSecondaryFilename
            | Some dir \<Rightarrow>
                if dir = [] then Some pszSecondaryFilename
                else do {
                  (b, n) \<leftarrow> CPLStrlcpy b dir CPL_PATH_BUF_SIZE;
                  if n \<ge> CPL_PATH_BUF_SIZE then CPLStaticBufferTooSmall (Some b)
                  else cat_result b
                    ((if is_slash (c_at dir (length dir - 1)) then [] else [SEP_STRING]) @ [pszSecondaryFilename])
                })"

text \<open>The result and \<open>*pbGotRelative\<close>.\<close>

definition CPLExtractRelativePath :: "string option \<Rightarrow> string \<Rightarrow> string \<times> bool" where
  "CPLExtractRelativePath pszBaseDir pszTarget =
     (case pszBaseDir of
        None \<Rightarrow> (pszTarget, False)
      | Some base \<Rightarrow>
          if (base = [] \<or> EQUAL base ''.'') \<and> CPLIsFilenameRelative pszTarget then (pszTarget, True)
          else if base = [] then (pszTarget, False)
          else if \<not> EQUALN base pszTarget (length base) \<or> \<not> is_slash (c_at pszTarget (length base)) then (pszTarget, False)
          else (drop (length base + 1) pszTarget, True))"

definition CPLCleanTrailingSlash :: "string option \<Rightarrow> string \<Rightarrow> string option" where
  "CPLCleanTrailingSlash pszStaticResult pszPath =
     (case pszStaticResult of
        None \<Rightarrow> CPLStaticBufferTooSmall None
      | Some b \<Rightarrow>
          let iPathLength = length pszPath in
          if iPathLength \<ge> CPL_PATH_BUF_SIZE then CPLStaticBufferTooSmall (Some b)
          else do {
            (b, _) \<leftarrow> CPLStrlcpy b pszPath (iPathLength + 1);
            b \<leftarrow> (if iPathLength > 0 then do {
                   c \<leftarrow> arr_get b (int iPathLength - 1);
                   if is_slash c then arr_set b (int iPathLength - 1) NUL else Some b
                 } else Some b);
            Some (c_str b)
          })"

subsection \<open>Lists of files and other names\<close>

text \<open>Whether a source file follows the naming of the file set: the loop that verifies the base names.\<close>

definition regular_name :: "string option \<Rightarrow> string \<Rightarrow> string \<Rightarrow> string \<Rightarrow> bool option" where
  "regular_name buf osOldPath osOldBasename f = do {
     base \<leftarrow> CPLGetBasename buf f;
     if osOldBasename = base then Some True
     else do {
       osFilePath \<leftarrow> CPLGetPath buf f;
       osFileName \<leftarrow> CPLGetFilename f;
       Some (EQUALN osFileName osOldBasename (length osOldBasename) \<and> EQUAL osFilePath osOldPath \<and>
         c_at osFileName (length osOldBasename) = CHR ''.'')
     }
   }"

fun regular_names :: "string option \<Rightarrow> string \<Rightarrow> string \<Rightarrow> string list \<Rightarrow> bool option" where
  "regular_names buf osOldPath osOldBasename [] = Some True"
| "regular_names buf osOldPath osOldBasename (f # fs) = do {
     ok \<leftarrow> regular_name buf osOldPath osOldBasename f;
     if ok then regular_names buf osOldPath osOldBasename fs else Some False
   }"

text \<open>A pointer into a string, moved by \<open>n\<close> characters.\<close>

definition ptr_add :: "string \<Rightarrow> nat \<Rightarrow> string option" where
  "ptr_add s n = (if n \<le> length s then Some (drop n s) else None)"

fun new_names :: "string option \<Rightarrow> string \<Rightarrow> string \<Rightarrow> string \<Rightarrow> string list \<Rightarrow> csl \<Rightarrow> csl option" where
  "new_names buf osNewPath osOldBasename osNewBasename [] papszNewList = Some papszNewList"
| "new_names buf osNewPath osOldBasename osNewBasename (f # fs) papszNewList = do {
     osOldFilename \<leftarrow> CPLGetFilename f;
     osNewFilename \<leftarrow>
       (if osOldBasename = osNewBasename then CPLFormFilename buf (Some osNewPath) osOldFilename None
        else do {
          rest \<leftarrow> ptr_add osOldFilename (length osOldBasename);
          CPLFormFilename buf (Some osNewPath) osNewBasename (Some rest)
        });
     new_names buf osNewPath osOldBasename osNewBasename fs (CSLAddString papszNewList (Some osNewFilename))
   }"

text \<open>The outer option is undefined behaviour; the inner \<open>None\<close> is NULL, with an error reported unless
  the list is empty.\<close>

definition CPLCorrespondingPaths :: "string option \<Rightarrow> string \<Rightarrow> string \<Rightarrow> csl \<Rightarrow> csl option" where
  "CPLCorrespondingPaths buf pszOldFilename pszNewFilename papszFileList =
     (let fs = strings_of papszFileList in
      if CSLCount papszFileList = 0 then Some None
      else if CSLCount papszFileList = 1 \<and> [pszOldFilename] = fs then Some (CSLAddString None (Some pszNewFilename))
      else do {
        osOldPath \<leftarrow> CPLGetPath buf pszOldFilename;
        osOldBasename \<leftarrow> CPLGetBasename buf pszOldFilename;
        osNewBasename \<leftarrow> CPLGetBasename buf pszNewFilename;
        regular \<leftarrow> (if osOldBasename \<noteq> osNewBasename then regular_names buf osOldPath osOldBasename fs else Some True);
        if \<not> regular then Some None
        else do {
          same \<leftarrow> (if osOldBasename \<noteq> osNewBasename then do {
                    old \<leftarrow> CPLGetFilename pszOldFilename;
                    osOldExtra \<leftarrow> ptr_add old (length osOldBasename);
                    new \<leftarrow> CPLGetFilename pszNewFilename;
                    osNewExtra \<leftarrow> ptr_add new (length osNewBasename);
                    Some (osOldExtra = osNewExtra)
                  } else Some True);
          if \<not> same then Some None
          else do {
            osNewPath \<leftarrow> CPLGetPath buf pszNewFilename;
            new_names buf osNewPath osOldBasename osNewBasename fs None
          }
        }
      })"

text \<open>Case-insensitive opening: the file system says whether it distinguishes case and which names exist.
  The name is tried as given, in upper case and in lower case.\<close>

definition c_islower :: "char \<Rightarrow> bool" where "c_islower c \<longleftrightarrow> 97 \<le> ccode c \<and> ccode c \<le> 122"
definition c_isupper :: "char \<Rightarrow> bool" where "c_isupper c \<longleftrightarrow> 65 \<le> ccode c \<and> ccode c \<le> 90"

definition c_toupper :: "char \<Rightarrow> char" where
  "c_toupper c = (if c_islower c then char_of (ccode c - 32) else c)"

definition CPLFormCIFilename ::
  "bool \<Rightarrow> (string \<Rightarrow> bool) \<Rightarrow> string option \<Rightarrow> string option \<Rightarrow> string \<Rightarrow> string option \<Rightarrow> string option" where
  "CPLFormCIFilename case_sensitive exists_file buf pszPath pszBasename pszExtension =
     (if \<not> case_sensitive then CPLFormFilename buf pszPath pszBasename pszExtension
      else do {
        let (pszAddedExtSep, ext) =
          (case pszExtension of
             None \<Rightarrow> ([], [])
           | Some e \<Rightarrow> if c_at e 0 \<noteq> CHR ''.'' \<and> e \<noteq> [] then (''.'', e) else ([], e));
        let pszFilename = pszBasename @ pszAddedExtSep @ ext;
        let upper = map (\<lambda>c. if c_islower c then c_toupper c else c) pszFilename;
        let lower = map (\<lambda>c. if c_isupper c then c_tolower c else c) upper;
        as_is \<leftarrow> CPLFormFilename buf pszPath pszFilename None;
        if exists_file as_is then Some as_is
        else do {
          up \<leftarrow> CPLFormFilename buf pszPath upper None;
          if exists_file up then Some up
          else do {
            low \<leftarrow> CPLFormFilename buf pszPath lower None;
            if exists_file low then Some low else CPLFormFilename buf pszPath pszBasename pszExtension
          }
        }
      })"

definition CPLGenerateTempFilename ::
  "(string \<Rightarrow> string option) \<Rightarrow> int \<Rightarrow> string option \<Rightarrow> int \<Rightarrow> string option \<Rightarrow> string option" where
  "CPLGenerateTempFilename CPLGetConfigOption pid buf counter pszStem =
     (let pszDir = (case CPLGetConfigOption ''CPL_TMPDIR'' of
                      Some d \<Rightarrow> d
                    | None \<Rightarrow> (case CPLGetConfigOption ''TMPDIR'' of
                        Some d \<Rightarrow> d
                      | None \<Rightarrow> (case CPLGetConfigOption ''TEMP'' of Some d \<Rightarrow> d | None \<Rightarrow> ''.'')));
          stem = (case pszStem of None \<Rightarrow> [] | Some s \<Rightarrow> s)
      in CPLFormFilename buf (Some pszDir) (stem @ ''_'' @ c_decimal pid @ ''_'' @ c_decimal counter) None)"

definition CPLGetHomeDir :: "(string \<Rightarrow> string option) \<Rightarrow> string option" where
  "CPLGetHomeDir CPLGetConfigOption = CPLGetConfigOption ''HOME''"

definition CPLExpandTilde :: "(string \<Rightarrow> string option) \<Rightarrow> string option \<Rightarrow> string \<Rightarrow> string option" where
  "CPLExpandTilde CPLGetConfigOption buf pszFilename =
     (if \<not> STARTS_WITH_CI pszFilename ''~/'' then Some pszFilename
      else case CPLGetConfigOption ''HOME'' of
          None \<Rightarrow> Some pszFilename
        | Some pszHome \<Rightarrow> CPLFormFilename buf (Some pszHome) (drop 2 pszFilename) None)"

text \<open>CPLSPrintf keeps what fits its buffer with two characters to spare.\<close>

definition CPLLaunderForFilename :: "string \<Rightarrow> string" where
  "CPLLaunderForFilename pszName =
     take (CPLSPrintf_BUF_SIZE - 2) (map (\<lambda>ch. if ch \<in> {CHR ''<'', CHR ''>'', CHR '':'', CHR 0x22, CHR ''/'', CHR 0x5c, CHR ''?'', CHR ''*''}
               then CHR ''_'' else ch) pszName)"


subsection \<open>Buffers that hold a string\<close>

definition holds :: "string \<Rightarrow> string \<Rightarrow> bool" where
  "holds b d \<longleftrightarrow> c_string d \<and> (\<exists>m. b = d @ NUL # m)"

lemma c_str_holds: "holds b d \<Longrightarrow> c_str b = d"
  by (auto simp: holds_def c_str_def c_string_def takeWhile_stop)

lemma strcpy_holds:
  assumes "c_string s" "0 < n" "n \<le> length b"
  obtains b' where "CPLStrlcpy b s n = Some (b', length s)" "holds b' (take (n - 1) s)" "length b' = length b"
proof -
  have "CPLStrlcpy b s n = Some (take (n - 1) s @ NUL # drop (min n (length s + 1)) b, length s)"
    using CPLStrlcpy_at_result [OF assms(1,2), of b "[]"] assms(3) by (simp add: CPLStrlcpy_def)
  moreover have "holds (take (n - 1) s @ NUL # drop (min n (length s + 1)) b) (take (n - 1) s)"
    using assms(1) by (auto simp: holds_def c_string_def dest: in_set_takeD)
  moreover have "length (take (n - 1) s @ NUL # drop (min n (length s + 1)) b) = length b"
    using assms(2,3) by auto
  ultimately show thesis using that by blast
qed

lemma strcat_holds:
  assumes "holds b d" "c_string s" "length d < n" "n \<le> length b"
  obtains b' where "CPLStrlcat b s n = Some (b', length d + length s)" "holds b' (take (n - 1) (d @ s))" "length b' = length b"
proof -
  obtain m where b: "b = d @ NUL # m" and d: "c_string d" using assms(1) by (auto simp: holds_def)
  have "CPLStrlcat_skip b 0 n = Some (length d, n - length d)"
    using CPLStrlcat_skip_result [of d n "[]" m] assms(3) d b by (simp add: c_string_def)
  moreover have "CPLStrlcpy_at b (int (length d)) s (n - length d) =
      Some (d @ take (n - length d - 1) s @ NUL # drop (min (n - length d) (length s + 1)) (NUL # m), length s)"
    unfolding b by (rule CPLStrlcpy_at_result [OF assms(2)]) (use assms(3,4) b in auto)
  ultimately have "CPLStrlcat b s n =
      Some (d @ take (n - length d - 1) s @ NUL # drop (min (n - length d) (length s + 1)) (NUL # m), length d + length s)"
    by (simp add: CPLStrlcat_def)
  moreover have t: "take (n - 1) (d @ s) = d @ take (n - length d - 1) s" using assms(3) by simp
  then have "holds (d @ take (n - length d - 1) s @ NUL # drop (min (n - length d) (length s + 1)) (NUL # m)) (take (n - 1) (d @ s))"
    using assms(2) d by (auto simp: holds_def c_string_def dest: in_set_takeD)
  moreover have "length (d @ take (n - length d - 1) s @ NUL # drop (min (n - length d) (length s + 1)) (NUL # m)) = length b"
    using assms(3,4) b by auto
  ultimately show thesis using that by blast
qed

lemma holds_cut: "holds b (d @ c # r) \<Longrightarrow> \<exists>b'. arr_set b (int (length d)) NUL = Some b' \<and> holds b' d \<and> length b' = length b"
  by (auto simp: holds_def c_string_def)

lemma holds_get: "holds b d \<Longrightarrow> i < length d \<Longrightarrow> arr_get b (int i) = Some (d ! i)"
  by (auto simp: holds_def arr_get_def nth_append)

lemma too_small: "b \<noteq> [] \<Longrightarrow> CPLStaticBufferTooSmall (Some b) = Some []"
  by (cases b) (auto simp: CPLStaticBufferTooSmall_def arr_set_def c_str_def)

lemma cat_all_holds:
  "holds b d \<Longrightarrow> length d < CPL_PATH_BUF_SIZE \<Longrightarrow> length b = CPL_PATH_BUF_SIZE \<Longrightarrow> \<forall>s\<in>set ss. c_string s \<Longrightarrow>
   cat_result b ss = Some (if length (d @ concat ss) < CPL_PATH_BUF_SIZE then d @ concat ss else [])"
proof (induction ss arbitrary: b d)
  case Nil
  then show ?case by (simp add: cat_result_def c_str_holds)
next
  case (Cons s ss)
  obtain b' where b': "CPLStrlcat b s CPL_PATH_BUF_SIZE = Some (b', length d + length s)"
    "holds b' (take (CPL_PATH_BUF_SIZE - 1) (d @ s))" "length b' = length b"
    using strcat_holds [of b d s CPL_PATH_BUF_SIZE] Cons.prems by auto
  show ?case
  proof (cases "length d + length s < CPL_PATH_BUF_SIZE")
    case True
    then have "cat_result b (s # ss) = cat_result b' ss" using b'(1) by (simp add: cat_result_def)
    also have "\<dots> = Some (if length ((d @ s) @ concat ss) < CPL_PATH_BUF_SIZE then (d @ s) @ concat ss else [])"
      by (rule Cons.IH) (use b' Cons.prems True in auto)
    finally show ?thesis by (simp add: add.assoc)
  next
    case False
    have "b' \<noteq> []" using b'(3) Cons.prems(2,3) by auto
    then show ?thesis using False b'(1) by (simp add: cat_result_def too_small)
  qed
qed

subsection \<open>The parts of a name\<close>

definition name_split :: "string \<Rightarrow> string \<Rightarrow> string \<Rightarrow> bool" where
  "name_split s d n \<longleftrightarrow> s = d @ n \<and> (d = [] \<or> is_slash (last d)) \<and> (\<forall>c\<in>set n. \<not> is_slash c)"

lemma name_split_exists: "\<exists>d n. name_split s d n"
proof -
  let ?n = "rev (takeWhile (\<lambda>c. \<not> is_slash c) (rev s))" and ?d = "rev (dropWhile (\<lambda>c. \<not> is_slash c) (rev s))"
  have "s = ?d @ ?n" by (simp flip: rev_append)
  moreover have "?d = [] \<or> is_slash (last ?d)" by (metis hd_dropWhile last_rev rev_is_Nil_conv)
  moreover have "\<forall>c\<in>set ?n. \<not> is_slash c" by (auto dest: set_takeWhileD)
  ultimately show ?thesis unfolding name_split_def by blast
qed

lemma FilenameStart_name: "name_split s d n \<Longrightarrow> FilenameStart_loop s (length s) = length d"
proof -
  assume s: "name_split s d n"
  have "k \<le> length n \<Longrightarrow> FilenameStart_loop s (length d + k) = length d" for k
  proof (induction k)
    case 0
    show ?case
    proof (cases d rule: rev_cases)
      case (snoc ys y)
      then show ?thesis using s by (simp add: name_split_def c_at_def nth_append)
    qed simp
  next
    case (Suc k)
    have "c_at s (length d + k) = n ! k" using s Suc.prems by (simp add: name_split_def c_at_def nth_append)
    moreover have "n ! k \<in> set n" using Suc.prems by simp
    ultimately show ?case using Suc s by (simp add: name_split_def)
  qed
  from this [of "length n"] s show ?thesis by (simp add: name_split_def)
qed

lemma CPLFindFilenameStart_name:
  "name_split s d n \<Longrightarrow> length s < 2 ^ 31 \<Longrightarrow> CPLFindFilenameStart s = int (length d)"
  using FilenameStart_name [of s d n] by (auto simp: CPLFindFilenameStart_def size_to_int_small name_split_def)


text \<open>The directory of a name: what stands before the last separator, or the root.\<close>

definition dir_of :: "string \<Rightarrow> string" where
  "dir_of d = (if length d \<le> 1 then d else butlast d)"

lemma path_before_name:
  assumes "name_split s d n" "c_string s" "length s < 2 ^ 31" "length b = CPL_PATH_BUF_SIZE" "c_string none" "length none < 8"
  shows "path_before none (Some b) s =
    Some (if CPL_PATH_BUF_SIZE \<le> length d then [] else if d = [] then none else dir_of d)"
proof -
  have start: "CPLFindFilenameStart s = int (length d)" by (rule CPLFindFilenameStart_name [OF assms(1,3)])
  have bne: "b \<noteq> []" using assms(4) by (auto simp: CPL_PATH_BUF_SIZE_def)
  consider (long) "CPL_PATH_BUF_SIZE \<le> length d" | (none) "d = []" | (some) "length d < CPL_PATH_BUF_SIZE" "d \<noteq> []"
    by fastforce
  then show ?thesis
  proof cases
    case long
    then show ?thesis using start bne by (simp add: path_before_def too_small)
  next
    case none
    obtain b' where "CPLStrlcpy b none (length none + 1) = Some (b', length none)" "holds b' none"
      using strcpy_holds [OF assms(5), of "length none + 1" b] assms(4,6) by (auto simp: CPL_PATH_BUF_SIZE_def)
    then show ?thesis using start none by (simp add: path_before_def c_str_holds CPL_PATH_BUF_SIZE_def)
  next
    case some
    have size: "int_to_size (int (length d) + 1) = length d + 1"
      using int_to_size_small [of "length d + 1"] some(1) by (simp add: CPL_PATH_BUF_SIZE_def add.commute)
    have d: "take (length d) s = d" using assms(1) by (simp add: name_split_def)
    obtain b' where b': "CPLStrlcpy b s (length d + 1) = Some (b', length s)" "holds b' d" "length b' = length b"
      using strcpy_holds [OF assms(2), of "length d + 1" b] some(1) assms(4) d by auto
    show ?thesis
    proof (cases "length d = 1")
      case True
      then show ?thesis using start size some b' by (simp add: path_before_def Let_def c_str_holds dir_of_def)
    next
      case False
      obtain x y where xy: "d = x @ [y]" using some(2) by (cases d rule: rev_cases) auto
      with False have x: "0 < length x" by (cases x) auto
      have y: "is_slash y" using assms(1) xy by (auto simp: name_split_def)
      have "arr_get b' (int (length x)) = Some y" using holds_get [OF b'(2), of "length x"] xy by simp
      moreover obtain b'' where "arr_set b' (int (length x)) NUL = Some b''" "holds b'' x"
        using holds_cut [of b' x y "[]"] b'(2) xy by auto
      ultimately show ?thesis using start size some b' xy x y
        by (simp add: path_before_def Let_def c_str_holds dir_of_def)
    qed
  qed
qed

lemma CPLGetFilename_name: "name_split s d n \<Longrightarrow> length s < 2 ^ 31 \<Longrightarrow> CPLGetFilename s = Some n"
  using CPLFindFilenameStart_name [of s d n] by (simp add: CPLGetFilename_def Let_def name_split_def)

text \<open>The extension starts behind the last dot, unless that is the first character.\<close>

definition ext_split :: "string \<Rightarrow> string \<Rightarrow> string option \<Rightarrow> bool" where
  "ext_split n st e \<longleftrightarrow>
     (case e of
        None \<Rightarrow> n = st \<and> CHR ''.'' \<notin> set (tl n)
      | Some x \<Rightarrow> n = st @ CHR ''.'' # x \<and> st \<noteq> [] \<and> CHR ''.'' \<notin> set x)"

lemma ext_split_exists: "\<exists>st e. ext_split n st e"
proof (cases "CHR ''.'' \<in> set (tl n)")
  case True
  then obtain st x where "tl n = st @ CHR ''.'' # x" "CHR ''.'' \<notin> set x" by (metis split_list_last)
  moreover from this have "n = (hd n # st) @ CHR ''.'' # x" by (cases n) auto
  ultimately have "ext_split n (hd n # st) (Some x)" by (simp add: ext_split_def)
  then show ?thesis by blast
next
  case False
  then have "ext_split n n None" by (simp add: ext_split_def)
  then show ?thesis by blast
qed

lemma ExtStart_loop_stop:
  "fs \<le> p \<Longrightarrow> (fs < p \<longrightarrow> c_at s p = CHR ''.'') \<Longrightarrow> (\<forall>j. p < j \<and> j \<le> p + k \<longrightarrow> c_at s j \<noteq> CHR ''.'') \<Longrightarrow>
   ExtStart_loop s fs (p + k) = p"
proof (induction k)
  case 0
  then show ?case by (cases p) auto
qed auto

lemma ExtStart_loop_name:
  assumes "name_split s d n" "ext_split n st e"
  shows "ExtStart_loop s (length d) (length s) = (if e = None then length d else length (d @ st))"
proof (cases e)
  case None
  then have n: "n = st" "CHR ''.'' \<notin> set (tl n)" using assms(2) by (auto simp: ext_split_def)
  have "c_at s j \<noteq> CHR ''.''" if "length d < j" "j \<le> length d + length n" for j
  proof (cases "j < length s")
    case True
    then have "c_at s j = tl n ! (j - length d - 1)"
      using that assms(1) by (cases n) (auto simp: c_at_def name_split_def nth_append nth_Cons')
    moreover have "j - length d - 1 < length (tl n)" using True that assms(1) by (auto simp: name_split_def)
    ultimately show ?thesis using n(2) by (metis nth_mem)
  qed (simp add: c_at_def)
  then show ?thesis
    using ExtStart_loop_stop [of "length d" "length d" s "length n"] assms(1) None by (simp add: name_split_def)
next
  case (Some x)
  then have n: "n = st @ CHR ''.'' # x" "CHR ''.'' \<notin> set x" using assms(2) by (simp_all add: ext_split_def)
  have s: "s = (d @ st) @ CHR ''.'' # x" using assms(1) n by (simp add: name_split_def)
  have "c_at s j \<noteq> CHR ''.''" if "length (d @ st) < j" "j \<le> length (d @ st) + (length x + 1)" for j
  proof (cases "j < length s")
    case True
    then have "c_at s j = x ! (j - length (d @ st) - 1)"
      using that s by (auto simp: c_at_def nth_append)
    moreover have "j - length (d @ st) - 1 < length x" using True that s by auto
    ultimately show ?thesis using n(2) by (metis nth_mem)
  qed (simp add: c_at_def)
  moreover have "c_at s (length (d @ st)) = CHR ''.''" by (simp only: s c_at_append_length)
  moreover have "length s = length (d @ st) + (length x + 1)" using s by simp
  ultimately show ?thesis
    using ExtStart_loop_stop [of "length d" "length (d @ st)" s "length x + 1"] Some by auto
qed


lemma CPLGetBasename_name:
  assumes "name_split s d n" "ext_split n st e" "c_string s" "length s < 2 ^ 31" "length b = CPL_PATH_BUF_SIZE"
  shows "CPLGetBasename (Some b) s = Some (if CPL_PATH_BUF_SIZE \<le> length st then [] else st)"
proof -
  have s: "s = d @ n" using assms(1) by (simp add: name_split_def)
  obtain r where n: "n = st @ r" "e = None \<longrightarrow> r = []" "e \<noteq> None \<longrightarrow> st \<noteq> []"
    using assms(2) by (auto simp: ext_split_def split: option.splits)
  have start: "int_to_size (CPLFindFilenameStart s) = length d"
    using CPLFindFilenameStart_name [OF assms(1,4)] int_to_size_small [of "length d"] assms(4) s by simp
  obtain E where ext: "ExtStart_loop s (length d) (length s) = E" "(if E = length d then length s else E) = length (d @ st)"
    using ExtStart_loop_name [OF assms(1,2)] n s by (cases e) auto
  have rest: "drop (length d) s = n" using s by simp
  have bne: "b \<noteq> []" using assms(5) by (auto simp: CPL_PATH_BUF_SIZE_def)
  have eq: "CPLGetBasename (Some b) s =
      (if CPL_PATH_BUF_SIZE \<le> length st then CPLStaticBufferTooSmall (Some b)
       else do { (b, _) \<leftarrow> CPLStrlcpy b n (length st + 1); Some (c_str b) })"
    by (simp only: CPLGetBasename_def Let_def start ext option.case rest) simp
  show ?thesis
  proof (cases "CPL_PATH_BUF_SIZE \<le> length st")
    case True
    then show ?thesis using eq bne by (simp add: too_small)
  next
    case False
    have "c_string n" using assms(3) s by (simp add: c_string_def)
    then obtain b' where "CPLStrlcpy b n (length st + 1) = Some (b', length n)" "holds b' st"
      using strcpy_holds [of n "length st + 1" b] False assms(5) n(1) by auto
    then show ?thesis using eq False by (simp add: c_str_holds)
  qed
qed

lemma CPLGetExtension_name:
  assumes "name_split s d n" "ext_split n st e" "c_string s" "length s < 2 ^ 31" "length b = CPL_PATH_BUF_SIZE"
  shows "CPLGetExtension (Some b) s =
    Some (case e of None \<Rightarrow> [] | Some x \<Rightarrow> if length x > knMaxExtensionSize then [] else x)"
proof (cases "s = []")
  case True
  then show ?thesis using assms(1,2) by (auto simp: CPLGetExtension_def name_split_def ext_split_def split: option.splits)
next
  case False
  have s: "s = d @ n" using assms(1) by (simp add: name_split_def)
  let ?x = "case e of None \<Rightarrow> [] | Some x \<Rightarrow> x"
  have start: "int_to_size (CPLFindFilenameStart s) = length d"
    using CPLFindFilenameStart_name [OF assms(1,4)] int_to_size_small [of "length d"] assms(4) s by simp
  obtain E i where i: "ExtStart_loop s (length d) (length s) = E" "(if E = length d then length s - 1 else E) = i"
    "i < length s" "drop (i + 1) s = ?x"
    using ExtStart_loop_name [OF assms(1,2)] assms(2) s False by (cases e) (auto simp: ext_split_def)
  have eq: "CPLGetExtension (Some b) s =
      (if length ?x > knMaxExtensionSize then Some []
       else do {
         (b, n) \<leftarrow> CPLStrlcpy b ?x CPL_PATH_BUF_SIZE;
         if n \<ge> CPL_PATH_BUF_SIZE then CPLStaticBufferTooSmall (Some b) else Some (c_str b)
       })"
    using i(3) False by (simp only: CPLGetExtension_def Let_def start i(1,2,4) option.case) simp
  have x: "c_string ?x" using assms(2,3) s by (auto simp: ext_split_def c_string_def split: option.splits)
  show ?thesis
  proof (cases "length ?x > knMaxExtensionSize")
    case True
    then show ?thesis using eq by (auto simp: knMaxExtensionSize_def split: option.splits)
  next
    case short: False
    obtain b' where "CPLStrlcpy b ?x CPL_PATH_BUF_SIZE = Some (b', length ?x)" "holds b' (take (CPL_PATH_BUF_SIZE - 1) ?x)"
      using strcpy_holds [OF x, of CPL_PATH_BUF_SIZE b] assms(5) by (auto simp: CPL_PATH_BUF_SIZE_def)
    moreover have "take (CPL_PATH_BUF_SIZE - 1) ?x = ?x" using short by (simp add: CPL_PATH_BUF_SIZE_def knMaxExtensionSize_def)
    ultimately show ?thesis using eq short
      by (auto simp: c_str_holds CPL_PATH_BUF_SIZE_def knMaxExtensionSize_def split: option.splits)
  qed
qed

lemma CPLFormFilename_plain:
  assumes "c_string p" "c_string n" "c_string x" "n \<noteq> ''..'' \<or> CPLIsFilenameRelative p"
    "\<not> (c_at n 0 = CHR ''.'' \<and> is_slash (c_at n 1))" "p = [] \<or> \<not> is_slash (last p)" "length b = CPL_PATH_BUF_SIZE"
  shows "CPLFormFilename (Some b) (Some p) n (Some x) =
    (let r = p @ (if p = [] then [] else ''/'') @ n @ (if x = [] \<or> hd x = CHR ''.'' then [] else ''.'') @ x
     in Some (if length r < CPL_PATH_BUF_SIZE then r else []))"
proof -
  have bne: "b \<noteq> []" using assms(7) by (auto simp: CPL_PATH_BUF_SIZE_def)
  have dir: "form_dir p n = Some (length p, n, if p = [] then [] else ''/'')"
    using assms(4,6) by (auto simp: form_dir_def SEP_STRING_def c_at_def last_conv_nth)
  have ext: "(if c_at x 0 \<noteq> CHR ''.'' \<and> x \<noteq> [] then (''.'', x) else ([], x)) =
      ((if x = [] \<or> hd x = CHR ''.'' then [] else ''.''), x)"
    by (cases x) (auto simp: c_at_def)
  obtain b' where b': "CPLStrlcpy b p (min (length p + 1) CPL_PATH_BUF_SIZE) = Some (b', length p)"
    "holds b' (take (min (length p + 1) CPL_PATH_BUF_SIZE - 1) p)" "length b' = length b"
    using strcpy_holds [OF assms(1), of "min (length p + 1) CPL_PATH_BUF_SIZE" b] assms(7) by (auto simp: CPL_PATH_BUF_SIZE_def)
  have bne': "b' \<noteq> []" using b'(3) bne by auto
  have base: "(if c_at n 0 = CHR ''.'' \<and> is_slash (c_at n 1) then drop 2 n else n) = n" using assms(5) by auto
  have eq: "CPLFormFilename (Some b) (Some p) n (Some x) =
      (if length p \<ge> CPL_PATH_BUF_SIZE then CPLStaticBufferTooSmall (Some b')
       else cat_result b' [if p = [] then [] else ''/'', n, if x = [] \<or> hd x = CHR ''.'' then [] else ''.'', x])"
    by (simp only: CPLFormFilename_def Let_def base option.case dir ext Option.bind.simps prod.case b'(1))
  show ?thesis
  proof (cases "length p < CPL_PATH_BUF_SIZE")
    case True
    then have "holds b' p" using b'(2) by simp
    moreover have "c_string (if x = [] \<or> hd x = CHR ''.'' then [] else ''.'')" "c_string (if p = [] then [] else ''/'')"
      by (simp_all add: c_string_def)
    ultimately show ?thesis
      using cat_all_holds [of b' p "[if p = [] then [] else ''/'', n, if x = [] \<or> hd x = CHR ''.'' then [] else ''.'', x]"]
        True b' assms(2,3,7) eq by (simp add: Let_def)
  next
    case False
    then show ?thesis using eq bne' by (simp add: Let_def too_small)
  qed
qed


lemma CPLFormFilename_None: "CPLFormFilename b p n None = CPLFormFilename b p n (Some [])"
  by (simp only: CPLFormFilename_def option.case simp_thms if_False)

text \<open>A file in a directory, with a stem and an extension.\<close>

definition plain_dir :: "string \<Rightarrow> bool" where
  "plain_dir d \<longleftrightarrow> c_string d \<and> d \<noteq> [] \<and> \<not> is_slash (last d)"

definition plain_stem :: "string \<Rightarrow> bool" where
  "plain_stem st \<longleftrightarrow> c_string st \<and> st \<noteq> [] \<and> st \<noteq> ''..'' \<and> (\<forall>c\<in>set st. \<not> is_slash c)"

definition plain_ext :: "string \<Rightarrow> bool" where
  "plain_ext e \<longleftrightarrow> c_string e \<and> e \<noteq> [] \<and> (\<forall>c\<in>set e. \<not> is_slash c \<and> c \<noteq> CHR ''.'')"

definition file_of :: "string \<Rightarrow> string \<Rightarrow> string \<Rightarrow> string" where
  "file_of d st e = d @ ''/'' @ st @ ''.'' @ e"

lemma slash_dot [simp]: "is_slash CHR ''/''" "\<not> is_slash CHR ''.''" "\<not> is_slash NUL"
  by (simp_all add: is_slash_def)

lemma file_of_split:
  assumes "plain_dir d" "plain_stem st" "plain_ext e"
  shows "name_split (file_of d st e) (d @ ''/'') (st @ ''.'' @ e)" "ext_split (st @ ''.'' @ e) st (Some e)"
    "c_string (file_of d st e)"
  using assms by (auto simp: name_split_def ext_split_def plain_dir_def plain_stem_def plain_ext_def file_of_def c_string_def)

lemma file_of_parts:
  assumes "plain_dir d" "plain_stem st" "plain_ext e" "length (file_of d st e) < CPL_PATH_BUF_SIZE" "length b = CPL_PATH_BUF_SIZE"
  shows "CPLGetPath (Some b) (file_of d st e) = Some d" "CPLGetFilename (file_of d st e) = Some (st @ ''.'' @ e)"
    "CPLGetBasename (Some b) (file_of d st e) = Some st"
    "length e \<le> knMaxExtensionSize \<Longrightarrow> CPLGetExtension (Some b) (file_of d st e) = Some e"
proof -
  note sp = file_of_split [OF assms(1-3)]
  have l: "length (file_of d st e) < 2 ^ 31" using assms(4) by (simp add: CPL_PATH_BUF_SIZE_def)
  have short: "\<not> CPL_PATH_BUF_SIZE \<le> length (d @ ''/'')" "\<not> CPL_PATH_BUF_SIZE \<le> length st" using assms(4) by (simp_all add: file_of_def)
  have d: "dir_of (d @ ''/'') = d" using assms(1) by (auto simp: dir_of_def plain_dir_def)
  have nil: "c_string []" by (simp add: c_string_def)
  have "CPLGetPath (Some b) (file_of d st e) =
      Some (if CPL_PATH_BUF_SIZE \<le> length (d @ ''/'') then [] else if d @ ''/'' = [] then [] else dir_of (d @ ''/''))"
    unfolding CPLGetPath_def by (rule path_before_name [OF sp(1,3) l assms(5) nil]) simp
  also have "\<dots> = Some d" by (subst d) (use short(1) in simp)
  finally show "CPLGetPath (Some b) (file_of d st e) = Some d" .
  show "CPLGetFilename (file_of d st e) = Some (st @ ''.'' @ e)" by (rule CPLGetFilename_name [OF sp(1) l])
  show "CPLGetBasename (Some b) (file_of d st e) = Some st"
    using CPLGetBasename_name [OF sp l assms(5)] short(2) by simp
  show "CPLGetExtension (Some b) (file_of d st e) = Some e" if "length e \<le> knMaxExtensionSize"
    using CPLGetExtension_name [OF sp l assms(5)] that by simp
qed

lemma plain_stem_start: "plain_stem st \<Longrightarrow> \<not> (c_at (st @ r) 0 = CHR ''.'' \<and> is_slash (c_at (st @ r) 1))" if "r = [] \<or> hd r = CHR ''.''"
  using that by (cases st; cases "tl st"; cases r) (auto simp: plain_stem_def c_at_def)

lemma file_of_form:
  assumes "plain_dir d" "plain_stem st" "plain_ext e" "length (file_of d st e) < CPL_PATH_BUF_SIZE" "length b = CPL_PATH_BUF_SIZE"
  shows "CPLFormFilename (Some b) (Some d) st (Some e) = Some (file_of d st e)"
    "CPLFormFilename (Some b) (Some d) st (Some (''.'' @ e)) = Some (file_of d st e)"
    "CPLFormFilename (Some b) (Some d) (st @ ''.'' @ e) None = Some (file_of d st e)"
proof -
  have cs: "c_string d" "c_string st" "c_string e" "c_string (''.'' @ e)" "c_string (st @ ''.'' @ e)" "c_string []"
    and e: "e \<noteq> []" "hd e \<noteq> CHR ''.''" and d: "d \<noteq> []" "\<not> is_slash (last d)" and st: "st \<noteq> ''..''"
    using assms(1-3) by (auto simp: plain_dir_def plain_stem_def plain_ext_def c_string_def)
  have n: "st @ ''.'' @ e \<noteq> ''..''" using assms(2,3) by (auto simp: plain_stem_def plain_ext_def append_eq_Cons_conv)
  show "CPLFormFilename (Some b) (Some d) st (Some e) = Some (file_of d st e)"
    using CPLFormFilename_plain [of d st e b] plain_stem_start [of "[]" st] cs e d st assms(2,4,5) by (simp add: file_of_def Let_def)
  show "CPLFormFilename (Some b) (Some d) st (Some (''.'' @ e)) = Some (file_of d st e)"
    using CPLFormFilename_plain [of d st "''.'' @ e" b] plain_stem_start [of "[]" st] cs d st assms(2,4,5) by (simp add: file_of_def Let_def)
  show "CPLFormFilename (Some b) (Some d) (st @ ''.'' @ e) None = Some (file_of d st e)"
    unfolding CPLFormFilename_None
    using CPLFormFilename_plain [of d "st @ ''.'' @ e" "[]" b] plain_stem_start [of "''.'' @ e" st] cs d n assms(2,4,5)
    by (simp add: file_of_def Let_def)
qed

subsection \<open>Properties\<close>

text \<open>C18: A file name taken apart with CPLGetPath, CPLGetBasename and CPLGetExtension is put together again by
  CPLFormFilename, and the parts of a name that was put together are the parts it was made of, whatever
  the static buffers held before.  The directory is not empty and does not end in a separator, the base name is not
  empty, not two points and has no separator, the extension has 1 to 10 characters (CPLGetExtension takes longer ones for
  none) without point and separator, and the whole name is shorter than the 2048 characters of a static buffer.\<close>

theorem CPLFormFilename_parts:
  assumes "plain_dir d" "plain_stem st" "plain_ext e" "length e \<le> knMaxExtensionSize"
    "length (file_of d st e) < CPL_PATH_BUF_SIZE" "length b = CPL_PATH_BUF_SIZE"
  shows "CPLFormFilename (Some b) (Some d) st (Some e) = Some (file_of d st e) \<and>
    CPLGetPath (Some b) (file_of d st e) = Some d \<and> CPLGetBasename (Some b) (file_of d st e) = Some st \<and>
    CPLGetExtension (Some b) (file_of d st e) = Some e \<and> CPLGetFilename (file_of d st e) = Some (st @ ''.'' @ e)"
  using file_of_parts [OF assms(1-3,5,6)] file_of_form [OF assms(1-3,5,6)] assms(4) by simp

theorem CPLFormFilename_parts_witness:
  "CPLFormFilename (Some (replicate CPL_PATH_BUF_SIZE CHR ''z'')) (Some ''/data'') ''a.b'' (Some ''tif'') = Some ''/data/a.b.tif'' \<and>
   CPLGetBasename (Some (replicate CPL_PATH_BUF_SIZE CHR ''z'')) ''/data/a.b.tif'' = Some ''a.b''"
  using CPLFormFilename_parts [of "''/data''" "''a.b''" "''tif''" "replicate CPL_PATH_BUF_SIZE CHR ''z''"]
  by (simp add: plain_dir_def plain_stem_def plain_ext_def c_string_def is_slash_def file_of_def knMaxExtensionSize_def CPL_PATH_BUF_SIZE_def)


text \<open>A name that CPLExtractRelativePath makes relative to a directory is resolved against it by
  CPLProjectRelativeFilename to the name it was taken from, up to the case of letters, which the
  comparison with the directory ignores.\<close>

theorem CPLProjectRelativeFilename_extract:
  assumes "CPLExtractRelativePath (Some base) t = (r, True)" "plain_dir base" "\<not> EQUAL base ''.''" "c_string t"
    "c_at t (length base) = CHR ''/''" "CPLIsFilenameRelative r" "length t < CPL_PATH_BUF_SIZE" "length b = CPL_PATH_BUF_SIZE"
  shows "\<exists>u. CPLProjectRelativeFilename (Some b) (Some base) r = Some u \<and> EQUAL u t"
proof -
  have base: "base \<noteq> []" "c_string base" "\<not> is_slash (c_at base (length base - 1))"
    using assms(2) by (auto simp: plain_dir_def c_at_def last_conv_nth)
  have r: "r = drop (length base + 1) t" and pre: "EQUALN base t (length base)"
    using assms(1,3) base(1) by (auto simp: CPLExtractRelativePath_def split: if_splits)
  have l: "length base < length t" using assms(5) by (auto simp: c_at_def split: if_splits)
  then have t: "t = take (length base) t @ CHR ''/'' # r"
    using assms(5) id_take_nth_drop [OF l] r by (simp add: c_at_def)
  have "EQUAL base (take (length base) t)" using pre by (simp add: EQUALN_def EQUAL_def)
  then have eq: "EQUAL (base @ ''/'' @ r) t" by (subst t) (simp add: EQUAL_def)
  have len: "length base < CPL_PATH_BUF_SIZE" "length (base @ ''/'' @ r) < CPL_PATH_BUF_SIZE"
    using assms(7) l EQUAL_length [OF eq] by simp_all
  obtain b' where b': "CPLStrlcpy b base CPL_PATH_BUF_SIZE = Some (b', length base)"
    "holds b' (take (CPL_PATH_BUF_SIZE - 1) base)" "length b' = length b"
    using strcpy_holds [OF base(2), of CPL_PATH_BUF_SIZE b] assms(8) by (auto simp: CPL_PATH_BUF_SIZE_def)
  moreover have "take (CPL_PATH_BUF_SIZE - 1) base = base" using len(1) by simp
  moreover have "c_string r" "c_string SEP_STRING"
    using assms(4) r by (auto simp: c_string_def SEP_STRING_def dest: in_set_dropD)
  ultimately have "CPLProjectRelativeFilename (Some b) (Some base) r = Some (base @ ''/'' @ r)"
    using cat_all_holds [of b' base "[SEP_STRING, r]"] len assms(6,8) base
    by (simp add: CPLProjectRelativeFilename_def SEP_STRING_def)
  then show ?thesis using eq by blast
qed

theorem CPLProjectRelativeFilename_extract_witness:
  "\<exists>u. CPLProjectRelativeFilename (Some (replicate CPL_PATH_BUF_SIZE NUL)) (Some ''/data'') ''a.tif'' = Some u \<and> EQUAL u ''/Data/a.tif''"
proof (rule CPLProjectRelativeFilename_extract)
  show "CPLExtractRelativePath (Some ''/data'') ''/Data/a.tif'' = (''a.tif'', True)"
    by code_simp
qed (simp_all add: plain_dir_def c_string_def is_slash_def EQUAL_def c_tolower_def ccode_def c_at_def CPL_PATH_BUF_SIZE_def
    CPLIsFilenameRelative_def STARTS_WITH_def)

text \<open>Renaming a set of files.\<close>

lemma regular_names_files:
  assumes "plain_dir d" "plain_stem st" "length b = CPL_PATH_BUF_SIZE"
  shows "\<forall>e\<in>set es. plain_ext e \<and> length (file_of d st e) < CPL_PATH_BUF_SIZE \<Longrightarrow>
    regular_names (Some b) d st (map (file_of d st) es) = Some True"
proof (induction es)
  case (Cons e es)
  then show ?case using file_of_parts(3) [OF assms(1,2), of e b] assms(3) by (simp add: regular_name_def)
qed simp

lemma new_names_files:
  assumes "plain_dir d" "plain_stem st" "plain_dir nd" "plain_stem nst" "length b = CPL_PATH_BUF_SIZE"
  shows "\<forall>e\<in>set es. plain_ext e \<and> length (file_of d st e) < CPL_PATH_BUF_SIZE \<and> length (file_of nd nst e) < CPL_PATH_BUF_SIZE \<Longrightarrow>
    es \<noteq> [] \<or> strings_of l \<noteq> [] \<Longrightarrow> l \<noteq> Some [] \<Longrightarrow>
    new_names (Some b) nd st nst (map (file_of d st) es) l = Some (Some (strings_of l @ map (file_of nd nst) es))"
proof (induction es arbitrary: l)
  case Nil
  then show ?case by (cases l) auto
next
  case (Cons e es)
  have e: "plain_ext e" "length (file_of d st e) < CPL_PATH_BUF_SIZE" "length (file_of nd nst e) < CPL_PATH_BUF_SIZE"
    using Cons.prems(1) by simp_all
  have "CPLGetFilename (file_of d st e) = Some (st @ ''.'' @ e)"
    by (rule file_of_parts(2) [OF assms(1,2) e(1,2) assms(5)])
  moreover have "ptr_add (st @ ''.'' @ e) (length st) = Some (''.'' @ e)" by (simp add: ptr_add_def)
  ultimately have step: "new_names (Some b) nd st nst (map (file_of d st) (e # es)) l =
      new_names (Some b) nd st nst (map (file_of d st) es) (CSLAddString l (Some (file_of nd nst e)))"
    using file_of_form(2,3) [OF assms(3,4) e(1,3) assms(5)] by (cases "st = nst") simp_all
  have "strings_of (CSLAddString l (Some x)) = strings_of l @ [x]" "CSLAddString l (Some x) \<noteq> Some []" for x
    by (cases l; simp)+
  with step show ?case using Cons.IH [of "CSLAddString l (Some (file_of nd nst e))"] Cons.prems by simp
qed

lemma CPLCorrespondingPaths_files:
  assumes "plain_dir d" "plain_stem st" "plain_dir nd" "plain_stem nst" "length b = CPL_PATH_BUF_SIZE" "es \<noteq> []" "x \<in> set es"
    and es: "\<forall>e\<in>set es. plain_ext e \<and> length (file_of d st e) < CPL_PATH_BUF_SIZE \<and> length (file_of nd nst e) < CPL_PATH_BUF_SIZE"
  shows "CPLCorrespondingPaths (Some b) (file_of d st x) (file_of nd nst x) (Some (map (file_of d st) es)) =
    Some (Some (map (file_of nd nst) es))"
proof -
  have x: "plain_ext x" "length (file_of d st x) < CPL_PATH_BUF_SIZE" "length (file_of nd nst x) < CPL_PATH_BUF_SIZE"
    using es assms(7) by simp_all
  note old = file_of_parts [OF assms(1,2) x(1,2) assms(5)] and new = file_of_parts [OF assms(3,4) x(1,3) assms(5)]
  have reg: "regular_names (Some b) d st (map (file_of d st) es) = Some True"
    using regular_names_files [OF assms(1,2,5)] es by simp
  have nn: "new_names (Some b) nd st nst (map (file_of d st) es) None = Some (Some (map (file_of nd nst) es))"
    using new_names_files [OF assms(1-5), of es None] es assms(6) by simp
  have pa: "ptr_add (s @ ''.'' @ x) (length s) = Some (''.'' @ x)" for s by (simp add: ptr_add_def)
  show ?thesis
  proof (cases "[file_of d st x] = map (file_of d st) es")
    case True
    then have "es = [x]" using x(1) by (cases es; cases "tl es") (auto simp: file_of_def)
    then show ?thesis by (simp add: CPLCorrespondingPaths_def)
  next
    case False
    have cnt: "CSLCount (Some (map (file_of d st) es)) \<noteq> 0" using assms(6) by simp
    show ?thesis
      unfolding CPLCorrespondingPaths_def Let_def strings_of_simps
      using False cnt old(1-3) new(1-3) reg nn pa by (cases "st = nst") simp_all
  qed
qed

text \<open>C17: Renaming a file that is one of a set of files with the same directory and the same base name and any
  extensions, CPLCorrespondingPaths gives for each of them the name in the new directory with the new base name and its
  own extension, in the order of the set, which has less than 2^31 files.  Directories are not empty and do not end in a separator, base names are not
  empty, not two points and have no separator, extensions are not empty and have no point or separator, and all names,
  old and new, are shorter than the 2048 characters of a static buffer.\<close>

theorem CPLCorrespondingPaths_renames:
  assumes "plain_dir d" "plain_stem st" "plain_dir nd" "plain_stem nst" "length b = CPL_PATH_BUF_SIZE" "x \<in> set es"
    and "length es < 2 ^ 31" and "\<forall>e\<in>set es. plain_ext e \<and> length (file_of d st e) < CPL_PATH_BUF_SIZE \<and> length (file_of nd nst e) < CPL_PATH_BUF_SIZE"
  shows "CPLCorrespondingPaths (Some b) (file_of d st x) (file_of nd nst x) (Some (map (file_of d st) es)) =
    Some (Some (map (file_of nd nst) es))"
  by (rule CPLCorrespondingPaths_files [OF assms(1-5) _ assms(6,8)]) (use assms(6) in auto)

theorem CPLCorrespondingPaths_renames_witness:
  "CPLCorrespondingPaths (Some (replicate CPL_PATH_BUF_SIZE NUL)) ''/a/old.shp'' ''/b/new.shp'' (Some [''/a/old.shp'', ''/a/old.dbf'']) =
    Some (Some [''/b/new.shp'', ''/b/new.dbf''])"
  using CPLCorrespondingPaths_renames [of "''/a''" "''old''" "''/b''" "''new''" "replicate CPL_PATH_BUF_SIZE NUL" "''shp''" "[''shp'', ''dbf'']"]
  by (simp add: plain_dir_def plain_stem_def plain_ext_def c_string_def is_slash_def file_of_def CPL_PATH_BUF_SIZE_def)


text \<open>No access outside a buffer, whatever the names are.\<close>

lemma form_dir_total: "\<exists>n m sep. form_dir p s = Some (n, m, sep) \<and> n \<le> length p \<and> sep \<in> {[], SEP_STRING} \<and> m \<in> {[], s}"
proof -
  have le: "FilenameStart_loop p k \<le> k" for k by (induction k) auto
  have ne: "\<not> CPLIsFilenameRelative p \<Longrightarrow> p \<noteq> []" by (auto simp: CPLIsFilenameRelative_def STARTS_WITH_def c_at_def)
  show ?thesis
  proof (cases "\<not> CPLIsFilenameRelative p \<and> s = ''..''")
    case True
    then have "0 < length p" using ne by simp
    then have "int (length p) - 1 = int (length p - 1)" "length p - 1 < length p" by linarith+
    then have "arr_get p (int (length p) - 1) = Some (p ! (length p - 1))" by (simp only: arr_get_nat)
    moreover define n0 where "n0 = (if is_slash (p ! (length p - 1)) then length p - 1 else length p)"
    moreover define k where "k = FilenameStart_loop p n0"
    ultimately have eq: "form_dir p s =
        Some (if k = 1 \<and> c_at p 0 = CHR ''/'' then (k, [], [])
              else if k > 1 \<and> c_at p 0 = CHR ''/'' \<or> k > 2 \<and> c_at p 1 = CHR '':'' \<or>
                k > 6 \<and> STARTS_WITH p [CHR 0x5c, CHR 0x5c, CHR ''$'', CHR 0x5c]
              then (k - 1, [], [])
              else (n0, s, SEP_STRING))"
      using True by (simp only: form_dir_def Let_def simp_thms if_True Option.bind.simps)
    have n: "n0 \<le> length p" "k \<le> length p" "k - 1 \<le> length p" using le [of n0] by (simp_all add: n0_def k_def split: if_splits)
    show ?thesis unfolding eq by (split if_split)+ (use n in simp)
  next
    case False
    then show ?thesis by (auto simp: form_dir_def Let_def)
  qed
qed

lemma cat_result_total:
  "holds b d \<Longrightarrow> length d < CPL_PATH_BUF_SIZE \<Longrightarrow> length b = CPL_PATH_BUF_SIZE \<Longrightarrow> \<forall>s\<in>set ss. c_string s \<Longrightarrow> cat_result b ss \<noteq> None"
  using cat_all_holds by simp

lemma CPLFormFilename_total:
  assumes "\<And>p. path = Some p \<Longrightarrow> c_string p" "c_string s" "\<And>x. ext = Some x \<Longrightarrow> c_string x" "length b = CPL_PATH_BUF_SIZE"
  shows "CPLFormFilename (Some b) path s ext \<noteq> None"
proof -
  obtain p where p: "(case path of None \<Rightarrow> [] | Some p \<Rightarrow> p) = p" "c_string p"
    using assms(1) by (cases path) (auto simp: c_string_def)
  define s' where "s' = (if c_at s 0 = CHR ''.'' \<and> is_slash (c_at s 1) then drop 2 s else s)"
  have s': "c_string s'" using assms(2) by (auto simp: s'_def c_string_def dest: in_set_dropD)
  obtain n m sep where dir: "form_dir p s' = Some (n, m, sep)" "n \<le> length p" "sep \<in> {[], SEP_STRING}" "m \<in> {[], s'}"
    using form_dir_total by blast
  obtain xs x where x: "(case ext of None \<Rightarrow> ([], []) | Some e \<Rightarrow> if c_at e 0 \<noteq> CHR ''.'' \<and> e \<noteq> [] then (''.'', e) else ([], e)) = (xs, x)"
    by fastforce
  then have cx: "c_string xs" "c_string x" using assms(3) by (cases ext; auto simp: c_string_def split: if_splits)+
  obtain b' where b': "CPLStrlcpy b p (min (n + 1) CPL_PATH_BUF_SIZE) = Some (b', length p)"
    "holds b' (take (min (n + 1) CPL_PATH_BUF_SIZE - 1) p)" "length b' = length b"
    using strcpy_holds [OF p(2), of "min (n + 1) CPL_PATH_BUF_SIZE" b] assms(4) by (auto simp: CPL_PATH_BUF_SIZE_def)
  have eq: "CPLFormFilename (Some b) path s ext =
      (if length p \<ge> CPL_PATH_BUF_SIZE then CPLStaticBufferTooSmall (Some b') else cat_result b' [sep, m, xs, x])"
    by (simp only: CPLFormFilename_def Let_def s'_def [symmetric] option.case p(1) dir(1) x Option.bind.simps prod.case b'(1))
  have bne: "b' \<noteq> []" using b'(3) assms(4) by (auto simp: CPL_PATH_BUF_SIZE_def)
  have "cat_result b' [sep, m, xs, x] \<noteq> None" if "length p < CPL_PATH_BUF_SIZE"
    by (rule cat_result_total [OF b'(2)]) (use that b'(3) assms(4) dir(3,4) s' cx in \<open>auto simp: SEP_STRING_def c_string_def\<close>)
  then show ?thesis using eq bne by (auto simp: too_small)
qed

lemma ResetExtension_loop_total:
  "holds b d \<Longrightarrow> i < length d \<Longrightarrow>
   \<exists>b' d'. ResetExtension_loop b i = Some b' \<and> holds b' d' \<and> length d' \<le> length d \<and> length b' = length b"
proof (induction i)
  case (Suc i)
  have get: "arr_get b (int (Suc i)) = Some (d ! Suc i)" by (rule holds_get [OF Suc.prems])
  have d: "d = take (Suc i) d @ d ! Suc i # drop (Suc (Suc i)) d" using Suc.prems(2) by (simp add: id_take_nth_drop [symmetric])
  obtain b' where cut: "arr_set b (int (length (take (Suc i) d))) NUL = Some b'" "holds b' (take (Suc i) d)" "length b' = length b"
    using holds_cut [of b "take (Suc i) d" "d ! Suc i"] Suc.prems(1) d by metis
  moreover have "length (take (Suc i) d) = Suc i" using Suc.prems(2) by simp
  ultimately have "arr_set b (int (Suc i)) NUL = Some b'" by metis
  then show ?case using get cut(2,3) Suc by (auto simp del: of_nat_Suc)
qed auto

lemma CPLResetExtension_total:
  assumes "c_string s" "c_string x" "length b = CPL_PATH_BUF_SIZE"
  shows "CPLResetExtension (Some b) s x \<noteq> None"
proof -
  obtain b' where b': "CPLStrlcpy b s CPL_PATH_BUF_SIZE = Some (b', length s)" "holds b' (take (CPL_PATH_BUF_SIZE - 1) s)"
    "length b' = length b"
    using strcpy_holds [OF assms(1), of CPL_PATH_BUF_SIZE b] assms(3) by (auto simp: CPL_PATH_BUF_SIZE_def)
  have bne: "b' \<noteq> []" using b'(3) assms(3) by (auto simp: CPL_PATH_BUF_SIZE_def)
  show ?thesis
  proof (cases "CPL_PATH_BUF_SIZE \<le> length s")
    case True
    then show ?thesis using b' bne by (simp add: CPLResetExtension_def too_small)
  next
    case False
    have s: "holds b' s" using b'(2) False by simp
    obtain b'' d where d: "(if s = [] then Some b' else ResetExtension_loop b' (length s - 1)) = Some b''" "holds b'' d"
      "length d \<le> length s" "length b'' = length b"
    proof (cases "s = []")
      case True
      then show thesis using s b'(3) that by simp
    next
      case False
      then show thesis using ResetExtension_loop_total [OF s, of "length s - 1"] b'(3) that by auto
    qed
    have "cat_result b'' [''.'', x] \<noteq> None"
      by (rule cat_result_total [OF d(2)]) (use d False assms in \<open>auto simp: c_string_def\<close>)
    then show ?thesis using b'(1) False d(1) c_str_holds [OF s] by (cases "s = []") (simp_all add: CPLResetExtension_def)
  qed
qed

lemma CPLProjectRelativeFilename_total:
  assumes "c_string dir" "c_string s" "length b = CPL_PATH_BUF_SIZE"
  shows "CPLProjectRelativeFilename (Some b) (Some dir) s \<noteq> None"
proof -
  obtain b' where b': "CPLStrlcpy b dir CPL_PATH_BUF_SIZE = Some (b', length dir)" "holds b' (take (CPL_PATH_BUF_SIZE - 1) dir)"
    "length b' = length b"
    using strcpy_holds [OF assms(1), of CPL_PATH_BUF_SIZE b] assms(3) by (auto simp: CPL_PATH_BUF_SIZE_def)
  have bne: "b' \<noteq> []" using b'(3) assms(3) by (auto simp: CPL_PATH_BUF_SIZE_def)
  have "cat_result b' ((if is_slash (c_at dir (length dir - 1)) then [] else [SEP_STRING]) @ [s]) \<noteq> None"
    by (rule cat_result_total [OF b'(2)]) (use b'(3) assms in \<open>auto simp: c_string_def SEP_STRING_def CPL_PATH_BUF_SIZE_def\<close>)
  then show ?thesis using b'(1) bne by (auto simp: CPLProjectRelativeFilename_def too_small)
qed

lemma CPLCleanTrailingSlash_total:
  assumes "c_string s" "length b = CPL_PATH_BUF_SIZE"
  shows "CPLCleanTrailingSlash (Some b) s =
    Some (if CPL_PATH_BUF_SIZE \<le> length s then [] else if s \<noteq> [] \<and> is_slash (last s) then butlast s else s)"
proof (cases "CPL_PATH_BUF_SIZE \<le> length s")
  case True
  moreover have "b \<noteq> []" using assms(2) by (auto simp: CPL_PATH_BUF_SIZE_def)
  ultimately show ?thesis by (simp add: CPLCleanTrailingSlash_def too_small)
next
  case False
  obtain b' where b': "CPLStrlcpy b s (length s + 1) = Some (b', length s)" "holds b' s" "length b' = length b"
    using strcpy_holds [OF assms(1), of "length s + 1" b] assms(2) False by auto
  show ?thesis
  proof (cases s rule: rev_cases)
    case Nil
    then show ?thesis using b' False by (simp add: CPLCleanTrailingSlash_def c_str_holds)
  next
    case (snoc x y)
    have "arr_get b' (int (length x)) = Some y" using holds_get [OF b'(2), of "length x"] snoc by simp
    moreover obtain b'' where "arr_set b' (int (length x)) NUL = Some b''" "holds b'' x"
      using holds_cut [of b' x y "[]"] b'(2) snoc by auto
    ultimately show ?thesis using b' False snoc by (simp add: CPLCleanTrailingSlash_def c_str_holds)
  qed
qed



end
