(* ===== verification/MemFile.thy ===== *)
theory MemFile
  imports Prelude
begin

section \<open>Files in memory (port/cpl_vsi_mem.cpp)\<close>

text \<open>
  VSIMemFile is a growing block of memory and VSIMemHandle a position in one.  Offsets and sizes are
  64-bit words and wrap.  The block is the list of its bytes and every access of it is checked, so \<open>None\<close> is an
  access outside it (or of the null pointer); NULL is \<open>None\<close> in \<open>pabyData\<close>.  What the system provides is
  the record \<open>vsi_env\<close>: which sizes VSIRealloc can serve, what new memory holds, and the clock.  The
  mutexes only order the operations of different threads, which are the steps of a sequence here.
\<close>

subsection \<open>Memory blocks\<close>

record vsi_env =
  realloc_ok :: "u64 \<Rightarrow> bool"
  fresh :: "nat \<Rightarrow> byte"
  clock :: int

definition mem_store :: "byte list \<Rightarrow> nat \<Rightarrow> byte list \<Rightarrow> byte list option" where
  "mem_store m off xs = (if off + length xs \<le> length m then Some (overwrite m off xs) else None)"

definition mem_load :: "byte list \<Rightarrow> nat \<Rightarrow> nat \<Rightarrow> byte list option" where
  "mem_load m off n = (if off + n \<le> length m then Some (take n (drop off m)) else None)"

text \<open>\<open>realloc\<close> keeps the bytes up to the smaller of the two sizes.\<close>

definition VSIRealloc :: "vsi_env \<Rightarrow> byte list option \<Rightarrow> u64 \<Rightarrow> byte list option" where
  "VSIRealloc env p n =
     (if realloc_ok env n
      then Some (let old = (case p of None \<Rightarrow> [] | Some m \<Rightarrow> take (unat n) m)
                 in old @ map (fresh env) [length old..<unat n])
      else None)"

subsection \<open>VSIMemFile\<close>

record mem_file =
  osFilename :: string
  bIsDirectory :: bool
  bOwnData :: bool
  pabyData :: "byte list option"
  nLength :: u64
  nAllocLength :: u64
  nMaxLength :: u64
  mTime :: int

definition GUINTBIG_MAX :: u64 where "GUINTBIG_MAX = 0xffffffffffffffff"

definition VSIMemFile :: "vsi_env \<Rightarrow> mem_file" where
  "VSIMemFile env =
     \<lparr>osFilename = [], bIsDirectory = False, bOwnData = True, pabyData = None, nLength = 0, nAllocLength = 0,
      nMaxLength = GUINTBIG_MAX, mTime = clock env\<rparr>"

text \<open>The file afterwards and whether the length could be set; the failures report an error.\<close>

definition SetLength :: "vsi_env \<Rightarrow> u64 \<Rightarrow> mem_file \<Rightarrow> (mem_file \<times> bool) option" where
  "SetLength env nNewLength f =
     (let finish = (\<lambda>f. (f\<lparr>nLength := nNewLength, mTime := clock env\<rparr>, True)) in
      if nNewLength > nMaxLength f then Some (f, False)
      else if nNewLength > nAllocLength f then
        (if \<not> bOwnData f then Some (f, False)
         else let nNewAlloc = (nNewLength + nNewLength div 10) + 5000 in
           case VSIRealloc env (pabyData f) nNewAlloc of
             None \<Rightarrow> Some (f, False)
           | Some pabyNewData \<Rightarrow> do {
               pabyNewData \<leftarrow> mem_store pabyNewData (unat (nAllocLength f)) (replicate (unat (nNewAlloc - nAllocLength f)) 0);
               Some (finish (f\<lparr>pabyData := Some pabyNewData, nAllocLength := nNewAlloc\<rparr>))
             })
      else if nNewLength < nLength f then do {
        m \<leftarrow> pabyData f;
        m \<leftarrow> mem_store m (unat nNewLength) (replicate (unat (nLength f - nNewLength)) 0);
        Some (finish (f\<lparr>pabyData := Some m\<rparr>))
      } else Some (finish f))"

subsection \<open>VSIMemHandle\<close>

text \<open>The file of an open handle is a pointer shared with the file system; the operations get the file it
  points to.\<close>

record mem_handle =
  poFile :: "nat option"
  m_nOffset :: u64
  bUpdate :: bool
  bEOF :: bool
  bExtendFileAtNextWrite :: bool

definition VSIMemHandle :: mem_handle where
  "VSIMemHandle = \<lparr>poFile = None, m_nOffset = 0, bUpdate = False, bEOF = False, bExtendFileAtNextWrite = False\<rparr>"

definition Close :: "mem_handle \<Rightarrow> mem_handle" where
  "Close h = h\<lparr>poFile := None\<rparr>"

definition SEEK_SET :: int where "SEEK_SET = 0"
definition SEEK_CUR :: int where "SEEK_CUR = 1"
definition SEEK_END :: int where "SEEK_END = 2"

definition Seek :: "u64 \<Rightarrow> int \<Rightarrow> mem_file \<Rightarrow> mem_handle \<Rightarrow> mem_handle \<times> int" where
  "Seek nOffset nWhence f h =
     (let h = h\<lparr>bExtendFileAtNextWrite := False\<rparr>;
          go = (\<lambda>off. let h = h\<lparr>m_nOffset := off, bEOF := False\<rparr>
                in (if off > nLength f \<and> bUpdate h then h\<lparr>bExtendFileAtNextWrite := True\<rparr> else h, 0))
      in if nWhence = SEEK_CUR then go (m_nOffset h + nOffset)
         else if nWhence = SEEK_SET then go nOffset
         else if nWhence = SEEK_END then go (nLength f + nOffset)
         else (h, - 1))"

definition Tell :: "mem_handle \<Rightarrow> u64" where
  "Tell h = m_nOffset h"

text \<open>The bytes stored in the caller's buffer and the number of items read.\<close>

definition Read :: "u64 \<Rightarrow> u64 \<Rightarrow> mem_file \<Rightarrow> mem_handle \<Rightarrow> (mem_handle \<times> byte list \<times> u64) option" where
  "Read nSize nCount f h =
     (let nBytesToRead = nSize * nCount; eof = (h\<lparr>bEOF := True\<rparr>, [], 0) in
      if nBytesToRead = 0 then Some (h, [], 0)
      else if nCount > 0 \<and> nBytesToRead div nCount \<noteq> nSize then Some eof
      else if nLength f \<le> m_nOffset h \<or> nBytesToRead + m_nOffset h < nBytesToRead then Some eof
      else do {
        let (nBytesToRead, nCount, h) =
          (if nBytesToRead + m_nOffset h > nLength f
           then (nLength f - m_nOffset h, (nLength f - m_nOffset h) div nSize, h\<lparr>bEOF := True\<rparr>)
           else (nBytesToRead, nCount, h));
        xs \<leftarrow> (if nBytesToRead \<noteq> 0 then do {
               m \<leftarrow> pabyData f;
               mem_load m (unat (m_nOffset h)) (unat nBytesToRead)
             } else Some []);
        Some (h\<lparr>m_nOffset := m_nOffset h + nBytesToRead\<rparr>, xs, nCount)
      })"

definition PRead :: "u64 \<Rightarrow> u64 \<Rightarrow> mem_file \<Rightarrow> (byte list \<times> u64) option" where
  "PRead nSize nOffset f =
     (if nOffset < nLength f then do {
        let nToCopy = min (nLength f - nOffset) nSize;
        m \<leftarrow> pabyData f;
        xs \<leftarrow> mem_load m (unat nOffset) (unat nToCopy);
        Some (xs, nToCopy)
      } else Some ([], 0))"

text \<open>Write in two parts: the zeros up to the position, and the bytes, which may make the file longer.  \<open>pBuffer\<close>
  holds at least \<open>nSize * nCount\<close> bytes.\<close>

definition Write_extend :: "vsi_env \<Rightarrow> mem_file \<Rightarrow> mem_handle \<Rightarrow> (mem_file \<times> mem_handle \<times> bool) option" where
  "Write_extend env f h =
     (if bExtendFileAtNextWrite h then do {
        (f, ok) \<leftarrow> SetLength env (m_nOffset h) f;
        Some (f, h\<lparr>bExtendFileAtNextWrite := False\<rparr>, ok)
      } else Some (f, h, True))"

definition Write_put :: "vsi_env \<Rightarrow> byte list \<Rightarrow> u64 \<Rightarrow> u64 \<Rightarrow> mem_file \<Rightarrow> mem_handle \<Rightarrow> (mem_file \<times> mem_handle \<times> u64) option" where
  "Write_put env pBuffer nBytesToWrite nCount f h =
     (case (if nBytesToWrite + m_nOffset h > nLength f then SetLength env (nBytesToWrite + m_nOffset h) f else Some (f, True)) of
        None \<Rightarrow> None
      | Some (f, ok) \<Rightarrow>
          if \<not> ok then Some (f, h, 0)
          else do {
            f \<leftarrow> (if nBytesToWrite \<noteq> 0 then do {
                   src \<leftarrow> mem_load pBuffer 0 (unat nBytesToWrite);
                   m \<leftarrow> pabyData f;
                   m \<leftarrow> mem_store m (unat (m_nOffset h)) src;
                   Some (f\<lparr>pabyData := Some m\<rparr>)
                 } else Some f);
            Some (f\<lparr>mTime := clock env\<rparr>, h\<lparr>m_nOffset := m_nOffset h + nBytesToWrite\<rparr>, nCount)
          })"

definition Write ::
  "vsi_env \<Rightarrow> byte list \<Rightarrow> u64 \<Rightarrow> u64 \<Rightarrow> mem_file \<Rightarrow> mem_handle \<Rightarrow> (mem_file \<times> mem_handle \<times> u64) option" where
  "Write env pBuffer nSize nCount f h =
     (if \<not> bUpdate h then Some (f, h, 0)
      else case Write_extend env f h of
          None \<Rightarrow> None
        | Some (f, h, ok) \<Rightarrow>
            if \<not> ok then Some (f, h, 0)
            else let nBytesToWrite = nSize * nCount in
              if nCount > 0 \<and> nBytesToWrite div nCount \<noteq> nSize then Some (f, h, 0)
              else if nBytesToWrite + m_nOffset h < nBytesToWrite then Some (f, h, 0)
              else Write_put env pBuffer nBytesToWrite nCount f h)"

definition Eof :: "mem_handle \<Rightarrow> bool" where
  "Eof h = bEOF h"

definition Truncate :: "vsi_env \<Rightarrow> u64 \<Rightarrow> mem_file \<Rightarrow> mem_handle \<Rightarrow> (mem_file \<times> mem_handle \<times> int) option" where
  "Truncate env nNewSize f h =
     (if \<not> bUpdate h then Some (f, h, - 1)
      else do {
        (f, ok) \<leftarrow> SetLength env nNewSize f;
        Some (f, h\<lparr>bExtendFileAtNextWrite := False\<rparr>, if ok then 0 else - 1)
      })"


subsection \<open>Arithmetic of 64-bit words\<close>

lemma mod_add_once: "a < M \<Longrightarrow> b < M \<Longrightarrow> (a + b) mod M = (if a + b < M then a + b else a + b - (M :: nat))"
  by (simp add: mod_if)

lemma unat_plus: "unat (a + b :: u64) = (if unat a + unat b < 2 ^ 64 then unat a + unat b else unat a + unat b - 2 ^ 64)"
proof -
  have "unat a < 2 ^ 64" "unat b < 2 ^ 64" using unsigned_less [of a, where ?'a = nat] unsigned_less [of b, where ?'a = nat] by simp_all
  then show ?thesis using mod_add_once [of "unat a" "2 ^ 64" "unat b"] by (simp only: unat_word_ariths word_size) simp
qed

lemma plus_wraps: "(a + b :: u64) < a \<longleftrightarrow> 2 ^ 64 \<le> unat a + unat b"
proof -
  have "unat b < 2 ^ 64" using unsigned_less [of b, where ?'a = nat] by simp
  then show ?thesis unfolding word_less_nat_alt unat_plus by auto
qed

lemma unat_times: "unat a * unat b < 2 ^ 64 \<Longrightarrow> unat (a * b :: u64) = unat a * unat b"
  by (simp add: unat_word_ariths)

lemma times_wraps:
  assumes "0 < (b :: u64)"
  shows "(a * b) div b \<noteq> a \<longleftrightarrow> 2 ^ 64 \<le> unat a * unat b"
proof -
  have b: "0 < unat b" using assms by (simp add: unat_gt_0)
  define M x where "M = (2 :: nat) ^ 64" and "x = unat a * unat b"
  have q: "unat ((a * b) div b) = x mod M div unat b"
    by (simp add: unat_div unat_word_ariths M_def x_def)
  have "x mod M div unat b \<noteq> unat a \<longleftrightarrow> M \<le> x"
  proof
    assume "M \<le> x"
    then have "x mod M \<le> x - M" "0 < M" by (simp_all add: le_mod_geq M_def)
    then have "x mod M < unat a * unat b" using \<open>M \<le> x\<close> by (simp add: x_def)
    then show "x mod M div unat b \<noteq> unat a" using b by (simp add: less_mult_imp_div_less nat_neq_iff)
  next
    assume "x mod M div unat b \<noteq> unat a"
    then show "M \<le> x" using b by (metis leI mod_less nonzero_mult_div_cancel_right not_gr_zero x_def)
  qed
  then show ?thesis unfolding word_unat_eq_iff q by (simp add: M_def x_def)
qed


subsection \<open>The length of a file\<close>

text \<open>The block, the bytes of the file in it, and the invariant: the rest of the block is zero.\<close>

definition data :: "mem_file \<Rightarrow> byte list" where
  "data f = (case pabyData f of None \<Rightarrow> [] | Some m \<Rightarrow> m)"

definition content :: "mem_file \<Rightarrow> byte list" where
  "content f = take (unat (nLength f)) (data f)"

definition file_ok :: "mem_file \<Rightarrow> bool" where
  "file_ok f \<longleftrightarrow> nLength f \<le> nAllocLength f \<and> length (data f) = unat (nAllocLength f) \<and>
     data f = content f @ replicate (unat (nAllocLength f) - unat (nLength f)) 0"

definition same_file :: "mem_file \<Rightarrow> mem_file \<Rightarrow> bool" where
  "same_file f g \<longleftrightarrow> osFilename g = osFilename f \<and> bIsDirectory g = bIsDirectory f \<and> bOwnData g = bOwnData f \<and>
     nMaxLength g = nMaxLength f \<and> (\<not> bOwnData f \<longrightarrow> nAllocLength g = nAllocLength f)"

definition resize :: "nat \<Rightarrow> byte list \<Rightarrow> byte list" where
  "resize n c = take n c @ replicate (n - length c) 0"

lemma length_resize [simp]: "length (resize n c) = n"
  by (simp add: resize_def)

lemma same_file_refl [simp]: "same_file f f"
  by (simp add: same_file_def)

lemma same_file_trans: "same_file f g \<Longrightarrow> same_file g h \<Longrightarrow> same_file f h"
  by (simp add: same_file_def)

lemma length_content: "file_ok f \<Longrightarrow> length (content f) = unat (nLength f)"
  by (simp add: content_def file_ok_def word_le_nat_alt)

lemma file_ok_data: "file_ok f \<Longrightarrow> unat (nLength f) < n \<or> 0 < unat (nAllocLength f) \<Longrightarrow> n \<le> unat (nAllocLength f) \<Longrightarrow> pabyData f = Some (data f)"
  by (cases "pabyData f") (auto simp: file_ok_def data_def)

text \<open>A file after its length has been set.\<close>

lemma file_ok_resized:
  assumes "file_ok f" "n \<le> a" "nAllocLength f \<le> a"
    and d: "nLength f \<le> n \<and> d = content f @ replicate (unat a - unat (nLength f)) 0 \<or>
      n < nLength f \<and> d = take (unat n) (content f) @ replicate (unat a - unat n) 0"
  shows "file_ok (f\<lparr>pabyData := Some d, nAllocLength := a, nLength := n, mTime := t\<rparr>)"
    "content (f\<lparr>pabyData := Some d, nAllocLength := a, nLength := n, mTime := t\<rparr>) = resize (unat n) (content f)"
proof -
  have len: "length (content f) = unat (nLength f)" by (rule length_content [OF assms(1)])
  have le: "unat n \<le> unat a" "unat (nLength f) \<le> unat a"
    using assms(1-3) by (auto simp: word_le_nat_alt file_ok_def)
  have small: "n < nLength f \<longleftrightarrow> unat n < unat (nLength f)" by (simp add: word_less_nat_alt)
  have t: "take (unat n) d = resize (unat n) (content f)" "drop (unat n) d = replicate (unat a - unat n) 0" "length d = unat a"
    using d le by (auto simp: resize_def len small min_def not_less word_le_nat_alt)
  then show "content (f\<lparr>pabyData := Some d, nAllocLength := a, nLength := n, mTime := t\<rparr>) = resize (unat n) (content f)"
    by (simp add: content_def data_def)
  have "d = take (unat n) d @ drop (unat n) d" by simp
  then show "file_ok (f\<lparr>pabyData := Some d, nAllocLength := a, nLength := n, mTime := t\<rparr>)"
    using t assms(2) by (auto simp: file_ok_def content_def data_def)
qed

lemma new_alloc: "unat n \<le> 2 ^ 63 \<Longrightarrow> unat (n + n div 10 + 5000 :: u64) = unat n + unat n div 10 + 5000"
proof -
  assume n: "unat n \<le> 2 ^ 63"
  have "unat (n div 10) = unat n div 10" by (simp add: unat_div)
  moreover have "unat n div 10 \<le> unat n" by simp
  moreover have "unat n div 10 \<le> 2 ^ 63 div 10" using n by (rule div_le_mono)
  ultimately show ?thesis using n unat_plus [of n "n div 10"] unat_plus [of "n + n div 10" 5000] by simp
qed

text \<open>Lengths for which the size of the block does not wrap: the limit of the file or the length is at most
  \<open>2 ^ 63\<close>.\<close>

definition length_ok :: "mem_file \<Rightarrow> nat \<Rightarrow> bool" where
  "length_ok f n \<longleftrightarrow> n \<le> 2 ^ 63 \<or> unat (nMaxLength f) \<le> 2 ^ 63"

lemma length_ok_le: "length_ok f n \<Longrightarrow> m \<le> n \<Longrightarrow> nMaxLength g = nMaxLength f \<Longrightarrow> length_ok g m"
  by (auto simp: length_ok_def)

lemma SetLength_result:
  assumes "file_ok f" "length_ok f (unat n)"
  shows "\<exists>g ok. SetLength env n f = Some (g, ok) \<and> file_ok g \<and> same_file f g \<and>
    (ok \<longleftrightarrow> n \<le> nMaxLength f \<and> (n \<le> nAllocLength f \<or> bOwnData f \<and> realloc_ok env (n + n div 10 + 5000))) \<and>
    (if ok then content g = resize (unat n) (content f) \<and> nLength g = n else g = f)"
proof -
  note len = length_content [OF assms(1)]
  have inv: "unat (nLength f) \<le> unat (nAllocLength f)" "length (data f) = unat (nAllocLength f)"
    "data f = content f @ replicate (unat (nAllocLength f) - unat (nLength f)) 0"
    using assms(1) unfolding file_ok_def word_le_nat_alt by blast+
  consider (max) "nMaxLength f < n" | (refused) "n \<le> nMaxLength f" "nAllocLength f < n" "\<not> (bOwnData f \<and> realloc_ok env (n + n div 10 + 5000))"
    | (grow) "n \<le> nMaxLength f" "nAllocLength f < n" "bOwnData f" "realloc_ok env (n + n div 10 + 5000)"
    | (shrink) "n \<le> nMaxLength f" "n \<le> nAllocLength f" "n < nLength f"
    | (keep) "n \<le> nMaxLength f" "n \<le> nAllocLength f" "nLength f \<le> n" by fastforce
  then show ?thesis
  proof cases
    case max
    then have "\<not> n \<le> nMaxLength f" by (simp add: not_le)
    then show ?thesis using assms(1) max by (simp add: SetLength_def) blast
  next
    case refused
    then show ?thesis using assms(1) by (auto simp: SetLength_def VSIRealloc_def Let_def not_le)
  next
    case grow
    let ?a = "n + n div 10 + 5000"
    have "unat n \<le> 2 ^ 63" using grow(1) assms(2) by (auto simp: word_le_nat_alt length_ok_def)
    then have a: "unat (nAllocLength f) < unat n" "unat ?a = unat n + unat n div 10 + 5000"
      using grow(2) new_alloc [of n] by (simp_all add: word_less_nat_alt)
    have na: "n \<le> ?a" "nAllocLength f \<le> ?a" using a by (simp_all add: word_le_nat_alt)
    have old: "(case pabyData f of None \<Rightarrow> [] | Some m \<Rightarrow> take (unat ?a) m) = data f"
      using inv(2) a by (simp add: data_def split: option.splits)
    have sub: "unat (?a - nAllocLength f) = unat ?a - unat (nAllocLength f)" by (rule unat_sub) (rule na(2))
    have re: "VSIRealloc env (pabyData f) ?a = Some (data f @ map (fresh env) [length (data f)..<unat ?a])"
      using grow(4) by (simp only: VSIRealloc_def old if_True Let_def)
    let ?d = "content f @ replicate (unat ?a - unat (nLength f)) 0"
    have "overwrite (data f @ map (fresh env) [length (data f)..<unat ?a]) (unat (nAllocLength f))
        (replicate (unat ?a - unat (nAllocLength f)) 0) = data f @ replicate (unat ?a - unat (nAllocLength f)) 0"
      using a inv(2) by (subst overwrite_eq) auto
    also have "\<dots> = ?d" by (subst inv(3)) (use inv(1) a in \<open>simp flip: replicate_add\<close>)
    finally have st: "mem_store (data f @ map (fresh env) [length (data f)..<unat ?a]) (unat (nAllocLength f))
        (replicate (unat (?a - nAllocLength f)) 0) = Some ?d"
      using a inv(2) sub by (simp add: mem_store_def)
    have "SetLength env n f = Some (f\<lparr>pabyData := Some ?d, nAllocLength := ?a, nLength := n, mTime := clock env\<rparr>, True)"
      using grow re st by (simp add: SetLength_def Let_def)
    then show ?thesis using file_ok_resized [OF assms(1) na, of ?d] grow inv(1) a by (simp add: same_file_def word_le_nat_alt) blast
  next
    case shrink
    have n: "unat n < unat (nLength f)" using shrink(3) by (simp add: word_less_nat_alt)
    have p: "pabyData f = Some (data f)" using n inv by (cases "pabyData f") (auto simp: data_def)
    have sub: "unat (nLength f - n) = unat (nLength f) - unat n" using shrink(3) by (intro unat_sub) simp
    let ?d = "take (unat n) (content f) @ replicate (unat (nAllocLength f) - unat n) 0"
    have "overwrite (data f) (unat n) (replicate (unat (nLength f) - unat n) 0) =
        take (unat n) (data f) @ replicate (unat (nLength f) - unat n) 0 @ drop (unat (nLength f)) (data f)"
      using n inv by (subst overwrite_eq) auto
    also have "\<dots> = ?d" using n inv(1) len by (subst (1 2) inv(3)) (simp flip: replicate_add)
    finally have st: "mem_store (data f) (unat n) (replicate (unat (nLength f - n)) 0) = Some ?d"
      using n inv sub by (simp add: mem_store_def)
    have "SetLength env n f = Some (f\<lparr>pabyData := Some ?d, nAllocLength := nAllocLength f, nLength := n, mTime := clock env\<rparr>, True)"
      using shrink p st by (simp add: SetLength_def Let_def not_less [symmetric])
    then show ?thesis
      using file_ok_resized [OF assms(1) shrink(2) order_refl, of ?d] shrink by (simp add: same_file_def) blast
  next
    case keep
    show ?thesis
    proof (cases "pabyData f")
      case None
      then have "nAllocLength f = 0" using inv(2) by (simp add: data_def unat_eq_0)
      then have "n = 0" "nLength f = 0" using keep by (simp_all add: word_le_0_iff)
      then show ?thesis using keep None assms(1) by (auto simp: SetLength_def Let_def file_ok_def data_def content_def resize_def same_file_def)
    next
      case (Some m)
      then have m: "m = data f" by (simp add: data_def)
      have "SetLength env n f = Some (f\<lparr>pabyData := Some (data f), nAllocLength := nAllocLength f, nLength := n, mTime := clock env\<rparr>, True)"
        using keep Some m by (simp add: SetLength_def Let_def not_less [symmetric])
      then show ?thesis
        using file_ok_resized [OF assms(1) keep(2) order_refl, of "data f"] inv(3) keep by (simp add: same_file_def) blast
    qed
  qed
qed


subsection \<open>A file with one handle\<close>

text \<open>Writing at a position: what lies between the end of the file and the position becomes zero.\<close>

definition write_at :: "nat \<Rightarrow> byte list \<Rightarrow> byte list \<Rightarrow> byte list" where
  "write_at p xs c = take p (c @ replicate (p - length c) 0) @ xs @ drop (p + length xs) c"

lemma resize_take_drop:
  assumes "k = max (p + n) (length c)"
  shows "take p (resize k c) = take p (c @ replicate (p - length c) 0)" "drop (p + n) (resize k c) = drop (p + n) c"
  using assms by (auto simp: resize_def max_def min_def)

lemma write_at_resize:
  "k = max (p + length xs) (length c) \<Longrightarrow> take p (resize k c) @ xs @ drop (p + length xs) (resize k c) = write_at p xs c"
  by (simp only: write_at_def resize_take_drop)

lemma resize_resize: "length c \<le> p \<Longrightarrow> p \<le> k \<Longrightarrow> resize k (resize p c) = resize k c"
  by (simp add: resize_def flip: replicate_add)

lemma resize_self [simp]: "resize (length c) c = c"
  by (simp add: resize_def)

lemma store_content:
  assumes "file_ok f" "p + length xs \<le> unat (nLength f)" "xs \<noteq> []"
  shows "\<exists>m m'. pabyData f = Some m \<and> mem_store m p xs = Some m' \<and> file_ok (f\<lparr>pabyData := Some m'\<rparr>) \<and>
    content (f\<lparr>pabyData := Some m'\<rparr>) = take p (content f) @ xs @ drop (p + length xs) (content f)"
proof -
  have inv: "nLength f \<le> nAllocLength f" "unat (nLength f) \<le> unat (nAllocLength f)" "length (data f) = unat (nAllocLength f)"
    "data f = content f @ replicate (unat (nAllocLength f) - unat (nLength f)) 0"
    using assms(1) unfolding file_ok_def word_le_nat_alt by blast+
  note len = length_content [OF assms(1)]
  have "0 < length (data f)" using assms(2,3) inv by (cases xs) auto
  then have p: "pabyData f = Some (data f)" by (cases "pabyData f") (auto simp: data_def)
  let ?m = "take p (content f) @ xs @ drop (p + length xs) (content f) @ replicate (unat (nAllocLength f) - unat (nLength f)) 0"
  have "overwrite (data f) p xs = take p (data f) @ xs @ drop (p + length xs) (data f)"
    using assms(2) inv by (intro overwrite_eq) simp
  also have "\<dots> = ?m" by (subst (1 2) inv(4)) (use assms(2) len in simp)
  finally have "mem_store (data f) p xs = Some ?m" using assms(2) inv by (simp add: mem_store_def)
  moreover have "content (f\<lparr>pabyData := Some ?m\<rparr>) = take p (content f) @ xs @ drop (p + length xs) (content f)"
    using assms(2) len by (simp add: content_def [of "f\<lparr>pabyData := Some ?m\<rparr>"] data_def)
  moreover from this have "file_ok (f\<lparr>pabyData := Some ?m\<rparr>)"
    using inv assms(2) len by (simp add: file_ok_def data_def)
  ultimately show ?thesis using p by blast
qed

lemma load_content:
  assumes "file_ok f" "p + n \<le> unat (nLength f)" "0 < n"
  shows "\<exists>m. pabyData f = Some m \<and> mem_load m p n = Some (take n (drop p (content f)))"
proof -
  have inv: "unat (nLength f) \<le> unat (nAllocLength f)" "length (data f) = unat (nAllocLength f)"
    using assms(1) unfolding file_ok_def word_le_nat_alt by blast+
  have "0 < length (data f)" using assms(2,3) inv by simp
  then have "pabyData f = Some (data f)" by (cases "pabyData f") (auto simp: data_def)
  moreover have "take n (drop p (data f)) = take n (drop p (content f))"
    using assms(2) by (simp add: content_def drop_take min_def)
  ultimately show ?thesis using assms(2) inv by (simp add: mem_load_def)
qed


subsection \<open>Operations of a handle refine those of a file\<close>

datatype file_op = Op_Seek u64 int | Op_Tell | Op_Read u64 u64 | Op_PRead u64 u64 | Op_Eof
  | Op_Write "byte list" u64 u64 | Op_Truncate u64

datatype file_out = Status int | Offset u64 | Data "byte list" u64 | Flag bool | Count u64

fun file_step :: "vsi_env \<times> file_op \<Rightarrow> mem_file \<times> mem_handle \<Rightarrow> ((mem_file \<times> mem_handle) \<times> file_out) option" where
  "file_step (env, Op_Seek off whence) (f, h) = (case Seek off whence f h of (h, r) \<Rightarrow> Some ((f, h), Status r))"
| "file_step (env, Op_Tell) (f, h) = Some ((f, h), Offset (Tell h))"
| "file_step (env, Op_Read nSize nCount) (f, h) = map_option (\<lambda>(h, xs, n). ((f, h), Data xs n)) (Read nSize nCount f h)"
| "file_step (env, Op_PRead nSize off) (f, h) = map_option (\<lambda>(xs, n). ((f, h), Data xs n)) (PRead nSize off f)"
| "file_step (env, Op_Eof) (f, h) = Some ((f, h), Flag (Eof h))"
| "file_step (env, Op_Write xs nSize nCount) (f, h) =
     map_option (\<lambda>(f, h, n). ((f, h), Count n)) (Write env xs nSize nCount f h)"
| "file_step (env, Op_Truncate n) (f, h) = map_option (\<lambda>(f, h, r). ((f, h), Status r)) (Truncate env n f h)"

text \<open>The specification: a sequence of bytes, a position and the end-of-file flag.  A write or truncation
  may fail only where the file would have to grow, and grow beyond its limit, without owning its block or
  without memory for it; then at most the gap up to the position has been filled with zeros.\<close>

record file_state =
  bytes :: "byte list"
  pos :: nat
  at_eof :: bool

definition must_fit :: "bool \<Rightarrow> u64 \<Rightarrow> vsi_env \<Rightarrow> nat \<Rightarrow> file_state \<Rightarrow> bool" where
  "must_fit owned limit env n a \<longleftrightarrow>
     n \<le> length (bytes a) \<and> n \<le> unat limit \<or> n \<le> unat limit \<and> owned \<and> (\<forall>m. realloc_ok env m)"

definition seek_base :: "int \<Rightarrow> file_state \<Rightarrow> nat option" where
  "seek_base whence a = (if whence = SEEK_CUR then Some (pos a) else if whence = SEEK_SET then Some 0
     else if whence = SEEK_END then Some (length (bytes a)) else None)"

definition spec_seek :: "u64 \<Rightarrow> int \<Rightarrow> file_state \<Rightarrow> file_state \<Rightarrow> file_out \<Rightarrow> bool" where
  "spec_seek off whence a b out \<longleftrightarrow>
     (case seek_base whence a of
        None \<Rightarrow> b = a \<and> out = Status (- 1)
      | Some base \<Rightarrow> b = a\<lparr>pos := (base + unat off) mod 2 ^ 64, at_eof := False\<rparr> \<and> out = Status 0)"

definition spec_read :: "nat \<Rightarrow> nat \<Rightarrow> file_state \<Rightarrow> file_state \<Rightarrow> file_out \<Rightarrow> bool" where
  "spec_read nSize nCount a b out \<longleftrightarrow>
     (let n = nSize * nCount; xs = take n (drop (pos a) (bytes a)) in
      if n = 0 then b = a \<and> out = Data [] 0
      else if n < 2 ^ 64 \<and> pos a + n < 2 ^ 64 then
        b = a\<lparr>pos := pos a + length xs, at_eof := at_eof a \<or> length xs < n\<rparr> \<and>
        out = Data xs (of_nat (length xs div nSize))
      else b \<in> {a, a\<lparr>at_eof := True\<rparr>} \<and> out = Data [] 0)"

definition spec_write :: "bool \<Rightarrow> bool \<Rightarrow> u64 \<Rightarrow> vsi_env \<Rightarrow> byte list \<Rightarrow> u64 \<Rightarrow> u64 \<Rightarrow> file_state \<Rightarrow> file_state \<Rightarrow> file_out \<Rightarrow> bool" where
  "spec_write writable owned limit env buf nSize nCount a b out \<longleftrightarrow>
     (let n = unat nSize * unat nCount; fits = n < 2 ^ 64 \<and> pos a + n < 2 ^ 64 in
      if \<not> writable then b = a \<and> out = Count 0
      else fits \<and> b = a\<lparr>bytes := write_at (pos a) (take n buf) (bytes a), pos := pos a + n\<rparr> \<and> out = Count nCount \<or>
        \<not> (fits \<and> must_fit owned limit env (pos a + n) a) \<and> out = Count 0 \<and>
        (b = a \<or> length (bytes a) < pos a \<and> b = a\<lparr>bytes := resize (pos a) (bytes a)\<rparr>))"

definition spec_truncate :: "bool \<Rightarrow> bool \<Rightarrow> u64 \<Rightarrow> vsi_env \<Rightarrow> nat \<Rightarrow> file_state \<Rightarrow> file_state \<Rightarrow> file_out \<Rightarrow> bool" where
  "spec_truncate writable owned limit env n a b out \<longleftrightarrow>
     writable \<and> b = a\<lparr>bytes := resize n (bytes a)\<rparr> \<and> out = Status 0 \<or>
     \<not> (writable \<and> must_fit owned limit env n a) \<and> b = a \<and> out = Status (- 1)"

fun file_spec :: "bool \<Rightarrow> bool \<Rightarrow> u64 \<Rightarrow> vsi_env \<times> file_op \<Rightarrow> file_state \<Rightarrow> file_state \<Rightarrow> file_out \<Rightarrow> bool" where
  "file_spec writable owned limit (env, Op_Seek off whence) a b out = spec_seek off whence a b out"
| "file_spec writable owned limit (env, Op_Tell) a b out = (b = a \<and> out = Offset (of_nat (pos a)))"
| "file_spec writable owned limit (env, Op_Read nSize nCount) a b out = spec_read (unat nSize) (unat nCount) a b out"
| "file_spec writable owned limit (env, Op_PRead nSize off) a b out =
     (let xs = take (unat nSize) (drop (unat off) (bytes a)) in b = a \<and> out = Data xs (of_nat (length xs)))"
| "file_spec writable owned limit (env, Op_Eof) a b out = (b = a \<and> out = Flag (at_eof a))"
| "file_spec writable owned limit (env, Op_Write xs nSize nCount) a b out =
     spec_write writable owned limit env xs nSize nCount a b out"
| "file_spec writable owned limit (env, Op_Truncate n) a b out = spec_truncate writable owned limit env (unat n) a b out"

definition abs_file :: "mem_file \<times> mem_handle \<Rightarrow> file_state" where
  "abs_file s = (case s of (f, h) \<Rightarrow> \<lparr>bytes = content f, pos = unat (m_nOffset h), at_eof = bEOF h\<rparr>)"

definition file_inv :: "bool \<Rightarrow> bool \<Rightarrow> u64 \<Rightarrow> mem_file \<times> mem_handle \<Rightarrow> bool" where
  "file_inv writable owned limit s \<longleftrightarrow>
     (case s of (f, h) \<Rightarrow> file_ok f \<and> nMaxLength f = limit \<and> bOwnData f = owned \<and> bUpdate h = writable \<and>
        (bExtendFileAtNextWrite h \<longrightarrow> nLength f < m_nOffset h))"

text \<open>The caller's buffer holds the bytes to write, and the length asked for is not so large that the size of the
  block wraps.\<close>

definition op_ok :: "vsi_env \<times> file_op \<Rightarrow> mem_file \<times> mem_handle \<Rightarrow> bool" where
  "op_ok eo s \<longleftrightarrow>
     (case snd eo of
        Op_Write xs nSize nCount \<Rightarrow>
          unat (nSize * nCount) \<le> length xs \<and> length_ok (fst s) (unat (m_nOffset (snd s)) + unat nSize * unat nCount)
      | Op_Truncate n \<Rightarrow> length_ok (fst s) (unat n)
      | _ \<Rightarrow> True)"


lemma word_div_nat: "w div v = (of_nat (unat w div unat v) :: u64)"
  by (simp flip: unat_div)

lemma unat_plus_mod: "unat (a + b :: u64) = (unat a + unat b) mod 2 ^ 64"
  by (simp add: unat_word_ariths)

lemma word_zero_unat: "a = 0 \<longleftrightarrow> unat (a :: u64) = 0"
  by (simp add: unat_eq_0)

lemma Seek_refines:
  assumes "file_inv w r l (f, h)"
  shows "\<exists>g out. Seek off whence f h = (g, out) \<and> file_inv w r l (f, g) \<and>
    spec_seek off whence (abs_file (f, h)) (abs_file (f, g)) (Status out)"
proof -
  have f: "file_ok f" "bUpdate h = w" "nMaxLength f = l" "bOwnData f = r" using assms by (simp_all add: file_inv_def)
  note len = length_content [OF f(1)]
  consider "whence = SEEK_CUR" | "whence = SEEK_SET" | "whence = SEEK_END" | "whence \<noteq> SEEK_CUR" "whence \<noteq> SEEK_SET" "whence \<noteq> SEEK_END"
    by blast
  moreover have "unat off mod 2 ^ 64 = unat off" using unsigned_less [of off, where ?'a = nat] by simp
  ultimately show ?thesis
    by cases
      (use f len in \<open>auto simp: Seek_def Let_def file_inv_def spec_seek_def seek_base_def abs_file_def unat_plus_mod
        SEEK_CUR_def SEEK_SET_def SEEK_END_def\<close>)
qed

lemma PRead_refines:
  assumes "file_ok f"
  shows "PRead nSize off f =
    (let xs = take (unat nSize) (drop (unat off) (content f)) in Some (xs, of_nat (length xs)))"
proof (cases "off < nLength f")
  case True
  note len = length_content [OF assms]
  have less: "unat off < unat (nLength f)" using True by (simp add: word_less_nat_alt)
  have sub: "unat (nLength f - off) = unat (nLength f) - unat off" using True by (intro unat_sub) simp
  define k where "k = min (nLength f - off) nSize"
  have k: "unat k = min (unat (nLength f) - unat off) (unat nSize)"
    by (simp add: k_def min_def word_le_nat_alt sub)
  have xs: "take (unat nSize) (drop (unat off) (content f)) = take (unat k) (drop (unat off) (content f))"
    using len by (simp add: k min_def)
  have lx: "length (take (unat k) (drop (unat off) (content f))) = unat k" using len less by (simp add: k)
  show ?thesis
  proof (cases "unat k = 0")
    case zero: True
    have "\<exists>m. pabyData f = Some m \<and> mem_load m (unat off) 1 = Some (take 1 (drop (unat off) (content f)))"
      by (rule load_content [OF assms]) (use less in simp_all)
    then obtain m where "pabyData f = Some m" "unat off + 1 \<le> length m" by (auto simp: mem_load_def split: if_splits)
    moreover have "k = 0" "min (length (content f) - unat off) (unat nSize) = 0" using zero k len by (simp_all add: word_zero_unat)
    ultimately show ?thesis using True xs lx by (simp add: PRead_def mem_load_def k_def [symmetric] Let_def)
  next
    case False
    have "unat off + unat k \<le> unat (nLength f)" using less k by simp
    with False obtain m where "pabyData f = Some m" "mem_load m (unat off) (unat k) = Some (take (unat k) (drop (unat off) (content f)))"
      using load_content [OF assms, of "unat off" "unat k"] by blast
    then show ?thesis using True xs lx by (simp add: PRead_def k_def [symmetric] Let_def)
  qed
next
  case False
  then have "length (content f) \<le> unat off" using length_content [OF assms] by (simp add: word_less_nat_alt)
  then show ?thesis using False by (simp add: PRead_def)
qed

lemma Read_refines:
  assumes "file_inv w r l (f, h)"
  shows "\<exists>g xs k. Read nSize nCount f h = Some (g, xs, k) \<and> file_inv w r l (f, g) \<and>
    spec_read (unat nSize) (unat nCount) (abs_file (f, h)) (abs_file (f, g)) (Data xs k)"
proof -
  have f: "file_ok f" and inv: "file_inv w r l (f, h)" "\<And>e. file_inv w r l (f, h\<lparr>bEOF := e\<rparr>)"
    using assms by (simp_all add: file_inv_def)
  note len = length_content [OF f]
  define n where "n = unat nSize * unat nCount"
  consider (zero) "n = 0" | (wrap) "2 ^ 64 \<le> n" | (far) "0 < n" "n < 2 ^ 64" "2 ^ 64 \<le> n + unat (m_nOffset h)"
    | (behind) "0 < n" "n < 2 ^ 64" "n + unat (m_nOffset h) < 2 ^ 64" "nLength f \<le> m_nOffset h"
    | (short) "0 < n" "n < 2 ^ 64" "n + unat (m_nOffset h) < 2 ^ 64" "m_nOffset h < nLength f" "unat (nLength f) < n + unat (m_nOffset h)"
    | (full) "0 < n" "n < 2 ^ 64" "n + unat (m_nOffset h) < 2 ^ 64" "m_nOffset h < nLength f" "n + unat (m_nOffset h) \<le> unat (nLength f)"
    by fastforce
  then show ?thesis
  proof cases
    case zero
    then have z: "unat nSize * unat nCount = 0" by (simp only: n_def)
    have "unat (nSize * nCount) = unat nSize * unat nCount" by (rule unat_times) (simp only: z, simp)
    then have "nSize * nCount = 0" by (simp only: word_zero_unat z)
    then show ?thesis using inv(1) by (simp add: Read_def Let_def spec_read_def z del: mult_eq_0_iff)
  next
    case wrap
    then have pos: "0 < unat nSize" "0 < unat nCount" by (auto simp: n_def intro!: gr0I)
    then have "0 < nCount" by (simp only: word_less_nat_alt unat_0)
    then have "(nSize * nCount) div nCount \<noteq> nSize" using times_wraps [of nCount nSize] wrap by (simp add: n_def)
    then show ?thesis
      using wrap inv pos \<open>0 < nCount\<close> by (auto simp: Read_def Let_def spec_read_def n_def abs_file_def)
  next
    case far
    have p: "unat (nSize * nCount) = n" using far(2) unat_times by (simp add: n_def)
    then have nz: "nSize * nCount \<noteq> 0" using far(1) by (auto simp: word_zero_unat)
    have c: "0 < nCount" using far(1) by (auto simp: n_def word_neq_0_conv [symmetric])
    have d: "(nSize * nCount) div nCount = nSize" using times_wraps [OF c, of nSize] far(2) by (simp add: n_def)
    have "nSize * nCount + m_nOffset h < nSize * nCount" using far(3) by (simp add: plus_wraps p)
    then show ?thesis
      using far inv nz c d by (auto simp: Read_def Let_def spec_read_def n_def abs_file_def add.commute)
  next
    case behind
    have p: "unat (nSize * nCount) = n" using behind(2) unat_times by (simp add: n_def)
    then have nz: "nSize * nCount \<noteq> 0" using behind(1) by (auto simp: word_zero_unat)
    have c: "0 < nCount" using behind(1) by (auto simp: n_def word_neq_0_conv [symmetric])
    have d: "(nSize * nCount) div nCount = nSize" using times_wraps [OF c, of nSize] behind(2) by (simp add: n_def)
    have "length (content f) \<le> unat (m_nOffset h)" using behind(4) len by (simp add: word_le_nat_alt)
    then show ?thesis
      using behind inv nz c d by (simp add: Read_def Let_def spec_read_def n_def abs_file_def add.commute)
  next
    case short
    have p: "unat (nSize * nCount) = n" using short(2) unat_times by (simp add: n_def)
    then have nz: "nSize * nCount \<noteq> 0" using short(1) by (auto simp: word_zero_unat)
    have c: "0 < nCount" using short(1) by (auto simp: n_def word_neq_0_conv [symmetric])
    have d: "(nSize * nCount) div nCount = nSize" using times_wraps [OF c, of nSize] short(2) by (simp add: n_def)
    have s: "unat (nSize * nCount + m_nOffset h) = n + unat (m_nOffset h)" using short(3) p by (simp add: unat_plus)
    have less: "unat (m_nOffset h) < unat (nLength f)" using short(4) by (simp add: word_less_nat_alt)
    have a: "unat (nLength f - m_nOffset h) = unat (nLength f) - unat (m_nOffset h)" using short(4) by (intro unat_sub) simp
    have anz: "nLength f - m_nOffset h \<noteq> 0" using short(4) by auto
    have gt: "nLength f < nSize * nCount + m_nOffset h" using short(5) s by (simp add: word_less_nat_alt)
    have nw: "\<not> nSize * nCount + m_nOffset h < nSize * nCount" using short(3) by (simp add: plus_wraps p)
    obtain m where m: "pabyData f = Some m" "mem_load m (unat (m_nOffset h)) (unat (nLength f - m_nOffset h)) =
        Some (take (unat (nLength f - m_nOffset h)) (drop (unat (m_nOffset h)) (content f)))"
      using load_content [OF f, of "unat (m_nOffset h)" "unat (nLength f - m_nOffset h)"] less a by auto
    have xs: "take (unat (nLength f - m_nOffset h)) (drop (unat (m_nOffset h)) (content f)) = take n (drop (unat (m_nOffset h)) (content f))"
      using a len short(5) by simp
    have lx: "length (take n (drop (unat (m_nOffset h)) (content f))) = unat (nLength f) - unat (m_nOffset h)"
      using len short(5) by simp
    have rd: "Read nSize nCount f h =
        Some (h\<lparr>bEOF := True, m_nOffset := m_nOffset h + (nLength f - m_nOffset h)\<rparr>,
          take n (drop (unat (m_nOffset h)) (content f)), (nLength f - m_nOffset h) div nSize)"
      using nz c d nw gt short(4) not_le [THEN iffD2, OF short(4)] m xs anz by (simp add: Read_def Let_def)
    have off: "m_nOffset h + (nLength f - m_nOffset h) = nLength f" by simp
    show ?thesis unfolding rd off
      using inv(1) lx short less a len
      by (auto simp: file_inv_def spec_read_def Let_def n_def [symmetric] abs_file_def word_div_nat add.commute)
  next
    case full
    have p: "unat (nSize * nCount) = n" using full(2) unat_times by (simp add: n_def)
    then have nz: "nSize * nCount \<noteq> 0" using full(1) by (auto simp: word_zero_unat)
    have c: "0 < nCount" using full(1) by (auto simp: n_def word_neq_0_conv [symmetric])
    have d: "(nSize * nCount) div nCount = nSize" using times_wraps [OF c, of nSize] full(2) by (simp add: n_def)
    have s: "unat (nSize * nCount + m_nOffset h) = n + unat (m_nOffset h)" using full(3) p by (simp add: unat_plus)
    have gt: "\<not> nLength f < nSize * nCount + m_nOffset h" using full(5) s by (simp add: word_less_nat_alt)
    have nw: "\<not> nSize * nCount + m_nOffset h < nSize * nCount" using full(3) by (simp add: plus_wraps p)
    obtain m where m: "pabyData f = Some m" "mem_load m (unat (m_nOffset h)) (unat (nSize * nCount)) =
        Some (take n (drop (unat (m_nOffset h)) (content f)))"
      using load_content [OF f, of "unat (m_nOffset h)" n] full(1,5) p by (auto simp: add.commute)
    have lx: "length (take n (drop (unat (m_nOffset h)) (content f))) = n" using len full(5) by simp
    have rd: "Read nSize nCount f h =
        Some (h\<lparr>m_nOffset := m_nOffset h + nSize * nCount\<rparr>, take n (drop (unat (m_nOffset h)) (content f)), nCount)"
      using nz c d nw gt full(4) not_le [THEN iffD2, OF full(4)] m by (simp add: Read_def Let_def)
    have off: "unat (m_nOffset h + nSize * nCount) = unat (m_nOffset h) + n" using s by (simp add: add.commute)
    have sz: "0 < unat nSize" using full(1) by (auto simp: n_def)
    have e: "\<not> bExtendFileAtNextWrite h" using inv(1) full(4) by (auto simp: file_inv_def)
    show ?thesis unfolding rd
      using inv(1) lx full off sz e
      by (auto simp: file_inv_def spec_read_def Let_def n_def [symmetric] abs_file_def add.commute) (simp_all add: n_def)
  qed
qed


text \<open>The write behind a file that is already as long as it has to be.\<close>

lemma SetLength_fits:
  assumes "SetLength env n f = Some (g, ok)" "file_ok f" "length_ok f (unat n)"
    "must_fit (bOwnData f) (nMaxLength f) env (unat n) a" "length (bytes a) \<le> unat (nAllocLength f)"
  shows "ok"
proof -
  have "n \<le> nMaxLength f" "unat n \<le> unat (nAllocLength f) \<or> bOwnData f \<and> (\<forall>m. realloc_ok env m)"
    using assms(4,5) by (auto simp: must_fit_def word_le_nat_alt)
  then show ?thesis using SetLength_result [OF assms(2,3), of env] assms(1) by (auto simp: word_le_nat_alt)
qed

lemma mTime_irrelevant [simp]:
  "file_ok (f\<lparr>mTime := t\<rparr>) = file_ok f" "content (f\<lparr>mTime := t\<rparr>) = content f" "same_file f (g\<lparr>mTime := t\<rparr>) = same_file f g"
  by (simp_all add: file_ok_def content_def data_def same_file_def)

lemma Write_put_result:
  assumes f: "file_ok f" "length_ok f (unat n + unat (m_nOffset h))" and n: "unat n + unat (m_nOffset h) < 2 ^ 64" "unat n \<le> length buf"
  shows "\<exists>g k. Write_put env buf n nCount f h = Some (g, k) \<and> file_ok g \<and> same_file f g \<and>
    (k = (h\<lparr>m_nOffset := m_nOffset h + n\<rparr>, nCount) \<and> content g = write_at (unat (m_nOffset h)) (take (unat n) buf) (content f) \<and>
       unat (nLength g) = max (unat (m_nOffset h) + unat n) (unat (nLength f)) \<or>
     k = (h, 0) \<and> g = f \<and> unat (nLength f) < unat (m_nOffset h) + unat n \<and>
       \<not> (n + m_nOffset h \<le> nMaxLength f \<and>
         (n + m_nOffset h \<le> nAllocLength f \<or> bOwnData f \<and> realloc_ok env (n + m_nOffset h + (n + m_nOffset h) div 10 + 5000))))"
proof -
  let ?e = "n + m_nOffset h" and ?p = "unat (m_nOffset h)" and ?xs = "take (unat n) buf"
  have e: "unat ?e = unat n + ?p" using n(1) by (simp add: unat_plus)
  note len = length_content [OF f(1)]
  obtain f1 ok where f1: "(if ?e > nLength f then SetLength env ?e f else Some (f, True)) = Some (f1, ok)"
    "file_ok f1" "same_file f f1"
    "if ok then content f1 = resize (max (?p + unat n) (length (content f))) (content f) else
       f1 = f \<and> unat (nLength f) < ?p + unat n \<and> \<not> (?e \<le> nMaxLength f \<and> (?e \<le> nAllocLength f \<or> bOwnData f \<and> realloc_ok env (?e + ?e div 10 + 5000)))"
  proof (cases "?e > nLength f")
    case True
    obtain g ok where g: "SetLength env ?e f = Some (g, ok)" "file_ok g" "same_file f g"
      "ok \<longleftrightarrow> ?e \<le> nMaxLength f \<and> (?e \<le> nAllocLength f \<or> bOwnData f \<and> realloc_ok env (?e + ?e div 10 + 5000))"
      "if ok then content g = resize (unat ?e) (content f) \<and> nLength g = ?e else g = f"
      using SetLength_result [OF f(1), of ?e env] f(2) e by auto
    have "unat (nLength f) < unat ?e" using True by (simp add: word_less_nat_alt)
    then have "max (?p + unat n) (length (content f)) = unat ?e" "unat (nLength f) < ?p + unat n" using len e by simp_all
    show thesis
      by (rule that [of g ok])
        (use True g \<open>max (?p + unat n) (length (content f)) = unat ?e\<close> \<open>unat (nLength f) < ?p + unat n\<close> in \<open>simp_all split: if_splits\<close>)
  next
    case False
    then have "max (?p + unat n) (length (content f)) = length (content f)" using len e by (simp add: word_less_nat_alt)
    then show thesis using that [of f True] False f(1) by simp
  qed
  show ?thesis
  proof (cases ok)
    case False
    then have "Write_put env buf n nCount f h = Some (f1, h, 0)" using f1(1) by (simp add: Write_put_def)
    then show ?thesis using False f1 f(1) by auto
  next
    case True
    then have c1: "content f1 = resize (max (?p + unat n) (length (content f))) (content f)" using f1(4) by simp
    then have l1: "unat (nLength f1) = max (?p + unat n) (length (content f))" using length_content [OF f1(2)] by simp
    have xs: "length ?xs = unat n" using n(2) by simp
    have w: "take ?p (content f1) @ ?xs @ drop (?p + length ?xs) (content f1) = write_at ?p ?xs (content f)"
      unfolding c1 using xs by (intro write_at_resize) simp
    show ?thesis
    proof (cases "n = 0")
      case zero: True
      have "(if 0 + m_nOffset h > nLength f then SetLength env (0 + m_nOffset h) f else Some (f, True)) = Some (f1, True)"
        using f1(1) True unfolding zero by simp
      then have "Write_put env buf n nCount f h = Some (f1\<lparr>mTime := clock env\<rparr>, h\<lparr>m_nOffset := m_nOffset h + n\<rparr>, nCount)"
        unfolding Write_put_def zero by simp
      moreover have "content f1 = write_at ?p ?xs (content f)" using w zero by simp
      ultimately show ?thesis using f1(2,3) l1 len by simp
    next
      case False
      then have nz: "0 < unat n" by (simp add: unat_gt_0)
      then have "?xs \<noteq> []" using xs by (cases ?xs) auto
      moreover have "?p + length ?xs \<le> unat (nLength f1)" using l1 xs by simp
      ultimately obtain m m' where m: "pabyData f1 = Some m" "mem_store m ?p ?xs = Some m'" "file_ok (f1\<lparr>pabyData := Some m'\<rparr>)"
        "content (f1\<lparr>pabyData := Some m'\<rparr>) = write_at ?p ?xs (content f)"
        using store_content [OF f1(2), of ?p ?xs] w by auto
      have "mem_load buf 0 (unat n) = Some ?xs" using n(2) by (simp add: mem_load_def)
      then have "Write_put env buf n nCount f h =
          Some (f1\<lparr>pabyData := Some m', mTime := clock env\<rparr>, h\<lparr>m_nOffset := m_nOffset h + n\<rparr>, nCount)"
        using f1(1) True False m by (simp add: Write_put_def)
      moreover have "same_file f (f1\<lparr>pabyData := Some m'\<rparr>)" using f1(3) by (simp add: same_file_def)
      ultimately show ?thesis using m l1 len by simp
    qed
  qed
qed


text \<open>The first part of a write leaves the file as it was or ends it at the position.\<close>

lemma Write_extend_result:
  assumes f: "file_ok f" "length_ok f (unat (m_nOffset h))" and ext: "bExtendFileAtNextWrite h \<longrightarrow> nLength f < m_nOffset h"
  shows "\<exists>g ok. Write_extend env f h = Some (g, h\<lparr>bExtendFileAtNextWrite := False\<rparr>, ok) \<and> file_ok g \<and> same_file f g \<and>
    (g = f \<or> unat (nLength f) < unat (m_nOffset h) \<and> content g = resize (unat (m_nOffset h)) (content f) \<and> nLength g = m_nOffset h) \<and>
    (\<not> ok \<longrightarrow> g = f \<and> unat (nLength f) < unat (m_nOffset h) \<and> \<not> (m_nOffset h \<le> nMaxLength f \<and>
      (m_nOffset h \<le> nAllocLength f \<or> bOwnData f \<and> realloc_ok env (m_nOffset h + m_nOffset h div 10 + 5000))))"
proof (cases "bExtendFileAtNextWrite h")
  case True
  obtain g ok where g: "SetLength env (m_nOffset h) f = Some (g, ok)" "file_ok g" "same_file f g"
    "ok \<longleftrightarrow> m_nOffset h \<le> nMaxLength f \<and> (m_nOffset h \<le> nAllocLength f \<or> bOwnData f \<and> realloc_ok env (m_nOffset h + m_nOffset h div 10 + 5000))"
    "if ok then content g = resize (unat (m_nOffset h)) (content f) \<and> nLength g = m_nOffset h else g = f"
    using SetLength_result [OF f, of env] by blast
  have less: "unat (nLength f) < unat (m_nOffset h)" using ext True by (simp add: word_less_nat_alt)
  have e: "Write_extend env f h = Some (g, h\<lparr>bExtendFileAtNextWrite := False\<rparr>, ok)" using True g(1) by (simp add: Write_extend_def)
  show ?thesis
  proof (rule exI [of _ g], rule exI [of _ ok], intro conjI impI)
    show "\<not> (m_nOffset h \<le> nMaxLength f \<and>
      (m_nOffset h \<le> nAllocLength f \<or> bOwnData f \<and> realloc_ok env (m_nOffset h + m_nOffset h div 10 + 5000)))" if "\<not> ok"
      using that g(4) by blast
  qed (use e g less in \<open>auto split: if_splits\<close>)
next
  case False
  then have h: "h\<lparr>bExtendFileAtNextWrite := False\<rparr> = h" by simp
  have "Write_extend env f h = Some (f, h, True)" using False by (simp add: Write_extend_def)
  then show ?thesis using f(1) by (subst h) (intro exI [of _ f] exI [of _ True], simp)
qed

lemma write_at_resized:
  "length c < p \<Longrightarrow> write_at p xs (resize p c) = write_at p xs c"
  by (simp add: write_at_def resize_def)

text \<open>What refuses memory or a length does not have to fit.\<close>

lemma refused_not_fit:
  assumes "file_ok f" "n \<le> k" "unat (nLength f) < n" "unat w = n"
    and "\<not> (w \<le> nMaxLength f \<and> (w \<le> nAllocLength f \<or> bOwnData f \<and> realloc_ok env (w + w div 10 + 5000)))"
    and "bytes a = content f"
  shows "\<not> must_fit (bOwnData f) (nMaxLength f) env k a"
  using assms length_content [OF assms(1)] by (auto simp: must_fit_def word_le_nat_alt)

lemma spec_write_refused:
  assumes w and "\<not> ((unat nSize * unat nCount < 2 ^ 64 \<and> pos a + unat nSize * unat nCount < 2 ^ 64) \<and>
      must_fit r l env (pos a + unat nSize * unat nCount) a)"
    and "b = a \<or> length (bytes a) < pos a \<and> b = a\<lparr>bytes := resize (pos a) (bytes a)\<rparr>"
  shows "spec_write w r l env buf nSize nCount a b (Count 0)"
  unfolding spec_write_def Let_def by (subst if_not_P) (use assms in blast)+

lemma Write_refines:
  assumes inv: "file_inv w r l (f, h)" and l: "length_ok f (unat (m_nOffset h) + unat nSize * unat nCount)" and buf: "unat (nSize * nCount) \<le> length buf"
  shows "\<exists>g g' k. Write env buf nSize nCount f h = Some (g, g', k) \<and> file_inv w r l (g, g') \<and>
    spec_write w r l env buf nSize nCount (abs_file (f, h)) (abs_file (g, g')) (Count k)"
proof (cases w)
  case False
  then show ?thesis using inv by (simp add: file_inv_def Write_def spec_write_def)
next
  case True
  have f: "file_ok f" "bUpdate h" "nMaxLength f = l" "bOwnData f = r" "bExtendFileAtNextWrite h \<longrightarrow> nLength f < m_nOffset h"
    using inv True by (simp_all add: file_inv_def)
  have lim: "length_ok f (unat (m_nOffset h))" by (rule length_ok_le [OF l]) simp_all
  note len = length_content [OF f(1)]
  let ?h = "h\<lparr>bExtendFileAtNextWrite := False\<rparr>" and ?p = "unat (m_nOffset h)" and ?a = "abs_file (f, h)"
  define n where "n = unat nSize * unat nCount"
  have a: "bytes ?a = content f" "pos ?a = ?p" by (simp_all add: abs_file_def)
  obtain f1 ok where f1: "Write_extend env f h = Some (f1, ?h, ok)" "file_ok f1" "same_file f f1"
    "f1 = f \<or> unat (nLength f) < ?p \<and> content f1 = resize ?p (content f) \<and> nLength f1 = m_nOffset h"
    "\<not> ok \<longrightarrow> f1 = f \<and> unat (nLength f) < ?p \<and> \<not> (m_nOffset h \<le> nMaxLength f \<and>
      (m_nOffset h \<le> nAllocLength f \<or> bOwnData f \<and> realloc_ok env (m_nOffset h + m_nOffset h div 10 + 5000)))"
    using Write_extend_result [OF f(1) lim f(5)] by blast
  have left: "abs_file (f1, ?h) = ?a \<or> length (bytes ?a) < pos ?a \<and> abs_file (f1, ?h) = ?a\<lparr>bytes := resize (pos ?a) (bytes ?a)\<rparr>"
    using f1(4) len by (auto simp: abs_file_def)
  have inv1: "file_inv w r l (f1, ?h)" using f1(2,3) f(2-4) True by (simp add: file_inv_def same_file_def)
  consider (ext) "\<not> ok" | (wrap) "ok" "\<not> (n < 2 ^ 64 \<and> ?p + n < 2 ^ 64)" | (go) "ok" "n < 2 ^ 64" "?p + n < 2 ^ 64" by blast
  then show ?thesis
  proof cases
    case ext
    then have "Write env buf nSize nCount f h = Some (f1, ?h, 0)" using f1(1) f(2) by (simp add: Write_def)
    moreover have "\<not> must_fit (bOwnData f) (nMaxLength f) env (?p + n) ?a"
      by (rule refused_not_fit [OF f(1), of ?p _ "m_nOffset h"]) (use ext f1(5) a in auto)
    then have "spec_write w r l env buf nSize nCount ?a (abs_file (f1, ?h)) (Count 0)"
      by (intro spec_write_refused [OF True _ left]) (simp add: f(3,4) a n_def)
    ultimately show ?thesis using inv1 by blast
  next
    case wrap
    have "nCount > 0 \<and> (nSize * nCount) div nCount \<noteq> nSize \<or> nSize * nCount + m_nOffset h < nSize * nCount"
    proof (cases "n < 2 ^ 64")
      case True
      then have "unat (nSize * nCount) = n" using unat_times by (simp add: n_def)
      then have "2 ^ 64 \<le> unat (nSize * nCount) + unat (m_nOffset h)" using wrap True by simp
      then show ?thesis using plus_wraps by blast
    next
      case False
      then have pos: "0 < unat nCount" by (auto simp: n_def intro!: gr0I)
      then have "0 < nCount" by (simp only: word_less_nat_alt unat_0)
      then show ?thesis using times_wraps [of nCount nSize] False by (simp add: n_def not_less)
    qed
    then have "Write env buf nSize nCount f h = Some (f1, ?h, 0)" using f1(1) f(2) wrap by (auto simp: Write_def Let_def)
    moreover have "\<not> (unat nSize * unat nCount < 2 ^ 64 \<and> pos ?a + unat nSize * unat nCount < 2 ^ 64)" using wrap(2) a by (simp add: n_def)
    then have "spec_write w r l env buf nSize nCount ?a (abs_file (f1, ?h)) (Count 0)"
      by (intro spec_write_refused [OF True _ left]) blast
    ultimately show ?thesis using inv1 by blast
  next
    case go
    have p: "unat (nSize * nCount) = n" using go(2) unat_times by (simp add: n_def)
    have "\<not> (nCount > 0 \<and> (nSize * nCount) div nCount \<noteq> nSize)" using times_wraps [of nCount nSize] go(2) by (auto simp: n_def)
    moreover have "\<not> 2 ^ 64 \<le> unat (nSize * nCount) + unat (m_nOffset h)" using go(3) p by simp
    then have "\<not> nSize * nCount + m_nOffset h < nSize * nCount" using plus_wraps by blast
    ultimately have eq: "Write env buf nSize nCount f h = Write_put env buf (nSize * nCount) nCount f1 ?h"
      using f1(1) f(2) go(1) by (auto simp: Write_def Let_def)
    have lim1: "length_ok f1 (unat (nSize * nCount) + unat (m_nOffset ?h))"
      by (rule length_ok_le [OF l]) (use f1(3) p in \<open>simp_all add: same_file_def n_def\<close>)
    obtain g k where g: "Write_put env buf (nSize * nCount) nCount f1 ?h = Some (g, k)" "file_ok g" "same_file f1 g"
      "k = (?h\<lparr>m_nOffset := m_nOffset h + nSize * nCount\<rparr>, nCount) \<and> content g = write_at ?p (take n buf) (content f1) \<or>
       k = (?h, 0) \<and> g = f1 \<and> unat (nLength f1) < ?p + n \<and>
       \<not> (nSize * nCount + m_nOffset h \<le> nMaxLength f1 \<and>
         (nSize * nCount + m_nOffset h \<le> nAllocLength f1 \<or>
          bOwnData f1 \<and> realloc_ok env (nSize * nCount + m_nOffset h + (nSize * nCount + m_nOffset h) div 10 + 5000)))"
      using Write_put_result [OF f1(2) lim1, of buf env nCount] go(3) buf p by (auto simp: add.commute)
    have off: "unat (m_nOffset h + nSize * nCount) = ?p + n" using go(3) p by (simp add: unat_plus)
    have invg: "file_inv w r l (g, ?h\<lparr>m_nOffset := q\<rparr>)" for q
      using g(2,3) f1(3) f(2-4) True by (simp add: file_inv_def same_file_def)
    have c: "write_at ?p (take n buf) (content f1) = write_at ?p (take n buf) (content f)"
      using f1(4) len write_at_resized [of "content f" ?p] by auto
    from g(4) show ?thesis
    proof
      assume k: "k = (?h\<lparr>m_nOffset := m_nOffset h + nSize * nCount\<rparr>, nCount) \<and> content g = write_at ?p (take n buf) (content f1)"
      then have "abs_file (g, ?h\<lparr>m_nOffset := m_nOffset h + nSize * nCount\<rparr>) =
          ?a\<lparr>bytes := write_at ?p (take n buf) (content f), pos := ?p + n\<rparr>"
        using off c by (simp add: abs_file_def)
      then show ?thesis using eq g(1) k invg True go a by (simp add: spec_write_def Let_def n_def)
    next
      assume k: "k = (?h, 0) \<and> g = f1 \<and> unat (nLength f1) < ?p + n \<and>
       \<not> (nSize * nCount + m_nOffset h \<le> nMaxLength f1 \<and>
         (nSize * nCount + m_nOffset h \<le> nAllocLength f1 \<or>
          bOwnData f1 \<and> realloc_ok env (nSize * nCount + m_nOffset h + (nSize * nCount + m_nOffset h) div 10 + 5000)))"
      have "\<not> must_fit (bOwnData f1) (nMaxLength f1) env (?p + n) (abs_file (f1, h))"
      proof (rule refused_not_fit [OF f1(2), of "?p + n" _ "nSize * nCount + m_nOffset h"])
        show "unat (nSize * nCount + m_nOffset h) = ?p + n" using off by (simp add: add.commute)
      qed (use k in \<open>auto simp: abs_file_def\<close>)
      then have "\<not> must_fit r l env (?p + n) ?a"
        using f1(3,4) f(3,4) len length_content [OF f1(2)] by (auto simp: same_file_def must_fit_def abs_file_def)
      then have "spec_write w r l env buf nSize nCount ?a (abs_file (f1, ?h)) (Count 0)"
        by (intro spec_write_refused [OF True _ left]) (simp add: a n_def)
      then show ?thesis using eq g(1) k inv1 by auto
    qed
  qed
qed


lemma Truncate_refines:
  assumes inv: "file_inv w r l (f, h)" and lim: "length_ok f (unat n)"
  shows "\<exists>g g' k. Truncate env n f h = Some (g, g', k) \<and> file_inv w r l (g, g') \<and>
    spec_truncate w r l env (unat n) (abs_file (f, h)) (abs_file (g, g')) (Status k)"
proof (cases w)
  case False
  then show ?thesis using inv by (simp add: file_inv_def Truncate_def spec_truncate_def)
next
  case True
  have f: "file_ok f" "bUpdate h" "nMaxLength f = l" "bOwnData f = r" using inv True by (simp_all add: file_inv_def)
  obtain g ok where g: "SetLength env n f = Some (g, ok)" "file_ok g" "same_file f g"
    "ok \<longleftrightarrow> n \<le> nMaxLength f \<and> (n \<le> nAllocLength f \<or> bOwnData f \<and> realloc_ok env (n + n div 10 + 5000))"
    "if ok then content g = resize (unat n) (content f) \<and> nLength g = n else g = f"
    using SetLength_result [OF f(1) lim, of env] by blast
  let ?h = "h\<lparr>bExtendFileAtNextWrite := False\<rparr>"
  have t: "Truncate env n f h = Some (g, ?h, if ok then 0 else - 1)" using f(2) g(1) by (simp add: Truncate_def)
  have i: "file_inv w r l (g, ?h)" using g(2,3) f(2-4) True by (simp add: file_inv_def same_file_def)
  show ?thesis
  proof (cases ok)
    case ok: True
    then have "abs_file (g, ?h) = (abs_file (f, h))\<lparr>bytes := resize (unat n) (bytes (abs_file (f, h)))\<rparr>"
      using g(5) by (simp add: abs_file_def)
    then show ?thesis using t i ok True by (simp add: spec_truncate_def)
  next
    case False
    have small: "length (bytes (abs_file (f, h))) \<le> unat (nAllocLength f)"
      using f(1) length_content [OF f(1)] by (auto simp: abs_file_def file_ok_def word_le_nat_alt)
    have "\<not> must_fit (bOwnData f) (nMaxLength f) env (unat n) (abs_file (f, h))"
    proof
      assume "must_fit (bOwnData f) (nMaxLength f) env (unat n) (abs_file (f, h))"
      then show False
        using SetLength_fits [OF g(1) f(1) lim _ small] False by blast
    qed
    then show ?thesis using t i False f(3,4) g(5) by (simp add: spec_truncate_def abs_file_def)
  qed
qed

lemma file_step_refines:
  assumes "file_inv w r l s" "op_ok x s"
  shows "\<exists>t out. file_step x s = Some (t, out) \<and> file_inv w r l t \<and> file_spec w r l x (abs_file s) (abs_file t) out"
proof -
  obtain f h env op where s: "s = (f, h)" "x = (env, op)" by (cases s; cases x) auto
  have f: "file_ok f" using assms(1) s by (simp add: file_inv_def)
  show ?thesis
  proof (cases op)
    case (Op_Seek off whence)
    then show ?thesis using Seek_refines [of w r l f h off whence] assms(1) s by auto
  next
    case Op_Tell
    then show ?thesis using assms(1) s by (simp add: Tell_def abs_file_def)
  next
    case (Op_Read nSize nCount)
    then show ?thesis using Read_refines [of w r l f h nSize nCount] assms(1) s by auto
  next
    case (Op_PRead nSize off)
    then show ?thesis using PRead_refines [OF f, of nSize off] assms(1) s by (simp add: abs_file_def Let_def)
  next
    case Op_Eof
    then show ?thesis using assms(1) s by (simp add: Eof_def abs_file_def)
  next
    case (Op_Write xs nSize nCount)
    then show ?thesis using Write_refines [of w r l f h nSize nCount xs env] assms s by (fastforce simp: op_ok_def)
  next
    case (Op_Truncate n)
    then show ?thesis using Truncate_refines [of w r l f h n env] assms s by (fastforce simp: op_ok_def)
  qed
qed

interpretation mf: simulation "file_inv w r l" abs_file file_step "file_spec w r l" op_ok
  by unfold_locales (rule file_step_refines)

lemma new_file_inv:
  "file_inv u True l ((VSIMemFile env)\<lparr>nMaxLength := l\<rparr>, VSIMemHandle\<lparr>bUpdate := u\<rparr>)"
  "abs_file ((VSIMemFile env)\<lparr>nMaxLength := l\<rparr>, VSIMemHandle\<lparr>bUpdate := u\<rparr>) = \<lparr>bytes = [], pos = 0, at_eof = False\<rparr>"
  by (simp_all add: file_inv_def abs_file_def file_ok_def content_def data_def VSIMemFile_def VSIMemHandle_def)

text \<open>C9: Any sequence of seeks, reads, writes and truncations through a handle of a new file, with any offsets
  and sizes and with memory refused at any moment, stays inside the file's block and does what a sequence of
  bytes with a position does: reads give the bytes that are there, gaps read as zeros, and a write or
  truncation fails only if the file would have to grow beyond its limit or its memory.  Only lengths above
  \<open>2 ^ 63\<close> of a file without such a limit are left out.\<close>

theorem VSIMemHandle_refines_file:
  assumes "run_within op_ok file_step ops ((VSIMemFile env)\<lparr>nMaxLength := l\<rparr>, VSIMemHandle\<lparr>bUpdate := u\<rparr>)"
  shows "\<exists>t outs. run_ops file_step ops ((VSIMemFile env)\<lparr>nMaxLength := l\<rparr>, VSIMemHandle\<lparr>bUpdate := u\<rparr>) = Some (t, outs) \<and>
    file_inv u True l t \<and> spec_run (file_spec u True l) ops \<lparr>bytes = [], pos = 0, at_eof = False\<rparr> (abs_file t) outs"
  using mf.run_simulates [OF new_file_inv(1) assms] unfolding new_file_inv(2) .

theorem VSIMemHandle_refines_file_witness:
  "\<exists>t outs. run_ops file_step
      [(\<lparr>realloc_ok = \<lambda>n. True, fresh = \<lambda>i. 7, clock = 0\<rparr>, Op_Write [1, 2] 1 2),
       (\<lparr>realloc_ok = \<lambda>n. True, fresh = \<lambda>i. 7, clock = 0\<rparr>, Op_PRead 5 1)]
      (VSIMemFile \<lparr>realloc_ok = \<lambda>n. True, fresh = \<lambda>i. 7, clock = 0\<rparr>, VSIMemHandle\<lparr>bUpdate := True\<rparr>) = Some (t, outs) \<and>
    file_inv True True GUINTBIG_MAX t \<and> outs = [Count 2, Data [2] 1]"
proof -
  let ?env = "\<lparr>realloc_ok = \<lambda>n. True, fresh = \<lambda>i. 7, clock = 0\<rparr>"
  let ?ops = "[(?env, Op_Write [1, 2] 1 2), (?env, Op_PRead 5 1)]"
  have m: "(VSIMemFile ?env)\<lparr>nMaxLength := GUINTBIG_MAX\<rparr> = VSIMemFile ?env" by (simp add: VSIMemFile_def)
  have "run_within op_ok file_step ?ops ((VSIMemFile ?env)\<lparr>nMaxLength := GUINTBIG_MAX\<rparr>, VSIMemHandle\<lparr>bUpdate := True\<rparr>)"
    by (simp add: op_ok_def length_ok_def VSIMemHandle_def split: option.splits)
  from VSIMemHandle_refines_file [OF this] show ?thesis unfolding m
    by (auto simp: spec_write_def must_fit_def write_at_def GUINTBIG_MAX_def)
qed

subsection \<open>Several handles of one file\<close>

text \<open>Memory safety does not need the condition on the pending extension, which another handle may break.\<close>

lemma Read_safe:
  assumes "file_ok f"
  shows "\<exists>g xs k. Read nSize nCount f h = Some (g, xs, k) \<and> poFile g = poFile h"
proof -
  let ?h = "h\<lparr>bExtendFileAtNextWrite := False\<rparr>"
  have "file_inv (bUpdate h) (bOwnData f) (nMaxLength f) (f, ?h)" using assms by (simp add: file_inv_def)
  from Read_refines [OF this, of nSize nCount] obtain r where "Read nSize nCount f ?h = Some r" by blast
  then show ?thesis by (auto simp: Read_def Let_def split: if_splits Option.bind_splits option.splits)
qed

lemma Write_extend_safe:
  assumes "file_ok f" "length_ok f (unat (m_nOffset h))"
  shows "\<exists>g ok. Write_extend env f h = Some (g, h\<lparr>bExtendFileAtNextWrite := False\<rparr>, ok) \<and> file_ok g \<and> same_file f g"
proof (cases "bExtendFileAtNextWrite h")
  case True
  obtain g ok where "SetLength env (m_nOffset h) f = Some (g, ok)" "file_ok g" "same_file f g"
    using SetLength_result [OF assms, of env] by blast
  then show ?thesis using True by (simp add: Write_extend_def)
next
  case False
  then have h: "h\<lparr>bExtendFileAtNextWrite := False\<rparr> = h" by simp
  show ?thesis using False assms(1) by (subst h) (simp add: Write_extend_def, blast)
qed

lemma Write_safe:
  assumes f: "file_ok f" and l: "length_ok f (unat (m_nOffset h) + unat nSize * unat nCount)" and buf: "unat (nSize * nCount) \<le> length buf"
  shows "\<exists>g h' k. Write env buf nSize nCount f h = Some (g, h', k) \<and> file_ok g \<and> same_file f g \<and> poFile h' = poFile h"
proof (cases "bUpdate h")
  case False
  then show ?thesis using f by (simp add: Write_def)
next
  case True
  let ?h = "h\<lparr>bExtendFileAtNextWrite := False\<rparr>" and ?n = "nSize * nCount"
  have "length_ok f (unat (m_nOffset h))" by (rule length_ok_le [OF l]) simp_all
  then obtain f1 ok where f1: "Write_extend env f h = Some (f1, ?h, ok)" "file_ok f1" "same_file f f1"
    using Write_extend_safe [OF f] by blast
  show ?thesis
  proof (cases "\<not> ok \<or> (nCount > 0 \<and> ?n div nCount \<noteq> nSize) \<or> ?n + m_nOffset h < ?n")
    case stop: True
    then have "Write env buf nSize nCount f h = Some (f1, ?h, 0)" using f1(1) True by (auto simp: Write_def Let_def)
    then show ?thesis using f1 by simp
  next
    case False
    then have eq: "Write env buf nSize nCount f h = Write_put env buf ?n nCount f1 ?h"
      using f1(1) True by (auto simp: Write_def Let_def)
    have "\<not> 2 ^ 64 \<le> unat ?n + unat (m_nOffset h)" using False plus_wraps [of ?n "m_nOffset h"] by blast
    then have n: "unat ?n + unat (m_nOffset ?h) < 2 ^ 64" by simp
    have "unat ?n \<le> unat nSize * unat nCount" by (simp add: unat_word_ariths)
    then have "length_ok f1 (unat ?n + unat (m_nOffset ?h))"
      using f1(3) by (intro length_ok_le [OF l]) (simp_all add: same_file_def)
    from Write_put_result [OF f1(2) this n buf, of env nCount] obtain g k where
      "Write_put env buf ?n nCount f1 ?h = Some (g, k)" "file_ok g" "same_file f1 g" "poFile (fst k) = poFile h"
      by (auto split: prod.splits)
    then show ?thesis using eq same_file_trans [OF f1(3)] by (cases k) auto
  qed
qed

lemma file_step_safe:
  assumes "file_ok f" "op_ok x (f, h)"
  shows "\<exists>g h' out. file_step x (f, h) = Some ((g, h'), out) \<and> file_ok g \<and> same_file f g \<and> poFile h' = poFile h"
proof -
  obtain env op where x: "x = (env, op)" by (cases x)
  show ?thesis
  proof (cases op)
    case (Op_Seek off whence)
    then show ?thesis using assms(1) x by (auto simp: Seek_def Let_def split: prod.split)
  next
    case (Op_Read nSize nCount)
    then show ?thesis using Read_safe [OF assms(1), of nSize nCount h] assms(1) x by auto
  next
    case (Op_PRead nSize off)
    then show ?thesis using PRead_refines [OF assms(1), of nSize off] assms(1) x by (simp add: Let_def)
  next
    case (Op_Write xs nSize nCount)
    then show ?thesis using Write_safe [OF assms(1), of h nSize nCount xs env] assms(2) x by (auto simp: op_ok_def)
  next
    case (Op_Truncate n)
    then have "length_ok f (unat n)" using assms(2) x by (simp add: op_ok_def)
    then obtain g ok where "SetLength env n f = Some (g, ok)" "file_ok g" "same_file f g"
      using SetLength_result [OF assms(1), of n env] by blast
    then show ?thesis using assms(1) Op_Truncate x by (cases "bUpdate h") (simp_all add: Truncate_def)
  qed (use assms(1) x in simp_all)
qed

subsection \<open>What the contract leaves out\<close>

text \<open>Without a limit on the length the size of the block can wrap: the file of length 16769767339735951470 gets
  a block of one byte, and a read at offset 1 leaves it.\<close>

theorem SetLength_overflow:
  assumes "realloc_ok env 1"
  shows "\<exists>f. SetLength env 16769767339735951470 (VSIMemFile env) = Some (f, True) \<and> nAllocLength f = 1 \<and> PRead 1 1 f = None"
proof -
  let ?n = "16769767339735951470 :: u64"
  have a: "?n + ?n div 10 + 5000 = 1" by simp
  have c: "\<not> GUINTBIG_MAX < ?n" by (simp add: GUINTBIG_MAX_def)
  have "SetLength env ?n (VSIMemFile env) =
      Some ((VSIMemFile env)\<lparr>pabyData := Some [0], nAllocLength := 1, nLength := ?n, mTime := clock env\<rparr>, True)"
    using assms c unfolding SetLength_def Let_def a
    by (simp add: VSIMemFile_def VSIRealloc_def mem_store_def overwrite_eq)
  moreover have "PRead 1 1 ((VSIMemFile env)\<lparr>pabyData := Some [0], nAllocLength := 1, nLength := ?n, mTime := clock env\<rparr>) = None"
    by (simp add: PRead_def mem_load_def min_def)
  ultimately show ?thesis by simp
qed

text \<open>Two handles of one file, here an empty file with a block of four bytes: the first seeks past the end, the
  second writes beyond that position, and the write of the first cuts off what the second has written.\<close>

theorem Write_two_handles:
  fixes env f0 h1 h2
  defines "env \<equiv> \<lparr>realloc_ok = \<lambda>n. True, fresh = \<lambda>i. 0, clock = 0\<rparr>"
    and "f0 \<equiv> (VSIMemFile env)\<lparr>pabyData := Some [0, 0, 0, 0], nAllocLength := 4\<rparr>"
    and "h1 \<equiv> fst (Seek 1 SEEK_SET f0 (VSIMemHandle\<lparr>bUpdate := True\<rparr>))"
    and "h2 \<equiv> VSIMemHandle\<lparr>bUpdate := True\<rparr>"
  shows "case Write env [1, 2, 3] 1 3 f0 h2 of None \<Rightarrow> False
    | Some (f, h, n) \<Rightarrow> n = 3 \<and> content f = [1, 2, 3] \<and>
        (case Write env [7] 1 1 f h1 of None \<Rightarrow> False | Some (g, h, k) \<Rightarrow> k = 1 \<and> content g = [1, 7])"
  unfolding env_def h1_def h2_def f0_def by code_simp

end
