(* ===== verification/MemFs.thy ===== *)
theory MemFs
  imports Paths MemFile "HOL-Library.List_Lexorder" "HOL-Library.Char_ord"
begin

section \<open>The file system in memory (port/cpl_vsi_mem.cpp)\<close>

text \<open>
  VSIMemFilesystemHandler keeps its files in a \<open>std::map\<close> from names to shared pointers.  Here the map is the
  list of its entries in the order of their names (those of bytes, as \<open>std::string\<close> compares), a shared
  pointer is the index of an object in \<open>heap\<close>, and an iterator is the name of the entry it points to.  Objects
  stay on the heap; the code frees one when nothing points to it any more.  Going through an iterator whose
  entry is gone is undefined, so is every access outside a block: \<open>None\<close>.  A loop that does not end has the
  value \<open>None\<close> as well.  Names are C strings of fewer than \<open>2 ^ 31\<close> characters.
\<close>

subsection \<open>CPLString (port/cplstring.cpp) and std::map\<close>

text \<open>\<open>std::string::find\<close>.\<close>

definition str_find :: "string \<Rightarrow> string \<Rightarrow> nat \<Rightarrow> nat option" where
  "str_find s t nPos = List.find (\<lambda>i. take (length t) (drop i s) = t) [nPos..<length s + 1 - length t]"

lemma str_find_bounds: "str_find s t p = Some i \<Longrightarrow> p \<le> i \<and> i + length t \<le> length s"
  by (auto simp: str_find_def find_Some_iff)

function replaceAll_loop :: "string \<Rightarrow> string \<Rightarrow> string \<Rightarrow> nat \<Rightarrow> string" where
  "replaceAll_loop osBefore osAfter s nStartPos =
     (if osBefore = [] then s
      else case str_find s osBefore nStartPos of
          None \<Rightarrow> s
        | Some i \<Rightarrow> replaceAll_loop osBefore osAfter (take i s @ osAfter @ drop (i + length osBefore) s) (i + length osAfter))"
  by pat_completeness auto
termination
proof (relation "measure (\<lambda>(osBefore, osAfter, s, nStartPos). length s - nStartPos)")
  fix b a s :: string and p i
  assume "b \<noteq> []" "str_find s b p = Some i"
  moreover from this obtain n where "length b = Suc n" by (cases b) auto
  moreover have "p \<le> i" "i + length b \<le> length s" using calculation(2) str_find_bounds by blast+
  ultimately show "((b, a, take i s @ a @ drop (i + length b) s, i + length a), b, a, s, p) \<in>
      measure (\<lambda>(osBefore, osAfter, s, nStartPos). length s - nStartPos)" by simp
qed simp

declare replaceAll_loop.simps [simp del]

definition replaceAll :: "string \<Rightarrow> string \<Rightarrow> string \<Rightarrow> string" where
  "replaceAll osBefore osAfter s = replaceAll_loop osBefore osAfter s 0"

fun ifind_loop :: "string \<Rightarrow> string \<Rightarrow> nat \<Rightarrow> nat option" where
  "ifind_loop [] s nPos = None"
| "ifind_loop (c # pszHaystack) s nPos =
     (if c_tolower (c_at s 0) = c_tolower c \<and> EQUALN (c # pszHaystack) s (length s) then Some nPos
      else ifind_loop pszHaystack s (nPos + 1))"

definition ifind :: "string \<Rightarrow> string \<Rightarrow> nat \<Rightarrow> nat option" where
  "ifind this s nPos = (let nPos = min nPos (length this) in ifind_loop (drop nPos this) s nPos)"

text \<open>\<open>m[k] = v\<close>, \<open>erase\<close> and the iterator after \<open>k\<close>.\<close>

fun map_put :: "'k::linorder \<Rightarrow> 'v \<Rightarrow> ('k \<times> 'v) list \<Rightarrow> ('k \<times> 'v) list" where
  "map_put k v [] = [(k, v)]"
| "map_put k v ((a, b) # m) =
     (if k < a then (k, v) # (a, b) # m else if k = a then (k, v) # m else (a, b) # map_put k v m)"

definition map_erase :: "'k \<Rightarrow> ('k \<times> 'v) list \<Rightarrow> ('k \<times> 'v) list" where
  "map_erase k m = filter (\<lambda>e. fst e \<noteq> k) m"

definition map_next :: "'k::linorder \<Rightarrow> ('k \<times> 'v) list \<Rightarrow> 'k option" where
  "map_next k m = map_option fst (List.find (\<lambda>e. k < fst e) m)"

subsection \<open>VSIMemFilesystemHandler\<close>

datatype error_number = E_none | ENOENT | EEXIST | EISDIR

record mem_fs =
  m_osPrefix :: string
  oFileList :: "(string \<times> nat) list"
  heap :: "mem_file list"
  errno :: error_number

definition VSIMemFilesystemHandler :: "string \<Rightarrow> mem_fs" where
  "VSIMemFilesystemHandler pszPrefix = \<lparr>m_osPrefix = pszPrefix, oFileList = [], heap = [], errno = E_none\<rparr>"

definition clear_handler :: "mem_fs \<Rightarrow> mem_fs" where
  "clear_handler fs = fs\<lparr>oFileList := []\<rparr>"

definition NormalizePath :: "string \<Rightarrow> string" where
  "NormalizePath in_name =
     (let s = map (\<lambda>c. if c = CHR 0x5c then CHR ''/'' else c) in_name;
          s = replaceAll ''//'' ''/'' s
      in if s \<noteq> [] \<and> last s = CHR ''/'' then butlast s else s)"

text \<open>\<open>std::make_shared\<close> and the assignment of the new pointer to a name.\<close>

definition make_file :: "mem_file \<Rightarrow> mem_fs \<Rightarrow> mem_fs \<times> nat" where
  "make_file f fs = (fs\<lparr>heap := heap fs @ [f]\<rparr>, length (heap fs))"

definition set_name :: "string \<Rightarrow> nat \<Rightarrow> mem_fs \<Rightarrow> mem_fs" where
  "set_name name i fs = fs\<lparr>oFileList := map_put name i (oFileList fs)\<rparr>"

datatype file_mode = S_IFDIR | S_IFREG

record stat_buf =
  st_size :: u64
  st_mode :: "file_mode option"
  st_mtime :: int

text \<open>\<open>None\<close> is the status -1.\<close>

definition Stat :: "string \<Rightarrow> mem_fs \<Rightarrow> mem_fs \<times> stat_buf option" where
  "Stat pszFilename fs =
     (let osFilename = NormalizePath pszFilename in
      if osFilename @ ''/'' = m_osPrefix fs \<or> osFilename = m_osPrefix fs
      then (fs, Some \<lparr>st_size = 0, st_mode = Some S_IFDIR, st_mtime = 0\<rparr>)
      else case map_of (oFileList fs) osFilename of
          None \<Rightarrow> (fs\<lparr>errno := ENOENT\<rparr>, None)
        | Some i \<Rightarrow>
            let f = heap fs ! i in
            (fs, Some (if bIsDirectory f then \<lparr>st_size = 0, st_mode = Some S_IFDIR, st_mtime = 0\<rparr>
                       else \<lparr>st_size = nLength f, st_mode = Some S_IFREG, st_mtime = mTime f\<rparr>)))"

definition Unlink_unlocked :: "string \<Rightarrow> mem_fs \<Rightarrow> mem_fs \<times> int" where
  "Unlink_unlocked pszFilename fs =
     (let osFilename = NormalizePath pszFilename in
      case map_of (oFileList fs) osFilename of
        None \<Rightarrow> (fs\<lparr>errno := ENOENT\<rparr>, - 1)
      | Some _ \<Rightarrow> (fs\<lparr>oFileList := map_erase osFilename (oFileList fs)\<rparr>, 0))"

definition Unlink :: "string \<Rightarrow> mem_fs \<Rightarrow> mem_fs \<times> int" where
  "Unlink pszFilename fs = Unlink_unlocked pszFilename fs"

definition Mkdir :: "vsi_env \<Rightarrow> string \<Rightarrow> mem_fs \<Rightarrow> mem_fs \<times> int" where
  "Mkdir env pszPathname fs =
     (let osPathname = NormalizePath pszPathname in
      if map_of (oFileList fs) osPathname \<noteq> None then (fs\<lparr>errno := EEXIST\<rparr>, - 1)
      else let (fs, i) = make_file ((VSIMemFile env)\<lparr>osFilename := osPathname, bIsDirectory := True\<rparr>) fs
        in (set_name osPathname i fs, 0))"

definition Rmdir :: "string \<Rightarrow> mem_fs \<Rightarrow> mem_fs \<times> int" where
  "Rmdir pszPathname fs = Unlink pszPathname fs"

definition GetDiskFreeSpace :: "int \<Rightarrow> int" where
  "GetDiskFreeSpace CPLGetUsablePhysicalRAM = (let nRet = CPLGetUsablePhysicalRAM in if nRet \<le> 0 then - 1 else nRet)"

text \<open>The names found, whose number is \<open>nItems\<close>, the count \<open>nAllocatedItems\<close> and the number of cells of the block
  \<open>papszDir\<close>.  Both counts are \<open>int\<close>s.\<close>

fun ReadDir_loop :: "mem_file list \<Rightarrow> string \<Rightarrow> nat \<Rightarrow> int \<Rightarrow> (string \<times> nat) list \<Rightarrow> string list \<times> nat \<times> nat \<Rightarrow> string list option" where
  "ReadDir_loop hp osPath nPathLen nMaxFiles [] (items, nAllocatedItems, cells) = Some items"
| "ReadDir_loop hp osPath nPathLen nMaxFiles ((_, i) # es) (items, nAllocatedItems, cells) =
     (let pszFilePath = osFilename (hp ! i) in
      if EQUALN osPath pszFilePath nPathLen \<and> c_at pszFilePath nPathLen = CHR ''/'' \<and>
         CHR ''/'' \<notin> set (drop (nPathLen + 1) pszFilePath)
      then do {
        (nAllocatedItems, cells) \<leftarrow>
          (if items = [] then Some (1, 2)
           else if length items \<ge> nAllocatedItems then do {
             n \<leftarrow> c_int (int nAllocatedItems * 2);
             c \<leftarrow> c_int (n + 2);
             Some (nat n, nat c)
           }
           else Some (nAllocatedItems, cells));
        if length items + 1 \<ge> cells then None
        else do {
          let items = items @ [drop (nPathLen + 1) pszFilePath];
          nItems \<leftarrow> c_int (int (length items));
          if nMaxFiles > 0 \<and> nItems > nMaxFiles then Some items
          else ReadDir_loop hp osPath nPathLen nMaxFiles es (items, nAllocatedItems, cells)
        }
      }
      else ReadDir_loop hp osPath nPathLen nMaxFiles es (items, nAllocatedItems, cells))"

definition ReadDirEx :: "string \<Rightarrow> int \<Rightarrow> mem_fs \<Rightarrow> string list option" where
  "ReadDirEx pszPath nMaxFiles fs =
     (let osPath = NormalizePath pszPath;
          nPathLen = (if osPath \<noteq> [] \<and> last osPath = CHR ''/'' then length osPath - 1 else length osPath)
      in ReadDir_loop (heap fs) osPath nPathLen nMaxFiles (oFileList fs) ([], 0, 0))"

text \<open>One round of the loop of Rename at the entry \<open>k\<close>: the file system and the next iterator.\<close>

definition Rename_step :: "string \<Rightarrow> string \<Rightarrow> string \<Rightarrow> mem_fs \<Rightarrow> (mem_fs \<times> string option) option" where
  "Rename_step osOldPath osNewPath k fs =
     (let osRemainder = drop (length osOldPath) k in
      if osRemainder = [] \<or> c_at osRemainder 0 = CHR ''/'' then do {
        let osNewFullPath = osNewPath @ osRemainder;
        let fs = fst (Unlink_unlocked osNewFullPath fs);
        i \<leftarrow> map_of (oFileList fs) k;
        let fs = set_name osNewFullPath i fs;
        let fs = fs\<lparr>heap := (heap fs)[i := (heap fs ! i)\<lparr>osFilename := osNewFullPath\<rparr>]\<rparr>;
        Some (fs\<lparr>oFileList := map_erase k (oFileList fs)\<rparr>, map_next k (oFileList fs))
      }
      else Some (fs, map_next k (oFileList fs)))"

partial_function (option) Rename_loop :: "string \<Rightarrow> string \<Rightarrow> mem_fs \<times> string option \<Rightarrow> mem_fs option" where
  "Rename_loop osOldPath osNewPath st =
     (case snd st of
        None \<Rightarrow> Some (fst st)
      | Some k \<Rightarrow>
          if ifind k osOldPath 0 \<noteq> Some 0 then Some (fst st)
          else do {
            st \<leftarrow> Rename_step osOldPath osNewPath k (fst st);
            Rename_loop osOldPath osNewPath st
          })"

definition Rename :: "string \<Rightarrow> string \<Rightarrow> mem_fs \<Rightarrow> (mem_fs \<times> int) option" where
  "Rename pszOldPath pszNewPath fs =
     (let osOldPath = NormalizePath pszOldPath; osNewPath = NormalizePath pszNewPath in
      if \<not> STARTS_WITH pszNewPath (m_osPrefix fs) then Some (fs, - 1)
      else if osOldPath = osNewPath then Some (fs, 0)
      else if map_of (oFileList fs) osOldPath = None then Some (fs\<lparr>errno := ENOENT\<rparr>, - 1)
      else map_option (\<lambda>fs. (fs, 0)) (Rename_loop osOldPath osNewPath (fs, Some osOldPath)))"


subsection \<open>Handlers by path (port/cpl_vsil.cpp)\<close>

text \<open>The file manager maps prefixes to handlers: this one, or another one, whose operations on the state \<open>'d\<close>
  of all others are parameters.  \<open>pathBuf\<close> is the static buffer of CPLGetPath.\<close>

datatype handler = Memory | Elsewhere nat

record 'd vsi_system =
  oHandlers :: "(string \<times> handler) list"
  poDefaultHandler :: handler
  Stat_elsewhere :: "nat \<Rightarrow> string \<Rightarrow> 'd \<Rightarrow> stat_buf option"
  Mkdir_elsewhere :: "nat \<Rightarrow> string \<Rightarrow> 'd \<Rightarrow> 'd \<times> int"
  pathBuf :: "string option"
  vsiEnv :: vsi_env

definition handler_matches :: "string \<Rightarrow> string \<Rightarrow> bool" where
  "handler_matches pszPath pszIterKey \<longleftrightarrow>
     STARTS_WITH pszPath pszIterKey \<or>
     pszIterKey \<noteq> [] \<and> length pszPath > length pszIterKey \<and> last pszIterKey = CHR ''/'' \<and>
       c_at pszPath (length pszIterKey - 1) = CHR 0x5c \<and> STARTS_WITH pszPath (butlast pszIterKey) \<or>
     length pszPath + 1 = length pszIterKey \<and> STARTS_WITH pszIterKey pszPath"

definition GetHandler :: "'d vsi_system \<Rightarrow> string \<Rightarrow> handler" where
  "GetHandler sys pszPath =
     (case List.find (\<lambda>e. handler_matches pszPath (fst e)) (oHandlers sys) of
        None \<Rightarrow> poDefaultHandler sys
      | Some e \<Rightarrow> snd e)"

definition InstallHandler :: "string \<Rightarrow> handler \<Rightarrow> 'd vsi_system \<Rightarrow> 'd vsi_system" where
  "InstallHandler osPrefix poHandler sys =
     (if osPrefix = [] then sys\<lparr>poDefaultHandler := poHandler\<rparr>
      else sys\<lparr>oHandlers := map_put osPrefix poHandler (oHandlers sys)\<rparr>)"

text \<open>The file system in memory and the state of the others.\<close>

type_synonym 'd vsi_state = "mem_fs \<times> 'd"

definition VSIStatL :: "'d vsi_system \<Rightarrow> string \<Rightarrow> 'd vsi_state \<Rightarrow> 'd vsi_state \<times> stat_buf option" where
  "VSIStatL sys pszFilename st =
     (let pszFilename = (if length pszFilename = 2 \<and> c_at pszFilename 1 = CHR '':''
                         then pszFilename @ [CHR 0x5c] else pszFilename) in
      case GetHandler sys pszFilename of
        Memory \<Rightarrow> (let (fs, r) = Stat pszFilename (fst st) in ((fs, snd st), r))
      | Elsewhere h \<Rightarrow> (st, Stat_elsewhere sys h pszFilename (snd st)))"

definition VSIMkdir :: "'d vsi_system \<Rightarrow> string \<Rightarrow> 'd vsi_state \<Rightarrow> 'd vsi_state \<times> int" where
  "VSIMkdir sys pszPathname st =
     (case GetHandler sys pszPathname of
        Memory \<Rightarrow> (let (fs, r) = Mkdir (vsiEnv sys) pszPathname (fst st) in ((fs, snd st), r))
      | Elsewhere h \<Rightarrow> (let (d, r) = Mkdir_elsewhere sys h pszPathname (snd st) in ((fst st, d), r)))"

function VSIMkdirRecursive :: "'d vsi_system \<Rightarrow> string \<Rightarrow> 'd vsi_state \<Rightarrow> ('d vsi_state \<times> int) option" where
  "VSIMkdirRecursive sys osPathname st =
     (if osPathname = [] \<or> osPathname = ''/'' then Some (st, - 1)
      else case VSIStatL sys osPathname st of
          (st, Some sStat) \<Rightarrow> Some (st, if st_mode sStat = Some S_IFDIR then 0 else - 1)
        | (st, None) \<Rightarrow>
            (case CPLGetPath (pathBuf sys) osPathname of
               None \<Rightarrow> None
             | Some osParentPath \<Rightarrow>
                 if osParentPath = osPathname \<or> length osParentPath \<ge> length osPathname then Some (st, - 1)
                 else case VSIStatL sys osParentPath st of
                     (st, Some _) \<Rightarrow> Some (VSIMkdir sys osPathname st)
                   | (st, None) \<Rightarrow>
                       (case VSIMkdirRecursive sys osParentPath st of
                          None \<Rightarrow> None
                        | Some (st, r) \<Rightarrow> if r \<noteq> 0 then Some (st, - 1) else Some (VSIMkdir sys osPathname st))))"
  by pat_completeness auto
termination by (relation "measure (\<lambda>(sys, p, st). length p)") auto

declare VSIMkdirRecursive.simps [simp del]

subsection \<open>Opening files\<close>

text \<open>\<open>atoll\<close>, which stops at the limits of 64 bits.\<close>

definition CPLAtoGIntBig :: "string \<Rightarrow> int" where
  "CPLAtoGIntBig s = max (- (2 ^ 63)) (min (2 ^ 63 - 1) (c_scan_int s))"

definition get_maxlength :: "string \<Rightarrow> u64" where
  "get_maxlength osName =
     (case str_find osName ''||maxlength='' 0 of
        None \<Rightarrow> GUINTBIG_MAX
      | Some iPos \<Rightarrow> of_int (CPLAtoGIntBig (drop (iPos + length ''||maxlength='') osName)))"

text \<open>The last part of Open, on the file found or created.\<close>

definition Open_handle :: "string \<Rightarrow> nat \<Rightarrow> 'd vsi_state \<Rightarrow> 'd vsi_state \<times> mem_handle option" where
  "Open_handle pszAccess i st =
     (let f = heap (fst st) ! i in
      if bIsDirectory f then (((fst st)\<lparr>errno := EISDIR\<rparr>, snd st), None)
      else (st, Some (VSIMemHandle\<lparr>poFile := Some i,
              bUpdate := c_strstr pszAccess ''w'' \<or> c_strstr pszAccess ''+'' \<or> c_strstr pszAccess ''a'',
              m_nOffset := (if c_strstr pszAccess ''a'' then nLength f else 0)\<rparr>)))"

definition Open :: "'d vsi_system \<Rightarrow> string \<Rightarrow> string \<Rightarrow> 'd vsi_state \<Rightarrow> ('d vsi_state \<times> mem_handle option) option" where
  "Open sys pszFilename pszAccess st =
     (let osName = NormalizePath pszFilename; nMax = get_maxlength osName;
          failed = (\<lambda>st. Some (((fst st)\<lparr>errno := ENOENT\<rparr>, snd st), None)) in
      if osName = [] then Some (st, None)
      else case map_of (oFileList (fst st)) osName of
          None \<Rightarrow>
            if \<not> c_strstr pszAccess ''w'' \<and> \<not> c_strstr pszAccess ''a'' then failed st
            else do {
              pszFileDir \<leftarrow> CPLGetPath (pathBuf sys) osName;
              (st, r) \<leftarrow> VSIMkdirRecursive sys pszFileDir st;
              if r = - 1 then failed st
              else let (fs, i) = make_file ((VSIMemFile (vsiEnv sys))\<lparr>osFilename := osName, nMaxLength := nMax\<rparr>) (fst st)
                in Some (Open_handle pszAccess i (set_name osName i fs, snd st))
            }
        | Some i \<Rightarrow>
            if c_strstr pszAccess ''w'' then do {
              (f, _) \<leftarrow> SetLength (vsiEnv sys) 0 (heap (fst st) ! i);
              Some (Open_handle pszAccess i
                ((fst st)\<lparr>heap := (heap (fst st))[i := f\<lparr>nMaxLength := nMax\<rparr>]\<rparr>, snd st))
            }
            else Some (Open_handle pszAccess i st))"

subsection \<open>Buffers as files\<close>

definition VSIFileFromMemBuffer ::
  "'d vsi_system \<Rightarrow> string option \<Rightarrow> byte list option \<Rightarrow> u64 \<Rightarrow> bool \<Rightarrow> 'd vsi_state \<Rightarrow> ('d vsi_state \<times> mem_handle option) option" where
  "VSIFileFromMemBuffer sys pszFilename buffer nDataLength bTakeOwnership st =
     (let osName = (case pszFilename of None \<Rightarrow> [] | Some n \<Rightarrow> NormalizePath n) in
      if osName = ''/vsimem/'' then Some (st, None)
      else do {
        (st, r) \<leftarrow> (if osName \<noteq> [] then do {
                     pszFileDir \<leftarrow> CPLGetPath (pathBuf sys) osName;
                     VSIMkdirRecursive sys pszFileDir st
                   } else Some (st, 0));
        if osName \<noteq> [] \<and> r = - 1 then Some (((fst st)\<lparr>errno := ENOENT\<rparr>, snd st), None)
        else do {
          let (fs, i) = make_file ((VSIMemFile (vsiEnv sys))\<lparr>osFilename := osName, bOwnData := bTakeOwnership,
            pabyData := buffer, nLength := nDataLength, nAllocLength := nDataLength\<rparr>) (fst st);
          let fs = (if osName \<noteq> [] then set_name osName i (fst (Unlink_unlocked osName fs)) else fs);
          Some ((fs, snd st), Some (VSIMemHandle\<lparr>poFile := Some i, bUpdate := True\<rparr>))
        }
      })"

text \<open>The block and its length; NULL (and no length) when there is no such file.\<close>

definition VSIGetMemFileBuffer :: "string option \<Rightarrow> bool \<Rightarrow> mem_fs \<Rightarrow> mem_fs \<times> byte list option \<times> u64 option" where
  "VSIGetMemFileBuffer pszFilename bUnlinkAndSeize fs =
     (case pszFilename of
        None \<Rightarrow> (fs, None, None)
      | Some n \<Rightarrow>
          let osFilename = NormalizePath n in
          case map_of (oFileList fs) osFilename of
            None \<Rightarrow> (fs, None, None)
          | Some i \<Rightarrow>
              let f = heap fs ! i; result = (pabyData f, Some (nLength f)) in
              if bUnlinkAndSeize
              then (fs\<lparr>oFileList := map_erase osFilename (oFileList fs),
                       heap := (heap fs)[i := f\<lparr>bOwnData := False, pabyData := None, nLength := 0, nAllocLength := 0\<rparr>]\<rparr>, result)
              else (fs, result))"

text \<open>An operation on an open handle, on the file it points to.\<close>

definition handle_step :: "vsi_env \<times> file_op \<Rightarrow> mem_fs \<times> mem_handle \<Rightarrow> ((mem_fs \<times> mem_handle) \<times> file_out) option" where
  "handle_step eo s =
     (case s of (fs, h) \<Rightarrow> do {
        i \<leftarrow> poFile h;
        ((f, h), out) \<leftarrow> file_step eo (heap fs ! i, h);
        Some ((fs\<lparr>heap := (heap fs)[i := f]\<rparr>, h), out)
      })"


subsection \<open>Sorted maps\<close>

definition sorted_map :: "('k::linorder \<times> 'v) list \<Rightarrow> bool" where
  "sorted_map m \<longleftrightarrow> sorted_wrt (<) (map fst m)"

lemma map_of_below: "sorted_map ((a, b) # m) \<Longrightarrow> k \<le> a \<Longrightarrow> map_of m k = None"
  by (auto simp: sorted_map_def map_of_eq_None_iff)

lemma map_of_put: "sorted_map m \<Longrightarrow> map_of (map_put k v m) = (map_of m)(k \<mapsto> v)"
proof (induction m)
  case (Cons e m)
  obtain a b where e: "e = (a, b)" by (cases e)
  have s: "sorted_map m" using Cons.prems by (simp add: sorted_map_def)
  consider "k < a" | "k = a" | "a < k" by fastforce
  then show ?case
    by cases (use Cons.IH [OF s] e in \<open>auto simp: fun_eq_iff\<close>)
qed simp

lemma set_map_put: "fst ` set (map_put k v m) = insert k (fst ` set m)"
  by (induction k v m rule: map_put.induct) auto

lemma sorted_put: "sorted_map m \<Longrightarrow> sorted_map (map_put k v m)"
proof (induction m)
  case (Cons e m)
  obtain a b where e: "e = (a, b)" by (cases e)
  have s: "sorted_map m" using Cons.prems by (simp add: sorted_map_def)
  have "\<forall>x\<in>fst ` set (map_put k v m). a < x" if "a < k"
    using Cons.prems e that by (auto simp: set_map_put sorted_map_def)
  then show ?case
    using Cons e s by (auto simp: sorted_map_def image_iff dest: order.strict_trans)
qed (simp add: sorted_map_def)

lemma map_of_erase: "map_of (map_erase k m) = (map_of m)(k := None)"
  unfolding map_erase_def by (induction m) (auto simp: fun_eq_iff)

lemma sorted_erase: "sorted_map m \<Longrightarrow> sorted_map (map_erase k m)"
  unfolding sorted_map_def map_erase_def by (induction m) auto

lemma map_next_None: "map_next k m = None \<longleftrightarrow> (\<forall>a\<in>dom (map_of m). a \<le> k)"
  by (auto simp: map_next_def find_None_iff dom_map_of_conv_image_fst not_less)

lemma find_split: "List.find p xs = Some x \<Longrightarrow> \<exists>ys zs. xs = ys @ x # zs \<and> p x \<and> (\<forall>y\<in>set ys. \<not> p y)"
proof (induction xs)
  case (Cons y xs)
  show ?case
  proof (cases "p y")
    case True
    then have "y # xs = [] @ x # xs" "p x" using Cons.prems by simp_all
    then show ?thesis by (metis empty_iff list.set(1))
  next
    case False
    then obtain ys zs where "xs = ys @ x # zs" "p x" "\<forall>y\<in>set ys. \<not> p y" using Cons by auto
    then have "y # xs = (y # ys) @ x # zs" "\<forall>z\<in>set (y # ys). \<not> p z" using False by simp_all
    then show ?thesis using \<open>p x\<close> by blast
  qed
qed simp

lemma map_next_Some:
  assumes "sorted_map m" "map_next k m = Some a"
  shows "k < a" "a \<in> dom (map_of m)" "\<And>b. b \<in> dom (map_of m) \<Longrightarrow> k < b \<Longrightarrow> a \<le> b"
proof -
  obtain xs v ys where m: "m = xs @ (a, v) # ys" "k < a" "\<forall>e\<in>set xs. \<not> k < fst e"
    using assms(2) find_split [of "\<lambda>e. k < fst e" m] by (fastforce simp: map_next_def)
  then show "k < a" "a \<in> dom (map_of m)" by (auto simp: dom_map_of_conv_image_fst)
  show "a \<le> b" if "b \<in> dom (map_of m)" "k < b" for b
    using that m assms(1) by (auto simp: dom_map_of_conv_image_fst sorted_map_def sorted_wrt_append)
qed

text \<open>The names that begin with another one follow it.\<close>

lemma prefix_between: "a \<le> k \<Longrightarrow> k \<le> a @ r \<Longrightarrow> take (length a) k = (a :: string)"
proof (induction a arbitrary: k)
  case (Cons x a)
  then show ?case by (cases k) auto
qed simp

lemma prefix_le: "a \<le> a @ (r :: string)"
  by (induction a) auto


subsection \<open>Names\<close>

text \<open>A clean name is one that NormalizePath keeps.\<close>

definition clean_path :: "string \<Rightarrow> bool" where
  "clean_path s \<longleftrightarrow> c_string s \<and> CHR 0x5c \<notin> set s \<and> successively (\<lambda>a b. \<not> (a = CHR ''/'' \<and> b = CHR ''/'')) s \<and>
     (s \<noteq> [] \<longrightarrow> last s \<noteq> CHR ''/'')"

lemma str_find_None:
  "str_find s t p = None \<longleftrightarrow> (\<forall>i. p \<le> i \<and> i + length t \<le> length s \<longrightarrow> take (length t) (drop i s) \<noteq> t)"
  by (auto simp: str_find_def find_None_iff)

lemma no_double_slash:
  assumes "successively (\<lambda>a b. \<not> (a = CHR ''/'' \<and> b = CHR ''/'')) s"
  shows "replaceAll ''//'' ''/'' s = s"
proof -
  have "str_find s ''//'' 0 = None" unfolding str_find_None
  proof (intro allI impI notI)
    fix i
    assume i: "0 \<le> i \<and> i + length ''//'' \<le> length s" and t: "take (length ''//'') (drop i s) = ''//''"
    have "drop i s = s ! i # s ! Suc i # drop (Suc (Suc i)) s" using i by (simp add: Cons_nth_drop_Suc)
    then have "s ! i = CHR ''/''" "s ! Suc i = CHR ''/''" using t by simp_all
    moreover have "Suc i < length s" using i by simp
    ultimately show False using assms by (auto simp: successively_conv_nth)
  qed
  then show ?thesis by (simp add: replaceAll_def replaceAll_loop.simps)
qed

lemma NormalizePath_clean: "clean_path s \<Longrightarrow> NormalizePath s = s"
proof -
  assume s: "clean_path s"
  then have "map (\<lambda>c. if c = CHR 0x5c then CHR ''/'' else c) s = s" by (intro map_idI) (auto simp: clean_path_def)
  moreover have "replaceAll ''//'' ''/'' s = s" "\<not> (s \<noteq> [] \<and> last s = CHR ''/'')"
    using s no_double_slash [of s] unfolding clean_path_def by blast+
  ultimately show ?thesis by (simp only: NormalizePath_def Let_def if_False)
qed

text \<open>The names of a directory and of what is in it, also up to the case of letters.\<close>

definition below :: "string \<Rightarrow> string \<Rightarrow> bool" where
  "below d k \<longleftrightarrow> STARTS_WITH k d \<and> (drop (length d) k = [] \<or> c_at (drop (length d) k) 0 = CHR ''/'')"

definition below_ci :: "string \<Rightarrow> string \<Rightarrow> bool" where
  "below_ci d k \<longleftrightarrow> below (map c_tolower d) (map c_tolower k)"

lemma below_append: "below d k \<longleftrightarrow> (\<exists>r. k = d @ r \<and> (r = [] \<or> c_at r 0 = CHR ''/''))"
proof
  assume "below d k"
  then have "k = d @ drop (length d) k" by (metis STARTS_WITH_def append_take_drop_id below_def)
  then show "\<exists>r. k = d @ r \<and> (r = [] \<or> c_at r 0 = CHR ''/'')" using \<open>below d k\<close> unfolding below_def by blast
qed (auto simp: below_def STARTS_WITH_def)

lemma below_self [simp]: "below d d"
  by (simp add: below_def STARTS_WITH_def)

lemma below_drop: "below d k \<Longrightarrow> d @ drop (length d) k = k"
  by (auto simp: below_append)

lemma below_other: "below d k \<Longrightarrow> below e (e @ drop (length d) k)"
  by (auto simp: below_append)

lemma c_tolower_slash: "c_tolower c = CHR ''/'' \<longleftrightarrow> c = CHR ''/''"
  by (rule c_tolower_eq_iff) (simp add: ccode_def)

lemma below_ci_I: "below d k \<Longrightarrow> below_ci d k"
proof -
  assume "below d k"
  then obtain r where r: "k = d @ r" "r = [] \<or> c_at r 0 = CHR ''/''" unfolding below_append by blast
  then have "map c_tolower k = map c_tolower d @ map c_tolower r" "map c_tolower r = [] \<or> c_at (map c_tolower r) 0 = CHR ''/''"
    by (cases r; simp add: c_at_def c_tolower_slash)+
  then show ?thesis unfolding below_ci_def below_append by blast
qed

lemma below_comparable: "below a k \<Longrightarrow> below b k \<Longrightarrow> below a b \<or> below b a"
proof -
  assume "below a k" "below b k"
  then obtain r t where k: "k = a @ r" "r = [] \<or> c_at r 0 = CHR ''/''" "k = b @ t" "t = [] \<or> c_at t 0 = CHR ''/''"
    unfolding below_append by blast
  from k(1,3) consider u where "b = a @ u" "r = u @ t" | u where "a = b @ u" "t = u @ r"
    by (metis append_eq_append_conv2)
  then show ?thesis
  proof cases
    case 1
    then have "u = [] \<or> c_at u 0 = CHR ''/''" using k(2) by (cases u) (auto simp: c_at_def)
    then show ?thesis using 1 by (auto simp: below_append)
  next
    case 2
    then have "u = [] \<or> c_at u 0 = CHR ''/''" using k(4) by (cases u) (auto simp: c_at_def)
    then show ?thesis using 2 by (auto simp: below_append)
  qed
qed

lemma below_ci_comparable: "below_ci a k \<Longrightarrow> below_ci b k \<Longrightarrow> below_ci a b \<or> below_ci b a"
  unfolding below_ci_def by (rule below_comparable)

lemma clean_append:
  assumes "clean_path a" "clean_path (b @ r)" "a \<noteq> []" "r = [] \<or> c_at r 0 = CHR ''/''"
  shows "clean_path (a @ r)"
  using assms by (cases r) (auto simp: clean_path_def successively_append_iff c_string_def c_at_def)

lemma ifind_loop_ge: "ifind_loop k old n = Some m \<Longrightarrow> n \<le> m"
  by (induction k arbitrary: n) (force split: if_splits)+

lemma ifind_start:
  "ifind (c # k) old 0 = Some 0 \<longleftrightarrow> c_tolower (c_at old 0) = c_tolower c \<and> EQUALN (c # k) old (length old)"
  using ifind_loop_ge [of k old 1 0] by (auto simp: ifind_def)

lemma ifind_prefix: "old \<noteq> [] \<Longrightarrow> ifind k old 0 = Some 0 \<longleftrightarrow> EQUALN k old (length old)"
proof (cases k)
  case Nil
  then show "old \<noteq> [] \<Longrightarrow> ?thesis" by (simp add: ifind_def EQUALN_def)
next
  case (Cons c k')
  then show "old \<noteq> [] \<Longrightarrow> ?thesis" using ifind_start [of c k' old] by (cases old) (auto simp: EQUALN_def c_at_def)
qed


subsection \<open>Rename moves a directory\<close>

text \<open>The invariant of the file system: the names are in order, every one belongs to an object that knows it,
  and the objects are well-formed files.\<close>

definition fs_ok :: "mem_fs \<Rightarrow> bool" where
  "fs_ok fs \<longleftrightarrow> sorted_map (oFileList fs) \<and> (\<forall>f\<in>set (heap fs). file_ok f) \<and>
     (\<forall>k i. map_of (oFileList fs) k = Some i \<longrightarrow> i < length (heap fs) \<and> osFilename (heap fs ! i) = k)"

text \<open>The names when the entries before \<open>c\<close> have been moved, and the objects.\<close>

definition before :: "string \<Rightarrow> string option \<Rightarrow> bool" where
  "before k c \<longleftrightarrow> (case c of None \<Rightarrow> True | Some x \<Rightarrow> k < x)"

definition moved :: "string \<Rightarrow> string \<Rightarrow> (string \<rightharpoonup> nat) \<Rightarrow> string option \<Rightarrow> string \<rightharpoonup> nat" where
  "moved old new F c k =
     (let k' = old @ drop (length new) k in
      if below old k \<and> before k c then None
      else if below new k \<and> before k' c \<and> F k' \<noteq> None then F k' else F k)"

definition renamed :: "string \<Rightarrow> string \<Rightarrow> string option \<Rightarrow> mem_file \<Rightarrow> mem_file" where
  "renamed old new c f =
     (if below old (osFilename f) \<and> before (osFilename f) c
      then f\<lparr>osFilename := new @ drop (length old) (osFilename f)\<rparr> else f)"

text \<open>Old and new name are clean, neither is inside the other, and no other spelling of the old name (in capitals,
  say) is in use.\<close>

definition can_move :: "string \<Rightarrow> string \<Rightarrow> mem_fs \<Rightarrow> bool" where
  "can_move old new fs \<longleftrightarrow> clean_path old \<and> clean_path new \<and> old \<noteq> [] \<and> new \<noteq> [] \<and>
     \<not> below_ci old new \<and> \<not> below_ci new old \<and>
     (\<forall>k\<in>dom (map_of (oFileList fs)). below_ci old k \<longrightarrow> below old k \<and> clean_path k)"

definition rename_inv :: "string \<Rightarrow> string \<Rightarrow> mem_fs \<Rightarrow> string option \<Rightarrow> mem_fs \<Rightarrow> bool" where
  "rename_inv old new fs0 c fs \<longleftrightarrow> sorted_map (oFileList fs) \<and> m_osPrefix fs = m_osPrefix fs0 \<and>
     map_of (oFileList fs) = moved old new (map_of (oFileList fs0)) c \<and>
     length (heap fs) = length (heap fs0) \<and>
     (\<forall>k i. map_of (oFileList fs0) k = Some i \<longrightarrow> heap fs ! i = renamed old new c (heap fs0 ! i)) \<and>
     (\<forall>i. i \<notin> ran (map_of (oFileList fs0)) \<longrightarrow> heap fs ! i = heap fs0 ! i)"

lemma moved_start:
  assumes "F old \<noteq> None" "\<forall>k. old \<le> k \<or> \<not> below old k"
  shows "moved old new F (Some old) = F"
proof
  fix k
  have "old \<le> old @ drop (length new) k" by (rule prefix_le)
  then show "moved old new F (Some old) k = F k" using assms(2) by (auto simp: moved_def before_def Let_def dest: leD)
qed

lemma below_le: "below old k \<Longrightarrow> old \<le> k"
  by (auto simp: below_append prefix_le)

text \<open>Moving on to the next entry when nothing lies between.\<close>

lemma before_next:
  assumes "c < c'" "\<not> (c < k \<and> k < c')"
  shows "before k (Some c') \<longleftrightarrow> before k (Some c) \<or> k = c"
  using assms by (auto simp: before_def)

lemma before_map_next:
  assumes "sorted_map m" "k \<noteq> c" "c < k \<Longrightarrow> k \<in> dom (map_of m)"
  shows "before k (map_next c m) \<longleftrightarrow> before k (Some c)"
proof (cases "map_next c m")
  case None
  then have "\<not> c < k" using assms(3) map_next_None [of c m] leD by blast
  then show ?thesis using None assms(2) by (simp add: before_def)
next
  case (Some a)
  note a = map_next_Some [OF assms(1) Some]
  show ?thesis
  proof (cases "c < k")
    case True
    then have "\<not> k < a" "\<not> k < c" using a(3) [of k] assms(3) by auto
    then show ?thesis using Some by (simp add: before_def)
  next
    case False
    then have "k < c" "k < a" using assms(2) a(1) by auto
    then show ?thesis using Some by (simp add: before_def)
  qed
qed

lemma Rename_skip:
  assumes inv: "rename_inv old new fs0 (Some c) fs" and ok: "fs_ok fs0" and nb: "\<not> below old c" and dis: "\<And>k. \<not> (below old k \<and> below new k)"
  shows "rename_inv old new fs0 (map_next c (oFileList fs)) fs"
proof -
  define F where "F = map_of (oFileList fs0)"
  have fs: "sorted_map (oFileList fs)" "map_of (oFileList fs) = moved old new F (Some c)" using inv by (simp_all add: rename_inv_def F_def)
  have same: "before k (map_next c (oFileList fs)) \<longleftrightarrow> before k (Some c)" if "below old k" "F k \<noteq> None" for k
  proof -
    have ne: "k \<noteq> c" using nb that(1) by blast
    have "k \<in> dom (map_of (oFileList fs))" if "c < k"
      using that \<open>below old k\<close> \<open>F k \<noteq> None\<close> unfolding fs(2) by (auto simp: moved_def before_def Let_def)
    then show ?thesis using before_map_next [OF fs(1) ne] by blast
  qed
  have "moved old new F (map_next c (oFileList fs)) k = moved old new F (Some c) k" for k
  proof (cases "below old k")
    case True
    then show ?thesis using same [of k] dis [of k] by (cases "F k") (simp_all add: moved_def Let_def)
  next
    case False
    let ?k = "old @ drop (length new) k"
    have "before ?k (map_next c (oFileList fs)) = before ?k (Some c)" if "below new k" "F ?k \<noteq> None"
      using same below_other that by blast
    then show ?thesis using False unfolding moved_def Let_def by auto
  qed
  moreover have "renamed old new (map_next c (oFileList fs)) (heap fs0 ! i) = renamed old new (Some c) (heap fs0 ! i)"
    if "F k = Some i" for k i
    using that ok same [of k] by (auto simp: renamed_def fs_ok_def F_def)
  ultimately show ?thesis using inv by (auto simp: rename_inv_def F_def)
qed


lemma Unlink_clean:
  assumes "clean_path p" "sorted_map (oFileList fs)"
  shows "map_of (oFileList (fst (Unlink_unlocked p fs))) = (map_of (oFileList fs))(p := None)"
    "sorted_map (oFileList (fst (Unlink_unlocked p fs)))"
    "heap (fst (Unlink_unlocked p fs)) = heap fs" "m_osPrefix (fst (Unlink_unlocked p fs)) = m_osPrefix fs"
  using assms by (auto simp: Unlink_unlocked_def Let_def NormalizePath_clean map_of_erase sorted_erase split: option.split)

lemma Rename_move:
  assumes inv: "rename_inv old new fs0 (Some c) fs" and ok: "fs_ok fs0" and dis: "\<And>k. \<not> (below old k \<and> below new k)"
    and c: "below old c" "c \<in> dom (map_of (oFileList fs))" and full: "clean_path (new @ drop (length old) c)"
  shows "\<exists>fs' m. Rename_step old new c fs = Some (fs', map_next c m) \<and> sorted_map m \<and>
    map_of m = (map_of (oFileList fs))(new @ drop (length old) c := map_of (oFileList fs) c) \<and>
    map_of (oFileList fs') = (map_of m)(c := None) \<and> rename_inv old new fs0 (map_next c m) fs'"
proof -
  define F where "F = map_of (oFileList fs0)"
  define G where "G = map_of (oFileList fs)"
  define full where "full = new @ drop (length old) c"
  have fs: "sorted_map (oFileList fs)" "G = moved old new F (Some c)" "m_osPrefix fs = m_osPrefix fs0" "length (heap fs) = length (heap fs0)"
    using inv by (simp_all add: rename_inv_def F_def G_def)
  have bf: "below new full" "\<not> below old full" unfolding full_def using below_other [OF c(1)] dis by blast+
  then have fc: "full \<noteq> c" using c(1) by blast
  have "G c = F c" using c(1) dis [of c] unfolding fs(2) by (auto simp: moved_def before_def Let_def)
  then obtain i where i: "F c = Some i" "G c = Some i" using c(2) unfolding G_def by (metis domD)
  define fs1 where "fs1 = fst (Unlink_unlocked full fs)"
  have fs1: "map_of (oFileList fs1) = G(full := None)" "sorted_map (oFileList fs1)" "heap fs1 = heap fs" "m_osPrefix fs1 = m_osPrefix fs"
    using Unlink_clean [OF full fs(1)] by (simp_all add: fs1_def full_def G_def)
  define m where "m = map_put full i (oFileList fs1)"
  have m: "sorted_map m" "map_of m = G(full \<mapsto> i)" using fs1 by (simp_all add: m_def map_of_put sorted_put)
  let ?fs = "fs1\<lparr>oFileList := map_erase c m, heap := (heap fs)[i := (heap fs ! i)\<lparr>osFilename := full\<rparr>]\<rparr>"
  have st: "Rename_step old new c fs = Some (?fs, map_next c m)"
    using below_drop [OF c(1)] c(1) i(2) fc fs1 by (simp add: Rename_step_def Let_def below_def full_def [symmetric] fs1_def [symmetric] set_name_def m_def)
  let ?n = "map_next c m"
  have next_same: "before k ?n \<longleftrightarrow> before k (Some c)" if "below old k" "F k \<noteq> None" "k \<noteq> c" for k
  proof (rule before_map_next [OF m(1) that(3)])
    assume "c < k"
    then show "k \<in> dom (map_of m)"
      using that bf dis [of k] unfolding m(2) fs(2) by (auto simp: moved_def before_def Let_def)
  qed
  have next_c: "before c ?n"
    using map_next_Some(1) [OF m(1)] by (cases ?n) (auto simp: before_def)
  have "(G(full \<mapsto> i))(c := None) = moved old new F ?n"
  proof
    fix k
    let ?k = "old @ drop (length new) k"
    consider "k = c" | "k = full" | (old) "k \<noteq> c" "k \<noteq> full" "below old k" | (new) "k \<noteq> c" "k \<noteq> full" "\<not> below old k" by blast
    then show "((G(full \<mapsto> i))(c := None)) k = moved old new F ?n k"
    proof cases
      case 1
      then show ?thesis using c(1) next_c by (simp add: moved_def Let_def)
    next
      case 2
      then have "?k = c" using below_drop [OF c(1)] by (simp add: full_def)
      then show ?thesis using 2 fc bf next_c i(1) by (simp add: moved_def Let_def)
    next
      case old
      then show ?thesis using next_same [of k] dis [of k] unfolding fs(2) by (cases "F k") (simp_all add: moved_def Let_def)
    next
      case new
      have "before ?k ?n = before ?k (Some c)" if "below new k" "F ?k \<noteq> None"
      proof (rule next_same)
        show "below old ?k" by (rule below_other) (rule that(1))
        show "?k \<noteq> c" using new(2) below_drop [OF that(1)] by (auto simp: full_def)
      qed (rule that(2))
      then show ?thesis using new unfolding fs(2) moved_def Let_def by auto
    qed
  qed
  then have mapped: "map_of (oFileList ?fs) = moved old new F ?n" by (simp add: map_of_erase m(2))
  have names: "j < length (heap fs0) \<and> osFilename (heap fs0 ! j) = k" if "F k = Some j" for k j
    using ok that by (auto simp: fs_ok_def F_def)
  have heap: "heap fs ! j = renamed old new (Some c) (heap fs0 ! j)" if "F k = Some j" for k j
    using inv that by (simp add: rename_inv_def F_def)
  have "heap fs ! i = heap fs0 ! i" using heap [OF i(1)] names [OF i(1)] by (simp add: renamed_def before_def)
  then have "heap ?fs ! i = renamed old new ?n (heap fs0 ! i)"
    using names [OF i(1)] c(1) next_c fs(4) by (simp add: renamed_def full_def)
  moreover have "heap ?fs ! j = renamed old new ?n (heap fs0 ! j)" if "F k = Some j" "k \<noteq> c" for k j
  proof -
    have "j \<noteq> i" using names [OF that(1)] names [OF i(1)] that(2) by auto
    then show ?thesis using heap [OF that(1)] next_same [of k] names [OF that(1)] that by (auto simp: renamed_def)
  qed
  ultimately have "\<forall>k j. F k = Some j \<longrightarrow> heap ?fs ! j = renamed old new ?n (heap fs0 ! j)"
    using i(1) by (metis option.inject)
  moreover have "heap ?fs ! j = heap fs0 ! j" if "j \<notin> ran F" for j
  proof -
    have "j \<noteq> i" using that i(1) by (auto simp: ran_def)
    moreover have "heap fs ! j = heap fs0 ! j" using inv that unfolding rename_inv_def F_def by blast
    ultimately show ?thesis by simp
  qed
  ultimately have "rename_inv old new fs0 ?n ?fs"
    using mapped fs fs1(4) m(1) by (simp add: rename_inv_def F_def sorted_erase)
  then show ?thesis using st m i(2) by (auto simp: G_def full_def [symmetric] map_of_erase)
qed


text \<open>The entries an iterator has before it: those to be moved count twice, as moving one may put another one in
  front.\<close>

definition to_visit :: "string \<Rightarrow> (string \<rightharpoonup> nat) \<Rightarrow> string option \<Rightarrow> nat" where
  "to_visit old G c = (case c of None \<Rightarrow> 0 | Some x \<Rightarrow> card {k \<in> dom G. x \<le> k} + card {k \<in> dom G. x \<le> k \<and> below old k})"

lemma to_visit_next:
  assumes "sorted_map m" "finite (dom G)" "x \<in> dom G" "dom (map_of m) \<subseteq> insert full (dom G)"
    and "full = x \<or> below old x \<and> \<not> below old full"
    and "dom G' \<subseteq> dom (map_of m)" "\<not> below old x \<longrightarrow> G' = G" "below old x \<longrightarrow> x \<notin> dom G'"
  shows "to_visit old G' (map_next x m) < to_visit old G (Some x)"
proof (cases "map_next x m")
  case None
  have "x \<in> {k \<in> dom G. x \<le> k}" "finite {k \<in> dom G. x \<le> k}" using assms(2,3) by simp_all
  then have "0 < card {k \<in> dom G. x \<le> k}" by (metis card_gt_0_iff empty_iff)
  then show ?thesis using None by (simp add: to_visit_def)
next
  case (Some y)
  have y: "x < y" by (rule map_next_Some(1) [OF assms(1) Some])
  let ?A = "{k \<in> dom G. x \<le> k}" and ?B = "{k \<in> dom G. x \<le> k \<and> below old k}"
  let ?A' = "{k \<in> dom G'. y \<le> k}" and ?B' = "{k \<in> dom G'. y \<le> k \<and> below old k}"
  have fin: "finite ?A" "finite ?B" using assms(2) by simp_all
  have xA: "x \<in> ?A" using assms(3) by simp
  have gt: "y \<le> k \<Longrightarrow> x \<le> k \<and> k \<noteq> x" for k using y by auto
  have sub: "k \<in> dom G' \<Longrightarrow> k \<in> dom G \<or> k = full" for k using assms(4,6) by blast
  show ?thesis
  proof (cases "below old x")
    case True
    then have xB: "x \<in> ?B" using assms(3) by simp
    have "?A' \<subseteq> insert full (?A - {x})" using sub gt by blast
    then have "card ?A' \<le> card (insert full (?A - {x}))" using fin by (intro card_mono) auto
    also have "\<dots> \<le> Suc (card (?A - {x}))" by (rule card_insert_le_m1) (use fin in auto)
    also have "\<dots> = card ?A" using card_Suc_Diff1 [OF fin(1) xA] by simp
    finally have "card ?A' \<le> card ?A" .
    moreover have "?B' \<subseteq> ?B - {x}" using sub gt assms(5) True by blast
    then have "?B' \<subset> ?B" using xB by blast
    then have "card ?B' < card ?B" by (rule psubset_card_mono [OF fin(2)])
    ultimately show ?thesis using Some by (simp add: to_visit_def)
  next
    case False
    then have G: "G' = G" using assms(7) by simp
    have "?A' \<subseteq> ?A - {x}" "?B' \<subseteq> ?B" unfolding G using gt by blast+
    then have "?A' \<subset> ?A" using xA by blast
    then have "card ?A' < card ?A" by (rule psubset_card_mono [OF fin(1)])
    moreover have "card ?B' \<le> card ?B" by (rule card_mono [OF fin(2)]) fact
    ultimately show ?thesis using Some by (simp add: to_visit_def)
  qed
qed

lemma Rename_loop_moves:
  assumes ok: "fs_ok fs0" and can: "can_move old new fs0"
  shows "rename_inv old new fs0 c fs \<Longrightarrow> \<forall>x. c = Some x \<longrightarrow> old \<le> x \<and> x \<in> dom (map_of (oFileList fs)) \<Longrightarrow>
    \<exists>fs'. Rename_loop old new (fs, c) = Some fs' \<and> rename_inv old new fs0 None fs'"
proof (induction "to_visit old (map_of (oFileList fs)) c" arbitrary: fs c rule: less_induct)
  case less
  define F where "F = map_of (oFileList fs0)"
  have dis: "\<not> (below old k \<and> below new k)" for k
    using can below_ci_comparable [of old k new] below_ci_I unfolding can_move_def by blast
  have old: "old \<noteq> []" using can by (simp add: can_move_def)
  have fs: "sorted_map (oFileList fs)" "map_of (oFileList fs) = moved old new F c"
    using less.prems(1) by (simp_all add: rename_inv_def F_def)
  show ?case
  proof (cases c)
    case None
    then show ?thesis using less.prems(1) by (subst Rename_loop.simps) simp
  next
    case (Some x)
    then have x: "old \<le> x" "x \<in> dom (map_of (oFileList fs))" using less.prems(2) by simp_all
    have inv: "rename_inv old new fs0 (Some x) fs" using less.prems(1) Some by simp
    have fin: "finite (dom (map_of (oFileList fs)))" by (rule finite_dom_map_of)
    show ?thesis
    proof (cases "ifind x old 0 = Some 0")
      case False
      have stop: "\<not> (below old k \<and> x \<le> k)" for k
      proof
        assume "below old k \<and> x \<le> k"
        then have "take (length old) x = old" using prefix_between [OF x(1)] below_drop by metis
        then show False using False ifind_prefix [OF old, of x] by (simp add: EQUALN_def)
      qed
      have "moved old new F None = moved old new F (Some x)"
        using stop below_other by (auto simp: fun_eq_iff moved_def before_def Let_def not_le)
      moreover have "renamed old new None f = renamed old new (Some x) f" for f
        using stop by (auto simp: renamed_def before_def not_le)
      ultimately have "rename_inv old new fs0 None fs" using inv by (simp add: rename_inv_def F_def)
      then show ?thesis using Some False by (subst Rename_loop.simps) simp
    next
      case True
      have go: "Rename_loop old new (fs, c) = Option.bind (Rename_step old new x fs) (Rename_loop old new)"
        using Some True by (subst Rename_loop.simps) simp
      show ?thesis
      proof (cases "below old x")
        case bel: True
        have "x \<in> dom F" using x(2) bel dis [of x] unfolding fs(2) by (auto simp: moved_def Let_def split: if_splits)
        then have "clean_path x" using can below_ci_I [OF bel] by (simp add: can_move_def F_def)
        then have "clean_path (new @ drop (length old) x)"
          using clean_append [of new old "drop (length old) x"] can bel below_drop [OF bel]
          by (auto simp: can_move_def below_def)
        then obtain fs' m where st: "Rename_step old new x fs = Some (fs', map_next x m)" "sorted_map m"
          "map_of m = (map_of (oFileList fs))(new @ drop (length old) x := map_of (oFileList fs) x)"
          "map_of (oFileList fs') = (map_of m)(x := None)" "rename_inv old new fs0 (map_next x m) fs'"
          using Rename_move [OF inv ok dis bel x(2)] by blast
        have nb: "\<not> below old (new @ drop (length old) x)" using dis below_other [OF bel] by blast
        have "to_visit old (map_of (oFileList fs')) (map_next x m) < to_visit old (map_of (oFileList fs)) c"
          unfolding Some
        proof (rule to_visit_next [OF st(2) fin x(2)])
          show "new @ drop (length old) x = x \<or> below old x \<and> \<not> below old (new @ drop (length old) x)" using bel nb by blast
        qed (use st(3,4) bel in auto)
        moreover have "\<forall>y. map_next x m = Some y \<longrightarrow> old \<le> y \<and> y \<in> dom (map_of (oFileList fs'))"
          using map_next_Some(1,2) [OF st(2)] x(1) st(4) by fastforce
        ultimately show ?thesis unfolding go using less.hyps [OF _ st(5)] st(1) by simp
      next
        case False
        have nci: "\<not> below_ci old x"
        proof
          assume bc: "below_ci old x"
          have "x \<in> dom F \<or> below new x" using x(2) unfolding fs(2) by (auto simp: moved_def Let_def split: if_splits)
          then show False
            using bc False can below_ci_comparable [OF bc, of new] below_ci_I [of new x] unfolding can_move_def F_def by blast
        qed
        have "EQUALN x old (length old)" using True ifind_prefix [OF old] by blast
        then have sp: "map c_tolower x = map c_tolower old @ map c_tolower (drop (length old) x)"
          by (metis EQUALN_def append_take_drop_id map_append take_all_iff order_refl)
        have "\<not> (drop (length old) x = [] \<or> c_at (drop (length old) x) 0 = CHR ''/'')"
        proof
          assume "drop (length old) x = [] \<or> c_at (drop (length old) x) 0 = CHR ''/''"
          then have "map c_tolower (drop (length old) x) = [] \<or> c_at (map c_tolower (drop (length old) x)) 0 = CHR ''/''"
            by (cases "drop (length old) x") (auto simp: c_at_def c_tolower_slash)
          then show False using nci sp unfolding below_ci_def below_append by blast
        qed
        then have st: "Rename_step old new x fs = Some (fs, map_next x (oFileList fs))"
          by (simp only: Rename_step_def Let_def if_False)
        have inv': "rename_inv old new fs0 (map_next x (oFileList fs)) fs" by (rule Rename_skip [OF inv ok False dis])
        have "to_visit old (map_of (oFileList fs)) (map_next x (oFileList fs)) < to_visit old (map_of (oFileList fs)) c"
          unfolding Some by (rule to_visit_next [OF fs(1) fin x(2), of x]) (use False in auto)
        moreover have "\<forall>y. map_next x (oFileList fs) = Some y \<longrightarrow> old \<le> y \<and> y \<in> dom (map_of (oFileList fs))"
          using map_next_Some(1,2) [OF fs(1)] x(1) by fastforce
        ultimately show ?thesis unfolding go using less.hyps [OF _ inv'] st by simp
      qed
    qed
  qed
qed


lemma fs_ok_heap:
  "fs_ok fs \<Longrightarrow> map_of (oFileList fs) k = Some i \<Longrightarrow> i < length (heap fs) \<and> osFilename (heap fs ! i) = k \<and> file_ok (heap fs ! i)"
  by (simp add: fs_ok_def)

lemma file_ok_name [simp]: "file_ok (f\<lparr>osFilename := n\<rparr>) = file_ok f" "content (f\<lparr>osFilename := n\<rparr>) = content f"
  by (simp_all add: file_ok_def content_def data_def)

lemma rename_inv_end:
  assumes inv: "rename_inv old new fs0 None fs" and ok: "fs_ok fs0"
  shows "fs_ok fs" "(heap fs ! i)\<lparr>osFilename := n\<rparr> = (heap fs0 ! i)\<lparr>osFilename := n\<rparr>"
proof -
  define F where "F = map_of (oFileList fs0)"
  have fs: "sorted_map (oFileList fs)" "map_of (oFileList fs) = moved old new F None" "length (heap fs) = length (heap fs0)"
    using inv by (simp_all add: rename_inv_def F_def)
  have names: "j < length (heap fs0) \<and> osFilename (heap fs0 ! j) = k \<and> file_ok (heap fs0 ! j)" if "F k = Some j" for k j
    using fs_ok_heap [OF ok] that by (simp add: F_def)
  have heap: "heap fs ! j = renamed old new None (heap fs0 ! j)" if "F k = Some j" for k j
    using inv that by (simp add: rename_inv_def F_def)
  have "j < length (heap fs) \<and> osFilename (heap fs ! j) = k \<and> file_ok (heap fs ! j)" if m: "moved old new F None k = Some j" for k j
  proof -
    let ?k = "old @ drop (length new) k"
    consider (new) "below new k" "F ?k = Some j" | (same) "\<not> below old k" "F k = Some j"
      using m by (auto simp: moved_def Let_def before_def split: if_splits)
    then show ?thesis
    proof cases
      case new
      then show ?thesis
        using names [OF new(2)] heap [OF new(2)] fs(3) below_other [OF new(1), of old] below_drop [OF new(1)]
        by (simp add: renamed_def before_def)
    next
      case same
      then show ?thesis using names [OF same(2)] heap [OF same(2)] fs(3) by (simp add: renamed_def)
    qed
  qed
  then have named: "\<forall>k j. map_of (oFileList fs) k = Some j \<longrightarrow> j < length (heap fs) \<and> osFilename (heap fs ! j) = k"
    using fs(2) by simp
  have same: "(heap fs ! i)\<lparr>osFilename := n\<rparr> = (heap fs0 ! i)\<lparr>osFilename := n\<rparr>" for i n
  proof (cases "i \<in> ran F")
    case True
    then obtain k where "F k = Some i" by (auto simp: ran_def)
    then show ?thesis using heap [of k i] by (simp add: renamed_def)
  next
    case False
    then show ?thesis using inv by (simp add: rename_inv_def F_def)
  qed
  then show "(heap fs ! i)\<lparr>osFilename := n\<rparr> = (heap fs0 ! i)\<lparr>osFilename := n\<rparr>" .
  have "file_ok (heap fs ! j)" if "j < length (heap fs)" for j
    using same [where i = j and n = "[]"] file_ok_name(1) [where f = "heap fs ! j" and n = "[]"] file_ok_name(1) [where f = "heap fs0 ! j" and n = "[]"] ok that fs(3)
    by (simp add: fs_ok_def)
  then show "fs_ok fs" using fs(1) named by (auto simp: fs_ok_def in_set_conv_nth)
qed

lemma Rename_moved:
  assumes "fs_ok fs" "can_move (NormalizePath old) (NormalizePath new) fs"
    "NormalizePath old \<in> dom (map_of (oFileList fs))" "STARTS_WITH new (m_osPrefix fs)"
  shows "\<exists>fs'. Rename old new fs = Some (fs', 0) \<and> rename_inv (NormalizePath old) (NormalizePath new) fs None fs'"
proof -
  let ?o = "NormalizePath old" and ?n = "NormalizePath new"
  have "\<not> below_ci ?o ?n" using assms(2) unfolding can_move_def by blast
  then have ne: "?o \<noteq> ?n" using below_ci_I [OF below_self] by metis
  have "moved ?o ?n (map_of (oFileList fs)) (Some ?o) = map_of (oFileList fs)"
    by (rule moved_start) (use assms(3) below_le in auto)
  moreover have "renamed ?o ?n (Some ?o) f = f" for f
    using below_le by (auto simp: renamed_def before_def dest: leD)
  ultimately have "rename_inv ?o ?n fs (Some ?o) fs" using assms(1) by (simp add: rename_inv_def fs_ok_def)
  then obtain fs' where "Rename_loop ?o ?n (fs, Some ?o) = Some fs'" "rename_inv ?o ?n fs None fs'"
    using Rename_loop_moves [OF assms(1,2)] assms(3) by blast
  then show ?thesis using ne assms(3,4) by (auto simp: Rename_def Let_def)
qed


definition example_fs :: mem_fs where
  "example_fs =
     (let env = \<lparr>realloc_ok = \<lambda>n. True, fresh = \<lambda>i. 0, clock = 0\<rparr> in
      (VSIMemFilesystemHandler ''/vsimem/'')
        \<lparr>oFileList := [(''/vsimem/a'', 0), (''/vsimem/a/x'', 1), (''/vsimem/ab'', 2)],
         heap := [(VSIMemFile env)\<lparr>osFilename := ''/vsimem/a'', bIsDirectory := True\<rparr>,
                  (VSIMemFile env)\<lparr>osFilename := ''/vsimem/a/x''\<rparr>, (VSIMemFile env)\<lparr>osFilename := ''/vsimem/ab''\<rparr>]\<rparr>)"



text \<open>Without the conditions: renaming a file so that only the case of letters changes removes the new entry through
  the iterator that points to it, and goes on with that iterator.\<close>

theorem Rename_case_undefined:
  "Rename ''/vsimem/A'' ''/vsimem/a'' ((VSIMemFilesystemHandler ''/vsimem/'')\<lparr>oFileList := [(''/vsimem/A'', 0)], heap := [f]\<rparr>) = None"
proof -
  let ?fs = "(VSIMemFilesystemHandler ''/vsimem/'')\<lparr>oFileList := [(''/vsimem/A'', 0)], heap := [f]\<rparr>"
  let ?f = "f\<lparr>osFilename := ''/vsimem/a''\<rparr>"
  let ?gs = "\<lparr>m_osPrefix = ''/vsimem/'', oFileList = [(''/vsimem/a'', 0)], heap = [?f], errno = ENOENT\<rparr>"
  have n: "NormalizePath ''/vsimem/A'' = ''/vsimem/A''" "NormalizePath ''/vsimem/a'' = ''/vsimem/a''" by code_simp+
  have i: "ifind ''/vsimem/A'' ''/vsimem/A'' 0 = Some 0" "ifind ''/vsimem/a'' ''/vsimem/A'' 0 = Some 0" by code_simp+
  have l: "(''/vsimem/A'' :: string) < ''/vsimem/a''" by code_simp
  have s1: "Rename_step ''/vsimem/A'' ''/vsimem/a'' ''/vsimem/A'' ?fs = Some (?gs, Some ''/vsimem/a'')"
    using l by (simp add: Rename_step_def Unlink_unlocked_def VSIMemFilesystemHandler_def n set_name_def map_erase_def map_next_def Let_def)
  have s2: "Rename_step ''/vsimem/A'' ''/vsimem/a'' ''/vsimem/a'' ?gs = None"
    by (simp add: Rename_step_def Unlink_unlocked_def n map_erase_def)
  have "Rename_loop ''/vsimem/A'' ''/vsimem/a'' (?fs, Some ''/vsimem/A'') = None"
    by (subst Rename_loop.simps, simp add: i s1) (subst Rename_loop.simps, simp add: i s2)
  moreover have "STARTS_WITH ''/vsimem/a'' ''/vsimem/''" by code_simp
  ultimately show ?thesis by (simp add: Rename_def n VSIMemFilesystemHandler_def)
qed

text \<open>Renaming a directory into itself moves it deeper and deeper, without end.\<close>

definition deeper :: "string \<Rightarrow> string \<Rightarrow> mem_fs \<times> string option \<Rightarrow> bool" where
  "deeper old t s \<longleftrightarrow> (\<exists>n i. let x = old @ concat (replicate n t) in oFileList (fst s) = [(x, i)] \<and> snd s = Some x)"

lemma replicate_commutes: "concat (replicate n t) @ t = t @ concat (replicate n t)"
  by (induction n) auto

lemma deeper_step:
  assumes "clean_path old" "old \<noteq> []" "clean_path t" "c_at t 0 = CHR ''/''" "deeper old t s"
  shows "\<exists>x s'. snd s = Some x \<and> ifind x old 0 = Some 0 \<and> Rename_step old (old @ t) x (fst s) = Some s' \<and> deeper old t s'"
proof -
  obtain n i where s: "oFileList (fst s) = [(old @ concat (replicate n t), i)]" "snd s = Some (old @ concat (replicate n t))"
    using assms(5) by (auto simp: deeper_def Let_def)
  let ?x = "old @ concat (replicate n t)"
  have t: "t \<noteq> []" using assms(4) by (auto simp: c_at_def)
  have clean: "clean_path (old @ concat (replicate k t))" for k
  proof (induction k)
    case (Suc k)
    have "concat (replicate k t) @ t = t @ concat (replicate k t)" by (rule replicate_commutes)
    moreover have "clean_path ((old @ concat (replicate k t)) @ t)"
      by (rule clean_append [OF Suc, of "[]"]) (use assms in auto)
    ultimately show ?case by simp
  qed (use assms in simp)
  have full: "(old @ t) @ drop (length old) ?x = old @ concat (replicate (Suc n) t)" by simp
  have more: "old @ concat (replicate (Suc n) t) = ?x @ t"
    using replicate_commutes [of n t] by simp
  have less: "?x < ?x @ u" if "u \<noteq> []" for u
  proof -
    have "?x \<le> ?x @ u" by (rule prefix_le)
    then show ?thesis using that by (simp add: order.order_iff_strict)
  qed
  have e: "EQUALN ?x old (length old)" by (simp add: EQUALN_def)
  have r: "drop (length old) ?x = [] \<or> c_at (drop (length old) ?x) 0 = CHR ''/''"
    using assms(4) t by (cases n) (auto simp: c_at_def nth_append)
  have ne: "?x @ t \<noteq> ?x" using t by simp
  have "\<exists>s'. Rename_step old (old @ t) ?x (fst s) = Some s' \<and> deeper old t s'"
    using r s(1) NormalizePath_clean [OF clean [of "Suc n"]] less [OF t] t
    unfolding Rename_step_def Let_def full more
    by (auto simp: Unlink_unlocked_def set_name_def map_erase_def map_next_def deeper_def Let_def replicate_commutes intro!: exI [of _ "Suc n"])
  then show ?thesis using s(2) e ifind_prefix [OF assms(2)] by blast
qed


theorem Rename_into_itself:
  assumes "clean_path old" "old \<noteq> []" "clean_path t" "c_at t 0 = CHR ''/''" "oFileList fs = [(old, i)]" "STARTS_WITH old (m_osPrefix fs)"
  shows "Rename old (old @ t) fs = None"
proof -
  have never: "\<not> deeper old t s" if "Rename_loop old (old @ t) s = Some r" for s r
  proof -
    have "old = old \<and> old @ t = old @ t \<longrightarrow> \<not> deeper old t s"
    proof (rule Rename_loop.raw_induct [where P = "\<lambda>a b s r. a = old \<and> b = old @ t \<longrightarrow> \<not> deeper old t s", OF _ that])
      fix loop a b s r
      assume ih: "\<And>a b s r. loop a b s = Some r \<Longrightarrow> a = old \<and> b = old @ t \<longrightarrow> \<not> deeper old t s"
        and body: "(case snd s of None \<Rightarrow> Some (fst s)
          | Some k \<Rightarrow> if ifind k a 0 \<noteq> Some 0 then Some (fst s) else Rename_step a b k (fst s) \<bind> loop a b) = Some r"
      show "a = old \<and> b = old @ t \<longrightarrow> \<not> deeper old t s"
      proof (intro impI notI)
        assume ab: "a = old \<and> b = old @ t" and "deeper old t s"
        from deeper_step [OF assms(1-4) this(2)] obtain x s' where x: "snd s = Some x" "ifind x old 0 = Some 0"
          "Rename_step old (old @ t) x (fst s) = Some s'" "deeper old t s'" by blast
        then have "loop old (old @ t) s' = Some r" using body ab by simp
        then show False using ih x(4) by blast
      qed
    qed
    then show ?thesis by simp
  qed
  have t: "t \<noteq> []" using assms(4) by (auto simp: c_at_def)
  have "clean_path (old @ t)" by (rule clean_append [of old "[]"]) (use assms in auto)
  then have n: "NormalizePath old = old" "NormalizePath (old @ t) = old @ t" using assms(1) NormalizePath_clean by blast+
  have "let x = old @ concat (replicate 0 t) in oFileList (fst (fs, Some old)) = [(x, i)] \<and> snd (fs, Some old) = Some x"
    using assms(5) by simp
  then have "deeper old t (fs, Some old)" unfolding deeper_def by blast
  then have "Rename_loop old (old @ t) (fs, Some old) = None"
    using never by (cases "Rename_loop old (old @ t) (fs, Some old)") auto
  moreover have "STARTS_WITH (old @ t) (m_osPrefix fs)"
    using assms(6) by (metis STARTS_WITH_def append_assoc append_eq_conv_conj append_take_drop_id)
  ultimately show ?thesis using t n assms(5) by (simp add: Rename_def)
qed


text \<open>NormalizePath is not idempotent: a name with three separators in a row is stored under a name that, given to the
  file system, means another one.\<close>

theorem NormalizePath_not_idempotent:
  "NormalizePath ''/vsimem/a///b'' = ''/vsimem/a//b''" "NormalizePath ''/vsimem/a//b'' = ''/vsimem/a/b''"
  by code_simp+

end
