(* ===== verification/VsiMem.thy ===== *)
theory VsiMem
  imports MemFs
begin

section \<open>Operations of the file system in memory\<close>

text \<open>
  The state here is the file system, the state of the other file systems and the open handles; an operation is any
  entry point of the handler or any operation of any handle.  The lemmas show that the operations keep the
  invariant and never leave a block, and what opening, listing, creating directories and exchanging
  buffers do.
\<close>

subsection \<open>Names that NormalizePath and CPLGetPath give\<close>

definition name_ok :: "string \<Rightarrow> bool" where
  "name_ok s \<longleftrightarrow> c_string s \<and> length s < 2 ^ 31"

definition sys_ok :: "'d vsi_system \<Rightarrow> bool" where
  "sys_ok sys \<longleftrightarrow> (\<forall>b. pathBuf sys = Some b \<longrightarrow> length b = CPL_PATH_BUF_SIZE)"

lemma replaceAll_loop_result:
  assumes "length osAfter \<le> length osBefore"
  shows "set (replaceAll_loop osBefore osAfter s p) \<subseteq> set s \<union> set osAfter \<and> length (replaceAll_loop osBefore osAfter s p) \<le> length s"
  using assms
proof (induction osBefore osAfter s p rule: replaceAll_loop.induct)
  case (1 b a s p)
  show ?case
  proof (cases "b = [] \<or> str_find s b p = None")
    case True
    then show ?thesis by (subst (1 2) replaceAll_loop.simps) auto
  next
    case False
    then obtain i where i: "b \<noteq> []" "str_find s b p = Some i" by auto
    let ?s = "take i s @ a @ drop (i + length b) s"
    have "i + length b \<le> length s" using str_find_bounds [OF i(2)] by simp
    then have "length ?s \<le> length s" using "1.prems" by simp
    moreover have "set ?s \<subseteq> set s \<union> set a" by (auto dest: in_set_takeD in_set_dropD)
    moreover have "set (replaceAll_loop b a ?s (i + length a)) \<subseteq> set ?s \<union> set a"
      "length (replaceAll_loop b a ?s (i + length a)) \<le> length ?s"
      using "1.IH" [OF i] "1.prems" by auto
    ultimately show ?thesis using i by (subst (1 2) replaceAll_loop.simps) (simp, force)
  qed
qed

lemma NormalizePath_name: "name_ok s \<Longrightarrow> name_ok (NormalizePath s)"
proof -
  assume s: "name_ok s"
  let ?m = "map (\<lambda>c. if c = CHR 0x5c then CHR ''/'' else c) s"
  let ?r = "replaceAll ''//'' ''/'' ?m"
  have "set ?r \<subseteq> set ?m \<union> {CHR ''/''}" "length ?r \<le> length s"
    using replaceAll_loop_result [of "''/''" "''//''" ?m 0] by (simp_all add: replaceAll_def)
  moreover have "NUL \<notin> set ?m" using s by (auto simp: name_ok_def c_string_def)
  ultimately have "name_ok ?r" using s by (auto simp: name_ok_def c_string_def)
  then show ?thesis by (auto simp: NormalizePath_def Let_def name_ok_def c_string_def dest: in_set_butlastD)
qed

lemma CPLGetPath_name:
  assumes "sys_ok sys" "name_ok s"
  shows "\<exists>d. CPLGetPath (pathBuf sys) s = Some d \<and> name_ok d"
proof (cases "pathBuf sys")
  case None
  then show ?thesis by (simp add: CPLGetPath_def path_before_def Let_def CPLStaticBufferTooSmall_def name_ok_def c_string_def)
next
  case (Some b)
  then have b: "length b = CPL_PATH_BUF_SIZE" using assms(1) by (simp add: sys_ok_def)
  obtain d n where dn: "name_split s d n" using name_split_exists by blast
  have p: "CPLGetPath (pathBuf sys) s = Some (if CPL_PATH_BUF_SIZE \<le> length d then [] else if d = [] then [] else dir_of d)"
    using path_before_name [OF dn _ _ b, of "[]"] assms(2) Some by (simp add: CPLGetPath_def name_ok_def c_string_def)
  have "name_ok d" "name_ok []" using dn assms(2) by (auto simp: name_split_def name_ok_def c_string_def)
  then have "name_ok (dir_of d)" by (auto simp: dir_of_def name_ok_def c_string_def dest: in_set_butlastD)
  then show ?thesis using p \<open>name_ok []\<close> by auto
qed

subsection \<open>The invariant\<close>

lemma fs_ok_fields [simp]: "fs_ok (fs\<lparr>errno := e\<rparr>) = fs_ok fs"
  by (simp add: fs_ok_def)

lemma fs_ok_new: "fs_ok fs \<Longrightarrow> file_ok f \<Longrightarrow> make_file f fs = (fs1, i) \<Longrightarrow> fs_ok fs1"
  by (fastforce simp: fs_ok_def make_file_def nth_append)

lemma fs_ok_set_name:
  assumes "fs_ok fs" "i < length (heap fs)" "osFilename (heap fs ! i) = name"
  shows "fs_ok (set_name name i fs)"
proof -
  have s: "sorted_map (oFileList fs)" using assms(1) by (simp add: fs_ok_def)
  show ?thesis using assms by (auto simp: fs_ok_def set_name_def map_of_put [OF s] sorted_put [OF s])
qed

lemma fs_ok_make:
  "fs_ok fs \<Longrightarrow> file_ok f \<Longrightarrow> osFilename f = name \<Longrightarrow> make_file f fs = (fs1, i) \<Longrightarrow> fs_ok (set_name name i fs1)"
  by (rule fs_ok_set_name [OF fs_ok_new]) (auto simp: make_file_def)

lemma fs_ok_erase: "fs_ok fs \<Longrightarrow> fs_ok (fs\<lparr>oFileList := map_erase k (oFileList fs)\<rparr>)"
  by (auto simp: fs_ok_def map_of_erase sorted_erase)

lemma fs_ok_update:
  assumes "fs_ok fs" "file_ok f" "osFilename f = osFilename (heap fs ! i)"
  shows "fs_ok (fs\<lparr>heap := (heap fs)[i := f]\<rparr>)"
proof (cases "i < length (heap fs)")
  case True
  then have "\<forall>j. osFilename ((heap fs)[i := f] ! j) = osFilename (heap fs ! j)" using assms(3) by (simp add: nth_list_update)
  then show ?thesis using assms(1,2) by (auto simp: fs_ok_def dest: set_update_subset_insert [THEN subsetD])
next
  case False
  then show ?thesis using assms(1) by (simp add: not_less list_update_beyond)
qed

lemma Unlink_ok: "fs_ok fs \<Longrightarrow> fs_ok (fst (Unlink_unlocked n fs))"
  by (simp add: Unlink_unlocked_def Let_def fs_ok_erase split: option.split)

lemma Unlink_heap: "heap (fst (Unlink_unlocked n fs)) = heap fs"
  by (simp add: Unlink_unlocked_def Let_def split: option.split)

lemma new_file_ok [simp]: "file_ok (VSIMemFile env)" "file_ok ((VSIMemFile env)\<lparr>nMaxLength := l\<rparr>)"
  "file_ok (f\<lparr>bIsDirectory := d\<rparr>) = file_ok f" "file_ok (f\<lparr>nMaxLength := l\<rparr>) = file_ok f"
  by (auto simp: file_ok_def VSIMemFile_def content_def data_def)

lemma Mkdir_ok: "fs_ok fs \<Longrightarrow> fs_ok (fst (Mkdir env n fs))"
  by (auto simp: Mkdir_def Let_def split: prod.split intro!: fs_ok_make)

lemma Mkdir_heap: "length (heap fs) \<le> length (heap (fst (Mkdir env n fs)))"
  by (auto simp: Mkdir_def Let_def make_file_def set_name_def)

lemma Stat_state: "fst (Stat n fs) \<in> {fs, fs\<lparr>errno := ENOENT\<rparr>}"
  by (auto simp: Stat_def Let_def split: option.split)

lemma Stat_ok: "fs_ok fs \<Longrightarrow> fs_ok (fst (Stat n fs))" "heap (fst (Stat n fs)) = heap fs"
  using Stat_state [of n fs] by auto

text \<open>One round of Rename keeps the invariant whatever the names are, as long as it is defined.\<close>

lemma Rename_step_ok:
  assumes "fs_ok fs" "Rename_step old new k fs = Some (fs', it)"
  shows "fs_ok fs' \<and> length (heap fs') = length (heap fs)"
proof (cases "drop (length old) k = [] \<or> c_at (drop (length old) k) 0 = CHR ''/''")
  case True
  let ?full = "new @ drop (length old) k"
  let ?fs = "fst (Unlink_unlocked ?full fs)"
  obtain i where i: "map_of (oFileList ?fs) k = Some i"
    "fs' = ?fs\<lparr>oFileList := map_erase k (map_put ?full i (oFileList ?fs)), heap := (heap ?fs)[i := (heap ?fs ! i)\<lparr>osFilename := ?full\<rparr>]\<rparr>"
    using assms(2) True by (auto simp: Rename_step_def Let_def set_name_def split: Option.bind_splits)
  have ok: "fs_ok ?fs" by (rule Unlink_ok [OF assms(1)])
  then have s: "sorted_map (oFileList ?fs)" by (simp add: fs_ok_def)
  have il: "i < length (heap ?fs)" "file_ok (heap ?fs ! i)" "osFilename (heap ?fs ! i) = k"
    using fs_ok_heap [OF ok i(1)] by simp_all
  have "j < length (heap fs') \<and> osFilename (heap fs' ! j) = q" if "map_of (oFileList fs') q = Some j" for q j
  proof (cases "q = ?full")
    case True
    then show ?thesis using that i(2) il(1) by (auto simp: map_of_erase map_of_put [OF s] split: if_splits)
  next
    case False
    then have q: "map_of (oFileList ?fs) q = Some j" "q \<noteq> k"
      using that i(2) by (auto simp: map_of_erase map_of_put [OF s] split: if_splits)
    then have "j \<noteq> i" using fs_ok_heap [OF ok q(1)] il(3) by auto
    then show ?thesis using fs_ok_heap [OF ok q(1)] i(2) by simp
  qed
  moreover have "\<forall>f\<in>set (heap fs'). file_ok f"
    using ok il(2) i(2) by (auto simp: fs_ok_def dest: set_update_subset_insert [THEN subsetD])
  ultimately show ?thesis using s i(2) by (simp add: fs_ok_def sorted_erase sorted_put Unlink_heap)
next
  case False
  then show ?thesis using assms by (auto simp: Rename_step_def Let_def)
qed

lemma Rename_loop_ok:
  assumes "Rename_loop old new s = Some fs'" "fs_ok (fst s)"
  shows "fs_ok fs' \<and> length (heap fs') = length (heap (fst s))"
proof -
  have "fs_ok (fst s) \<longrightarrow> fs_ok fs' \<and> length (heap fs') = length (heap (fst s))"
  proof (rule Rename_loop.raw_induct [where P = "\<lambda>a b s r. fs_ok (fst s) \<longrightarrow> fs_ok r \<and> length (heap r) = length (heap (fst s))", OF _ assms(1)])
    fix loop a b s r
    assume ih: "\<And>a b s r. loop a b s = Some r \<Longrightarrow> fs_ok (fst s) \<longrightarrow> fs_ok r \<and> length (heap r) = length (heap (fst s))"
      and body: "(case snd s of None \<Rightarrow> Some (fst s)
        | Some k \<Rightarrow> if ifind k a 0 \<noteq> Some 0 then Some (fst s) else Rename_step a b k (fst s) \<bind> loop a b) = Some r"
    show "fs_ok (fst s) \<longrightarrow> fs_ok r \<and> length (heap r) = length (heap (fst s))"
    proof
      assume ok: "fs_ok (fst s)"
      show "fs_ok r \<and> length (heap r) = length (heap (fst s))"
      proof (cases "Some (fst s) = Some r")
        case False
        then obtain k t where "Rename_step a b k (fst s) = Some t" "loop a b t = Some r"
          using body by (cases "snd s") (auto split: if_splits Option.bind_splits)
        then show ?thesis using Rename_step_ok [OF ok, of a b k "fst t" "snd t"] ih [of a b t r] by simp
      qed (use ok in simp)
    qed
  qed
  then show ?thesis using assms(2) by blast
qed

lemma Rename_ok: "Rename old new fs = Some (fs', r) \<Longrightarrow> fs_ok fs \<Longrightarrow> fs_ok fs' \<and> length (heap fs') = length (heap fs)"
  using Rename_loop_ok by (fastforce simp: Rename_def Let_def split: if_splits)

text \<open>What an operation of the state keeps: the invariant, and the objects handles may point to.\<close>

definition keeps :: "mem_fs \<Rightarrow> mem_fs \<Rightarrow> bool" where
  "keeps fs fs' \<longleftrightarrow> (fs_ok fs \<longrightarrow> fs_ok fs') \<and> length (heap fs) \<le> length (heap fs')"

lemma keeps_trans: "keeps a b \<Longrightarrow> keeps b c \<Longrightarrow> keeps a c"
  by (auto simp: keeps_def)

lemma keeps_refl [simp]: "keeps fs fs" "keeps fs (fs\<lparr>errno := e\<rparr>)"
  by (simp_all add: keeps_def)

lemma keeps_basic: "keeps fs (fst (Stat n fs))" "keeps fs (fst (Unlink n fs))" "keeps fs (fst (Mkdir env n fs))"
  by (simp_all add: keeps_def Unlink_def Stat_ok Unlink_ok Unlink_heap Mkdir_ok Mkdir_heap)

text \<open>Creating also leaves the names as they are.\<close>

definition grows :: "mem_fs \<Rightarrow> mem_fs \<Rightarrow> bool" where
  "grows fs fs' \<longleftrightarrow> keeps fs fs' \<and> m_osPrefix fs' = m_osPrefix fs \<and>
     (fs_ok fs \<longrightarrow> map_of (oFileList fs) \<subseteq>\<^sub>m map_of (oFileList fs'))"

lemma grows_trans: "grows a b \<Longrightarrow> grows b c \<Longrightarrow> grows a c"
  unfolding grows_def using keeps_trans map_le_trans by (metis keeps_def)

lemma grows_refl [simp]: "grows fs fs" "grows fs (fs\<lparr>errno := e\<rparr>)"
  by (simp_all add: grows_def)

lemma grows_keeps: "grows fs fs' \<Longrightarrow> keeps fs fs'"
  by (simp add: grows_def)

lemma set_name_grows: "fs_ok fs \<Longrightarrow> map_of (oFileList fs) n = None \<Longrightarrow> map_of (oFileList fs) \<subseteq>\<^sub>m map_of (oFileList (set_name n i fs))"
  by (auto simp: set_name_def map_of_put fs_ok_def map_le_def)

lemma Mkdir_grows: "grows fs (fst (Mkdir env n fs))"
proof -
  have "map_of (oFileList fs) \<subseteq>\<^sub>m map_of (oFileList (fst (Mkdir env n fs)))" if "fs_ok fs"
    using that by (auto simp: Mkdir_def Let_def make_file_def set_name_def map_of_put fs_ok_def map_le_def)
  then show ?thesis using keeps_basic(3) by (simp add: grows_def Mkdir_def Let_def make_file_def set_name_def)
qed

lemma grows_stat: "grows (fst st) (fst (fst (VSIStatL sys n st)))"
proof -
  have "grows (fst st) (fst (Stat m (fst st)))" for m
    using Stat_state [of m "fst st"] grows_refl [of "fst st"] by auto
  then show ?thesis by (simp add: VSIStatL_def Let_def case_prod_beta split: handler.split)
qed

lemma grows_mkdir: "grows (fst st) (fst (fst (VSIMkdir sys n st)))"
  using Mkdir_grows by (simp add: VSIMkdir_def Let_def case_prod_beta split: handler.split)

lemma VSIMkdirRecursive_grows:
  "sys_ok sys \<Longrightarrow> name_ok n \<Longrightarrow> \<exists>st' r. VSIMkdirRecursive sys n st = Some (st', r) \<and> grows (fst st) (fst st')"
proof (induction sys n st rule: VSIMkdirRecursive.induct)
  case (1 sys n st)
  obtain st1 r1 where s1: "VSIStatL sys n st = (st1, r1)" by (cases "VSIStatL sys n st")
  have k1: "grows (fst st) (fst st1)" using grows_stat [of st sys n] s1 by simp
  obtain d where d: "CPLGetPath (pathBuf sys) n = Some d" "name_ok d" using CPLGetPath_name [OF "1.prems"] by blast
  obtain st2 r2 where s2: "VSIStatL sys d st1 = (st2, r2)" by (cases "VSIStatL sys d st1")
  have k2: "grows (fst st) (fst st2)" using grows_trans [OF k1] grows_stat [of st1 sys d] s2 by simp
  consider (root) "n = [] \<or> n = ''/''" | (there) "\<not> (n = [] \<or> n = ''/'')" "r1 \<noteq> None"
    | (same) "\<not> (n = [] \<or> n = ''/'')" "r1 = None" "d = n \<or> length n \<le> length d"
    | (parent) "\<not> (n = [] \<or> n = ''/'')" "r1 = None" "\<not> (d = n \<or> length n \<le> length d)" "r2 \<noteq> None"
    | (up) "\<not> (n = [] \<or> n = ''/'')" "r1 = None" "\<not> (d = n \<or> length n \<le> length d)" "r2 = None" by blast
  then show ?case
  proof cases
    case root
    then show ?thesis by (subst VSIMkdirRecursive.simps) simp
  next
    case there
    then obtain x where "r1 = Some x" by blast
    then show ?thesis using there k1 s1 by (subst VSIMkdirRecursive.simps) simp
  next
    case same
    then show ?thesis using k1 s1 d by (subst VSIMkdirRecursive.simps) simp
  next
    case parent
    then obtain x where "r2 = Some x" by blast
    then have "VSIMkdirRecursive sys n st = Some (VSIMkdir sys n st2)"
      using parent s1 s2 d by (subst VSIMkdirRecursive.simps) simp
    then show ?thesis using grows_trans [OF k2 grows_mkdir [of st2 sys n]] by (metis prod.collapse)
  next
    case up
    then obtain st3 r3 where rec: "VSIMkdirRecursive sys d st2 = Some (st3, r3)" "grows (fst st2) (fst st3)"
      using "1.IH" [OF up(1) s1 [symmetric] up(2) d(1) up(3) s2 [symmetric] up(4)] "1.prems" d by blast
    then have "VSIMkdirRecursive sys n st = (if r3 \<noteq> 0 then Some (st3, - 1) else Some (VSIMkdir sys n st3))"
      using up s1 s2 d by (subst VSIMkdirRecursive.simps) simp
    then show ?thesis
      using grows_trans [OF k2 rec(2)] grows_trans [OF grows_trans [OF k2 rec(2)] grows_mkdir [of st3 sys n]]
      by (cases "r3 = 0") (auto, metis prod.collapse)
  qed
qed


text \<open>Opening and exchanging buffers.\<close>

lemma SetLength_zero:
  assumes "file_ok f"
  shows "\<exists>g. SetLength env 0 f = Some (g, True) \<and> file_ok g \<and> same_file f g \<and> content g = [] \<and> nLength g = 0"
proof -
  have "length_ok f (unat 0)" by (simp add: length_ok_def)
  from SetLength_result [OF assms this, of env] show ?thesis by (auto simp: resize_def split: if_splits)
qed

lemma VSIMemHandle_null [simp]: "poFile VSIMemHandle = None" "m_nOffset VSIMemHandle = 0" "bUpdate VSIMemHandle = False"
  "bEOF VSIMemHandle = False" "bExtendFileAtNextWrite VSIMemHandle = False"
  by (simp_all add: VSIMemHandle_def)

lemma Open_handle_grows:
  assumes "Open_handle acc i st = (st', r)" "i < length (heap (fst st))"
  shows "grows (fst st) (fst st')" "\<And>h. r = Some h \<Longrightarrow> poFile h = Some i \<and> i < length (heap (fst st'))"
    "oFileList (fst st') = oFileList (fst st)"
  using assms by (auto simp: Open_handle_def Let_def split: if_splits)

lemma set_name_heap [simp]: "heap (set_name n i fs) = heap fs"
  by (simp add: set_name_def)

lemma Open_grows:
  assumes "sys_ok sys" "name_ok n" "fs_ok (fst st)"
  shows "\<exists>st' r. Open sys n acc st = Some (st', r) \<and> grows (fst st) (fst st') \<and>
    (\<forall>h. r = Some h \<longrightarrow> (\<exists>i. poFile h = Some i \<and> i < length (heap (fst st')) \<and> map_of (oFileList (fst st')) (NormalizePath n) = Some i)) \<and>
    (\<not> c_strstr acc ''w'' \<and> \<not> c_strstr acc ''a'' \<longrightarrow> oFileList (fst st') = oFileList (fst st))"
proof -
  let ?n = "NormalizePath n"
  consider (empty) "?n = []" | (found) i where "?n \<noteq> []" "map_of (oFileList (fst st)) ?n = Some i"
    | (missing) "?n \<noteq> []" "map_of (oFileList (fst st)) ?n = None" "\<not> c_strstr acc ''w''" "\<not> c_strstr acc ''a''"
    | (create) "?n \<noteq> []" "map_of (oFileList (fst st)) ?n = None" "c_strstr acc ''w'' \<or> c_strstr acc ''a''" by fastforce
  then show ?thesis
  proof cases
    case found
    note i = fs_ok_heap [OF assms(3) found(2)]
    show ?thesis
    proof (cases "c_strstr acc ''w''")
      case True
      obtain g where g: "SetLength (vsiEnv sys) 0 (heap (fst st) ! i) = Some (g, True)" "file_ok g" "same_file (heap (fst st) ! i) g"
        using SetLength_zero i by blast
      let ?g = "g\<lparr>nMaxLength := get_maxlength ?n\<rparr>"
      let ?st = "((fst st)\<lparr>heap := (heap (fst st))[i := ?g]\<rparr>, snd st)"
      have "fs_ok (fst ?st)" using fs_ok_update [OF assms(3), of ?g i] g by (simp add: same_file_def)
      then have k: "grows (fst st) (fst ?st)" by (simp add: grows_def keeps_def)
      have eq: "Open sys n acc st = Some (Open_handle acc i ?st)" using found True g(1) by (simp add: Open_def Let_def)
      obtain st' r where o: "Open_handle acc i ?st = (st', r)" by (cases "Open_handle acc i ?st")
      show ?thesis using eq o Open_handle_grows [OF o] i grows_trans [OF k, of "fst st'"] found(2) True by auto
    next
      case False
      then have eq: "Open sys n acc st = Some (Open_handle acc i st)" using found by (simp add: Open_def Let_def)
      obtain st' r where o: "Open_handle acc i st = (st', r)" by (cases "Open_handle acc i st")
      show ?thesis using eq o Open_handle_grows [OF o] i found(2) by auto
    qed
  next
    case create
    have nn: "name_ok ?n" by (rule NormalizePath_name [OF assms(2)])
    obtain d where d: "CPLGetPath (pathBuf sys) ?n = Some d" "name_ok d" using CPLGetPath_name [OF assms(1) nn] by blast
    obtain st1 r1 where s1: "VSIMkdirRecursive sys d st = Some (st1, r1)" "grows (fst st) (fst st1)"
      using VSIMkdirRecursive_grows [OF assms(1) d(2)] by blast
    show ?thesis
    proof (cases "r1 = - 1")
      case True
      then show ?thesis using create d s1 grows_trans [OF s1(2) grows_refl(2)] by (auto simp: Open_def Let_def)
    next
      case False
      let ?f = "(VSIMemFile (vsiEnv sys))\<lparr>osFilename := ?n, nMaxLength := get_maxlength ?n\<rparr>"
      obtain fs2 i where m: "make_file ?f (fst st1) = (fs2, i)" by (cases "make_file ?f (fst st1)")
      let ?st = "(set_name ?n i fs2, snd st1)"
      have "fs_ok (fst st1) \<Longrightarrow> fs_ok (fst ?st)" using fs_ok_make [OF _ _ _ m] by simp
      moreover have "m_osPrefix (fst ?st) = m_osPrefix (fst st1)" "length (heap (fst st1)) \<le> length (heap (fst ?st))"
        using m by (auto simp: make_file_def set_name_def)
      moreover have "map_of (oFileList (fst st)) \<subseteq>\<^sub>m map_of (oFileList (fst ?st))" "map_of (oFileList (fst ?st)) ?n = Some i"
      proof -
        have "fs_ok (fst st1)" "map_of (oFileList (fst st)) \<subseteq>\<^sub>m map_of (oFileList (fst st1))"
          using s1(2) assms(3) by (simp_all add: grows_def keeps_def)
        then have "map_of (oFileList (fst ?st)) = (map_of (oFileList (fst st1)))(?n \<mapsto> i)"
          using m by (auto simp: make_file_def set_name_def map_of_put fs_ok_def)
        then show "map_of (oFileList (fst st)) \<subseteq>\<^sub>m map_of (oFileList (fst ?st))" "map_of (oFileList (fst ?st)) ?n = Some i"
          using create(2) \<open>map_of (oFileList (fst st)) \<subseteq>\<^sub>m map_of (oFileList (fst st1))\<close> by (auto simp: map_le_def)
      qed
      ultimately have k: "grows (fst st) (fst ?st)" "map_of (oFileList (fst ?st)) ?n = Some i"
        using s1(2) by (auto simp: grows_def keeps_def)
      have i: "i < length (heap (fst ?st))" using m by (auto simp: make_file_def)
      have "Open sys n acc st = Some (Open_handle acc i ?st)" using create d(1) s1(1) False m by (auto simp: Open_def Let_def)
      moreover obtain st' r where o: "Open_handle acc i ?st = (st', r)" by (cases "Open_handle acc i ?st")
      ultimately show ?thesis using Open_handle_grows [OF o i] grows_trans [OF k(1), of "fst st'"] k(2) create(3) by auto
    qed
  qed (auto simp: Open_def Let_def)
qed

lemma buffer_ok:
  "length (case p of None \<Rightarrow> [] | Some m \<Rightarrow> m) = unat n \<Longrightarrow>
   file_ok ((VSIMemFile env)\<lparr>osFilename := name, bOwnData := own, pabyData := p, nLength := n, nAllocLength := n\<rparr>)"
  by (simp add: file_ok_def content_def data_def)

lemma FromMemBuffer_keeps:
  assumes "sys_ok sys" "\<forall>m. n = Some m \<longrightarrow> name_ok m" "length (case p of None \<Rightarrow> [] | Some m \<Rightarrow> m) = unat len"
    "fs_ok (fst st)"
  shows "\<exists>st' r. VSIFileFromMemBuffer sys n p len own st = Some (st', r) \<and> keeps (fst st) (fst st') \<and>
    (\<forall>h. r = Some h \<longrightarrow> (\<exists>i. poFile h = Some i \<and> i < length (heap (fst st')) \<and> length (heap (fst st)) \<le> i \<and>
      (\<forall>m. n = Some m \<and> NormalizePath m \<noteq> [] \<longrightarrow> map_of (oFileList (fst st')) (NormalizePath m) = Some i))) \<and>
    (\<forall>k i. map_of (oFileList (fst st)) k = Some i \<and> map_of (oFileList (fst st')) k \<noteq> Some i \<longrightarrow>
      (\<exists>m. n = Some m \<and> (k = NormalizePath m \<or> k = NormalizePath (NormalizePath m))))"
proof -
  define name where "name = (case n of None \<Rightarrow> [] | Some m \<Rightarrow> NormalizePath m)"
  have nn: "name_ok name" using assms(2) NormalizePath_name by (auto simp: name_def name_ok_def c_string_def split: option.split)
  obtain d where d: "CPLGetPath (pathBuf sys) name = Some d" "name_ok d" using CPLGetPath_name [OF assms(1) nn] by blast
  obtain st1 r1 where s1: "(if name \<noteq> [] then VSIMkdirRecursive sys d st else Some (st, 0)) = Some (st1, r1)" "grows (fst st) (fst st1)"
    using VSIMkdirRecursive_grows [OF assms(1) d(2), of st] grows_refl(1) by (cases "name = []") auto
  consider (bad) "name = ''/vsimem/''" | (dir) "name \<noteq> ''/vsimem/''" "name \<noteq> [] \<and> r1 = - 1"
    | (go) "name \<noteq> ''/vsimem/''" "\<not> (name \<noteq> [] \<and> r1 = - 1)" by blast
  then show ?thesis
  proof cases
    case bad
    then show ?thesis by (auto simp add: VSIFileFromMemBuffer_def name_def [symmetric])
  next
    case dir
    then have "VSIFileFromMemBuffer sys n p len own st = Some (((fst st1)\<lparr>errno := ENOENT\<rparr>, snd st1), None)"
      using d(1) s1(1) by (simp add: VSIFileFromMemBuffer_def name_def [symmetric])
    then show ?thesis using grows_trans [OF s1(2) grows_refl(2)] assms(4) by (auto simp: grows_def map_le_def dom_def)
  next
    case go
    let ?f = "(VSIMemFile (vsiEnv sys))\<lparr>osFilename := name, bOwnData := own, pabyData := p, nLength := len, nAllocLength := len\<rparr>"
    have f: "file_ok ?f" by (rule buffer_ok [OF assms(3)])
    obtain fs2 i where m: "make_file ?f (fst st1) = (fs2, i)" by (cases "make_file ?f (fst st1)")
    have i: "i < length (heap fs2)" "heap fs2 ! i = ?f" "heap fs2 = heap (fst st1) @ [?f]" using m by (auto simp: make_file_def)
    let ?fs = "if name \<noteq> [] then set_name name i (fst (Unlink_unlocked name fs2)) else fs2"
    have st1: "fs_ok (fst st1)" "map_of (oFileList (fst st)) \<subseteq>\<^sub>m map_of (oFileList (fst st1))" "length (heap (fst st)) \<le> length (heap (fst st1))"
      using s1(2) assms(4) by (simp_all add: grows_def keeps_def)
    have ok2: "fs_ok fs2" by (rule fs_ok_new [OF st1(1) f m])
    then have ok: "fs_ok ?fs" using fs_ok_set_name [OF Unlink_ok, of fs2 i name name] i by (simp add: Unlink_heap)
    then have k: "keeps (fst st) ?fs" using st1(3) i(3) by (auto simp: keeps_def Unlink_heap)
    have l2: "oFileList fs2 = oFileList (fst st1)" "i = length (heap (fst st1))" using m by (auto simp: make_file_def)
    have new: "map_of (oFileList ?fs) = (if name \<noteq> [] then (map_of (oFileList (fst (Unlink_unlocked name fs2))))(name \<mapsto> i) else map_of (oFileList fs2))"
      using Unlink_ok [OF ok2] by (simp add: set_name_def map_of_put fs_ok_def)
    have un: "map_of (oFileList (fst (Unlink_unlocked name fs2))) k = map_of (oFileList (fst st1)) k" if "k \<noteq> NormalizePath name" for k
      using that l2(1) by (auto simp: Unlink_unlocked_def Let_def map_of_erase split: option.split)
    have old: "map_of (oFileList ?fs) k = Some j \<or> (\<exists>m. n = Some m \<and> (k = NormalizePath m \<or> k = NormalizePath (NormalizePath m)))"
      if "map_of (oFileList (fst st)) k = Some j" for k j
    proof (cases "name \<noteq> [] \<and> (k = name \<or> k = NormalizePath name)")
      case True
      then show ?thesis by (auto simp: name_def split: option.splits)
    next
      case False
      have "map_of (oFileList (fst st1)) k = Some j" using st1(2) that by (metis domI map_le_def)
      then show ?thesis using False new un l2(1) by auto
    qed
    have "VSIFileFromMemBuffer sys n p len own st = Some ((?fs, snd st1), Some (VSIMemHandle\<lparr>poFile := Some i, bUpdate := True\<rparr>))"
      using go d(1) s1(1) m by (auto simp: VSIFileFromMemBuffer_def name_def [symmetric] Let_def split: if_splits)
    moreover have "map_of (oFileList ?fs) (NormalizePath m) = Some i" if "n = Some m" "NormalizePath m \<noteq> []" for m
    proof -
      have "name = NormalizePath m" using that(1) by (simp add: name_def)
      then show ?thesis using new that(2) by simp
    qed
    ultimately show ?thesis using k i(1) st1(3) l2(2) old by (fastforce simp: Unlink_heap)
  qed
qed

lemma GetMemFileBuffer_keeps: "VSIGetMemFileBuffer n seize fs = (fs', r) \<Longrightarrow> keeps fs fs'"
proof -
  assume eq: "VSIGetMemFileBuffer n seize fs = (fs', r)"
  show ?thesis
  proof (cases "\<exists>m i. n = Some m \<and> map_of (oFileList fs) (NormalizePath m) = Some i \<and> seize")
    case True
    then obtain m i where m: "n = Some m" "map_of (oFileList fs) (NormalizePath m) = Some i" seize by blast
    let ?f = "(heap fs ! i)\<lparr>bOwnData := False, pabyData := None, nLength := 0, nAllocLength := 0\<rparr>"
    have fs': "fs' = (fs\<lparr>oFileList := map_erase (NormalizePath m) (oFileList fs)\<rparr>)\<lparr>heap := (heap fs)[i := ?f]\<rparr>"
      using eq m by (simp add: VSIGetMemFileBuffer_def Let_def)
    have "file_ok ?f" by (simp add: file_ok_def content_def data_def)
    then have "fs_ok fs'" if "fs_ok fs"
      using fs_ok_update [OF fs_ok_erase [OF that], where f = ?f and i = i] unfolding fs' by simp
    then show ?thesis unfolding keeps_def by (simp add: fs')
  next
    case False
    then show ?thesis using eq by (auto simp: VSIGetMemFileBuffer_def Let_def split: option.splits if_splits)
  qed
qed

lemma handle_step_keeps:
  assumes "fs_ok fs" "poFile h = Some i" "i < length (heap fs)" "op_ok eo (heap fs ! i, h)"
  shows "\<exists>fs' h' out. handle_step eo (fs, h) = Some ((fs', h'), out) \<and> keeps fs fs' \<and> poFile h' = Some i"
proof -
  have "file_ok (heap fs ! i)" using assms(1,3) by (simp add: fs_ok_def)
  from file_step_safe [OF this assms(4)] obtain g h' out where g: "file_step eo (heap fs ! i, h) = Some ((g, h'), out)"
    "file_ok g" "same_file (heap fs ! i) g" "poFile h' = poFile h" by blast
  have "fs_ok (fs\<lparr>heap := (heap fs)[i := g]\<rparr>)" by (rule fs_ok_update [OF assms(1) g(2)]) (use g(3) in \<open>simp add: same_file_def\<close>)
  then show ?thesis using g assms(2) by (simp add: handle_step_def keeps_def)
qed


subsection \<open>Listing a directory\<close>

definition is_child :: "string \<Rightarrow> string \<Rightarrow> bool" where
  "is_child d k \<longleftrightarrow> EQUALN d k (length d) \<and> c_at k (length d) = CHR ''/'' \<and> CHR ''/'' \<notin> set (drop (length d + 1) k)"

definition dir_name :: "string \<Rightarrow> string" where
  "dir_name n = (let p = NormalizePath n in if p \<noteq> [] \<and> last p = CHR ''/'' then butlast p else p)"

definition limited :: "int \<Rightarrow> 'a list \<Rightarrow> 'a list" where
  "limited nMaxFiles xs = (if nMaxFiles > 0 then take (nat nMaxFiles + 1) xs else xs)"

lemma ReadDir_loop_lists:
  assumes "items = [] \<or> length items \<le> nAlloc \<and> nAlloc < cells \<and> nAlloc \<le> 2 * length items"
    "length items + length es \<le> 2 ^ 29" "nMax > 0 \<longrightarrow> int (length items) \<le> nMax"
    "\<forall>(k, i)\<in>set es. osFilename (hp ! i) = k"
  shows "ReadDir_loop hp osPath n nMax es (items, nAlloc, cells) =
    Some (limited nMax (items @ [drop (n + 1) k. (k, i) \<leftarrow> es,
      EQUALN osPath k n \<and> c_at k n = CHR ''/'' \<and> CHR ''/'' \<notin> set (drop (n + 1) k)]))"
  using assms
proof (induction es arbitrary: items nAlloc cells)
  case Nil
  then show ?case by (auto simp: limited_def)
next
  case (Cons e es)
  obtain k i where e: "e = (k, i)" "osFilename (hp ! i) = k" using Cons.prems(4) by (cases e) auto
  let ?P = "EQUALN osPath k n \<and> c_at k n = CHR ''/'' \<and> CHR ''/'' \<notin> set (drop (n + 1) k)"
  show ?case
  proof (cases ?P)
    case False
    then show ?thesis using Cons e by auto
  next
    case True
    let ?grow = "if items = [] then Some (1, 2)
      else if length items \<ge> nAlloc then do {
        n \<leftarrow> c_int (int nAlloc * 2);
        c \<leftarrow> c_int (n + 2);
        Some (nat n, nat c)
      } else Some (nAlloc, cells)"
    have ints: "c_int (int nAlloc * 2) = Some (int nAlloc * 2)" "c_int (int nAlloc * 2 + 2) = Some (int nAlloc * 2 + 2)"
      if "items \<noteq> []" "length items \<ge> nAlloc" using that Cons.prems(2) by (auto simp: c_int_def)
    obtain a c where ac: "?grow = Some (a, c)" "length items + 1 < c" "length (items @ [drop (n + 1) k]) \<le> a" "a < c"
      "a \<le> 2 * length (items @ [drop (n + 1) k])"
    proof (cases "items \<noteq> [] \<and> length items \<ge> nAlloc")
      case True
      then show thesis using that [of "nAlloc * 2" "nAlloc * 2 + 2"] ints Cons.prems(1)
        by (auto simp: nat_mult_distrib nat_add_distrib Suc_le_eq)
    next
      case False
      then show thesis using that [of 1 2] that [of nAlloc cells] Cons.prems(1) by (cases "items = []") auto
    qed
    have ni: "c_int (1 + int (length items)) = Some (1 + int (length items))"
      using Cons.prems(2) by (simp add: c_int_def)
    let ?items = "items @ [drop (n + 1) k]"
    have step: "ReadDir_loop hp osPath n nMax (e # es) (items, nAlloc, cells) =
        (if nMax > 0 \<and> int (length ?items) > nMax then Some ?items else ReadDir_loop hp osPath n nMax es (?items, a, c))"
      using True e ac(1,2) ni by (simp add: Let_def)
    show ?thesis
    proof (cases "nMax > 0 \<and> int (length ?items) > nMax")
      case stop: True
      then have "int (length items) = nMax" using Cons.prems(3) by simp
      then have "length items = nat nMax" by linarith
      then show ?thesis using step stop True e by (simp add: limited_def)
    next
      case False
      then have "ReadDir_loop hp osPath n nMax (e # es) (items, nAlloc, cells) = ReadDir_loop hp osPath n nMax es (?items, a, c)"
        by (simp only: step False if_False)
      also have "\<dots> = Some (limited nMax (?items @ [drop (n + 1) k. (k, i) \<leftarrow> es,
          EQUALN osPath k n \<and> c_at k n = CHR ''/'' \<and> CHR ''/'' \<notin> set (drop (n + 1) k)]))"
        by (rule Cons.IH) (use ac(2-) False Cons.prems in auto)
      finally show ?thesis using True e by simp
    qed
  qed
qed

lemma map_keys:
  assumes "sorted_map m"
  shows "map fst m = sorted_list_of_set (dom (map_of m))"
proof -
  have "sorted (map fst m)" "distinct (map fst m)" using assms by (simp_all add: sorted_map_def strict_sorted_iff)
  then have "sorted_list_of_set (set (map fst m)) = map fst m" by (rule sorted_list_of_set.idem_if_sorted_distinct)
  then show ?thesis by (simp add: dom_map_of_conv_image_fst)
qed


lemma ReadDirEx_lists:
  assumes "fs_ok fs" "length (oFileList fs) \<le> 2 ^ 29"
  shows "ReadDirEx n nMax fs = Some (limited nMax
    (map (drop (length (dir_name n) + 1)) (sorted_list_of_set {k \<in> dom (map_of (oFileList fs)). is_child (dir_name n) k})))"
proof -
  let ?p = "NormalizePath n" and ?m = "oFileList fs" and ?d = "dir_name n"
  define len where "len = (if ?p \<noteq> [] \<and> last ?p = CHR ''/'' then length ?p - 1 else length ?p)"
  have len: "len = length ?d" by (auto simp: len_def dir_name_def Let_def)
  have d: "EQUALN ?p k len = EQUALN ?d k (length ?d)" for k
    by (auto simp: len_def dir_name_def Let_def EQUALN_def butlast_conv_take)
  have s: "sorted_map ?m" using assms(1) by (simp add: fs_ok_def)
  have dist: "distinct (map fst ?m)" using s by (simp add: sorted_map_def strict_sorted_iff)
  have names: "\<forall>(k, i)\<in>set ?m. osFilename (heap fs ! i) = k"
    using fs_ok_heap [OF assms(1)] map_of_is_SomeI [OF dist] by auto
  have "ReadDirEx n nMax fs = ReadDir_loop (heap fs) ?p len nMax ?m ([], 0, 0)"
    by (simp add: ReadDirEx_def Let_def len_def)
  also have "\<dots> = Some (limited nMax [drop (len + 1) k. (k, i) \<leftarrow> ?m,
      EQUALN ?p k len \<and> c_at k len = CHR ''/'' \<and> CHR ''/'' \<notin> set (drop (len + 1) k)])"
    using ReadDir_loop_lists [OF _ _ _ names, of "[]" 0 0 nMax] assms(2) by simp
  also have "[drop (len + 1) k. (k, i) \<leftarrow> m,
      EQUALN ?p k len \<and> c_at k len = CHR ''/'' \<and> CHR ''/'' \<notin> set (drop (len + 1) k)] =
      map (drop (length ?d + 1)) (filter (is_child ?d) (map fst m))" for m :: "(string \<times> nat) list"
    by (induction m) (auto simp: is_child_def d simp flip: len)
  also have "filter (is_child ?d) (map fst ?m) = sorted_list_of_set {k \<in> dom (map_of ?m). is_child ?d k}"
  proof -
    have "sorted (filter (is_child ?d) (map fst ?m))" "distinct (filter (is_child ?d) (map fst ?m))"
      using s by (simp_all add: sorted_map_def strict_sorted_iff sorted_wrt_filter)
    moreover have "set (filter (is_child ?d) (map fst ?m)) = {k \<in> dom (map_of ?m). is_child ?d k}"
      by (auto simp: dom_map_of_conv_image_fst)
    ultimately show ?thesis by (metis sorted_list_of_set.idem_if_sorted_distinct)
  qed
  finally show ?thesis .
qed

subsection \<open>The system as a machine\<close>

datatype fs_op = Fs_Open string string | Fs_Stat string | Fs_Unlink string | Fs_Rmdir string | Fs_Mkdir string
  | Fs_Rename string string | Fs_ReadDir string int | Fs_FromBuffer "string option" "byte list option" u64 bool
  | Fs_GetBuffer "string option" bool | Fs_File nat "vsi_env \<times> file_op" | Fs_Close nat

datatype fs_out = Out_handle "nat option" | Out_stat "stat_buf option" | Out_status int | Out_names "string list"
  | Out_buffer "byte list option" "u64 option" | Out_file file_out

type_synonym 'd machine = "'d vsi_state \<times> mem_handle list"

definition new_handle :: "mem_handle list \<Rightarrow> 'd vsi_state \<times> mem_handle option \<Rightarrow> 'd machine \<times> fs_out" where
  "new_handle hs r =
     (case snd r of None \<Rightarrow> ((fst r, hs), Out_handle None) | Some h \<Rightarrow> ((fst r, hs @ [h]), Out_handle (Some (length hs))))"

definition on_fs :: "(mem_fs \<Rightarrow> mem_fs \<times> 'r) \<Rightarrow> ('r \<Rightarrow> fs_out) \<Rightarrow> 'd machine \<Rightarrow> 'd machine \<times> fs_out" where
  "on_fs f out s = (let (fs, r) = f (fst (fst s)) in (((fs, snd (fst s)), snd s), out r))"

fun fs_step :: "'d vsi_system \<Rightarrow> fs_op \<Rightarrow> 'd machine \<Rightarrow> ('d machine \<times> fs_out) option" where
  "fs_step sys (Fs_Open n acc) s = map_option (new_handle (snd s)) (Open sys n acc (fst s))"
| "fs_step sys (Fs_Stat n) s = Some (on_fs (Stat n) Out_stat s)"
| "fs_step sys (Fs_Unlink n) s = Some (on_fs (Unlink n) Out_status s)"
| "fs_step sys (Fs_Rmdir n) s = Some (on_fs (Rmdir n) Out_status s)"
| "fs_step sys (Fs_Mkdir n) s = Some (on_fs (Mkdir (vsiEnv sys) n) Out_status s)"
| "fs_step sys (Fs_Rename a b) s = map_option (\<lambda>r. on_fs (\<lambda>_. r) Out_status s) (Rename a b (fst (fst s)))"
| "fs_step sys (Fs_ReadDir n nMax) s = map_option (\<lambda>xs. (s, Out_names xs)) (ReadDirEx n nMax (fst (fst s)))"
| "fs_step sys (Fs_FromBuffer n p len own) s =
     map_option (new_handle (snd s)) (VSIFileFromMemBuffer sys n p len own (fst s))"
| "fs_step sys (Fs_GetBuffer n seize) s = Some (on_fs (VSIGetMemFileBuffer n seize) (\<lambda>(p, len). Out_buffer p len) s)"
| "fs_step sys (Fs_File j eo) s =
     (if j < length (snd s)
      then map_option (\<lambda>((fs, h), out). (((fs, snd (fst s)), (snd s)[j := h]), Out_file out)) (handle_step eo (fst (fst s), snd s ! j))
      else None)"
| "fs_step sys (Fs_Close j) s =
     (if j < length (snd s) then Some ((fst s, (snd s)[j := Close (snd s ! j)]), Out_status 0) else None)"

text \<open>What the callers must respect: names are C strings of a length that fits \<open>int\<close>, handles are open, buffers
  have their length, and a renaming fulfils the condition of \<open>Rename_moves\<close> or finds nothing to do.\<close>

fun fs_allowed :: "fs_op \<Rightarrow> 'd machine \<Rightarrow> bool" where
  "fs_allowed (Fs_Open n acc) s = name_ok n"
| "fs_allowed (Fs_Rename a b) s \<longleftrightarrow>
     \<not> STARTS_WITH b (m_osPrefix (fst (fst s))) \<or> NormalizePath a = NormalizePath b \<or>
     NormalizePath a \<notin> dom (map_of (oFileList (fst (fst s)))) \<or> can_move (NormalizePath a) (NormalizePath b) (fst (fst s))"
| "fs_allowed (Fs_ReadDir n nMax) s \<longleftrightarrow> length (oFileList (fst (fst s))) \<le> 2 ^ 29"
| "fs_allowed (Fs_FromBuffer n p len own) s \<longleftrightarrow>
     (\<forall>m. n = Some m \<longrightarrow> name_ok m) \<and> length (case p of None \<Rightarrow> [] | Some m \<Rightarrow> m) = unat len"
| "fs_allowed (Fs_File j eo) s \<longleftrightarrow>
     j < length (snd s) \<and> (\<exists>i. poFile (snd s ! j) = Some i \<and> op_ok eo (heap (fst (fst s)) ! i, snd s ! j))"
| "fs_allowed (Fs_Close j) s \<longleftrightarrow> j < length (snd s)"
| "fs_allowed _ s = True"

definition machine_ok :: "'d machine \<Rightarrow> bool" where
  "machine_ok s \<longleftrightarrow> fs_ok (fst (fst s)) \<and> (\<forall>h\<in>set (snd s). \<forall>i. poFile h = Some i \<longrightarrow> i < length (heap (fst (fst s))))"

text \<open>The specification sees the map from names to objects only.\<close>

definition names :: "'d machine \<Rightarrow> string \<rightharpoonup> nat" where
  "names s = map_of (oFileList (fst (fst s)))"

fun names_spec :: "fs_op \<Rightarrow> (string \<rightharpoonup> nat) \<Rightarrow> (string \<rightharpoonup> nat) \<Rightarrow> fs_out \<Rightarrow> bool" where
  "names_spec (Fs_Open n acc) F G out \<longleftrightarrow>
     F \<subseteq>\<^sub>m G \<and> (\<exists>j. out = Out_handle j \<and> (j \<noteq> None \<longrightarrow> NormalizePath n \<in> dom G)) \<and>
     (\<not> c_strstr acc ''w'' \<and> \<not> c_strstr acc ''a'' \<longrightarrow> G = F)"
| "names_spec (Fs_Stat n) F G out \<longleftrightarrow> G = F \<and> (\<exists>r. out = Out_stat r \<and> (NormalizePath n \<in> dom F \<longrightarrow> r \<noteq> None))"
| "names_spec (Fs_Unlink n) F G out \<longleftrightarrow>
     G = F(NormalizePath n := None) \<and> out = Out_status (if NormalizePath n \<in> dom F then 0 else - 1)"
| "names_spec (Fs_Rmdir n) F G out \<longleftrightarrow>
     G = F(NormalizePath n := None) \<and> out = Out_status (if NormalizePath n \<in> dom F then 0 else - 1)"
| "names_spec (Fs_Mkdir n) F G out \<longleftrightarrow>
     (if NormalizePath n \<in> dom F then G = F \<and> out = Out_status (- 1)
      else (\<exists>i. i \<notin> ran F \<and> G = F(NormalizePath n \<mapsto> i)) \<and> out = Out_status 0)"
| "names_spec (Fs_Rename a b) F G out \<longleftrightarrow>
     NormalizePath a \<in> dom F \<and> G = moved (NormalizePath a) (NormalizePath b) F None \<and> out = Out_status 0 \<or>
     G = F \<and> (out = Out_status (- 1) \<or> NormalizePath a = NormalizePath b \<and> out = Out_status 0)"
| "names_spec (Fs_ReadDir n nMax) F G out \<longleftrightarrow>
     G = F \<and> out = Out_names (limited nMax (map (drop (length (dir_name n) + 1)) (sorted_list_of_set {k \<in> dom F. is_child (dir_name n) k})))"
| "names_spec (Fs_FromBuffer n p len own) F G out \<longleftrightarrow>
     (\<exists>j. out = Out_handle j \<and> (\<forall>m. n = Some m \<and> j \<noteq> None \<and> NormalizePath m \<noteq> [] \<longrightarrow> (\<exists>i. G (NormalizePath m) = Some i \<and> i \<notin> ran F))) \<and>
     (\<forall>k i. F k = Some i \<and> G k \<noteq> Some i \<longrightarrow> (\<exists>m. n = Some m \<and> (k = NormalizePath m \<or> k = NormalizePath (NormalizePath m))))"
| "names_spec (Fs_GetBuffer n seize) F G out \<longleftrightarrow>
     (\<exists>p len. out = Out_buffer p len \<and> G = (case n of None \<Rightarrow> F | Some m \<Rightarrow> if seize then F(NormalizePath m := None) else F))"
| "names_spec (Fs_File j eo) F G out \<longleftrightarrow> G = F"
| "names_spec (Fs_Close j) F G out \<longleftrightarrow> G = F \<and> out = Out_status 0"


subsection \<open>Every operation keeps the invariant and does to the names what it should\<close>

lemma machine_ok_keeps:
  assumes "machine_ok ((fs, d), hs)" "keeps fs fs'" "\<forall>h\<in>set hs'. h \<in> set hs \<or> (\<forall>i. poFile h = Some i \<longrightarrow> i < length (heap fs'))"
  shows "machine_ok ((fs', d'), hs')"
  using assms unfolding machine_ok_def keeps_def by (auto dest: order.strict_trans2)

lemma on_fs_ok: "machine_ok s \<Longrightarrow> keeps (fst (fst s)) (fst (f (fst (fst s)))) \<Longrightarrow> machine_ok (fst (on_fs f out s))"
  unfolding on_fs_def case_prod_beta Let_def fst_conv by (rule machine_ok_keeps [of "fst (fst s)" "snd (fst s)" "snd s"]) simp_all

lemma names_on_fs: "names (fst (on_fs f out s)) = map_of (oFileList (fst (f (fst (fst s)))))" "snd (on_fs f out s) = out (snd (f (fst (fst s))))"
  by (simp_all add: on_fs_def names_def case_prod_beta)

lemma new_handle_ok:
  assumes "machine_ok (st, hs)" "keeps (fst st) (fst st')" "\<forall>h. r = Some h \<longrightarrow> (\<exists>i. poFile h = Some i \<and> i < length (heap (fst st')))"
  shows "machine_ok (fst (new_handle hs (st', r)))" "names (fst (new_handle hs (st', r))) = map_of (oFileList (fst st'))"
    "\<exists>j. snd (new_handle hs (st', r)) = Out_handle j \<and> (j \<noteq> None \<longleftrightarrow> r \<noteq> None)"
  using assms machine_ok_keeps [of "fst st" "snd st" hs "fst st'" _ "snd st'"]
  by (auto simp: new_handle_def names_def split: option.split)

lemma Unlink_names:
  "map_of (oFileList (fst (Unlink n fs))) = (map_of (oFileList fs))(NormalizePath n := None)"
  "snd (Unlink n fs) = (if NormalizePath n \<in> dom (map_of (oFileList fs)) then 0 else - 1)"
  by (auto simp: Unlink_def Unlink_unlocked_def Let_def map_of_erase fun_eq_iff split: option.split)

lemma Rmdir_Unlink: "Rmdir n = Unlink n"
  by (rule ext) (simp add: Rmdir_def)

lemma Mkdir_names:
  assumes "fs_ok fs"
  shows "if NormalizePath n \<in> dom (map_of (oFileList fs))
    then map_of (oFileList (fst (Mkdir env n fs))) = map_of (oFileList fs) \<and> snd (Mkdir env n fs) = - 1
    else (\<exists>i. i \<notin> ran (map_of (oFileList fs)) \<and> map_of (oFileList (fst (Mkdir env n fs))) = (map_of (oFileList fs))(NormalizePath n \<mapsto> i)) \<and>
      snd (Mkdir env n fs) = 0"
proof -
  have "length (heap fs) \<notin> ran (map_of (oFileList fs))" using fs_ok_heap [OF assms] by (fastforce simp: ran_def)
  then show ?thesis
    using assms by (auto simp: Mkdir_def Let_def make_file_def set_name_def map_of_put fs_ok_def intro!: exI [of _ "length (heap fs)"])
qed

lemma Rename_refines:
  assumes "machine_ok s" "fs_allowed (Fs_Rename a b) s"
  shows "\<exists>t out. fs_step sys (Fs_Rename a b) s = Some (t, out) \<and> machine_ok t \<and> names_spec (Fs_Rename a b) (names s) (names t) out"
proof -
  let ?fs = "fst (fst s)"
  have ok: "fs_ok ?fs" using assms(1) by (simp add: machine_ok_def)
  consider (prefix) "\<not> STARTS_WITH b (m_osPrefix ?fs)" | (same) "STARTS_WITH b (m_osPrefix ?fs)" "NormalizePath a = NormalizePath b"
    | (missing) "STARTS_WITH b (m_osPrefix ?fs)" "NormalizePath a \<noteq> NormalizePath b" "map_of (oFileList ?fs) (NormalizePath a) = None"
    | (move) "STARTS_WITH b (m_osPrefix ?fs)" "NormalizePath a \<in> dom (map_of (oFileList ?fs))" "can_move (NormalizePath a) (NormalizePath b) ?fs"
    using assms(2) by auto
  then obtain fs' r where r: "Rename a b ?fs = Some (fs', r)" "names_spec (Fs_Rename a b) (names s) (map_of (oFileList fs')) (Out_status r)"
  proof cases
    case move
    obtain fs' where "Rename a b ?fs = Some (fs', 0)" "rename_inv (NormalizePath a) (NormalizePath b) ?fs None fs'"
      using Rename_moved [OF ok move(3,2,1)] by blast
    then show thesis using that [of fs' 0] move(2) by (simp add: names_def rename_inv_def)
  qed (auto simp: Rename_def names_def)
  have "keeps ?fs fs'" using Rename_ok [OF r(1) ok] by (simp add: keeps_def)
  then have "machine_ok (fst (on_fs (\<lambda>_. (fs', r)) Out_status s))" using on_fs_ok [OF assms(1), of "\<lambda>_. (fs', r)"] by simp
  moreover have "fs_step sys (Fs_Rename a b) s = Some (on_fs (\<lambda>_. (fs', r)) Out_status s)" using r(1) by simp
  ultimately show ?thesis using r(2) by (simp add: on_fs_def names_def del: fs_step.simps)
qed

lemma File_refines:
  assumes "machine_ok s" "fs_allowed (Fs_File j eo) s"
  shows "\<exists>t out. fs_step sys (Fs_File j eo) s = Some (t, out) \<and> machine_ok t \<and> names t = names s"
proof -
  let ?fs = "fst (fst s)" and ?h = "snd s ! j"
  obtain i where i: "j < length (snd s)" "poFile ?h = Some i" "op_ok eo (heap ?fs ! i, ?h)" using assms(2) by auto
  have ok: "fs_ok ?fs" "i < length (heap ?fs)" using assms(1) i(1,2) by (auto simp: machine_ok_def)
  obtain fs' h' out where h: "handle_step eo (?fs, ?h) = Some ((fs', h'), out)" "keeps ?fs fs'" "poFile h' = Some i"
    using handle_step_keeps [OF ok(1) i(2) ok(2) i(3)] by blast
  then have l: "oFileList fs' = oFileList ?fs" by (auto simp: handle_step_def split: Option.bind_splits)
  have "machine_ok ((fs', snd (fst s)), (snd s)[j := h'])"
  proof (rule machine_ok_keeps [OF _ h(2)])
    show "machine_ok ((?fs, snd (fst s)), snd s)" using assms(1) by simp
    show "\<forall>h\<in>set ((snd s)[j := h']). h \<in> set (snd s) \<or> (\<forall>i. poFile h = Some i \<longrightarrow> i < length (heap fs'))"
      using h(2,3) ok(2) by (auto simp: keeps_def dest!: set_update_subset_insert [THEN subsetD])
  qed
  then show ?thesis using h(1) i(1) l by (simp add: names_def)
qed

lemma fs_step_refines:
  assumes "sys_ok sys \<and> machine_ok s" "fs_allowed x s"
  shows "\<exists>t out. fs_step sys x s = Some (t, out) \<and> (sys_ok sys \<and> machine_ok t) \<and> names_spec x (names s) (names t) out"
proof -
  have sys: "sys_ok sys" and m: "machine_ok s" using assms(1) by simp_all
  have ok: "fs_ok (fst (fst s))" using m by (simp add: machine_ok_def)
  have "\<exists>t out. fs_step sys x s = Some (t, out) \<and> machine_ok t \<and> names_spec x (names s) (names t) out"
  proof (cases x)
    case (Fs_Open n acc)
    obtain st' r where o: "Open sys n acc (fst s) = Some (st', r)" "grows (fst (fst s)) (fst st')"
      "\<forall>h. r = Some h \<longrightarrow> (\<exists>i. poFile h = Some i \<and> i < length (heap (fst st')) \<and> map_of (oFileList (fst st')) (NormalizePath n) = Some i)"
      "\<not> c_strstr acc ''w'' \<and> \<not> c_strstr acc ''a'' \<longrightarrow> oFileList (fst st') = oFileList (fst (fst s))"
      using Open_grows [OF sys _ ok, of n acc] assms(2) Fs_Open by auto
    note h = new_handle_ok [of "fst s" "snd s" st' r, OF _ grows_keeps [OF o(2)]]
    show ?thesis using o h m ok Fs_Open by (cases "new_handle (snd s) (st', r)") (fastforce simp: names_def grows_def)
  next
    case (Fs_Stat n)
    have "names (fst (on_fs (Stat n) Out_stat s)) = names s"
      unfolding names_on_fs using Stat_state [of n "fst (fst s)"] by (auto simp: names_def)
    moreover have "snd (Stat n (fst (fst s))) \<noteq> None" if "NormalizePath n \<in> dom (names s)"
      using that by (auto simp: Stat_def Let_def names_def)
    ultimately show ?thesis using on_fs_ok [OF m, where f = "Stat n" and out = Out_stat] keeps_basic(1) [of "fst (fst s)" n] Fs_Stat
      by (cases "on_fs (Stat n) Out_stat s") (force simp: on_fs_def names_def case_prod_beta)
  next
    case (Fs_Unlink n)
    then show ?thesis using on_fs_ok [OF m, where f = "Unlink n" and out = Out_status] keeps_basic(2) [of "fst (fst s)" n] names_on_fs [of "Unlink n" Out_status s] Unlink_names [of n "fst (fst s)"]
      by (cases "on_fs (Unlink n) Out_status s") (simp add: names_def)
  next
    case (Fs_Rmdir n)
    then show ?thesis using on_fs_ok [OF m, where f = "Unlink n" and out = Out_status] keeps_basic(2) [of "fst (fst s)" n] names_on_fs [of "Unlink n" Out_status s] Unlink_names [of n "fst (fst s)"]
      by (cases "on_fs (Unlink n) Out_status s") (simp add: names_def Rmdir_Unlink)
  next
    case (Fs_Mkdir n)
    then show ?thesis using on_fs_ok [OF m, where f = "Mkdir (vsiEnv sys) n" and out = Out_status] keeps_basic(3) [where fs = "fst (fst s)" and n = n and env = "vsiEnv sys"] names_on_fs [of "Mkdir (vsiEnv sys) n" Out_status s]
        Mkdir_names [OF ok, of n "vsiEnv sys"]
      by (cases "on_fs (Mkdir (vsiEnv sys) n) Out_status s") (simp add: names_def split: if_splits)
  next
    case (Fs_Rename a b)
    then show ?thesis using Rename_refines [OF m, of a b sys] assms(2) by blast
  next
    case (Fs_ReadDir n nMax)
    then show ?thesis using m ReadDirEx_lists [OF ok, of n nMax] assms(2) by (simp add: names_def)
  next
    case (Fs_FromBuffer n p len own)
    obtain st' r where o: "VSIFileFromMemBuffer sys n p len own (fst s) = Some (st', r)" "keeps (fst (fst s)) (fst st')"
      "\<forall>h. r = Some h \<longrightarrow> (\<exists>i. poFile h = Some i \<and> i < length (heap (fst st')) \<and> length (heap (fst (fst s))) \<le> i \<and>
        (\<forall>m. n = Some m \<and> NormalizePath m \<noteq> [] \<longrightarrow> map_of (oFileList (fst st')) (NormalizePath m) = Some i))"
      "\<forall>k i. map_of (oFileList (fst (fst s))) k = Some i \<and> map_of (oFileList (fst st')) k \<noteq> Some i \<longrightarrow>
        (\<exists>m. n = Some m \<and> (k = NormalizePath m \<or> k = NormalizePath (NormalizePath m)))"
      using FromMemBuffer_keeps [OF sys _ _ ok, of n p len own] assms(2) Fs_FromBuffer by auto
    have "\<forall>h. r = Some h \<longrightarrow> (\<exists>i. poFile h = Some i \<and> i < length (heap (fst st')))" using o(3) by blast
    note h = new_handle_ok [of "fst s" "snd s" st' r, OF _ o(2) this]
    have fresh: "i \<notin> ran (names s)" if "length (heap (fst (fst s))) \<le> i" for i
      using fs_ok_heap [OF ok] that by (force simp: ran_def names_def)
    obtain j where j: "snd (new_handle (snd s) (st', r)) = Out_handle j" "j \<noteq> None \<longleftrightarrow> r \<noteq> None" using h(3) m o(3) by (metis prod.collapse)
    have "\<exists>i. map_of (oFileList (fst st')) (NormalizePath m) = Some i \<and> i \<notin> ran (names s)" if "n = Some m" "j \<noteq> None" "NormalizePath m \<noteq> []" for m
      using o(3) fresh that j(2) by auto
    then show ?thesis using o(1,3,4) h(1,2) j(1) m Fs_FromBuffer
      by (cases "new_handle (snd s) (st', r)") (auto simp: names_def)
  next
    case (Fs_GetBuffer n seize)
    obtain fs' p len where g: "VSIGetMemFileBuffer n seize (fst (fst s)) = (fs', p, len)" by (metis prod.exhaust)
    have "map_of (oFileList fs') = (case n of None \<Rightarrow> names s | Some m \<Rightarrow> if seize then (names s)(NormalizePath m := None) else names s)"
      using g by (auto simp: VSIGetMemFileBuffer_def Let_def names_def map_of_erase fun_eq_iff split: option.splits if_splits)
    then show ?thesis
      using on_fs_ok [OF m, where f = "VSIGetMemFileBuffer n seize" and out = "\<lambda>(p, len). Out_buffer p len"] GetMemFileBuffer_keeps [OF g] g Fs_GetBuffer
      by (cases n) (simp_all add: on_fs_def names_def)
  next
    case (Fs_File j eo)
    then show ?thesis using File_refines [OF m, of j eo sys] assms(2) by auto
  next
    case (Fs_Close j)
    have "machine_ok (fst s, (snd s)[j := Close (snd s ! j)])"
      using m by (auto simp: machine_ok_def Close_def dest!: set_update_subset_insert [THEN subsetD])
    then show ?thesis using Fs_Close assms(2) by (simp add: names_def)
  qed
  then show ?thesis using sys by blast
qed


interpretation mfs: simulation "\<lambda>s. sys_ok sys \<and> machine_ok s" names "fs_step sys" names_spec fs_allowed
  by unfold_locales (rule fs_step_refines)

lemma new_machine: "machine_ok ((VSIMemFilesystemHandler pre, d), [])" "names ((VSIMemFilesystemHandler pre, d), []) = Map.empty"
  by (simp_all add: machine_ok_def fs_ok_def sorted_map_def VSIMemFilesystemHandler_def names_def)


definition example_system :: "unit vsi_system" where
  "example_system =
     \<lparr>oHandlers = [(''/vsimem/'', Memory)], poDefaultHandler = Elsewhere 0, Stat_elsewhere = \<lambda>h n d. None,
      Mkdir_elsewhere = \<lambda>h n d. (d, - 1), pathBuf = Some (replicate CPL_PATH_BUF_SIZE NUL),
      vsiEnv = \<lparr>realloc_ok = \<lambda>n. True, fresh = \<lambda>i. 0, clock = 0\<rparr>\<rparr>"



subsection \<open>Files read back\<close>

lemma Open_w_result:
  assumes "sys_ok sys" "name_ok n" "fs_ok (fst st)" "Open sys n ''w'' st = Some (st1, Some h)"
  shows "\<exists>i. map_of (oFileList (fst st1)) (NormalizePath n) = Some i \<and> i < length (heap (fst st1)) \<and>
    h = VSIMemHandle\<lparr>poFile := Some i, bUpdate := True\<rparr> \<and> content (heap (fst st1) ! i) = [] \<and> \<not> bIsDirectory (heap (fst st1) ! i)"
proof -
  let ?n = "NormalizePath n"
  have w: "c_strstr ''w'' ''w''" "\<not> c_strstr ''w'' ''a''" by simp_all
  obtain j where j: "map_of (oFileList (fst st1)) ?n = Some j" "j < length (heap (fst st1))" "poFile h = Some j"
    using Open_grows [OF assms(1-3), of "''w''"] assms(4) by auto
  have main: "content (heap (fst st1) ! i) = [] \<and> \<not> bIsDirectory (heap (fst st1) ! i) \<and> h = VSIMemHandle\<lparr>poFile := Some i, bUpdate := True\<rparr>"
    if "Open_handle ''w'' i s = (st1, Some h)" "content (heap (fst s) ! i) = []" for i s
    using that w by (auto simp: Open_handle_def Let_def VSIMemHandle_def split: if_splits)
  have ne: "?n \<noteq> []" using assms(4) by (auto simp: Open_def Let_def)
  show ?thesis
  proof (cases "map_of (oFileList (fst st)) ?n")
    case (Some i)
    obtain g where g: "SetLength (vsiEnv sys) 0 (heap (fst st) ! i) = Some (g, True)" "content g = []"
      using SetLength_zero fs_ok_heap [OF assms(3) Some] by blast
    let ?s = "((fst st)\<lparr>heap := (heap (fst st))[i := g\<lparr>nMaxLength := get_maxlength ?n\<rparr>]\<rparr>, snd st)"
    have "Open_handle ''w'' i ?s = (st1, Some h)" using assms(4) Some g(1) ne w by (simp add: Open_def Let_def)
    moreover have "content (heap (fst ?s) ! i) = []" using fs_ok_heap [OF assms(3) Some] g(2) by (simp add: content_def data_def)
    ultimately show ?thesis using main [of i ?s] j by auto
  next
    case None
    then obtain d s r where d: "CPLGetPath (pathBuf sys) ?n = Some d" "VSIMkdirRecursive sys d st = Some (s, r)" "r \<noteq> - 1"
      using assms(4) ne w by (auto simp: Open_def Let_def split: Option.bind_splits if_splits)
    let ?f = "(VSIMemFile (vsiEnv sys))\<lparr>osFilename := ?n, nMaxLength := get_maxlength ?n\<rparr>"
    let ?s = "(set_name ?n (length (heap (fst s))) ((fst s)\<lparr>heap := heap (fst s) @ [?f]\<rparr>), snd s)"
    have "Open_handle ''w'' (length (heap (fst s))) ?s = (st1, Some h)"
      using assms(4) None ne w d by (simp add: Open_def Let_def make_file_def)
    moreover have "content (heap (fst ?s) ! length (heap (fst s))) = []" by (simp add: content_def data_def VSIMemFile_def)
    ultimately show ?thesis using main [of "length (heap (fst s))" ?s] j by auto
  qed
qed

lemma Open_r_found:
  assumes "map_of (oFileList fs) (NormalizePath n) = Some i" "\<not> bIsDirectory (heap fs ! i)" "NormalizePath n \<noteq> []"
  shows "Open sys n ''r'' (fs, d) = Some ((fs, d), Some (VSIMemHandle\<lparr>poFile := Some i\<rparr>))"
  using assms by (simp add: Open_def Let_def Open_handle_def VSIMemHandle_def)

lemma Read_all:
  assumes "file_ok f" "content f = xs" "xs \<noteq> []" "length xs \<le> unat m" "m_nOffset h = 0" "\<not> bExtendFileAtNextWrite h"
  shows "\<exists>g. Read 1 m f h = Some (g, xs, of_nat (length xs)) \<and> poFile g = poFile h \<and>
    Eof g = (Eof h \<or> length xs < unat m)"
proof -
  have inv: "file_inv (bUpdate h) (bOwnData f) (nMaxLength f) (f, h)" using assms by (simp add: file_inv_def)
  have "0 < length xs" using assms(3) by simp
  then have m: "unat m \<noteq> 0" "unat m < 2 ^ 64" using assms(4) unsigned_less [of m, where ?'a = nat] by (linarith, simp)
  obtain g ys k where g: "Read 1 m f h = Some (g, ys, k)"
    "spec_read (unat (1 :: u64)) (unat m) (abs_file (f, h)) (abs_file (f, g)) (Data ys k)"
    using Read_refines [OF inv] by blast
  have "ys = xs \<and> k = of_nat (length xs) \<and> Eof g = (Eof h \<or> length xs < unat m)"
    using g(2) assms m unfolding spec_read_def Let_def by (simp add: abs_file_def Eof_def)
  then show ?thesis using Read_safe [OF assms(1), of 1 m h] g(1) by auto
qed

lemma written_file:
  assumes "file_ok f" "content f = []" "m_nOffset h = 0" "\<not> bExtendFileAtNextWrite h" "xs \<noteq> []" "length xs \<le> 2 ^ 63"
    and "Write env xs 1 (of_nat (length xs)) f h = Some (g, g', of_nat (length xs))"
  shows "content g = xs \<and> same_file f g"
proof -
  have len: "length xs < 2 ^ 64" using assms(6) by simp
  have n: "unat (of_nat (length xs) :: u64) = length xs" using len by (simp add: unat_of_nat)
  have ne: "(of_nat (length xs) :: u64) \<noteq> 0" using n assms(5) by (metis length_0_conv unat_0)
  have inv: "file_inv (bUpdate h) (bOwnData f) (nMaxLength f) (f, h)" using assms by (simp add: file_inv_def)
  have l: "length_ok f (unat (m_nOffset h) + unat (1 :: u64) * unat (of_nat (length xs) :: u64))"
    using assms(3,6) n by (simp add: length_ok_def)
  have b: "unat (1 * of_nat (length xs) :: u64) \<le> length xs" using n by simp
  obtain r r' k where w: "Write env xs 1 (of_nat (length xs)) f h = Some (r, r', k)"
    "spec_write (bUpdate h) (bOwnData f) (nMaxLength f) env xs 1 (of_nat (length xs)) (abs_file (f, h)) (abs_file (r, r')) (Count k)"
    using Write_refines [OF inv l b] by blast
  have e: "r = g" "r' = g'" "k = of_nat (length xs)" using w(1) assms(7) by simp_all
  have "abs_file (g, g') = (abs_file (f, h))\<lparr>bytes := write_at 0 (take (length xs) xs) [], pos := length xs\<rparr>"
    using w(2) n ne assms(2,3) len unfolding e spec_write_def Let_def by (auto simp: abs_file_def split: if_splits)
  then have "content g = xs" by (simp add: abs_file_def write_at_def)
  moreover have "same_file f g" using Write_safe [OF assms(1) l b, of env] assms(7) by auto
  ultimately show ?thesis by blast
qed

text \<open>C12: A file that is opened for writing and written once in full, with at least one byte and at most 2^63, is read
  back: opened again by the same name, a request for any number of bytes that is not smaller than the number
  written gives exactly the bytes written and nothing behind them, whatever was in the file before, and meets the end
  of the file when it asked for more.  The name is shorter than 2^31 characters.\<close>

theorem written_file_reads_back:
  assumes "sys_ok sys" "name_ok n" "fs_ok (fst st)" "xs \<noteq> []" "length xs \<le> 2 ^ 63" "length xs \<le> unat m"
    and "Open sys n ''w'' st = Some (st1, Some h1)"
    and "handle_step (env, Op_Write xs 1 (of_nat (length xs))) (fst st1, h1) = Some ((fs2, h2), Count (of_nat (length xs)))"
  shows "\<exists>h3 h4. Open sys n ''r'' (fs2, snd st1) = Some ((fs2, snd st1), Some h3) \<and>
    handle_step (env, Op_Read 1 m) (fs2, h3) = Some ((fs2, h4), Data xs (of_nat (length xs))) \<and>
    Eof h4 = (length xs < unat m)"
proof -
  let ?n = "NormalizePath n"
  obtain i where i: "map_of (oFileList (fst st1)) ?n = Some i" "i < length (heap (fst st1))"
    "h1 = VSIMemHandle\<lparr>poFile := Some i, bUpdate := True\<rparr>" "content (heap (fst st1) ! i) = []" "\<not> bIsDirectory (heap (fst st1) ! i)"
    using Open_w_result [OF assms(1-3,7)] by blast
  let ?f = "heap (fst st1) ! i"
  have "fs_ok (fst st1)" using Open_grows [OF assms(1-3), of "''w''"] assms(3,7) by (auto simp: grows_def keeps_def)
  then have f: "file_ok ?f" using i(2) by (simp add: fs_ok_def)
  obtain g g' where g: "Write env xs 1 (of_nat (length xs)) ?f h1 = Some (g, g', of_nat (length xs))"
    "fs2 = (fst st1)\<lparr>heap := (heap (fst st1))[i := g]\<rparr>"
    using assms(8) i(3) by (auto simp: handle_step_def split: Option.bind_splits)
  have c: "content g = xs" "same_file ?f g"
    using written_file [OF f i(4) _ _ assms(4,5) g(1)] i(3) by simp_all
  have "file_ok g"
  proof -
    have "length xs < 2 ^ 64" using assms(5) by simp
    then have n: "unat (of_nat (length xs) :: u64) = length xs" by (simp add: unat_of_nat)
    have "length_ok ?f (unat (m_nOffset h1) + unat (1 :: u64) * unat (of_nat (length xs) :: u64))"
      using i(3) n assms(5) by (simp add: length_ok_def)
    from Write_safe [OF f this, of xs env] show ?thesis using g(1) n by auto
  qed
  have ne: "?n \<noteq> []" using assms(7) by (auto simp: Open_def Let_def)
  have fs2: "map_of (oFileList fs2) ?n = Some i" "heap fs2 ! i = g" using g(2) i(1,2) by simp_all
  have u: "(heap fs2)[i := g] = heap fs2" by (metis fs2(2) list_update_id)
  let ?h = "VSIMemHandle\<lparr>poFile := Some i\<rparr>"
  have "Open sys n ''r'' (fs2, snd st1) = Some ((fs2, snd st1), Some ?h)"
    by (rule Open_r_found [OF fs2(1) _ ne]) (use fs2(2) c(2) i(5) in \<open>simp add: same_file_def\<close>)
  moreover obtain h4 where "Read 1 m g ?h = Some (h4, xs, of_nat (length xs))" "Eof h4 = (length xs < unat m)"
    using Read_all [OF \<open>file_ok g\<close> c(1) assms(4,6), of ?h] by (auto simp: Eof_def VSIMemHandle_def)
  then have "handle_step (env, Op_Read 1 m) (fs2, ?h) = Some ((fs2, h4), Data xs (of_nat (length xs)))"
    "Eof h4 = (length xs < unat m)"
    using fs2(2) u by (simp_all add: handle_step_def)
  ultimately show ?thesis by blast
qed

lemma write_succeeds:
  assumes "file_ok f" "content f = []" "bOwnData f" "\<forall>m. realloc_ok env m" "length xs \<le> unat (nMaxLength f)" "length xs \<le> 2 ^ 63"
    and "m_nOffset h = 0" "\<not> bExtendFileAtNextWrite h" "bUpdate h"
  shows "\<exists>g g'. Write env xs 1 (of_nat (length xs)) f h = Some (g, g', of_nat (length xs))"
proof -
  have len: "length xs < 2 ^ 64" using assms(6) by simp
  have n: "unat (of_nat (length xs) :: u64) = length xs" using len by (simp add: unat_of_nat)
  have inv: "file_inv (bUpdate h) (bOwnData f) (nMaxLength f) (f, h)" using assms by (simp add: file_inv_def)
  have l: "length_ok f (unat (m_nOffset h) + unat (1 :: u64) * unat (of_nat (length xs) :: u64))"
    using assms(6,7) n by (simp add: length_ok_def)
  have b: "unat (1 * of_nat (length xs) :: u64) \<le> length xs" using n by simp
  obtain r r' k where w: "Write env xs 1 (of_nat (length xs)) f h = Some (r, r', k)"
    "spec_write (bUpdate h) (bOwnData f) (nMaxLength f) env xs 1 (of_nat (length xs)) (abs_file (f, h)) (abs_file (r, r')) (Count k)"
    using Write_refines [OF inv l b] by blast
  have "k = of_nat (length xs)"
    using w(2) n assms len unfolding spec_write_def Let_def by (auto simp: abs_file_def must_fit_def)
  then show ?thesis using w(1) by blast
qed

theorem written_file_reads_back_witness:
  "\<exists>fs h. Open example_system ''/vsimem/ab'' ''r'' (fs, ()) = Some ((fs, ()), Some h) \<and>
    (\<exists>h4. handle_step (vsiEnv example_system, Op_Read 1 9) (fs, h) = Some ((fs, h4), Data [3, 4] 2) \<and> Eof h4)"
proof -
  let ?env = "vsiEnv example_system" and ?h = "VSIMemHandle\<lparr>poFile := Some 2, bUpdate := True\<rparr>"
  have nn: "NormalizePath ''/vsimem/ab'' = ''/vsimem/ab''" by code_simp
  have m: "get_maxlength ''/vsimem/ab'' = GUINTBIG_MAX" by code_simp
  have ok: "fs_ok example_fs"
    by (auto simp: fs_ok_def example_fs_def sorted_map_def VSIMemFilesystemHandler_def VSIMemFile_def file_ok_def content_def data_def less_char_def)
  have l: "map_of (oFileList example_fs) ''/vsimem/ab'' = Some 2" by (simp add: example_fs_def Let_def)
  obtain st1 h1 where o: "Open example_system ''/vsimem/ab'' ''w'' (example_fs, ()) = Some (st1, Some h1)"
    and st1: "bOwnData (heap (fst st1) ! 2)" "nMaxLength (heap (fst st1) ! 2) = GUINTBIG_MAX" "oFileList (fst st1) = oFileList example_fs"
    using l nn m by (simp add: Open_def SetLength_def Open_handle_def example_fs_def VSIMemFile_def Let_def)
  have sys: "sys_ok example_system" "name_ok ''/vsimem/ab''" by (simp_all add: sys_ok_def example_system_def name_ok_def c_string_def)
  obtain i where i: "map_of (oFileList (fst st1)) ''/vsimem/ab'' = Some i" "i < length (heap (fst st1))"
    "h1 = VSIMemHandle\<lparr>poFile := Some i, bUpdate := True\<rparr>" "content (heap (fst st1) ! i) = []"
    using Open_w_result [OF sys, of "(example_fs, ())"] ok o nn by auto
  have "fs_ok (fst st1)" using Open_grows [OF sys, of "(example_fs, ())" "''w''"] ok o by (auto simp: grows_def keeps_def)
  then have f: "file_ok (heap (fst st1) ! i)" "bOwnData (heap (fst st1) ! i)" "nMaxLength (heap (fst st1) ! i) = GUINTBIG_MAX"
    using i(1,2) st1 l by (simp_all add: fs_ok_def)
  obtain g g' where "Write ?env [3, 4] 1 2 (heap (fst st1) ! i) h1 = Some (g, g', 2)"
    using write_succeeds [OF f(1) i(4) f(2), of ?env "[3, 4]" h1] f(3) i(3) by (auto simp: example_system_def GUINTBIG_MAX_def)
  then have w: "handle_step (?env, Op_Write [3, 4] 1 (of_nat (length [3, 4 :: byte]))) (fst st1, h1) =
      Some (((fst st1)\<lparr>heap := (heap (fst st1))[i := g]\<rparr>, g'), Count (of_nat (length [3, 4 :: byte])))"
    using i(3) by (simp add: handle_step_def)
  have "length [3, 4 :: byte] \<le> unat (9 :: u64)" by simp
  from written_file_reads_back [OF sys, of "(example_fs, ())", OF _ _ _ this o w] ok show ?thesis by fastforce
qed


subsection \<open>Buffers exchanged with the caller\<close>

lemma FromMemBuffer_file:
  assumes "sys_ok sys" "name_ok n" "NormalizePath n \<noteq> []" "fs_ok (fst st)" "length xs = unat len"
    and "VSIFileFromMemBuffer sys (Some n) (Some xs) len own st = Some (st1, Some h)"
  shows "\<exists>i. map_of (oFileList (fst st1)) (NormalizePath n) = Some i \<and> i < length (heap (fst st1)) \<and>
    h = VSIMemHandle\<lparr>poFile := Some i, bUpdate := True\<rparr> \<and>
    heap (fst st1) ! i = (VSIMemFile (vsiEnv sys))\<lparr>osFilename := NormalizePath n, bOwnData := own, pabyData := Some xs,
      nLength := len, nAllocLength := len\<rparr>"
proof -
  obtain i where i: "poFile h = Some i" "i < length (heap (fst st1))" "map_of (oFileList (fst st1)) (NormalizePath n) = Some i"
    using FromMemBuffer_keeps [OF assms(1) _ _ assms(4), of "Some n" "Some xs" len own] assms(2,3,5,6) by auto
  have h: "h = VSIMemHandle\<lparr>poFile := Some i, bUpdate := True\<rparr>"
    using assms(6) i(1) by (auto simp: VSIFileFromMemBuffer_def Let_def split: Option.bind_splits if_splits prod.splits)
  obtain s :: mem_fs where "heap (fst st1) = heap s @ [(VSIMemFile (vsiEnv sys))\<lparr>osFilename := NormalizePath n, bOwnData := own,
      pabyData := Some xs, nLength := len, nAllocLength := len\<rparr>]" "poFile h = Some (length (heap s))"
    using assms(3,6) by (auto simp: VSIFileFromMemBuffer_def Let_def make_file_def Unlink_heap split: Option.bind_splits if_splits)
  then show ?thesis using i h by auto
qed

lemma GetMemFileBuffer_found:
  "map_of (oFileList fs) (NormalizePath n) = Some i \<Longrightarrow>
   VSIGetMemFileBuffer (Some n) seize fs =
     ((if seize then fs\<lparr>oFileList := map_erase (NormalizePath n) (oFileList fs),
         heap := (heap fs)[i := (heap fs ! i)\<lparr>bOwnData := False, pabyData := None, nLength := 0, nAllocLength := 0\<rparr>]\<rparr> else fs),
      pabyData (heap fs ! i), Some (nLength (heap fs ! i)))"
  by (simp add: VSIGetMemFileBuffer_def Let_def)

text \<open>C13: A buffer made a file by VSIFileFromMemBuffer is read through its handle byte by byte as it was, and
  VSIGetMemFileBuffer gives the same bytes and length back; when it seizes the buffer the name is gone, opening it
  for reading fails, and handles that are still open read nothing.\<close>

theorem memory_buffer_roundtrip:
  assumes "sys_ok sys" "name_ok n" "NormalizePath n \<noteq> []" "fs_ok (fst st)" "length xs = unat len" "xs \<noteq> []"
    and "VSIFileFromMemBuffer sys (Some n) (Some xs) len own st = Some (st1, Some h)"
  shows "\<exists>fs2 h2. handle_step (env, Op_Read 1 len) (fst st1, h) = Some ((fst st1, h2), Data xs len) \<and>
    VSIGetMemFileBuffer (Some n) seize (fst st1) = (fs2, Some xs, Some len) \<and>
    (if seize
     then (\<exists>s. Open sys n ''r'' (fs2, snd st1) = Some (s, None)) \<and> handle_step (env, Op_PRead 1 0) (fs2, h) = Some ((fs2, h), Data [] 0)
     else fs2 = fst st1)"
proof -
  let ?f = "(VSIMemFile (vsiEnv sys))\<lparr>osFilename := NormalizePath n, bOwnData := own, pabyData := Some xs, nLength := len, nAllocLength := len\<rparr>"
  obtain i where i: "map_of (oFileList (fst st1)) (NormalizePath n) = Some i" "i < length (heap (fst st1))"
    "h = VSIMemHandle\<lparr>poFile := Some i, bUpdate := True\<rparr>" "heap (fst st1) ! i = ?f"
    using FromMemBuffer_file [OF assms(1-5,7)] by blast
  have f: "file_ok ?f" using buffer_ok [of "Some xs" len] assms(5) by simp
  have c: "content ?f = xs" using assms(5) by (simp add: content_def data_def)
  have len: "len = of_nat (length xs)" "length xs < 2 ^ 64"
    using assms(5) unsigned_less [of len, where ?'a = nat] by simp_all
  have le: "length xs \<le> unat len" by (simp only: assms(5))
  obtain h2 where "Read 1 len ?f h = Some (h2, xs, len)"
    using Read_all [OF f c assms(6) le, of h] i(3) unfolding len(1) [symmetric] by auto
  moreover have u: "(heap (fst st1))[i := ?f] = heap (fst st1)" by (metis i(4) list_update_id)
  ultimately have r: "handle_step (env, Op_Read 1 len) (fst st1, h) = Some ((fst st1, h2), Data xs len)"
    using i(3,4) by (simp add: handle_step_def)
  show ?thesis
  proof (cases seize)
    case False
    then show ?thesis using r GetMemFileBuffer_found [OF i(1), of False] i(4) by simp
  next
    case True
    let ?g = "?f\<lparr>bOwnData := False, pabyData := None, nLength := 0, nAllocLength := 0\<rparr>"
    let ?fs = "(fst st1)\<lparr>oFileList := map_erase (NormalizePath n) (oFileList (fst st1)), heap := (heap (fst st1))[i := ?g]\<rparr>"
    have "VSIGetMemFileBuffer (Some n) seize (fst st1) = (?fs, Some xs, Some len)"
      using True GetMemFileBuffer_found [OF i(1), of True] i(4) by simp
    moreover have "\<exists>s. Open sys n ''r'' (?fs, snd st1) = Some (s, None)"
      using assms(3) by (simp add: Open_def Let_def map_of_erase)
    moreover have "handle_step (env, Op_PRead 1 0) (?fs, h) = Some ((?fs, h), Data [] 0)"
      using i(2,3) by (simp add: handle_step_def PRead_def)
    ultimately show ?thesis using r True by simp
  qed
qed


lemma example_dirs:
  "CPLGetPath (pathBuf example_system) ''/vsimem/m'' = Some ''/vsimem''"
  "m_osPrefix fs = ''/vsimem/'' \<Longrightarrow> VSIMkdirRecursive example_system ''/vsimem'' (fs, d) = Some ((fs, d), 0)"
proof -
  have "name_split ''/vsimem/m'' ''/vsimem/'' ''m''" by (simp add: name_split_def is_slash_def)
  from path_before_name [OF this, of "replicate CPL_PATH_BUF_SIZE NUL" "[]"]
  show "CPLGetPath (pathBuf example_system) ''/vsimem/m'' = Some ''/vsimem''"
    by (simp add: CPLGetPath_def example_system_def c_string_def CPL_PATH_BUF_SIZE_def dir_of_def)
  have "NormalizePath ''/vsimem'' = ''/vsimem''" by code_simp
  then show "m_osPrefix fs = ''/vsimem/'' \<Longrightarrow> VSIMkdirRecursive example_system ''/vsimem'' (fs, d) = Some ((fs, d), 0)"
    by (subst VSIMkdirRecursive.simps)
      (simp add: VSIStatL_def GetHandler_def example_system_def handler_matches_def STARTS_WITH_def c_at_def Stat_def)
qed

theorem memory_buffer_roundtrip_witness:
  "\<exists>st h fs2. VSIFileFromMemBuffer example_system (Some ''/vsimem/m'') (Some [5, 6]) 2 True (VSIMemFilesystemHandler ''/vsimem/'', ()) = Some (st, Some h) \<and>
    VSIGetMemFileBuffer (Some ''/vsimem/m'') True (fst st) = (fs2, Some [5, 6], Some 2)"
proof -
  have nn: "NormalizePath ''/vsimem/m'' = ''/vsimem/m''" by code_simp
  have "m_osPrefix (VSIMemFilesystemHandler ''/vsimem/'') = ''/vsimem/''" by (simp add: VSIMemFilesystemHandler_def)
  then obtain st h where o: "VSIFileFromMemBuffer example_system (Some ''/vsimem/m'') (Some [5, 6]) 2 True (VSIMemFilesystemHandler ''/vsimem/'', ()) = Some (st, Some h)"
    using nn example_dirs by (simp add: VSIFileFromMemBuffer_def Let_def make_file_def)
  have "sys_ok example_system" "name_ok ''/vsimem/m''" "fs_ok (VSIMemFilesystemHandler ''/vsimem/'')"
    using new_machine(1) [of "''/vsimem/''" "()"] by (simp_all add: sys_ok_def example_system_def name_ok_def c_string_def machine_ok_def)
  from memory_buffer_roundtrip [OF this(1,2) _ _ _ _ o, of undefined True] this(3) nn show ?thesis using o by auto
qed


subsection \<open>Creating directories\<close>

definition root :: string where "root = ''/vsimem''"

lemma clean_prefix: "clean_path (d @ CHR ''/'' # n) \<Longrightarrow> d \<noteq> [] \<Longrightarrow> clean_path d"
  by (auto simp: clean_path_def c_string_def successively_append_iff)

lemma below_trans: "below a b \<Longrightarrow> below b c \<Longrightarrow> below a c"
proof -
  assume "below a b" "below b c"
  then obtain r s where b: "b = a @ r" "r = [] \<or> c_at r 0 = CHR ''/''" and c: "c = b @ s" "s = [] \<or> c_at s 0 = CHR ''/''"
    unfolding below_append by blast
  then have "c = a @ (r @ s)" "r @ s = [] \<or> c_at (r @ s) 0 = CHR ''/''" by (cases r; simp add: c_at_def)+
  then show ?thesis unfolding below_append by blast
qed

lemma below_parent:
  assumes "p = d @ CHR ''/'' # n" "CHR ''/'' \<notin> set n"
  shows "below k p \<longleftrightarrow> k = p \<or> below k d"
proof
  assume "below k p"
  then obtain r where r: "p = k @ r" "r = [] \<or> c_at r 0 = CHR ''/''" unfolding below_append by blast
  show "k = p \<or> below k d"
  proof (cases r)
    case (Cons c r')
    then have e: "d @ CHR ''/'' # n = k @ CHR ''/'' # r'" using r assms(1) by (simp add: c_at_def)
    then consider u where "d = k @ u" "u @ CHR ''/'' # n = CHR ''/'' # r'" | u where "k = d @ u" "CHR ''/'' # n = u @ CHR ''/'' # r'"
      by (auto simp: append_eq_append_conv2)
    then show ?thesis
    proof cases
      case 1
      then have "u = [] \<or> c_at u 0 = CHR ''/''" by (cases u) (auto simp: c_at_def)
      then show ?thesis using 1 by (auto simp: below_append)
    next
      case 2
      then show ?thesis using assms(2) by (cases u) auto
    qed
  qed (use r in simp)
next
  assume "k = p \<or> below k d"
  moreover have "below d p" unfolding below_append assms(1) by (simp add: c_at_def)
  moreover have "below k p" if "below k d" "below d p" using below_trans [OF that] .
  ultimately show "below k p" by auto
qed

lemma parent_split:
  assumes "below root p" "p \<noteq> root" "clean_path p"
  obtains d n where "p = d @ CHR ''/'' # n" "CHR ''/'' \<notin> set n" "d \<noteq> []" "clean_path d" "below root d" "\<forall>c\<in>set n. \<not> is_slash c"
proof -
  have "CHR ''/'' \<in> set p" using assms(1) by (auto simp: below_append root_def)
  then obtain d n where dn: "p = d @ CHR ''/'' # n" "CHR ''/'' \<notin> set n" by (metis split_list_last)
  have b: "below root d" using assms(1,2) below_parent [OF dn, of root] by auto
  then have "d \<noteq> []" by (auto simp: below_append root_def)
  moreover from this have "clean_path d" using clean_prefix assms(3) dn(1) by blast
  moreover have "\<forall>c\<in>set n. \<not> is_slash c" using dn assms(3) by (auto simp: is_slash_def clean_path_def)
  ultimately show thesis using that dn b by blast
qed

lemma CPLGetPath_parent:
  assumes "sys_ok sys" "pathBuf sys \<noteq> None" "p = d @ CHR ''/'' # n" "\<forall>c\<in>set n. \<not> is_slash c" "d \<noteq> []" "c_string p" "length p < CPL_PATH_BUF_SIZE"
  shows "CPLGetPath (pathBuf sys) p = Some d"
proof -
  obtain b where b: "pathBuf sys = Some b" "length b = CPL_PATH_BUF_SIZE" using assms(1,2) by (auto simp: sys_ok_def)
  have "name_split p (d @ ''/'') n" using assms(3,4) by (simp add: name_split_def is_slash_def)
  then have "CPLGetPath (pathBuf sys) p =
      Some (if CPL_PATH_BUF_SIZE \<le> length (d @ ''/'') then [] else if d @ ''/'' = [] then [] else dir_of (d @ ''/''))"
    unfolding CPLGetPath_def b(1) by (rule path_before_name [OF _ assms(6) _ b(2)]) (use assms(7) in \<open>simp_all add: c_string_def CPL_PATH_BUF_SIZE_def\<close>)
  then show ?thesis using assms(3,5,7) by (simp add: dir_of_def)
qed

text \<open>The handler table gives the names of the root to the file system in memory.\<close>

definition in_memory :: "'d vsi_system \<Rightarrow> string \<Rightarrow> bool" where
  "in_memory sys p \<longleftrightarrow> (\<forall>k. below k p \<and> below root k \<longrightarrow> GetHandler sys k = Memory)"

lemma stat_clean:
  assumes "m_osPrefix (fst st) = root @ ''/''" "clean_path k" "below root k" "GetHandler sys k = Memory"
  shows "\<exists>fs r. VSIStatL sys k st = ((fs, snd st), r) \<and> fs \<in> {fst st, (fst st)\<lparr>errno := ENOENT\<rparr>} \<and>
    (r \<noteq> None \<longleftrightarrow> k = root \<or> k \<in> dom (map_of (oFileList (fst st)))) \<and>
    (\<forall>s i. r = Some s \<and> (k = root \<or> map_of (oFileList (fst st)) k = Some i \<and> bIsDirectory (heap (fst st) ! i)) \<longrightarrow> st_mode s = Some S_IFDIR)"
proof -
  have l: "length k \<noteq> 2" using assms(3) by (auto simp: below_append root_def)
  have n: "NormalizePath k = k" by (rule NormalizePath_clean [OF assms(2)])
  have r: "k @ ''/'' = root @ ''/'' \<longleftrightarrow> k = root" "k \<noteq> root @ ''/''" using assms(2) by (auto simp: clean_path_def)
  have "VSIStatL sys k st = (let (fs, r) = Stat k (fst st) in ((fs, snd st), r))" using l assms(4) by (simp add: VSIStatL_def)
  then show ?thesis using r assms(1) by (cases st) (auto simp: Stat_def n Let_def split: option.split)
qed

lemma mkdir_clean:
  assumes "clean_path p" "GetHandler sys p = Memory" "fs_ok (fst st)" "p \<notin> dom (map_of (oFileList (fst st)))"
  shows "\<exists>fs. VSIMkdir sys p st = ((fs, snd st), 0) \<and> fs_ok fs \<and> m_osPrefix fs = m_osPrefix (fst st) \<and>
    map_of (oFileList fs) = (map_of (oFileList (fst st)))(p \<mapsto> length (heap (fst st))) \<and>
    (\<exists>f. heap fs = heap (fst st) @ [f] \<and> bIsDirectory f)"
proof -
  have n: "NormalizePath p = p" by (rule NormalizePath_clean [OF assms(1)])
  let ?f = "(VSIMemFile (vsiEnv sys))\<lparr>osFilename := p, bIsDirectory := True\<rparr>"
  obtain fs i where m: "make_file ?f (fst st) = (fs, i)" by (cases "make_file ?f (fst st)")
  have ok: "fs_ok (set_name p i fs)" by (rule fs_ok_make [OF assms(3) _ _ m]) simp_all
  have "VSIMkdir sys p st = ((set_name p i fs, snd st), 0)" using assms(2,4) m by (auto simp: VSIMkdir_def Mkdir_def Let_def n)
  moreover have "map_of (oFileList (set_name p i fs)) = (map_of (oFileList (fst st)))(p \<mapsto> length (heap (fst st)))"
    using m assms(3) by (auto simp: make_file_def set_name_def map_of_put fs_ok_def)
  moreover have "heap (set_name p i fs) = heap (fst st) @ [?f]" "m_osPrefix (set_name p i fs) = m_osPrefix (fst st)" "bIsDirectory ?f"
    using m by (auto simp: make_file_def set_name_def)
  ultimately show ?thesis using ok by blast
qed

text \<open>The names that are created: those on the way down from the nearest directory that exists.\<close>

definition missing :: "(string \<rightharpoonup> nat) \<Rightarrow> string \<Rightarrow> string \<Rightarrow> bool" where
  "missing F p k \<longleftrightarrow> below k p \<and> below root k \<and> k \<noteq> root \<and> (\<forall>j. below k j \<and> below j p \<longrightarrow> j \<notin> dom F)"

lemma VSIMkdirRecursive_result:
  assumes "sys_ok sys" "pathBuf sys \<noteq> None"
  shows "in_memory sys p \<Longrightarrow> below root p \<Longrightarrow> clean_path p \<Longrightarrow> length p < CPL_PATH_BUF_SIZE \<Longrightarrow>
    fs_ok (fst st) \<Longrightarrow> m_osPrefix (fst st) = root @ ''/'' \<Longrightarrow>
    \<forall>k i. below k p \<and> map_of (oFileList (fst st)) k = Some i \<longrightarrow> bIsDirectory (heap (fst st) ! i) \<Longrightarrow>
    \<exists>fs hs. VSIMkdirRecursive sys p st = Some ((fs, snd st), 0) \<and> fs_ok fs \<and> m_osPrefix fs = m_osPrefix (fst st) \<and>
      heap fs = heap (fst st) @ hs \<and>
      (\<forall>k. if missing (map_of (oFileList (fst st))) p k
           then (\<exists>i. map_of (oFileList fs) k = Some i \<and> length (heap (fst st)) \<le> i \<and> i < length (heap fs) \<and> bIsDirectory (heap fs ! i))
           else map_of (oFileList fs) k = map_of (oFileList (fst st)) k)"
proof (induction "length p" arbitrary: p st rule: less_induct)
  case less
  define F where "F = map_of (oFileList (fst st))"
  have hp: "GetHandler sys p = Memory" using less.prems(1,2) by (simp add: in_memory_def)
  obtain fs1 r1 where s1: "VSIStatL sys p st = ((fs1, snd st), r1)" "fs1 \<in> {fst st, (fst st)\<lparr>errno := ENOENT\<rparr>}"
    "r1 \<noteq> None \<longleftrightarrow> p = root \<or> p \<in> dom F"
    "\<forall>s i. r1 = Some s \<and> (p = root \<or> F p = Some i \<and> bIsDirectory (heap (fst st) ! i)) \<longrightarrow> st_mode s = Some S_IFDIR"
    using stat_clean [OF less.prems(6,3,2) hp] unfolding F_def by blast
  have p: "p \<noteq> []" "p \<noteq> ''/''" using less.prems(2) by (auto simp: below_append root_def)
  have fs1: "fs_ok fs1" "m_osPrefix fs1 = m_osPrefix (fst st)" "map_of (oFileList fs1) = F" "heap fs1 = heap (fst st)"
    using s1(2) less.prems(5) by (auto simp: F_def)
  show ?case
  proof (cases "r1 = None")
    case False
    then obtain s where s: "r1 = Some s" by blast
    have "st_mode s = Some S_IFDIR"
      using False s s1(3,4) less.prems(7) below_self unfolding F_def by blast
    then have "VSIMkdirRecursive sys p st = Some ((fs1, snd st), 0)" using s s1(1) p by (subst VSIMkdirRecursive.simps) simp
    moreover have "\<not> missing F p k" for k
    proof
      assume k: "missing F p k"
      then have "p \<notin> dom F" "below k p" "below root k" "k \<noteq> root" unfolding missing_def by auto
      moreover have "p = root" using False s1(3) \<open>p \<notin> dom F\<close> by blast
      ultimately show False unfolding below_append by auto
    qed
    ultimately show ?thesis using fs1 unfolding F_def by (intro exI [of _ fs1] exI [of _ "[]"]) simp
  next
    case True
    then have pn: "p \<noteq> root" "p \<notin> dom F" using s1(3) by auto
    obtain d n where d: "p = d @ CHR ''/'' # n" "CHR ''/'' \<notin> set n" "d \<noteq> []" "clean_path d" "below root d" "\<forall>c\<in>set n. \<not> is_slash c"
      by (rule parent_split [OF less.prems(2) pn(1) less.prems(3)])
    have gp: "CPLGetPath (pathBuf sys) p = Some d"
      by (rule CPLGetPath_parent [OF assms d(1,6,3) _ less.prems(4)]) (use less.prems(3) in \<open>simp add: clean_path_def\<close>)
    have up: "below k d \<Longrightarrow> below k p" for k using below_parent [OF d(1,2)] by blast
    have md: "in_memory sys d" using less.prems(1) up unfolding in_memory_def by blast
    then have hd: "GetHandler sys d = Memory" using d(5) by (simp add: in_memory_def)
    have pre1: "m_osPrefix (fst (fs1, snd st)) = root @ ''/''" using fs1(2) less.prems(6) by simp
    obtain fs2 r2 where s2: "VSIStatL sys d (fs1, snd st) = ((fs2, snd st), r2)" "fs2 \<in> {fs1, fs1\<lparr>errno := ENOENT\<rparr>}"
      "r2 \<noteq> None \<longleftrightarrow> d = root \<or> d \<in> dom F"
      using stat_clean [OF pre1 d(4,5) hd] unfolding fst_conv snd_conv fs1(3) by blast
    have fs2: "fs_ok fs2" "m_osPrefix fs2 = m_osPrefix (fst st)" "map_of (oFileList fs2) = F" "heap fs2 = heap (fst st)"
      using s2(2) fs1 by auto
    have len: "\<not> (d = p \<or> length p \<le> length d)" using d(1) by simp
    have mis: "missing F p k \<longleftrightarrow> k = p \<or> (r2 = None \<and> missing F d k)" for k
    proof -
      have kp: "k \<noteq> p" if "below k d" using that len by (auto simp: below_append)
      show ?thesis
      proof (cases "k = p")
        case True
        have "missing F p p"
          using pn less.prems(2) unfolding missing_def by (auto simp: below_append)
        then show ?thesis using True by simp
      next
        case False
        then have a: "missing F p k \<longleftrightarrow> below k d \<and> below root k \<and> k \<noteq> root \<and> (\<forall>j. below k j \<and> (j = p \<or> below j d) \<longrightarrow> j \<notin> dom F)"
          unfolding missing_def using below_parent [OF d(1,2)] by auto
        show ?thesis
        proof (cases "r2 = None")
          case True
          then show ?thesis using a False pn(2) unfolding missing_def by blast
        next
          case r2: False
          then have "d = root \<or> d \<in> dom F" using s2(3) by simp
          moreover have "\<not> (below k d \<and> below root k \<and> k \<noteq> root)" if "d = root" using that unfolding below_append by auto
          ultimately have "\<not> missing F p k" using a by auto
          then show ?thesis using False r2 by simp
        qed
      qed
    qed
    show ?thesis
    proof (cases "r2 = None")
      case False
      then obtain s where s: "r2 = Some s" by blast
      obtain fs3 f where m: "VSIMkdir sys p (fs2, snd st) = ((fs3, snd st), 0)" "fs_ok fs3" "m_osPrefix fs3 = m_osPrefix fs2"
        "map_of (oFileList fs3) = F(p \<mapsto> length (heap fs2))" "heap fs3 = heap fs2 @ [f]" "bIsDirectory f"
        using mkdir_clean [OF less.prems(3) hp, of "(fs2, snd st)"] fs2 pn(2) by auto
      have "VSIMkdirRecursive sys p st = Some ((fs3, snd st), 0)"
        using True s s1(1) s2(1) p gp len m(1) by (subst VSIMkdirRecursive.simps) simp
      then show ?thesis using m fs2 mis False unfolding F_def by (intro exI [of _ fs3] exI [of _ "[f]"]) auto
    next
      case none: True
      have dirs: "\<forall>k i. below k d \<and> map_of (oFileList (fst (fs2, snd st))) k = Some i \<longrightarrow> bIsDirectory (heap (fst (fs2, snd st)) ! i)"
        using less.prems(7) up fs2(3,4) unfolding F_def by auto
      have pre2: "fs_ok (fst (fs2, snd st))" "m_osPrefix (fst (fs2, snd st)) = root @ ''/''" using fs2 less.prems(6) by simp_all
      have ih: "length d < length p" "length d < CPL_PATH_BUF_SIZE" using d(1) less.prems(4) by simp_all
      obtain fs3 hs where r: "VSIMkdirRecursive sys d (fs2, snd st) = Some ((fs3, snd st), 0)" "fs_ok fs3" "m_osPrefix fs3 = m_osPrefix fs2"
        "heap fs3 = heap fs2 @ hs"
        "\<forall>k. if missing F d k
           then (\<exists>i. map_of (oFileList fs3) k = Some i \<and> length (heap fs2) \<le> i \<and> i < length (heap fs3) \<and> bIsDirectory (heap fs3 ! i))
           else map_of (oFileList fs3) k = F k"
        using less.hyps [OF ih(1) md d(5,4) ih(2) pre2 dirs] unfolding fst_conv snd_conv fs2(3) by blast
      have "\<not> missing F d p" using len by (auto simp: missing_def below_append)
      then have "p \<notin> dom (map_of (oFileList fs3))" using r(5) pn(2) by (metis domIff)
      then obtain fs4 f where m: "VSIMkdir sys p (fs3, snd st) = ((fs4, snd st), 0)" "fs_ok fs4" "m_osPrefix fs4 = m_osPrefix fs3"
        "map_of (oFileList fs4) = (map_of (oFileList fs3))(p \<mapsto> length (heap fs3))" "heap fs4 = heap fs3 @ [f]" "bIsDirectory f"
        using mkdir_clean [OF less.prems(3) hp, of "(fs3, snd st)"] r(2) by auto
      have "VSIMkdirRecursive sys p st = Some ((fs4, snd st), 0)"
        using True none s1(1) s2(1) p gp len m(1) r(1) by (subst VSIMkdirRecursive.simps) simp
      moreover have "if missing F p k
           then (\<exists>i. map_of (oFileList fs4) k = Some i \<and> length (heap (fst st)) \<le> i \<and> i < length (heap fs4) \<and> bIsDirectory (heap fs4 ! i))
           else map_of (oFileList fs4) k = F k" for k
      proof (cases "k = p")
        case True
        then show ?thesis using mis [of k] m(4-6) r(4) fs2(4) by simp
      next
        case False
        then have k: "missing F p k = missing F d k" "map_of (oFileList fs4) k = map_of (oFileList fs3) k" using mis [of k] none m(4) by auto
        have "heap fs4 ! i = heap fs3 ! i" if "i < length (heap fs3)" for i using m(5) that by (simp add: nth_append)
        then show ?thesis using r(5) [rule_format, of k] m(5) fs2(4) unfolding k by (cases "missing F d k") (force, simp)
      qed
      moreover have "heap fs4 = heap (fst st) @ (hs @ [f])" "m_osPrefix fs4 = m_osPrefix (fst st)" using m r fs2 by simp_all
      ultimately show ?thesis using m(2) unfolding F_def by blast
    qed
  qed
qed



lemma example_in_memory: "in_memory example_system p"
proof -
  have "GetHandler example_system k = Memory" if "below root k" for k
  proof -
    obtain r where r: "k = root @ r" "r = [] \<or> c_at r 0 = CHR ''/''" using \<open>below root k\<close> unfolding below_append by blast
    then have "handler_matches k ''/vsimem/''" by (cases r) (auto simp: handler_matches_def STARTS_WITH_def c_at_def root_def)
    then show ?thesis by (simp add: GetHandler_def example_system_def)
  qed
  then show ?thesis by (simp add: in_memory_def)
qed


text \<open>A regular file as the parent is not noticed: only an existing path is asked for its kind.\<close>

theorem VSIMkdirRecursive_under_file:
  assumes "map_of (oFileList fs) ''/vsimem/f'' = Some i" "\<not> bIsDirectory (heap fs ! i)" "m_osPrefix fs = ''/vsimem/''"
    and "map_of (oFileList fs) ''/vsimem/f/d'' = None"
  shows "\<exists>st. VSIMkdirRecursive example_system ''/vsimem/f/d'' (fs, ()) = Some (st, 0)"
proof -
  have n: "NormalizePath ''/vsimem/f/d'' = ''/vsimem/f/d''" "NormalizePath ''/vsimem/f'' = ''/vsimem/f''" by code_simp+
  have h: "GetHandler example_system ''/vsimem/f/d'' = Memory" "GetHandler example_system ''/vsimem/f'' = Memory" by code_simp+
  have "CPLGetPath (pathBuf example_system) ''/vsimem/f/d'' = Some ''/vsimem/f''"
    by (rule CPLGetPath_parent [of _ _ _ "''d''"])
      (simp_all add: sys_ok_def example_system_def is_slash_def c_string_def CPL_PATH_BUF_SIZE_def)
  moreover have "VSIStatL example_system ''/vsimem/f/d'' (fs, ()) = ((fs\<lparr>errno := ENOENT\<rparr>, ()), None)"
    "snd (VSIStatL example_system ''/vsimem/f'' (fs\<lparr>errno := ENOENT\<rparr>, ())) \<noteq> None"
    "fst (VSIStatL example_system ''/vsimem/f'' (fs\<lparr>errno := ENOENT\<rparr>, ())) = (fs\<lparr>errno := ENOENT\<rparr>, ())"
    using assms by (simp_all add: VSIStatL_def h Stat_def n Let_def)
  moreover obtain st' where "VSIMkdir example_system ''/vsimem/f/d'' (fs\<lparr>errno := ENOENT\<rparr>, ()) = (st', 0)"
    using assms(4) by (simp add: VSIMkdir_def h Mkdir_def n make_file_def Let_def)
  ultimately show ?thesis
    by (cases st', subst VSIMkdirRecursive.simps) (auto split: prod.splits option.splits)
qed

text \<open>With a separator at its end the path is made by the call for its own parent, and the call fails although the
  directory has been created.\<close>

theorem VSIMkdirRecursive_trailing:
  assumes "map_of (oFileList fs) ''/vsimem/a'' = None" "m_osPrefix fs = ''/vsimem/''" "sorted_map (oFileList fs)"
  shows "\<exists>st. VSIMkdirRecursive example_system ''/vsimem/a/'' (fs, ()) = Some (st, - 1) \<and>
    ''/vsimem/a'' \<in> dom (map_of (oFileList (fst st)))"
proof -
  let ?fs = "fs\<lparr>errno := ENOENT\<rparr>"
  have n: "NormalizePath ''/vsimem/a/'' = ''/vsimem/a''" "NormalizePath ''/vsimem/a'' = ''/vsimem/a''"
    "NormalizePath ''/vsimem'' = ''/vsimem''" by code_simp+
  have h: "GetHandler example_system ''/vsimem/a/'' = Memory" "GetHandler example_system ''/vsimem/a'' = Memory"
    "GetHandler example_system ''/vsimem'' = Memory" by code_simp+
  have pa: "CPLGetPath (pathBuf example_system) ''/vsimem/a/'' = Some ''/vsimem/a''"
    by (rule CPLGetPath_parent [of _ _ _ "[]"])
      (simp_all add: sys_ok_def example_system_def is_slash_def c_string_def CPL_PATH_BUF_SIZE_def)
  have pb: "CPLGetPath (pathBuf example_system) ''/vsimem/a'' = Some ''/vsimem''"
    by (rule CPLGetPath_parent [of _ _ _ "''a''"])
      (simp_all add: sys_ok_def example_system_def is_slash_def c_string_def CPL_PATH_BUF_SIZE_def)
  have st: "VSIStatL example_system ''/vsimem/a/'' (fs, ()) = ((?fs, ()), None)"
    "VSIStatL example_system ''/vsimem/a'' (?fs, ()) = ((?fs, ()), None)"
    "\<exists>s. VSIStatL example_system ''/vsimem'' (?fs, ()) = ((?fs, ()), Some s)"
    using assms by (simp_all add: VSIStatL_def h Stat_def n Let_def)
  obtain fs' where m: "VSIMkdir example_system ''/vsimem/a'' (?fs, ()) = ((fs', ()), 0)"
    "''/vsimem/a'' \<in> dom (map_of (oFileList fs'))"
    using assms by (simp add: VSIMkdir_def h Mkdir_def n make_file_def set_name_def Let_def map_of_put)
  have r: "VSIMkdirRecursive example_system ''/vsimem/a'' (?fs, ()) = Some ((fs', ()), 0)"
    using st(2,3) pb m(1) by (subst VSIMkdirRecursive.simps) auto
  obtain fs2 where e: "VSIMkdir example_system ''/vsimem/a/'' (fs', ()) = ((fs2, ()), - 1)" "oFileList fs2 = oFileList fs'"
    using m(2) by (auto simp: VSIMkdir_def h Mkdir_def n Let_def)
  have "VSIMkdirRecursive example_system ''/vsimem/a/'' (fs, ()) = Some ((fs2, ()), - 1)"
    using st pa r e(1) by (subst VSIMkdirRecursive.simps) auto
  then show ?thesis using m(2) e(2) by auto
qed

end
