(* ===== verification/Spec2Isabelle.thy ===== *)
theory Spec2Isabelle
  imports CslCore CslNames Tokenize StringList Utf8 Escape StrUtil HashSet Base64 Sha256 Sha1 Md5 TimeConv HalfFloat JsonWriter Printf Paths VsiMem
begin

text \<open>
  A model of the portability library (CPL, \<open>port/\<close>) of the GDAL 3.8.4 sources that the repository
  carries under \<open>src/utils/gdal-3.8.4\<close>, with the theorems that make it correct.  CPL is the layer
  every driver and tool of GDAL stands on: string lists and options, text conversion, containers.
  File names below are relative to \<open>src/utils/gdal-3.8.4/port\<close>.

  \<^bold>\<open>Parts and theories.\<close>
  \<^item> Prelude: widths of the C types, characters and strings of the C library, arrays with checked
    access (\<open>arr_get\<close>, \<open>arr_set\<close>), append-only buffers (\<open>buf_put\<close>), \<open>int\<close> expressions with
    checked overflow (\<open>c_int\<close>), bits of natural numbers, list lemmas, and sequences of operations
    (\<open>run_ops\<close>) with the locale \<open>simulation\<close>: operations that agree with an abstract specification
    one at a time agree with it in any sequence.
  \<^item> CslCore: the \<open>char **\<close> string lists of \<open>cpl_string.cpp\<close>, with the operations that move
    cells in place on arrays of cells.
  \<^item> CslNames: lookup, update and merge of \<open>NAME=VALUE\<close> lines (\<open>cpl_string.cpp\<close>).
  \<^item> Tokenize: CSLTokenizeString2 and the functions built on it (\<open>cpl_string.cpp\<close>).
  \<^item> StringList: the class CPLStringList (\<open>cplstringlist.cpp\<close>), a record of its members with the
    ownership of the array, its allocated size and the sorted flag.  It uses the searches of
    CslNames.
  \<^item> Utf8: the converter of \<open>cpl_recode_stub.cpp\<close> and the entry points of \<open>cpl_recode.cpp\<close>.
    Its four conversions into a bounded destination share the locale \<open>bounded_converter\<close>.
  \<^item> Escape: CPLEscapeString and CPLUnescapeString (\<open>cpl_string.cpp\<close>).
  \<^item> Printf: CPLvsnprintf and CPLSPrintf (\<open>cpl_string.cpp\<close>) for one floating point argument: a decimal point in any
    locale, on what the C library prints.
  \<^item> StrUtil: hexadecimal text, bounded copies, the type of a value (\<open>cpl_string.cpp\<close>).
  \<^item> HashSet: the hash set of \<open>cpl_hash_set.cpp\<close>; what it needs of its two functions is the locale
    \<open>hash_contract\<close>.
  \<^item> Base64: \<open>cpl_base64.cpp\<close>.
  \<^item> BlockHash: what the three message digests share, with the locales \<open>block_hash\<close> (the law of an
    update) and \<open>stream_digest\<close> (initialise, update, finish); Sha256, Sha1 and Md5
    (\<open>cpl_sha256.cpp\<close>, \<open>cpl_sha1.cpp\<close>, \<open>cpl_md5.cpp\<close>) interpret them.
  \<^item> TimeConv: \<open>cpl_time.cpp\<close>; its date parser uses Tokenize.
  \<^item> HalfFloat: the conversions of \<open>cpl_float.cpp\<close> on bit patterns, and the numbers these stand for.
  \<^item> JsonParser: the class CPLJSonStreamingParser (\<open>cpl_json_streaming_parser.cpp\<close>), which gets a document
    in pieces and calls a method for each part, and the stack machine its calls follow; JsonText: the
    grammar of JSON texts and their trees; JsonWriter: the class CPLJSonStreamingWriter
    (\<open>cpl_json_streaming_writer.cpp\<close>) and the clients that write documents with it.
  \<^item> Paths: the functions of \<open>cpl_path.cpp\<close> that take file names apart and put them together, in
    static buffers of 2048 characters, and the lists of files that are renamed together.
  \<^item> MemFile: one file in memory and its handles (VSIMemFile and VSIMemHandle of
    \<open>cpl_vsi_mem.cpp\<close>); MemFs: the file system of such files (VSIMemFilesystemHandler), the
    dispatch to handlers and the recursive creation of directories of \<open>cpl_vsil.cpp\<close>, on
    the path functions of Paths; VsiMem: the machine of all its operations and what they guarantee.
    Both interpret \<open>simulation\<close>, MemFile with the bytes of a file and a position,
    VsiMem with a finite map from names to files and directories.

  \<^bold>\<open>Modelling conventions.\<close>  A C string is the list of its characters without the terminator, or a
  memory block with it where the code works on raw buffers.  An access outside an array is undefined behaviour and the result \<open>None\<close>; so is an overflow of
  \<open>int\<close> where the code computes with counts, positions, sizes and numbers that are read (\<open>c_int\<close>),
  and a theorem that gives \<open>Some\<close> says that neither happens.  Conversions between \<open>size_t\<close> and \<open>int\<close> that the
  code makes without a check cut the value off as the machine does (\<open>size_to_int\<close>, \<open>int_to_size\<close>).  The loops that only
  walk along a list or a text to count it or to find a line in it (CSLCount, CSLFindString, CSLFindName) give its
  length or a position in it; that is the \<open>int\<close> of the code for less than 2^31 elements, and the theorems that rest on
  them say so.  Loops are recursive functions with a termination proof, so no fuel
  is used; a loop that ends for some arguments only is a partial function (\<open>renormalize\<close>, \<open>Rename_loop\<close>, where \<open>None\<close> is
  undefined behaviour or a loop without end).
  Memory allocation succeeds, except where an operation may report a failure to its caller.
  Virtual methods and callbacks are recorded as the list of their calls; the floating point functions of the
  C library that the JSON writer uses are a parameter (\<open>float_library\<close>), with the hypothesis \<open>prints_g\<close>: the
  conversion with 0 to 999999 significant digits prints a finite number as the C standard says, with a point or a comma.
  A static buffer that is returned and used again is an argument with arbitrary contents.
  What the file system in memory takes from outside is the record \<open>vsi_env\<close>: the sizes \<open>realloc\<close>
  serves, the contents of new memory and the clock; handlers of other file systems are
  parameters.  Mutexes are left out (each operation that takes one is a step), reference counts are kept
  but nothing is freed, lengths stay below 2^63 unless a file has a limit of its own.
  \<open>size_t\<close>, \<open>unsigned long\<close> and pointers have 64 bits, \<open>int\<close> and \<open>wchar_t\<close> 32.

  \<^bold>\<open>What the lemmas show.\<close>  Memory safety of the in-place and buffer code (insertion, removal,
  tokenizing, escaping, recoding, bounded copies), the invariants of CPLStringList and of the hash
  set, agreement of optimised routines with plain ones (binary and linear search, the UTF-8 test and
  its definition), refinement of abstract specifications (the hash set is a map from keys to
  elements, the digests are the standard functions of the concatenated message, times are those of the
  calendar, a small float is the same number when it is widened and the one below when it is narrowed),
  and round trips (escaping, recoding, hexadecimal text, Base64, dates,
  halfs).  The JSON parser never fails an assertion whatever it is fed, its calls are those of a document,
  and it reads every text of the grammar as its tree; the writer writes texts of the grammar, so what it
  writes is read back.  A path put together is taken apart into the same parts, no path function leaves
  its buffer, and the files that belong together are renamed together.  A file in memory is a sequence of bytes
  with a position, failures of memory included; the file system is a map of names whatever sequence of
  operations it serves; a move takes what is below a directory along and nothing else; what is written
  is read back, memory given to a file is given back, and the recursive mkdir leaves every directory on the
  way in place.  Theorems that end in a surprise (\<open>SetLength_overflow\<close>,
  \<open>Rename_case_undefined\<close>, \<open>Rename_into_itself\<close>, \<open>VSIMkdirRecursive_under_file\<close>, \<open>VSIMkdirRecursive_trailing\<close>,
  \<open>FindName_midpoint_overflow\<close>, \<open>CPLParseRFC822DateTime_year_overflow\<close>, \<open>DecodeUnicode_pair_replaced\<close>) show inputs
  the code does not serve as its comments promise.

  \<^bold>\<open>Bounds.\<close>  The theorems state the sizes the code's types allow: sorted lists have at most 2^30 lines (the midpoint
  of the binary searches is an \<open>int\<close>), a directory is listed with at most 2^29 names, a hash set does less than
  536870971 operations (the table of sizes ends), texts stay below the size at which the \<open>int\<close> that holds the size of the
  result overflows (2^31 divided by the growth of a character), names fit the static buffers of 2048 characters.

  \<^bold>\<open>Not modelled.\<close>  File systems on disks, networks and archives, threads and processes; configuration
  options and error handlers, which are process-wide state around the functions modelled here;
  the raster and vector drivers and the
  numerical algorithms of GDAL; overwriting of the stack after a digest, and RSA signatures, which are
  calls of Crypto++ and OpenSSL; the JSON trees of \<open>cpl_json.cpp\<close>, which are those of the json-c library;
  the XML trees of CPL; the current directory and the Windows branches of the path functions; the
  Python detection model of the repository and the code Cython generates.
\<close>

end
